(* ===== verification/Prelude.thy ===== *)
theory Prelude
  imports Main "HOL-Library.Word"
begin

text \<open>
  Shared vocabulary of the development: the machine types of the Rust sources, the outcome of a
  call that may return an error or panic, big-endian byte conversions of the standard library
  (\<^verbatim>\<open>to_be_bytes\<close>, \<^verbatim>\<open>from_be_bytes\<close>), UTF-8 validity (\<^verbatim>\<open>std::str::from_utf8\<close>), the checked
  arithmetic of \<^verbatim>\<open>usize\<close>, and the generic list and word lemmas the components share.
\<close>

section \<open>Machine types\<close>

type_synonym u8 = "8 word"
type_synonym u16 = "16 word"
type_synonym u32 = "32 word"
type_synonym u64 = "64 word"
type_synonym bytes = "u8 list"
type_synonym usize = nat

text \<open>
  \<^verbatim>\<open>usize\<close> is 64 bits wide on the targets of the program. It is a natural number here, and
  every addition the sources check is checked against \<open>usize_max\<close>.
\<close>

definition usize_max :: nat where
  "usize_max = 2 ^ 64 - 1"

definition checked_add :: "usize \<Rightarrow> usize \<Rightarrow> usize option" where
  "checked_add a b = (if a + b \<le> usize_max then Some (a + b) else None)"

definition checked_sub :: "usize \<Rightarrow> usize \<Rightarrow> usize option" where
  "checked_sub a b = (if b \<le> a then Some (a - b) else None)"

section \<open>Outcomes\<close>

text \<open>
  A Rust call returns \<^verbatim>\<open>Ok\<close>, returns \<^verbatim>\<open>Err\<close>, or panics (\<^verbatim>\<open>unwrap\<close> of an error, an index out of
  range, an arithmetic overflow in a checked build, \<^verbatim>\<open>unreachable!\<close>).
\<close>

datatype ('e, 'a) res = Ok 'a | Err 'e | Panic

primrec res_bind :: "('e, 'a) res \<Rightarrow> ('a \<Rightarrow> ('e, 'b) res) \<Rightarrow> ('e, 'b) res" where
  "res_bind (Ok a) f = f a"
| "res_bind (Err e) f = Err e"
| "res_bind Panic f = Panic"

primrec map_err :: "('e \<Rightarrow> 'f) \<Rightarrow> ('e, 'a) res \<Rightarrow> ('f, 'a) res" where
  "map_err g (Ok a) = Ok a"
| "map_err g (Err e) = Err (g e)"
| "map_err g Panic = Panic"

primrec unwrap :: "('e, 'a) res \<Rightarrow> ('f, 'a) res" where
  "unwrap (Ok a) = Ok a"
| "unwrap (Err e) = Panic"
| "unwrap Panic = Panic"

definition ok_or :: "'e \<Rightarrow> 'a option \<Rightarrow> ('e, 'a) res" where
  "ok_or e x = (case x of None \<Rightarrow> Err e | Some a \<Rightarrow> Ok a)"

section \<open>Big-endian bytes\<close>

primrec be_bytes :: "nat \<Rightarrow> nat \<Rightarrow> bytes" where
  "be_bytes 0 x = []"
| "be_bytes (Suc n) x = be_bytes n (x div 256) @ [word_of_nat (x mod 256)]"

definition from_be :: "bytes \<Rightarrow> nat" where
  "from_be bs = foldl (\<lambda>a b. a * 256 + unat b) 0 bs"

definition to_be16 :: "u16 \<Rightarrow> bytes" where
  "to_be16 w = be_bytes 2 (unat w)"

definition to_be32 :: "u32 \<Rightarrow> bytes" where
  "to_be32 w = be_bytes 4 (unat w)"

definition to_be64 :: "u64 \<Rightarrow> bytes" where
  "to_be64 w = be_bytes 8 (unat w)"

section \<open>Positional notation\<close>

text \<open>
  Minimal big-endian digits of a number in a base: no leading zero, and no digit at all for 0.
\<close>

fun digits :: "nat \<Rightarrow> nat \<Rightarrow> nat list" where
  "digits b n = (if b < 2 \<or> n = 0 then [] else digits b (n div b) @ [n mod b])"

declare digits.simps [simp del]

definition undigits :: "nat \<Rightarrow> nat list \<Rightarrow> nat" where
  "undigits b ds = foldl (\<lambda>a d. a * b + d) 0 ds"

section \<open>UTF-8\<close>

text \<open>
  \<^verbatim>\<open>std::str::from_utf8\<close> accepts exactly the well-formed sequences of the Unicode standard,
  table 3-7: no overlong form, no surrogate, nothing above U+10FFFF.
\<close>

definition cont_byte :: "u8 \<Rightarrow> bool" where
  "cont_byte b \<longleftrightarrow> 0x80 \<le> b \<and> b \<le> 0xBF"

fun utf8_valid :: "bytes \<Rightarrow> bool" where
  "utf8_valid [] = True"
| "utf8_valid (a # r) =
     (if a \<le> 0x7F then utf8_valid r
      else if 0xC2 \<le> a \<and> a \<le> 0xDF then
        (case r of b # r' \<Rightarrow> cont_byte b \<and> utf8_valid r' | _ \<Rightarrow> False)
      else if 0xE0 \<le> a \<and> a \<le> 0xEF then
        (case r of b # c # r' \<Rightarrow>
           (if a = 0xE0 then 0xA0 \<le> b \<and> b \<le> 0xBF
            else if a = 0xED then 0x80 \<le> b \<and> b \<le> 0x9F else cont_byte b)
           \<and> cont_byte c \<and> utf8_valid r'
         | _ \<Rightarrow> False)
      else if 0xF0 \<le> a \<and> a \<le> 0xF4 then
        (case r of b # c # d # r' \<Rightarrow>
           (if a = 0xF0 then 0x90 \<le> b \<and> b \<le> 0xBF
            else if a = 0xF4 then 0x80 \<le> b \<and> b \<le> 0x8F else cont_byte b)
           \<and> cont_byte c \<and> cont_byte d \<and> utf8_valid r'
         | _ \<Rightarrow> False)
      else False)"

section \<open>Shared lemmas\<close>

named_theorems byte_simps \<open>lengths and inverses of the byte conversions\<close>

lemma res_bind_eq_Ok [simp]:
  "res_bind m f = Ok b \<longleftrightarrow> (\<exists>a. m = Ok a \<and> f a = Ok b)"
  by (cases m) auto

lemma res_bind_eq_Panic: "res_bind m f = Panic \<longleftrightarrow> m = Panic \<or> (\<exists>a. m = Ok a \<and> f a = Panic)"
  by (cases m) auto

lemma res_bind_eq_Err: "res_bind m f = Err e \<longleftrightarrow> m = Err e \<or> (\<exists>a. m = Ok a \<and> f a = Err e)"
  by (cases m) auto

lemma map_err_eq_Ok [simp]: "map_err g m = Ok a \<longleftrightarrow> m = Ok a"
  by (cases m) auto

lemma map_err_eq_Panic [simp]: "map_err g m = Panic \<longleftrightarrow> m = Panic"
  by (cases m) auto

lemma unwrap_eq_Ok [simp]: "unwrap m = Ok a \<longleftrightarrow> m = Ok a"
  by (cases m) auto

lemma unwrap_not_Err [simp]: "unwrap m \<noteq> Err e"
  by (cases m) auto

lemma ok_or_eq_Ok [simp]: "ok_or e x = Ok a \<longleftrightarrow> x = Some a"
  by (cases x) (auto simp: ok_or_def)

lemma ok_or_simps [simp]: "ok_or e (Some a) = Ok a" "ok_or e None = Err e"
  by (simp_all add: ok_or_def)

lemma checked_add_eq_Some [simp]:
  "checked_add a b = Some c \<longleftrightarrow> a + b \<le> usize_max \<and> c = a + b"
  by (auto simp: checked_add_def)

lemma checked_sub_eq_Some [simp]:
  "checked_sub a b = Some c \<longleftrightarrow> b \<le> a \<and> c = a - b"
  by (auto simp: checked_sub_def)

lemma length_be_bytes [simp, byte_simps]: "length (be_bytes n x) = n"
  by (induction n arbitrary: x) auto

lemma from_be_Nil [simp]: "from_be [] = 0"
  by (simp add: from_be_def)

lemma from_be_snoc [simp]: "from_be (bs @ [b]) = from_be bs * 256 + unat b"
  by (simp add: from_be_def)

lemma unat_bound: "unat (w :: 'a::len word) < 2 ^ LENGTH('a)"
  by simp

lemma unat_byte_less [simp]: "unat (b :: u8) < 256"
  using unat_bound [of b] by simp

lemma unat_word_of_mod_256: "unat (word_of_nat (x mod 256) :: u8) = x mod 256"
  by (simp add: unat_of_nat take_bit_eq_mod)

lemma from_be_be_bytes: "from_be (be_bytes n x) = x mod 256 ^ n"
proof (induction n arbitrary: x)
  case 0
  then show ?case by simp
next
  case (Suc n)
  have "x div 256 mod 256 ^ n * 256 + x mod 256 = x mod 256 ^ Suc n"
    by (simp add: mod_mult2_eq mult.commute)
  with Suc show ?case by (simp add: unat_word_of_mod_256)
qed

lemma from_be_less: "from_be bs < 256 ^ length bs"
proof (induction bs rule: rev_induct)
  case Nil
  then show ?case by simp
next
  case (snoc b bs)
  have "from_be bs * 256 + unat b < (from_be bs + 1) * 256"
    using unat_byte_less [of b] by simp
  also have "\<dots> \<le> 256 ^ length bs * 256"
    using snoc by (intro mult_le_mono1) simp
  finally show ?case by simp
qed

lemma be_bytes_from_be: "be_bytes (length bs) (from_be bs) = bs"
proof (induction bs rule: rev_induct)
  case Nil
  then show ?case by simp
next
  case (snoc b bs)
  then show ?case by simp
qed

lemma be_bytes_from_be_n: "length bs = n \<Longrightarrow> be_bytes n (from_be bs) = bs"
  using be_bytes_from_be by blast

lemma length_to_be [simp, byte_simps]:
  "length (to_be16 a) = 2" "length (to_be32 b) = 4" "length (to_be64 c) = 8"
  by (simp_all add: to_be16_def to_be32_def to_be64_def)

lemma from_be_to_be [simp, byte_simps]:
  "from_be (to_be16 a) = unat a" "from_be (to_be32 b) = unat b" "from_be (to_be64 c) = unat c"
  using unat_bound [of a] unat_bound [of b] unat_bound [of c]
  by (simp_all add: to_be16_def to_be32_def to_be64_def from_be_be_bytes)

lemma to_be_from_be:
  "length bs = 2 \<Longrightarrow> to_be16 (word_of_nat (from_be bs)) = bs"
  "length bs = 4 \<Longrightarrow> to_be32 (word_of_nat (from_be bs)) = bs"
  "length bs = 8 \<Longrightarrow> to_be64 (word_of_nat (from_be bs)) = bs"
  using from_be_less [of bs]
  by (simp_all add: to_be16_def to_be32_def to_be64_def unat_of_nat take_bit_nat_eq_self_iff
      be_bytes_from_be_n)

lemma digits_0 [simp]: "digits b 0 = []"
  by (simp add: digits.simps)

lemma digits_eq_Nil [simp]: "2 \<le> b \<Longrightarrow> digits b n = [] \<longleftrightarrow> n = 0"
  by (subst digits.simps) auto

lemma undigits_Nil [simp]: "undigits b [] = 0"
  by (simp add: undigits_def)

lemma undigits_snoc [simp]: "undigits b (ds @ [d]) = undigits b ds * b + d"
  by (simp add: undigits_def)

lemma undigits_replicate_0 [simp]: "undigits b (replicate k 0 @ ds) = undigits b ds"
proof (induction ds rule: rev_induct)
  case Nil
  have "undigits b (replicate k 0) = 0"
    by (induction k) (simp_all add: replicate_append_same [symmetric])
  then show ?case by simp
next
  case (snoc d ds)
  then show ?case by (metis append_assoc undigits_snoc)
qed

lemma undigits_digits: "2 \<le> b \<Longrightarrow> undigits b (digits b n) = n"
proof (induction b n rule: digits.induct)
  case (1 b n)
  then show ?case by (cases "n = 0") (simp_all add: digits.simps [of b n])
qed

lemma digits_less: "d \<in> set (digits b n) \<Longrightarrow> d < b"
proof (induction b n rule: digits.induct)
  case (1 b n)
  then show ?case
    by (cases "b < 2 \<or> n = 0") (auto simp: digits.simps [of b n])
qed

lemma hd_digits: "digits b n \<noteq> [] \<Longrightarrow> 0 < hd (digits b n)"
proof (induction b n rule: digits.induct)
  case (1 b n)
  show ?case
  proof (cases "b < 2 \<or> n = 0")
    case True
    with "1.prems" show ?thesis by (simp add: digits.simps [of b n])
  next
    case False
    with "1.IH" show ?thesis
      by (cases "n div b = 0") (auto simp: digits.simps [of b n] hd_append div_eq_0_iff)
  qed
qed

lemma undigits_pos: "ds \<noteq> [] \<Longrightarrow> 0 < hd ds \<Longrightarrow> 0 < b \<Longrightarrow> 0 < undigits b ds"
proof (induction ds rule: rev_induct)
  case Nil
  then show ?case by simp
next
  case (snoc d ds)
  show ?case
  proof (cases "ds = []")
    case True
    with snoc.prems show ?thesis by (simp add: undigits_def)
  next
    case False
    with snoc have "0 < undigits b ds" by simp
    with snoc.prems show ?thesis by simp
  qed
qed

lemma digits_undigits:
  assumes "2 \<le> b" and "\<forall>d \<in> set ds. d < b" and "ds \<noteq> [] \<Longrightarrow> 0 < hd ds"
  shows "digits b (undigits b ds) = ds"
  using assms(2,3)
proof (induction ds rule: rev_induct)
  case Nil
  then show ?case by simp
next
  case (snoc d ds)
  have d: "d < b" using snoc.prems(1) by simp
  have IH: "digits b (undigits b ds) = ds"
    using snoc by (cases ds) auto
  have pos: "0 < undigits b ds * b + d"
    using undigits_pos [of "ds @ [d]" b] snoc.prems(2) assms(1) by simp
  have "(undigits b ds * b + d) div b = undigits b ds" and "(undigits b ds * b + d) mod b = d"
    using d assms(1) by simp_all
  then show ?case
    using IH pos assms(1) by (subst undigits_snoc, subst digits.simps) simp
qed

lemma length_digits_le: "2 \<le> b \<Longrightarrow> n < b ^ k \<Longrightarrow> length (digits b n) \<le> k"
proof (induction k arbitrary: n)
  case 0
  then show ?case by simp
next
  case (Suc k)
  have "n div b < b ^ k"
    using Suc.prems by (simp add: less_mult_imp_div_less mult.commute)
  then have "length (digits b (n div b)) \<le> k"
    using Suc by blast
  then show ?case by (subst digits.simps) simp
qed

lemma from_be_undigits: "from_be bs = undigits 256 (map unat bs)"
  by (induction bs rule: rev_induct) simp_all

lemma sint_of_int32: "- (2 ^ 31) \<le> x \<Longrightarrow> x < 2 ^ 31 \<Longrightarrow> sint (word_of_int x :: u32) = x"
  by (simp add: signed_of_int signed_take_bit_int_eq_self)

lemma sint_power2: "k < 31 \<Longrightarrow> sint (2 ^ k :: u32) = 2 ^ k"
proof -
  assume k: "k < 31"
  have "(2 ^ k :: int) < 2 ^ 31" using k by (intro power_strict_increasing) auto
  moreover have "- (2 ^ 31) \<le> (2 ^ k :: int)"
    by (rule order_trans [of _ 0]) auto
  ultimately have "sint (word_of_int (2 ^ k) :: u32) = 2 ^ k"
    by (intro sint_of_int32)
  then show ?thesis by (simp add: of_int_power)
qed

lemma sint_sub32:
  assumes "- (2 ^ 31) \<le> sint a - g" and "sint a - g < 2 ^ 31"
  shows "sint (a - word_of_int g :: u32) = sint a - g"
proof -
  have "a - word_of_int g = word_of_int (sint a - g)" by simp
  then show ?thesis using sint_of_int32 [OF assms] by simp
qed

lemma list_len_split:
  assumes "n \<le> length xs"
  obtains ys zs where "xs = ys @ zs" "length ys = n"
  using assms by (metis append_take_drop_id length_take min.absorb2)

lemma char_of_byte: "char_of (unat (of_char c :: u8)) = c"
proof -
  have "(of_char c :: u8) = word_of_nat (of_char c)" by (simp only: of_nat_of_char)
  then have "unat (of_char c :: u8) = (of_char c :: nat)"
    using nat_of_char_less_256 [of c] by (simp only: unat_of_nat take_bit_eq_mod) simp
  then show ?thesis by simp
qed

end
