(* ===== verification/Crates_Crypto.thy ===== *)
theory Crates_Crypto
  imports Prelude
begin

text \<open>
  Interfaces of the external crates the \<^verbatim>\<open>crypto\<close> crate calls: \<^verbatim>\<open>sodiumoxide\<close> (SHA-256, the
  unkeyed BLAKE2b state, the authenticated box), \<^verbatim>\<open>base58\<close>, \<^verbatim>\<open>num_bigint\<close> and \<^verbatim>\<open>hex\<close>. Their code
  is not part of the repository, so each crate is a record of the functions the sources call,
  passed as an argument to every definition that uses it, and a locale that states the documented
  behaviour the sources rely on. The reference instances at the end satisfy the laws; witnesses
  run the model on them.
\<close>

section \<open>sodiumoxide\<close>

record 'st sodium =
  sha256 :: "bytes \<Rightarrow> bytes"
  gh_new :: "nat \<Rightarrow> 'st option"
  gh_update :: "'st \<Rightarrow> bytes \<Rightarrow> 'st option"
  gh_finalize :: "'st \<Rightarrow> bytes option"
  box_precompute :: "bytes \<Rightarrow> bytes \<Rightarrow> bytes"
  box_seal :: "bytes \<Rightarrow> bytes \<Rightarrow> bytes \<Rightarrow> bytes"
  box_open :: "bytes \<Rightarrow> bytes \<Rightarrow> bytes \<Rightarrow> bytes option"

text \<open>
  SHA-256 digests have 32 bytes. A BLAKE2b state exists for output lengths 16 to 64 and then
  yields a digest of that length. Sealing adds the 16 bytes of the MAC, and opening with the same
  nonce and key returns the message.
\<close>

locale sodium_laws =
  fixes S :: "'st sodium"
  assumes sha256_length: "length (sha256 S d) = 32"
    and gh_new_None: "n < 16 \<or> 64 < n \<Longrightarrow> gh_new S n = None"
    and gh_digest: "16 \<le> n \<Longrightarrow> n \<le> 64 \<Longrightarrow>
      \<exists>st st' h. gh_new S n = Some st \<and> gh_update S st d = Some st' \<and> gh_finalize S st' = Some h
        \<and> length h = n"
    and box_open_seal: "box_open S (box_seal S m nc k) nc k = Some m"
    and box_seal_length: "length (box_seal S m nc k) = length m + 16"

section \<open>base58\<close>

record base58 =
  to_base58 :: "bytes \<Rightarrow> string"
  from_base58 :: "string \<Rightarrow> bytes option"

text \<open>
  Decoding inverts encoding, and since \<open>58\<^sup>2 > 256\<close> a byte needs at most two characters.
\<close>

locale base58_laws =
  fixes B :: base58
  assumes from_to_base58: "from_base58 B (to_base58 B bs) = Some bs"
    and to_base58_length: "length (to_base58 B bs) \<le> 2 * length bs"

section \<open>num\_bigint\<close>

text \<open>
  A \<^verbatim>\<open>BigUint\<close> is a natural number and a \<^verbatim>\<open>BigInt\<close> an integer; the conversions to bytes and to
  digits are the crate's.
\<close>

record bigint =
  biguint_from_bytes_be :: "bytes \<Rightarrow> nat"
  biguint_to_bytes_be :: "nat \<Rightarrow> bytes"
  biguint_from_bytes_le :: "bytes \<Rightarrow> nat"
  to_str_radix16 :: "int \<Rightarrow> string"
  bigint_from_bytes_be :: "bool \<Rightarrow> bytes \<Rightarrow> int"

definition hex_char :: "nat \<Rightarrow> char" where
  "hex_char d = ''0123456789abcdef'' ! d"

text \<open>
  \<^verbatim>\<open>to_bytes_be\<close> is minimal, except that zero is one zero byte; \<^verbatim>\<open>to_str_radix(16)\<close> writes a
  sign and then minimal lower-case digits, with \<^verbatim>\<open>"0"\<close> for zero. The flag of \<open>bigint_from_bytes_be\<close> is
  \<^verbatim>\<open>Sign::Minus\<close>.
\<close>

locale bigint_laws =
  fixes I :: bigint
  assumes from_bytes_be: "biguint_from_bytes_be I bs = from_be bs"
    and to_bytes_be_0: "biguint_to_bytes_be I 0 = [0]"
    and to_bytes_be_pos: "0 < n \<Longrightarrow> biguint_to_bytes_be I n = map word_of_nat (digits 256 n)"
    and from_bytes_le: "biguint_from_bytes_le I bs = from_be (rev bs)"
    and to_str_radix_0: "to_str_radix16 I 0 = ''0''"
    and to_str_radix_pos: "0 < i \<Longrightarrow> to_str_radix16 I i = map hex_char (digits 16 (nat i))"
    and bigint_from_be: "bigint_from_bytes_be I neg bs = (if neg then - int (from_be bs) else int (from_be bs))"
    and to_str_radix_neg: "i < 0 \<Longrightarrow> to_str_radix16 I i = CHR ''-'' # to_str_radix16 I (- i)"

section \<open>hex\<close>

record hex_crate =
  hex_decode :: "string \<Rightarrow> (string, bytes) res"
  hex_encode :: "bytes \<Rightarrow> string"

locale hex_laws =
  fixes H :: hex_crate
  assumes hex_encode_def: "hex_encode H bs =
      concat (map (\<lambda>b. [hex_char (unat b div 16), hex_char (unat b mod 16)]) bs)"
    and hex_decode_encode: "hex_decode H (hex_encode H bs) = Ok bs"

section \<open>Reference instances\<close>

definition b58_alphabet :: string where
  "b58_alphabet = ''123456789ABCDEFGHJKLMNPQRSTUVWXYZabcdefghijkmnopqrstuvwxyz''"

definition b58_index :: "char \<Rightarrow> nat" where
  "b58_index c = length (takeWhile (\<lambda>x. x \<noteq> c) b58_alphabet)"

definition to_base58_ref :: "bytes \<Rightarrow> string" where
  "to_base58_ref bs =
     replicate (length (takeWhile (\<lambda>b. b = 0) bs)) (b58_alphabet ! 0)
     @ map (\<lambda>d. b58_alphabet ! d) (digits 58 (from_be bs))"

definition from_base58_ref :: "string \<Rightarrow> bytes option" where
  "from_base58_ref s =
     (if list_all (\<lambda>c. b58_index c < 58) s then
        Some (replicate (length (takeWhile (\<lambda>d. d = 0) (map b58_index s))) 0
          @ map word_of_nat (digits 256 (undigits 58 (map b58_index s))))
      else None)"

definition base58_ref :: base58 where
  "base58_ref = \<lparr>to_base58 = to_base58_ref, from_base58 = from_base58_ref\<rparr>"

definition sodium_ref :: "(nat \<times> bytes) sodium" where
  "sodium_ref = \<lparr>
     sha256 = (\<lambda>d. be_bytes 32 (from_be d)),
     gh_new = (\<lambda>n. if 16 \<le> n \<and> n \<le> 64 then Some (n, []) else None),
     gh_update = (\<lambda>(n, b) d. Some (n, b @ d)),
     gh_finalize = (\<lambda>(n, b). Some (be_bytes n (from_be b))),
     box_precompute = (\<lambda>pk sk. pk @ sk),
     box_seal = (\<lambda>m n k. replicate 16 0 @ m),
     box_open = (\<lambda>c n k. if take 16 c = replicate 16 0 then Some (drop 16 c) else None)\<rparr>"

definition to_str_radix16_ref :: "int \<Rightarrow> string" where
  "to_str_radix16_ref i =
     (if i = 0 then ''0''
      else if 0 < i then map hex_char (digits 16 (nat i))
      else CHR ''-'' # map hex_char (digits 16 (nat (- i))))"

definition bigint_ref :: bigint where
  "bigint_ref = \<lparr>
     biguint_from_bytes_be = from_be,
     biguint_to_bytes_be = (\<lambda>n. if n = 0 then [0] else map word_of_nat (digits 256 n)),
     biguint_from_bytes_le = (\<lambda>bs. from_be (rev bs)),
     to_str_radix16 = to_str_radix16_ref,
     bigint_from_bytes_be = (\<lambda>neg bs. if neg then - int (from_be bs) else int (from_be bs))\<rparr>"

definition hex_val :: "char \<Rightarrow> nat option" where
  "hex_val c =
     (let n = of_char c :: nat in
      if 48 \<le> n \<and> n \<le> 57 then Some (n - 48)
      else if 97 \<le> n \<and> n \<le> 102 then Some (n - 87)
      else if 65 \<le> n \<and> n \<le> 70 then Some (n - 55)
      else None)"

fun hex_decode_ref :: "string \<Rightarrow> bytes option" where
  "hex_decode_ref [] = Some []"
| "hex_decode_ref [c] = None"
| "hex_decode_ref (c # d # r) =
     (case (hex_val c, hex_val d, hex_decode_ref r) of
        (Some x, Some y, Some bs) \<Rightarrow> Some (word_of_nat (x * 16 + y) # bs)
      | _ \<Rightarrow> None)"

definition hex_ref :: hex_crate where
  "hex_ref = \<lparr>hex_decode = (\<lambda>s. ok_or ''Invalid character'' (hex_decode_ref s)),
     hex_encode = (\<lambda>bs. concat (map (\<lambda>b. [hex_char (unat b div 16), hex_char (unat b mod 16)]) bs))\<rparr>"

subsection \<open>The instances satisfy the laws\<close>

lemma b58_alphabet_facts: "length b58_alphabet = 58" "distinct b58_alphabet"
  by (simp_all add: b58_alphabet_def)

lemma takeWhile_neq_nth:
  "distinct xs \<Longrightarrow> i < length xs \<Longrightarrow> takeWhile (\<lambda>x. x \<noteq> xs ! i) xs = take i xs"
  by (rule takeWhile_eq_take_P_nth) (auto simp: nth_eq_iff_index_eq)

lemma b58_index_nth [simp]: "d < 58 \<Longrightarrow> b58_index (b58_alphabet ! d) = d"
  by (simp add: b58_index_def takeWhile_neq_nth b58_alphabet_facts)

lemma split_leading_zeros:
  obtains z r where "bs = replicate z (0 :: u8) @ r" "r \<noteq> [] \<Longrightarrow> hd r \<noteq> 0"
    "length (takeWhile (\<lambda>b. b = 0) bs) = z"
proof
  show "bs = replicate (length (takeWhile (\<lambda>b. b = 0) bs)) 0 @ dropWhile (\<lambda>b. b = 0) bs"
    by (metis (mono_tags) replicate_eqI set_takeWhileD takeWhile_dropWhile_id)
  show "dropWhile (\<lambda>b. b = 0) bs \<noteq> [] \<Longrightarrow> hd (dropWhile (\<lambda>b. b = 0) bs) \<noteq> 0"
    by (rule hd_dropWhile)
qed simp

lemma digits_256_from_be:
  assumes "r \<noteq> [] \<Longrightarrow> hd r \<noteq> (0 :: u8)"
  shows "map word_of_nat (digits 256 (from_be r)) = r"
proof -
  have "digits 256 (undigits 256 (map unat r)) = map unat r"
    using assms by (intro digits_undigits) (auto simp: hd_map unat_gt_0)
  then show ?thesis by (simp add: from_be_undigits o_def)
qed

lemma from_be_leading_zeros: "from_be (replicate z 0 @ r) = from_be r"
  by (simp add: from_be_undigits)

lemma takeWhile_digits_zero:
  "takeWhile (\<lambda>d. d = 0) (replicate z 0 @ digits 58 n) = replicate z 0"
proof -
  have "takeWhile (\<lambda>d. d = 0) (digits 58 n) = []"
    using hd_digits [of 58 n] by (cases "digits 58 n") auto
  moreover have "takeWhile (\<lambda>d. d = 0) (replicate z 0 @ xs) =
      replicate z 0 @ takeWhile (\<lambda>d. d = 0) xs" for xs :: "nat list"
    by (induction z) auto
  ultimately show ?thesis by simp
qed

lemma map_index_to_base58:
  "map b58_index (to_base58_ref bs)
     = replicate (length (takeWhile (\<lambda>b. b = 0) bs)) 0 @ digits 58 (from_be bs)"
proof -
  have "map (b58_index \<circ> (\<lambda>d. b58_alphabet ! d)) (digits 58 (from_be bs)) = digits 58 (from_be bs)"
    by (rule map_idI) (simp add: digits_less)
  then show ?thesis by (simp add: to_base58_ref_def)
qed

lemma from_to_base58_ref: "from_base58_ref (to_base58_ref bs) = Some bs"
proof -
  obtain z r where bs: "bs = replicate z 0 @ r" and r: "r \<noteq> [] \<Longrightarrow> hd r \<noteq> 0"
    and z: "length (takeWhile (\<lambda>b. b = 0) bs) = z"
    using split_leading_zeros [of bs] by metis
  have idx: "map b58_index (to_base58_ref bs) = replicate z 0 @ digits 58 (from_be bs)"
    using map_index_to_base58 [of bs] z by simp
  have "list_all (\<lambda>c. b58_index c < 58) (to_base58_ref bs)"
  proof -
    have "\<forall>d \<in> set (map b58_index (to_base58_ref bs)). d < 58"
      by (auto simp: idx dest: digits_less)
    then show ?thesis by (simp add: list_all_iff)
  qed
  then have "from_base58_ref (to_base58_ref bs)
      = Some (replicate z 0 @ map word_of_nat (digits 256 (from_be bs)))"
    by (simp add: from_base58_ref_def idx takeWhile_digits_zero undigits_digits)
  also have "\<dots> = Some bs"
    using r by (simp add: bs from_be_leading_zeros digits_256_from_be)
  finally show ?thesis .
qed

lemma length_to_base58_ref: "length (to_base58_ref bs) \<le> 2 * length bs"
proof -
  obtain z r where bs: "bs = replicate z 0 @ r"
    and z: "length (takeWhile (\<lambda>b. b = 0) bs) = z"
    using split_leading_zeros [of bs] by metis
  have "from_be bs < 256 ^ length r"
    using from_be_less [of r] by (simp add: bs from_be_leading_zeros)
  also have "(256::nat) ^ length r \<le> 58 ^ (2 * length r)"
    by (simp add: power_mult power_mono)
  finally have "length (digits 58 (from_be bs)) \<le> 2 * length r"
    by (rule length_digits_le [rotated]) simp
  then show ?thesis by (simp add: to_base58_ref_def z) (simp add: bs)
qed

interpretation base58_ref: base58_laws base58_ref
  by unfold_locales (simp_all add: base58_ref_def from_to_base58_ref length_to_base58_ref)

interpretation sodium_ref: sodium_laws sodium_ref
  by unfold_locales (auto simp: sodium_ref_def)

interpretation bigint_ref: bigint_laws bigint_ref
  by unfold_locales (simp_all add: bigint_ref_def to_str_radix16_ref_def)

lemma hex_val_hex_char: "d < 16 \<Longrightarrow> hex_val (hex_char d) = Some d"
proof -
  have "\<forall>d \<in> set [0..<16]. hex_val (hex_char d) = Some d"
    by code_simp
  then show "d < 16 \<Longrightarrow> hex_val (hex_char d) = Some d" by simp
qed

lemma hex_decode_encode_ref: "hex_decode_ref (hex_encode hex_ref bs) = Some bs"
proof (induction bs)
  case Nil
  then show ?case by (simp add: hex_ref_def)
next
  case (Cons b bs)
  have "unat b div 16 < 16"
    using unat_byte_less [of b] by linarith
  with Cons show ?case by (simp add: hex_ref_def hex_val_hex_char)
qed

interpretation hex_ref: hex_laws hex_ref
  by unfold_locales
    (simp add: hex_ref_def, use hex_decode_encode_ref in \<open>simp add: hex_ref_def\<close>)

end
