(* ===== verification/Crypto_Hash.thy ===== *)
theory Crypto_Hash
  imports Crates_Crypto
begin

text \<open>
  The typed hashes of \<^verbatim>\<open>crypto/src/hash.rs\<close> with their base58check text form
  (\<^verbatim>\<open>crypto/src/base58.rs\<close>) and the BLAKE2b digests of \<^verbatim>\<open>crypto/src/blake2b.rs\<close>. A value of the
  Rust newtypes made by \<^verbatim>\<open>define_hash!\<close> is its byte vector; the type is the \<open>hash_type\<close> argument of
  each operation.
\<close>

section \<open>Base58check\<close>

datatype from_base58check_error =
    InvalidBase58 | InvalidChecksum | MissingChecksum | FromDataTooLong
  | MismatchedLength (mm_expected: nat) (mm_actual: nat)

datatype to_base58check_error = ToDataTooLong

definition double_sha256 :: "'st sodium \<Rightarrow> bytes \<Rightarrow> bytes" where
  "double_sha256 S data = sha256 S (sha256 S data)"

definition checksum_byte_size :: nat where
  "checksum_byte_size = 4"

definition to_base58check ::
  "'st sodium \<Rightarrow> base58 \<Rightarrow> bytes \<Rightarrow> (to_base58check_error, string) res" where
  "to_base58check S B data =
     (if 128 < length data then Err ToDataTooLong
      else Ok (to_base58 B (data @ take 4 (double_sha256 S data))))"

definition from_base58check ::
  "'st sodium \<Rightarrow> base58 \<Rightarrow> string \<Rightarrow> (from_base58check_error, bytes) res" where
  "from_base58check S B str =
     (if 128 < length str then Err FromDataTooLong
      else case from_base58 B str of
        None \<Rightarrow> Err InvalidBase58
      | Some payload \<Rightarrow>
          (if checksum_byte_size \<le> length payload then
             (let data_len = length payload - checksum_byte_size;
                  data = take data_len payload;
                  checksum_provided = drop data_len payload;
                  checksum_expected = take 4 (double_sha256 S data)
              in if checksum_expected = checksum_provided then Ok data else Err InvalidChecksum)
           else Err MissingChecksum))"

section \<open>BLAKE2b digests\<close>

datatype blake2b_error = InvalidLenght | Blake2bOther

definition digest :: "'st sodium \<Rightarrow> bytes \<Rightarrow> nat \<Rightarrow> (blake2b_error, bytes) res" where
  "digest S data out_len =
     (case gh_new S out_len of
        None \<Rightarrow> Err InvalidLenght
      | Some hasher \<Rightarrow>
          (case gh_update S hasher data of
             None \<Rightarrow> Err Blake2bOther
           | Some hasher' \<Rightarrow> ok_or Blake2bOther (gh_finalize S hasher')))"

definition digest_256 :: "'st sodium \<Rightarrow> bytes \<Rightarrow> (blake2b_error, bytes) res" where
  "digest_256 S data = digest S data 32"

definition digest_160 :: "'st sodium \<Rightarrow> bytes \<Rightarrow> (blake2b_error, bytes) res" where
  "digest_160 S data = digest S data 20"

definition digest_128 :: "'st sodium \<Rightarrow> bytes \<Rightarrow> (blake2b_error, bytes) res" where
  "digest_128 S data = digest S data 16"

section \<open>Hash types\<close>

datatype hash_type =
    ChainId | BlockHash | BlockMetadataHash | ProtocolHash | ContextHash | OperationHash
  | OperationListListHash | OperationMetadataHash | OperationMetadataListListHash
  | CryptoboxPublicKeyHash | ContractKt1Hash | ContractTz1Hash | ContractTz2Hash | ContractTz3Hash
  | PublicKeyEd25519 | PublicKeySecp256k1 | PublicKeyP256

fun base58check_prefix :: "hash_type \<Rightarrow> bytes" where
  "base58check_prefix ChainId = [87, 82, 0]"
| "base58check_prefix BlockHash = [1, 52]"
| "base58check_prefix BlockMetadataHash = [234, 249]"
| "base58check_prefix ContextHash = [79, 199]"
| "base58check_prefix ProtocolHash = [2, 170]"
| "base58check_prefix OperationHash = [5, 116]"
| "base58check_prefix OperationListListHash = [29, 159, 109]"
| "base58check_prefix OperationMetadataHash = [5, 183]"
| "base58check_prefix OperationMetadataListListHash = [29, 159, 182]"
| "base58check_prefix CryptoboxPublicKeyHash = [153, 103]"
| "base58check_prefix ContractKt1Hash = [2, 90, 121]"
| "base58check_prefix ContractTz1Hash = [6, 161, 159]"
| "base58check_prefix ContractTz2Hash = [6, 161, 161]"
| "base58check_prefix ContractTz3Hash = [6, 161, 164]"
| "base58check_prefix PublicKeyEd25519 = [13, 15, 37, 217]"
| "base58check_prefix PublicKeySecp256k1 = [3, 254, 226, 86]"
| "base58check_prefix PublicKeyP256 = [3, 178, 139, 127]"

fun hash_size :: "hash_type \<Rightarrow> nat" where
  "hash_size ChainId = 4"
| "hash_size BlockHash = 32"
| "hash_size BlockMetadataHash = 32"
| "hash_size ContextHash = 32"
| "hash_size ProtocolHash = 32"
| "hash_size OperationHash = 32"
| "hash_size OperationListListHash = 32"
| "hash_size OperationMetadataHash = 32"
| "hash_size OperationMetadataListListHash = 32"
| "hash_size PublicKeyEd25519 = 32"
| "hash_size CryptoboxPublicKeyHash = 16"
| "hash_size ContractKt1Hash = 20"
| "hash_size ContractTz1Hash = 20"
| "hash_size ContractTz2Hash = 20"
| "hash_size ContractTz3Hash = 20"
| "hash_size PublicKeySecp256k1 = 33"
| "hash_size PublicKeyP256 = 33"

datatype from_bytes_error = InvalidSize

definition hash_to_b58check ::
  "'st sodium \<Rightarrow> base58 \<Rightarrow> hash_type \<Rightarrow> bytes \<Rightarrow> (from_bytes_error, string) res" where
  "hash_to_b58check S B ht data =
     (if hash_size ht \<noteq> length data then Err InvalidSize
      else unwrap (to_base58check S B (base58check_prefix ht @ data)))"

definition b58check_to_hash ::
  "'st sodium \<Rightarrow> base58 \<Rightarrow> hash_type \<Rightarrow> string \<Rightarrow> (from_base58check_error, bytes) res" where
  "b58check_to_hash S B ht data =
     res_bind (from_base58check S B data) (\<lambda>hash.
       let expected_len = hash_size ht + length (base58check_prefix ht)
       in if expected_len \<noteq> length hash then Err (MismatchedLength expected_len (length hash))
          else Ok (drop (length (base58check_prefix ht)) hash))"

text \<open>The operations that \<^verbatim>\<open>define_hash!\<close> gives every typed hash.\<close>

definition try_from_bytes :: "hash_type \<Rightarrow> bytes \<Rightarrow> (from_bytes_error, bytes) res" where
  "try_from_bytes ht data = (if length data = hash_size ht then Ok data else Err InvalidSize)"

definition from_base58_check ::
  "'st sodium \<Rightarrow> base58 \<Rightarrow> hash_type \<Rightarrow> string \<Rightarrow> (from_base58check_error, bytes) res" where
  "from_base58_check S B ht data = b58check_to_hash S B ht data"

definition to_base58_check ::
  "'st sodium \<Rightarrow> base58 \<Rightarrow> hash_type \<Rightarrow> bytes \<Rightarrow> (unit, string) res" where
  "to_base58_check S B ht h = unwrap (hash_to_b58check S B ht h)"

definition chain_id_from_block_hash :: "'st sodium \<Rightarrow> bytes \<Rightarrow> (blake2b_error, bytes) res" where
  "chain_id_from_block_hash S block_hash =
     res_bind (digest_256 S block_hash) (\<lambda>result.
       if length result < hash_size ChainId then Panic
       else unwrap (try_from_bytes ChainId (take (hash_size ChainId) result)))"

section \<open>Lemmas\<close>

lemma base58check_prefix_inj: "base58check_prefix a = base58check_prefix b \<Longrightarrow> a = b"
  by (cases a; cases b) simp_all

lemma prefix_size_bound: "length (base58check_prefix ht) + hash_size ht \<le> 37"
  by (cases ht) simp_all

lemma hash_size_pos [simp]: "0 < hash_size ht"
  by (cases ht) simp_all

lemma try_from_bytes_eq_Ok [simp]:
  "try_from_bytes ht d = Ok h \<longleftrightarrow> h = d \<and> length d = hash_size ht"
  by (auto simp: try_from_bytes_def)

context sodium_laws begin

lemma length_double_sha256 [simp]: "length (double_sha256 S d) = 32"
  by (simp add: double_sha256_def sha256_length)

lemma digest_ok:
  assumes "16 \<le> n" and "n \<le> 64"
  shows "\<exists>h. digest S d n = Ok h \<and> length h = n"
proof -
  from gh_digest [OF assms, of d] obtain st st' h
    where "gh_new S n = Some st" "gh_update S st d = Some st'" "gh_finalize S st' = Some h"
      "length h = n" by blast
  then show ?thesis by (simp add: digest_def)
qed

lemma digest_range: "(\<exists>h. digest S d n = Ok h) \<longleftrightarrow> 16 \<le> n \<and> n \<le> 64"
  using digest_ok [of n d] gh_new_None [of n]
  by (cases "16 \<le> n \<and> n \<le> 64") (auto simp: digest_def)

lemma digest_256_ok: "\<exists>h. digest_256 S d = Ok h \<and> length h = 32"
  by (simp add: digest_256_def digest_ok)

lemma digest_128_ok: "\<exists>h. digest_128 S d = Ok h \<and> length h = 16"
  by (simp add: digest_128_def digest_ok)

end

locale base58check = sodium_laws S + base58_laws B
  for S :: "'st sodium" and B :: base58
begin

lemma from_to_base58check:
  assumes "length data \<le> 60"
  shows "\<exists>s. to_base58check S B data = Ok s \<and> from_base58check S B s = Ok data"
proof -
  let ?s = "to_base58 B (data @ take 4 (double_sha256 S data))"
  have "length ?s \<le> 128"
    using to_base58_length [of "data @ take 4 (double_sha256 S data)"] assms by simp
  then have "from_base58check S B ?s = Ok data"
    by (simp add: from_base58check_def from_to_base58 checksum_byte_size_def)
  with assms show ?thesis by (simp add: to_base58check_def)
qed

lemma hash_b58_payload:
  assumes "length h = hash_size ht"
  shows "\<exists>s. hash_to_b58check S B ht h = Ok s
           \<and> from_base58check S B s = Ok (base58check_prefix ht @ h)"
proof -
  have "length (base58check_prefix ht @ h) \<le> 60"
    using prefix_size_bound [of ht] assms by simp
  from from_to_base58check [OF this] assms show ?thesis
    by (auto simp: hash_to_b58check_def)
qed

lemma hash_b58_any_type:
  assumes "length h = hash_size ht" and "hash_size ht' = hash_size ht"
    and "length (base58check_prefix ht') = length (base58check_prefix ht)"
  shows "\<exists>s. hash_to_b58check S B ht h = Ok s \<and> b58check_to_hash S B ht' s = Ok h"
proof -
  from hash_b58_payload [OF assms(1)] obtain s
    where "hash_to_b58check S B ht h = Ok s"
      "from_base58check S B s = Ok (base58check_prefix ht @ h)" by blast
  with assms show ?thesis by (simp add: b58check_to_hash_def)
qed

end

interpretation base58check_ref: base58check sodium_ref base58_ref
  by unfold_locales

lemma b58check_to_hash_size:
  "b58check_to_hash S B ht s = Ok h \<Longrightarrow> length h = hash_size ht"
  by (auto simp: b58check_to_hash_def Let_def split: if_splits)

section \<open>Properties\<close>

text \<open>
  C15. Every typed hash has a base58check text, of a size that never exceeds the limit of the decoder,
  and reading the text back gives the same bytes.
\<close>

theorem hash_base58_roundtrip:
  assumes "base58check S B" and "try_from_bytes ht d = Ok h"
  shows "\<exists>s. to_base58_check S B ht h = Ok s \<and> from_base58_check S B ht s = Ok h"
  using base58check.hash_b58_any_type [OF assms(1), of h ht ht] assms(2)
  by (auto simp: to_base58_check_def from_base58_check_def)

theorem hash_base58_roundtrip_witness:
  "\<exists>s. to_base58_check sodium_ref base58_ref BlockHash (replicate 32 9) = Ok s
     \<and> from_base58_check sodium_ref base58_ref BlockHash s = Ok (replicate 32 9)"
  by (rule hash_base58_roundtrip [where d = "replicate 32 9"])
    (simp_all add: base58check_ref.base58check_axioms)

text \<open>
  C36. Reading a text does not look at the type prefix: the text of a hash is accepted as any other
  type whose prefix and value have the same lengths, although the prefixes of the types all differ.
\<close>

theorem b58check_prefix_not_checked:
  assumes "base58check S B" and "length h = hash_size ht" and "hash_size ht' = hash_size ht"
    and "length (base58check_prefix ht') = length (base58check_prefix ht)" and "ht \<noteq> ht'"
  shows "base58check_prefix ht \<noteq> base58check_prefix ht'
    \<and> (\<exists>s. to_base58_check S B ht h = Ok s \<and> from_base58_check S B ht' s = Ok h)"
  using base58check.hash_b58_any_type [OF assms(1-4)] base58check_prefix_inj assms(5)
  by (auto simp: to_base58_check_def from_base58_check_def)

theorem b58check_prefix_not_checked_witness:
  "base58check_prefix BlockHash \<noteq> base58check_prefix ProtocolHash
    \<and> (\<exists>s. to_base58_check sodium_ref base58_ref BlockHash (replicate 32 9) = Ok s
         \<and> from_base58_check sodium_ref base58_ref ProtocolHash s = Ok (replicate 32 9))"
  by (rule b58check_prefix_not_checked) (simp_all add: base58check_ref.base58check_axioms)

end
