(* ===== verification/Seeded_Step.thy ===== *)
theory Seeded_Step
  imports Crypto_Hash
begin

text \<open>
  The deterministic step sequence of block locators, \<^verbatim>\<open>crypto/src/seeded_step.rs\<close>. The integers are
  32-bit words read as \<^verbatim>\<open>i32\<close>; the arithmetic wraps, as in the release build the repository's
  scripts make.
\<close>

section \<open>The step generator\<close>

record seed_pair =
  sender_id :: bytes
  receiver_id :: bytes

record step_state =
  step_size :: u32
  step_counter :: u32
  step_seed :: bytes

definition step_init :: "'st sodium \<Rightarrow> seed_pair \<Rightarrow> bytes \<Rightarrow> step_state" where
  "step_init S seed block_hash =
     \<lparr>step_size = 1, step_counter = 9,
      step_seed = sha256 S (sender_id seed @ receiver_id seed @ block_hash)\<rparr>"

definition i32_rem :: "int \<Rightarrow> int \<Rightarrow> int" where
  \<comment> \<open>Rust's \<open>%\<close>: the remainder takes the sign of the dividend\<close>
  "i32_rem a n = sgn a * (\<bar>a\<bar> mod \<bar>n\<bar>)"

definition random_gap ::
  "'st sodium \<Rightarrow> step_state \<Rightarrow> (unit, int \<times> bytes) res" where
  "random_gap S st =
     (if sint (step_size st) \<le> 1 then Ok (0, step_seed st)
      else if length (step_seed st) < 4 then Panic
      else
        let n = sint (step_size st) div 2 + 1;
            r = sint (word_of_nat (from_be (take 4 (step_seed st))) :: u32)
        in Ok (i32_rem r n, sha256 S (step_seed st)))"

definition step_next :: "'st sodium \<Rightarrow> step_state \<Rightarrow> (unit, u32 \<times> step_state) res" where
  "step_next S st =
     res_bind (random_gap S st) (\<lambda>(gap, seed').
       let st' = (if step_counter st = 0
                  then st\<lparr>step_size := step_size st * 2, step_counter := 9, step_seed := seed'\<rparr>
                  else st\<lparr>step_counter := step_counter st - 1, step_seed := seed'\<rparr>)
       in Ok (step_size st - word_of_int gap, st'))"

text \<open>A run of the generator: the first \<open>n\<close> numbers it returns.\<close>

fun step_run :: "'st sodium \<Rightarrow> nat \<Rightarrow> step_state \<Rightarrow> (unit, u32 list \<times> step_state) res" where
  "step_run S 0 st = Ok ([], st)"
| "step_run S (Suc n) st =
     res_bind (step_next S st) (\<lambda>(x, st').
       res_bind (step_run S n st') (\<lambda>(xs, st''). Ok (x # xs, st'')))"

section \<open>Lemmas\<close>

text \<open>
  After \<open>k\<close> calls the step is \<open>2\<^bsup>k div 10\<^esup>\<close> and the counter is \<open>9 - k mod 10\<close>.
\<close>

definition step_at :: "nat \<Rightarrow> step_state \<Rightarrow> bool" where
  "step_at k st \<longleftrightarrow> step_size st = 2 ^ (k div 10) \<and> step_counter st = of_nat (9 - k mod 10)
     \<and> length (step_seed st) = 32"

lemma i32_rem_bound: "0 < n \<Longrightarrow> \<bar>i32_rem a n\<bar> < n"
  by (simp add: i32_rem_def abs_mult sgn_if)

lemma counter_down:
  "j < 9 \<Longrightarrow> (of_nat (9 - j) :: u32) \<noteq> 0 \<and> (of_nat (9 - j) :: u32) - 1 = of_nat (9 - Suc j)"
proof -
  have "\<forall>j \<in> set [0..<9]. (of_nat (9 - j) :: u32) \<noteq> 0
      \<and> (of_nat (9 - j) :: u32) - 1 = of_nat (9 - Suc j)"
    by code_simp
  then show "j < 9 \<Longrightarrow> ?thesis" by auto
qed

lemma step_at_counter:
  assumes "step_at k st"
  shows "step_counter st = 0 \<longleftrightarrow> k mod 10 = 9"
proof (cases "k mod 10 = 9")
  case False
  then have "k mod 10 < 9" using mod_less_divisor [of 10 k] by linarith
  with counter_down [of "k mod 10"] assms False show ?thesis by (auto simp: step_at_def)
qed (use assms in \<open>simp add: step_at_def\<close>)

context sodium_laws begin

lemma random_gap_ok:
  assumes "step_at k st" and "k < 310"
  shows "\<exists>g seed'. random_gap S st = Ok (g, seed') \<and> length seed' = 32
           \<and> \<bar>g\<bar> \<le> 2 ^ (k div 10) div 2"
proof -
  let ?s = "2 ^ (k div 10) :: int"
  have sz: "sint (step_size st) = ?s" and len: "length (step_seed st) = 32"
    using assms by (auto simp: step_at_def sint_power2)
  show ?thesis
  proof (cases "?s \<le> 1")
    case True
    with sz len show ?thesis by (simp add: random_gap_def)
  next
    case False
    then have "\<bar>i32_rem r (?s div 2 + 1)\<bar> < ?s div 2 + 1" for r
      by (intro i32_rem_bound) (simp add: add_nonneg_pos)
    then have "\<bar>i32_rem r (?s div 2 + 1)\<bar> \<le> ?s div 2" for r
      by (simp add: zless_imp_add1_zle)
    with False sz len show ?thesis
      by (simp add: random_gap_def Let_def sha256_length)
  qed
qed

lemma step_next_ok:
  assumes "step_at k st" and "k < 310"
  shows "\<exists>x st'. step_next S st = Ok (x, st') \<and> step_at (Suc k) st'
           \<and> \<bar>sint x - 2 ^ (k div 10)\<bar> \<le> 2 ^ (k div 10) div 2"
proof -
  obtain g seed' where g: "random_gap S st = Ok (g, seed')" "length seed' = 32"
      "\<bar>g\<bar> \<le> 2 ^ (k div 10) div 2"
    using random_gap_ok [OF assms] by blast
  have sz: "sint (step_size st) = 2 ^ (k div 10)"
    using assms by (auto simp: step_at_def sint_power2)
  have "(2::int) ^ (k div 10) \<le> 2 ^ 30"
    using assms(2) by (intro power_increasing) auto
  moreover have "0 < (2::int) ^ (k div 10)" by simp
  ultimately have x: "sint (step_size st - word_of_int g) = 2 ^ (k div 10) - g"
    using g(3) sz by (subst sint_sub32) (auto simp: abs_le_iff)
  have st': "step_at (Suc k) (if step_counter st = 0
      then st\<lparr>step_size := step_size st * 2, step_counter := 9, step_seed := seed'\<rparr>
      else st\<lparr>step_counter := step_counter st - 1, step_seed := seed'\<rparr>)"
  proof (cases "k mod 10 = 9")
    case True
    then have "Suc k div 10 = Suc (k div 10)" "Suc k mod 10 = 0" by presburger+
    with True assms g(2) step_at_counter [OF assms(1)] show ?thesis by (simp add: step_at_def)
  next
    case False
    then have "Suc k div 10 = k div 10" "Suc k mod 10 = Suc (k mod 10)" "k mod 10 < 9"
      by presburger+
    with False assms g(2) step_at_counter [OF assms(1)] counter_down [of "k mod 10"]
    show ?thesis by (simp add: step_at_def)
  qed
  show ?thesis
    using g x st' by (simp add: step_next_def Let_def)
qed

lemma step_run_ok:
  assumes "step_at k st" and "k + n \<le> 310"
  shows "\<exists>xs st'. step_run S n st = Ok (xs, st') \<and> length xs = n \<and> step_at (k + n) st'
    \<and> (\<forall>i < n. \<bar>sint (xs ! i) - 2 ^ ((k + i) div 10)\<bar> \<le> 2 ^ ((k + i) div 10) div 2)"
  using assms
proof (induction n arbitrary: k st)
  case 0
  then show ?case by simp
next
  case (Suc n)
  obtain x st' where x: "step_next S st = Ok (x, st')" "step_at (Suc k) st'"
      "\<bar>sint x - 2 ^ (k div 10)\<bar> \<le> 2 ^ (k div 10) div 2"
    using step_next_ok [of k st] Suc.prems by auto
  obtain xs st'' where xs: "step_run S n st' = Ok (xs, st'')" "length xs = n"
      "step_at (Suc k + n) st''"
      "\<forall>i < n. \<bar>sint (xs ! i) - 2 ^ ((Suc k + i) div 10)\<bar> \<le> 2 ^ ((Suc k + i) div 10) div 2"
    using Suc.IH [OF x(2)] Suc.prems by auto
  have "\<bar>sint ((x # xs) ! i) - 2 ^ ((k + i) div 10)\<bar> \<le> 2 ^ ((k + i) div 10) div 2"
    if "i < Suc n" for i
    using that x(3) xs(4) by (cases i) auto
  with x xs show ?case by auto
qed

lemma step_init_at: "step_at 0 (step_init S seed bh)"
  by (simp add: step_at_def step_init_def sha256_length)

end

section \<open>Properties\<close>

text \<open>
  C25. The first 310 numbers of the generator exist, and the \<open>i\<close>-th one is positive and within half of
  the step \<open>2\<^bsup>i div 10\<^esup>\<close>: no wrap-around happens before the step itself would leave \<^verbatim>\<open>i32\<close>.
\<close>

theorem step_sequence_bounds:
  assumes "sodium_laws S" and "n \<le> 310"
  shows "\<exists>xs st'. step_run S n (step_init S seed bh) = Ok (xs, st') \<and> length xs = n
    \<and> (\<forall>i < n. \<bar>sint (xs ! i) - 2 ^ (i div 10)\<bar> \<le> 2 ^ (i div 10) div 2 \<and> 0 < sint (xs ! i))"
proof -
  from sodium_laws.step_run_ok [OF assms(1) sodium_laws.step_init_at [OF assms(1)],
      of n seed bh] assms(2)
  obtain xs st' where "step_run S n (step_init S seed bh) = Ok (xs, st')" "length xs = n"
    and b: "\<forall>i < n. \<bar>sint (xs ! i) - 2 ^ (i div 10)\<bar> \<le> 2 ^ (i div 10) div 2"
    by auto
  moreover have "0 < sint (xs ! i)" if "i < n" for i
  proof -
    have "\<bar>sint (xs ! i) - 2 ^ (i div 10)\<bar> \<le> 2 ^ (i div 10) div 2" using b that by blast
    moreover have "0 < (2::int) ^ (i div 10)" by simp
    ultimately show ?thesis by linarith
  qed
  ultimately show ?thesis by blast
qed

theorem step_sequence_bounds_witness:
  "\<exists>xs st'. step_run sodium_ref 30 (step_init sodium_ref
        \<lparr>sender_id = [1], receiver_id = [2]\<rparr> [3]) = Ok (xs, st') \<and> length xs = 30
    \<and> (\<forall>i < 30. \<bar>sint (xs ! i) - 2 ^ (i div 10)\<bar> \<le> 2 ^ (i div 10) div 2 \<and> 0 < sint (xs ! i))"
  by (rule step_sequence_bounds) (simp_all add: sodium_ref.sodium_laws_axioms)

end
