(* ===== verification/Bit_Utils.thy ===== *)
theory Bit_Utils
  imports Prelude
begin

unbundle bit_operations_syntax

text \<open>
  Bit access of \<^verbatim>\<open>tezos/encoding/src/bit_utils.rs\<close>: the trait \<^verbatim>\<open>Bits\<close> on the unsigned integers and the
  traits on \<^verbatim>\<open>bit_vec::BitVec\<close>, whose content is the list of its bits in iteration order.
\<close>

section \<open>Bits of a machine integer\<close>

datatype bits_error = IndexOutOfRange

definition bits_mask :: "'a::len word \<Rightarrow> nat" where
  "bits_mask w = LENGTH('a) - 1"

definition bits_set :: "'a::len word \<Rightarrow> nat \<Rightarrow> bool \<Rightarrow> (bits_error, 'a word) res" where
  "bits_set w place value =
     (if bits_mask w < place then Err IndexOutOfRange
      else Ok ((w AND NOT (push_bit place 1)) OR push_bit place (of_bool value)))"

definition bits_get :: "'a::len word \<Rightarrow> nat \<Rightarrow> (bits_error, bool) res" where
  "bits_get w place =
     (if bits_mask w < place then Err IndexOutOfRange
      else Ok (drop_bit place w AND 1 = 1))"

definition bits_take :: "'a::len word \<Rightarrow> nat \<Rightarrow> (bits_error, bool \<times> 'a word) res" where
  "bits_take w place =
     (if bits_mask w < place then Err IndexOutOfRange
      else
        let mask = push_bit place 1;
            neg_mask = NOT mask
        in Ok (mask AND w \<noteq> 0, w AND neg_mask))"

section \<open>Bit vectors\<close>

definition bitvec_reverse :: "bool list \<Rightarrow> bool list" where
  "bitvec_reverse bits = foldl (\<lambda>reversed bit. reversed @ [bit]) [] (rev bits)"

definition trim_left :: "bool list \<Rightarrow> bool list" where
  "trim_left bits =
     fst (foldl (\<lambda>(trimmed, notrim) bit.
            if bit then (trimmed @ [bit], True)
            else if notrim then (trimmed @ [bit], notrim)
            else (trimmed, notrim)) ([], False) bits)"

fun to_byte_vec_loop :: "nat \<Rightarrow> bool list \<Rightarrow> bytes \<Rightarrow> u8 \<Rightarrow> nat \<Rightarrow> (unit, bytes \<times> u8 \<times> nat) res" where
  "to_byte_vec_loop idx_bit [] bytes byte offset = Ok (bytes, byte, offset)"
| "to_byte_vec_loop idx_bit (b # bits) bytes byte offset =
     (let idx_byte = idx_bit mod 8 in
      res_bind (unwrap (bits_set byte idx_byte b)) (\<lambda>byte.
        if idx_byte = 7 then to_byte_vec_loop (Suc idx_bit) bits (bytes @ [byte]) 0 idx_byte
        else to_byte_vec_loop (Suc idx_bit) bits bytes byte idx_byte))"

definition to_byte_vec :: "bool list \<Rightarrow> (unit, bytes) res" where
  "to_byte_vec bits =
     res_bind (to_byte_vec_loop 0 (rev bits) [] 0 0) (\<lambda>(bytes, byte, offset).
       Ok (rev (if offset \<noteq> 7 then bytes @ [byte] else bytes)))"

section \<open>Lemmas\<close>

lemma bits_get_ok [simp]:
  "p < LENGTH('a::len) \<Longrightarrow> bits_get (w :: 'a word) p = Ok (bit w p)"
proof -
  have "drop_bit p w AND 1 = of_bool (bit w p)"
    by (rule bit_eqI) (auto simp: bit_simps)
  then show "p < LENGTH('a) \<Longrightarrow> ?thesis" by (simp add: bits_get_def bits_mask_def)
qed

lemma bits_set_ok [simp]:
  "p < LENGTH('a::len) \<Longrightarrow> bits_set (w :: 'a word) p v =
     Ok (if v then set_bit p w else unset_bit p w)"
proof -
  assume "p < LENGTH('a)"
  moreover have "(w AND NOT (push_bit p 1)) OR push_bit p (of_bool v)
      = (if v then set_bit p w else unset_bit p w)"
    by (rule bit_eqI) (auto simp: bit_simps)
  ultimately show ?thesis by (simp add: bits_set_def bits_mask_def)
qed

lemma bits_take_ok [simp]:
  "p < LENGTH('a::len) \<Longrightarrow> bits_take (w :: 'a word) p = Ok (bit w p, unset_bit p w)"
proof -
  assume p: "p < LENGTH('a)"
  have "(push_bit p 1 AND w \<noteq> 0) = bit w p"
    using p and_exp_eq_0_iff_not_bit [of w p] by (simp add: push_bit_eq_mult and.commute)
  moreover have "w AND NOT (push_bit p 1) = unset_bit p w"
    by (rule bit_eqI) (auto simp: bit_simps)
  ultimately show ?thesis using p by (simp add: bits_take_def bits_mask_def Let_def)
qed

lemma bitvec_reverse_rev [simp]: "bitvec_reverse bits = rev bits"
proof -
  have "foldl (\<lambda>reversed bit. reversed @ [bit]) acc xs = acc @ xs" for acc xs :: "bool list"
    by (induction xs arbitrary: acc) auto
  then show ?thesis by (simp add: bitvec_reverse_def)
qed

lemma trim_left_dropWhile [simp]: "trim_left bits = dropWhile Not bits"
proof -
  let ?f = "\<lambda>(trimmed, notrim) bit.
      if bit then (trimmed @ [bit], True)
      else if notrim then (trimmed @ [bit], notrim) else (trimmed, notrim)"
  have keep: "foldl ?f (acc, True) xs = (acc @ xs, True)" for acc xs :: "bool list"
    by (induction xs arbitrary: acc) auto
  have "fst (foldl ?f ([], False) bits) = dropWhile Not bits"
    by (induction bits) (auto simp: keep)
  then show ?thesis by (simp add: trim_left_def)
qed

end
