(* ===== verification/Encoding.thy ===== *)
theory Encoding
  imports Bit_Utils Crypto_Hash "HOL-Library.AList"
begin

text \<open>
  The intermediate data format and the schemas of \<^verbatim>\<open>tezos/encoding\<close>: \<^verbatim>\<open>types.rs\<close> (\<open>val\<close>),
  \<^verbatim>\<open>encoding.rs\<close> (\<open>encoding\<close>, \<open>field\<close>, \<open>tag\<close>, \<open>tag_map\<close>), the serde serializer of \<^verbatim>\<open>ser.rs\<close> and the error
  context of \<^verbatim>\<open>error_context.rs\<close>. Signed integers are kept as words of their width; an \<^verbatim>\<open>f64\<close> is its bit
  pattern; a Rust \<^verbatim>\<open>String\<close> value is its UTF-8 bytes, while the names of fields and variants are \<open>string\<close>s.
\<close>

section \<open>Values\<close>

datatype val =
    VUnit
  | VInt8 u8
  | VUint8 u8
  | VInt16 u16
  | VUint16 u16
  | VInt31 u32
  | VInt32 u32
  | VInt64 u64
  | VRangedInt u32
  | VFloat u64
  | VRangedFloat u64
  | VBool bool
  | VString bytes
  | VBytes bytes
  | VOption "val option"
  | VList "val list"
  | VEnum "string option" "u32 option"
  | VTag string val
  | VRecord "(string \<times> val) list"
  | VTuple "val list"

definition BYTE_VAL_TRUE :: u8 where "BYTE_VAL_TRUE = 0xFF"
definition BYTE_VAL_FALSE :: u8 where "BYTE_VAL_FALSE = 0"
definition BYTE_VAL_SOME :: u8 where "BYTE_VAL_SOME = 1"
definition BYTE_VAL_NONE :: u8 where "BYTE_VAL_NONE = 0"
definition BYTE_FIELD_SOME :: u8 where "BYTE_FIELD_SOME = 0xFF"
definition BYTE_FIELD_NONE :: u8 where "BYTE_FIELD_NONE = 0"

section \<open>Schemas\<close>

datatype 'e field = Field (field_name: string) (field_encoding: 'e)

datatype 'e tag = Tag (tag_id: u16) (tag_variant: string) (tag_encoding: 'e)

text \<open>
  A \<^verbatim>\<open>HashMap\<close> is an association list with one entry per key; \<open>AList.update\<close> is its \<^verbatim>\<open>insert\<close>.
\<close>

datatype 't tag_map = TagMap (id_to_tag: "(u16 \<times> 't) list") (variant_to_id: "(string \<times> u16) list")

datatype codec = PathCodec

datatype encoding =
    EUnit
  | EInt8
  | EUint8
  | EInt16
  | EUint16
  | EInt31
  | EInt32
  | EUint32
  | EInt64
  | ERangedInt
  | EZ
  | EMutez
  | EFloat
  | ERangedFloat
  | EBool
  | EString
  | EBoundedString nat
  | EBytes
  | ETags nat "encoding tag tag_map"
  | EList encoding
  | EBoundedList nat encoding
  | EEnum
  | EOption encoding
  | EOptionalField encoding
  | EObj string "encoding field list"
  | ETup "encoding list"
  | EDynamic encoding
  | EBoundedDynamic nat encoding
  | ESized nat encoding
  | EBounded nat encoding
  | EGreedy encoding
  | EHash hash_type
  | ETimestamp
  | ECustom codec

definition tag_map_insert :: "'e tag tag_map \<Rightarrow> 'e tag \<Rightarrow> 'e tag tag_map" where
  "tag_map_insert m t =
     TagMap (AList.update (tag_id t) t (id_to_tag m))
       (AList.update (tag_variant t) (tag_id t) (variant_to_id m))"

definition tag_map_new :: "'e tag list \<Rightarrow> 'e tag tag_map" where
  "tag_map_new tags = foldl tag_map_insert (TagMap [] []) tags"

definition find_by_id :: "'e tag tag_map \<Rightarrow> u16 \<Rightarrow> 'e tag option" where
  "find_by_id m i = map_of (id_to_tag m) i"

definition find_by_variant :: "'e tag tag_map \<Rightarrow> string \<Rightarrow> 'e tag option" where
  "find_by_variant m variant =
     (case map_of (variant_to_id m) variant of
        None \<Rightarrow> None
      | Some i \<Rightarrow> map_of (id_to_tag m) i)"

section \<open>Errors\<close>

text \<open>
  \<^verbatim>\<open>ser::Error\<close> holds a rendered message. The model keeps one constructor for each place that makes a
  message, with the arguments that are printed.
\<close>

datatype ser_error =
    EncodingMismatch encoding val
  | Unimplemented string
  | U64TooLarge
  | PathTooDeep nat
  | NoValueFor string
  | SizeOverflow string
  | BoundExceeded encoding nat nat
  | OutsideInt31
  | OutsideUint32
  | NotImplemented encoding
  | EnumOrdinalTooBig u32
  | NoEnumOrdinal
  | NotByte encoding val
  | WrongSize nat nat
  | NoTagFor string
  | NoVariantName
  | UnsupportedTagSize nat
  | EmptyZ
  | HexError string
  | NotEnoughBits
  | BitsFail bits_error
  | IoError

datatype encoding_error = EncodingError (err_kind: ser_error) (err_location: string)

definition err_from :: "ser_error \<Rightarrow> encoding_error" where
  "err_from e = EncodingError e []"

definition err_field :: "string \<Rightarrow> encoding_error \<Rightarrow> encoding_error" where
  "err_field name e =
     EncodingError (err_kind e)
       (if err_location e = [] then ''field `'' @ name @ ''`''
        else err_location e @ '' @ field `'' @ name @ ''`'')"

definition err_element_of :: "encoding_error \<Rightarrow> encoding_error" where
  "err_element_of e =
     EncodingError (err_kind e)
       (if err_location e = [] then ''list element'' else err_location e @ '' @ list element'')"

section \<open>Serialization\<close>

text \<open>
  A Rust value is represented by the serde calls its \<^verbatim>\<open>Serialize\<close> implementation makes: derived
  structs and enums call the method of their shape, integers the method of their width, \<^verbatim>\<open>Vec\<close> and the
  byte vector inside a hash \<^verbatim>\<open>serialize_seq\<close>. \<open>RPath\<close> is the \<^verbatim>\<open>Path\<close> of \<^verbatim>\<open>operations_for_blocks.rs\<close> with its manual
  implementation, \<open>RBigInt\<close> the wrapper of \<^verbatim>\<open>types.rs\<close>, and \<open>RNumBigInt\<close> a bare \<^verbatim>\<open>num_bigint::BigInt\<close>.
\<close>

datatype rust =
    RBool bool
  | RI8 u8
  | RI16 u16
  | RI32 u32
  | RI64 u64
  | RU8 u8
  | RU16 u16
  | RU32 u32
  | RU64 u64
  | RF64 u64
  | RChar u32
  | RStr bytes
  | RBytes bytes
  | RNone
  | RSome rust
  | RUnit
  | RUnitStruct string
  | RUnitVariant string u32 string
  | RNewtypeStruct string rust
  | RNewtypeVariant string u32 string rust
  | RSeq "rust list"
  | RTuple "rust list"
  | RTupleStruct string "rust list"
  | RTupleVariant string u32 string "rust list"
  | RMap "(rust \<times> rust) list"
  | RStruct string "(string \<times> rust) list"
  | RStructVariant string u32 string "(string \<times> rust) list"
  | RPath "rust list"
  | RBigInt int
  | RNumBigInt int

text \<open>
  The two functions of \<^verbatim>\<open>num_bigint\<close> that serialization meets: \<^verbatim>\<open>to_str_radix(16)\<close>, as UTF-8 bytes, and the
  crate's own \<^verbatim>\<open>Serialize\<close> implementation.
\<close>

record num_ser =
  radix16 :: "int \<Rightarrow> bytes"
  num_bigint_value :: "int \<Rightarrow> val"

definition MAX_PASS_MERKLE_DEPTH :: "nat option" where
  "MAX_PASS_MERKLE_DEPTH = Some 3"

definition serialize_u32 :: "u32 \<Rightarrow> val" where
  "serialize_u32 v = (if unat v \<le> 2 ^ 31 - 1 then VInt32 v else VInt64 (ucast v))"

definition serialize_u64 :: "u64 \<Rightarrow> (ser_error, val) res" where
  "serialize_u64 v = (if unat v \<le> 2 ^ 63 - 1 then Ok (VInt64 v) else Err U64TooLarge)"

fun serialize :: "num_ser \<Rightarrow> rust \<Rightarrow> (ser_error, val) res"
  and serialize_elements :: "num_ser \<Rightarrow> rust list \<Rightarrow> (ser_error, val list) res"
  and serialize_fields :: "num_ser \<Rightarrow> (string \<times> rust) list \<Rightarrow> (ser_error, (string \<times> val) list) res" where
  "serialize K (RBool v) = Ok (VBool v)"
| "serialize K (RI8 v) = Ok (VInt8 v)"
| "serialize K (RI16 v) = Ok (VInt16 v)"
| "serialize K (RI32 v) = Ok (VInt32 v)"
| "serialize K (RI64 v) = Ok (VInt64 v)"
| "serialize K (RU8 v) = Ok (VUint8 v)"
| "serialize K (RU16 v) = Ok (VUint16 v)"
| "serialize K (RU32 v) = Ok (serialize_u32 v)"
| "serialize K (RU64 v) = serialize_u64 v"
| "serialize K (RF64 v) = Ok (VFloat v)"
| "serialize K (RChar v) = Ok (VUint8 (ucast v))"
| "serialize K (RStr v) = Ok (VString v)"
| "serialize K (RBytes v) = Ok (VBytes v)"
| "serialize K RNone = Ok (VOption None)"
| "serialize K (RSome r) = res_bind (serialize K r) (\<lambda>v. Ok (VOption (Some v)))"
| "serialize K RUnit = Ok VUnit"
| "serialize K (RUnitStruct name) = Ok VUnit"
| "serialize K (RUnitVariant name i variant) = Ok (VEnum (Some variant) (Some i))"
| "serialize K (RNewtypeStruct name r) = serialize K r"
| "serialize K (RNewtypeVariant name i variant r) =
     res_bind (serialize K r) (\<lambda>v. Ok (VTag variant v))"
| "serialize K (RSeq rs) = res_bind (serialize_elements K rs) (\<lambda>vs. Ok (VList vs))"
| "serialize K (RTuple rs) = res_bind (serialize_elements K rs) (\<lambda>vs. Ok (VList vs))"
| "serialize K (RTupleStruct name rs) = res_bind (serialize_elements K rs) (\<lambda>vs. Ok (VList vs))"
| "serialize K (RTupleVariant name i variant rs) =
     Err (Unimplemented ''Serializer::serialize_tuple_variant'')"
| "serialize K (RMap kvs) = Err (Unimplemented ''Serializer::serialize_map'')"
| "serialize K (RStruct name fs) = res_bind (serialize_fields K fs) (\<lambda>vs. Ok (VRecord vs))"
| "serialize K (RStructVariant name i variant fs) =
     Err (Unimplemented ''Serializer::serialize_struct_variant'')"
| "serialize K (RPath items) =
     (case MAX_PASS_MERKLE_DEPTH of
        Some m \<Rightarrow>
          (if m < length items then Err (PathTooDeep m)
           else res_bind (serialize_elements K items) (\<lambda>vs. Ok (VList vs)))
      | None \<Rightarrow> res_bind (serialize_elements K items) (\<lambda>vs. Ok (VList vs)))"
| "serialize K (RBigInt i) = Ok (VString (radix16 K i))"
| "serialize K (RNumBigInt i) = Ok (num_bigint_value K i)"
| "serialize_elements K [] = Ok []"
| "serialize_elements K (r # rs) =
     res_bind (serialize K r) (\<lambda>v. res_bind (serialize_elements K rs) (\<lambda>vs. Ok (v # vs)))"
| "serialize_fields K [] = Ok []"
| "serialize_fields K ((n, r) # fs) =
     res_bind (serialize K r) (\<lambda>v. res_bind (serialize_fields K fs) (\<lambda>vs. Ok ((n, v) # vs)))"

section \<open>Lemmas\<close>

lemma find_by_variant_in:
  "find_by_variant m v = Some t \<Longrightarrow> t \<in> snd ` set (id_to_tag m)"
  by (auto simp: find_by_variant_def split: option.splits dest!: map_of_SomeD)
    (metis image_eqI snd_conv)

lemma tag_map_new_snoc: "tag_map_new (ts @ [t]) = tag_map_insert (tag_map_new ts) t"
  by (simp add: tag_map_new_def)

lemma update_new_key: "k \<notin> fst ` set al \<Longrightarrow> AList.update k v al = al @ [(k, v)]"
  by (induction al) auto

lemma tag_map_new_lists:
  assumes "distinct (map tag_id ts)" and "distinct (map tag_variant ts)"
  shows "tag_map_new ts = TagMap (map (\<lambda>t. (tag_id t, t)) ts) (map (\<lambda>t. (tag_variant t, tag_id t)) ts)"
  using assms
proof (induction ts rule: rev_induct)
  case Nil
  then show ?case by (simp add: tag_map_new_def)
next
  case (snoc t ts)
  then show ?case
    by (simp add: tag_map_new_snoc tag_map_insert_def update_new_key image_image)
qed

lemma map_of_key: "distinct (map f ts) \<Longrightarrow> t \<in> set ts \<Longrightarrow> map_of (map (\<lambda>t. (f t, g t)) ts) (f t) = Some (g t)"
  by (induction ts) (auto simp: image_iff)

lemma find_by_variant_new:
  assumes "distinct (map tag_id ts)" and "distinct (map tag_variant ts)" and "t \<in> set ts"
  shows "find_by_variant (tag_map_new ts) (tag_variant t) = Some t"
  using map_of_key [OF assms(1,3), of "\<lambda>t. t"] map_of_key [OF assms(2,3), of tag_id]
  by (simp add: find_by_variant_def tag_map_new_lists [OF assms(1,2)])

lemma find_by_variant_new_None:
  assumes "distinct (map tag_id ts)" and "distinct (map tag_variant ts)"
    and "v \<notin> tag_variant ` set ts"
  shows "find_by_variant (tag_map_new ts) v = None"
proof -
  have "map_of (map (\<lambda>t. (tag_variant t, tag_id t)) ts) v = None"
    using assms(3) by (auto simp: map_of_eq_None_iff)
  then show ?thesis by (simp add: find_by_variant_def tag_map_new_lists [OF assms(1,2)])
qed

lemma serialize_elements_Ok:
  "serialize_elements K rs = Ok vs \<longleftrightarrow> list_all2 (\<lambda>r v. serialize K r = Ok v) rs vs"
  by (induction rs arbitrary: vs) (auto simp: list_all2_Cons1)

lemma serialize_fields_Ok:
  "serialize_fields K fs = Ok vs \<longleftrightarrow>
     list_all2 (\<lambda>(n, r) (n', v). n = n' \<and> serialize K r = Ok v) fs vs"
  by (induction fs arbitrary: vs) (auto simp: list_all2_Cons1)

lemma serialize_bytes: "serialize_elements K (map RU8 bs) = Ok (map VUint8 bs)"
  by (induction bs) auto

end
