(* ===== verification/Nom_Error.thy ===== *)
theory Nom_Error
  imports Encoding
begin

text \<open>
  The decoding errors of \<^verbatim>\<open>tezos/encoding/src/nom.rs\<close>, module \<^verbatim>\<open>error\<close>, with the trait methods through which
  \<^verbatim>\<open>nom\<close> makes them, and the shape of a parser. \<^verbatim>\<open>Utf8Error\<close> carries positions that are only printed; the
  model drops them. An input slice is the byte list it views.
\<close>

datatype nom_kind = KTag | KAlt | KEof | KComplete | KMany0 | KManyMN | KManyTill | KMapRes | KVerify

datatype bounded_kind = BKString | BKList | BKDynamic | BKBounded

datatype decode_error_kind =
    Nom nom_kind
  | Utf8 nom_kind
  | Boundary bounded_kind
  | Bits bits_error
  | FieldName string
  | VariantName string
  | UnknownTag string
  | InvalidTag string

datatype decode_error =
  DecodeError (de_input: bytes) (de_kind: decode_error_kind) (de_other: "decode_error option")

definition add_field :: "string \<Rightarrow> decode_error \<Rightarrow> decode_error" where
  "add_field name e = DecodeError (de_input e) (FieldName name) (Some e)"

definition add_variant :: "string \<Rightarrow> decode_error \<Rightarrow> decode_error" where
  "add_variant name e = DecodeError (de_input e) (VariantName name) (Some e)"

definition limit_error :: "bytes \<Rightarrow> bounded_kind \<Rightarrow> decode_error" where
  "limit_error input kind = DecodeError input (Boundary kind) None"

definition unknown_tag :: "bytes \<Rightarrow> string \<Rightarrow> decode_error" where
  "unknown_tag input t = DecodeError input (UnknownTag t) None"

definition invalid_tag :: "bytes \<Rightarrow> string \<Rightarrow> decode_error" where
  "invalid_tag input t = DecodeError input (InvalidTag t) None"

definition get_unknown_tag :: "decode_error \<Rightarrow> string option" where
  "get_unknown_tag e = (case de_kind e of UnknownTag t \<Rightarrow> Some t | _ \<Rightarrow> None)"

definition from_error_kind :: "bytes \<Rightarrow> nom_kind \<Rightarrow> decode_error" where
  "from_error_kind input kind = DecodeError input (Nom kind) None"

definition append_error :: "bytes \<Rightarrow> nom_kind \<Rightarrow> decode_error \<Rightarrow> decode_error" where
  "append_error input kind other = DecodeError input (Nom kind) (Some other)"

definition from_external_error :: "bytes \<Rightarrow> nom_kind \<Rightarrow> decode_error" where
  "from_external_error input kind = DecodeError input (Utf8 kind) None"

definition map_bits_err :: "bytes \<Rightarrow> bits_error \<Rightarrow> decode_error" where
  "map_bits_err input e = DecodeError input (Bits e) None"

text \<open>
  \<^verbatim>\<open>nom::Err\<close>: more input needed, a recoverable error, or a failure that stops alternatives and
  repetitions. A parser returns the remaining input and a result.
\<close>

datatype nom_err = Incomplete | Error decode_error | Failure decode_error

type_synonym 'a parser = "bytes \<Rightarrow> (nom_err, bytes \<times> 'a) res"

primrec map_nom_err :: "(decode_error \<Rightarrow> decode_error) \<Rightarrow> nom_err \<Rightarrow> nom_err" where
  \<comment> \<open>\<open>nom::Err::map\<close>\<close>
  "map_nom_err f Incomplete = Incomplete"
| "map_nom_err f (Error e) = Error (f e)"
| "map_nom_err f (Failure e) = Failure (f e)"

end
