(* ===== verification/Crates_Wire.thy ===== *)
theory Crates_Wire
  imports Nom_Error Crates_Crypto
begin

text \<open>
  Interfaces of the external crates behind the binary format: \<^verbatim>\<open>bytes\<close>, \<^verbatim>\<open>byteorder\<close> and \<^verbatim>\<open>bit_vec\<close>. As in \<open>Crates_Crypto\<close> every crate is a record of the functions the sources
  call and a locale with their documented behaviour.
\<close>

section \<open>Writing bytes\<close>

record wire =
  put_u8 :: "bytes \<Rightarrow> u8 \<Rightarrow> bytes"
  put_i8 :: "bytes \<Rightarrow> u8 \<Rightarrow> bytes"
  put_u16 :: "bytes \<Rightarrow> u16 \<Rightarrow> bytes"
  put_i16 :: "bytes \<Rightarrow> u16 \<Rightarrow> bytes"
  put_u32 :: "bytes \<Rightarrow> u32 \<Rightarrow> bytes"
  put_i32 :: "bytes \<Rightarrow> u32 \<Rightarrow> bytes"
  put_i64 :: "bytes \<Rightarrow> u64 \<Rightarrow> bytes"
  put_f64 :: "bytes \<Rightarrow> u64 \<Rightarrow> bytes"
  put_slice :: "bytes \<Rightarrow> bytes \<Rightarrow> bytes"
  write_u32_be :: "bytes \<Rightarrow> u32 \<Rightarrow> bytes option"
  bits_from_bytes :: "bytes \<Rightarrow> bool list"
  bits_to_bytes :: "bool list \<Rightarrow> bytes"
  char_alphanumeric :: "bytes \<Rightarrow> bool"

definition bits_of_byte :: "u8 \<Rightarrow> bool list" where
  "bits_of_byte b = map (bit b) (rev [0..<8])"

fun bits_value :: "bool list \<Rightarrow> nat" where
  "bits_value [] = 0"
| "bits_value (b # bs) = of_bool b * 2 ^ length bs + bits_value bs"

text \<open>
  \<^verbatim>\<open>BufMut\<close> appends big-endian integers. \<^verbatim>\<open>write_u32::<BigEndian>\<close> overwrites the start of a slice and fails when it
  is shorter than four bytes. \<^verbatim>\<open>BitVec::from_bytes\<close> takes the bits of each byte from the most significant
  down, and \<^verbatim>\<open>to_bytes\<close> on a whole number of bytes is its inverse. \<open>char_alphanumeric\<close> is \<^verbatim>\<open>char::is_alphanumeric\<close> on the first
  character of a string when that character is not ASCII (the Unicode tables of the standard library).
\<close>

locale wire_laws =
  fixes W :: wire
  assumes put_byte: "put_u8 W d b = d @ [b]" "put_i8 W d b = d @ [b]"
    and put_word: "put_u16 W d h = d @ to_be16 h" "put_i16 W d h = d @ to_be16 h"
      "put_u32 W d w = d @ to_be32 w" "put_i32 W d w = d @ to_be32 w"
      "put_i64 W d q = d @ to_be64 q" "put_f64 W d q = d @ to_be64 q"
    and put_slice: "put_slice W d s = d @ s"
    and write_u32_fits: "4 \<le> length s \<Longrightarrow> write_u32_be W s w = Some (to_be32 w @ drop 4 s)"
    and write_u32_short: "length s < 4 \<Longrightarrow> write_u32_be W s w = None"
    and bits_from_bytes: "bits_from_bytes W s = concat (map bits_of_byte s)"
    and bits_to_bytes: "bits_to_bytes W (concat (map bits_of_byte s)) = s"

definition wire_ref :: wire where
  "wire_ref = \<lparr>
     put_u8 = (\<lambda>d b. d @ [b]), put_i8 = (\<lambda>d b. d @ [b]),
     put_u16 = (\<lambda>d h. d @ to_be16 h), put_i16 = (\<lambda>d h. d @ to_be16 h),
     put_u32 = (\<lambda>d w. d @ to_be32 w), put_i32 = (\<lambda>d w. d @ to_be32 w),
     put_i64 = (\<lambda>d q. d @ to_be64 q), put_f64 = (\<lambda>d q. d @ to_be64 q),
     put_slice = (\<lambda>d s. d @ s),
     write_u32_be = (\<lambda>s w. if 4 \<le> length s then Some (to_be32 w @ drop 4 s) else None),
     bits_from_bytes = (\<lambda>s. concat (map bits_of_byte s)),
     bits_to_bytes = (\<lambda>bs. be_bytes (length bs div 8) (bits_value bs)),
     char_alphanumeric = (\<lambda>s. False)\<rparr>"

lemma length_bits_of_byte [simp]: "length (bits_of_byte b) = 8"
  by (simp add: bits_of_byte_def)

lemma length_concat_bits [simp]: "length (concat (map bits_of_byte s)) = 8 * length s"
  by (induction s) auto

lemma bits_value_append: "bits_value (xs @ ys) = bits_value xs * 2 ^ length ys + bits_value ys"
  by (induction xs) (auto simp: algebra_simps power_add)

lemma bits_value_bits_of_byte: "bits_value (bits_of_byte b) = unat b"
proof -
  have horner: "bits_value (map (bit b) (rev [0..<n])) = take_bit n (unat b)" for n
  proof (induction n)
    case 0
    then show ?case by simp
  next
    case (Suc n)
    have "take_bit (Suc n) (unat b) = of_bool (bit b n) * 2 ^ n + take_bit n (unat b)"
      by (simp add: take_bit_Suc_from_most bit_unsigned_iff)
    with Suc show ?case by simp
  qed
  have "take_bit 8 (unat b) = unat b"
    using unat_byte_less [of b] by (simp add: take_bit_nat_eq_self_iff)
  with horner [of 8] show ?thesis by (simp add: bits_of_byte_def del: upt_Suc)
qed

lemma bits_value_concat: "bits_value (concat (map bits_of_byte s)) = from_be s"
proof (induction s rule: rev_induct)
  case Nil
  then show ?case by simp
next
  case (snoc b s)
  then show ?case by (simp add: bits_value_append bits_value_bits_of_byte)
qed

interpretation wire_ref: wire_laws wire_ref
  by unfold_locales (simp_all add: wire_ref_def bits_value_concat be_bytes_from_be)

end
