(* ===== verification/Path_Codec.thy ===== *)
theory Path_Codec
  imports Crates_Wire
begin

text \<open>
  The custom writer of Merkle paths, \<^verbatim>\<open>PathCodec\<close> in
  \<^verbatim>\<open>tezos/messages/src/p2p/encoding/operations_for_blocks.rs\<close>: going down the tree, a right step is its mark
  and the hash of the left sibling, a left step is its mark alone, and the hashes of the right
  siblings follow the end mark in reverse order.
\<close>

section \<open>The codec\<close>

definition value_to_u8 :: "val \<Rightarrow> encoding \<Rightarrow> (ser_error, u8) res" where
  "value_to_u8 v e = (case v of VUint8 u \<Rightarrow> Ok u | _ \<Rightarrow> Err (EncodingMismatch e v))"

fun collect_u8s :: "val list \<Rightarrow> encoding \<Rightarrow> (ser_error, bytes) res" where
  "collect_u8s [] e = Ok []"
| "collect_u8s (v # vs) e =
     res_bind (value_to_u8 v e) (\<lambda>u. res_bind (collect_u8s vs e) (\<lambda>us. Ok (u # us)))"

definition list_to_u8s :: "val \<Rightarrow> encoding \<Rightarrow> (ser_error, bytes) res" where
  "list_to_u8s v e = (case v of VList l \<Rightarrow> collect_u8s l e | _ \<Rightarrow> Err (EncodingMismatch e v))"

definition path_encode_bytes :: "bytes \<Rightarrow> val \<Rightarrow> encoding \<Rightarrow> (ser_error, bytes) res" where
  "path_encode_bytes d v e = res_bind (list_to_u8s v e) (\<lambda>bs. Ok (d @ bs))"

definition encode_left :: "bytes \<Rightarrow> val \<Rightarrow> encoding \<Rightarrow> (ser_error, bytes option \<times> bytes) res" where
  "encode_left d v e =
     (case v of
        VRecord [(n, h)] \<Rightarrow>
          (if n = ''right'' then
             res_bind (path_encode_bytes [] h e) (\<lambda>hash. Ok (Some hash, d @ [0xF0]))
           else Err (EncodingMismatch e v))
      | _ \<Rightarrow> Err (EncodingMismatch e v))"

definition encode_right :: "bytes \<Rightarrow> val \<Rightarrow> encoding \<Rightarrow> (ser_error, bytes option \<times> bytes) res" where
  "encode_right d v e =
     (case v of
        VRecord [(n, h)] \<Rightarrow>
          (if n = ''left'' then
             res_bind (path_encode_bytes (d @ [0x0F]) h e) (\<lambda>d'. Ok (None, d'))
           else Err (EncodingMismatch e v))
      | _ \<Rightarrow> Err (EncodingMismatch e v))"

definition encode_path_item :: "bytes \<Rightarrow> val \<Rightarrow> encoding \<Rightarrow> (ser_error, bytes option \<times> bytes) res" where
  "encode_path_item d v e =
     (case v of
        VTag name inner \<Rightarrow>
          (if name = ''Left'' then encode_left d inner e
           else if name = ''Right'' then encode_right d inner e
           else Err (EncodingMismatch e v))
      | _ \<Rightarrow> Err (EncodingMismatch e v))"

fun encode_path_items ::
  "bytes \<Rightarrow> bytes option list \<Rightarrow> val list \<Rightarrow> encoding \<Rightarrow> (ser_error, bytes option list \<times> bytes) res" where
  "encode_path_items d tails [] e = Ok (tails, d)"
| "encode_path_items d tails (v # vs) e =
     res_bind (encode_path_item d v e) (\<lambda>(tail, d'). encode_path_items d' (tail # tails) vs e)"

definition path_encode :: "bytes \<Rightarrow> val \<Rightarrow> encoding \<Rightarrow> (ser_error, nat \<times> bytes) res" where
  "path_encode d v e =
     (case v of
        VList vs \<Rightarrow>
          (let prev_size = length d in
           res_bind (encode_path_items d [] vs e) (\<lambda>(tails, d').
             let d'' = d' @ [0x00] @ concat (map the (filter (\<lambda>t. t \<noteq> None) tails))
             in res_bind (ok_or (EncodingMismatch e v) (checked_sub (length d'') prev_size))
                  (\<lambda>n. Ok (n, d''))))
      | _ \<Rightarrow> Err (EncodingMismatch e v))"

section \<open>The format\<close>

text \<open>A path as data, its serialized form and its binary form.\<close>

datatype path_item = PathRight (right_left: bytes) | PathLeft (left_right: bytes)

fun path_item_rust :: "path_item \<Rightarrow> rust" where
  "path_item_rust (PathRight h) =
     RNewtypeVariant ''PathItem'' 0 ''Right'' (RStruct ''PathRight'' [(''left'', RSeq (map RU8 h))])"
| "path_item_rust (PathLeft h) =
     RNewtypeVariant ''PathItem'' 1 ''Left'' (RStruct ''PathLeft'' [(''right'', RSeq (map RU8 h))])"

definition path_rust :: "path_item list \<Rightarrow> rust" where
  "path_rust items = RPath (map path_item_rust items)"

fun path_item_value :: "path_item \<Rightarrow> val" where
  "path_item_value (PathRight h) = VTag ''Right'' (VRecord [(''left'', VList (map VUint8 h))])"
| "path_item_value (PathLeft h) = VTag ''Left'' (VRecord [(''right'', VList (map VUint8 h))])"

fun path_marks :: "path_item list \<Rightarrow> bytes" where
  "path_marks [] = []"
| "path_marks (PathRight h # items) = 0x0F # h @ path_marks items"
| "path_marks (PathLeft h # items) = 0xF0 # path_marks items"

fun path_tails :: "path_item list \<Rightarrow> bytes list" where
  "path_tails [] = []"
| "path_tails (PathRight h # items) = path_tails items"
| "path_tails (PathLeft h # items) = path_tails items @ [h]"

definition path_bytes :: "path_item list \<Rightarrow> bytes" where
  "path_bytes items = path_marks items @ [0x00] @ concat (path_tails items)"

section \<open>Lemmas\<close>

lemma collect_u8s_bytes [simp]: "collect_u8s (map VUint8 bs) e = Ok bs"
  by (induction bs) (auto simp: value_to_u8_def)

lemma collect_u8s_Ok: "collect_u8s vs e = Ok bs \<longleftrightarrow> vs = map VUint8 bs"
proof (induction vs arbitrary: bs)
  case Nil
  then show ?case by auto
next
  case (Cons v vs)
  then show ?case by (cases v) (auto simp: value_to_u8_def Cons_eq_map_conv)
qed

lemma encode_path_item_value:
  "encode_path_item d (path_item_value it) e =
     (case it of PathRight h \<Rightarrow> Ok (None, d @ 0x0F # h) | PathLeft h \<Rightarrow> Ok (Some h, d @ [0xF0]))"
  by (cases it)
    (simp_all add: encode_path_item_def encode_right_def encode_left_def path_encode_bytes_def
      list_to_u8s_def)

lemma encode_path_items_values:
  "\<exists>tails'. encode_path_items d tails (map path_item_value items) e =
      Ok (tails' @ tails, d @ path_marks items)
    \<and> map the (filter (\<lambda>t. t \<noteq> None) tails') = path_tails items"
proof (induction items arbitrary: d tails)
  case Nil
  then show ?case by simp
next
  case (Cons it items)
  show ?case
  proof (cases it)
    case (PathRight h)
    from Cons.IH [of "d @ 0x0F # h" "None # tails"] obtain tails' where
      "encode_path_items (d @ 0x0F # h) (None # tails) (map path_item_value items) e
        = Ok (tails' @ None # tails, d @ 0x0F # h @ path_marks items)"
      "map the (filter (\<lambda>t. t \<noteq> None) tails') = path_tails items" by auto
    with PathRight show ?thesis
      by (intro exI [of _ "tails' @ [None]"]) (simp add: encode_path_item_value del: path_item_value.simps)
  next
    case (PathLeft h)
    from Cons.IH [of "d @ [0xF0]" "Some h # tails"] obtain tails' where
      "encode_path_items (d @ [0xF0]) (Some h # tails) (map path_item_value items) e
        = Ok (tails' @ Some h # tails, d @ 0xF0 # path_marks items)"
      "map the (filter (\<lambda>t. t \<noteq> None) tails') = path_tails items" by auto
    with PathLeft show ?thesis
      by (intro exI [of _ "tails' @ [Some h]"]) (simp add: encode_path_item_value del: path_item_value.simps)
  qed
qed

lemma path_encode_values:
  "path_encode d (VList (map path_item_value items)) e
     = Ok (length (path_bytes items), d @ path_bytes items)"
proof -
  obtain tails' where "encode_path_items d [] (map path_item_value items) e = Ok (tails', d @ path_marks items)"
    "map the (filter (\<lambda>t. t \<noteq> None) tails') = path_tails items"
    using encode_path_items_values [of d "[]" items e] by auto
  then show ?thesis
    by (simp add: path_encode_def path_bytes_def Let_def)
qed

lemma encode_path_item_Ok:
  "encode_path_item d v e = Ok x \<Longrightarrow> \<exists>it. v = path_item_value it"
proof -
  have l: "encode_left d v e = Ok x \<Longrightarrow> \<exists>h. v = VRecord [(''right'', VList (map VUint8 h))]" for v x
    by (auto simp: encode_left_def path_encode_bytes_def list_to_u8s_def collect_u8s_Ok
        split: val.splits list.splits if_splits)
  have r: "encode_right d v e = Ok x \<Longrightarrow> \<exists>h. v = VRecord [(''left'', VList (map VUint8 h))]" for v x
    by (auto simp: encode_right_def path_encode_bytes_def list_to_u8s_def collect_u8s_Ok
        split: val.splits list.splits if_splits)
  assume "encode_path_item d v e = Ok x"
  then obtain name inner where v: "v = VTag name inner"
    "name = ''Left'' \<and> encode_left d inner e = Ok x \<or> name = ''Right'' \<and> encode_right d inner e = Ok x"
    by (auto simp: encode_path_item_def split: val.splits if_splits)
  then show ?thesis
    using l [of inner x] r [of inner x]
    by (metis path_item_value.simps)
qed

lemma encode_path_items_Ok:
  "encode_path_items d tails vs e = Ok x \<Longrightarrow> \<exists>items. vs = map path_item_value items"
proof (induction vs arbitrary: d tails)
  case Nil
  then show ?case by simp
next
  case (Cons v vs)
  then obtain y where "encode_path_item d v e = Ok y"
    and "\<exists>items. vs = map path_item_value items" by auto
  with encode_path_item_Ok show ?case by (metis list.simps(9))
qed

lemma path_encode_Ok:
  assumes "path_encode d v e = Ok (n, d')"
  obtains items where "v = VList (map path_item_value items)" "d' = d @ path_bytes items"
    "n = length (path_bytes items)"
proof -
  obtain vs where v: "v = VList vs"
    using assms by (auto simp: path_encode_def split: val.splits)
  with assms obtain x where "encode_path_items d [] vs e = Ok x"
    by (auto simp: path_encode_def Let_def)
  with encode_path_items_Ok obtain items where "vs = map path_item_value items" by blast
  with v assms path_encode_values [of d items e] that show ?thesis by simp
qed

lemma serialize_path_items:
  "serialize_elements K (map path_item_rust items) = Ok (map path_item_value items)"
proof (induction items)
  case Nil
  then show ?case by simp
next
  case (Cons it items)
  then show ?case by (cases it) (simp_all add: serialize_bytes)
qed

lemma serialize_path:
  "length items \<le> 3 \<Longrightarrow> serialize K (path_rust items) = Ok (VList (map path_item_value items))"
  by (simp add: path_rust_def MAX_PASS_MERKLE_DEPTH_def serialize_path_items)

end
