(* ===== verification/Z_Writer.thy ===== *)
theory Z_Writer
  imports Crates_Wire
begin

text \<open>
  \<^verbatim>\<open>encode_z\<close> of \<^verbatim>\<open>tezos/encoding/src/binary_writer.rs\<close>, which writes the hexadecimal text of an integer, and the format it implements: the
  sign and the lowest six bits of the magnitude in the first byte, then seven bits per byte, least significant
  first, with the top bit set on all bytes but the last.
\<close>

section \<open>Zarith numbers\<close>

definition ascii_alphanumeric :: "u8 \<Rightarrow> bool" where
  "ascii_alphanumeric b \<longleftrightarrow>
     (48 \<le> b \<and> b \<le> 57) \<or> (65 \<le> b \<and> b \<le> 90) \<or> (97 \<le> b \<and> b \<le> 122)"

definition z_sign :: "wire \<Rightarrow> bytes \<Rightarrow> (ser_error, nat \<times> bool) res" where
  "z_sign W s =
     (case s of
        [] \<Rightarrow> Err EmptyZ
      | c # _ \<Rightarrow>
          (if (if c < 0x80 then ascii_alphanumeric c else char_alphanumeric W s) then Ok (0, False)
           else if c = 45 then Ok (1, True)
           else if c < 0x80 then Ok (1, False)
           else Panic))"

fun z_set_bits :: "nat list \<Rightarrow> u8 \<Rightarrow> bool list \<Rightarrow> (ser_error, u8 \<times> bool list) res" where
  "z_set_bits [] n bits = Ok (n, bits)"
| "z_set_bits (bit_idx # idxs) n bits =
     (if bits = [] then Err NotEnoughBits
      else res_bind (map_err BitsFail (bits_set n bit_idx (last bits))) (\<lambda>n.
        z_set_bits idxs n (butlast bits)))"

fun z_chunks :: "wire \<Rightarrow> nat \<Rightarrow> nat list \<Rightarrow> bytes \<Rightarrow> bool list \<Rightarrow> (ser_error, bytes) res" where
  "z_chunks W last_chunk_idx [] d bits = Ok d"
| "z_chunks W last_chunk_idx (chunk_idx # idxs) d bits =
     res_bind (z_set_bits [0..<min 7 (length bits)] 0 bits) (\<lambda>(n, bits).
     res_bind (if chunk_idx \<noteq> last_chunk_idx then map_err BitsFail (bits_set n 7 True) else Ok n) (\<lambda>n.
       z_chunks W last_chunk_idx idxs (put_u8 W d n) bits))"

definition encode_z_bits :: "wire \<Rightarrow> bytes \<Rightarrow> bool \<Rightarrow> bytes \<Rightarrow> (ser_error, nat \<times> bytes) res" where
  \<comment> \<open>The branch for numbers of more than six bits. \<open>bits.len() - 1\<close> underflows when six bits were all there were, for a number below 64
    written with leading zero bytes. With overflow checks this is the panic shown here; without them the last chunk index
    wraps around and the loop writes bytes until memory runs out. Either way nothing is returned.\<close>
  "encode_z_bits W d negative bs =
     (let data_len_before_write = length d;
          bits = trim_left (bits_from_bytes W bs);
          n = (if negative then 0xC0 else 0x80)
      in res_bind (z_set_bits [0..<6] n bits) (\<lambda>(n, bits).
         let d = put_u8 W d n in
         if bits = [] then Panic
         else
           let last_chunk_idx = (length bits - 1) div 7
           in res_bind (z_chunks W last_chunk_idx [0..<Suc last_chunk_idx] d bits) (\<lambda>d.
              res_bind (ok_or (SizeOverflow ''a Z data'') (checked_sub (length d) data_len_before_write))
                (\<lambda>sz. Ok (sz, d)))))"

definition encode_z :: "wire \<Rightarrow> hex_crate \<Rightarrow> bytes \<Rightarrow> bytes \<Rightarrow> (ser_error, nat \<times> bytes) res" where
  "encode_z W H d s =
     res_bind (z_sign W s) (\<lambda>(decode_offset, negative).
     let hex_value = drop decode_offset s;
         hex_value = (if length hex_value mod 2 = 1 then 48 # hex_value else hex_value)
     in res_bind (map_err HexError (hex_decode H (map (\<lambda>b. char_of (unat b)) hex_value))) (\<lambda>bs.
       if length bs = 1 \<and> hd bs \<le> 0x3F then
         (let byte = (if negative then or (hd bs) 0x40 else hd bs)
          in Ok (1, put_u8 W d byte))
       else encode_z_bits W d negative bs))"

section \<open>The format\<close>

fun z_groups :: "nat \<Rightarrow> bytes" where
  "z_groups m = (if m < 128 then [word_of_nat m] else word_of_nat (128 + m mod 128) # z_groups (m div 128))"

declare z_groups.simps [simp del]

definition z_format :: "bool \<Rightarrow> nat \<Rightarrow> bytes" where
  "z_format negative m =
     (let sign = (if negative then 64 else 0) in
      if m < 64 then [word_of_nat (sign + m)] else word_of_nat (128 + sign + m mod 64) # z_groups (m div 64))"

definition z_bytes :: "wire \<Rightarrow> hex_crate \<Rightarrow> bytes \<Rightarrow> bytes option" where
  \<comment> \<open>the bytes for the text of a number; a magnitude below 64 has to be written with one or two digits\<close>
  "z_bytes W H s =
     (case z_sign W s of
        Ok (decode_offset, negative) \<Rightarrow>
          (let digits = drop decode_offset s in
           case hex_decode H (map (\<lambda>b. char_of (unat b)) (if odd (length digits) then 48 # digits else digits)) of
             Ok bs \<Rightarrow> if length bs = 1 \<or> 64 \<le> from_be bs then Some (z_format negative (from_be bs)) else None
           | _ \<Rightarrow> None)
      | _ \<Rightarrow> None)"

lemma res_bind_assoc: "res_bind (res_bind m f) g = res_bind m (\<lambda>x. res_bind (f x) g)"
  by (cases m) auto

section \<open>Bit lists\<close>

definition lval :: "bool list \<Rightarrow> nat" where
  "lval L = bits_value (rev L)"

lemma lval_simps [simp]: "lval [] = 0" "lval (b # L) = of_bool b + 2 * lval L"
  by (simp_all add: lval_def bits_value_append)

lemma lval_append: "lval (L @ M) = lval L + 2 ^ length L * lval M"
  by (induction L) auto

lemma lval_False [simp]: "lval (replicate n False) = 0"
  by (induction n) auto

lemma lval_less: "lval L < 2 ^ length L"
  by (induction L) auto

fun put_bits :: "nat \<Rightarrow> bool list \<Rightarrow> u8 \<Rightarrow> u8" where
  "put_bits i [] n = n"
| "put_bits i (b # bs) n = put_bits (Suc i) bs (if b then set_bit i n else unset_bit i n)"

lemma bit_put_bits:
  "i + length bs \<le> 8 \<Longrightarrow> j < 8 \<Longrightarrow>
   bit (put_bits i bs n) j = (if i \<le> j \<and> j < i + length bs then bs ! (j - i) else bit n j)"
proof (induction bs arbitrary: i n)
  case (Cons b bs)
  then show ?case
    by (cases "j = i") (auto simp: bit_simps Suc_diff_Suc nth_Cons' not_less_eq_eq)
qed auto

section \<open>The writer on bits\<close>

lemma z_set_bits_rev:
  "k \<le> length L \<Longrightarrow> i + k \<le> 8 \<Longrightarrow>
   z_set_bits [i..<i + k] n (rev L) = Ok (put_bits i (take k L) n, rev (drop k L))"
proof (induction k arbitrary: i n L)
  case (Suc k)
  then obtain b M where L: "L = b # M" by (cases L) auto
  with Suc.prems Suc.IH [of M "Suc i"] show ?case by (simp add: upt_conv_Cons del: upt_Suc)
qed simp

function z_tail :: "bool list \<Rightarrow> bytes" where
  "z_tail L =
     (if length L \<le> 7 then [put_bits 0 L 0]
      else set_bit 7 (put_bits 0 (take 7 L) 0) # z_tail (drop 7 L))"
  by auto
termination by (relation "measure length") auto

declare z_tail.simps [simp del]

lemma map_bit_put_bits:
  "i \<le> 8 \<Longrightarrow> length bs \<le> i \<Longrightarrow> (\<And>j. j < 8 \<Longrightarrow> j < i \<Longrightarrow> \<not> bit n j) \<Longrightarrow>
   map (bit (put_bits 0 bs n)) [0..<i] = bs @ replicate (i - length bs) False"
  by (rule nth_equalityI) (auto simp: bit_put_bits nth_append)

section \<open>The writer implements the format\<close>

context wire_laws
begin

lemma z_set_bits_length:
  "z_set_bits idxs n bits = Ok (m, bits') \<Longrightarrow> length bits' + length idxs = length bits"
  by (induction idxs arbitrary: n bits) (auto split: if_splits simp: Suc_diff_le)

lemma z_chunks_append:
  "z_chunks W k idxs (d @ x) bits = res_bind (z_chunks W k idxs x bits) (\<lambda>b. Ok (d @ b))"
proof (induction idxs arbitrary: x bits)
  case Nil
  then show ?case by simp
next
  case (Cons i idxs)
  then show ?case by (auto simp: put_byte res_bind_assoc intro!: arg_cong2 [where f = res_bind] ext)
qed

lemma z_chunks_grows: "z_chunks W k idxs x bits = Ok b \<Longrightarrow> length x \<le> length b"
  by (induction idxs arbitrary: x bits) (fastforce simp: put_byte)+

lemma encode_z_bits_Ok:
  "encode_z_bits W d negative bs = Ok (n, d') \<longleftrightarrow>
     (\<exists>b. encode_z_bits W [] negative bs = Ok (length b, b) \<and> n = length b \<and> d' = d @ b)"
proof -
  have tail: "res_bind (z_chunks W k idxs (d @ [n]) bits) (\<lambda>d'.
        res_bind (ok_or e (checked_sub (length d') (length d))) (\<lambda>sz. Ok (sz, d')))
      = res_bind (z_chunks W k idxs [n] bits) (\<lambda>b. Ok (length b, d @ b))"
    for k idxs n bits e d
    by (simp add: z_chunks_append res_bind_assoc checked_sub_def)
  show ?thesis
    unfolding encode_z_bits_def Let_def put_byte tail
    by (cases "z_set_bits [0..<6] (if negative then 0xC0 else 0x80) (trim_left (bits_from_bytes W bs))")
      (auto simp: tail [of _ _ "[]", simplified] simp del: z_set_bits.simps upt_Suc)
qed

lemma z_chunks_tail:
  "L \<noteq> [] \<Longrightarrow> (length L - 1) div 7 = m \<Longrightarrow>
   z_chunks W (j + m) [j..<Suc (j + m)] d (rev L) = Ok (d @ z_tail L)"
proof (induction m arbitrary: j d L)
  case 0
  then have l: "length L \<le> 7" by (cases L) (auto simp: div_eq_0_iff)
  then have "z_set_bits [0..<length L] 0 (rev L) = Ok (put_bits 0 L 0, [])"
    using z_set_bits_rev [of "length L" L 0] by simp
  with l show ?case by (simp add: z_tail.simps put_byte min_def)
next
  case (Suc m)
  then have l: "7 < length L" "(length (drop 7 L) - 1) div 7 = m" by auto
  have "z_set_bits [0..<7] 0 (rev L) = Ok (put_bits 0 (take 7 L) 0, rev (drop 7 L))"
    using z_set_bits_rev [of 7 L 0] l by simp
  moreover have "z_chunks W (Suc j + m) [Suc j..<Suc (Suc j + m)] (d @ [x]) (rev (drop 7 L))
      = Ok ((d @ [x]) @ z_tail (drop 7 L))" for x
    using l by (intro Suc.IH) auto
  moreover have "z_tail L = set_bit 7 (put_bits 0 (take 7 L) 0) # z_tail (drop 7 L)"
    using l by (subst z_tail.simps) simp
  moreover have "[j..<Suc (j + Suc m)] = j # [Suc j..<Suc (Suc j + m)]"
    by (simp add: upt_conv_Cons del: upt_Suc)
  moreover have "min 7 (length (rev L)) = 7" using l by simp
  ultimately show ?case by (simp add: put_byte del: upt_Suc z_set_bits.simps)
qed

lemma encode_z_bits_eq:
  assumes "rev L = dropWhile Not (concat (map bits_of_byte bs))" and "6 < length L"
  shows "\<exists>n. encode_z_bits W [] negative bs =
    Ok (n, put_bits 0 (take 6 L) (if negative then 0xC0 else 0x80) # z_tail (drop 6 L))"
proof -
  have "z_set_bits [0..<6] n (rev L) = Ok (put_bits 0 (take 6 L) n, rev (drop 6 L))" for n
    using z_set_bits_rev [of 6 L 0] assms(2) by simp
  moreover have "z_chunks W ((length L - 7) div 7) [0..<Suc ((length L - 7) div 7)] d (rev (drop 6 L))
      = Ok (d @ z_tail (drop 6 L))" for d
    using z_chunks_tail [of "drop 6 L" "(length L - 7) div 7" 0] assms(2) by simp
  ultimately show ?thesis
    using assms by (simp add: encode_z_bits_def bits_from_bytes put_byte Let_def checked_sub_def
        del: upt_Suc z_set_bits.simps)
qed

end

lemma byte_of_bits: "map (bit b) [0..<8] = L \<Longrightarrow> b = word_of_nat (lval L)" for b :: u8
proof -
  have "map (bit b) [0..<8] = rev (bits_of_byte b)" by (simp add: bits_of_byte_def rev_map)
  then have "lval (map (bit b) [0..<8]) = unat b" by (simp add: lval_def bits_value_bits_of_byte del: upt_Suc)
  then have "b = word_of_nat (lval (map (bit b) [0..<8]))" by simp
  then show "map (bit b) [0..<8] = L \<Longrightarrow> b = word_of_nat (lval L)" by simp
qed

lemma put_group: "length L \<le> 7 \<Longrightarrow> put_bits 0 L 0 = word_of_nat (lval L)"
  using byte_of_bits [OF map_bit_put_bits [of 8 L 0]] by (simp add: lval_append)

lemma put_continued: "length L = 7 \<Longrightarrow> set_bit 7 (put_bits 0 L 0) = word_of_nat (128 + lval L)"
proof -
  assume "length L = 7"
  then have "map (bit (set_bit 7 (put_bits 0 L 0))) [0..<8] = L @ [True]"
    by (intro nth_equalityI) (auto simp: bit_simps bit_put_bits nth_append less_Suc_eq numeral_eq_Suc)
  from byte_of_bits [OF this] \<open>length L = 7\<close> show ?thesis by (simp add: lval_append add.commute)
qed

lemma put_first:
  assumes "length L = 6"
  shows "put_bits 0 L (if negative then 0xC0 else 0x80) = word_of_nat (128 + (if negative then 64 else 0) + lval L)"
proof -
  have "map (bit (put_bits 0 L (if negative then 0xC0 else 0x80))) [0..<8] = L @ [negative, True]"
    using assms by (intro nth_equalityI) (auto simp: bit_simps bit_put_bits nth_append less_Suc_eq numeral_eq_Suc)
  from byte_of_bits [OF this] assms show ?thesis by (simp add: lval_append add.commute add.left_commute)
qed

lemma lval_last: "L \<noteq> [] \<Longrightarrow> last L \<Longrightarrow> 2 ^ (length L - 1) \<le> lval L"
proof -
  assume "L \<noteq> []" "last L"
  then have "butlast L @ [True] = L" using append_butlast_last_id [of L] by simp
  then have "lval L = lval (butlast L) + 2 ^ (length L - 1)" using lval_append [of "butlast L" "[True]"] by simp
  then show ?thesis by simp
qed

lemma lval_split:
  assumes "k \<le> length L"
  shows "lval (take k L) = lval L mod 2 ^ k" and "lval (drop k L) = lval L div 2 ^ k"
proof -
  have "lval L = lval (take k L) + 2 ^ k * lval (drop k L)" "lval (take k L) < 2 ^ k"
    using lval_append [of "take k L" "drop k L"] lval_less [of "take k L"] assms by simp_all
  then show "lval (take k L) = lval L mod 2 ^ k" and "lval (drop k L) = lval L div 2 ^ k" by simp_all
qed

lemma z_tail_groups: "L \<noteq> [] \<Longrightarrow> last L \<Longrightarrow> z_tail L = z_groups (lval L)"
proof (induction L rule: z_tail.induct)
  case (1 L)
  show ?case
  proof (cases "length L \<le> 7")
    case True
    have "lval L < 128" using lval_less [of L] power_increasing [OF True, of "2 :: nat"] by simp
    then show ?thesis using True put_group by (simp add: z_tail.simps [of L] z_groups.simps [of "lval L"])
  next
    case False
    have "(2 :: nat) ^ 7 \<le> 2 ^ (length L - 1)" using False by (intro power_increasing) auto
    then have "\<not> lval L < 128" using lval_last [OF "1.prems"] by simp
    moreover have "z_tail (drop 7 L) = z_groups (lval (drop 7 L))"
      by (rule 1) (use False "1.prems" in auto)
    ultimately show ?thesis
      using False put_continued [of "take 7 L"] lval_split [of 7 L] by (simp add: z_tail.simps [of L] z_groups.simps [of "lval L"])
  qed
qed

context wire_laws
begin

lemma encode_z_bits_format:
  "encode_z_bits W [] negative bs = Ok (n, b) \<longleftrightarrow>
     64 \<le> from_be bs \<and> b = z_format negative (from_be bs) \<and> n = length b"
proof -
  define L where "L = rev (dropWhile Not (concat (map bits_of_byte bs)))"
  have "bits_value (dropWhile Not xs) = bits_value xs" for xs by (induction xs) auto
  then have val: "lval L = from_be bs" by (simp add: L_def lval_def bits_value_concat)
  have rev: "rev L = dropWhile Not (concat (map bits_of_byte bs))" by (simp add: L_def)
  have last: "last L" if "L \<noteq> []"
    using that hd_dropWhile [of Not "concat (map bits_of_byte bs)"] by (auto simp: L_def last_rev)
  show ?thesis
  proof (cases "6 < length L")
    case True
    then have ne: "L \<noteq> []" "drop 6 L \<noteq> []" by auto
    obtain k where k: "encode_z_bits W [] negative bs =
        Ok (k, put_bits 0 (take 6 L) (if negative then 0xC0 else 0x80) # z_tail (drop 6 L))"
      using encode_z_bits_eq [OF rev True] by blast
    have "(2 :: nat) ^ 6 \<le> 2 ^ (length L - 1)" using True by (intro power_increasing) auto
    then have big: "64 \<le> lval L" using lval_last [OF ne(1) last [OF ne(1)]] by simp
    have "z_tail (drop 6 L) = z_groups (lval (drop 6 L))" using ne last by (intro z_tail_groups) simp_all
    then have "put_bits 0 (take 6 L) (if negative then 0xC0 else 0x80) # z_tail (drop 6 L) = z_format negative (from_be bs)"
      using put_first [of "take 6 L" negative] lval_split [of 6 L] True big by (simp add: z_format_def Let_def val)
    with k encode_z_bits_Ok [of "[]" negative bs k] big show ?thesis by (auto simp: val)
  next
    case False
    have small: "lval L < 64" using lval_less [of L] power_increasing [of "length L" 6 "2 :: nat"] False by simp
    have "encode_z_bits W [] negative bs \<noteq> Ok x" for x
    proof (cases "z_set_bits [0..<6] (if negative then 0xC0 else 0x80) (rev L)")
      case (Ok y)
      obtain m bits where y: "y = (m, bits)" by (cases y)
      have "length bits + 6 = length L" using z_set_bits_length [of "[0..<6]" _ "rev L" m bits] Ok y by simp
      then have "bits = []" using False by (cases bits) auto
      with Ok y show ?thesis by (simp add: encode_z_bits_def bits_from_bytes Let_def rev [symmetric] del: upt_Suc z_set_bits.simps)
    qed (simp_all add: encode_z_bits_def bits_from_bytes Let_def rev [symmetric] del: upt_Suc z_set_bits.simps)
    with small show ?thesis by (simp add: val)
  qed
qed

lemma encode_z_append:
  "encode_z W H d s = Ok (n, d') \<longleftrightarrow> (\<exists>bs. z_bytes W H s = Some bs \<and> n = length bs \<and> d' = d @ bs)"
proof (cases "z_sign W s")
  case (Ok x)
  obtain off negative where x: "x = (off, negative)" by (cases x)
  let ?hex = "if odd (length (drop off s)) then 48 # drop off s else drop off s"
  have odd: "(if length (drop off s) mod 2 = 1 then 48 # drop off s else drop off s) = ?hex" by (simp only: odd_iff_mod_2_eq_one)
  show ?thesis
  proof (cases "hex_decode H (map (\<lambda>b. char_of (unat b)) ?hex)")
    case hex: (Ok bs)
    have z: "z_bytes W H s = (if length bs = 1 \<or> 64 \<le> from_be bs then Some (z_format negative (from_be bs)) else None)"
      unfolding z_bytes_def Ok x res.case prod.case Let_def hex ..
    have e: "encode_z W H d s = (if length bs = 1 \<and> hd bs \<le> 0x3F then Ok (1, d @ [if negative then or (hd bs) 0x40 else hd bs])
        else encode_z_bits W d negative bs)"
      unfolding encode_z_def Ok x res_bind.simps prod.case Let_def odd hex map_err.simps put_byte ..
    show ?thesis
    proof (cases "length bs = 1 \<and> hd bs \<le> 0x3F")
      case True
      then obtain b where b: "bs = [b]" "unat b < 64" by (cases bs) (auto simp: word_le_nat_alt)
      have "take_bit 6 b = b" using b(2) by (simp add: word_unat_eq_iff unsigned_take_bit_eq take_bit_nat_eq_self_iff)
      then have "\<not> bit b 6" by (metis bit_take_bit_iff less_irrefl)
      then have "and b 0x40 = 0" by (intro bit_eqI) (auto simp: bit_simps less_Suc_eq numeral_eq_Suc)
      then have "or b 0x40 = word_of_nat (64 + unat b)" by (simp add: disjunctive_add_eq_or [symmetric] add.commute)
      moreover have "from_be bs = unat b" using b(1) from_be_snoc [of "[]" b] by simp
      ultimately show ?thesis unfolding e z using True b by (auto simp: z_format_def)
    next
      case False
      then have one: "64 \<le> from_be bs" if "length bs = 1"
        using that from_be_snoc [of "[]"] by (cases bs) (auto simp: word_le_nat_alt)
      show ?thesis
        unfolding e if_not_P [OF False] z encode_z_bits_Ok [of d] encode_z_bits_format using one by auto
    qed
  next
    case hex: (Err e)
    show ?thesis
      unfolding encode_z_def z_bytes_def Ok x res_bind.simps res.case prod.case Let_def odd hex map_err.simps by simp
  next
    case hex: Panic
    show ?thesis
      unfolding encode_z_def z_bytes_def Ok x res_bind.simps res.case prod.case Let_def odd hex map_err.simps by simp
  qed
qed (simp_all add: encode_z_def z_bytes_def)

end
end
