(* ===== verification/Binary_Writer.thy ===== *)
theory Binary_Writer
  imports Path_Codec Z_Writer
begin

text \<open>
  The schema-driven writer, \<^verbatim>\<open>tezos/encoding/src/binary_writer.rs\<close>. The buffer \<^verbatim>\<open>data\<close> is passed and returned;
  an operation returns the number of bytes it reports and the new buffer. The buffer of a failed call
  is dropped by \<^verbatim>\<open>write\<close>, so an error carries no buffer. The format is stated separately by \<open>enc\<close>, which has no
  buffer, no size counters and no placeholder; the writer refines it.
\<close>

section \<open>The writer\<close>

fun find_value_in_record_values :: "string \<Rightarrow> (string \<times> val) list \<Rightarrow> val option" where
  "find_value_in_record_values name [] = None"
| "find_value_in_record_values name ((v_name, v) # vs) =
     (if v_name = name then Some v else find_value_in_record_values name vs)"

definition write_tag_id :: "wire \<Rightarrow> bytes \<Rightarrow> nat \<Rightarrow> u16 \<Rightarrow> (ser_error, bytes) res" where
  "write_tag_id W d tag_sz i =
     (if tag_sz = 1 then Ok (put_u8 W d (ucast i))
      else if tag_sz = 2 then Ok (put_u16 W d i)
      else Err (UnsupportedTagSize tag_sz))"

definition bound_error :: "encoding \<Rightarrow> nat \<Rightarrow> nat \<Rightarrow> encoding_error" where
  "bound_error e max_sz act = err_from (BoundExceeded e max_sz act)"

definition mismatch :: "encoding \<Rightarrow> val \<Rightarrow> (encoding_error, 'a) res" where
  "mismatch e v = Err (err_from (EncodingMismatch e v))"

definition size_since :: "string \<Rightarrow> nat \<Rightarrow> bytes \<Rightarrow> (encoding_error, nat \<times> bytes) res" where
  "size_since what data_len_before_write d =
     res_bind (ok_or (err_from (SizeOverflow what)) (checked_sub (length d) data_len_before_write))
       (\<lambda>n. Ok (n, d))"

definition add_size :: "string \<Rightarrow> nat \<Rightarrow> nat \<times> bytes \<Rightarrow> (encoding_error, nat \<times> bytes) res" where
  "add_size what a = (\<lambda>(b, d).
     res_bind (ok_or (err_from (SizeOverflow what)) (checked_add a b)) (\<lambda>n. Ok (n, d)))"

fun put_u8_values :: "wire \<Rightarrow> encoding \<Rightarrow> bytes \<Rightarrow> val list \<Rightarrow> (encoding_error, bytes) res" where
  "put_u8_values W e d [] = Ok d"
| "put_u8_values W e d (v # vs) =
     (case v of
        VUint8 b \<Rightarrow> put_u8_values W e (put_u8 W d b) vs
      | _ \<Rightarrow> Err (err_from (NotByte e v)))"

definition put_string :: "wire \<Rightarrow> bytes \<Rightarrow> bytes \<Rightarrow> (encoding_error, nat \<times> bytes) res" where
  "put_string W d s =
     (let d = put_slice W (put_u32 W d (word_of_nat (length s))) s
      in res_bind (ok_or (err_from (SizeOverflow ''a string'')) (checked_add 4 (length s)))
           (\<lambda>n. Ok (n, d)))"

definition patch_size :: "wire \<Rightarrow> nat \<Rightarrow> nat \<Rightarrow> nat \<Rightarrow> bytes \<Rightarrow> (encoding_error, nat \<times> bytes) res" where
  "patch_size W before_sz after_sz bytes_sz d =
     (if \<not> (before_sz \<le> after_sz \<and> after_sz \<le> length d) then Panic
      else if 2 ^ 32 \<le> bytes_sz then Err (err_from (SizeOverflow ''a dynamic value''))
      else
        let bytes_sz_slice = take (after_sz - before_sz) (drop before_sz d)
        in res_bind (ok_or (err_from IoError) (write_u32_be W bytes_sz_slice (word_of_nat bytes_sz)))
             (\<lambda>slice. size_since ''a dynamic value'' before_sz
                (take before_sz d @ slice @ drop after_sz d)))"

text \<open>The recursion goes to smaller schemas; inside a list, to the rest of the list.\<close>

lemma size_field_encoding: "size (field_encoding f) < Suc (size_field size f + n)"
  by (cases f) simp

lemma size_tag_found:
  assumes "find_by_variant tm v = Some t"
  shows "size (tag_encoding t) < Suc (size_tag_map (size_tag size) tm)"
proof -
  obtain k where "(k, t) \<in> set (id_to_tag tm)"
    using find_by_variant_in [OF assms] by force
  then have "size_tag size t \<le> size_tag_map (size_tag size) tm"
    by (cases tm) (auto intro!: le_SucI trans_le_add1 elim!: size_list_estimation')
  then show ?thesis by (cases t) simp
qed

function encode_any ::
    "wire \<Rightarrow> hex_crate \<Rightarrow> bytes \<Rightarrow> val \<Rightarrow> encoding \<Rightarrow> (encoding_error, nat \<times> bytes) res"
  and encode_record ::
    "wire \<Rightarrow> hex_crate \<Rightarrow> bytes \<Rightarrow> val \<Rightarrow> encoding field list \<Rightarrow> (encoding_error, nat \<times> bytes) res"
  and encode_record_fields ::
    "wire \<Rightarrow> hex_crate \<Rightarrow> nat \<Rightarrow> bytes \<Rightarrow> (string \<times> val) list \<Rightarrow> encoding field list
      \<Rightarrow> (encoding_error, nat \<times> bytes) res"
  and encode_tuple ::
    "wire \<Rightarrow> hex_crate \<Rightarrow> bytes \<Rightarrow> val \<Rightarrow> encoding list \<Rightarrow> (encoding_error, nat \<times> bytes) res"
  and encode_tuple_items ::
    "wire \<Rightarrow> hex_crate \<Rightarrow> nat \<Rightarrow> bytes \<Rightarrow> val \<Rightarrow> encoding list \<Rightarrow> val list \<Rightarrow> encoding list
      \<Rightarrow> (encoding_error, nat \<times> bytes) res"
  and encode_list_items ::
    "wire \<Rightarrow> hex_crate \<Rightarrow> bytes \<Rightarrow> val list \<Rightarrow> encoding \<Rightarrow> (encoding_error, bytes) res"
  and encode_value ::
    "wire \<Rightarrow> hex_crate \<Rightarrow> bytes \<Rightarrow> val \<Rightarrow> encoding \<Rightarrow> (encoding_error, nat \<times> bytes) res" where
  "encode_any W H d v e =
     (case e of
        EObj name schema \<Rightarrow> encode_record W H d v schema
      | ETup encodings \<Rightarrow> encode_tuple W H d v encodings
      | _ \<Rightarrow> encode_value W H d v e)"
| "encode_record W H d v schema =
     (case v of
        VRecord values \<Rightarrow> encode_record_fields W H 0 d values schema
      | _ \<Rightarrow> mismatch (EObj [] schema) v)"
| "encode_record_fields W H bytes_sz d values [] = Ok (bytes_sz, d)"
| "encode_record_fields W H bytes_sz d values (f # schema) =
     (case find_value_in_record_values (field_name f) values of
        None \<Rightarrow> Err (err_from (NoValueFor (field_name f)))
      | Some v \<Rightarrow>
          res_bind (map_err (err_field (field_name f)) (encode_any W H d v (field_encoding f))) (\<lambda>(n, d).
          res_bind (add_size ''record field'' bytes_sz (n, d)) (\<lambda>(n, d).
            encode_record_fields W H n d values schema)))"
| "encode_tuple W H d v encodings =
     (case v of
        VTuple values \<Rightarrow> encode_tuple_items W H 0 d v encodings values encodings
      | _ \<Rightarrow> mismatch (ETup encodings) v)"
| "encode_tuple_items W H bytes_sz d v encodings values [] = Ok (bytes_sz, d)"
| "encode_tuple_items W H bytes_sz d v encodings [] (e # es) = mismatch (ETup encodings) v"
| "encode_tuple_items W H bytes_sz d v encodings (x # values) (e # es) =
     res_bind (encode_any W H d x e) (\<lambda>(n, d).
     res_bind (add_size ''a tuple item'' bytes_sz (n, d)) (\<lambda>(n, d).
       encode_tuple_items W H n d v encodings values es))"
| "encode_list_items W H d [] e = Ok d"
| "encode_list_items W H d (v # vs) e =
     res_bind (map_err err_element_of (encode_value W H d v e)) (\<lambda>(n, d).
       encode_list_items W H d vs e)"
| "encode_value W H d v EUnit = Ok (0, d)"
| "encode_value W H d v EInt8 = (case v of VInt8 x \<Rightarrow> Ok (1, put_i8 W d x) | _ \<Rightarrow> mismatch EInt8 v)"
| "encode_value W H d v EUint8 = (case v of VUint8 x \<Rightarrow> Ok (1, put_u8 W d x) | _ \<Rightarrow> mismatch EUint8 v)"
| "encode_value W H d v EInt16 = (case v of VInt16 x \<Rightarrow> Ok (2, put_i16 W d x) | _ \<Rightarrow> mismatch EInt16 v)"
| "encode_value W H d v EUint16 = (case v of VUint16 x \<Rightarrow> Ok (2, put_u16 W d x) | _ \<Rightarrow> mismatch EUint16 v)"
| "encode_value W H d v EInt32 = (case v of VInt32 x \<Rightarrow> Ok (4, put_i32 W d x) | _ \<Rightarrow> mismatch EInt32 v)"
| "encode_value W H d v EInt31 =
     (case v of
        VInt32 x \<Rightarrow> if and x 0x7FFFFFFF = x then Ok (4, put_i32 W d x) else Err (err_from OutsideInt31)
      | _ \<Rightarrow> mismatch EInt31 v)"
| "encode_value W H d v EUint32 =
     (case v of
        VInt32 x \<Rightarrow> if 0 \<le> sint x then Ok (4, put_i32 W d x) else Err (err_from OutsideUint32)
      | _ \<Rightarrow> mismatch EUint32 v)"
| "encode_value W H d v ERangedInt = Err (err_from (NotImplemented ERangedInt))"
| "encode_value W H d v ERangedFloat = Err (err_from (NotImplemented ERangedFloat))"
| "encode_value W H d v EInt64 = (case v of VInt64 x \<Rightarrow> Ok (8, put_i64 W d x) | _ \<Rightarrow> mismatch EInt64 v)"
| "encode_value W H d v ETimestamp =
     (case v of VInt64 x \<Rightarrow> Ok (8, put_i64 W d x) | _ \<Rightarrow> mismatch ETimestamp v)"
| "encode_value W H d v EFloat = (case v of VFloat x \<Rightarrow> Ok (8, put_f64 W d x) | _ \<Rightarrow> mismatch EFloat v)"
| "encode_value W H d v EBool =
     (case v of
        VBool x \<Rightarrow> Ok (1, if x then put_u8 W d BYTE_VAL_TRUE else put_u8 W d BYTE_VAL_FALSE)
      | _ \<Rightarrow> mismatch EBool v)"
| "encode_value W H d v EZ =
     (case v of VString s \<Rightarrow> map_err err_from (encode_z W H d s) | _ \<Rightarrow> mismatch EZ v)"
| "encode_value W H d v EMutez =
     (case v of VString s \<Rightarrow> map_err err_from (encode_z W H d s) | _ \<Rightarrow> mismatch EMutez v)"
| "encode_value W H d v EString = (case v of VString s \<Rightarrow> put_string W d s | _ \<Rightarrow> mismatch EString v)"
| "encode_value W H d v (EBoundedString m) =
     (case v of
        VString s \<Rightarrow> if m < length s then Err (bound_error (EBoundedString m) m (length s))
                    else put_string W d s
      | _ \<Rightarrow> mismatch (EBoundedString m) v)"
| "encode_value W H d v EEnum =
     (case v of
        VEnum n ordinal \<Rightarrow>
          (case ordinal of
             Some i \<Rightarrow> if unat i \<le> 255 then Ok (1, put_u8 W d (ucast i))
                       else Err (err_from (EnumOrdinalTooBig i))
           | None \<Rightarrow> Err (err_from NoEnumOrdinal))
      | _ \<Rightarrow> mismatch EEnum v)"
| "encode_value W H d v (EList e) =
     (case v of
        VList vs \<Rightarrow>
          res_bind (encode_list_items W H d vs e) (size_since ''a list'' (length d))
      | _ \<Rightarrow> mismatch (EList e) v)"
| "encode_value W H d v (EBoundedList m e) =
     (case v of
        VList vs \<Rightarrow>
          if m < length vs then Err (bound_error (EBoundedList m e) m (length vs))
          else res_bind (encode_list_items W H d vs e) (size_since ''a list'' (length d))
      | _ \<Rightarrow> mismatch (EBoundedList m e) v)"
| "encode_value W H d v EBytes =
     (case v of
        VList vs \<Rightarrow> res_bind (put_u8_values W EBytes d vs) (size_since ''bytes'' (length d))
      | _ \<Rightarrow> mismatch EBytes v)"
| "encode_value W H d v (EHash ht) =
     (case v of
        VList vs \<Rightarrow>
          res_bind (put_u8_values W (EHash ht) d vs) (\<lambda>d'.
          res_bind (size_since ''a hash value'' (length d) d') (\<lambda>(n, d').
            if n = hash_size ht then Ok (n, d')
            else Err (err_from (WrongSize (hash_size ht) n))))
      | _ \<Rightarrow> mismatch (EHash ht) v)"
| "encode_value W H d v (EOption e) =
     (case v of
        VOption (Some x) \<Rightarrow>
          res_bind (encode_value W H (put_u8 W d BYTE_VAL_SOME) x e) (add_size ''an option value'' 1)
      | VOption None \<Rightarrow> Ok (1, put_u8 W d BYTE_VAL_NONE)
      | _ \<Rightarrow> mismatch (EOption e) v)"
| "encode_value W H d v (EOptionalField e) =
     (case v of
        VOption (Some x) \<Rightarrow>
          res_bind (encode_value W H (put_u8 W d BYTE_FIELD_SOME) x e) (add_size ''an optional field'' 1)
      | VOption None \<Rightarrow> Ok (1, put_u8 W d BYTE_FIELD_NONE)
      | _ \<Rightarrow> mismatch (EOptionalField e) v)"
| "encode_value W H d v (EDynamic e) =
     (let d1 = put_u32 W d 0
      in res_bind (encode_value W H d1 v e) (\<lambda>(bytes_sz, d2).
           patch_size W (length d) (length d1) bytes_sz d2))"
| "encode_value W H d v (EBoundedDynamic m e) =
     (let d1 = put_u32 W d 0
      in res_bind (encode_value W H d1 v e) (\<lambda>(bytes_sz, d2).
           if m < bytes_sz then Err (bound_error (EBoundedDynamic m e) m bytes_sz)
           else patch_size W (length d) (length d1) bytes_sz d2))"
| "encode_value W H d v (ESized m e) =
     res_bind (encode_value W H d v e) (\<lambda>(bytes_sz, d').
       if bytes_sz = m then Ok (bytes_sz, d') else Err (err_from (WrongSize bytes_sz m)))"
| "encode_value W H d v (EBounded m e) =
     res_bind (encode_value W H d v e) (\<lambda>(bytes_sz, d').
       if bytes_sz \<le> m then Ok (bytes_sz, d') else Err (bound_error (EBounded m e) m bytes_sz))"
| "encode_value W H d v (EGreedy e) = encode_value W H d v e"
| "encode_value W H d v (ETags tag_sz tm) =
     (case v of
        VTag variant x \<Rightarrow>
          (case find_by_variant tm variant of
             Some t \<Rightarrow>
               res_bind (map_err err_from (write_tag_id W d tag_sz (tag_id t))) (\<lambda>d1.
               res_bind (encode_value W H d1 x (tag_encoding t)) (\<lambda>(n, d2).
                 size_since ''a tag'' (length d) d2))
           | None \<Rightarrow> Err (err_from (NoTagFor variant)))
      | VEnum variant i \<Rightarrow>
          (case variant of
             None \<Rightarrow> Err (err_from NoVariantName)
           | Some variant \<Rightarrow>
               (case find_by_variant tm variant of
                  Some t \<Rightarrow>
                    res_bind (map_err err_from (write_tag_id W d tag_sz (tag_id t)))
                      (size_since ''an enum value'' (length d))
                | None \<Rightarrow> Err (err_from (NoTagFor variant))))
      | _ \<Rightarrow> mismatch (ETags tag_sz tm) v)"
| "encode_value W H d v (ECustom c) = map_err err_from (path_encode d v (ECustom c))"
| "encode_value W H d v (EObj name schema) = encode_record W H d v schema"
| "encode_value W H d v (ETup encodings) = encode_tuple W H d v encodings"
  by pat_completeness auto
termination
proof (relation "measures [
    case_sum
      (case_sum (\<lambda>(W, H, d, v, e). size e)
        (case_sum (\<lambda>(W, H, d, v, fs). size_list (size_field size) fs)
          (\<lambda>(W, H, n, d, vs, fs). size_list (size_field size) fs)))
      (case_sum
        (case_sum (\<lambda>(W, H, d, v, es). size_list size es)
          (\<lambda>(W, H, n, d, v, es', vs, es). size_list size es))
        (case_sum (\<lambda>(W, H, d, vs, e). size e) (\<lambda>(W, H, d, v, e). size e))),
    case_sum
      (case_sum (\<lambda>_. 1) (case_sum (\<lambda>_. 1) (\<lambda>_. 0)))
      (case_sum (case_sum (\<lambda>_. 1) (\<lambda>_. 0)) (case_sum (\<lambda>_. 2) (\<lambda>_. 0))),
    case_sum (\<lambda>_. 0) (case_sum (\<lambda>_. 0) (case_sum (\<lambda>(W, H, d, vs, e). length vs) (\<lambda>_. 0)))]",
  goal_cases)
  case 1
  show ?case by simp
qed (simp_all add: size_tag_found size_field_encoding)

definition binary_write ::
  "wire \<Rightarrow> hex_crate \<Rightarrow> num_ser \<Rightarrow> rust \<Rightarrow> encoding \<Rightarrow> (encoding_error, bytes) res" where
  "binary_write W H K r e =
     res_bind (map_err err_from (serialize K r)) (\<lambda>v.
     res_bind (encode_any W H [] v e) (\<lambda>(n, d). Ok d))"

section \<open>The format\<close>

primrec concat_opts :: "bytes option list \<Rightarrow> bytes option" where
  "concat_opts [] = Some []"
| "concat_opts (x # xs) =
     Option.bind x (\<lambda>a. Option.bind (concat_opts xs) (\<lambda>b. Some (a @ b)))"

definition sized_prefix :: "bytes \<Rightarrow> bytes option" where
  "sized_prefix bs =
     (if length bs < 2 ^ 32 then Some (to_be32 (word_of_nat (length bs)) @ bs) else None)"

definition tag_bytes :: "nat \<Rightarrow> u16 \<Rightarrow> bytes option" where
  "tag_bytes sz i = (if sz = 1 then Some [ucast i] else if sz = 2 then Some (to_be16 i) else None)"

fun value_bytes :: "val list \<Rightarrow> bytes option" where
  "value_bytes [] = Some []"
| "value_bytes (VUint8 b # vs) = map_option (\<lambda>bs. b # bs) (value_bytes vs)"
| "value_bytes (v # vs) = None"

definition path_item_of :: "val \<Rightarrow> path_item option" where
  "path_item_of v =
     (case v of
        VTag name (VRecord [(field, VList vs)]) \<Rightarrow>
          (if name = ''Right'' \<and> field = ''left'' then map_option PathRight (value_bytes vs)
           else if name = ''Left'' \<and> field = ''right'' then map_option PathLeft (value_bytes vs)
           else None)
      | _ \<Rightarrow> None)"

primrec path_items_of :: "val list \<Rightarrow> path_item list option" where
  "path_items_of [] = Some []"
| "path_items_of (v # vs) = Option.bind (path_item_of v) (\<lambda>it. map_option ((#) it) (path_items_of vs))"

text \<open>\<open>z\<close> gives the bytes of a Zarith number from its hexadecimal text.\<close>

lemma size_field_le: "size (field_encoding f) \<le> size_field size f"
  using size_field_encoding [of f 0] by simp

function enc :: "(bytes \<Rightarrow> bytes option) \<Rightarrow> val \<Rightarrow> encoding \<Rightarrow> bytes option" where
  "enc z v EUnit = Some []"
| "enc z v EInt8 = (case v of VInt8 x \<Rightarrow> Some [x] | _ \<Rightarrow> None)"
| "enc z v EUint8 = (case v of VUint8 x \<Rightarrow> Some [x] | _ \<Rightarrow> None)"
| "enc z v EInt16 = (case v of VInt16 x \<Rightarrow> Some (to_be16 x) | _ \<Rightarrow> None)"
| "enc z v EUint16 = (case v of VUint16 x \<Rightarrow> Some (to_be16 x) | _ \<Rightarrow> None)"
| "enc z v EInt32 = (case v of VInt32 x \<Rightarrow> Some (to_be32 x) | _ \<Rightarrow> None)"
| "enc z v EInt31 = (case v of VInt32 x \<Rightarrow> if unat x < 2 ^ 31 then Some (to_be32 x) else None | _ \<Rightarrow> None)"
| "enc z v EUint32 = (case v of VInt32 x \<Rightarrow> if unat x < 2 ^ 31 then Some (to_be32 x) else None | _ \<Rightarrow> None)"
| "enc z v ERangedInt = None"
| "enc z v ERangedFloat = None"
| "enc z v EInt64 = (case v of VInt64 x \<Rightarrow> Some (to_be64 x) | _ \<Rightarrow> None)"
| "enc z v ETimestamp = (case v of VInt64 x \<Rightarrow> Some (to_be64 x) | _ \<Rightarrow> None)"
| "enc z v EFloat = (case v of VFloat x \<Rightarrow> Some (to_be64 x) | _ \<Rightarrow> None)"
| "enc z v EBool = (case v of VBool x \<Rightarrow> Some [if x then 0xFF else 0] | _ \<Rightarrow> None)"
| "enc z v EZ = (case v of VString s \<Rightarrow> z s | _ \<Rightarrow> None)"
| "enc z v EMutez = (case v of VString s \<Rightarrow> z s | _ \<Rightarrow> None)"
| "enc z v EString =
     (case v of VString s \<Rightarrow> Some (to_be32 (word_of_nat (length s)) @ s) | _ \<Rightarrow> None)"
| "enc z v (EBoundedString m) =
     (case v of
        VString s \<Rightarrow> if length s \<le> m then Some (to_be32 (word_of_nat (length s)) @ s) else None
      | _ \<Rightarrow> None)"
| "enc z v EEnum =
     (case v of VEnum n (Some i) \<Rightarrow> if unat i \<le> 255 then Some [ucast i] else None | _ \<Rightarrow> None)"
| "enc z v (EList e) = (case v of VList vs \<Rightarrow> concat_opts (map (\<lambda>x. enc z x e) vs) | _ \<Rightarrow> None)"
| "enc z v (EBoundedList m e) =
     (case v of
        VList vs \<Rightarrow> if length vs \<le> m then concat_opts (map (\<lambda>x. enc z x e) vs) else None
      | _ \<Rightarrow> None)"
| "enc z v EBytes = (case v of VList vs \<Rightarrow> value_bytes vs | _ \<Rightarrow> None)"
| "enc z v (EHash ht) =
     (case v of VList vs \<Rightarrow> if length vs = hash_size ht then value_bytes vs else None | _ \<Rightarrow> None)"
| "enc z v (EOption e) =
     (case v of
        VOption (Some x) \<Rightarrow> map_option (\<lambda>bs. 1 # bs) (enc z x e)
      | VOption None \<Rightarrow> Some [0]
      | _ \<Rightarrow> None)"
| "enc z v (EOptionalField e) =
     (case v of
        VOption (Some x) \<Rightarrow> map_option (\<lambda>bs. 0xFF # bs) (enc z x e)
      | VOption None \<Rightarrow> Some [0]
      | _ \<Rightarrow> None)"
| "enc z v (EDynamic e) = Option.bind (enc z v e) sized_prefix"
| "enc z v (EBoundedDynamic m e) =
     Option.bind (enc z v e) (\<lambda>bs. if length bs \<le> m then sized_prefix bs else None)"
| "enc z v (ESized m e) = Option.bind (enc z v e) (\<lambda>bs. if length bs = m then Some bs else None)"
| "enc z v (EBounded m e) = Option.bind (enc z v e) (\<lambda>bs. if length bs \<le> m then Some bs else None)"
| "enc z v (EGreedy e) = enc z v e"
| "enc z v (ETags sz tm) =
     (case v of
        VTag variant x \<Rightarrow>
          (case find_by_variant tm variant of
             Some t \<Rightarrow> Option.bind (tag_bytes sz (tag_id t)) (\<lambda>a. map_option ((@) a) (enc z x (tag_encoding t)))
           | None \<Rightarrow> None)
      | VEnum (Some variant) i \<Rightarrow>
          (case find_by_variant tm variant of Some t \<Rightarrow> tag_bytes sz (tag_id t) | None \<Rightarrow> None)
      | _ \<Rightarrow> None)"
| "enc z v (ECustom c) =
     (case v of VList vs \<Rightarrow> map_option path_bytes (path_items_of vs) | _ \<Rightarrow> None)"
| "enc z v (EObj name schema) =
     (case v of
        VRecord vs \<Rightarrow>
          concat_opts (map (\<lambda>f. case find_value_in_record_values (field_name f) vs of
              Some x \<Rightarrow> enc z x (field_encoding f) | None \<Rightarrow> None) schema)
      | _ \<Rightarrow> None)"
| "enc z v (ETup es) =
     (case v of
        VTuple vs \<Rightarrow> if length es \<le> length vs then concat_opts (map (\<lambda>(x, e). enc z x e) (zip vs es)) else None
      | _ \<Rightarrow> None)"
  by pat_completeness auto
termination
proof (relation "measure (\<lambda>(z, v, e). size e)", goal_cases)
  case 1
  show ?case by simp
qed (auto simp: size_tag_found size_field_le intro!: le_imp_less_Suc size_list_estimation'
       dest: set_zip_rightD)


section \<open>Refinement\<close>

declare encode_any.simps [simp del]

abbreviation field_bytes ::
  "(bytes \<Rightarrow> bytes option) \<Rightarrow> (string \<times> val) list \<Rightarrow> encoding field \<Rightarrow> bytes option" where
  "field_bytes z vs f \<equiv> (case find_value_in_record_values (field_name f) vs of
     Some x \<Rightarrow> enc z x (field_encoding f) | None \<Rightarrow> None)"

lemma mismatch_not_Ok [simp]: "mismatch e v \<noteq> Ok x"
  by (simp add: mismatch_def)

lemma size_since_Ok [simp]:
  "size_since what k d = Ok (n, d') \<longleftrightarrow> k \<le> length d \<and> n = length d - k \<and> d' = d"
  by (auto simp: size_since_def)

lemma add_size_Ok [simp]:
  "add_size what a (b, d) = Ok (n, d') \<longleftrightarrow> a + b \<le> usize_max \<and> n = a + b \<and> d' = d"
  by (auto simp: add_size_def)

lemma concat_opts_Some_Cons:
  "concat_opts (x # xs) = Some bs \<longleftrightarrow> (\<exists>a b. x = Some a \<and> concat_opts xs = Some b \<and> bs = a @ b)"
  by (auto simp: bind_eq_Some_conv)

lemma value_bytes_Some: "value_bytes vs = Some bs \<longleftrightarrow> vs = map VUint8 bs"
proof (induction vs arbitrary: bs)
  case Nil
  then show ?case by auto
next
  case (Cons v vs)
  then show ?case by (cases v) (auto simp: Cons_eq_map_conv)
qed

lemma path_encode_append:
  "path_encode d v e = Ok (n, d') \<longleftrightarrow> (\<exists>bs. path_encode [] v e = Ok (length bs, bs) \<and> n = length bs \<and> d' = d @ bs)"
proof
  assume "path_encode d v e = Ok (n, d')"
  then obtain items where "v = VList (map path_item_value items)" "d' = d @ path_bytes items"
    "n = length (path_bytes items)" by (rule path_encode_Ok)
  then show "\<exists>bs. path_encode [] v e = Ok (length bs, bs) \<and> n = length bs \<and> d' = d @ bs"
    by (simp add: path_encode_values)
next
  assume "\<exists>bs. path_encode [] v e = Ok (length bs, bs) \<and> n = length bs \<and> d' = d @ bs"
  then obtain bs where bs: "path_encode [] v e = Ok (length bs, bs)" "n = length bs" "d' = d @ bs" by blast
  from bs(1) obtain items where "v = VList (map path_item_value items)" "bs = path_bytes items"
    by (rule path_encode_Ok) auto
  with bs show "path_encode d v e = Ok (n, d')" by (simp add: path_encode_values)
qed

lemma path_item_of_Some: "path_item_of v = Some it \<longleftrightarrow> v = path_item_value it"
  by (cases it) (auto simp: path_item_of_def value_bytes_Some split: val.splits list.splits if_splits)

lemma path_items_of_Some: "path_items_of vs = Some items \<longleftrightarrow> vs = map path_item_value items"
proof (induction vs arbitrary: items)
  case (Cons v vs)
  then show ?case by (auto simp: bind_eq_Some_conv path_item_of_Some Cons_eq_map_conv)
qed auto

lemma path_items_of_values [simp]: "path_items_of (map path_item_value items) = Some items"
  by (simp add: path_items_of_Some)

lemma enc_custom: "enc z v (ECustom c) = Some bs \<longleftrightarrow> path_encode [] v (ECustom c) = Ok (length bs, bs)"
proof
  assume "enc z v (ECustom c) = Some bs"
  then obtain items where "v = VList (map path_item_value items)" "bs = path_bytes items"
    by (auto simp: path_items_of_Some split: val.splits)
  then show "path_encode [] v (ECustom c) = Ok (length bs, bs)" by (simp add: path_encode_values)
next
  assume "path_encode [] v (ECustom c) = Ok (length bs, bs)"
  then show "enc z v (ECustom c) = Some bs" by (rule path_encode_Ok) simp
qed

lemma int31_mask: "and x 0x7FFFFFFF = (x :: u32) \<longleftrightarrow> unat x < 2 ^ 31"
proof -
  have "and x 0x7FFFFFFF = take_bit 31 x"
    by (simp add: take_bit_eq_mask mask_eq_exp_minus_1)
  then have "and x 0x7FFFFFFF = x \<longleftrightarrow> unat (take_bit 31 x) = unat x"
    by (simp add: word_unat_eq_iff)
  also have "unat (take_bit 31 x) = take_bit 31 (unat x)"
    by (simp add: unsigned_take_bit_eq)
  finally show ?thesis by (simp add: take_bit_nat_eq_self_iff)
qed

lemma sint_nonneg: "0 \<le> sint (x :: u32) \<longleftrightarrow> unat x < 2 ^ 31"
proof -
  have "0 \<le> sint x \<longleftrightarrow> \<not> bit x 31"
    by (simp add: sint_uint signed_take_bit_nonnegative_iff bit_uint_iff)
  also have "\<dots> \<longleftrightarrow> take_bit 31 x = x"
  proof
    assume "\<not> bit x 31"
    then have "n < 31" if "bit x n" for n
      using that bit_imp_le_length [OF that] by (cases "n = 31") auto
    then show "take_bit 31 x = x" by (auto simp: bit_eq_iff bit_take_bit_iff)
  next
    assume "take_bit 31 x = x"
    then have "bit (take_bit 31 x) 31 = bit x 31" by simp
    then show "\<not> bit x 31" by (simp add: bit_take_bit_iff)
  qed
  also have "\<dots> \<longleftrightarrow> unat x < 2 ^ 31"
    using int31_mask [of x] by (simp add: take_bit_eq_mask mask_eq_exp_minus_1)
  finally show ?thesis .
qed


definition writes :: "wire \<Rightarrow> hex_crate \<Rightarrow> val \<Rightarrow> encoding \<Rightarrow> bool" where
  "writes W H v e \<longleftrightarrow> (\<forall>bs d. enc (z_bytes W H) v e = Some bs \<longrightarrow> length bs \<le> usize_max \<longrightarrow>
     encode_value W H d v e = Ok (length bs, d @ bs))"

lemma writesI:
  "(\<And>bs d. enc (z_bytes W H) v e = Some bs \<Longrightarrow> length bs \<le> usize_max \<Longrightarrow>
     encode_value W H d v e = Ok (length bs, d @ bs)) \<Longrightarrow> writes W H v e"
  by (simp add: writes_def)

lemma writesD:
  "writes W H v e \<Longrightarrow> enc (z_bytes W H) v e = Some bs \<Longrightarrow> length bs \<le> usize_max \<Longrightarrow>
     encode_value W H d v e = Ok (length bs, d @ bs)"
  by (simp add: writes_def)

definition sound :: "wire \<Rightarrow> hex_crate \<Rightarrow> val \<Rightarrow> encoding \<Rightarrow> bool" where
  "sound W H v e \<longleftrightarrow> (\<forall>d n d'. encode_value W H d v e = Ok (n, d') \<longrightarrow>
     (\<exists>bs. enc (z_bytes W H) v e = Some bs \<and> n = length bs \<and> d' = d @ bs))"

lemma soundI:
  "(\<And>d n d'. encode_value W H d v e = Ok (n, d') \<Longrightarrow>
     \<exists>bs. enc (z_bytes W H) v e = Some bs \<and> n = length bs \<and> d' = d @ bs) \<Longrightarrow> sound W H v e"
  by (simp add: sound_def)

lemma soundD:
  "sound W H v e \<Longrightarrow> encode_value W H d v e = Ok (n, d') \<Longrightarrow>
     \<exists>bs. enc (z_bytes W H) v e = Some bs \<and> n = length bs \<and> d' = d @ bs"
  by (simp add: sound_def)

lemma encode_any_value: "encode_any W H d v e = encode_value W H d v e"
  by (cases e) (simp_all add: encode_any.simps)

context wire_laws begin

lemma put_u8_values_Ok:
  "put_u8_values W e d vs = Ok d' \<longleftrightarrow> (\<exists>bs. vs = map VUint8 bs \<and> d' = d @ bs)"
proof (induction vs arbitrary: d)
  case Nil
  then show ?case by auto
next
  case (Cons v vs)
  then show ?case by (cases v) (auto simp: put_byte Cons_eq_map_conv)
qed

lemma put_string_Ok:
  "put_string W d s = Ok (n, d') \<longleftrightarrow>
     4 + length s \<le> usize_max \<and> n = 4 + length s \<and> d' = d @ to_be32 (word_of_nat (length s)) @ s"
  by (auto simp: put_string_def put_slice put_word)

lemma write_tag_id_Ok:
  "write_tag_id W d sz i = Ok d' \<longleftrightarrow> (\<exists>bs. tag_bytes sz i = Some bs \<and> d' = d @ bs)"
  by (auto simp: write_tag_id_def tag_bytes_def put_byte put_word)

lemma patch_size_Ok:
  "patch_size W (length d) (length d + 4) k (d @ to_be32 0 @ bs) = Ok (n, d') \<longleftrightarrow>
     k < 2 ^ 32 \<and> n = 4 + length bs \<and> d' = d @ to_be32 (word_of_nat k) @ bs"
  by (auto simp: patch_size_def write_u32_fits Let_def simp del: One_nat_def)

lemma value_bytes_map [simp]: "value_bytes (map VUint8 bs) = Some bs"
  by (simp add: value_bytes_Some)

lemmas enc_facts = int31_mask sint_nonneg enc_custom sized_prefix_def
  BYTE_VAL_TRUE_def BYTE_VAL_FALSE_def BYTE_VAL_SOME_def BYTE_VAL_NONE_def
  BYTE_FIELD_SOME_def BYTE_FIELD_NONE_def

lemmas writer_Ok = put_byte put_word put_string_Ok write_tag_id_Ok patch_size_Ok put_u8_values_Ok
  encode_z_append


lemma list_items_sound:
  "\<lbrakk>\<And>v. v \<in> set vs \<Longrightarrow> sound W H v e; encode_list_items W H d vs e = Ok d'\<rbrakk> \<Longrightarrow>
     \<exists>bs. concat_opts (map (\<lambda>x. enc (z_bytes W H) x e) vs) = Some bs \<and> d' = d @ bs"
proof (induction vs arbitrary: d)
  case (Cons v vs)
  then obtain n b where n: "encode_value W H d v e = Ok (n, b)" "encode_list_items W H b vs e = Ok d'"
    by auto
  with soundD [OF Cons.prems(1) [of v] n(1)] Cons.IH [OF Cons.prems(1) n(2)] show ?case by auto
qed simp

lemma fields_sound:
  "\<lbrakk>\<And>f x. f \<in> set fs \<Longrightarrow> find_value_in_record_values (field_name f) rs = Some x \<Longrightarrow>
      sound W H x (field_encoding f);
    encode_record_fields W H k d rs fs = Ok (n, d')\<rbrakk> \<Longrightarrow>
     \<exists>bs. concat_opts (map (field_bytes (z_bytes W H) rs) fs) = Some bs \<and> n = k + length bs \<and> d' = d @ bs"
proof (induction fs arbitrary: d k)
  case (Cons f fs)
  then obtain x a b where x: "find_value_in_record_values (field_name f) rs = Some x"
    and a: "encode_value W H d x (field_encoding f) = Ok (a, b)"
    and r: "encode_record_fields W H (k + a) b rs fs = Ok (n, d')"
    by (auto simp: encode_any_value split: option.splits)
  with soundD [OF Cons.prems(1) [of f x] a] Cons.IH [OF Cons.prems(1) r] show ?case by auto
qed simp

lemma tuple_length:
  "encode_tuple_items W H k d v es' vs es = Ok (n, d') \<Longrightarrow> length es \<le> length vs"
proof (induction es arbitrary: vs d k)
  case (Cons e es)
  then show ?case by (cases vs) auto
qed simp

lemma tuple_sound:
  "\<lbrakk>\<And>x e. (x, e) \<in> set (zip vs es) \<Longrightarrow> sound W H x e;
    encode_tuple_items W H k d v es' vs es = Ok (n, d')\<rbrakk> \<Longrightarrow>
     \<exists>bs. concat_opts (map (\<lambda>(x, e). enc (z_bytes W H) x e) (zip vs es)) = Some bs
       \<and> n = k + length bs \<and> d' = d @ bs"
proof (induction es arbitrary: vs d k)
  case (Cons e es)
  then obtain x vs' a b where vs: "vs = x # vs'" and a: "encode_value W H d x e = Ok (a, b)"
    and r: "encode_tuple_items W H (k + a) b v es' vs' es = Ok (n, d')"
    by (cases vs) (auto simp: encode_any_value)
  have "sound W H y e'" if "(y, e') \<in> set (zip vs' es)" for y e'
    using Cons.prems(1) that vs by simp
  from Cons.IH [OF this r] soundD [OF Cons.prems(1) [of x e] a] vs show ?case by auto
qed simp

lemma encode_sound: "z = z_bytes W H \<Longrightarrow> sound W H v e"
proof (induction z v e rule: enc.induct)
  case (20 z v e)
  then show ?case by (intro soundI, cases v) (auto dest: list_items_sound [rotated])
next
  case (21 z v m e)
  then show ?case by (intro soundI, cases v) (auto split: if_splits dest: list_items_sound [rotated])
next
  case (26 z v e)
  then show ?case
    by (intro soundI) (auto simp: Let_def put_word patch_size_Ok sized_prefix_def dest!: soundD)
next
  case (27 z v m e)
  then show ?case
    by (intro soundI)
      (auto simp: Let_def put_word patch_size_Ok sized_prefix_def split: if_splits dest!: soundD)
next
  case (31 z v sz tm)
  show ?case
  proof (intro soundI)
    fix d n d'
    assume ok: "encode_value W H d v (ETags sz tm) = Ok (n, d')"
    show "\<exists>bs. enc (z_bytes W H) v (ETags sz tm) = Some bs \<and> n = length bs \<and> d' = d @ bs"
    proof (cases v)
      case (VTag variant x)
      with ok obtain t a m where t: "find_by_variant tm variant = Some t" "tag_bytes sz (tag_id t) = Some a"
        and m: "encode_value W H (d @ a) x (tag_encoding t) = Ok (m, d')" "n = length d' - length d"
        by (auto simp: write_tag_id_Ok split: option.splits)
      have "sound W H x (tag_encoding t)" using "31" VTag t by blast
      from soundD [OF this m(1)] VTag t m(2) show ?thesis by auto
    qed (use ok in \<open>auto simp: write_tag_id_Ok split: option.splits\<close>)
  qed
next
  case (32 z v c)
  show ?case
  proof (rule soundI)
    fix d n d'
    assume "encode_value W H d v (ECustom c) = Ok (n, d')"
    then have "path_encode d v (ECustom c) = Ok (n, d')" by simp
    then show "\<exists>bs. enc (z_bytes W H) v (ECustom c) = Some bs \<and> n = length bs \<and> d' = d @ bs"
      unfolding enc_custom path_encode_append [of d] by blast
  qed
next
  case (33 z v name fs)
  then show ?case by (intro soundI, cases v) (auto dest: fields_sound [rotated])
next
  case (34 z v es)
  then show ?case by (intro soundI, cases v) (auto dest: tuple_length tuple_sound [rotated])
qed (auto intro!: soundI simp: writer_Ok enc_facts split: val.splits option.splits if_splits
      dest!: soundD)

lemma list_items_complete:
  "\<lbrakk>\<And>v. v \<in> set vs \<Longrightarrow> writes W H v e; concat_opts (map (\<lambda>x. enc (z_bytes W H) x e) vs) = Some bs;
    length bs \<le> usize_max\<rbrakk> \<Longrightarrow> encode_list_items W H d vs e = Ok (d @ bs)"
proof (induction vs arbitrary: bs d)
  case (Cons v vs)
  then obtain a b where "enc (z_bytes W H) v e = Some a"
    "concat_opts (map (\<lambda>x. enc (z_bytes W H) x e) vs) = Some b" "bs = a @ b"
    by (auto simp: bind_eq_Some_conv)
  with Cons show ?case by (simp add: writes_def)
qed simp

lemma fields_complete:
  "\<lbrakk>\<And>f x. f \<in> set fs \<Longrightarrow> find_value_in_record_values (field_name f) rs = Some x \<Longrightarrow>
      writes W H x (field_encoding f);
    concat_opts (map (field_bytes (z_bytes W H) rs) fs) = Some bs; k + length bs \<le> usize_max\<rbrakk> \<Longrightarrow>
    encode_record_fields W H k d rs fs = Ok (k + length bs, d @ bs)"
proof (induction fs arbitrary: bs d k)
  case (Cons f fs)
  then obtain x a b where x: "find_value_in_record_values (field_name f) rs = Some x"
    and "enc (z_bytes W H) x (field_encoding f) = Some a"
    "concat_opts (map (field_bytes (z_bytes W H) rs) fs) = Some b" "bs = a @ b"
    by (auto simp: bind_eq_Some_conv split: option.splits)
  with Cons show ?case by (simp add: writes_def encode_any_value)
qed simp

lemma tuple_complete:
  "\<lbrakk>\<And>x e. (x, e) \<in> set (zip vs es) \<Longrightarrow> writes W H x e; length es \<le> length vs;
    concat_opts (map (\<lambda>(x, e). enc (z_bytes W H) x e) (zip vs es)) = Some bs;
    k + length bs \<le> usize_max\<rbrakk> \<Longrightarrow>
    encode_tuple_items W H k d v es' vs es = Ok (k + length bs, d @ bs)"
proof (induction es arbitrary: vs bs d k)
  case (Cons e es)
  then obtain x vs' where vs: "vs = x # vs'" by (cases vs) auto
  with Cons obtain a b where "enc (z_bytes W H) x e = Some a"
    "concat_opts (map (\<lambda>(x, e). enc (z_bytes W H) x e) (zip vs' es)) = Some b" "bs = a @ b"
    by (auto simp: bind_eq_Some_conv)
  with Cons vs show ?case by (simp add: writes_def encode_any_value)
qed simp

lemma encode_complete: "z = z_bytes W H \<Longrightarrow> writes W H v e"
proof (induction z v e rule: enc.induct)
  case (20 z v e)
  then show ?case
    by (intro writesI, cases v) (auto simp: list_items_complete)
next
  case (21 z v m e)
  then show ?case
    by (intro writesI, cases v) (auto simp: list_items_complete split: if_splits)
next
  case (23 z v ht)
  have "put_u8_values W (EHash ht) d (map VUint8 bs) = Ok (d @ bs)" for d bs
    by (simp add: put_u8_values_Ok)
  then show ?case
    by (intro writesI, cases v) (auto simp: value_bytes_Some size_since_def checked_sub_def split: if_splits)
next
  case (32 z v c)
  show ?case
  proof (rule writesI)
    fix bs d
    assume "enc (z_bytes W H) v (ECustom c) = Some bs"
    then have "path_encode [] v (ECustom c) = Ok (length bs, bs)" by (simp only: enc_custom)
    then have "path_encode d v (ECustom c) = Ok (length bs, d @ bs)" by (subst path_encode_append) auto
    then show "encode_value W H d v (ECustom c) = Ok (length bs, d @ bs)" by simp
  qed
next
  case (33 z v name fs)
  then show ?case
    by (intro writesI, cases v) (auto simp: fields_complete [where k = 0, simplified])
next
  case (34 z v es)
  then show ?case
    by (intro writesI, cases v) (auto simp: tuple_complete [where k = 0, simplified] split: if_splits)
qed (auto intro!: writesI simp: writesD writer_Ok enc_facts bind_eq_Some_conv value_bytes_Some
      split: val.splits option.splits if_splits)

end

section \<open>Properties\<close>



text \<open>
  A \<^verbatim>\<open>u32\<close> from \<open>2\<^sup>3\<^sup>1\<close> on cannot be written with the \<^verbatim>\<open>Uint32\<close> encoding: the serializer turns it into a
  64-bit value and the writer accepts only 32-bit ones, so the encoding covers half of its range.
\<close>

theorem uint32_upper_half_rejected:
  "(\<exists>bs. binary_write W H K (RU32 x) EUint32 = Ok bs) \<longleftrightarrow> unat x < 2 ^ 31"
proof -
  have "serialize_u32 x = VInt32 x \<and> unat x < 2 ^ 31 \<or> serialize_u32 x = VInt64 (ucast x) \<and> \<not> unat x < 2 ^ 31"
    by (auto simp: serialize_u32_def)
  then show ?thesis
    by (auto simp: binary_write_def encode_any_value sint_nonneg)
qed

end
