(* ===== verification/Crates_Nom.thy ===== *)
theory Crates_Nom
  imports Nom_Error "HOL-Library.Sublist"
begin

text \<open>
  Interface of the \<^verbatim>\<open>nom\<close> crate (6.1): the primitive parsers, and the combinators at one output type.
  The sources use a combinator at several types; each use has a record of its own, and the laws are
  stated once for all of them in \<open>ncomb_laws\<close>. Where the documentation does not fix the error value,
  neither does the law. A parser is safe at an input when it does not panic there and gives back a
  suffix of the input; the combinators are safe where the parsers they run are.
\<close>

definition safe_at :: "'a parser \<Rightarrow> bytes \<Rightarrow> bool" where
  "safe_at p i \<longleftrightarrow> p i \<noteq> Panic \<and> (\<forall>r a. p i = Ok (r, a) \<longrightarrow> suffix r i)"

lemma safe_atD: "safe_at p i \<Longrightarrow> p i = Ok (r, a) \<Longrightarrow> suffix r i"
  by (simp add: safe_at_def)

lemma safe_at_Ok: "p i = Ok (r, a) \<Longrightarrow> suffix r i \<Longrightarrow> safe_at p i"
  by (simp add: safe_at_def)

lemma safe_at_Err: "p i = Err e \<Longrightarrow> safe_at p i"
  by (simp add: safe_at_def)

lemma safe_at_shift: "safe_at q r \<Longrightarrow> suffix r i \<Longrightarrow> p i = q r \<Longrightarrow> safe_at p i"
  by (auto simp: safe_at_def intro: suffix_order.trans)

lemma safe_at_cases:
  assumes "safe_at p i"
  obtains r a where "p i = Ok (r, a)" "suffix r i" | e where "p i = Err e"
  using assms by (cases "p i") (auto simp: safe_at_def)

section \<open>Primitive parsers\<close>

record nom =
  n_take :: "nat \<Rightarrow> bytes parser"
  n_tag :: "bytes \<Rightarrow> bytes parser"
  n_rest :: "bytes parser"
  n_u8 :: "u8 parser"
  n_i8 :: "u8 parser"
  n_u16 :: "u16 parser"
  n_i16 :: "u16 parser"
  n_u32 :: "u32 parser"
  n_i32 :: "u32 parser"
  n_i64 :: "u64 parser"
  n_f64 :: "u64 parser"
  n_length_data :: "u32 parser \<Rightarrow> bytes parser"
  n_complete_bytes :: "bytes parser \<Rightarrow> bytes parser"

definition read_be :: "nat \<Rightarrow> bytes \<Rightarrow> (nom_err, bytes \<times> 'a::len word) res" where
  "read_be n i = (if n \<le> length i then Ok (drop n i, word_of_nat (from_be (take n i)))
     else Err (Error (from_error_kind i KEof)))"

locale nom_laws =
  fixes N :: nom
  assumes take_ok: "n \<le> length i \<Longrightarrow> n_take N n i = Ok (drop n i, take n i)"
    and take_short: "length i < n \<Longrightarrow> n_take N n i = Err (Error (from_error_kind i KEof))"
    and tag_ok: "n_tag N t (t @ i) = Ok (i, t)"
    and tag_no: "take (length t) i \<noteq> t \<Longrightarrow> \<exists>d. n_tag N t i = Err (Error d)"
    and rest_ok: "n_rest N i = Ok ([], i)"
    and read_int: "n_u8 N i = read_be 1 i" "n_i8 N i = read_be 1 i"
      "n_u16 N i = read_be 2 i" "n_i16 N i = read_be 2 i"
      "n_u32 N i = read_be 4 i" "n_i32 N i = read_be 4 i"
      "n_i64 N i = read_be 8 i" "n_f64 N i = read_be 8 i"
    and length_data_ok: "s i = Ok (r, z) \<Longrightarrow> unat z \<le> length r \<Longrightarrow>
      n_length_data N s i = Ok (drop (unat z) r, take (unat z) r)"
    and length_data_short: "s i = Ok (r, z) \<Longrightarrow> length r < unat z \<Longrightarrow>
      n_length_data N s i = Err Incomplete"
    and length_data_err: "s i = Err e \<Longrightarrow> n_length_data N s i = Err e"
    and complete_bytes_ok: "p i = Ok x \<Longrightarrow> n_complete_bytes N p i = Ok x"
    and complete_bytes_incomplete: "p i = Err Incomplete \<Longrightarrow>
      \<exists>d. n_complete_bytes N p i = Err (Error d)"
    and complete_bytes_err: "p i = Err e \<Longrightarrow> e \<noteq> Incomplete \<Longrightarrow> n_complete_bytes N p i = Err e"

context nom_laws
begin

lemma tag_byte:
  "n_tag N [b] (b # rest) = Ok (rest, [b])"
  "b \<noteq> c \<Longrightarrow> \<exists>e. n_tag N [b] (c # rest) = Err (Error e)"
  "\<exists>e. n_tag N [b] [] = Err (Error e)"
  using tag_ok [of "[b]" rest] tag_no [of "[b]" "c # rest"] tag_no [of "[b]" "[]"] by auto

end

section \<open>Combinators\<close>

record 'a ncomb =
  n_map_bytes :: "bytes parser \<Rightarrow> (bytes \<Rightarrow> (nom_err, 'a) res) \<Rightarrow> 'a parser"
  n_map :: "'a parser \<Rightarrow> ('a \<Rightarrow> 'a) \<Rightarrow> 'a parser"
  n_map_list :: "'a list parser \<Rightarrow> ('a list \<Rightarrow> 'a) \<Rightarrow> 'a parser"
  n_map_res :: "bytes parser \<Rightarrow> (bytes \<Rightarrow> 'a option) \<Rightarrow> 'a parser"
  n_map_parser :: "bytes parser \<Rightarrow> 'a parser \<Rightarrow> 'a parser"
  n_tuple :: "'a parser list \<Rightarrow> 'a list parser"
  n_alt :: "'a parser list \<Rightarrow> 'a parser"
  n_preceded :: "bytes parser \<Rightarrow> 'a parser \<Rightarrow> 'a parser"
  n_success :: "'a \<Rightarrow> 'a parser"
  n_complete :: "'a parser \<Rightarrow> 'a parser"
  n_all_consuming :: "'a parser \<Rightarrow> 'a parser"
  n_length_value :: "u32 parser \<Rightarrow> 'a parser \<Rightarrow> 'a parser"
  n_fold_many0 :: "'a parser \<Rightarrow> 'a list \<Rightarrow> ('a list \<Rightarrow> 'a \<Rightarrow> 'a list) \<Rightarrow> 'a list parser"
  n_fold_many_m_n :: "nat \<Rightarrow> nat \<Rightarrow> 'a parser \<Rightarrow> 'a list \<Rightarrow> ('a list \<Rightarrow> 'a \<Rightarrow> 'a list) \<Rightarrow> 'a list parser"

text \<open>
  The closure of \<^verbatim>\<open>map\<close> on bytes may panic, which is why its result is an outcome. A repetition stops
  at a recoverable error, which it drops, and passes a failure on.
\<close>

locale ncomb_laws =
  fixes C :: "'a ncomb"
  assumes map_bytes: "n_map_bytes C p f i = res_bind (p i) (\<lambda>(r, b). res_bind (f b) (\<lambda>a. Ok (r, a)))"
    and map_law: "n_map C q g i = res_bind (q i) (\<lambda>(r, a). Ok (r, g a))"
    and map_list: "n_map_list C ps h i = res_bind (ps i) (\<lambda>(r, xs). Ok (r, h xs))"
    and map_res_some: "p i = Ok (r, b) \<Longrightarrow> k b = Some a \<Longrightarrow> n_map_res C p k i = Ok (r, a)"
    and map_res_none: "p i = Ok (r, b) \<Longrightarrow> k b = None \<Longrightarrow> \<exists>d. n_map_res C p k i = Err (Error d)"
    and map_res_err: "p i = Err e \<Longrightarrow> n_map_res C p k i = Err e"
    and map_parser: "n_map_parser C p q i =
      res_bind (p i) (\<lambda>(r, b). res_bind (q b) (\<lambda>(_, a). Ok (r, a)))"
    and tuple_nil: "n_tuple C [] i = Ok (i, [])"
    and tuple_cons: "n_tuple C (q # qs) i =
      res_bind (q i) (\<lambda>(r, a). res_bind (n_tuple C qs r) (\<lambda>(r', xs). Ok (r', a # xs)))"
    and alt_first: "(\<And>d. q i \<noteq> Err (Error d)) \<Longrightarrow> n_alt C (q # qs) i = q i"
    and alt_next: "q i = Err (Error d) \<Longrightarrow> qs \<noteq> [] \<Longrightarrow> n_alt C qs i = Ok x \<Longrightarrow> n_alt C (q # qs) i = Ok x"
    and alt_none: "(\<And>q. q \<in> set qs \<Longrightarrow> \<exists>d. q i = Err (Error d)) \<Longrightarrow> qs \<noteq> [] \<Longrightarrow>
      \<exists>d. n_alt C qs i = Err (Error d)"
    and preceded_law: "n_preceded C p q i = res_bind (p i) (\<lambda>(r, _). q r)"
    and success_law: "n_success C a i = Ok (i, a)"
    and complete_ok: "q i = Ok x \<Longrightarrow> n_complete C q i = Ok x"
    and complete_incomplete: "q i = Err Incomplete \<Longrightarrow> n_complete C q i = Err (Error (from_error_kind i KComplete))"
    and complete_err: "q i = Err e \<Longrightarrow> e \<noteq> Incomplete \<Longrightarrow> n_complete C q i = Err e"
    and all_consuming_ok: "q i = Ok ([], a) \<Longrightarrow> n_all_consuming C q i = Ok ([], a)"
    and all_consuming_left: "q i = Ok (r, a) \<Longrightarrow> r \<noteq> [] \<Longrightarrow>
      n_all_consuming C q i = Err (Error (from_error_kind r KEof))"
    and all_consuming_err: "q i = Err e \<Longrightarrow> n_all_consuming C q i = Err e"
    and length_value_ok: "s i = Ok (r, z) \<Longrightarrow> unat z \<le> length r \<Longrightarrow> q (take (unat z) r) = Ok (r', a) \<Longrightarrow>
      n_length_value C s q i = Ok (drop (unat z) r, a)"
    and length_value_inner: "s i = Ok (r, z) \<Longrightarrow> unat z \<le> length r \<Longrightarrow> q (take (unat z) r) = Err e \<Longrightarrow>
      e \<noteq> Incomplete \<Longrightarrow> n_length_value C s q i = Err e"
    and length_value_short: "s i = Ok (r, z) \<Longrightarrow> length r < unat z \<Longrightarrow>
      \<exists>e. n_length_value C s q i = Err e"
    and length_value_err: "s i = Err e \<Longrightarrow> n_length_value C s q i = Err e"
    and fold_many0_step: "q i = Ok (r, a) \<Longrightarrow> length r < length i \<Longrightarrow>
      n_fold_many0 C q acc g' i = n_fold_many0 C q (g' acc a) g' r"
    and fold_many0_stop: "q i = Err (Error d) \<Longrightarrow> n_fold_many0 C q acc g' i = Ok (i, acc)"
    and fold_many0_stuck: "q i = Ok (i, a) \<Longrightarrow> \<exists>d. n_fold_many0 C q acc g' i = Err (Error d)"
    and fold_many0_fail: "q i = Err (Failure d) \<Longrightarrow> n_fold_many0 C q acc g' i = Err (Failure d)"
    and fold_many_zero: "n_fold_many_m_n C 0 0 q acc g' i = Ok (i, acc)"
    and fold_many_step: "q i = Ok (r, a) \<Longrightarrow> length r < length i \<Longrightarrow>
      n_fold_many_m_n C 0 (Suc n) q acc g' i = n_fold_many_m_n C 0 n q (g' acc a) g' r"
    and fold_many_stop: "q i = Err (Error d) \<Longrightarrow> n_fold_many_m_n C 0 n q acc g' i = Ok (i, acc)"
    and fold_many_fail: "q i = Err (Failure d) \<Longrightarrow> 0 < n \<Longrightarrow>
      n_fold_many_m_n C 0 n q acc g' i = Err (Failure d)"
    and alt_safe: "qs \<noteq> [] \<Longrightarrow> (\<And>q. q \<in> set qs \<Longrightarrow> safe_at q i) \<Longrightarrow> safe_at (n_alt C qs) i"
    and length_value_safe: "safe_at s i \<Longrightarrow> (\<And>j. safe_at q j) \<Longrightarrow> safe_at (n_length_value C s q) i"
    and fold_many0_safe: "(\<And>j. safe_at q j) \<Longrightarrow> safe_at (n_fold_many0 C q acc g') i"
    and fold_many_safe: "(\<And>j. safe_at q j) \<Longrightarrow> safe_at (n_fold_many_m_n C 0 n q acc g') i"

context ncomb_laws
begin

lemma alt2_first: "p i = Ok x \<Longrightarrow> n_alt C [p, q] i = Ok x"
  by (subst alt_first) auto

lemma alt2_second: "p i = Err (Error e) \<Longrightarrow> q i = Ok x \<Longrightarrow> n_alt C [p, q] i = Ok x"
  by (rule alt_next) (auto intro: alt_first [THEN trans])

lemma alt2_none: "p i = Err (Error e) \<Longrightarrow> q i = Err (Error e') \<Longrightarrow> \<exists>d. n_alt C [p, q] i = Err (Error d)"
  by (rule alt_none) auto

end

section \<open>Reference instances\<close>

definition nom_ref :: nom where
  "nom_ref = \<lparr>
     n_take = (\<lambda>n i. if n \<le> length i then Ok (drop n i, take n i)
                 else Err (Error (from_error_kind i KEof))),
     n_tag = (\<lambda>t i. if take (length t) i = t then Ok (drop (length t) i, t)
                else Err (Error (from_error_kind i KTag))),
     n_rest = (\<lambda>i. Ok ([], i)),
     n_u8 = read_be 1, n_i8 = read_be 1, n_u16 = read_be 2, n_i16 = read_be 2,
     n_u32 = read_be 4, n_i32 = read_be 4, n_i64 = read_be 8, n_f64 = read_be 8,
     n_length_data = (\<lambda>p i. res_bind (p i) (\<lambda>(r, n).
        if unat n \<le> length r then Ok (drop (unat n) r, take (unat n) r) else Err Incomplete)),
     n_complete_bytes = (\<lambda>p i. case p i of
        Err Incomplete \<Rightarrow> Err (Error (from_error_kind i KComplete)) | x \<Rightarrow> x)\<rparr>"

interpretation nom_ref: nom_laws nom_ref
proof unfold_locales
  show "p i = Err e \<Longrightarrow> e \<noteq> Incomplete \<Longrightarrow> n_complete_bytes nom_ref p i = Err e"
    for p :: "bytes parser" and i e
    by (cases e) (simp_all add: nom_ref_def)
qed (auto simp: nom_ref_def)

fun alt_ref :: "'a parser list \<Rightarrow> 'a parser" where
  "alt_ref [] i = Err (Error (from_error_kind i KAlt))"
| "alt_ref (q # qs) i = (case q i of Err (Error e) \<Rightarrow> alt_ref qs i | x \<Rightarrow> x)"

fun tuple_ref :: "'a parser list \<Rightarrow> 'a list parser" where
  "tuple_ref [] i = Ok (i, [])"
| "tuple_ref (q # qs) i =
     res_bind (q i) (\<lambda>(r, a). res_bind (tuple_ref qs r) (\<lambda>(r', xs). Ok (r', a # xs)))"

function fold_many0_ref ::
  "'a parser \<Rightarrow> 'a list \<Rightarrow> ('a list \<Rightarrow> 'a \<Rightarrow> 'a list) \<Rightarrow> 'a list parser" where
  "fold_many0_ref q acc g i =
     (case q i of
        Ok (r, a) \<Rightarrow> if length r < length i then fold_many0_ref q (g acc a) g r
                    else Err (Error (from_error_kind i KMany0))
      | Err (Error e) \<Rightarrow> Ok (i, acc)
      | Err e \<Rightarrow> Err e
      | Panic \<Rightarrow> Panic)"
  by pat_completeness auto
termination by (relation "measure (\<lambda>(q, acc, g, i). length i)") auto

declare fold_many0_ref.simps [simp del]

fun fold_many_ref ::
  "nat \<Rightarrow> 'a parser \<Rightarrow> 'a list \<Rightarrow> ('a list \<Rightarrow> 'a \<Rightarrow> 'a list) \<Rightarrow> 'a list parser" where
  "fold_many_ref 0 q acc g i = Ok (i, acc)"
| "fold_many_ref (Suc n) q acc g i =
     (case q i of
        Ok (r, a) \<Rightarrow> fold_many_ref n q (g acc a) g r
      | Err (Error e) \<Rightarrow> Ok (i, acc)
      | Err e \<Rightarrow> Err e
      | Panic \<Rightarrow> Panic)"

definition ncomb_ref :: "'a ncomb" where
  "ncomb_ref = \<lparr>
     n_map_bytes = (\<lambda>p f i. res_bind (p i) (\<lambda>(r, b). res_bind (f b) (\<lambda>a. Ok (r, a)))),
     n_map = (\<lambda>q g i. res_bind (q i) (\<lambda>(r, a). Ok (r, g a))),
     n_map_list = (\<lambda>ps h i. res_bind (ps i) (\<lambda>(r, xs). Ok (r, h xs))),
     n_map_res = (\<lambda>p k i. res_bind (p i) (\<lambda>(r, b). case k b of
        Some a \<Rightarrow> Ok (r, a) | None \<Rightarrow> Err (Error (from_external_error i KMapRes)))),
     n_map_parser = (\<lambda>p q i. res_bind (p i) (\<lambda>(r, b). res_bind (q b) (\<lambda>(_, a). Ok (r, a)))),
     n_tuple = tuple_ref,
     n_alt = alt_ref,
     n_preceded = (\<lambda>p q i. res_bind (p i) (\<lambda>(r, _). q r)),
     n_success = (\<lambda>a i. Ok (i, a)),
     n_complete = (\<lambda>q i. case q i of
        Err Incomplete \<Rightarrow> Err (Error (from_error_kind i KComplete)) | x \<Rightarrow> x),
     n_all_consuming = (\<lambda>q i. res_bind (q i) (\<lambda>(r, a).
        if r = [] then Ok (r, a) else Err (Error (from_error_kind r KEof)))),
     n_length_value = (\<lambda>s q i. res_bind (s i) (\<lambda>(r, n).
        if unat n \<le> length r then res_bind (q (take (unat n) r)) (\<lambda>(_, a). Ok (drop (unat n) r, a))
        else Err Incomplete)),
     n_fold_many0 = fold_many0_ref,
     n_fold_many_m_n = (\<lambda>m n. fold_many_ref n)\<rparr>"

lemma alt_ref_none:
  "(\<And>q. q \<in> set qs \<Longrightarrow> \<exists>e. q i = Err (Error e)) \<Longrightarrow> \<exists>e. alt_ref qs i = Err (Error e)"
  by (induction qs) fastforce+

lemma alt_ref_first: "(\<And>e. q i \<noteq> Err (Error e)) \<Longrightarrow> alt_ref (q # qs) i = q i"
  by (auto split: res.splits nom_err.splits)

lemma complete_ref_err:
  "q i = Err e \<Longrightarrow> e \<noteq> Incomplete \<Longrightarrow> n_complete ncomb_ref q i = Err e"
  by (cases e) (simp_all add: ncomb_ref_def)

lemma fold_many_ref_stop: "q i = Err (Error e) \<Longrightarrow> fold_many_ref n q acc g i = Ok (i, acc)"
  by (cases n) simp_all

lemma fold_many_ref_fail:
  "q i = Err (Failure e) \<Longrightarrow> 0 < n \<Longrightarrow> fold_many_ref n q acc g i = Err (Failure e)"
  by (cases n) simp_all

lemma alt_ref_safe: "(\<And>q. q \<in> set qs \<Longrightarrow> safe_at q i) \<Longrightarrow> safe_at (alt_ref qs) i"
proof (induction qs)
  case (Cons q qs)
  then have "safe_at q i" "safe_at (alt_ref qs) i" by simp_all
  then show ?case by (auto simp: safe_at_def split: res.splits nom_err.splits)
qed (simp add: safe_at_def)

lemma length_value_ref_safe:
  assumes "safe_at s i" and "\<And>j. safe_at q j"
  shows "safe_at (n_length_value ncomb_ref s q) i"
  using assms(1)
proof (cases rule: safe_at_cases)
  case (1 r n)
  have "suffix (drop (unat n) r) i" using 1(2) suffix_drop suffix_order.trans by blast
  with 1(1) assms(2) [of "take (unat n) r"] show ?thesis
    by (cases "q (take (unat n) r)") (auto simp: safe_at_def ncomb_ref_def)
qed (simp add: safe_at_Err ncomb_ref_def)

lemma fold_many0_ref_safe: "(\<And>j. safe_at q j) \<Longrightarrow> safe_at (fold_many0_ref q acc g) i"
proof (induction q acc g i rule: fold_many0_ref.induct)
  case (1 q acc g i)
  have "safe_at q i" by (rule 1)
  then show ?case
  proof (cases rule: safe_at_cases)
    case (1 r a)
    with "1.IH" [of "(r, a)" r a] "1.prems" show ?thesis
      by (cases "length r < length i")
        (auto simp: fold_many0_ref.simps [of q acc g i] intro: safe_at_shift safe_at_Err)
  next
    case (2 e)
    then show ?thesis by (cases e) (simp_all add: safe_at_def fold_many0_ref.simps [of q acc g i])
  qed
qed

lemma fold_many_ref_safe: "(\<And>j. safe_at q j) \<Longrightarrow> safe_at (fold_many_ref n q acc g) i"
proof (induction n arbitrary: acc i)
  case (Suc n acc i)
  have "safe_at q i" by (rule Suc)
  then show ?case
  proof (cases rule: safe_at_cases)
    case (1 r a)
    show ?thesis
      by (rule safe_at_shift [OF Suc.IH [OF Suc.prems, of "g acc a"] 1(2)]) (simp add: 1(1))
  next
    case (2 e)
    then show ?thesis by (cases e) (simp_all add: safe_at_def)
  qed
qed (simp add: safe_at_def)

lemma fold_safe_ref:
  "(\<And>j. safe_at q j) \<Longrightarrow> safe_at (n_fold_many0 ncomb_ref q acc g) i"
  "(\<And>j. safe_at q j) \<Longrightarrow> safe_at (n_fold_many_m_n ncomb_ref 0 n q acc g) i"
  "(\<And>q. q \<in> set qs \<Longrightarrow> safe_at q i) \<Longrightarrow> safe_at (n_alt ncomb_ref qs) i"
  by (simp_all add: ncomb_ref_def fold_many0_ref_safe fold_many_ref_safe alt_ref_safe)

interpretation ncomb_ref: ncomb_laws "ncomb_ref :: 'a ncomb"
  by unfold_locales
    (simp_all add: complete_ref_err length_value_ref_safe fold_safe_ref,
     simp_all add: ncomb_ref_def alt_ref_none alt_ref_first fold_many0_ref.simps
       fold_many_ref_stop fold_many_ref_fail del: alt_ref.simps, simp)

end
