(* ===== verification/Nom_Reader.thy ===== *)
theory Nom_Reader
  imports Binary_Writer Crates_Nom
begin

text \<open>
  The parsers of \<^verbatim>\<open>tezos/encoding/src/nom.rs\<close>. A parsed Rust value is represented as in \<open>Encoding\<close>, by the
  serde calls it would make. \<open>N\<close> holds the primitive parsers of \<^verbatim>\<open>nom\<close>, \<open>C\<close> its combinators at the type of
  Rust values. The loops of \<open>zarith\<close> and \<open>mutez\<close> read one byte per round, so the length of the input is
  enough fuel.
\<close>

section \<open>Parsers\<close>

definition represent :: "('b \<Rightarrow> 'a) \<Rightarrow> 'b parser \<Rightarrow> 'a parser" where
  \<comment> \<open>the Rust value a typed result stands for\<close>
  "represent f p i = res_bind (p i) (\<lambda>(r, b). Ok (r, f b))"

definition read_hash :: "nom \<Rightarrow> rust ncomb \<Rightarrow> string \<Rightarrow> hash_type \<Rightarrow> rust parser" where
  "read_hash N C name ht =
     n_map_bytes C (n_take N (hash_size ht)) (\<lambda>bs.
       res_bind (unwrap (try_from_bytes ht bs)) (\<lambda>h. Ok (RNewtypeStruct name (RSeq (map RU8 h)))))"

definition boolean :: "nom \<Rightarrow> rust ncomb \<Rightarrow> rust parser" where
  "boolean N C =
     n_alt C [n_map_bytes C (n_tag N [BYTE_VAL_TRUE]) (\<lambda>_. Ok (RBool True)),
              n_map_bytes C (n_tag N [BYTE_VAL_FALSE]) (\<lambda>_. Ok (RBool False))]"

definition read_bytes :: "nom \<Rightarrow> rust ncomb \<Rightarrow> rust parser" where
  "read_bytes N C = n_map_bytes C (n_rest N) (\<lambda>bs. Ok (RSeq (map RU8 bs)))"

definition read_size :: "nom \<Rightarrow> u32 parser" where
  "read_size N = n_u32 N"

definition bounded_size :: "nom \<Rightarrow> bounded_kind \<Rightarrow> nat \<Rightarrow> u32 parser" where
  "bounded_size N kind m input =
     res_bind (read_size N input) (\<lambda>(r, sz).
       if unat sz \<le> m then Ok (r, sz) else Err (Error (limit_error input kind)))"

definition utf8_string :: "bytes \<Rightarrow> rust option" where
  "utf8_string bs = (if utf8_valid bs then Some (RStr bs) else None)"

definition read_string :: "nom \<Rightarrow> rust ncomb \<Rightarrow> rust parser" where
  "read_string N C = n_map_res C (n_complete_bytes N (n_length_data N (read_size N))) utf8_string"

definition bounded_string :: "nom \<Rightarrow> rust ncomb \<Rightarrow> nat \<Rightarrow> rust parser" where
  "bounded_string N C m =
     n_map_res C (n_complete_bytes N (n_length_data N (bounded_size N BKString m))) utf8_string"

definition sized :: "nom \<Rightarrow> rust ncomb \<Rightarrow> nat \<Rightarrow> rust parser \<Rightarrow> rust parser" where
  "sized N C sz f = n_map_parser C (n_take N sz) f"

definition optional_field :: "nom \<Rightarrow> rust ncomb \<Rightarrow> rust parser \<Rightarrow> rust parser" where
  "optional_field N C f =
     n_alt C [n_preceded C (n_tag N [0x00]) (n_success C RNone),
              n_preceded C (n_tag N [0xff]) (n_map C f RSome)]"

definition read_list :: "rust ncomb \<Rightarrow> rust parser \<Rightarrow> rust parser" where
  "read_list C f = represent RSeq (n_fold_many0 C f [] (\<lambda>xs x. xs @ [x]))"

definition bounded_list :: "rust ncomb \<Rightarrow> nat \<Rightarrow> rust parser \<Rightarrow> rust parser" where
  "bounded_list C m f input =
     res_bind (n_fold_many_m_n C 0 m f [] (\<lambda>xs x. xs @ [x]) input) (\<lambda>(r, xs).
       if 0 < length r then Err (Error (DecodeError r (Boundary BKList) None))
       else Ok (r, RSeq xs))"

definition dynamic :: "nom \<Rightarrow> rust ncomb \<Rightarrow> rust parser \<Rightarrow> rust parser" where
  "dynamic N C f = n_length_value C (read_size N) (n_all_consuming C f)"

definition bounded_dynamic :: "nom \<Rightarrow> rust ncomb \<Rightarrow> nat \<Rightarrow> rust parser \<Rightarrow> rust parser" where
  "bounded_dynamic N C m f = n_length_value C (bounded_size N BKDynamic m) (n_all_consuming C f)"

definition bounded :: "nat \<Rightarrow> rust parser \<Rightarrow> rust parser" where
  "bounded m f input =
     (let m = min m (length input) in
      case f (take m input) of
        Ok (rest, parsed) \<Rightarrow>
          if m < length rest then Panic else Ok (drop (m - length rest) input, parsed)
      | Err (Error (DecodeError i (Nom KEof) other)) \<Rightarrow>
          Err (Error (DecodeError i (Boundary BKBounded) other))
      | e \<Rightarrow> e)"

definition read_field :: "string \<Rightarrow> rust parser \<Rightarrow> rust parser" where
  "read_field name p input = map_err (map_nom_err (add_field name)) (p input)"

definition read_variant :: "string \<Rightarrow> rust parser \<Rightarrow> rust parser" where
  "read_variant name p input = map_err (map_nom_err (add_variant name)) (p input)"

section \<open>Zarith numbers\<close>

fun push_bits :: "bytes \<Rightarrow> u8 \<Rightarrow> nat list \<Rightarrow> bool list \<Rightarrow> (nom_err, bool list) res" where
  "push_bits input byte [] bits = Ok bits"
| "push_bits input byte (i # is) bits =
     res_bind (map_err (\<lambda>e. Error (map_bits_err input e)) (bits_get byte i)) (\<lambda>b.
       push_bits input byte is (bits @ [b]))"

fun chunks_loop :: "nat \<Rightarrow> nom \<Rightarrow> bool list \<Rightarrow> bytes \<Rightarrow> (nom_err, bytes \<times> bool list) res" where
  "chunks_loop 0 N bits input = Panic"
| "chunks_loop (Suc fuel) N bits input =
     res_bind (n_u8 N input) (\<lambda>(r, byte).
     res_bind (push_bits input byte [0..<7] bits) (\<lambda>bits.
     res_bind (map_err (\<lambda>e. Error (map_bits_err input e)) (bits_get byte 7)) (\<lambda>has_next.
       if has_next then chunks_loop fuel N bits r else Ok (r, bits))))"

definition pad_bits :: "bool list \<Rightarrow> bool list" where
  "pad_bits bits =
     (let pad = length bits mod 8
      in if pad \<noteq> 0 then bits @ replicate (8 - pad) False else bits)"

definition zarith :: "nom \<Rightarrow> wire \<Rightarrow> bigint \<Rightarrow> int parser" where
  "zarith N W I input =
     res_bind (n_u8 N input) (\<lambda>(r, first).
     res_bind (map_err (\<lambda>e. Error (map_bits_err input e)) (bits_take first 7)) (\<lambda>(has_next, first).
     res_bind (map_err (\<lambda>e. Error (map_bits_err input e)) (bits_take first 6)) (\<lambda>(negative, first).
       if \<not> has_next then Ok (r, if negative then sint (- first) else sint first)
       else
         res_bind (push_bits input first [0..<6] []) (\<lambda>bits.
         res_bind (chunks_loop (Suc (length r)) N bits r) (\<lambda>(r, bits).
           Ok (r, bigint_from_bytes_be I negative
                (bits_to_bytes W (bitvec_reverse (pad_bits bits)))))))))"

definition mutez :: "nom \<Rightarrow> wire \<Rightarrow> bigint \<Rightarrow> int parser" where
  "mutez N W I input =
     res_bind (chunks_loop (Suc (length input)) N [] input) (\<lambda>(r, bits).
       Ok (r, bigint_from_bytes_be I False (bits_to_bytes W (bitvec_reverse (pad_bits bits)))))"

end
