(* ===== verification/Derive.thy ===== *)
theory Derive
  imports Nom_Reader
begin

text \<open>
  The code generators of \<^verbatim>\<open>tezos/encoding-derive\<close>: the encoding a derive macro works on (\<^verbatim>\<open>encoding.rs\<close>), the
  schema it generates (\<^verbatim>\<open>enc.rs\<close>) and the reader it generates (\<^verbatim>\<open>nom.rs\<close>). A generator returns what its
  generated expression evaluates to: a schema, or a parser. Types named by a path are found in an
  environment, as trait resolution does: their schema, their reader and their values.
\<close>

section \<open>Encodings of the macro\<close>

datatype prim_encoding =
    PInt8 | PUint8 | PInt16 | PUint16 | PInt31 | PInt32 | PUint32 | PInt64 | PFloat | PBool | PTimestamp

text \<open>The writer supports tags of one and two bytes, so the tag types are \<^verbatim>\<open>u8\<close> and \<^verbatim>\<open>u16\<close>.\<close>

datatype tag_type = TagU8 | TagU16

datatype denc =
    DUnit
  | DPrimitive prim_encoding
  | DBytes
  | DPath string
  | DZarith
  | DMuTez
  | DString "nat option"
  | DStruct string "(string \<times> denc option) list"
  | DEnum string tag_type bool "(u16 \<times> string \<times> denc) list"
  | DOptionField denc
  | DList "nat option" denc
  | DSized nat denc
  | DBounded nat denc
  | DDynamic "nat option" denc

record rtype =
  t_encoding :: encoding
  t_nom_read :: "rust parser"
  t_values :: "rust \<Rightarrow> bool"

record tenv =
  type_of_path :: "string \<Rightarrow> rtype"
  default_of :: "string \<Rightarrow> string \<Rightarrow> rust"

section \<open>Schema generation\<close>

fun generate_primitive_encoding :: "prim_encoding \<Rightarrow> encoding" where
  "generate_primitive_encoding PInt8 = EInt8"
| "generate_primitive_encoding PUint8 = EUint8"
| "generate_primitive_encoding PInt16 = EInt16"
| "generate_primitive_encoding PUint16 = EUint16"
| "generate_primitive_encoding PInt31 = EInt31"
| "generate_primitive_encoding PInt32 = EInt32"
| "generate_primitive_encoding PUint32 = EUint32"
| "generate_primitive_encoding PInt64 = EInt64"
| "generate_primitive_encoding PFloat = EFloat"
| "generate_primitive_encoding PBool = EBool"
| "generate_primitive_encoding PTimestamp = ETimestamp"

fun size_of_tag_type :: "tag_type \<Rightarrow> nat" where
  "size_of_tag_type TagU8 = 1"
| "size_of_tag_type TagU16 = 2"

fun generate_encoding :: "tenv \<Rightarrow> denc \<Rightarrow> encoding"
  and generate_field_encodings :: "tenv \<Rightarrow> (string \<times> denc option) list \<Rightarrow> encoding field list"
  and generate_tag_encodings :: "tenv \<Rightarrow> (u16 \<times> string \<times> denc) list \<Rightarrow> encoding tag list" where
  "generate_encoding G DUnit = EUnit"
| "generate_encoding G (DPrimitive p) = generate_primitive_encoding p"
| "generate_encoding G DBytes = EBytes"
| "generate_encoding G (DPath p) = t_encoding (type_of_path G p)"
| "generate_encoding G DZarith = EZ"
| "generate_encoding G DMuTez = EMutez"
| "generate_encoding G (DString sz) = (case sz of None \<Rightarrow> EString | Some m \<Rightarrow> EBoundedString m)"
| "generate_encoding G (DStruct name fs) = EObj name (generate_field_encodings G fs)"
| "generate_encoding G (DEnum name tt ignore_unknown tags) =
     ETags (size_of_tag_type tt) (tag_map_new (generate_tag_encodings G tags))"
| "generate_encoding G (DOptionField e) = EOptionalField (generate_encoding G e)"
| "generate_encoding G (DList sz e) =
     (case sz of None \<Rightarrow> EList (generate_encoding G e) | Some m \<Rightarrow> EBoundedList m (generate_encoding G e))"
| "generate_encoding G (DSized m e) = ESized m (generate_encoding G e)"
| "generate_encoding G (DBounded m e) = EBounded m (generate_encoding G e)"
| "generate_encoding G (DDynamic sz e) =
     (case sz of None \<Rightarrow> EDynamic (generate_encoding G e)
       | Some m \<Rightarrow> EBoundedDynamic m (generate_encoding G e))"
| "generate_field_encodings G [] = []"
| "generate_field_encodings G ((name, None) # fs) = generate_field_encodings G fs"
| "generate_field_encodings G ((name, Some e) # fs) =
     Field name (generate_encoding G e) # generate_field_encodings G fs"
| "generate_tag_encodings G [] = []"
| "generate_tag_encodings G ((i, name, e) # tags) =
     Tag i name (generate_encoding G e) # generate_tag_encodings G tags"

section \<open>Reader generation\<close>

definition NOM_TUPLE_MAX :: nat where
  "NOM_TUPLE_MAX = 26"

fun generate_primitive_nom_read :: "nom \<Rightarrow> rust ncomb \<Rightarrow> prim_encoding \<Rightarrow> rust parser" where
  "generate_primitive_nom_read N C PInt8 = represent RI8 (n_i8 N)"
| "generate_primitive_nom_read N C PUint8 = represent RU8 (n_u8 N)"
| "generate_primitive_nom_read N C PInt16 = represent RI16 (n_i16 N)"
| "generate_primitive_nom_read N C PUint16 = represent RU16 (n_u16 N)"
| "generate_primitive_nom_read N C PInt31 = represent RI32 (n_i32 N)"
| "generate_primitive_nom_read N C PInt32 = represent RI32 (n_i32 N)"
| "generate_primitive_nom_read N C PUint32 = represent RU32 (n_u32 N)"
| "generate_primitive_nom_read N C PInt64 = represent RI64 (n_i64 N)"
| "generate_primitive_nom_read N C PFloat = represent RF64 (n_f64 N)"
| "generate_primitive_nom_read N C PTimestamp = represent RI64 (n_i64 N)"
| "generate_primitive_nom_read N C PBool = boolean N C"

fun seq_read :: "rust parser list \<Rightarrow> rust list parser" where
  \<comment> \<open>the chain of \<open>let (input, x) = p(input)?;\<close> of large structs\<close>
  "seq_read [] input = Ok (input, [])"
| "seq_read (p # ps) input =
     res_bind (p input) (\<lambda>(r, x). res_bind (seq_read ps r) (\<lambda>(r, xs). Ok (r, x # xs)))"

definition struct_nom_read ::
  "rust ncomb \<Rightarrow> string \<Rightarrow> (string \<times> rust parser) list \<Rightarrow> rust parser" where
  "struct_nom_read C name fs =
     (if length fs = 0 then n_success C (RStruct name [])
      else if length fs = 1 then
        n_map C (read_field (fst (hd fs)) (snd (hd fs))) (\<lambda>x. RStruct name [(fst (hd fs), x)])
      else
        let ps = map (\<lambda>(f, p). read_field (name @ ''::'' @ f) p) fs;
            build = (\<lambda>xs. RStruct name (zip (map fst fs) xs))
        in if length fs < NOM_TUPLE_MAX then n_map_list C (n_tuple C ps) build
           else represent build (seq_read ps))"

definition hex_upper :: "nat \<Rightarrow> char" where
  "hex_upper d = ''0123456789ABCDEF'' ! d"

definition tag_text :: "nat \<Rightarrow> string" where
  "tag_text n = ''0x'' @ (if n = 0 then ''0'' else map hex_upper (digits 16 n))"

definition read_tag_id :: "nom \<Rightarrow> tag_type \<Rightarrow> u16 parser" where
  "read_tag_id N tt = (case tt of TagU8 \<Rightarrow> represent ucast (n_u8 N) | TagU16 \<Rightarrow> n_u16 N)"

definition enum_nom_read ::
  "nom \<Rightarrow> tag_type \<Rightarrow> bool \<Rightarrow> (u16 \<times> rust parser) list \<Rightarrow> rust parser" where
  "enum_nom_read N tt ignore_unknown tags input =
     res_bind (read_tag_id N tt input) (\<lambda>(r, t).
       case map_of tags t of
         Some p \<Rightarrow> p r
       | None \<Rightarrow> Err (Failure ((if ignore_unknown then unknown_tag else invalid_tag) r (tag_text (unat t)))))"

text \<open>\<open>Encoding::Unit\<close> outside of an enum variant is \<^verbatim>\<open>unreachable!()\<close> in the generator.\<close>

fun generate_nom_read :: "nom \<Rightarrow> rust ncomb \<Rightarrow> wire \<Rightarrow> bigint \<Rightarrow> tenv \<Rightarrow> denc \<Rightarrow> rust parser"
  and generate_field_nom_reads ::
    "nom \<Rightarrow> rust ncomb \<Rightarrow> wire \<Rightarrow> bigint \<Rightarrow> tenv \<Rightarrow> string \<Rightarrow> (string \<times> denc option) list
      \<Rightarrow> (string \<times> rust parser) list"
  and generate_tag_nom_reads ::
    "nom \<Rightarrow> rust ncomb \<Rightarrow> wire \<Rightarrow> bigint \<Rightarrow> tenv \<Rightarrow> string \<Rightarrow> u32 \<Rightarrow> (u16 \<times> string \<times> denc) list
      \<Rightarrow> (u16 \<times> rust parser) list" where
  "generate_nom_read N C W I G DUnit = (\<lambda>_. Panic)"
| "generate_nom_read N C W I G (DPrimitive p) = generate_primitive_nom_read N C p"
| "generate_nom_read N C W I G DBytes = read_bytes N C"
| "generate_nom_read N C W I G (DPath p) = t_nom_read (type_of_path G p)"
| "generate_nom_read N C W I G DZarith = represent RNumBigInt (zarith N W I)"
| "generate_nom_read N C W I G DMuTez = represent RNumBigInt (mutez N W I)"
| "generate_nom_read N C W I G (DString sz) =
     (case sz of None \<Rightarrow> read_string N C | Some m \<Rightarrow> bounded_string N C m)"
| "generate_nom_read N C W I G (DStruct name fs) =
     struct_nom_read C name (generate_field_nom_reads N C W I G name fs)"
| "generate_nom_read N C W I G (DEnum name tt ignore_unknown tags) =
     enum_nom_read N tt ignore_unknown (generate_tag_nom_reads N C W I G name 0 tags)"
| "generate_nom_read N C W I G (DOptionField e) = optional_field N C (generate_nom_read N C W I G e)"
| "generate_nom_read N C W I G (DList sz e) =
     (case sz of None \<Rightarrow> read_list C (generate_nom_read N C W I G e)
       | Some m \<Rightarrow> bounded_list C m (generate_nom_read N C W I G e))"
| "generate_nom_read N C W I G (DSized m e) = sized N C m (generate_nom_read N C W I G e)"
| "generate_nom_read N C W I G (DBounded m e) = bounded m (generate_nom_read N C W I G e)"
| "generate_nom_read N C W I G (DDynamic sz e) =
     (case sz of None \<Rightarrow> dynamic N C (generate_nom_read N C W I G e)
       | Some m \<Rightarrow> bounded_dynamic N C m (generate_nom_read N C W I G e))"
| "generate_field_nom_reads N C W I G name [] = []"
| "generate_field_nom_reads N C W I G name ((f, None) # fs) =
     (f, \<lambda>input. Ok (input, default_of G name f)) # generate_field_nom_reads N C W I G name fs"
| "generate_field_nom_reads N C W I G name ((f, Some e) # fs) =
     (f, generate_nom_read N C W I G e) # generate_field_nom_reads N C W I G name fs"
| "generate_tag_nom_reads N C W I G name idx [] = []"
| "generate_tag_nom_reads N C W I G name idx ((i, variant, e) # tags) =
     (i, case e of
           DUnit \<Rightarrow> (\<lambda>input. Ok (input, RUnitVariant name idx variant))
         | _ \<Rightarrow> n_map C (read_variant (name @ ''::'' @ variant) (generate_nom_read N C W I G e))
                (RNewtypeVariant name idx variant))
     # generate_tag_nom_reads N C W I G name (idx + 1) tags"

section \<open>Values of a type\<close>

text \<open>
  The Rust values a struct or enum with this encoding can hold. A string is valid UTF-8 and, as
  all strings of the program are, shorter than \<open>2\<^sup>3\<^sup>2\<close> bytes.
\<close>

fun prim_value :: "prim_encoding \<Rightarrow> rust \<Rightarrow> bool" where
  "prim_value PInt8 r = (case r of RI8 _ \<Rightarrow> True | _ \<Rightarrow> False)"
| "prim_value PUint8 r = (case r of RU8 _ \<Rightarrow> True | _ \<Rightarrow> False)"
| "prim_value PInt16 r = (case r of RI16 _ \<Rightarrow> True | _ \<Rightarrow> False)"
| "prim_value PUint16 r = (case r of RU16 _ \<Rightarrow> True | _ \<Rightarrow> False)"
| "prim_value PInt31 r = (case r of RI32 _ \<Rightarrow> True | _ \<Rightarrow> False)"
| "prim_value PInt32 r = (case r of RI32 _ \<Rightarrow> True | _ \<Rightarrow> False)"
| "prim_value PUint32 r = (case r of RU32 _ \<Rightarrow> True | _ \<Rightarrow> False)"
| "prim_value PInt64 r = (case r of RI64 _ \<Rightarrow> True | _ \<Rightarrow> False)"
| "prim_value PFloat r = (case r of RF64 _ \<Rightarrow> True | _ \<Rightarrow> False)"
| "prim_value PBool r = (case r of RBool _ \<Rightarrow> True | _ \<Rightarrow> False)"
| "prim_value PTimestamp r = (case r of RI64 _ \<Rightarrow> True | _ \<Rightarrow> False)"

definition is_u8 :: "rust \<Rightarrow> bool" where
  "is_u8 r = (case r of RU8 _ \<Rightarrow> True | _ \<Rightarrow> False)"

fun has_type :: "tenv \<Rightarrow> denc \<Rightarrow> rust \<Rightarrow> bool"
  and fields_have_type :: "tenv \<Rightarrow> string \<Rightarrow> (string \<times> denc option) list \<Rightarrow> (string \<times> rust) list \<Rightarrow> bool"
  and variant_has_type :: "tenv \<Rightarrow> string \<Rightarrow> u32 \<Rightarrow> (u16 \<times> string \<times> denc) list \<Rightarrow> rust \<Rightarrow> bool" where
  "has_type G DUnit r = False"
| "has_type G (DPrimitive p) r = prim_value p r"
| "has_type G DBytes r = (case r of RSeq rs \<Rightarrow> list_all is_u8 rs | _ \<Rightarrow> False)"
| "has_type G (DPath p) r = t_values (type_of_path G p) r"
| "has_type G DZarith r = (case r of RNumBigInt _ \<Rightarrow> True | _ \<Rightarrow> False)"
| "has_type G DMuTez r = (case r of RNumBigInt _ \<Rightarrow> True | _ \<Rightarrow> False)"
| "has_type G (DString sz) r = (case r of RStr s \<Rightarrow> utf8_valid s \<and> length s < 2 ^ 32 | _ \<Rightarrow> False)"
| "has_type G (DStruct name fs) r =
     (case r of RStruct n vs \<Rightarrow> n = name \<and> fields_have_type G name fs vs | _ \<Rightarrow> False)"
| "has_type G (DEnum name tt ignore_unknown tags) r = variant_has_type G name 0 tags r"
| "has_type G (DOptionField e) r = (case r of RNone \<Rightarrow> True | RSome x \<Rightarrow> has_type G e x | _ \<Rightarrow> False)"
| "has_type G (DList sz e) r = (case r of RSeq rs \<Rightarrow> list_all (has_type G e) rs | _ \<Rightarrow> False)"
| "has_type G (DSized m e) r = has_type G e r"
| "has_type G (DBounded m e) r = has_type G e r"
| "has_type G (DDynamic sz e) r = has_type G e r"
| "fields_have_type G name [] vs = (vs = [])"
| "fields_have_type G name ((f, None) # fs) vs =
     (case vs of (n, v) # vs \<Rightarrow> n = f \<and> v = default_of G name f \<and> fields_have_type G name fs vs
       | [] \<Rightarrow> False)"
| "fields_have_type G name ((f, Some e) # fs) vs =
     (case vs of (n, v) # vs \<Rightarrow> n = f \<and> has_type G e v \<and> fields_have_type G name fs vs | [] \<Rightarrow> False)"
| "variant_has_type G name idx [] r = False"
| "variant_has_type G name idx ((i, variant, e) # tags) r =
     ((case e of
         DUnit \<Rightarrow> r = RUnitVariant name idx variant
       | _ \<Rightarrow> (case r of
            RNewtypeVariant n j v x \<Rightarrow> n = name \<and> j = idx \<and> v = variant \<and> has_type G e x
          | _ \<Rightarrow> False))
      \<or> variant_has_type G name (idx + 1) tags r)"

definition derive :: "nom \<Rightarrow> rust ncomb \<Rightarrow> wire \<Rightarrow> bigint \<Rightarrow> tenv \<Rightarrow> denc \<Rightarrow> rtype" where
  \<comment> \<open>the two derived trait implementations of a type\<close>
  "derive N C W I G d =
     \<lparr>t_encoding = generate_encoding G d, t_nom_read = generate_nom_read N C W I G d,
      t_values = has_type G d\<rparr>"

definition hash_rtype :: "nom \<Rightarrow> rust ncomb \<Rightarrow> string \<Rightarrow> hash_type \<Rightarrow> rtype" where
  \<comment> \<open>a hash type: its schema, its reader, and its values, which hold exactly \<open>hash_size\<close> bytes\<close>
  "hash_rtype N C name ht =
     \<lparr>t_encoding = EHash ht, t_nom_read = read_hash N C name ht,
      t_values = (\<lambda>r. \<exists>h. length h = hash_size ht \<and> r = RNewtypeStruct name (RSeq (map RU8 h)))\<rparr>"

end
