(* ===== verification/Derive_Make.thy ===== *)
theory Derive_Make
  imports Derive
begin

text \<open>
  The front end of the derive macros, \<^verbatim>\<open>tezos/encoding-derive/src/make.rs\<close> (with \<^verbatim>\<open>symbol.rs\<close>): it turns the
  attributes and types of a struct or enum into the encoding the generators of \<open>Derive\<close> work on. The
  syntax tree is the fragment of \<^verbatim>\<open>syn\<close> the code inspects. Attributes are consumed from the right, so the
  list of pending attributes is passed and returned. An error carries the message of the compile error.
\<close>

section \<open>Syntax trees\<close>

datatype lit = LitStr string | LitInt nat | LitOther

datatype meta =
    MPath "string list"
  | MNameValue "string list" lit
  | MList "string list" "nested list"
and nested = NMeta meta | NLit lit

datatype ty = TyPath "string list" string tyargs | TyOther
and tyargs = NoArgs | AngleArgs "garg list" | OtherArgs
and garg = GType ty | GOther

text \<open>An attribute, with what \<^verbatim>\<open>parse_meta\<close> makes of it.\<close>

datatype attribute = Attribute (attr_path: "string list") (attr_meta: "meta option")

datatype sfield = SField (sfield_attrs: "attribute list") (sfield_ident: string) (sfield_ty: ty)

datatype fields = NamedFields "sfield list" | UnnamedFields "ty list" | UnitFields

datatype variant = Variant (variant_attrs: "attribute list") (variant_ident: string) (variant_fields: fields)

datatype sdata = DataStruct fields | DataEnum "variant list" | DataUnion

datatype derive_input = DeriveInput (di_attrs: "attribute list") (di_ident: string) (di_data: sdata)

text \<open>
  \<^verbatim>\<open>LitStr::parse\<close> of \<^verbatim>\<open>syn\<close> is a parameter: the text of an expression or an identifier, or a parse error.
  \<open>const_value\<close> is the value of a constant expression where the derived type is defined.
\<close>

record syn =
  parse_expr :: "string \<Rightarrow> string option"
  parse_ident :: "string \<Rightarrow> string option"
  const_value :: "string \<Rightarrow> nat"

type_synonym 'a made = "(string, 'a) res"

section \<open>Attributes\<close>

definition is_symbol :: "string list \<Rightarrow> string \<Rightarrow> bool" where
  "is_symbol path name \<longleftrightarrow> path = [name]"

fun meta_path :: "meta \<Rightarrow> string list" where
  "meta_path (MPath p) = p"
| "meta_path (MNameValue p l) = p"
| "meta_path (MList p ns) = p"

definition has_attribute :: "meta list \<Rightarrow> string \<Rightarrow> bool" where
  "has_attribute ms name \<longleftrightarrow> ms \<noteq> [] \<and> is_symbol (meta_path (last ms)) name"

definition get_attribute :: "meta list \<Rightarrow> string \<Rightarrow> meta option \<times> meta list" where
  "get_attribute ms name =
     (if ms \<noteq> [] \<and> is_symbol (meta_path (last ms)) name then (Some (last ms), butlast ms) else (None, ms))"

fun collect_metas :: "string \<Rightarrow> nested list \<Rightarrow> meta list made" where
  "collect_metas msg [] = Ok []"
| "collect_metas msg (NMeta m # ns) = res_bind (collect_metas msg ns) (\<lambda>ms. Ok (m # ms))"
| "collect_metas msg (NLit l # ns) = Err msg"

fun get_encoding_meta :: "attribute list \<Rightarrow> meta list made" where
  "get_encoding_meta [] = Ok []"
| "get_encoding_meta (a # attrs) =
     (if is_symbol (attr_path a) ''encoding'' then
        (case attr_meta a of
           None \<Rightarrow> Err ''parse error''
         | Some (MList p ns) \<Rightarrow> collect_metas ''Unexpected literal'' ns
         | Some _ \<Rightarrow> Err ''Attribute list is expected'')
      else get_encoding_meta attrs)"

definition assert_empty_meta :: "meta list \<Rightarrow> unit made" where
  "assert_empty_meta ms = (if ms = [] then Ok () else Err ''Unrecognized attribute'')"

fun get_value :: "meta \<Rightarrow> bool \<Rightarrow> lit option" where
  "get_value (MPath p) is_default = None"
| "get_value (MNameValue p l) is_default = (if is_default then Some l else None)"
| "get_value (MList p ns) is_default = None"

definition parse_value :: "(string \<Rightarrow> 'a option) \<Rightarrow> lit \<Rightarrow> 'a made" where
  "parse_value parse l =
     (case l of
        LitStr s \<Rightarrow> (case parse s of Some x \<Rightarrow> Ok x | None \<Rightarrow> Err ''parse error'')
      | _ \<Rightarrow> Err ''Non-string literal'')"

definition get_value_parsed :: "(string \<Rightarrow> 'a option) \<Rightarrow> meta \<Rightarrow> bool \<Rightarrow> 'a option made" where
  "get_value_parsed parse m is_default =
     (case get_value m is_default of
        None \<Rightarrow> Ok None
      | Some l \<Rightarrow> res_bind (parse_value parse l) (\<lambda>x. Ok (Some x)))"

definition get_attribute_with_option ::
  "(string \<Rightarrow> 'a option) \<Rightarrow> meta list \<Rightarrow> string \<Rightarrow> bool \<Rightarrow> ('a option option \<times> meta list) made" where
  "get_attribute_with_option parse ms name is_default =
     (case get_attribute ms name of
        (None, ms) \<Rightarrow> Ok (None, ms)
      | (Some m, ms) \<Rightarrow> res_bind (get_value_parsed parse m is_default) (\<lambda>p. Ok (Some p, ms)))"

definition get_attribute_with_param ::
  "(string \<Rightarrow> 'a option) \<Rightarrow> meta list \<Rightarrow> string \<Rightarrow> bool \<Rightarrow> ('a option \<times> meta list) made" where
  "get_attribute_with_param parse ms name is_default =
     (case get_attribute ms name of
        (None, ms) \<Rightarrow> Ok (None, ms)
      | (Some m, ms) \<Rightarrow> res_bind (get_value_parsed parse m is_default) (\<lambda>p.
          case p of Some x \<Rightarrow> Ok (Some x, ms) | None \<Rightarrow> Err ''Parameter is required''))"

definition get_attribute_no_param :: "meta list \<Rightarrow> string \<Rightarrow> (bool \<times> meta list) made" where
  "get_attribute_no_param ms name =
     (case get_attribute ms name of
        (None, ms) \<Rightarrow> Ok (False, ms)
      | (Some (MPath p), ms) \<Rightarrow> Ok (True, ms)
      | (Some _, ms) \<Rightarrow> Err ''Parameter is unexpected'')"

definition get_attribute_value :: "meta list \<Rightarrow> string \<Rightarrow> lit option \<times> meta list" where
  "get_attribute_value ms name =
     (if ms = [] then (None, ms)
      else case last ms of
        MNameValue p l \<Rightarrow> if is_symbol p name then (Some l, butlast ms) else (None, ms)
      | _ \<Rightarrow> (None, ms))"

definition get_attribute_value_parsed ::
  "(string \<Rightarrow> 'a option) \<Rightarrow> meta list \<Rightarrow> string \<Rightarrow> ('a option \<times> meta list) made" where
  "get_attribute_value_parsed parse ms name =
     (case get_attribute_value ms name of
        (None, ms) \<Rightarrow> Ok (None, ms)
      | (Some l, ms) \<Rightarrow> res_bind (parse_value parse l) (\<lambda>x. Ok (Some x, ms)))"

definition get_composite_meta :: "meta list \<Rightarrow> (meta list option \<times> meta list) made" where
  "get_composite_meta ms =
     (case get_attribute ms ''composite'' of
        (None, ms) \<Rightarrow> Ok (None, ms)
      | (Some (MList p ns), ms) \<Rightarrow>
          res_bind (collect_metas ''Invalid nested attribute type'' ns) (\<lambda>l. Ok (Some l, ms))
      | (Some _, ms) \<Rightarrow> Err ''Invalid attribute type'')"

definition skip_field :: "meta list \<Rightarrow> bool" where
  "skip_field ms \<longleftrightarrow> list_ex (\<lambda>m. case m of MPath p \<Rightarrow> is_symbol p ''skip'' | _ \<Rightarrow> False) ms"

section \<open>Encodings from attributes\<close>

definition RUST_TO_PRIMITIVE_MAPPING :: "(string \<times> prim_encoding) list" where
  "RUST_TO_PRIMITIVE_MAPPING =
     [(''i8'', PInt8), (''u8'', PUint8), (''i16'', PInt16), (''u16'', PUint16), (''i32'', PInt32),
      (''u32'', PUint32), (''i64'', PInt64), (''f64'', PFloat), (''bool'', PBool)]"

definition get_rust_to_primitive_mapping :: "string \<Rightarrow> prim_encoding option" where
  "get_rust_to_primitive_mapping ident = map_of RUST_TO_PRIMITIVE_MAPPING ident"

definition PRIMITIVE_NAMES :: "(string \<times> prim_encoding) list" where
  "PRIMITIVE_NAMES =
     [(''Int8'', PInt8), (''Uint8'', PUint8), (''Int16'', PInt16), (''Uint16'', PUint16),
      (''Int31'', PInt31), (''Int32'', PInt32), (''Uint32'', PUint32), (''Int64'', PInt64),
      (''Float'', PFloat), (''Bool'', PBool), (''Timestamp'', PTimestamp)]"

definition parse_primitive :: "syn \<Rightarrow> string \<Rightarrow> prim_encoding option" where
  "parse_primitive S s = Option.bind (parse_ident S s) (map_of PRIMITIVE_NAMES)"

definition parse_size :: "syn \<Rightarrow> string \<Rightarrow> nat option" where
  "parse_size S s = map_option (const_value S) (parse_expr S s)"

definition bounded_attribute :: "syn \<Rightarrow> meta list \<Rightarrow> denc \<Rightarrow> (denc option \<times> meta list) made" where
  \<comment> \<open>one round of the loop of \<open>make_bounded_encoding\<close>\<close>
  "bounded_attribute S ms e =
     res_bind (get_attribute_with_param (parse_size S) ms ''sized'' True) (\<lambda>(sized, ms).
     case sized of Some n \<Rightarrow> Ok (Some (DSized n e), ms) | None \<Rightarrow>
     res_bind (get_attribute_with_param (parse_size S) ms ''bounded'' True) (\<lambda>(bounded, ms).
     case bounded of Some n \<Rightarrow> Ok (Some (DBounded n e), ms) | None \<Rightarrow>
     res_bind (get_attribute_with_option (parse_size S) ms ''dynamic'' True) (\<lambda>(dynamic, ms).
     case dynamic of Some p \<Rightarrow> Ok (Some (DDynamic p e), ms) | None \<Rightarrow> Ok (None, ms))))"

lemma get_attribute_shorter: "get_attribute ms name = (Some m, ms') \<Longrightarrow> length ms' < length ms"
  by (auto simp: get_attribute_def split: if_splits)

lemma get_attribute_none: "get_attribute ms name = (None, ms') \<Longrightarrow> ms' = ms"
  by (auto simp: get_attribute_def split: if_splits)

lemma with_param_shorter:
  "get_attribute_with_param parse ms name d = Ok (Some x, ms') \<Longrightarrow> length ms' < length ms"
  "get_attribute_with_param parse ms name d = Ok (None, ms') \<Longrightarrow> ms' = ms"
  by (auto simp: get_attribute_with_param_def get_attribute_shorter get_attribute_none
      split: prod.splits option.splits)

lemma with_option_shorter:
  "get_attribute_with_option parse ms name d = Ok (Some x, ms') \<Longrightarrow> length ms' < length ms"
  "get_attribute_with_option parse ms name d = Ok (None, ms') \<Longrightarrow> ms' = ms"
  by (auto simp: get_attribute_with_option_def get_attribute_shorter get_attribute_none
      split: prod.splits option.splits)

lemma no_param_shorter:
  "get_attribute_no_param ms name = Ok (True, ms') \<Longrightarrow> length ms' < length ms"
  "get_attribute_no_param ms name = Ok (False, ms') \<Longrightarrow> ms' = ms"
  by (auto simp: get_attribute_no_param_def get_attribute_shorter get_attribute_none
      split: prod.splits option.splits meta.splits)

lemma bounded_attribute_shorter:
  "bounded_attribute S ms e = Ok (Some e', ms') \<Longrightarrow> length ms' < length ms"
  "bounded_attribute S ms e = Ok (None, ms') \<Longrightarrow> ms' = ms"
  by (auto simp: bounded_attribute_def split: option.splits
      dest!: with_param_shorter with_option_shorter)

lemma res_bind_cong [fundef_cong]:
  "m = m' \<Longrightarrow> (\<And>a. m' = Ok a \<Longrightarrow> f a = g a) \<Longrightarrow> res_bind m f = res_bind m' g"
  by (cases m') auto

function make_bounded_encoding :: "syn \<Rightarrow> meta list \<Rightarrow> denc \<Rightarrow> (denc \<times> meta list) made" where
  "make_bounded_encoding S ms e =
     (if ms = [] then Ok (e, ms)
      else res_bind (bounded_attribute S ms e) (\<lambda>(r, ms').
        case r of Some e' \<Rightarrow> make_bounded_encoding S ms' e' | None \<Rightarrow> Ok (e, ms')))"
  by pat_completeness auto
termination
  by (relation "measure (\<lambda>(S, ms, e). length ms)") (auto dest: bounded_attribute_shorter)

declare make_bounded_encoding.simps [simp del]

definition make_list_encoding_from_meta :: "syn \<Rightarrow> meta list \<Rightarrow> denc \<Rightarrow> (denc \<times> meta list) made" where
  "make_list_encoding_from_meta S ms e =
     res_bind (get_attribute_with_option (parse_size S) ms ''list'' True) (\<lambda>(l, ms).
       Ok (case l of Some p \<Rightarrow> DList p e | None \<Rightarrow> e, ms))"

definition make_optional_field_encoding_from_meta :: "meta list \<Rightarrow> denc \<Rightarrow> (denc \<times> meta list) made" where
  "make_optional_field_encoding_from_meta ms e =
     res_bind (get_attribute_no_param ms ''option'') (\<lambda>(opt, ms). Ok (if opt then DOptionField e else e, ms))"

definition get_basic_encoding_from_meta :: "syn \<Rightarrow> meta list \<Rightarrow> (denc option \<times> meta list) made" where
  "get_basic_encoding_from_meta S ms =
     res_bind (get_attribute_no_param ms ''string'') (\<lambda>(bytes, ms).
     if bytes then Ok (Some DBytes, ms) else
     res_bind (get_attribute_with_option (parse_size S) ms ''string'' True) (\<lambda>(string, ms).
     case string of Some p \<Rightarrow> Ok (Some (DString p), ms) | None \<Rightarrow>
     res_bind (get_attribute_no_param ms ''zarith'') (\<lambda>(zarith, ms).
     if zarith then Ok (Some DZarith, ms) else
     res_bind (get_attribute_no_param ms ''mutez'') (\<lambda>(mutez, ms).
     if mutez then Ok (Some DMuTez, ms) else
     res_bind (get_attribute_with_param (parse_primitive S) ms ''builtin'' True) (\<lambda>(builtin, ms).
     case builtin of Some p \<Rightarrow> Ok (Some (DPrimitive p), ms) | None \<Rightarrow> Ok (None, ms))))))"

definition make_basic_encoding_from_meta :: "syn \<Rightarrow> meta list \<Rightarrow> (denc \<times> meta list) made" where
  "make_basic_encoding_from_meta S ms =
     res_bind (get_basic_encoding_from_meta S ms) (\<lambda>(e, ms).
       case e of Some e \<Rightarrow> Ok (e, ms) | None \<Rightarrow> Err ''No basic encoding specified'')"

definition composite_round :: "syn \<Rightarrow> meta list \<Rightarrow> denc \<Rightarrow> (denc \<times> meta list) made" where
  \<comment> \<open>one round of the loop of \<open>make_composite_encoding\<close>\<close>
  "composite_round S ms e =
     res_bind (make_bounded_encoding S ms e) (\<lambda>(e, ms).
     res_bind (make_list_encoding_from_meta S ms e) (\<lambda>(e, ms).
       make_optional_field_encoding_from_meta ms e))"

lemma make_bounded_le: "make_bounded_encoding S ms e = Ok (e', ms') \<Longrightarrow> length ms' \<le> length ms"
proof (induction S ms e rule: make_bounded_encoding.induct)
  case (1 S ms e)
  show ?case
  proof (cases "ms = []")
    case False
    with 1 obtain r m where r: "bounded_attribute S ms e = Ok (r, m)"
      "(case r of Some e' \<Rightarrow> make_bounded_encoding S m e' | None \<Rightarrow> Ok (e, m)) = Ok (e', ms')"
      by (auto simp: make_bounded_encoding.simps [of S ms e])
    with 1(1) [OF False r(1) refl] bounded_attribute_shorter r(1) show ?thesis
      by (fastforce split: option.splits)
  qed (use 1 in \<open>simp add: make_bounded_encoding.simps\<close>)
qed

lemma composite_round_le: "composite_round S ms e = Ok (e', ms') \<Longrightarrow> length ms' \<le> length ms"
proof -
  assume "composite_round S ms e = Ok (e', ms')"
  then obtain e1 m1 l m2 opt where "make_bounded_encoding S ms e = Ok (e1, m1)"
    "get_attribute_with_option (parse_size S) m1 ''list'' True = Ok (l, m2)"
    "get_attribute_no_param m2 ''option'' = Ok (opt, ms')"
    by (auto simp: composite_round_def make_list_encoding_from_meta_def
        make_optional_field_encoding_from_meta_def)
  moreover have "length m2 \<le> length m1"
    using calculation(2) with_option_shorter by (cases l) fastforce+
  moreover have "length ms' \<le> length m2"
    using calculation(3) no_param_shorter by (cases opt) fastforce+
  ultimately show ?thesis using make_bounded_le [of S ms e e1 m1] by linarith
qed

function composite_loop :: "syn \<Rightarrow> meta list \<Rightarrow> denc \<Rightarrow> denc made" where
  "composite_loop S ms e =
     res_bind (composite_round S ms e) (\<lambda>(e', ms').
       if length ms' = length ms then res_bind (assert_empty_meta ms') (\<lambda>_. Ok e')
       else composite_loop S ms' e')"
  by pat_completeness auto
termination
  by (relation "measure (\<lambda>(S, ms, e). length ms)") (auto dest: composite_round_le)

declare composite_loop.simps [simp del]

definition make_composite_encoding :: "syn \<Rightarrow> meta list \<Rightarrow> denc made" where
  "make_composite_encoding S ms =
     res_bind (make_basic_encoding_from_meta S ms) (\<lambda>(e, ms). composite_loop S ms e)"

section \<open>Encodings from types\<close>

definition assert_builtin_encoding :: "syn \<Rightarrow> meta list \<Rightarrow> prim_encoding \<Rightarrow> meta list made" where
  "assert_builtin_encoding S ms kind =
     res_bind (get_attribute_with_param (parse_primitive S) ms ''builtin'' True) (\<lambda>(builtin, ms).
     case builtin of
       Some p \<Rightarrow> if kind \<noteq> p then Err ''Built-in encoding does not match the type'' else Ok ms
     | None \<Rightarrow>
         (case get_attribute ms ''string'' of
            (Some _, ms) \<Rightarrow> Err ''String encoding can be used only with `String` type''
          | (None, ms) \<Rightarrow> Ok ms))"

definition type_name :: "string list \<Rightarrow> string \<Rightarrow> string" where
  "type_name segs ident = concat (map (\<lambda>s. s @ ''::'') segs) @ ident"

definition make_basic_encoding_from_type ::
  "syn \<Rightarrow> string list \<Rightarrow> string \<Rightarrow> meta list \<Rightarrow> (denc \<times> meta list) made" where
  "make_basic_encoding_from_type S segs ident ms =
     (if ident = ''String'' then
        res_bind (get_attribute_with_option (parse_size S) ms ''string'' True) (\<lambda>(string, ms).
          make_bounded_encoding S ms (DString (Option.bind string (\<lambda>p. p))))
      else if ident = ''i64'' \<and> has_attribute ms ''timestamp'' then
        res_bind (get_attribute_no_param ms ''timestamp'') (\<lambda>(timestamp, ms).
          if timestamp then make_bounded_encoding S ms (DPrimitive PTimestamp) else Panic)
      else case get_rust_to_primitive_mapping ident of
        Some mapped \<Rightarrow>
          res_bind (assert_builtin_encoding S ms mapped) (\<lambda>ms.
            make_bounded_encoding S ms (DPrimitive mapped))
      | None \<Rightarrow>
          res_bind (get_attribute_with_param (parse_primitive S) ms ''builtin'' True) (\<lambda>(builtin, ms).
          case builtin of
            Some p \<Rightarrow> make_bounded_encoding S ms (DPrimitive p)
          | None \<Rightarrow>
              res_bind (get_composite_meta ms) (\<lambda>(composite, ms).
              case composite of
                Some inner \<Rightarrow> res_bind (make_composite_encoding S inner) (\<lambda>e. Ok (e, ms))
              | None \<Rightarrow> make_bounded_encoding S ms (DPath (type_name segs ident)))))"

definition make_list_encoding_from_type :: "syn \<Rightarrow> meta list \<Rightarrow> denc \<Rightarrow> (denc \<times> meta list) made" where
  "make_list_encoding_from_type S ms e =
     res_bind (get_attribute_no_param ms ''bytes'') (\<lambda>(bytes, ms).
     if bytes then
       (if e = DPrimitive PUint8 then Ok (DBytes, ms)
        else Err ''Incompatible type for `bytes` encoding'')
     else
       res_bind (get_attribute_with_option (parse_size S) ms ''list'' True) (\<lambda>(l, ms).
         Ok (DList (Option.bind l (\<lambda>p. p)) e, ms)))"

definition make_optional_field_encoding_from_type :: "meta list \<Rightarrow> denc \<Rightarrow> (denc \<times> meta list) made" where
  "make_optional_field_encoding_from_type ms e =
     res_bind (get_attribute_no_param ms ''option'') (\<lambda>(_, ms). Ok (DOptionField e, ms))"

fun make_type_encoding :: "syn \<Rightarrow> ty \<Rightarrow> meta list \<Rightarrow> (denc \<times> meta list) made" where
  "make_type_encoding S (TyPath segs ident NoArgs) ms = make_basic_encoding_from_type S segs ident ms"
| "make_type_encoding S (TyPath segs ident (AngleArgs [GType ty])) ms =
     res_bind (make_type_encoding S ty ms) (\<lambda>(inner, ms).
     res_bind (if ident = ''Vec'' then make_list_encoding_from_type S ms inner
               else if ident = ''Option'' then make_optional_field_encoding_from_type ms inner
               else Err ''Only `Vec<_>` and `Option<_>` are supported'') (\<lambda>(e, ms).
       make_bounded_encoding S ms e))"
| "make_type_encoding S (TyPath segs ident (AngleArgs [GOther])) ms =
     Err ''Only type generic parameters supported''"
| "make_type_encoding S (TyPath segs ident (AngleArgs args)) ms = Err ''Expected single argument''"
| "make_type_encoding S (TyPath segs ident OtherArgs) ms =
     Err ''Only angle-bracketed generic arguments are supported''"
| "make_type_encoding S TyOther ms = Err ''Unsupported type''"

section \<open>Structs and enums\<close>

definition make_field :: "syn \<Rightarrow> sfield \<Rightarrow> (string \<times> denc option) made" where
  "make_field S f =
     res_bind (get_encoding_meta (sfield_attrs f)) (\<lambda>ms.
     if skip_field ms then Ok (sfield_ident f, None)
     else
       res_bind (make_type_encoding S (sfield_ty f) ms) (\<lambda>(e, ms).
       res_bind (make_bounded_encoding S ms e) (\<lambda>(e, ms).
       res_bind (assert_empty_meta ms) (\<lambda>_. Ok (sfield_ident f, Some e)))))"

fun make_fields :: "syn \<Rightarrow> sfield list \<Rightarrow> (string \<times> denc option) list made" where
  "make_fields S [] = Ok []"
| "make_fields S (f # fs) =
     res_bind (make_field S f) (\<lambda>e. res_bind (make_fields S fs) (\<lambda>es. Ok (e # es)))"

definition make_struct_encoding :: "syn \<Rightarrow> fields \<Rightarrow> string \<Rightarrow> denc made" where
  "make_struct_encoding S data_fields name =
     (case data_fields of
        NamedFields fs \<Rightarrow> res_bind (make_fields S fs) (\<lambda>es. Ok (DStruct name es))
      | _ \<Rightarrow> Err ''Only structures with named fields supported'')"

text \<open>
  The literal of a tag becomes a \<^verbatim>\<open>u16\<close> in the generated code; one out of range does not compile. The
  running default is a \<^verbatim>\<open>u16\<close> too and overflows after \<open>2\<^sup>1\<^sup>6\<close> variants.
\<close>

definition tag_literal :: "nat \<Rightarrow> u16 made" where
  "tag_literal n = (if n < 2 ^ 16 then Ok (word_of_nat n) else Err ''literal out of range for `u16`'')"

definition make_tag :: "syn \<Rightarrow> variant \<Rightarrow> meta list \<Rightarrow> u16 \<Rightarrow> (u16 \<times> string \<times> denc) made" where
  "make_tag S v ms default_id =
     (case get_attribute_value ms ''tag'' of (l, ms) \<Rightarrow>
     res_bind (case l of
         None \<Rightarrow> Ok default_id
       | Some (LitInt n) \<Rightarrow> tag_literal n
       | Some _ \<Rightarrow> Err ''Integer literal expected'') (\<lambda>i.
     res_bind (case variant_fields v of
         NamedFields _ \<Rightarrow> Err ''Named fields are not supported for enums''
       | UnnamedFields [TyPath segs ident args] \<Rightarrow> Ok (DPath (type_name segs ident))
       | UnnamedFields [TyOther] \<Rightarrow> Err ''Unsupported type for enum variant''
       | UnnamedFields _ \<Rightarrow> Err ''Only single field is supported''
       | UnitFields \<Rightarrow> Ok DUnit) (\<lambda>e.
       Ok (i, variant_ident v, e))))"

fun make_tags_from :: "syn \<Rightarrow> u16 \<Rightarrow> variant list \<Rightarrow> (u16 \<times> string \<times> denc) list made" where
  "make_tags_from S default_id [] = Ok []"
| "make_tags_from S default_id (v # vs) =
     res_bind (get_encoding_meta (variant_attrs v)) (\<lambda>ms.
     res_bind (make_tag S v ms default_id) (\<lambda>t.
     if unat default_id = 2 ^ 16 - 1 then Panic
     else res_bind (make_tags_from S (default_id + 1) vs) (\<lambda>ts. Ok (t # ts))))"

definition make_tags :: "syn \<Rightarrow> variant list \<Rightarrow> (u16 \<times> string \<times> denc) list made" where
  "make_tags S vs = make_tags_from S 0 vs"

text \<open>
  The macro passes any tag type on to the generated code; the types of the program use \<^verbatim>\<open>u8\<close> and \<^verbatim>\<open>u16\<close>, the
  only ones the writer supports, and the model stops at the others.
\<close>

definition tag_type_of :: "string \<Rightarrow> tag_type made" where
  "tag_type_of ident =
     (if ident = ''u8'' then Ok TagU8 else if ident = ''u16'' then Ok TagU16
      else Err ''tag type outside of the model'')"

definition make_enum_encoding :: "syn \<Rightarrow> variant list \<Rightarrow> string \<Rightarrow> meta list \<Rightarrow> (denc \<times> meta list) made" where
  "make_enum_encoding S vs name ms =
     res_bind (get_attribute_no_param ms ''ignore_unknown'') (\<lambda>(ignore_unknown, ms).
     res_bind (get_attribute_value_parsed (parse_ident S) ms ''tags'') (\<lambda>(tags, ms).
     res_bind (make_tags S vs) (\<lambda>ts.
     res_bind (tag_type_of (case tags of Some i \<Rightarrow> i | None \<Rightarrow> ''u8'')) (\<lambda>tt.
       Ok (DEnum name tt ignore_unknown ts, ms)))))"

definition make_data_with_encoding :: "syn \<Rightarrow> sdata \<Rightarrow> string \<Rightarrow> meta list \<Rightarrow> denc made" where
  "make_data_with_encoding S d name ms =
     res_bind (case d of
         DataStruct fs \<Rightarrow> res_bind (make_struct_encoding S fs name) (\<lambda>e. Ok (e, ms))
       | DataEnum vs \<Rightarrow> make_enum_encoding S vs name ms
       | DataUnion \<Rightarrow> Err ''`union` is not supported'') (\<lambda>(e, ms).
     res_bind (make_bounded_encoding S ms e) (\<lambda>(e, ms).
     res_bind (assert_empty_meta ms) (\<lambda>_. Ok e)))"

definition make_encoding :: "syn \<Rightarrow> derive_input \<Rightarrow> denc made" where
  "make_encoding S input =
     res_bind (get_encoding_meta (di_attrs input)) (\<lambda>ms.
       make_data_with_encoding S (di_data input) (di_ident input) ms)"

lemmas make_defs = make_encoding_def make_data_with_encoding_def make_struct_encoding_def make_field_def
  skip_field_def make_basic_encoding_from_type_def get_rust_to_primitive_mapping_def
  RUST_TO_PRIMITIVE_MAPPING_def get_attribute_with_param_def get_attribute_with_option_def
  get_attribute_no_param_def get_attribute_def has_attribute_def get_composite_meta_def
  get_value_parsed_def parse_value_def is_symbol_def make_bounded_encoding.simps bounded_attribute_def
  make_list_encoding_from_type_def make_optional_field_encoding_from_type_def assert_empty_meta_def
  assert_builtin_encoding_def make_composite_encoding_def composite_loop.simps composite_round_def
  make_basic_encoding_from_meta_def get_basic_encoding_from_meta_def make_list_encoding_from_meta_def
  make_optional_field_encoding_from_meta_def type_name_def make_enum_encoding_def make_tags_def
  make_tag_def tag_literal_def tag_type_of_def get_attribute_value_def get_attribute_value_parsed_def

lemma composite_loop_Nil [simp]: "composite_loop S [] e = Ok e"
  by (subst composite_loop.simps)
    (simp add: composite_round_def make_bounded_encoding.simps make_list_encoding_from_meta_def
      make_optional_field_encoding_from_meta_def get_attribute_with_option_def get_attribute_no_param_def
      get_attribute_def assert_empty_meta_def)

section \<open>Properties\<close>

text \<open>
  The attribute \<^verbatim>\<open>composite(...)\<close> cannot describe a string: the front end asks for the name \<^verbatim>\<open>string\<close> where it
  makes a byte encoding, so \<^verbatim>\<open>string\<close> gives bytes, \<^verbatim>\<open>string\<close> with a bound is a compile error, and \<^verbatim>\<open>bytes\<close> is not
  recognised.
\<close>

theorem composite_string_is_bytes:
  "make_composite_encoding S [MPath [''string'']] = Ok DBytes
    \<and> (\<exists>e. make_composite_encoding S [MNameValue [''string''] l] = Err e)
    \<and> (\<exists>e. make_composite_encoding S [MPath [''bytes'']] = Err e)
    \<and> get_basic_encoding_from_meta S ms \<noteq> Ok (Some (DString p), ms')"
proof -
  have "get_attribute_no_param [MNameValue [''string''] l] ''string'' = Err ''Parameter is unexpected''"
    by (simp add: make_defs)
  moreover have "get_attribute_with_option (parse_size S) ms'' ''string'' True = Ok (None, ms'')"
    if "get_attribute_no_param ms ''string'' = Ok (False, ms'')" for ms''
    using that
    by (auto simp: get_attribute_no_param_def get_attribute_with_option_def get_attribute_def
        split: if_splits meta.splits)
  then have "get_basic_encoding_from_meta S ms \<noteq> Ok (Some (DString p), ms')"
    by (auto simp: get_basic_encoding_from_meta_def split: if_splits option.splits)
  moreover have "make_composite_encoding S [MPath [''string'']] = Ok DBytes"
    by (simp add: make_composite_encoding_def make_basic_encoding_from_meta_def
        get_basic_encoding_from_meta_def get_attribute_no_param_def get_attribute_def is_symbol_def)
  moreover have "make_composite_encoding S [MPath [''bytes'']] = Err ''No basic encoding specified''"
    by (simp add: make_composite_encoding_def make_basic_encoding_from_meta_def
        get_basic_encoding_from_meta_def get_attribute_no_param_def get_attribute_with_option_def
        get_attribute_with_param_def get_attribute_def is_symbol_def)
  ultimately show ?thesis
    by (simp add: make_composite_encoding_def make_basic_encoding_from_meta_def get_basic_encoding_from_meta_def)
qed

end
