(* ===== verification/Roundtrip.thy ===== *)
theory Roundtrip
  imports Derive
begin

text \<open>
  Round trips of derived codecs: what the writer of \<open>Binary_Writer\<close> makes of a value of a type, the reader generated for the type by \<open>Derive\<close> gives
  back. The combinators of the schemas are classified by whether their bytes delimit themselves or
  extend to the end of the input.
\<close>

section \<open>Round trips of a type\<close>

definition encodes :: "num_ser \<Rightarrow> (bytes \<Rightarrow> bytes option) \<Rightarrow> rtype \<Rightarrow> rust \<Rightarrow> bytes \<Rightarrow> bool" where
  "encodes K z T r bs \<longleftrightarrow>
     t_values T r \<and> (\<exists>v. serialize K r = Ok v \<and> enc z v (t_encoding T) = Some bs)"

definition delim_ok :: "num_ser \<Rightarrow> (bytes \<Rightarrow> bytes option) \<Rightarrow> rtype \<Rightarrow> bool" where
  "delim_ok K z T \<longleftrightarrow> (\<forall>r bs rest. encodes K z T r bs \<longrightarrow> t_nom_read T (bs @ rest) = Ok (rest, r))"

definition final_ok :: "num_ser \<Rightarrow> (bytes \<Rightarrow> bytes option) \<Rightarrow> rtype \<Rightarrow> bool" where
  "final_ok K z T \<longleftrightarrow> (\<forall>r bs. encodes K z T r bs \<longrightarrow> t_nom_read T bs = Ok ([], r))"

definition item_ok :: "num_ser \<Rightarrow> (bytes \<Rightarrow> bytes option) \<Rightarrow> rtype \<Rightarrow> bool" where
  "item_ok K z T \<longleftrightarrow> delim_ok K z T \<and> (\<forall>r. \<not> encodes K z T r []) \<and> (\<exists>e. t_nom_read T [] = Err (Error e))"

datatype kind = Item | Delim | Final | NoRT

definition is_delim :: "kind \<Rightarrow> bool" where "is_delim k \<longleftrightarrow> k = Item \<or> k = Delim"
definition is_final :: "kind \<Rightarrow> bool" where "is_final k \<longleftrightarrow> k \<noteq> NoRT"

fun rt :: "num_ser \<Rightarrow> (bytes \<Rightarrow> bytes option) \<Rightarrow> rtype \<Rightarrow> kind \<Rightarrow> bool" where
  "rt K z T Item = item_ok K z T"
| "rt K z T Delim = delim_ok K z T"
| "rt K z T Final = final_ok K z T"
| "rt K z T NoRT = True"

text \<open>How the kinds of the parts combine.\<close>

definition opt_kind :: "kind \<Rightarrow> kind" where
  "opt_kind k = (if is_delim k then Item else k)"

definition skip_kind :: "kind \<Rightarrow> kind" where
  "skip_kind r = (if is_delim r then Delim else r)"

definition seq_kind :: "kind \<Rightarrow> kind \<Rightarrow> bool \<Rightarrow> kind" where
  "seq_kind k r is_last =
     (if is_delim k then if is_delim r then (if k = Item then Item else Delim) else r
      else if is_last then k else NoRT)"

definition tag_kind :: "bool \<Rightarrow> kind \<Rightarrow> kind \<Rightarrow> kind" where
  "tag_kind unit_tag k r =
     (if unit_tag \<or> is_delim k then r else if is_final k \<and> is_final r then Final else NoRT)"

definition enum_kind :: "kind \<Rightarrow> kind" where
  "enum_kind k = (if k = Delim then Item else k)"

fun shape :: "(string \<Rightarrow> kind) \<Rightarrow> denc \<Rightarrow> kind"
  and fields_shape :: "(string \<Rightarrow> kind) \<Rightarrow> (string \<times> denc option) list \<Rightarrow> kind"
  and tags_shape :: "(string \<Rightarrow> kind) \<Rightarrow> (u16 \<times> string \<times> denc) list \<Rightarrow> kind" where
  "shape ks DUnit = NoRT"
| "shape ks (DPrimitive p) = Item"
| "shape ks DBytes = Final"
| "shape ks (DPath p) = ks p"
| "shape ks DZarith = NoRT"
| "shape ks DMuTez = NoRT"
| "shape ks (DString sz) = Item"
| "shape ks (DStruct name fs) = (if distinct (map fst fs) then fields_shape ks fs else NoRT)"
| "shape ks (DEnum name tt ignore_unknown tags) =
     (if distinct (map fst tags) \<and> distinct (map (\<lambda>t. fst (snd t)) tags)
         \<and> (tt = TagU16 \<or> list_all (\<lambda>t. unat (fst t) < 256) tags)
      then enum_kind (tags_shape ks tags) else NoRT)"
| "shape ks (DOptionField e) = opt_kind (shape ks e)"
| "shape ks (DList sz e) = (if shape ks e = Item then Final else NoRT)"
| "shape ks (DSized m e) = (if is_final (shape ks e) then if 0 < m then Item else Delim else NoRT)"
| "shape ks (DBounded m e) = shape ks e"
| "shape ks (DDynamic sz e) = (if is_final (shape ks e) then Item else NoRT)"
| "fields_shape ks [] = Delim"
| "fields_shape ks ((f, None) # fs) = skip_kind (fields_shape ks fs)"
| "fields_shape ks ((f, Some e) # fs) = seq_kind (shape ks e) (fields_shape ks fs) (fs = [])"
| "tags_shape ks [] = Delim"
| "tags_shape ks ((i, name, e) # tags) = tag_kind (e = DUnit) (shape ks e) (tags_shape ks tags)"

lemmas kind_defs = opt_kind_def skip_kind_def seq_kind_def tag_kind_def enum_kind_def

lemma kind_table:
  "is_delim Item" "is_delim Delim" "\<not> is_delim Final" "\<not> is_delim NoRT"
  "is_final Item" "is_final Delim" "is_final Final" "\<not> is_final NoRT"
  "seq_kind Item Item l = Item" "seq_kind Item Delim l = Item" "seq_kind Item Final l = Final"
  "seq_kind Delim Item l = Delim" "seq_kind Delim Delim l = Delim" "seq_kind Delim Final l = Final"
  "seq_kind Final r True = Final" "opt_kind Item = Item" "opt_kind Delim = Item" "opt_kind Final = Final"
  "tag_kind True k r = r" "tag_kind u Item r = r" "tag_kind u Delim r = r"
  "tag_kind False Final Item = Final" "tag_kind False Final Delim = Final" "tag_kind False Final Final = Final"
  "enum_kind Item = Item" "enum_kind Delim = Item" "enum_kind Final = Final"
  by (simp_all add: kind_defs is_delim_def is_final_def)

section \<open>Lemmas\<close>

lemma encodesI:
  "t_values T r \<Longrightarrow> serialize K r = Ok v \<Longrightarrow> enc z v (t_encoding T) = Some bs \<Longrightarrow> encodes K z T r bs"
  by (auto simp: encodes_def)

lemma delim_okD: "delim_ok K z T \<Longrightarrow> encodes K z T r bs \<Longrightarrow> t_nom_read T (bs @ rest) = Ok (rest, r)"
  by (simp add: delim_ok_def)

lemma item_okI:
  assumes "\<And>r bs rest. encodes K z T r bs \<Longrightarrow> bs \<noteq> [] \<and> t_nom_read T (bs @ rest) = Ok (rest, r)"
    and "\<exists>e. t_nom_read T [] = Err (Error e)"
  shows "item_ok K z T"
  using assms(1) [of _ "[]"] assms by (auto simp: item_ok_def delim_ok_def)

lemma final_okD: "final_ok K z T \<Longrightarrow> encodes K z T r bs \<Longrightarrow> t_nom_read T bs = Ok ([], r)"
  by (simp add: final_ok_def)

lemma rt_delim: "rt K z T k \<Longrightarrow> is_delim k \<Longrightarrow> delim_ok K z T"
  by (cases k) (auto simp: is_delim_def item_ok_def)

lemma rt_final: "rt K z T k \<Longrightarrow> is_final k \<Longrightarrow> final_ok K z T"
  by (cases k) (auto simp: is_final_def item_ok_def final_ok_def dest: delim_okD [where rest = "[]"])

lemma derive_sel [simp]:
  "t_encoding (derive N C W I G d) = generate_encoding G d"
  "t_nom_read (derive N C W I G d) = generate_nom_read N C W I G d"
  "t_values (derive N C W I G d) = has_type G d"
  by (simp_all add: derive_def)

lemma represent_Ok [simp]: "represent f p i = Ok (r, x) \<longleftrightarrow> (\<exists>b. p i = Ok (r, b) \<and> x = f b)"
  by (auto simp: represent_def)

lemma represent_Err [simp]: "represent f p i = Err e \<longleftrightarrow> p i = Err e"
  by (cases "p i") (auto simp: represent_def)

lemma read_be_append:
  "length a = n \<Longrightarrow> read_be n (a @ rest) = Ok (rest, word_of_nat (from_be a))"
  by (simp add: read_be_def)

lemma read_be_Nil: "0 < n \<Longrightarrow> read_be n [] = Err (Error (from_error_kind [] KEof))"
  by (simp add: read_be_def)

lemma read_be_words [simp]:
  "read_be (Suc 0) (b # rest) = Ok (rest, b)"
  "read_be 2 (to_be16 h @ rest) = Ok (rest, h)"
  "read_be 4 (to_be32 w @ rest) = Ok (rest, w)"
  "read_be 8 (to_be64 q @ rest) = Ok (rest, q)"
  using from_be_snoc [of "[]" b] by (simp_all add: read_be_append) (simp add: read_be_def)


lemma to_be_not_Nil [simp]: "to_be16 h \<noteq> []" "to_be32 w \<noteq> []" "to_be64 q \<noteq> []"
  by (metis length_to_be list.size(3) zero_neq_numeral)+

lemma concat_opts_Some:
  "concat_opts xs = Some bs \<longleftrightarrow> (\<exists>bss. xs = map Some bss \<and> bs = concat bss)"
proof (induction xs arbitrary: bs)
  case (Cons x xs)
  show ?case
  proof
    assume "concat_opts (x # xs) = Some bs"
    then obtain a b where "x = Some a" "concat_opts xs = Some b" "bs = a @ b"
      by (auto simp: bind_eq_Some_conv)
    moreover from this(2) Cons.IH obtain bss where "xs = map Some bss" "b = concat bss" by blast
    ultimately show "\<exists>bss. x # xs = map Some bss \<and> bs = concat bss"
      by (intro exI [of _ "a # bss"]) simp
  next
    assume "\<exists>bss. x # xs = map Some bss \<and> bs = concat bss"
    then obtain a bss where "x = Some a" "xs = map Some bss" "bs = a @ concat bss"
      by (auto simp: Cons_eq_map_conv)
    with Cons.IH [of "concat bss"] show "concat_opts (x # xs) = Some bs" by auto
  qed
qed auto

lemma map_VUint8_eq [simp]: "map VUint8 a = map VUint8 b \<longleftrightarrow> a = b"
  by (simp add: inj_map_eq_map inj_def)

lemma all_u8: "list_all is_u8 rs \<longleftrightarrow> (\<exists>bs. rs = map RU8 bs)"
proof (induction rs)
  case (Cons r rs)
  then show ?case by (cases r) (auto simp: is_u8_def Cons_eq_map_conv)
qed simp

lemma unat_length32: "length s < 2 ^ 32 \<Longrightarrow> unat (word_of_nat (length s) :: u32) = length s"
  by (simp add: unat_of_nat take_bit_nat_eq_self_iff)

lemma find_value_distinct:
  "distinct (map fst ws) \<Longrightarrow> (n, w) \<in> set ws \<Longrightarrow> find_value_in_record_values n ws = Some w"
  by (induction n ws rule: find_value_in_record_values.induct) (auto simp: image_iff)

lemma serialize_fields_names: "serialize_fields K vs = Ok ws \<Longrightarrow> map fst ws = map fst vs"
proof (induction vs arbitrary: ws)
  case (Cons a vs)
  then show ?case by (cases a) auto
qed simp

lemma generate_tag_encodings_map:
  "generate_tag_encodings G tags = map (\<lambda>(i, name, e). Tag i name (generate_encoding G e)) tags"
proof (induction tags)
  case (Cons t tags)
  then show ?case by (cases t) simp
qed simp

lemma case_not_unit:
  "e \<noteq> DUnit \<Longrightarrow> (case e of DUnit \<Rightarrow> a | _ \<Rightarrow> b) = b"
  by (cases e) simp_all

lemma hash_size_nonzero [simp]: "hash_size ht \<noteq> 0"
  by (cases ht) simp_all

lemma ucast_u8_u16: "unat (i :: u16) < 256 \<Longrightarrow> (ucast (ucast i :: u8) :: u16) = i"
  by (simp add: word_unat_eq_iff unsigned_ucast_eq unsigned_take_bit_eq take_bit_nat_eq_self_iff)

lemma fields_have_type_names: "fields_have_type G name fs vs \<Longrightarrow> map fst vs = map fst fs"
proof (induction fs arbitrary: vs)
  case (Cons a fs)
  then show ?case by (cases a; cases "snd a") (auto split: list.splits)
qed simp

lemma variant_has_typeD:
  "variant_has_type G name idx tags r \<Longrightarrow>
   (\<exists>i v j. (i, v, DUnit) \<in> set tags \<and> r = RUnitVariant name j v)
   \<or> (\<exists>i v e j x. (i, v, e) \<in> set tags \<and> e \<noteq> DUnit \<and> r = RNewtypeVariant name j v x \<and> has_type G e x)"
proof (induction tags arbitrary: idx)
  case (Cons t tags)
  obtain i v e where t: "t = (i, v, e)" by (cases t)
  show ?case
  proof (cases "variant_has_type G name (idx + 1) tags r")
    case True
    from Cons.IH [OF True] show ?thesis unfolding list.set insert_iff by blast
  next
    case False
    show ?thesis
    proof (cases "e = DUnit")
      case True
      with False Cons.prems(1) t show ?thesis by auto
    next
      case nu: False
      with False Cons.prems(1) t obtain x where "r = RNewtypeVariant name idx v x" "has_type G e x"
        by (cases r) (auto simp: case_not_unit)
      with nu t show ?thesis by auto
    qed
  qed
qed simp

lemma find_tag:
  assumes "(i, v, e) \<in> set tags" and "distinct (map fst tags)" and "distinct (map (\<lambda>t. fst (snd t)) tags)"
  shows "find_by_variant (tag_map_new (generate_tag_encodings G tags)) v = Some (Tag i v (generate_encoding G e))"
proof -
  have "find_by_variant (tag_map_new (generate_tag_encodings G tags)) (tag_variant (Tag i v (generate_encoding G e)))
      = Some (Tag i v (generate_encoding G e))"
  proof (rule find_by_variant_new)
    show "Tag i v (generate_encoding G e) \<in> set (generate_tag_encodings G tags)"
      using assms(1) by (force simp: generate_tag_encodings_map)
  qed (use assms(2,3) in \<open>simp_all add: generate_tag_encodings_map o_def case_prod_unfold\<close>)
  then show ?thesis by simp
qed

lemma encodes_enum:
  assumes "encodes K z (derive N C W I G (DEnum name tt ign tags)) r bs"
    and dist: "distinct (map fst tags)" "distinct (map (\<lambda>t. fst (snd t)) tags)"
  obtains i v a where "(i, v, DUnit) \<in> set tags" "tag_bytes (size_of_tag_type tt) i = Some a" "bs = a"
  | i v e x a b where "(i, v, e) \<in> set tags" "e \<noteq> DUnit" "tag_bytes (size_of_tag_type tt) i = Some a"
      "encodes K z (derive N C W I G e) x b" "bs = a @ b"
proof -
  have "variant_has_type G name 0 tags r" using assms(1) by (simp add: encodes_def)
  from variant_has_typeD [OF this] show ?thesis
  proof (elim disjE exE conjE)
    fix i v j
    assume "(i, v, DUnit) \<in> set tags" "r = RUnitVariant name j v"
    with assms(1) find_tag [OF this(1) dist, of G] that(1) show ?thesis
      by (auto simp: encodes_def)
  next
    fix i v e j x
    assume *: "(i, v, e) \<in> set tags" "e \<noteq> DUnit" "r = RNewtypeVariant name j v x" "has_type G e x"
    with assms(1) find_tag [OF this(1) dist, of G] obtain a b where
      "tag_bytes (size_of_tag_type tt) i = Some a" "encodes K z (derive N C W I G e) x b" "bs = a @ b"
      by (auto simp: encodes_def bind_eq_Some_conv)
    with * that(2) show ?thesis by blast
  qed
qed

lemma encodes_fields:
  assumes "fields_have_type G name fs vs" and "serialize_fields K vs = Ok ws" and "list_all (\<lambda>f. snd f \<noteq> None) fs"
    and "\<And>n w. (n, w) \<in> set ws \<Longrightarrow> find_value_in_record_values n ws' = Some w"
    and "concat_opts (map (field_bytes z ws') (generate_field_encodings G fs)) = Some bs"
  shows "\<exists>bss. list_all2 (\<lambda>f b. \<exists>x. encodes K z (derive N C W I G (the (snd f))) x b) fs bss \<and> bs = concat bss"
  using assms
proof (induction fs arbitrary: vs ws bs)
  case (Cons a fs)
  obtain f e where a: "a = (f, Some e)" using Cons.prems(3) by (cases a) auto
  from Cons.prems(1) a obtain x vs' where vs: "vs = (f, x) # vs'" "has_type G e x" "fields_have_type G name fs vs'"
    by (auto split: list.splits)
  from Cons.prems(2) vs obtain w ws1 where w: "serialize K x = Ok w" "serialize_fields K vs' = Ok ws1"
    "ws = (f, w) # ws1" by auto
  have "find_value_in_record_values f ws' = Some w" using Cons.prems(4) w(3) by simp
  with Cons.prems(5) a obtain p q where p: "enc z w (generate_encoding G e) = Some p"
    and q: "concat_opts (map (field_bytes z ws') (generate_field_encodings G fs)) = Some q" and bs: "bs = p @ q"
    by (auto simp: bind_eq_Some_conv)
  have "\<exists>bss. list_all2 (\<lambda>f b. \<exists>x. encodes K z (derive N C W I G (the (snd f))) x b) fs bss \<and> q = concat bss"
    by (rule Cons.IH [OF vs(3) w(2) _ _ q]) (use Cons.prems(3,4) w(3) in auto)
  then obtain bss where "list_all2 (\<lambda>f b. \<exists>x. encodes K z (derive N C W I G (the (snd f))) x b) fs bss" "q = concat bss"
    by blast
  moreover have "encodes K z (derive N C W I G e) x p" using vs(2) w(1) p by (auto simp: encodes_def)
  ultimately show ?case using a bs by (intro exI [of _ "p # bss"]) auto
qed simp

lemma encodes_struct:
  assumes "encodes K z (derive N C W I G (DStruct name fs)) r bs" and "distinct (map fst fs)"
    and "list_all (\<lambda>f. snd f \<noteq> None) fs"
  shows "\<exists>bss. list_all2 (\<lambda>f b. \<exists>x. encodes K z (derive N C W I G (the (snd f))) x b) fs bss \<and> bs = concat bss"
proof -
  from assms(1) obtain vs ws where r: "fields_have_type G name fs vs"
    and ws: "serialize_fields K vs = Ok ws"
    and bs: "concat_opts (map (field_bytes z ws) (generate_field_encodings G fs)) = Some bs"
    by (auto simp: encodes_def split: rust.splits)
  have "distinct (map fst ws)"
    using assms(2) serialize_fields_names [OF ws] fields_have_type_names [OF r] by simp
  then show ?thesis
    by (intro encodes_fields [OF r ws assms(3) _ bs] find_value_distinct)
qed

locale reader = nom_laws N + ncomb_laws C
  for N :: nom and C :: "rust ncomb"
begin

lemma boolean_read: "boolean N C ((if b then 0xFF else 0) # rest) = Ok (rest, RBool b)"
proof (cases b)
  case True
  then show ?thesis
    unfolding boolean_def BYTE_VAL_TRUE_def BYTE_VAL_FALSE_def
    by (intro alt2_first) (simp add: map_bytes tag_byte)
next
  case False
  obtain e where "n_tag N [255] (0 # rest) = Err (Error e)"
    using tag_byte(2) [of "255" 0 rest] by auto
  with False show ?thesis
    unfolding boolean_def BYTE_VAL_TRUE_def BYTE_VAL_FALSE_def
    by (intro alt2_second [where e = e]) (simp_all add: map_bytes tag_byte)
qed

lemma boolean_end: "\<exists>e. boolean N C [] = Err (Error e)"
proof -
  obtain e e' where "n_tag N [255] [] = Err (Error e)" "n_tag N [0] [] = Err (Error e')"
    using tag_byte(3) by metis
  then show ?thesis
    unfolding boolean_def BYTE_VAL_TRUE_def BYTE_VAL_FALSE_def
    by (intro alt2_none [where e = e and e' = e']) (simp_all add: map_bytes)
qed

lemma prim_item: "item_ok K z (derive N C W I G (DPrimitive p))"
proof -
  have "\<exists>e. generate_primitive_nom_read N C p [] = Err (Error e)"
    using boolean_end by (cases p) (auto simp: read_int read_be_Nil)
  moreover have "bs \<noteq> [] \<and> generate_primitive_nom_read N C p (bs @ rest) = Ok (rest, r)"
    if "encodes K z (derive N C W I G (DPrimitive p)) r bs" for r bs rest
    using that boolean_read [of False] boolean_read [of True]
    by (cases p) (auto simp: encodes_def read_int serialize_u32_def
        split: rust.splits if_splits)
  ultimately show ?thesis
    by (auto simp: item_ok_def delim_ok_def)
qed

lemma bounded_size_read:
  "bounded_size N kind m (to_be32 w @ rest) =
     (if unat w \<le> m then Ok (rest, w) else Err (Error (limit_error (to_be32 w @ rest) kind)))"
  by (simp add: bounded_size_def read_size_def read_int)

lemma length_string_read:
  assumes "p (to_be32 (word_of_nat (length s)) @ s @ rest) = Ok (s @ rest, word_of_nat (length s))"
    and "length s < 2 ^ 32" and "utf8_valid s"
  shows "n_map_res C (n_complete_bytes N (n_length_data N p)) utf8_string
      (to_be32 (word_of_nat (length s)) @ s @ rest) = Ok (rest, RStr s)"
proof -
  have "unat (word_of_nat (length s) :: u32) = length s"
    using assms(2) by (simp add: unat_of_nat take_bit_nat_eq_self_iff)
  then have "n_length_data N p (to_be32 (word_of_nat (length s)) @ s @ rest) = Ok (rest, s)"
    using length_data_ok [where s = p, OF assms(1)] by simp
  then have "n_complete_bytes N (n_length_data N p) (to_be32 (word_of_nat (length s)) @ s @ rest)
      = Ok (rest, s)" by (rule complete_bytes_ok)
  then show ?thesis
    by (rule map_res_some) (simp add: utf8_string_def assms(3))
qed

lemma length_string_end:
  assumes "p [] = Err (Error e)"
  shows "n_map_res C (n_complete_bytes N (n_length_data N p)) utf8_string [] = Err (Error e)"
proof -
  have "n_complete_bytes N (n_length_data N p) [] = Err (Error e)"
    using length_data_err [where s = p, OF assms] by (rule complete_bytes_err) simp
  then show ?thesis by (rule map_res_err)
qed

lemma string_item: "item_ok K z (derive N C W I G (DString sz))"
proof -
  have e: "read_size N [] = Err (Error (from_error_kind [] KEof))"
    "bounded_size N kind m [] = Err (Error (from_error_kind [] KEof))" for kind m
    by (simp_all add: read_size_def bounded_size_def read_int read_be_Nil)
  have "\<exists>e. generate_nom_read N C W I G (DString sz) [] = Err (Error e)"
    using length_string_end [where p = "read_size N", OF e(1)]
      length_string_end [where p = "bounded_size N BKString (the sz)", OF e(2)]
    by (cases sz) (auto simp: read_string_def bounded_string_def)
  moreover have "bs \<noteq> [] \<and> generate_nom_read N C W I G (DString sz) (bs @ rest) = Ok (rest, r)"
    if en: "encodes K z (derive N C W I G (DString sz)) r bs" for r bs rest
  proof -
    from en obtain s where s: "r = RStr s" "utf8_valid s" "length s < 2 ^ 32"
      "bs = to_be32 (word_of_nat (length s)) @ s" "\<And>m. sz = Some m \<Longrightarrow> length s \<le> m"
      by (auto simp: encodes_def split: rust.splits option.splits if_splits)
    then have u: "unat (word_of_nat (length s) :: u32) = length s"
      by (simp add: unat_of_nat take_bit_nat_eq_self_iff)
    from s u show ?thesis
      by (cases sz)
        (auto simp: read_string_def bounded_string_def read_size_def read_int bounded_size_read
          intro!: length_string_read)
  qed
  ultimately show ?thesis by (auto simp: item_ok_def delim_ok_def)
qed


lemma bytes_final: "final_ok K z (derive N C W I G DBytes)"
  by (auto simp: final_ok_def encodes_def all_u8 serialize_bytes read_bytes_def map_bytes rest_ok
      value_bytes_Some split: rust.splits)

lemma encodes_listD:
  assumes "encodes K z (derive N C W I G (DList sz e)) r bs"
  obtains rs bss where "r = RSeq rs" "bs = concat bss"
    "list_all2 (encodes K z (derive N C W I G e)) rs bss" "\<forall>m. sz = Some m \<longrightarrow> length rs \<le> m"
proof -
  from assms obtain rs vs where r: "r = RSeq rs" "list_all (has_type G e) rs"
    and v: "list_all2 (\<lambda>r v. serialize K r = Ok v) rs vs"
    and b: "concat_opts (map (\<lambda>v. enc z v (generate_encoding G e)) vs) = Some bs"
    and m: "\<forall>m. sz = Some m \<longrightarrow> length vs \<le> m"
    by (auto simp: encodes_def serialize_elements_Ok split: rust.splits option.splits if_splits)
  from b obtain bss where bss: "map (\<lambda>v. enc z v (generate_encoding G e)) vs = map Some bss" "bs = concat bss"
    by (auto simp: concat_opts_Some)
  have "list_all2 (encodes K z (derive N C W I G e)) rs bss"
  proof (rule list_all2_all_nthI)
    show "length rs = length bss"
      using v bss(1) by (metis length_map list_all2_lengthD)
    fix i
    assume i: "i < length rs"
    with v have "serialize K (rs ! i) = Ok (vs ! i)" by (rule list_all2_nthD)
    moreover have "enc z (vs ! i) (generate_encoding G e) = Some (bss ! i)"
      using i bss(1) v by (metis length_map list_all2_lengthD nth_map)
    ultimately show "encodes K z (derive N C W I G e) (rs ! i) (bss ! i)"
      using i r(2) by (auto simp: encodes_def list_all_length)
  qed
  with that r(1) bss(2) m list_all2_lengthD [OF v] show ?thesis by metis
qed

lemma item_step:
  assumes "item_ok K z T" and "encodes K z T r bs"
  shows "t_nom_read T (bs @ rest) = Ok (rest, r)" "length rest < length (bs @ rest)"
  using assms by (auto simp: item_ok_def dest: delim_okD)

lemma fold_many0_read:
  assumes T: "item_ok K z T" and "list_all2 (encodes K z T) rs bss"
  shows "n_fold_many0 C (t_nom_read T) acc (\<lambda>xs x. xs @ [x]) (concat bss) = Ok ([], acc @ rs)"
  using assms(2)
proof (induction rs bss arbitrary: acc rule: list_all2_induct)
  case Nil
  from T obtain e where "t_nom_read T [] = Err (Error e)" by (auto simp: item_ok_def)
  from fold_many0_stop [where q = "t_nom_read T", OF this] show ?case by simp
next
  case (Cons r rs bs bss)
  from fold_many0_step [where q = "t_nom_read T", OF item_step [OF T Cons(1)]] Cons.IH show ?case by simp
qed

lemma fold_many_m_n_read:
  assumes T: "item_ok K z T" and "list_all2 (encodes K z T) rs bss" and "length rs \<le> m"
  shows "n_fold_many_m_n C 0 m (t_nom_read T) acc (\<lambda>xs x. xs @ [x]) (concat bss) = Ok ([], acc @ rs)"
  using assms(2,3)
proof (induction rs bss arbitrary: acc m rule: list_all2_induct)
  case Nil
  from T obtain e where "t_nom_read T [] = Err (Error e)" by (auto simp: item_ok_def)
  from fold_many_stop [where q = "t_nom_read T", OF this] show ?case by simp
next
  case (Cons r rs bs bss)
  then obtain k where "m = Suc k" "length rs \<le> k" by (cases m) auto
  with fold_many_step [where q = "t_nom_read T", OF item_step [OF T Cons(1)]] Cons.IH show ?case by simp
qed

lemma list_final:
  assumes "item_ok K z (derive N C W I G e)"
  shows "final_ok K z (derive N C W I G (DList sz e))"
  unfolding final_ok_def
proof (intro allI impI)
  fix r bs
  assume "encodes K z (derive N C W I G (DList sz e)) r bs"
  then obtain rs bss where r: "r = RSeq rs" "bs = concat bss"
    "list_all2 (encodes K z (derive N C W I G e)) rs bss" "\<forall>m. sz = Some m \<longrightarrow> length rs \<le> m"
    by (rule encodes_listD)
  with fold_many0_read [OF assms r(3), of "[]"] fold_many_m_n_read [OF assms r(3), of _ "[]"]
  show "t_nom_read (derive N C W I G (DList sz e)) bs = Ok ([], r)"
    by (cases sz) (auto simp: read_list_def bounded_list_def)
qed

lemma dynamic_item:
  assumes "final_ok K z (derive N C W I G e)"
  shows "item_ok K z (derive N C W I G (DDynamic sz e))"
proof -
  have "\<exists>e'. generate_nom_read N C W I G (DDynamic sz e) [] = Err (Error e')"
    by (cases sz) (auto simp: dynamic_def bounded_dynamic_def read_size_def bounded_size_def read_int
        read_be_Nil length_value_err)
  moreover have "bs \<noteq> [] \<and> generate_nom_read N C W I G (DDynamic sz e) (bs @ rest) = Ok (rest, r)"
    if "encodes K z (derive N C W I G (DDynamic sz e)) r bs" for r bs rest
  proof -
    from that obtain b where b: "encodes K z (derive N C W I G e) r b" "length b < 2 ^ 32"
      "bs = to_be32 (word_of_nat (length b)) @ b" "\<And>m. sz = Some m \<Longrightarrow> length b \<le> m"
      by (auto simp: encodes_def sized_prefix_def bind_eq_Some_conv split: option.splits if_splits)
    have "n_all_consuming C (generate_nom_read N C W I G e) b = Ok ([], r)"
      using final_okD [OF assms b(1)] by (simp add: all_consuming_ok)
    then have "n_length_value C s (n_all_consuming C (generate_nom_read N C W I G e)) (bs @ rest) = Ok (rest, r)"
      if "s (bs @ rest) = Ok (b @ rest, word_of_nat (length b))" for s
      using length_value_ok [where s = s, OF that] b(2) by (simp add: unat_length32)
    with b show ?thesis
      by (cases sz) (auto simp: dynamic_def bounded_dynamic_def read_size_def read_int bounded_size_read
          unat_length32)
  qed
  ultimately show ?thesis by (auto simp: item_ok_def delim_ok_def)
qed

lemma sized_read:
  assumes "final_ok K z (derive N C W I G e)"
  shows "delim_ok K z (derive N C W I G (DSized m e))"
    and "0 < m \<Longrightarrow> item_ok K z (derive N C W I G (DSized m e))"
proof -
  have *: "length bs = m \<and> generate_nom_read N C W I G (DSized m e) (bs @ rest) = Ok (rest, r)"
    if "encodes K z (derive N C W I G (DSized m e)) r bs" for r bs rest
  proof -
    from that have "encodes K z (derive N C W I G e) r bs" "length bs = m"
      by (auto simp: encodes_def bind_eq_Some_conv split: if_splits)
    with final_okD [OF assms this(1)] show ?thesis
      by (simp add: sized_def map_parser take_ok)
  qed
  then show "delim_ok K z (derive N C W I G (DSized m e))" by (simp add: delim_ok_def)
  have "generate_nom_read N C W I G (DSized m e) [] = Err (Error (from_error_kind [] KEof))" if "0 < m"
    using that by (simp add: sized_def map_parser take_short)
  with * show "0 < m \<Longrightarrow> item_ok K z (derive N C W I G (DSized m e))"
    by (auto simp: item_ok_def delim_ok_def)
qed


lemma encodes_bounded:
  "encodes K z (derive N C W I G (DBounded m e)) r bs \<longleftrightarrow>
     encodes K z (derive N C W I G e) r bs \<and> length bs \<le> m"
  by (auto simp: encodes_def bind_eq_Some_conv split: if_splits)

lemma bounded_delim:
  assumes "delim_ok K z (derive N C W I G e)"
  shows "delim_ok K z (derive N C W I G (DBounded m e))"
  unfolding delim_ok_def
proof (intro allI impI)
  fix r bs rest
  assume "encodes K z (derive N C W I G (DBounded m e)) r bs"
  then have en: "encodes K z (derive N C W I G e) r bs" and len: "length bs \<le> m"
    by (simp_all add: encodes_bounded)
  let ?m = "min m (length (bs @ rest))"
  have "take ?m (bs @ rest) = bs @ take (?m - length bs) rest" using len by simp
  then have "generate_nom_read N C W I G e (take ?m (bs @ rest)) = Ok (take (?m - length bs) rest, r)"
    using delim_okD [OF assms en, of "take (?m - length bs) rest"] by simp
  moreover have "?m - length (take (?m - length bs) rest) = length bs" using len by simp
  ultimately show "t_nom_read (derive N C W I G (DBounded m e)) (bs @ rest) = Ok (rest, r)"
    by (simp add: bounded_def Let_def)
qed

lemma bounded_final:
  assumes "final_ok K z (derive N C W I G e)"
  shows "final_ok K z (derive N C W I G (DBounded m e))"
  using final_okD [OF assms] by (auto simp: final_ok_def encodes_bounded bounded_def Let_def)

lemma bounded_end:
  "f [] = Err (Error e) \<Longrightarrow> \<exists>e'. bounded m f [] = Err (Error e')"
  by (cases e) (auto simp: bounded_def Let_def split: decode_error_kind.splits nom_kind.splits)

lemma bounded_rt:
  "rt K z (derive N C W I G e) k \<Longrightarrow> rt K z (derive N C W I G (DBounded m e)) k"
proof (cases k)
  case Item
  assume "rt K z (derive N C W I G e) k"
  with Item bounded_delim bounded_end show ?thesis
    by (fastforce simp: item_ok_def encodes_bounded)
qed (simp_all add: bounded_delim bounded_final)

lemma encodes_optional:
  "encodes K z (derive N C W I G (DOptionField e)) r bs \<longleftrightarrow>
     r = RNone \<and> bs = [0] \<or>
     (\<exists>x b. r = RSome x \<and> encodes K z (derive N C W I G e) x b \<and> bs = 0xFF # b)"
  by (auto simp: encodes_def split: rust.splits)

lemma optional_end: "\<exists>e. optional_field N C f [] = Err (Error e)"
proof -
  obtain e e' where "n_tag N [0] [] = Err (Error e)" "n_tag N [255] [] = Err (Error e')"
    using tag_byte(3) by metis
  then show ?thesis
    unfolding optional_field_def
    by (intro alt2_none [where e = e and e' = e']) (simp_all add: preceded_law)
qed

lemma optional_none: "optional_field N C f (0 # rest) = Ok (rest, RNone)"
  unfolding optional_field_def
  by (intro alt2_first) (simp add: preceded_law tag_byte success_law)

lemma optional_some:
  assumes "f i = Ok (r, x)"
  shows "optional_field N C f (0xFF # i) = Ok (r, RSome x)"
proof -
  obtain e where "n_tag N [0] (255 # i) = Err (Error e)"
    using tag_byte(2) [of 0 255 i] by auto
  with assms show ?thesis
    unfolding optional_field_def
    by (intro alt2_second [where e = e]) (simp_all add: preceded_law tag_byte map_law)
qed

lemma optional_item:
  assumes "delim_ok K z (derive N C W I G e)"
  shows "item_ok K z (derive N C W I G (DOptionField e))"
  using optional_end [of "generate_nom_read N C W I G e"] optional_none optional_some delim_okD [OF assms]
  by (auto simp: item_ok_def delim_ok_def encodes_optional)

lemma optional_final:
  assumes "final_ok K z (derive N C W I G e)"
  shows "final_ok K z (derive N C W I G (DOptionField e))"
  using optional_none optional_some final_okD [OF assms]
  by (auto simp: final_ok_def encodes_optional)

lemma tuple_seq: "n_tuple C ps i = seq_read ps i"
  by (induction ps arbitrary: i) (simp_all add: tuple_nil tuple_cons)

lemma seq_read_labels:
  "seq_read (map (\<lambda>(f, p). read_field (lab f) p) fs) i = Ok x \<longleftrightarrow> seq_read (map snd fs) i = Ok x"
proof (induction fs arbitrary: i x)
  case (Cons a fs)
  then show ?case by (cases a) (auto simp: read_field_def)
qed simp

lemma seq_read_labels_err:
  "seq_read (map snd fs) i = Err (Error e) \<Longrightarrow>
     \<exists>e'. seq_read (map (\<lambda>(f, p). read_field (lab f) p) fs) i = Err (Error e')"
proof (induction fs arbitrary: i)
  case (Cons a fs)
  obtain f p where a: "a = (f, p)" by (cases a)
  show ?case
  proof (cases "p i")
    case (Ok x)
    obtain r v where x: "x = (r, v)" by (cases x)
    with Cons.prems Ok a have "seq_read (map snd fs) r = Err (Error e)"
      by (cases "seq_read (map snd fs) r") auto
    from Cons.IH [OF this] a Ok x show ?thesis by (auto simp: read_field_def)
  qed (use Cons.prems a in \<open>auto simp: read_field_def\<close>)
qed simp

lemma struct_read_Ok:
  assumes "seq_read (map snd fs) i = Ok (r, xs)"
  shows "struct_nom_read C name fs i = Ok (r, RStruct name (zip (map fst fs) xs))"
proof -
  consider "fs = []" | f p where "fs = [(f, p)]" | "1 < length fs"
    by (cases fs; cases "tl fs") auto
  then show ?thesis
  proof cases
    case 3
    let ?ps = "map (\<lambda>(f, p). read_field (name @ ''::'' @ f) p) fs"
    have "seq_read ?ps i = Ok (r, xs)" using assms by (simp add: seq_read_labels)
    with 3 show ?thesis
      by (auto simp: struct_nom_read_def Let_def map_list tuple_seq represent_def)
  qed (use assms in \<open>auto simp: struct_nom_read_def success_law map_law read_field_def\<close>)
qed

lemma struct_read_err:
  assumes "seq_read (map snd fs) i = Err (Error e)"
  shows "\<exists>e'. struct_nom_read C name fs i = Err (Error e')"
proof -
  consider "fs = []" | f p where "fs = [(f, p)]" | "1 < length fs"
    by (cases fs; cases "tl fs") auto
  then show ?thesis
  proof cases
    case 2
    then have "p i = Err (Error e)" using assms by (cases "p i") auto
    with 2 show ?thesis by (simp add: struct_nom_read_def map_law read_field_def)
  next
    case 3
    let ?ps = "map (\<lambda>(f, p). read_field (name @ ''::'' @ f) p) fs"
    obtain e' where "seq_read ?ps i = Err (Error e')" using seq_read_labels_err [OF assms, of "\<lambda>f. name @ ''::'' @ f"] by auto
    with 3 show ?thesis
      by (auto simp: struct_nom_read_def Let_def map_list tuple_seq represent_def)
  qed (use assms in simp)
qed


lemma field_names [simp]: "map fst (generate_field_nom_reads N C W I G name fs) = map fst fs"
proof (induction fs)
  case (Cons a fs)
  then show ?case by (cases a; cases "snd a") auto
qed simp

lemma seq_fields:
  assumes "\<And>f e. (f, Some e) \<in> set fs \<Longrightarrow> rt K z (derive N C W I G e) (shape ks e)"
    and "fields_have_type G name fs vs" and "serialize_fields K vs = Ok ws"
    and "\<And>n w. (n, w) \<in> set ws \<Longrightarrow> find_value_in_record_values n ws' = Some w"
    and "concat_opts (map (field_bytes z ws') (generate_field_encodings G fs)) = Some bs"
  shows "(is_delim (fields_shape ks fs) \<longrightarrow>
      seq_read (map snd (generate_field_nom_reads N C W I G name fs)) (bs @ rest) = Ok (rest, map snd vs))
    \<and> (is_final (fields_shape ks fs) \<longrightarrow>
      seq_read (map snd (generate_field_nom_reads N C W I G name fs)) bs = Ok ([], map snd vs))
    \<and> (fields_shape ks fs = Item \<longrightarrow> bs \<noteq> [])"
  using assms
proof (induction fs arbitrary: vs ws bs)
  case Nil
  then show ?case by auto
next
  case (Cons a fs)
  obtain f eo where a: "a = (f, eo)" by (cases a)
  from Cons.prems(2) a obtain x vs' where vs: "vs = (f, x) # vs'" "fields_have_type G name fs vs'"
    by (cases eo) (auto split: list.splits)
  from Cons.prems(3) vs obtain w ws1 where w: "serialize K x = Ok w" "serialize_fields K vs' = Ok ws1"
    "ws = (f, w) # ws1" by auto
  have IH: "(is_delim (fields_shape ks fs) \<longrightarrow>
      seq_read (map snd (generate_field_nom_reads N C W I G name fs)) (q @ rest) = Ok (rest, map snd vs'))
    \<and> (is_final (fields_shape ks fs) \<longrightarrow>
      seq_read (map snd (generate_field_nom_reads N C W I G name fs)) q = Ok ([], map snd vs'))
    \<and> (fields_shape ks fs = Item \<longrightarrow> q \<noteq> [])"
    if "concat_opts (map (field_bytes z ws') (generate_field_encodings G fs)) = Some q" for q
    by (rule Cons.IH [OF _ vs(2) w(2) _ that]) (use Cons.prems(1,4) w(3) in auto)
  show ?case
  proof (cases eo)
    case None
    with Cons.prems(2,5) a vs w IH [of bs] show ?thesis by (auto simp: kind_defs is_delim_def is_final_def)
  next
    case (Some e)
    have "find_value_in_record_values f ws' = Some w" using Cons.prems(4) w(3) by simp
    with Cons.prems(5) a Some obtain p q where p: "enc z w (generate_encoding G e) = Some p"
      and q: "concat_opts (map (field_bytes z ws') (generate_field_encodings G fs)) = Some q"
      and bs: "bs = p @ q"
      by (auto simp: bind_eq_Some_conv)
    have en: "encodes K z (derive N C W I G e) x p"
      using Cons.prems(2) Some a vs(1) w(1) p by (auto simp: encodes_def)
    have rt: "rt K z (derive N C W I G e) (shape ks e)"
      using Cons.prems(1) Some a by auto
    show ?thesis
    proof (cases "is_delim (shape ks e)")
      case True
      then have d: "generate_nom_read N C W I G e (p @ rest') = Ok (rest', x)" for rest'
        using delim_okD [OF rt_delim [OF rt] en] by simp
      have "p \<noteq> []" if "shape ks e = Item" using rt that en by (auto simp: item_ok_def)
      with True IH [OF q] d a Some bs vs(1) show ?thesis
        by (auto simp: kind_defs is_delim_def is_final_def)
    next
      case False
      have "generate_nom_read N C W I G e p = Ok ([], x)" if "is_final (shape ks e)"
        using final_okD [OF rt_final [OF rt that] en] by simp
      with False IH [OF q] a Some bs vs q show ?thesis
        by (auto simp: kind_defs is_delim_def is_final_def)
    qed
  qed
qed


lemma struct_rt:
  assumes rts: "\<And>f e. (f, Some e) \<in> set fs \<Longrightarrow> rt K z (derive N C W I G e) (shape ks e)"
    and dist: "distinct (map fst fs)"
  shows "rt K z (derive N C W I G (DStruct name fs)) (fields_shape ks fs)"
proof -
  let ?T = "derive N C W I G (DStruct name fs)"
  have read: "(is_delim (fields_shape ks fs) \<longrightarrow> t_nom_read ?T (bs @ rest) = Ok (rest, r))
      \<and> (is_final (fields_shape ks fs) \<longrightarrow> t_nom_read ?T bs = Ok ([], r))
      \<and> (fields_shape ks fs = Item \<longrightarrow> bs \<noteq> [])"
    if "encodes K z ?T r bs" for r bs rest
  proof -
    from that obtain vs ws where r: "r = RStruct name vs" "fields_have_type G name fs vs"
      and ws: "serialize_fields K vs = Ok ws"
      and bs: "concat_opts (map (field_bytes z ws) (generate_field_encodings G fs)) = Some bs"
      by (auto simp: encodes_def split: rust.splits)
    have names: "map fst vs = map fst fs" by (rule fields_have_type_names [OF r(2)])
    have "distinct (map fst ws)" using dist serialize_fields_names [OF ws] names by simp
    then have "find_value_in_record_values n ws = Some w" if "(n, w) \<in> set ws" for n w
      using that by (rule find_value_distinct)
    moreover have "zip (map fst fs) (map snd vs) = vs"
      using names by (metis zip_map_fst_snd)
    ultimately show ?thesis
      using seq_fields [OF rts r(2) ws _ bs, where rest = rest] r(1) by (auto simp: struct_read_Ok)
  qed
  have "\<exists>e. t_nom_read ?T [] = Err (Error e)" if item: "fields_shape ks fs = Item"
  proof -
    obtain f e fs' where fs: "fs = (f, Some e) # fs'" "shape ks e = Item"
      using item by (cases fs rule: list.exhaust; cases "hd fs"; cases "snd (hd fs)")
        (auto simp: kind_defs is_delim_def split: if_splits)
    then obtain d where "generate_nom_read N C W I G e [] = Err (Error d)"
      using rts [of f e] by (auto simp: item_ok_def)
    then have "seq_read (map snd (generate_field_nom_reads N C W I G name fs)) [] = Err (Error d)"
      using fs(1) by simp
    from struct_read_err [OF this] show ?thesis by simp
  qed
  with read show ?thesis
    by (cases "fields_shape ks fs")
      (auto simp: item_ok_def delim_ok_def final_ok_def is_delim_def is_final_def)
qed

lemma variant_read:
  "variant_has_type G name idx tags r \<Longrightarrow> distinct (map fst tags) \<Longrightarrow>
   \<exists>i v e p j. (i, v, e) \<in> set tags \<and> map_of (generate_tag_nom_reads N C W I G name idx tags) i = Some p
     \<and> (e = DUnit \<and> r = RUnitVariant name j v \<and> (\<forall>rest. p rest = Ok (rest, r))
        \<or> e \<noteq> DUnit \<and> (\<exists>x. r = RNewtypeVariant name j v x \<and> has_type G e x
            \<and> (\<forall>i' r'. generate_nom_read N C W I G e i' = Ok (r', x) \<longrightarrow> p i' = Ok (r', r))))"
proof (induction tags arbitrary: idx)
  case (Cons t tags)
  obtain i v e where t: "t = (i, v, e)" by (cases t)
  show ?case
  proof (cases "variant_has_type G name (idx + 1) tags r")
    case True
    with Cons.IH [OF True] Cons.prems(2) t obtain i' v' e' p j where
      *: "(i', v', e') \<in> set tags"
      "map_of (generate_tag_nom_reads N C W I G name (idx + 1) tags) i' = Some p"
      "e' = DUnit \<and> r = RUnitVariant name j v' \<and> (\<forall>rest. p rest = Ok (rest, r))
        \<or> e' \<noteq> DUnit \<and> (\<exists>x. r = RNewtypeVariant name j v' x \<and> has_type G e' x
            \<and> (\<forall>i' r'. generate_nom_read N C W I G e' i' = Ok (r', x) \<longrightarrow> p i' = Ok (r', r)))"
      by (auto simp del: has_type.simps)
    from *(1) Cons.prems(2) t have "i' \<noteq> i" by force
    with * t show ?thesis
      by (intro exI [of _ i'] exI [of _ v'] exI [of _ e'] exI [of _ p] exI [of _ j]) simp
  next
    case False
    show ?thesis
    proof (cases "e = DUnit")
      case True
      with False Cons.prems(1) t show ?thesis
        by (intro exI [of _ i] exI [of _ v] exI [of _ e] exI exI [of _ idx]) auto
    next
      case nu: False
      with False Cons.prems(1) t obtain x where "r = RNewtypeVariant name idx v x" "has_type G e x"
        by (cases r) (auto simp: case_not_unit)
      with nu t show ?thesis
        by (intro exI [of _ i] exI [of _ v] exI [of _ e] exI exI [of _ idx])
          (auto simp: map_law read_variant_def case_not_unit)
    qed
  qed
qed simp


lemma read_tag:
  assumes "tag_bytes (size_of_tag_type tt) i = Some a" and "tt = TagU16 \<or> unat i < 256"
  shows "read_tag_id N tt (a @ rest) = Ok (rest, i)" "a \<noteq> []"
  using assms by (cases tt; auto simp: tag_bytes_def read_tag_id_def read_int ucast_u8_u16)+

lemma enum_cases:
  assumes en: "encodes K z (derive N C W I G (DEnum name tt ign tags)) r bs"
    and dist: "distinct (map fst tags)" "distinct (map (\<lambda>t. fst (snd t)) tags)"
    and size: "tt = TagU16 \<or> list_all (\<lambda>t. unat (fst t) < 256) tags"
  obtains i v a where "(i, v, DUnit) \<in> set tags" "a \<noteq> []" "bs = a"
      "\<And>rest. generate_nom_read N C W I G (DEnum name tt ign tags) (a @ rest) = Ok (rest, r)"
    | i v e x a b where "(i, v, e) \<in> set tags" "e \<noteq> DUnit" "encodes K z (derive N C W I G e) x b"
      "a \<noteq> []" "bs = a @ b"
      "\<And>i' r'. generate_nom_read N C W I G e i' = Ok (r', x) \<Longrightarrow>
         generate_nom_read N C W I G (DEnum name tt ign tags) (a @ i') = Ok (r', r)"
proof -
  let ?tags = "generate_tag_encodings G tags"
  from en have "variant_has_type G name 0 tags r" by (simp add: encodes_def)
  from variant_read [OF this dist(1), of W I] obtain i v e p j where
    "(i, v, e) \<in> set tags \<and> map_of (generate_tag_nom_reads N C W I G name 0 tags) i = Some p
     \<and> (e = DUnit \<and> r = RUnitVariant name j v \<and> (\<forall>rest. p rest = Ok (rest, r))
        \<or> e \<noteq> DUnit \<and> (\<exists>x. r = RNewtypeVariant name j v x \<and> has_type G e x
            \<and> (\<forall>i' r'. generate_nom_read N C W I G e i' = Ok (r', x) \<longrightarrow> p i' = Ok (r', r))))"
    by (elim exE)
  note mem = conjunct1 [OF this] and p = conjunct1 [OF conjunct2 [OF this]]
    and cases = conjunct2 [OF conjunct2 [OF this]]
  have find: "find_by_variant (tag_map_new ?tags) v = Some (Tag i v (generate_encoding G e))"
    by (rule find_tag [OF mem dist])
  have small: "tt = TagU16 \<or> unat i < 256" using size mem by (auto simp: list_all_iff)
  have enum: "generate_nom_read N C W I G (DEnum name tt ign tags) (a @ i') = p i'"
    if "tag_bytes (size_of_tag_type tt) i = Some a" for a i'
    using read_tag(1) [OF that small] p by (simp add: enum_nom_read_def)
  from cases show ?thesis
  proof
    assume u: "e = DUnit \<and> r = RUnitVariant name j v \<and> (\<forall>rest. p rest = Ok (rest, r))"
    with en find obtain a where a: "tag_bytes (size_of_tag_type tt) i = Some a" "bs = a"
      by (auto simp: encodes_def)
    show ?thesis
      by (rule that(1) [of i v a]) (use mem u a enum read_tag(2) [OF a(1) small] in auto)
  next
    assume "e \<noteq> DUnit \<and> (\<exists>x. r = RNewtypeVariant name j v x \<and> has_type G e x
          \<and> (\<forall>i' r'. generate_nom_read N C W I G e i' = Ok (r', x) \<longrightarrow> p i' = Ok (r', r)))"
    then obtain x where x: "e \<noteq> DUnit" "r = RNewtypeVariant name j v x" "has_type G e x"
      "\<And>i' r'. generate_nom_read N C W I G e i' = Ok (r', x) \<Longrightarrow> p i' = Ok (r', r)" by blast
    with en find obtain a b where ab: "tag_bytes (size_of_tag_type tt) i = Some a" "bs = a @ b"
      "encodes K z (derive N C W I G e) x b"
      by (auto simp: encodes_def bind_eq_Some_conv)
    show ?thesis
      by (rule that(2) [of i v e x b a]) (use mem x ab enum read_tag(2) [OF ab(1) small] in auto)
  qed
qed

lemma enum_end: "\<exists>e. generate_nom_read N C W I G (DEnum name tt ign tags) [] = Err (Error e)"
  by (cases tt) (auto simp: enum_nom_read_def read_tag_id_def read_int represent_def read_be_Nil)

lemma tags_shape_not_Item [simp]: "tags_shape ks tags \<noteq> Item"
proof (induction tags)
  case (Cons t tags)
  then show ?case by (cases t) (auto simp: kind_defs)
qed simp

lemma tags_rt:
  assumes "\<And>i n e. (i, n, e) \<in> set tags \<Longrightarrow> rt K z (derive N C W I G e) (shape ks e)"
    and "(i, n, e) \<in> set tags" and "e \<noteq> DUnit"
  shows "(tags_shape ks tags = Delim \<longrightarrow> delim_ok K z (derive N C W I G e))
    \<and> (tags_shape ks tags \<noteq> NoRT \<longrightarrow> final_ok K z (derive N C W I G e))"
  using assms
proof (induction tags)
  case (Cons t tags)
  obtain i' n' e' where t: "t = (i', n', e')" by (cases t)
  have "rt K z (derive N C W I G e') (shape ks e')" using Cons.prems(1) [of i' n' e'] t by simp
  then have e': "is_delim (shape ks e') \<longrightarrow> delim_ok K z (derive N C W I G e')"
    "is_final (shape ks e') \<longrightarrow> final_ok K z (derive N C W I G e')"
    "is_delim (shape ks e') \<longrightarrow> is_final (shape ks e')"
    using rt_delim rt_final by (auto simp: is_delim_def is_final_def)
  show ?case
  proof (cases "(i, n, e) \<in> set tags")
    case True
    have "(tags_shape ks tags = Delim \<longrightarrow> delim_ok K z (derive N C W I G e))
      \<and> (tags_shape ks tags \<noteq> NoRT \<longrightarrow> final_ok K z (derive N C W I G e))"
      using Cons.IH [OF _ True Cons.prems(3)] Cons.prems(1) by (meson list.set_intros(2))
    with t show ?thesis by (auto simp: kind_defs is_final_def)
  next
    case False
    with Cons.prems(2,3) e' t show ?thesis by (auto simp: kind_defs is_final_def)
  qed
qed simp

lemma enum_rt:
  assumes rts: "\<And>i n e. (i, n, e) \<in> set tags \<Longrightarrow> rt K z (derive N C W I G e) (shape ks e)"
  shows "rt K z (derive N C W I G (DEnum name tt ign tags)) (shape ks (DEnum name tt ign tags))"
proof (cases "distinct (map fst tags) \<and> distinct (map (\<lambda>t. fst (snd t)) tags)
    \<and> (tt = TagU16 \<or> list_all (\<lambda>t. unat (fst t) < 256) tags)")
  case True
  then have cond: "distinct (map fst tags)" "distinct (map (\<lambda>t. fst (snd t)) tags)"
    "tt = TagU16 \<or> list_all (\<lambda>t. unat (fst t) < 256) tags" by blast+
  let ?T = "derive N C W I G (DEnum name tt ign tags)"
  have "item_ok K z ?T" if d: "tags_shape ks tags = Delim"
  proof -
    have "bs \<noteq> [] \<and> t_nom_read ?T (bs @ rest) = Ok (rest, r)" if "encodes K z ?T r bs" for r bs rest
    proof (cases rule: enum_cases [OF that cond])
      case (2 i v e x a b)
      with tags_rt [OF rts 2(1,2)] d have "delim_ok K z (derive N C W I G e)" by simp
      from delim_okD [OF this 2(3)] 2(4-6) show ?thesis by simp
    qed auto
    with enum_end show ?thesis by (intro item_okI) auto
  qed
  moreover have "final_ok K z ?T" if d: "tags_shape ks tags = Final"
  proof -
    have "t_nom_read ?T bs = Ok ([], r)" if "encodes K z ?T r bs" for r bs
    proof (cases rule: enum_cases [OF that cond])
      case (1 i v a)
      from 1(4) [of "[]"] 1(3) show ?thesis by simp
    next
      case (2 i v e x a b)
      with tags_rt [OF rts 2(1,2)] d have "final_ok K z (derive N C W I G e)" by simp
      from final_okD [OF this 2(3)] 2(4-6) show ?thesis by simp
    qed
    then show ?thesis by (simp add: final_ok_def)
  qed
  ultimately show ?thesis using True by (cases "tags_shape ks tags") (auto simp: kind_defs)
next
  case False
  then show ?thesis by (simp only: shape.simps if_False rt.simps)
qed

lemma hash_item: "item_ok K z (hash_rtype N C name ht)"
proof (rule item_okI)
  fix r bs rest
  assume "encodes K z (hash_rtype N C name ht) r bs"
  then obtain h where h: "length h = hash_size ht" "r = RNewtypeStruct name (RSeq (map RU8 h))" "bs = h"
    by (auto simp: encodes_def hash_rtype_def serialize_bytes split: if_splits)
  then show "bs \<noteq> [] \<and> t_nom_read (hash_rtype N C name ht) (bs @ rest) = Ok (rest, r)"
    by (auto simp: hash_rtype_def read_hash_def map_bytes take_ok try_from_bytes_def)
next
  show "\<exists>e. t_nom_read (hash_rtype N C name ht) [] = Err (Error e)"
    by (simp add: hash_rtype_def read_hash_def map_bytes take_short)
qed

lemma shape_rt_all:
  fixes fs :: "(string \<times> denc option) list" and tags :: "(u16 \<times> string \<times> denc) list"
  shows "(\<And>p. rt K z (type_of_path G p) (ks p)) \<Longrightarrow> rt K z (derive N C W I G d) (shape ks d)"
    and "(\<And>p. rt K z (type_of_path G p) (ks p)) \<Longrightarrow>
      (\<forall>f e. (f, Some e) \<in> set fs \<longrightarrow> rt K z (derive N C W I G e) (shape ks e))"
    and "(\<And>p. rt K z (type_of_path G p) (ks p)) \<Longrightarrow>
      (\<forall>i n e. (i, n, e) \<in> set tags \<longrightarrow> rt K z (derive N C W I G e) (shape ks e))"
proof (induction G d and G fs and G tags
    rule: generate_encoding_generate_field_encodings_generate_tag_encodings.induct)
  case (2 G p)
  show ?case using prim_item by simp
next
  case (3 G)
  show ?case using bytes_final by simp
next
  case (4 G p)
  have "derive N C W I G (DPath p) = type_of_path G p"
    by (simp add: derive_def fun_eq_iff rtype.equality)
  with 4 show ?case by (metis shape.simps(4))
next
  case (7 G sz)
  show ?case using string_item by simp
next
  case (8 G name fs)
  then show ?case using struct_rt by simp
next
  case (9 G name tt ign tags)
  then show ?case by (intro enum_rt) simp
next
  case (10 G e)
  then show ?case using optional_item rt_delim optional_final
    by (cases "shape ks e") (auto simp: kind_defs is_delim_def item_ok_def)
next
  case (11 G sz e)
  then have "rt K z (derive N C W I G e) (shape ks e)" by (cases sz) auto
  then show ?case by (auto intro: list_final)
next
  case (12 G m e)
  then show ?case using sized_read rt_final by simp
next
  case (13 G m e)
  then show ?case using bounded_rt by simp
next
  case (14 G sz e)
  then have "rt K z (derive N C W I G e) (shape ks e)" by (cases sz) auto
  then show ?case using dynamic_item rt_final by simp
qed auto

end

interpretation reader_ref: reader nom_ref ncomb_ref
  by (intro reader.intro nom_ref.nom_laws_axioms ncomb_ref.ncomb_laws_axioms)

end
