(* ===== verification/Path_Reader.thy ===== *)
theory Path_Reader
  imports Roundtrip
begin

text \<open>
  The reader of Merkle paths, \<^verbatim>\<open>NomReader for Path\<close> in
  \<^verbatim>\<open>tezos/messages/src/p2p/encoding/operations_for_blocks.rs\<close>, with the combinators of \<^verbatim>\<open>nom\<close> that only it uses
  (\<open>path_nom\<close>), and the proof that it reads back what \<open>Path_Codec\<close> writes.
\<close>

section \<open>Combinators\<close>

datatype decode_path_node = NodeLeft | NodeRight bytes

record path_nom =
  pn_bytes :: "bytes ncomb"
  pn_node :: "decode_path_node ncomb"
  pn_unit :: "unit ncomb"
  n_many_till :: "decode_path_node parser \<Rightarrow> unit parser \<Rightarrow> (decode_path_node list \<times> unit) parser"
  n_map_nodes :: "(decode_path_node list \<times> unit) parser
    \<Rightarrow> (decode_path_node list \<times> unit \<Rightarrow> decode_path_node list) \<Rightarrow> decode_path_node list parser"
  n_verify :: "decode_path_node list parser \<Rightarrow> (decode_path_node list \<Rightarrow> bool)
    \<Rightarrow> decode_path_node list parser"
  n_flat_map :: "decode_path_node list parser \<Rightarrow> (decode_path_node list \<Rightarrow> rust parser) \<Rightarrow> rust parser"

locale path_nom_laws =
  fixes P :: path_nom
  assumes many_till_end: "g i = Ok (r, u) \<Longrightarrow> n_many_till P f g i = Ok (r, [], u)"
    and many_till_step: "g i = Err (Error d) \<Longrightarrow> f i = Ok (r, a) \<Longrightarrow> length r < length i \<Longrightarrow>
      n_many_till P f g i =
        res_bind (n_many_till P f g r) (\<lambda>(r', as, u). Ok (r', a # as, u))"
    and many_till_err: "g i = Err (Error d) \<Longrightarrow> f i = Err (Error d') \<Longrightarrow>
      \<exists>e. n_many_till P f g i = Err (Error e)"
    and many_till_safe: "(\<And>j. safe_at f j) \<Longrightarrow> (\<And>j. safe_at g j) \<Longrightarrow> safe_at (n_many_till P f g) i"
    and map_nodes: "n_map_nodes P q h i = res_bind (q i) (\<lambda>(r, a). Ok (r, h a))"
    and verify_ok: "p i = Ok (r, ns) \<Longrightarrow> t ns \<Longrightarrow> n_verify P p t i = Ok (r, ns)"
    and verify_no: "p i = Ok (r, ns) \<Longrightarrow> \<not> t ns \<Longrightarrow>
      n_verify P p t i = Err (Error (from_error_kind i KVerify))"
    and verify_err: "p i = Err e \<Longrightarrow> n_verify P p t i = Err e"
    and flat_map: "n_flat_map P p k i = res_bind (p i) (\<lambda>(r, a). k a r)"

function many_till_ref ::
  "decode_path_node parser \<Rightarrow> unit parser \<Rightarrow> (decode_path_node list \<times> unit) parser" where
  "many_till_ref f g i =
     (case g i of
        Ok (r, u) \<Rightarrow> Ok (r, [], u)
      | Err (Error _) \<Rightarrow>
          (case f i of
             Ok (r, a) \<Rightarrow>
               if length r < length i
               then res_bind (many_till_ref f g r) (\<lambda>(r', as, u). Ok (r', a # as, u))
               else Err (Error (from_error_kind r KManyTill))
           | Err (Error e) \<Rightarrow> Err (Error (append_error i KManyTill e))
           | Err e \<Rightarrow> Err e
           | Panic \<Rightarrow> Panic)
      | Err e \<Rightarrow> Err e
      | Panic \<Rightarrow> Panic)"
  by pat_completeness auto
termination by (relation "measure (\<lambda>(f, g, i). length i)") auto

declare many_till_ref.simps [simp del]

definition path_nom_ref :: path_nom where
  "path_nom_ref = \<lparr>
     pn_bytes = ncomb_ref, pn_node = ncomb_ref, pn_unit = ncomb_ref,
     n_many_till = many_till_ref,
     n_map_nodes = (\<lambda>q h i. res_bind (q i) (\<lambda>(r, a). Ok (r, h a))),
     n_verify = (\<lambda>p t i. res_bind (p i) (\<lambda>(r, a).
        if t a then Ok (r, a) else Err (Error (from_error_kind i KVerify)))),
     n_flat_map = (\<lambda>p k i. res_bind (p i) (\<lambda>(r, a). k a r))\<rparr>"

lemma many_till_ref_safe:
  "(\<And>j. safe_at f j) \<Longrightarrow> (\<And>j. safe_at g j) \<Longrightarrow> safe_at (many_till_ref f g) i"
proof (induction f g i rule: many_till_ref.induct)
  case (1 f g i)
  have fi: "safe_at f i" and gi: "safe_at g i" by (rule 1)+
  show ?case
  proof (cases "\<exists>d r a. g i = Err (Error d) \<and> f i = Ok (r, a) \<and> length r < length i")
    case True
    then obtain d r a where *: "g i = Err (Error d)" "f i = Ok (r, a)" "length r < length i" by blast
    have "safe_at (many_till_ref f g) r" by (rule "1.IH" [OF * (1) refl *(2) refl *(3) "1.prems"])
    with * safe_atD [OF fi *(2)] show ?thesis
      by (cases "many_till_ref f g r")
        (auto simp: safe_at_def many_till_ref.simps [of f g i] intro: suffix_order.trans)
  next
    case False
    with fi gi show ?thesis
      by (auto simp: safe_at_def many_till_ref.simps [of f g i] split: res.splits nom_err.splits)
  qed
qed

interpretation path_nom_ref: path_nom_laws path_nom_ref
  by unfold_locales (simp_all add: path_nom_ref_def many_till_ref.simps many_till_ref_safe)

section \<open>The reader\<close>

definition path_hash :: "nom \<Rightarrow> path_nom \<Rightarrow> bytes parser" where
  "path_hash N P = n_map_bytes (pn_bytes P) (n_take N (hash_size OperationListListHash)) (\<lambda>slice. Ok slice)"

definition path_left :: "nom \<Rightarrow> path_nom \<Rightarrow> decode_path_node parser" where
  "path_left N P = n_preceded (pn_node P) (n_tag N [0xF0]) (n_success (pn_node P) NodeLeft)"

definition path_right :: "nom \<Rightarrow> path_nom \<Rightarrow> decode_path_node parser" where
  "path_right N P =
     n_preceded (pn_node P) (n_tag N [0x0F])
       (n_map_bytes (pn_node P) (path_hash N P) (\<lambda>h. Ok (NodeRight h)))"

definition path_op :: "nom \<Rightarrow> path_nom \<Rightarrow> unit parser" where
  "path_op N P = n_preceded (pn_unit P) (n_tag N [0x00]) (n_success (pn_unit P) ())"

fun path_complete_loop ::
  "nom \<Rightarrow> path_nom \<Rightarrow> decode_path_node list \<Rightarrow> path_item list \<Rightarrow> path_item list parser" where
  "path_complete_loop N P [] acc input = Ok (input, acc)"
| "path_complete_loop N P (NodeLeft # nodes) acc input =
     res_bind (path_hash N P input) (\<lambda>(i, h). path_complete_loop N P nodes (acc @ [PathLeft h]) i)"
| "path_complete_loop N P (NodeRight h # nodes) acc input =
     path_complete_loop N P nodes (acc @ [PathRight h]) input"

definition path_complete :: "nom \<Rightarrow> path_nom \<Rightarrow> decode_path_node list \<Rightarrow> rust parser" where
  "path_complete N P nodes input =
     res_bind (path_complete_loop N P (rev nodes) [] input) (\<lambda>(i, items). Ok (i, path_rust (rev items)))"

definition path_nodes :: "nom \<Rightarrow> path_nom \<Rightarrow> decode_path_node list parser" where
  \<comment> \<open>the marks of a path, up to the end mark\<close>
  "path_nodes N P =
     n_map_nodes P (n_many_till P (n_alt (pn_node P) [path_left N P, path_right N P]) (path_op N P)) fst"

definition path_nom_read :: "nom \<Rightarrow> path_nom \<Rightarrow> rust parser" where
  "path_nom_read N P =
     n_flat_map P
       (n_verify P (path_nodes N P)
         (\<lambda>nodes. case MAX_PASS_MERKLE_DEPTH of Some v \<Rightarrow> length nodes \<le> v | None \<Rightarrow> True))
       (path_complete N P)"

definition path_type :: "nom \<Rightarrow> path_nom \<Rightarrow> rtype" where
  \<comment> \<open>siblings are hashes of 32 bytes\<close>
  "path_type N P =
     \<lparr>t_encoding = ECustom PathCodec, t_nom_read = path_nom_read N P,
      t_values = (\<lambda>r. \<exists>items. r = path_rust items
         \<and> list_all (\<lambda>it. length (case it of PathRight h \<Rightarrow> h | PathLeft h \<Rightarrow> h) = 32) items)\<rparr>"

section \<open>Reading back a path\<close>

definition node_of :: "path_item \<Rightarrow> decode_path_node" where
  "node_of it = (case it of PathRight h \<Rightarrow> NodeRight h | PathLeft _ \<Rightarrow> NodeLeft)"

abbreviation sibling :: "path_item \<Rightarrow> bytes" where
  "sibling it \<equiv> (case it of PathRight h \<Rightarrow> h | PathLeft h \<Rightarrow> h)"

locale path_reader = nom_laws N + path_nom_laws P + b: ncomb_laws "pn_bytes P"
    + n: ncomb_laws "pn_node P" + u: ncomb_laws "pn_unit P"
  for N :: nom and P :: path_nom
begin

lemma path_hash_read: "length h = 32 \<Longrightarrow> path_hash N P (h @ rest) = Ok (rest, h)"
  by (simp add: path_hash_def b.map_bytes take_ok)

lemma path_op_read:
  "path_op N P (0 # rest) = Ok (rest, ())"
  "c \<noteq> 0 \<Longrightarrow> \<exists>e. path_op N P (c # rest) = Err (Error e)"
  "\<exists>e. path_op N P [] = Err (Error e)"
  using tag_byte(1) [of 0 rest] tag_byte(2) [of 0 c rest] tag_byte(3) [of 0]
  by (auto simp: path_op_def u.preceded_law u.success_law)

lemma path_mark_read:
  assumes "length (sibling it) = 32"
  shows "n_alt (pn_node P) [path_left N P, path_right N P] (path_marks [it] @ rest) = Ok (rest, node_of it)"
proof (cases it)
  case (PathLeft h)
  then have "path_left N P (path_marks [it] @ rest) = Ok (rest, node_of it)"
    by (simp add: path_left_def node_of_def n.preceded_law n.success_law tag_byte)
  then show ?thesis by (rule n.alt2_first)
next
  case (PathRight h)
  obtain e where "n_tag N [0xF0] (0x0F # h @ rest) = Err (Error e)"
    using tag_byte(2) [of "0xF0" "0x0F"] by auto
  then have "path_left N P (path_marks [it] @ rest) = Err (Error e)"
    using PathRight by (simp add: path_left_def n.preceded_law)
  moreover have "path_right N P (path_marks [it] @ rest) = Ok (rest, node_of it)"
    using PathRight assms
    by (simp add: path_right_def node_of_def n.preceded_law n.map_bytes tag_byte path_hash_read)
  ultimately show ?thesis by (rule n.alt2_second)
qed

lemma path_marks_Cons: "path_marks (it # items) = path_marks [it] @ path_marks items"
  by (cases it) simp_all

lemma many_till_read:
  assumes "list_all (\<lambda>it. length (sibling it) = 32) items"
  shows "n_many_till P (n_alt (pn_node P) [path_left N P, path_right N P]) (path_op N P)
      (path_marks items @ 0 # rest) = Ok (rest, map node_of items, ())"
  using assms
proof (induction items)
  case Nil
  show ?case by (simp add: many_till_end path_op_read)
next
  case (Cons it items)
  have "path_marks [it] \<noteq> []" "hd (path_marks [it]) \<noteq> 0" by (cases it; simp)+
  then obtain e where "path_op N P (path_marks [it] @ path_marks items @ 0 # rest) = Err (Error e)"
    using path_op_read(2) [of "hd (path_marks [it])"] by (metis append_Cons list.collapse)
  moreover have "n_alt (pn_node P) [path_left N P, path_right N P]
      (path_marks [it] @ path_marks items @ 0 # rest) = Ok (path_marks items @ 0 # rest, node_of it)"
    using Cons.prems by (intro path_mark_read) simp
  ultimately show ?case
    using Cons \<open>path_marks [it] \<noteq> []\<close> path_marks_Cons [of it items]
    by (subst many_till_step) auto
qed

lemma complete_loop_append:
  "path_complete_loop N P (ns @ ms) acc i =
     res_bind (path_complete_loop N P ns acc i) (\<lambda>(i', acc'). path_complete_loop N P ms acc' i')"
proof (induction ns arbitrary: acc i)
  case (Cons a ns)
  show ?case
  proof (cases a)
    case NodeLeft
    with Cons show ?thesis by (cases "path_hash N P i") auto
  qed (use Cons in auto)
qed simp

lemma complete_loop_read:
  assumes "list_all (\<lambda>it. length (sibling it) = 32) items"
  shows "path_complete_loop N P (rev (map node_of items)) acc (concat (path_tails items) @ rest)
    = Ok (rest, acc @ rev items)"
  using assms
proof (induction items arbitrary: rest acc)
  case (Cons it items)
  then show ?case
    by (cases it) (simp_all add: complete_loop_append node_of_def path_hash_read)
qed simp

lemma path_nodes_read:
  assumes "list_all (\<lambda>it. length (sibling it) = 32) items"
  shows "path_nodes N P (path_bytes items @ rest) = Ok (concat (path_tails items) @ rest, map node_of items)"
  using many_till_read [OF assms] by (simp add: path_nodes_def map_nodes path_bytes_def)

lemma path_read:
  assumes "list_all (\<lambda>it. length (sibling it) = 32) items"
  shows "path_nom_read N P (path_bytes items @ rest) =
    (if length items \<le> 3 then Ok (rest, path_rust items)
     else Err (Error (from_error_kind (path_bytes items @ rest) KVerify)))"
proof -
  note nodes = path_nodes_read [OF assms, of rest]
  show ?thesis
    using verify_ok [where p = "path_nodes N P", OF nodes]
      verify_no [where p = "path_nodes N P", OF nodes]
      complete_loop_read [OF assms, of "[]" rest]
    by (auto simp: path_nom_read_def flat_map path_complete_def MAX_PASS_MERKLE_DEPTH_def)
qed

lemma path_read_end: "\<exists>e. path_nom_read N P [] = Err (Error e)"
proof -
  obtain d where d: "path_op N P [] = Err (Error d)" using path_op_read(3) by blast
  obtain e e' where "n_tag N [0xF0] [] = Err (Error e)" "n_tag N [0x0F] [] = Err (Error e')"
    using tag_byte(3) by metis
  then have "\<exists>d. n_alt (pn_node P) [path_left N P, path_right N P] [] = Err (Error d)"
    by (intro n.alt_none) (auto simp: path_left_def path_right_def n.preceded_law)
  then obtain d' where "n_alt (pn_node P) [path_left N P, path_right N P] [] = Err (Error d')" by blast
  with d obtain e where "n_many_till P (n_alt (pn_node P) [path_left N P, path_right N P]) (path_op N P) []
      = Err (Error e)" using many_till_err by blast
  then have "path_nodes N P [] = Err (Error e)" by (simp add: path_nodes_def map_nodes)
  from verify_err [where p = "path_nodes N P", OF this] show ?thesis
    by (simp add: path_nom_read_def flat_map)
qed

lemma path_item_rust_inj: "path_item_rust a = path_item_rust b \<longleftrightarrow> a = b"
  by (cases a; cases b) (auto simp: inj_map_eq_map inj_def)

lemma path_item_ok: "item_ok K z (path_type N P)"
proof (rule item_okI)
  fix r bs rest
  assume "encodes K z (path_type N P) r bs"
  then obtain items v where it: "r = path_rust items" "list_all (\<lambda>it. length (sibling it) = 32) items"
    and v: "serialize K r = Ok v" "enc z v (ECustom PathCodec) = Some bs"
    by (auto simp: encodes_def path_type_def)
  have "length items \<le> 3"
    using v(1) it(1) by (auto simp: path_rust_def MAX_PASS_MERKLE_DEPTH_def split: if_splits)
  moreover from this have "bs = path_bytes items"
    using v it(1) by (auto simp: serialize_path)
  moreover have "path_bytes items \<noteq> []" by (simp add: path_bytes_def)
  ultimately show "bs \<noteq> [] \<and> t_nom_read (path_type N P) (bs @ rest) = Ok (rest, r)"
    using path_read [OF it(2)] it(1) by (simp add: path_type_def)
qed (simp add: path_type_def path_read_end)

end

interpretation path_ref: path_reader nom_ref path_nom_ref
  by (intro path_reader.intro nom_ref.nom_laws_axioms path_nom_ref.path_nom_laws_axioms)
    (simp_all add: path_nom_ref_def ncomb_ref.ncomb_laws_axioms)

section \<open>Properties\<close>

text \<open>
  C14. A Merkle path of at most three steps survives its codec, whatever follows it on the wire. A deeper path
  is refused at both ends: the serializer reports it, and the reader rejects its bytes.
\<close>

theorem merkle_path_roundtrip:
  assumes "path_reader N P" and "list_all (\<lambda>it. length (sibling it) = 32) items"
  shows "case serialize K (path_rust items) of
      Ok v \<Rightarrow> length items \<le> 3 \<and> (\<exists>bs. path_encode [] v (ECustom PathCodec) = Ok (length bs, bs)
        \<and> path_nom_read N P (bs @ rest) = Ok (rest, path_rust items))
    | Err e \<Rightarrow> 3 < length items \<and> e = PathTooDeep 3
        \<and> path_nom_read N P (path_bytes items @ rest)
            = Err (Error (from_error_kind (path_bytes items @ rest) KVerify))
    | Panic \<Rightarrow> False"
proof (cases "length items \<le> 3")
  case True
  then show ?thesis
    using path_reader.path_read [OF assms, of rest] path_encode_values [of "[]" items]
    by (simp add: serialize_path)
next
  case False
  then show ?thesis
    using path_reader.path_read [OF assms, of rest]
    by (simp add: path_rust_def MAX_PASS_MERKLE_DEPTH_def)
qed

theorem merkle_path_roundtrip_witness:
  "path_nom_read nom_ref path_nom_ref (path_bytes [PathLeft (replicate 32 7)] @ [9])
     = Ok ([9], path_rust [PathLeft (replicate 32 7)])"
  using merkle_path_roundtrip [OF path_ref.path_reader_axioms,
      where items = "[PathLeft (replicate 32 7)]" and rest = "[9]"]
    path_encode_values [of "[]" "[PathLeft (replicate 32 7)]" "ECustom PathCodec"]
  by (auto simp: serialize_path simp del: replicate.simps)

end
