(* ===== verification/Crypto_Nonce.thy ===== *)
theory Crypto_Nonce
  imports Crypto_Hash
begin

text \<open>
  Nonces and the authenticated box: \<^verbatim>\<open>crypto/src/nonce.rs\<close>, \<^verbatim>\<open>crypto/src/crypto_box.rs\<close> and the
  error type of \<^verbatim>\<open>crypto/src/lib.rs\<close>. A nonce is an unbounded number; only \<^verbatim>\<open>get_bytes\<close> ties it to
  the 24 bytes of the box, so running past \<open>2\<^sup>1\<^sup>9\<^sup>2\<close> is an error of the call, not a wrap-around.
\<close>

section \<open>Nonces\<close>

datatype crypto_error =
    InvalidKey string
  | InvalidKeySize (ks_expected: nat) (ks_actual: nat)
  | InvalidNonceSize (ns_expected: nat) (ns_actual: nat)
  | FailedToDecrypt

definition NONCE_SIZE :: nat where
  "NONCE_SIZE = 24"

record nonce =
  nonce_value :: nat

definition nonce_new :: "bigint \<Rightarrow> bytes \<Rightarrow> nonce" where
  "nonce_new I bs = \<lparr>nonce_value = biguint_from_bytes_be I bs\<rparr>"

definition increment :: "nonce \<Rightarrow> nonce" where
  "increment n = \<lparr>nonce_value = nonce_value n + 1\<rparr>"

definition get_bytes :: "bigint \<Rightarrow> nonce \<Rightarrow> (crypto_error, bytes) res" where
  "get_bytes I n =
     (let bs = biguint_to_bytes_be I (nonce_value n) in
      if NONCE_SIZE < length bs then Err (InvalidNonceSize NONCE_SIZE (length bs))
      else
        let sized = (if length bs = NONCE_SIZE then bs
                     else replicate (NONCE_SIZE - length bs) 0 @ bs)
        in if length sized \<noteq> NONCE_SIZE then Err (InvalidNonceSize NONCE_SIZE (length sized))
           else Ok sized)"

record nonce_pair =
  local_nonce :: nonce
  remote_nonce :: nonce

definition INIT_TO_RESP_SEED :: bytes where
  "INIT_TO_RESP_SEED = map of_char ''Init -> Resp''"

definition RESP_TO_INIT_SEED :: bytes where
  "RESP_TO_INIT_SEED = map of_char ''Resp -> Init''"

definition slice_to :: "nat \<Rightarrow> bytes \<Rightarrow> ('e, bytes) res" where
  \<comment> \<open>Rust's \<open>v[0..n]\<close>, which panics past the end\<close>
  "slice_to n bs = (if n \<le> length bs then Ok (take n bs) else Panic)"

definition generate_nonces ::
  "'st sodium \<Rightarrow> bigint \<Rightarrow> bytes \<Rightarrow> bytes \<Rightarrow> bool \<Rightarrow> (blake2b_error, nonce_pair) res" where
  "generate_nonces S I sent_msg recv_msg incoming =
     (let (init_msg, resp_msg) = (if incoming then (recv_msg, sent_msg) else (sent_msg, recv_msg))
      in res_bind (res_bind (digest_256 S (init_msg @ resp_msg @ INIT_TO_RESP_SEED))
                    (slice_to NONCE_SIZE)) (\<lambda>nonce_init_to_resp.
         res_bind (res_bind (digest_256 S (init_msg @ resp_msg @ RESP_TO_INIT_SEED))
                    (slice_to NONCE_SIZE)) (\<lambda>nonce_resp_to_init.
         Ok (if incoming
             then \<lparr>local_nonce = nonce_new I nonce_init_to_resp,
                   remote_nonce = nonce_new I nonce_resp_to_init\<rparr>
             else \<lparr>local_nonce = nonce_new I nonce_resp_to_init,
                   remote_nonce = nonce_new I nonce_init_to_resp\<rparr>))))"

section \<open>Keys and the box\<close>

definition CRYPTO_KEY_SIZE :: nat where
  "CRYPTO_KEY_SIZE = 32"

definition ensure_crypto_key_bytes :: "bytes \<Rightarrow> (crypto_error, bytes) res" where
  "ensure_crypto_key_bytes buf =
     (if length buf \<noteq> CRYPTO_KEY_SIZE then Err (InvalidKeySize CRYPTO_KEY_SIZE (length buf))
      else Ok buf)"

definition key_from_hex :: "hex_crate \<Rightarrow> string \<Rightarrow> (crypto_error, bytes) res" where
  "key_from_hex H hex =
     res_bind (map_err InvalidKey (hex_decode H hex)) ensure_crypto_key_bytes"

datatype public_key_error = HashError from_bytes_error | PkBlake2bError blake2b_error

definition public_key_hash :: "'st sodium \<Rightarrow> bytes \<Rightarrow> (public_key_error, bytes) res" where
  "public_key_hash S pk =
     res_bind (map_err PkBlake2bError (digest_128 S pk)) (\<lambda>h.
       map_err HashError (try_from_bytes CryptoboxPublicKeyHash h))"

definition precompute :: "'st sodium \<Rightarrow> bytes \<Rightarrow> bytes \<Rightarrow> bytes" where
  "precompute S pk sk = box_precompute S pk sk"

definition encrypt ::
  "'st sodium \<Rightarrow> bigint \<Rightarrow> bytes \<Rightarrow> bytes \<Rightarrow> nonce \<Rightarrow> (crypto_error, bytes) res" where
  "encrypt S I key msg n =
     res_bind (get_bytes I n) (\<lambda>box_nonce. Ok (box_seal S msg box_nonce key))"

definition decrypt ::
  "'st sodium \<Rightarrow> bigint \<Rightarrow> bytes \<Rightarrow> bytes \<Rightarrow> nonce \<Rightarrow> (crypto_error, bytes) res" where
  "decrypt S I key enc n =
     res_bind (get_bytes I n) (\<lambda>box_nonce.
       case box_open S enc box_nonce key of
         Some msg \<Rightarrow> Ok msg
       | None \<Rightarrow> Err FailedToDecrypt)"

section \<open>Lemmas\<close>

lemma be_bytes_digits:
  assumes "n < 256 ^ k"
  shows "be_bytes k n = replicate (k - length (digits 256 n)) 0 @ map word_of_nat (digits 256 n)"
    (is "_ = ?r")
proof -
  have len: "length ?r = k"
    using length_digits_le [of 256 n k] assms by simp
  have "map unat (map word_of_nat (digits 256 n) :: u8 list) = digits 256 n"
    by (auto intro!: map_idI simp: unat_of_nat take_bit_nat_eq_self_iff dest: digits_less)
  then have "from_be ?r = n"
    by (simp add: from_be_undigits undigits_digits)
  with len show ?thesis using be_bytes_from_be [of ?r] by simp
qed

lemma digits_256_length_iff: "length (digits 256 n) \<le> k \<longleftrightarrow> n < 256 ^ k"
proof
  assume "n < 256 ^ k"
  then show "length (digits 256 n) \<le> k" by (simp add: length_digits_le)
next
  assume le: "length (digits 256 n) \<le> k"
  have bnd: "map unat (map word_of_nat (digits 256 n) :: u8 list) = digits 256 n"
    by (auto intro!: map_idI simp: unat_of_nat take_bit_nat_eq_self_iff dest: digits_less)
  have "n = from_be (map word_of_nat (digits 256 n))"
    using bnd by (simp add: from_be_undigits undigits_digits)
  also have "\<dots> < 256 ^ length (digits 256 n)"
    using from_be_less [of "map word_of_nat (digits 256 n)"] by simp
  also have "\<dots> \<le> 256 ^ k" using le by (simp add: power_increasing)
  finally show "n < 256 ^ k" .
qed

lemma be_bytes_0: "be_bytes k 0 = replicate k 0"
  using be_bytes_digits [of 0 k] by simp

lemma increment_funpow: "nonce_value ((increment ^^ k) n) = nonce_value n + k"
  by (induction k) (simp_all add: increment_def)

lemma increment_value [simp]: "nonce_value (increment n) = Suc (nonce_value n)"
  by (simp add: increment_def)

context bigint_laws begin

lemma nonce_new_value: "nonce_value (nonce_new I bs) = from_be bs"
  by (simp add: nonce_new_def from_bytes_be)

lemma get_bytes_ok:
  assumes "nonce_value n < 2 ^ 192"
  shows "get_bytes I n = Ok (be_bytes NONCE_SIZE (nonce_value n))"
proof (cases "nonce_value n = 0")
  case True
  then show ?thesis
    by (simp add: get_bytes_def to_bytes_be_0 NONCE_SIZE_def be_bytes_0 Let_def
        replicate_append_same flip: replicate_Suc)
next
  case False
  let ?ds = "digits 256 (nonce_value n)"
  have small: "nonce_value n < 256 ^ 24"
    using assms by simp
  then have "length ?ds \<le> 24" by (simp add: length_digits_le)
  with False show ?thesis
    by (auto simp: get_bytes_def to_bytes_be_pos NONCE_SIZE_def Let_def
        be_bytes_digits [OF small])
qed

lemma get_bytes_overflow:
  assumes "2 ^ 192 \<le> nonce_value n"
  shows "\<exists>k. get_bytes I n = Err (InvalidNonceSize NONCE_SIZE k)"
proof -
  have "\<not> nonce_value n < 256 ^ 24" using assms by simp
  then have "\<not> length (digits 256 (nonce_value n)) \<le> 24"
    by (simp add: digits_256_length_iff)
  moreover have "0 < nonce_value n" using assms by simp
  ultimately show ?thesis
    by (simp add: get_bytes_def to_bytes_be_pos NONCE_SIZE_def Let_def)
qed

end

locale crypto_box = sodium_laws S + bigint_laws I
  for S :: "'st sodium" and I :: bigint
begin

lemma encrypt_ok:
  assumes "nonce_value n < 2 ^ 192"
  shows "\<exists>c. encrypt S I k m n = Ok c \<and> decrypt S I k c n = Ok m \<and> length c = length m + 16"
  using assms
  by (simp add: encrypt_def decrypt_def get_bytes_ok box_open_seal box_seal_length)

lemma encrypt_overflow:
  "2 ^ 192 \<le> nonce_value n \<Longrightarrow> \<exists>j. encrypt S I k m n = Err (InvalidNonceSize NONCE_SIZE j)"
  using get_bytes_overflow [of n] by (auto simp: encrypt_def)

lemma digest_slice:
  "\<exists>h. res_bind (digest_256 S d) (slice_to NONCE_SIZE) = Ok h \<and> length h = NONCE_SIZE"
proof -
  obtain h where "digest_256 S d = Ok h" "length h = 32"
    using digest_256_ok by blast
  then show ?thesis by (simp add: slice_to_def NONCE_SIZE_def del: res_bind_eq_Ok)
qed

lemma nonce_of_slice_small:
  "length h = NONCE_SIZE \<Longrightarrow> nonce_value (nonce_new I h) < 2 ^ 192"
  using from_be_less [of h] by (simp add: nonce_new_value NONCE_SIZE_def)

lemma generate_nonces_agree:
  "\<exists>p q. generate_nonces S I a b False = Ok p \<and> generate_nonces S I b a True = Ok q
     \<and> local_nonce p = remote_nonce q \<and> remote_nonce p = local_nonce q
     \<and> nonce_value (local_nonce p) < 2 ^ 192 \<and> nonce_value (remote_nonce p) < 2 ^ 192"
proof -
  obtain h1 where h1: "res_bind (digest_256 S (a @ b @ INIT_TO_RESP_SEED)) (slice_to NONCE_SIZE)
      = (Ok h1 :: (blake2b_error, bytes) res)" "length h1 = NONCE_SIZE"
    using digest_slice by blast
  obtain h2 where h2: "res_bind (digest_256 S (a @ b @ RESP_TO_INIT_SEED)) (slice_to NONCE_SIZE)
      = (Ok h2 :: (blake2b_error, bytes) res)" "length h2 = NONCE_SIZE"
    using digest_slice by blast
  show ?thesis
    using h1(2) h2(2) nonce_of_slice_small
    by (simp add: generate_nonces_def h1(1) h2(1) del: res_bind_eq_Ok)
qed

lemma public_key_hash_ok: "\<exists>h. public_key_hash S pk = Ok h \<and> length h = 16"
  using digest_128_ok [of pk] by (auto simp: public_key_hash_def)

end

interpretation crypto_box_ref: crypto_box sodium_ref bigint_ref
  by unfold_locales

section \<open>Properties\<close>

text \<open>
  The nonce of a message is the 24-byte big-endian form of its number, and past \<open>2\<^sup>1\<^sup>9\<^sup>2\<close> the call
  reports the size instead of reusing an earlier nonce: two nonces with the same bytes are equal.
\<close>

theorem nonce_bytes_exact:
  assumes "bigint_laws I"
  shows "(case get_bytes I n of
      Ok bs \<Rightarrow> nonce_value n < 2 ^ 192 \<and> length bs = NONCE_SIZE \<and> nonce_new I bs = n
    | Err e \<Rightarrow> 2 ^ 192 \<le> nonce_value n \<and> (\<exists>k. e = InvalidNonceSize NONCE_SIZE k)
    | Panic \<Rightarrow> False)"
proof (cases "nonce_value n < 2 ^ 192")
  case True
  then have "nonce_new I (be_bytes NONCE_SIZE (nonce_value n)) = n"
    by (simp add: nonce_new_def bigint_laws.from_bytes_be [OF assms] from_be_be_bytes NONCE_SIZE_def)
  with True show ?thesis by (simp add: bigint_laws.get_bytes_ok [OF assms])
next
  case False
  with bigint_laws.get_bytes_overflow [OF assms, of n] show ?thesis by auto
qed

theorem nonce_bytes_exact_witness:
  "case get_bytes bigint_ref \<lparr>nonce_value = 258\<rparr> of
      Ok bs \<Rightarrow> nonce_value \<lparr>nonce_value = 258\<rparr> < 2 ^ 192 \<and> length bs = NONCE_SIZE
        \<and> nonce_new bigint_ref bs = \<lparr>nonce_value = 258\<rparr>
    | Err e \<Rightarrow> 2 ^ 192 \<le> nonce_value \<lparr>nonce_value = 258\<rparr> \<and> (\<exists>k. e = InvalidNonceSize NONCE_SIZE k)
    | Panic \<Rightarrow> False"
  by (rule nonce_bytes_exact) (rule bigint_ref.bigint_laws_axioms)

text \<open>
  C16. The two ends of a connection derive crossed nonce pairs from the two connection messages, and
  the \<open>j\<close>-th message one end encrypts with its local nonce is decrypted by the other end with its
  remote nonce after as many increments, as long as the counter stays below \<open>2\<^sup>1\<^sup>9\<^sup>2\<close>.
\<close>

theorem session_messages_decrypt:
  assumes "crypto_box S I"
  shows "\<exists>p q. generate_nonces S I a b False = Ok p \<and> generate_nonces S I b a True = Ok q
    \<and> local_nonce p = remote_nonce q \<and> remote_nonce p = local_nonce q
    \<and> (\<forall>j m. nonce_value (local_nonce p) + j < 2 ^ 192 \<longrightarrow>
         (\<exists>c. encrypt S I key m ((increment ^^ j) (local_nonce p)) = Ok c
            \<and> length c = length m + 16
            \<and> decrypt S I key c ((increment ^^ j) (remote_nonce q)) = Ok m))"
proof -
  obtain p q where pq: "generate_nonces S I a b False = Ok p" "generate_nonces S I b a True = Ok q"
    "local_nonce p = remote_nonce q" "remote_nonce p = local_nonce q"
    using crypto_box.generate_nonces_agree [OF assms] by blast
  have "\<exists>c. encrypt S I key m ((increment ^^ j) (local_nonce p)) = Ok c \<and> length c = length m + 16
      \<and> decrypt S I key c ((increment ^^ j) (remote_nonce q)) = Ok m"
    if "nonce_value (local_nonce p) + j < 2 ^ 192" for j m
    using crypto_box.encrypt_ok [OF assms, of "(increment ^^ j) (local_nonce p)" key m] that pq(3)
    by (auto simp: increment_funpow)
  with pq show ?thesis by blast
qed

theorem session_messages_decrypt_witness:
  "\<exists>p q. generate_nonces sodium_ref bigint_ref [1] [2] False = Ok p
    \<and> generate_nonces sodium_ref bigint_ref [2] [1] True = Ok q
    \<and> local_nonce p = remote_nonce q \<and> remote_nonce p = local_nonce q
    \<and> (\<forall>j m. nonce_value (local_nonce p) + j < 2 ^ 192 \<longrightarrow>
         (\<exists>c. encrypt sodium_ref bigint_ref [5] m ((increment ^^ j) (local_nonce p)) = Ok c
            \<and> length c = length m + 16
            \<and> decrypt sodium_ref bigint_ref [5] c ((increment ^^ j) (remote_nonce q)) = Ok m))"
  by (rule session_messages_decrypt) (rule crypto_box_ref.crypto_box_axioms)

text \<open>
  Every public key has a peer id: hashing never fails, and the result is a well-formed
  16-byte \<^verbatim>\<open>CryptoboxPublicKeyHash\<close>.
\<close>

theorem public_key_hash_total:
  assumes "sodium_laws S"
  shows "\<exists>h. public_key_hash S pk = Ok h \<and> length h = hash_size CryptoboxPublicKeyHash"
  using sodium_laws.digest_128_ok [OF assms, of pk] by (auto simp: public_key_hash_def)

theorem public_key_hash_total_witness:
  "\<exists>h. public_key_hash sodium_ref (replicate 32 1) = Ok h
     \<and> length h = hash_size CryptoboxPublicKeyHash"
  by (rule public_key_hash_total) (rule sodium_ref.sodium_laws_axioms)

end
