(* ===== verification/Proof_Of_Work.thy ===== *)
theory Proof_Of_Work
  imports Crypto_Nonce
begin

unbundle bit_operations_syntax

text \<open>
  The proof-of-work stamp of a peer identity, \<^verbatim>\<open>crypto/src/proof_of_work.rs\<close>: the search over the
  192-bit stamp behind the 32-byte public key, its check, and the target number. Floating-point
  arithmetic is not modelled: a target \<^verbatim>\<open>f64\<close> is given by its floor, whether its fractional part is
  below \<^verbatim>\<open>EPSILON\<close>, and the number the \<^verbatim>\<open>powf\<close> branch computes.
\<close>

section \<open>Check and target\<close>

definition POW_SIZE :: nat where
  "POW_SIZE = NONCE_SIZE"

datatype pow_error = CheckFailed | PowBlake2b blake2b_error

record f64_target =
  target_floor :: int
  target_frac_zero :: bool
  target_powf :: nat

definition make_target :: "f64_target \<Rightarrow> (pow_error, nat) res" where
  "make_target t =
     (if \<not> (0 \<le> target_floor t \<and> target_floor t < 256) then Panic
      else
        let shift = nat (target_floor t);
            m = (if target_frac_zero t then push_bit 54 1 - 1 else target_powf t)
        in Ok (if shift < 202
               then (push_bit (202 - shift) m) OR (push_bit (202 - shift) 1 - 1)
               else drop_bit (shift - 202) m))"

definition check_proof_of_work_inner ::
  "'st sodium \<Rightarrow> bigint \<Rightarrow> bytes \<Rightarrow> nat \<Rightarrow> (pow_error, unit) res" where
  "check_proof_of_work_inner S I data target_number =
     res_bind (map_err PowBlake2b (digest_256 S data)) (\<lambda>hash.
       if biguint_from_bytes_le I hash \<le> target_number then Ok () else Err CheckFailed)"

definition check_proof_of_work ::
  "'st sodium \<Rightarrow> bigint \<Rightarrow> bytes \<Rightarrow> f64_target \<Rightarrow> (pow_error, unit) res" where
  "check_proof_of_work S I data target =
     res_bind (make_target target) (check_proof_of_work_inner S I data)"

definition pow_check ::
  "'st sodium \<Rightarrow> bigint \<Rightarrow> bytes \<Rightarrow> bytes \<Rightarrow> f64_target \<Rightarrow> (pow_error, unit) res" where
  "pow_check S I pow pk target = check_proof_of_work S I (pk @ pow) target"

definition pow_from_hex :: "hex_crate \<Rightarrow> string \<Rightarrow> (crypto_error, bytes) res" where
  "pow_from_hex H hex =
     res_bind (map_err InvalidKey (hex_decode H hex)) (\<lambda>bs.
       if length bs \<noteq> POW_SIZE then Err (InvalidKeySize POW_SIZE (length bs)) else Ok bs)"

section \<open>Search\<close>

definition get64 :: "bytes \<Rightarrow> nat \<Rightarrow> u64" where
  "get64 data off = word_of_nat (from_be (take 8 (drop off data)))"

definition put64 :: "bytes \<Rightarrow> nat \<Rightarrow> u64 \<Rightarrow> bytes" where
  "put64 data off w = take off data @ to_be64 w @ drop (off + 8) data"

definition pow_next :: "bytes \<Rightarrow> bytes" where
  "pow_next data =
     (let c = get64 data 0x30 in
      if c = -1 then
        (let b = get64 data 0x28 in
         if b = -1 then
           (let a = get64 data 0x20;
                a' = (if a = -1 then 0 else a + 1)
            in put64 (put64 (put64 data 0x20 a') 0x28 0) 0x30 0)
         else put64 (put64 data 0x28 (b + 1)) 0x30 0)
      else put64 data 0x30 (c + 1))"

partial_function (option) pow_search ::
  "'st sodium \<Rightarrow> bigint \<Rightarrow> nat \<Rightarrow> bytes \<Rightarrow> bytes option" where
  "pow_search S I target_number data =
     (if check_proof_of_work_inner S I data target_number = Ok ()
      then Some (drop CRYPTO_KEY_SIZE data)
      else pow_search S I target_number (pow_next data))"

definition pow_generate ::
  "'st sodium \<Rightarrow> bigint \<Rightarrow> bytes \<Rightarrow> bytes \<Rightarrow> f64_target \<Rightarrow> (pow_error, bytes option) res" where
  \<comment> \<open>\<open>rnd\<close> is the result of \<open>randombytes(POW_SIZE)\<close>; \<open>Ok None\<close> means the loop does not end\<close>
  "pow_generate S I rnd public_key target =
     res_bind (make_target target) (\<lambda>target_number.
       Ok (pow_search S I target_number (public_key @ rnd)))"

section \<open>Lemmas\<close>

lemma from_be_append: "from_be (xs @ ys) = from_be xs * 256 ^ length ys + from_be ys"
  by (induction ys rule: rev_induct) (simp_all flip: append_assoc add: algebra_simps)

lemma split_56:
  assumes "length data = 56"
  obtains pk a b c where "data = pk @ to_be64 a @ to_be64 b @ to_be64 c" "length pk = 32"
proof
  let ?w = "\<lambda>off. word_of_nat (from_be (take 8 (drop off data))) :: u64"
  have "to_be64 (?w off) = take 8 (drop off data)" if "off \<le> 48" for off
    using that assms by (intro to_be_from_be) simp
  moreover have "data = take 32 data @ take 8 (drop 32 data) @ take 8 (drop 40 data)
      @ take 8 (drop 48 data)"
    using assms
    by (intro nth_equalityI) (auto simp: nth_append less_Suc_eq_le nth_drop min_def)
  ultimately show "data = take 32 data @ to_be64 (?w 32) @ to_be64 (?w 40) @ to_be64 (?w 48)"
    by simp
  show "length (take 32 data) = 32" using assms by simp
qed

lemma get64_at: "length p = off \<Longrightarrow> get64 (p @ to_be64 w @ q) off = w"
  by (simp add: get64_def)

lemma put64_at: "length p = off \<Longrightarrow> put64 (p @ to_be64 w @ q) off v = p @ to_be64 v @ q"
  by (simp add: put64_def)

lemma pow_next_parts:
  assumes "length pk = 32"
  shows "pow_next (pk @ to_be64 a @ to_be64 b @ to_be64 c) =
    (if c = -1 then
       (if b = -1 then pk @ to_be64 (a + 1) @ to_be64 0 @ to_be64 0
        else pk @ to_be64 a @ to_be64 (b + 1) @ to_be64 0)
     else pk @ to_be64 a @ to_be64 b @ to_be64 (c + 1))"
proof -
  have g: "get64 (pk @ to_be64 a @ to_be64 b @ to_be64 c) 48 = c"
    "get64 (pk @ to_be64 a @ to_be64 b @ to_be64 c) 40 = b"
    "get64 (pk @ to_be64 a @ to_be64 b @ to_be64 c) 32 = a" for a b c
    using assms get64_at [of "pk @ to_be64 a @ to_be64 b" 48 c "[]"]
      get64_at [of "pk @ to_be64 a" 40 b "to_be64 c"] get64_at [of pk 32 a] by simp_all
  have p: "put64 (pk @ to_be64 x @ to_be64 y @ to_be64 z) 48 v = pk @ to_be64 x @ to_be64 y @ to_be64 v"
    "put64 (pk @ to_be64 x @ to_be64 y @ to_be64 z) 40 v = pk @ to_be64 x @ to_be64 v @ to_be64 z"
    "put64 (pk @ to_be64 x @ to_be64 y @ to_be64 z) 32 v = pk @ to_be64 v @ to_be64 y @ to_be64 z"
    for x y z v
    using assms put64_at [of "pk @ to_be64 x @ to_be64 y" 48 z "[]"]
      put64_at [of "pk @ to_be64 x" 40 y "to_be64 z"] put64_at [of pk 32 x] by simp_all
  show ?thesis by (simp add: pow_next_def g p Let_def)
qed

lemma unat_u64_max: "unat (-1 :: u64) = 2 ^ 64 - 1"
  by (simp add: unsigned_minus_1_eq_mask mask_eq_exp_minus_1)

lemma unat_u64_succ: "w \<noteq> -1 \<Longrightarrow> unat (w + 1 :: u64) = unat w + 1"
proof -
  assume "w \<noteq> -1"
  then have "unat w \<noteq> unat (-1 :: u64)" by (simp add: word_unat_eq_iff)
  with unat_bound [of w] have "unat w + 1 < 2 ^ 64"
    by (simp add: unat_u64_max)
  then show ?thesis by (simp add: unat_word_ariths)
qed

definition stamp_number :: "bytes \<Rightarrow> nat" where
  "stamp_number data = from_be (drop CRYPTO_KEY_SIZE data)"

lemma stamp_number_parts:
  "length pk = 32 \<Longrightarrow> stamp_number (pk @ to_be64 a @ to_be64 b @ to_be64 c)
     = unat a * 2 ^ 128 + unat b * 2 ^ 64 + unat c"
  by (simp add: stamp_number_def CRYPTO_KEY_SIZE_def from_be_append)

lemma pow_next_step:
  assumes "length data = 56"
  shows "length (pow_next data) = 56" "take 32 (pow_next data) = take 32 data"
    "stamp_number (pow_next data) = (stamp_number data + 1) mod 2 ^ 192"
proof -
  obtain pk a b c where d: "data = pk @ to_be64 a @ to_be64 b @ to_be64 c" and pk: "length pk = 32"
    using split_56 [OF assms] .
  have bnd: "unat a < 2 ^ 64" "unat b < 2 ^ 64" "unat c < 2 ^ 64"
    using unat_bound [of a] unat_bound [of b] unat_bound [of c] by simp_all
  show "length (pow_next data) = 56" "take 32 (pow_next data) = take 32 data"
    by (simp_all add: d pow_next_parts [OF pk] pk)
  consider "c \<noteq> -1" | "c = -1" "b \<noteq> -1" | "c = -1" "b = -1" "a \<noteq> -1" | "c = -1" "b = -1" "a = -1"
    by blast
  then show "stamp_number (pow_next data) = (stamp_number data + 1) mod 2 ^ 192"
  proof cases
    case 1
    with unat_u64_succ [OF 1] have "unat c + 1 < 2 ^ 64"
      using unat_bound [of "c + 1"] by simp
    with 1 bnd show ?thesis
      by (simp add: d pow_next_parts [OF pk] stamp_number_parts [OF pk] unat_u64_succ)
  next
    case 2
    with unat_u64_succ [OF 2(2)] have "unat b + 1 < 2 ^ 64"
      using unat_bound [of "b + 1"] by simp
    with 2 bnd show ?thesis
      by (simp add: d pow_next_parts [OF pk] stamp_number_parts [OF pk] unat_u64_succ unat_u64_max)
  next
    case 3
    with unat_u64_succ [OF 3(3)] have "unat a + 1 < 2 ^ 64"
      using unat_bound [of "a + 1"] by simp
    with 3 bnd show ?thesis
      by (simp add: d pow_next_parts [OF pk] stamp_number_parts [OF pk] unat_u64_succ unat_u64_max)
  next
    case 4
    then show ?thesis
      by (simp add: d pow_next_parts [OF pk] stamp_number_parts [OF pk] unat_u64_max)
  qed
qed

lemma pow_next_funpow:
  assumes "length data = 56"
  shows "length ((pow_next ^^ k) data) = 56 \<and> take 32 ((pow_next ^^ k) data) = take 32 data
    \<and> stamp_number ((pow_next ^^ k) data) = (stamp_number data + k) mod 2 ^ 192"
proof (induction k)
  case 0
  have "stamp_number data < 256 ^ 24"
    using from_be_less [of "drop 32 data"] assms
    by (simp add: stamp_number_def CRYPTO_KEY_SIZE_def)
  with assms show ?case by simp
next
  case (Suc k)
  with pow_next_step [of "(pow_next ^^ k) data"] show ?case by (simp add: mod_simps)
qed

lemma pow_search_sound:
  assumes "pow_search S I t data = Some r" and "length data = 56"
  shows "length r = 24 \<and> check_proof_of_work_inner S I (take 32 data @ r) t = Ok ()"
proof -
  have "length data = 56 \<longrightarrow>
      length r = 24 \<and> check_proof_of_work_inner S I (take 32 data @ r) t = Ok ()"
  proof (rule pow_search.raw_induct [where P = "\<lambda>S I t data r. length data = 56 \<longrightarrow>
        length r = 24 \<and> check_proof_of_work_inner S I (take 32 data @ r) t = Ok ()", OF _ assms(1)])
    fix f S I t data r
    assume IH: "\<And>S I t data r. f S I t data = Some r \<Longrightarrow> length data = 56 \<longrightarrow>
        length r = 24 \<and> check_proof_of_work_inner S I (take 32 data @ r) t = Ok ()"
      and eq: "(if check_proof_of_work_inner S I data t = Ok () then Some (drop CRYPTO_KEY_SIZE data)
        else f S I t (pow_next data)) = Some r"
    show "length data = 56 \<longrightarrow>
        length r = 24 \<and> check_proof_of_work_inner S I (take 32 data @ r) t = Ok ()"
    proof (cases "check_proof_of_work_inner S I data t = Ok ()")
      case True
      with eq show ?thesis by (auto simp: CRYPTO_KEY_SIZE_def)
    next
      case False
      with eq have "f S I t (pow_next data) = Some r" by simp
      from IH [OF this] show ?thesis by (auto simp: pow_next_step)
    qed
  qed
  with assms(2) show ?thesis by simp
qed

lemma pow_search_returns:
  assumes "check_proof_of_work_inner S I ((pow_next ^^ k) data) t = Ok ()"
  shows "\<exists>r. pow_search S I t data = Some r"
  using assms
proof (induction k arbitrary: data)
  case 0
  then show ?case by (subst pow_search.simps) simp
next
  case (Suc k)
  then have "check_proof_of_work_inner S I ((pow_next ^^ k) (pow_next data)) t = Ok ()"
    by (simp add: funpow_swap1)
  from Suc.IH [OF this] show ?case by (subst pow_search.simps) simp
qed

lemma stamp_reachable:
  assumes "length pk = 32" "length r0 = 24" "length r = 24"
  shows "\<exists>k. (pow_next ^^ k) (pk @ r0) = pk @ r"
proof
  let ?k = "(from_be r + (2 ^ 192 - from_be r0)) mod 2 ^ 192"
  let ?d = "(pow_next ^^ ?k) (pk @ r0)"
  have b: "from_be r < 2 ^ 192" "from_be r0 < 2 ^ 192"
    using from_be_less [of r] from_be_less [of r0] assms by simp_all
  have d: "length ?d = 56" "take 32 ?d = pk"
    "stamp_number ?d = (from_be r0 + ?k) mod 2 ^ 192"
    using pow_next_funpow [of "pk @ r0" ?k] assms
    by (simp_all add: stamp_number_def CRYPTO_KEY_SIZE_def)
  have "(from_be r0 + ?k) mod 2 ^ 192 = (from_be r + 2 ^ 192) mod 2 ^ 192"
    using b(2) by (simp add: mod_simps)
  also have "\<dots> = from_be r" using b(1) by simp
  finally have "from_be (drop 32 ?d) = from_be r"
    using d(3) by (simp add: stamp_number_def CRYPTO_KEY_SIZE_def)
  then have "drop 32 ?d = r"
    using be_bytes_from_be_n [of "drop 32 ?d" 24] be_bytes_from_be_n [of r 24] d(1) assms(3) by simp
  with d(2) show "?d = pk @ r" by (metis append_take_drop_id)
qed

lemma mask_push_or: "push_bit k (mask n) OR mask k = (mask (n + k) :: nat)"
  by (rule bit_eqI) (auto simp: bit_simps)

lemma drop_bit_mask_nat: "drop_bit k (mask n) = (mask (n - k) :: nat)"
  by (rule bit_eqI) (auto simp: bit_simps)

lemma pow_generate_eq:
  assumes "make_target t = Ok n"
  shows "pow_generate S I rnd pk t = Ok (pow_search S I n (pk @ rnd))"
    and "pow_check S I r pk t = check_proof_of_work_inner S I (pk @ r) n"
  using assms by (simp_all add: pow_generate_def pow_check_def check_proof_of_work_def)

lemma pow_generate_returns:
  assumes "length pk = CRYPTO_KEY_SIZE" and "length rnd = POW_SIZE" and "length r = POW_SIZE"
    and "pow_check S I r pk t = Ok ()"
  shows "\<exists>r'. pow_generate S I rnd pk t = Ok (Some r') \<and> length r' = POW_SIZE
    \<and> pow_check S I r' pk t = Ok ()"
proof -
  obtain n where t: "make_target t = Ok n"
    using assms(4) by (auto simp: pow_check_def check_proof_of_work_def)
  have len: "length pk = 32" "length rnd = 24" "length r = 24"
    using assms by (simp_all add: CRYPTO_KEY_SIZE_def POW_SIZE_def NONCE_SIZE_def)
  obtain k where "(pow_next ^^ k) (pk @ rnd) = pk @ r"
    using stamp_reachable [OF len] by blast
  with assms(4) obtain r' where r': "pow_search S I n (pk @ rnd) = Some r'"
    using pow_search_returns [of S I k "pk @ rnd" n] by (auto simp: pow_generate_eq [OF t])
  from pow_search_sound [OF r'] len r' show ?thesis
    by (simp add: pow_generate_eq [OF t] POW_SIZE_def NONCE_SIZE_def)
qed

section \<open>Properties\<close>

text \<open>
  The successor of a stamp is the next 192-bit number, wrapping to zero after the last one, and
  the public key in front of it does not change: three 64-bit counters with carries are one counter.
\<close>

theorem pow_next_is_successor:
  assumes "length data = CRYPTO_KEY_SIZE + POW_SIZE"
  shows "length (pow_next data) = length data
    \<and> take CRYPTO_KEY_SIZE (pow_next data) = take CRYPTO_KEY_SIZE data
    \<and> stamp_number (pow_next data) = (stamp_number data + 1) mod 2 ^ 192"
  using pow_next_step [of data] assms by (simp add: CRYPTO_KEY_SIZE_def POW_SIZE_def NONCE_SIZE_def)

theorem pow_next_is_successor_witness:
  "stamp_number (pow_next (replicate 56 255)) = (stamp_number (replicate 56 255) + 1) mod 2 ^ 192"
  using pow_next_is_successor [of "replicate 56 255"]
  by (simp add: CRYPTO_KEY_SIZE_def POW_SIZE_def NONCE_SIZE_def)

text \<open>
  C24. Whenever any stamp satisfies the target, the search from any random start ends, and the stamp
  it returns has the right size and passes the check a peer makes.
\<close>

theorem pow_generate_finds:
  assumes "length pk = CRYPTO_KEY_SIZE" and "length rnd = POW_SIZE" and "length r = POW_SIZE"
    and "pow_check S I r pk t = Ok ()"
  shows "\<exists>r'. pow_generate S I rnd pk t = Ok (Some r') \<and> length r' = POW_SIZE
    \<and> pow_check S I r' pk t = Ok ()"
  using assms by (rule pow_generate_returns)

theorem pow_generate_finds_witness:
  "\<exists>r'. pow_generate sodium_ref bigint_ref (replicate 24 7) (replicate 32 0)
        \<lparr>target_floor = 26, target_frac_zero = True, target_powf = 0\<rparr> = Ok (Some r')
    \<and> length r' = POW_SIZE
    \<and> pow_check sodium_ref bigint_ref r' (replicate 32 0)
        \<lparr>target_floor = 26, target_frac_zero = True, target_powf = 0\<rparr> = Ok ()"
proof (rule pow_generate_finds [where r = "replicate 24 0"])
  have z: "from_be (replicate k 0) = 0" for k
    using from_be_be_bytes [of k 0] by (simp add: be_bytes_0)
  show "pow_check sodium_ref bigint_ref (replicate 24 0) (replicate 32 0)
        \<lparr>target_floor = 26, target_frac_zero = True, target_powf = 0\<rparr> = Ok ()"
    by (simp add: pow_check_def check_proof_of_work_def check_proof_of_work_inner_def make_target_def
        digest_256_def digest_def sodium_ref_def bigint_ref_def be_bytes_0 z
        flip: replicate_add)
qed (simp_all add: CRYPTO_KEY_SIZE_def POW_SIZE_def NONCE_SIZE_def)

text \<open>
  For a whole-number target of \<open>n < 256\<close> leading zero bits, the number a hash is compared with is
  exactly \<open>2\<^bsup>256 - n\<^esup> - 1\<close>.
\<close>

theorem make_target_whole:
  assumes "target_frac_zero t" and "0 \<le> target_floor t" and "target_floor t < 256"
  shows "make_target t = Ok (2 ^ (256 - nat (target_floor t)) - 1)"
proof -
  let ?f = "nat (target_floor t)"
  have one: "push_bit 54 1 - 1 = (mask 54 :: nat)"
    and low: "push_bit (202 - ?f) 1 - 1 = (mask (202 - ?f) :: nat)"
    by (simp_all only: mask_eq_exp_minus_1 push_bit_eq_mult mult_1)
  have "push_bit (202 - ?f) (mask 54) OR mask (202 - ?f) = (mask (256 - ?f) :: nat)" if "?f < 202"
    using mask_push_or [of "202 - ?f" 54] that by simp
  moreover have "drop_bit (?f - 202) (mask 54) = (mask (256 - ?f) :: nat)" if "\<not> ?f < 202"
    using drop_bit_mask_nat [of "?f - 202" 54] that by simp
  ultimately show ?thesis
    using assms unfolding make_target_def one low Let_def mask_eq_exp_minus_1 [symmetric] by simp
qed

theorem make_target_whole_witness:
  "make_target \<lparr>target_floor = 26, target_frac_zero = True, target_powf = 0\<rparr> = Ok (2 ^ 230 - 1)"
  using make_target_whole [of "\<lparr>target_floor = 26, target_frac_zero = True, target_powf = 0\<rparr>"]
  by simp

end
