(* ===== verification/Messages.thy ===== *)
theory Messages
  imports Derive_Make Path_Reader Proof_Of_Work
begin

text \<open>
  The messages of the peer-to-peer protocol, \<^verbatim>\<open>tezos/messages/src/p2p/encoding\<close>: the limits (\<^verbatim>\<open>limits.rs\<close>) and the
  annotated types, each as the input of the derive macros. Attributes of other derive macros are left
  out: \<open>get_encoding_meta\<close> skips them. The types are elaborated in the order of their dependencies.
\<close>

section \<open>Limits\<close>

definition BLOCK_HEADER_MAX_SIZE :: nat where "BLOCK_HEADER_MAX_SIZE = 8 * 1024 * 1024"

definition MEMPOOL_MAX_OPERATIONS :: nat where "MEMPOOL_MAX_OPERATIONS = 4000"

definition MEMPOOL_MAX_SIZE :: nat where
  "MEMPOOL_MAX_SIZE = 8 + MEMPOOL_MAX_OPERATIONS * hash_size OperationHash"

definition MESSAGE_MAX_SIZE :: nat where
  "MESSAGE_MAX_SIZE = 4 + 2 + (hash_size ChainId + 4 + BLOCK_HEADER_MAX_SIZE + MEMPOOL_MAX_SIZE)"

definition P2P_POINT_MAX_SIZE :: nat where "P2P_POINT_MAX_SIZE = 4 + 4 * 8 + 7 + 2 + 1 + 5"

definition NACK_PEERS_MAX_LENGTH :: nat where "NACK_PEERS_MAX_LENGTH = 100"

definition ADVERTISE_ID_LIST_MAX_LENGTH :: nat where "ADVERTISE_ID_LIST_MAX_LENGTH = 100"

definition CURRENT_BRANCH_HISTORY_MAX_LENGTH :: nat where "CURRENT_BRANCH_HISTORY_MAX_LENGTH = 1000"

definition OPERATION_MAX_SIZE :: nat where "OPERATION_MAX_SIZE = 128 * 1024"

definition PROTOCOL_MAX_SIZE :: nat where "PROTOCOL_MAX_SIZE = 2 * 1024 * 1024"

definition GET_BLOCK_HEADERS_MAX_LENGTH :: nat where "GET_BLOCK_HEADERS_MAX_LENGTH = 10"

definition GET_OPERATIONS_MAX_LENGTH :: nat where "GET_OPERATIONS_MAX_LENGTH = 10"

definition GET_PROTOCOLS_MAX_LENGTH :: nat where "GET_PROTOCOLS_MAX_LENGTH = 10"

definition PROTOCOL_COMPONENT_MAX_SIZE :: nat where "PROTOCOL_COMPONENT_MAX_SIZE = PROTOCOL_MAX_SIZE - 2"

definition GET_OPERATIONS_FOR_BLOCKS_MAX_LENGTH :: nat where "GET_OPERATIONS_FOR_BLOCKS_MAX_LENGTH = 10"

definition OPERATION_LIST_MAX_SIZE :: nat where "OPERATION_LIST_MAX_SIZE = 1024 * 1024"

definition CHAIN_NAME_MAX_LENGTH :: nat where "CHAIN_NAME_MAX_LENGTH = 128"

text \<open>The constants the attributes mention.\<close>

definition p2p_consts :: "(string \<times> nat) list" where
  "p2p_consts =
     [(''CRYPTO_KEY_SIZE'', CRYPTO_KEY_SIZE), (''POW_SIZE'', POW_SIZE), (''NONCE_SIZE'', NONCE_SIZE),
      (''CHAIN_NAME_MAX_LENGTH'', CHAIN_NAME_MAX_LENGTH),
      (''NACK_PEERS_MAX_LENGTH'', NACK_PEERS_MAX_LENGTH), (''P2P_POINT_MAX_SIZE'', P2P_POINT_MAX_SIZE),
      (''ADVERTISE_ID_LIST_MAX_LENGTH'', ADVERTISE_ID_LIST_MAX_LENGTH),
      (''BLOCK_HEADER_MAX_SIZE'', BLOCK_HEADER_MAX_SIZE),
      (''super::limits::BLOCK_HEADER_MAX_SIZE'', BLOCK_HEADER_MAX_SIZE),
      (''CURRENT_BRANCH_HISTORY_MAX_LENGTH'', CURRENT_BRANCH_HISTORY_MAX_LENGTH),
      (''MEMPOOL_MAX_SIZE'', MEMPOOL_MAX_SIZE),
      (''GET_BLOCK_HEADERS_MAX_LENGTH'', GET_BLOCK_HEADERS_MAX_LENGTH),
      (''OPERATION_MAX_SIZE'', OPERATION_MAX_SIZE),
      (''GET_OPERATIONS_MAX_LENGTH'', GET_OPERATIONS_MAX_LENGTH),
      (''PROTOCOL_COMPONENT_MAX_SIZE'', PROTOCOL_COMPONENT_MAX_SIZE),
      (''GET_PROTOCOLS_MAX_LENGTH'', GET_PROTOCOLS_MAX_LENGTH),
      (''GET_OPERATIONS_FOR_BLOCKS_MAX_LENGTH'', GET_OPERATIONS_FOR_BLOCKS_MAX_LENGTH),
      (''OPERATION_LIST_MAX_SIZE'', OPERATION_LIST_MAX_SIZE), (''MESSAGE_MAX_SIZE'', MESSAGE_MAX_SIZE)]"

section \<open>Annotated types\<close>

abbreviation flag :: "string \<Rightarrow> meta" where "flag n \<equiv> MPath [n]"

abbreviation param :: "string \<Rightarrow> string \<Rightarrow> meta" where "param n v \<equiv> MNameValue [n] (LitStr v)"

abbreviation encoding_attr :: "meta list \<Rightarrow> attribute list" where
  "encoding_attr ms \<equiv> [Attribute [''encoding''] (Some (MList [''encoding''] (map NMeta ms)))]"

abbreviation plain :: "string \<Rightarrow> ty" where "plain n \<equiv> TyPath [] n NoArgs"

abbreviation vec :: "ty \<Rightarrow> ty" where "vec t \<equiv> TyPath [] ''Vec'' (AngleArgs [GType t])"

abbreviation opt :: "ty \<Rightarrow> ty" where "opt t \<equiv> TyPath [] ''Option'' (AngleArgs [GType t])"

abbreviation struct_input :: "attribute list \<Rightarrow> string \<Rightarrow> sfield list \<Rightarrow> derive_input" where
  "struct_input attrs name fs \<equiv> DeriveInput attrs name (DataStruct (NamedFields fs))"

abbreviation tagged :: "nat \<Rightarrow> string \<Rightarrow> string \<Rightarrow> variant" where
  "tagged i n t \<equiv> Variant (encoding_attr [MNameValue [''tag''] (LitInt i)]) n (UnnamedFields [plain t])"

abbreviation tagged_unit :: "nat \<Rightarrow> string \<Rightarrow> variant" where
  "tagged_unit i n \<equiv> Variant (encoding_attr [MNameValue [''tag''] (LitInt i)]) n UnitFields"

definition NetworkVersion :: derive_input where
  "NetworkVersion = struct_input [] ''NetworkVersion''
     [SField (encoding_attr [param ''string'' ''CHAIN_NAME_MAX_LENGTH'']) ''chain_name'' (plain ''String''),
      SField [] ''distributed_db_version'' (plain ''u16''),
      SField [] ''p2p_version'' (plain ''u16'')]"

definition ConnectionMessage :: derive_input where
  "ConnectionMessage = struct_input [] ''ConnectionMessage''
     [SField [] ''port'' (plain ''u16''),
      SField (encoding_attr [param ''sized'' ''CRYPTO_KEY_SIZE'', flag ''bytes'']) ''public_key''
        (vec (plain ''u8'')),
      SField (encoding_attr [param ''sized'' ''POW_SIZE'', flag ''bytes'']) ''proof_of_work_stamp''
        (vec (plain ''u8'')),
      SField (encoding_attr [param ''sized'' ''NONCE_SIZE'', flag ''bytes'']) ''message_nonce''
        (vec (plain ''u8'')),
      SField [] ''version'' (plain ''NetworkVersion'')]"

definition MetadataMessage :: derive_input where
  "MetadataMessage = struct_input [] ''MetadataMessage''
     [SField [] ''disable_mempool'' (plain ''bool''), SField [] ''private_node'' (plain ''bool'')]"

definition NackMotive :: derive_input where
  "NackMotive = DeriveInput (encoding_attr [param ''tags'' ''u16'']) ''NackMotive''
     (DataEnum [Variant [] ''NoMotive'' UnitFields, Variant [] ''TooManyConnections'' UnitFields,
       Variant [] ''UnknownChainName'' UnitFields, Variant [] ''DeprecatedP2pVersion'' UnitFields,
       Variant [] ''DeprecatedDistributedDbVersion'' UnitFields, Variant [] ''AlreadyConnected'' UnitFields])"

definition NackInfo :: derive_input where
  "NackInfo = struct_input [] ''NackInfo''
     [SField [] ''motive'' (plain ''NackMotive''),
      SField (encoding_attr [flag ''dynamic'', param ''list'' ''NACK_PEERS_MAX_LENGTH'',
          param ''bounded'' ''P2P_POINT_MAX_SIZE'']) ''potential_peers_to_connect'' (vec (plain ''String''))]"

definition AckMessage :: derive_input where
  "AckMessage = DeriveInput [] ''AckMessage''
     (DataEnum [tagged_unit 0x00 ''Ack'', tagged_unit 0xff ''NackV0'', tagged 0x01 ''Nack'' ''NackInfo''])"

definition AdvertiseMessage :: derive_input where
  "AdvertiseMessage = struct_input [] ''AdvertiseMessage''
     [SField (encoding_attr [param ''list'' ''ADVERTISE_ID_LIST_MAX_LENGTH'',
          param ''bounded'' ''P2P_POINT_MAX_SIZE'']) ''id'' (vec (plain ''String''))]"

definition SwapMessage :: derive_input where
  "SwapMessage = struct_input [] ''SwapMessage''
     [SField (encoding_attr [param ''bounded'' ''P2P_POINT_MAX_SIZE'']) ''point'' (plain ''String''),
      SField [] ''peer_id'' (plain ''CryptoboxPublicKeyHash'')]"

definition BlockHeader :: derive_input where
  "BlockHeader = struct_input (encoding_attr [param ''bounded'' ''BLOCK_HEADER_MAX_SIZE'']) ''BlockHeader''
     [SField (encoding_attr [param ''builtin'' ''Int32'']) ''level'' (plain ''Level''),
      SField [] ''proto'' (plain ''u8''),
      SField [] ''predecessor'' (plain ''BlockHash''),
      SField (encoding_attr [flag ''timestamp'']) ''timestamp'' (plain ''i64''),
      SField [] ''validation_pass'' (plain ''u8''),
      SField [] ''operations_hash'' (plain ''OperationListListHash''),
      SField (encoding_attr [MList [''composite''] (map NMeta [flag ''dynamic'', flag ''list'',
          flag ''dynamic'', flag ''list'', param ''builtin'' ''Uint8''])]) ''fitness'' (plain ''Fitness''),
      SField [] ''context'' (plain ''ContextHash''),
      SField (encoding_attr [flag ''list'', param ''builtin'' ''Uint8'']) ''protocol_data''
        (vec (plain ''u8''))]"

definition BlockHeaderMessage :: derive_input where
  "BlockHeaderMessage = struct_input [] ''BlockHeaderMessage''
     [SField [] ''block_header'' (plain ''BlockHeader'')]"

definition GetBlockHeadersMessage :: derive_input where
  "GetBlockHeadersMessage = struct_input [] ''GetBlockHeadersMessage''
     [SField (encoding_attr [flag ''dynamic'', param ''list'' ''GET_BLOCK_HEADERS_MAX_LENGTH''])
        ''get_block_headers'' (vec (plain ''BlockHash''))]"

definition CurrentBranch :: derive_input where
  "CurrentBranch = struct_input [] ''CurrentBranch''
     [SField (encoding_attr [param ''dynamic'' ''super::limits::BLOCK_HEADER_MAX_SIZE'']) ''current_head''
        (plain ''BlockHeader''),
      SField (encoding_attr [param ''list'' ''CURRENT_BRANCH_HISTORY_MAX_LENGTH'']) ''history''
        (vec (plain ''BlockHash''))]"

definition CurrentBranchMessage :: derive_input where
  "CurrentBranchMessage = struct_input [] ''CurrentBranchMessage''
     [SField [] ''chain_id'' (plain ''ChainId''), SField [] ''current_branch'' (plain ''CurrentBranch'')]"

definition GetCurrentBranchMessage :: derive_input where
  "GetCurrentBranchMessage = struct_input [] ''GetCurrentBranchMessage''
     [SField [] ''chain_id'' (plain ''ChainId'')]"

definition Mempool :: derive_input where
  "Mempool = struct_input (encoding_attr [param ''bounded'' ''MEMPOOL_MAX_SIZE'']) ''Mempool''
     [SField (encoding_attr [flag ''dynamic'', flag ''list'']) ''known_valid'' (vec (plain ''OperationHash'')),
      SField (encoding_attr [flag ''dynamic'', flag ''dynamic'', flag ''list'']) ''pending''
        (vec (plain ''OperationHash''))]"

definition CurrentHeadMessage :: derive_input where
  "CurrentHeadMessage = struct_input [] ''CurrentHeadMessage''
     [SField [] ''chain_id'' (plain ''ChainId''),
      SField (encoding_attr [param ''dynamic'' ''BLOCK_HEADER_MAX_SIZE'']) ''current_block_header''
        (plain ''BlockHeader''),
      SField [] ''current_mempool'' (plain ''Mempool'')]"

definition GetCurrentHeadMessage :: derive_input where
  "GetCurrentHeadMessage = struct_input [] ''GetCurrentHeadMessage''
     [SField [] ''chain_id'' (plain ''ChainId'')]"

definition DeactivateMessage :: derive_input where
  "DeactivateMessage = struct_input [] ''DeactivateMessage'' [SField [] ''deactivate'' (plain ''ChainId'')]"

definition Operation :: derive_input where
  "Operation = struct_input [] ''Operation''
     [SField [] ''branch'' (plain ''BlockHash''),
      SField (encoding_attr [param ''list'' ''OPERATION_MAX_SIZE'']) ''data'' (vec (plain ''u8''))]"

definition OperationMessage :: derive_input where
  "OperationMessage = struct_input [] ''OperationMessage'' [SField [] ''operation'' (plain ''Operation'')]"

definition GetOperationsMessage :: derive_input where
  "GetOperationsMessage = struct_input [] ''GetOperationsMessage''
     [SField (encoding_attr [flag ''dynamic'', param ''list'' ''GET_OPERATIONS_MAX_LENGTH''])
        ''get_operations'' (vec (plain ''OperationHash''))]"

definition Component :: derive_input where
  "Component = struct_input [] ''Component''
     [SField [] ''name'' (plain ''String''), SField [] ''interface'' (opt (plain ''String'')),
      SField [] ''implementation'' (plain ''String'')]"

definition Protocol :: derive_input where
  "Protocol = struct_input [] ''Protocol''
     [SField [] ''expected_env_version'' (plain ''i16''),
      SField (encoding_attr [param ''dynamic'' ''PROTOCOL_COMPONENT_MAX_SIZE'', flag ''list''])
        ''components'' (vec (plain ''Component''))]"

definition ProtocolMessage :: derive_input where
  "ProtocolMessage = struct_input [] ''ProtocolMessage'' [SField [] ''protocol'' (plain ''Protocol'')]"

definition GetProtocolsMessage :: derive_input where
  "GetProtocolsMessage = struct_input [] ''GetProtocolsMessage''
     [SField (encoding_attr [flag ''dynamic'', param ''list'' ''GET_PROTOCOLS_MAX_LENGTH''])
        ''get_protocols'' (vec (plain ''ProtocolHash''))]"

definition OperationsForBlock :: derive_input where
  "OperationsForBlock = struct_input [] ''OperationsForBlock''
     [SField [] ''hash'' (plain ''BlockHash''), SField [] ''validation_pass'' (plain ''i8'')]"

definition OperationsForBlocksMessage :: derive_input where
  "OperationsForBlocksMessage = struct_input [] ''OperationsForBlocksMessage''
     [SField [] ''operations_for_block'' (plain ''OperationsForBlock''),
      SField [] ''operation_hashes_path'' (plain ''Path''),
      SField (encoding_attr [param ''bounded'' ''OPERATION_LIST_MAX_SIZE'', flag ''list'', flag ''dynamic''])
        ''operations'' (vec (plain ''Operation''))]"

definition GetOperationsForBlocksMessage :: derive_input where
  "GetOperationsForBlocksMessage = struct_input [] ''GetOperationsForBlocksMessage''
     [SField (encoding_attr [flag ''dynamic'', param ''list'' ''GET_OPERATIONS_FOR_BLOCKS_MAX_LENGTH''])
        ''get_operations_for_blocks'' (vec (plain ''OperationsForBlock''))]"

definition PeerMessage :: derive_input where
  "PeerMessage = DeriveInput (encoding_attr [param ''tags'' ''u16'', flag ''ignore_unknown'']) ''PeerMessage''
     (DataEnum
       [tagged_unit 0x01 ''Disconnect'',
        tagged 0x03 ''Advertise'' ''AdvertiseMessage'',
        tagged 0x04 ''SwapRequest'' ''SwapMessage'',
        tagged 0x05 ''SwapAck'' ''SwapMessage'',
        tagged_unit 0x02 ''Bootstrap'',
        tagged 0x10 ''GetCurrentBranch'' ''GetCurrentBranchMessage'',
        tagged 0x11 ''CurrentBranch'' ''CurrentBranchMessage'',
        tagged 0x12 ''Deactivate'' ''DeactivateMessage'',
        tagged 0x13 ''GetCurrentHead'' ''GetCurrentHeadMessage'',
        tagged 0x14 ''CurrentHead'' ''CurrentHeadMessage'',
        tagged 0x20 ''GetBlockHeaders'' ''GetBlockHeadersMessage'',
        tagged 0x21 ''BlockHeader'' ''BlockHeaderMessage'',
        tagged 0x30 ''GetOperations'' ''GetOperationsMessage'',
        tagged 0x31 ''Operation'' ''OperationMessage'',
        tagged 0x40 ''GetProtocols'' ''GetProtocolsMessage'',
        tagged 0x41 ''Protocol'' ''ProtocolMessage'',
        tagged 0x60 ''GetOperationsForBlocks'' ''GetOperationsForBlocksMessage'',
        tagged 0x61 ''OperationsForBlocks'' ''OperationsForBlocksMessage''])"

definition PeerMessageResponse :: derive_input where
  "PeerMessageResponse = struct_input (encoding_attr [param ''dynamic'' ''MESSAGE_MAX_SIZE''])
     ''PeerMessageResponse'' [SField [] ''message'' (plain ''PeerMessage'')]"

definition p2p_types :: "derive_input list" where
  "p2p_types =
     [NetworkVersion, ConnectionMessage, MetadataMessage, NackMotive, NackInfo, AckMessage,
      AdvertiseMessage, SwapMessage, BlockHeader, BlockHeaderMessage, GetBlockHeadersMessage,
      CurrentBranch, CurrentBranchMessage, GetCurrentBranchMessage, Mempool, CurrentHeadMessage,
      GetCurrentHeadMessage, DeactivateMessage, Operation, OperationMessage, GetOperationsMessage,
      Component, Protocol, ProtocolMessage, GetProtocolsMessage, OperationsForBlock,
      OperationsForBlocksMessage, GetOperationsForBlocksMessage, PeerMessage, PeerMessageResponse]"

section \<open>Elaboration\<close>

definition hash_types :: "(string \<times> hash_type) list" where
  "hash_types =
     [(''ChainId'', ChainId), (''BlockHash'', BlockHash), (''BlockMetadataHash'', BlockMetadataHash),
      (''OperationHash'', OperationHash), (''OperationListListHash'', OperationListListHash),
      (''OperationMetadataHash'', OperationMetadataHash),
      (''OperationMetadataListListHash'', OperationMetadataListListHash),
      (''ContextHash'', ContextHash), (''ProtocolHash'', ProtocolHash),
      (''ContractKt1Hash'', ContractKt1Hash), (''ContractTz1Hash'', ContractTz1Hash),
      (''ContractTz2Hash'', ContractTz2Hash), (''ContractTz3Hash'', ContractTz3Hash),
      (''CryptoboxPublicKeyHash'', CryptoboxPublicKeyHash), (''PublicKeyEd25519'', PublicKeyEd25519),
      (''PublicKeySecp256k1'', PublicKeySecp256k1), (''PublicKeyP256'', PublicKeyP256)]"

definition no_type :: rtype where
  "no_type = \<lparr>t_encoding = EUnit, t_nom_read = (\<lambda>_. Panic), t_values = (\<lambda>_. False)\<rparr>"

definition base_env :: "nom \<Rightarrow> rust ncomb \<Rightarrow> path_nom \<Rightarrow> tenv" where
  "base_env N C P = \<lparr>
     type_of_path = (\<lambda>p. case map_of hash_types p of
         Some ht \<Rightarrow> hash_rtype N C p ht
       | None \<Rightarrow> if p = ''Path'' then path_type N P else no_type),
     default_of = (\<lambda>_ _. RNone)\<rparr>"

fun add_types :: "nom \<Rightarrow> rust ncomb \<Rightarrow> wire \<Rightarrow> bigint \<Rightarrow> syn \<Rightarrow> tenv \<Rightarrow> derive_input list \<Rightarrow> tenv" where
  "add_types N C W I S G [] = G"
| "add_types N C W I S G (di # dis) =
     add_types N C W I S
       (case make_encoding S di of
          Ok d \<Rightarrow> G\<lparr>type_of_path := (type_of_path G)(di_ident di := derive N C W I G d)\<rparr>
        | _ \<Rightarrow> G) dis"

definition p2p_env :: "nom \<Rightarrow> rust ncomb \<Rightarrow> path_nom \<Rightarrow> wire \<Rightarrow> bigint \<Rightarrow> syn \<Rightarrow> tenv" where
  "p2p_env N C P W I S = add_types N C W I S (base_env N C P) p2p_types"

text \<open>The encodings the macro makes of these types, proved below.\<close>

definition p2p_encodings :: "(string \<times> denc) list" where
  "p2p_encodings =
     [(''NetworkVersion'', DStruct ''NetworkVersion''
         [(''chain_name'', Some (DString (Some CHAIN_NAME_MAX_LENGTH))),
          (''distributed_db_version'', Some (DPrimitive PUint16)), (''p2p_version'', Some (DPrimitive PUint16))]),
      (''ConnectionMessage'', DStruct ''ConnectionMessage''
         [(''port'', Some (DPrimitive PUint16)), (''public_key'', Some (DSized CRYPTO_KEY_SIZE DBytes)),
          (''proof_of_work_stamp'', Some (DSized POW_SIZE DBytes)),
          (''message_nonce'', Some (DSized NONCE_SIZE DBytes)), (''version'', Some (DPath ''NetworkVersion''))]),
      (''MetadataMessage'', DStruct ''MetadataMessage''
         [(''disable_mempool'', Some (DPrimitive PBool)), (''private_node'', Some (DPrimitive PBool))]),
      (''NackMotive'', DEnum ''NackMotive'' TagU16 False
         [(0, ''NoMotive'', DUnit), (1, ''TooManyConnections'', DUnit), (2, ''UnknownChainName'', DUnit),
          (3, ''DeprecatedP2pVersion'', DUnit), (4, ''DeprecatedDistributedDbVersion'', DUnit),
          (5, ''AlreadyConnected'', DUnit)]),
      (''NackInfo'', DStruct ''NackInfo''
         [(''motive'', Some (DPath ''NackMotive'')),
          (''potential_peers_to_connect'', Some (DDynamic None
             (DList (Some NACK_PEERS_MAX_LENGTH) (DBounded P2P_POINT_MAX_SIZE (DString None)))))]),
      (''AckMessage'', DEnum ''AckMessage'' TagU8 False
         [(0, ''Ack'', DUnit), (0xFF, ''NackV0'', DUnit), (1, ''Nack'', DPath ''NackInfo'')]),
      (''AdvertiseMessage'', DStruct ''AdvertiseMessage''
         [(''id'', Some (DList (Some ADVERTISE_ID_LIST_MAX_LENGTH) (DBounded P2P_POINT_MAX_SIZE (DString None))))]),
      (''SwapMessage'', DStruct ''SwapMessage''
         [(''point'', Some (DBounded P2P_POINT_MAX_SIZE (DString None))),
          (''peer_id'', Some (DPath ''CryptoboxPublicKeyHash''))]),
      (''BlockHeader'', DBounded BLOCK_HEADER_MAX_SIZE (DStruct ''BlockHeader''
         [(''level'', Some (DPrimitive PInt32)), (''proto'', Some (DPrimitive PUint8)),
          (''predecessor'', Some (DPath ''BlockHash'')), (''timestamp'', Some (DPrimitive PTimestamp)),
          (''validation_pass'', Some (DPrimitive PUint8)),
          (''operations_hash'', Some (DPath ''OperationListListHash'')),
          (''fitness'', Some (DDynamic None (DList None (DDynamic None (DList None (DPrimitive PUint8)))))),
          (''context'', Some (DPath ''ContextHash'')),
          (''protocol_data'', Some (DList None (DPrimitive PUint8)))])),
      (''BlockHeaderMessage'', DStruct ''BlockHeaderMessage'' [(''block_header'', Some (DPath ''BlockHeader''))]),
      (''GetBlockHeadersMessage'', DStruct ''GetBlockHeadersMessage''
         [(''get_block_headers'', Some (DDynamic None
             (DList (Some GET_BLOCK_HEADERS_MAX_LENGTH) (DPath ''BlockHash''))))]),
      (''CurrentBranch'', DStruct ''CurrentBranch''
         [(''current_head'', Some (DDynamic (Some BLOCK_HEADER_MAX_SIZE) (DPath ''BlockHeader''))),
          (''history'', Some (DList (Some CURRENT_BRANCH_HISTORY_MAX_LENGTH) (DPath ''BlockHash'')))]),
      (''CurrentBranchMessage'', DStruct ''CurrentBranchMessage''
         [(''chain_id'', Some (DPath ''ChainId'')), (''current_branch'', Some (DPath ''CurrentBranch''))]),
      (''GetCurrentBranchMessage'', DStruct ''GetCurrentBranchMessage'' [(''chain_id'', Some (DPath ''ChainId''))]),
      (''Mempool'', DBounded MEMPOOL_MAX_SIZE (DStruct ''Mempool''
         [(''known_valid'', Some (DDynamic None (DList None (DPath ''OperationHash'')))),
          (''pending'', Some (DDynamic None (DDynamic None (DList None (DPath ''OperationHash'')))))])),
      (''CurrentHeadMessage'', DStruct ''CurrentHeadMessage''
         [(''chain_id'', Some (DPath ''ChainId'')),
          (''current_block_header'', Some (DDynamic (Some BLOCK_HEADER_MAX_SIZE) (DPath ''BlockHeader''))),
          (''current_mempool'', Some (DPath ''Mempool''))]),
      (''GetCurrentHeadMessage'', DStruct ''GetCurrentHeadMessage'' [(''chain_id'', Some (DPath ''ChainId''))]),
      (''DeactivateMessage'', DStruct ''DeactivateMessage'' [(''deactivate'', Some (DPath ''ChainId''))]),
      (''Operation'', DStruct ''Operation''
         [(''branch'', Some (DPath ''BlockHash'')),
          (''data'', Some (DList (Some OPERATION_MAX_SIZE) (DPrimitive PUint8)))]),
      (''OperationMessage'', DStruct ''OperationMessage'' [(''operation'', Some (DPath ''Operation''))]),
      (''GetOperationsMessage'', DStruct ''GetOperationsMessage''
         [(''get_operations'', Some (DDynamic None
             (DList (Some GET_OPERATIONS_MAX_LENGTH) (DPath ''OperationHash''))))]),
      (''Component'', DStruct ''Component''
         [(''name'', Some (DString None)), (''interface'', Some (DOptionField (DString None))),
          (''implementation'', Some (DString None))]),
      (''Protocol'', DStruct ''Protocol''
         [(''expected_env_version'', Some (DPrimitive PInt16)),
          (''components'', Some (DDynamic (Some PROTOCOL_COMPONENT_MAX_SIZE) (DList None (DPath ''Component''))))]),
      (''ProtocolMessage'', DStruct ''ProtocolMessage'' [(''protocol'', Some (DPath ''Protocol''))]),
      (''GetProtocolsMessage'', DStruct ''GetProtocolsMessage''
         [(''get_protocols'', Some (DDynamic None
             (DList (Some GET_PROTOCOLS_MAX_LENGTH) (DPath ''ProtocolHash''))))]),
      (''OperationsForBlock'', DStruct ''OperationsForBlock''
         [(''hash'', Some (DPath ''BlockHash'')), (''validation_pass'', Some (DPrimitive PInt8))]),
      (''OperationsForBlocksMessage'', DStruct ''OperationsForBlocksMessage''
         [(''operations_for_block'', Some (DPath ''OperationsForBlock'')),
          (''operation_hashes_path'', Some (DPath ''Path'')),
          (''operations'', Some (DBounded OPERATION_LIST_MAX_SIZE
             (DList None (DDynamic None (DPath ''Operation'')))))]),
      (''GetOperationsForBlocksMessage'', DStruct ''GetOperationsForBlocksMessage''
         [(''get_operations_for_blocks'', Some (DDynamic None
             (DList (Some GET_OPERATIONS_FOR_BLOCKS_MAX_LENGTH) (DPath ''OperationsForBlock''))))]),
      (''PeerMessage'', DEnum ''PeerMessage'' TagU16 True
         [(0x01, ''Disconnect'', DUnit), (0x03, ''Advertise'', DPath ''AdvertiseMessage''),
          (0x04, ''SwapRequest'', DPath ''SwapMessage''), (0x05, ''SwapAck'', DPath ''SwapMessage''),
          (0x02, ''Bootstrap'', DUnit), (0x10, ''GetCurrentBranch'', DPath ''GetCurrentBranchMessage''),
          (0x11, ''CurrentBranch'', DPath ''CurrentBranchMessage''),
          (0x12, ''Deactivate'', DPath ''DeactivateMessage''),
          (0x13, ''GetCurrentHead'', DPath ''GetCurrentHeadMessage''),
          (0x14, ''CurrentHead'', DPath ''CurrentHeadMessage''),
          (0x20, ''GetBlockHeaders'', DPath ''GetBlockHeadersMessage''),
          (0x21, ''BlockHeader'', DPath ''BlockHeaderMessage''),
          (0x30, ''GetOperations'', DPath ''GetOperationsMessage''),
          (0x31, ''Operation'', DPath ''OperationMessage''),
          (0x40, ''GetProtocols'', DPath ''GetProtocolsMessage''),
          (0x41, ''Protocol'', DPath ''ProtocolMessage''),
          (0x60, ''GetOperationsForBlocks'', DPath ''GetOperationsForBlocksMessage''),
          (0x61, ''OperationsForBlocks'', DPath ''OperationsForBlocksMessage'')]),
      (''PeerMessageResponse'', DDynamic (Some MESSAGE_MAX_SIZE) (DStruct ''PeerMessageResponse''
         [(''message'', Some (DPath ''PeerMessage''))]))]"

section \<open>The macro on these types\<close>

lemmas message_defs = NetworkVersion_def ConnectionMessage_def MetadataMessage_def NackMotive_def
  NackInfo_def AckMessage_def AdvertiseMessage_def SwapMessage_def BlockHeader_def BlockHeaderMessage_def
  GetBlockHeadersMessage_def CurrentBranch_def CurrentBranchMessage_def GetCurrentBranchMessage_def
  Mempool_def CurrentHeadMessage_def GetCurrentHeadMessage_def DeactivateMessage_def Operation_def
  OperationMessage_def GetOperationsMessage_def Component_def Protocol_def ProtocolMessage_def
  GetProtocolsMessage_def OperationsForBlock_def OperationsForBlocksMessage_def
  GetOperationsForBlocksMessage_def PeerMessage_def PeerMessageResponse_def

text \<open>
  What the attributes rely on of \<^verbatim>\<open>syn\<close>: the identifiers and paths they hold parse as such. The constants
  have the values above.
\<close>

locale p2p_syn =
  fixes S :: syn
  assumes ident: "s \<in> set (''u8'' # ''u16'' # map fst PRIMITIVE_NAMES) \<Longrightarrow> parse_ident S s = Some s"
    and expr: "s \<in> fst ` set p2p_consts \<Longrightarrow> parse_expr S s = Some s"
    and const: "(s, n) \<in> set p2p_consts \<Longrightarrow> const_value S s = n"
begin

lemma parse_size_const: "(s, n) \<in> set p2p_consts \<Longrightarrow> parse_size S s = Some n"
  using expr [of s] const [of s n] by (force simp: parse_size_def)


lemma const_sizes [simp]:
   "parse_size S ''CRYPTO_KEY_SIZE'' = Some CRYPTO_KEY_SIZE"
    "parse_size S ''POW_SIZE'' = Some POW_SIZE"
    "parse_size S ''NONCE_SIZE'' = Some NONCE_SIZE"
    "parse_size S ''CHAIN_NAME_MAX_LENGTH'' = Some CHAIN_NAME_MAX_LENGTH"
    "parse_size S ''NACK_PEERS_MAX_LENGTH'' = Some NACK_PEERS_MAX_LENGTH"
    "parse_size S ''P2P_POINT_MAX_SIZE'' = Some P2P_POINT_MAX_SIZE"
    "parse_size S ''ADVERTISE_ID_LIST_MAX_LENGTH'' = Some ADVERTISE_ID_LIST_MAX_LENGTH"
    "parse_size S ''BLOCK_HEADER_MAX_SIZE'' = Some BLOCK_HEADER_MAX_SIZE"
    "parse_size S ''super::limits::BLOCK_HEADER_MAX_SIZE'' = Some BLOCK_HEADER_MAX_SIZE"
    "parse_size S ''CURRENT_BRANCH_HISTORY_MAX_LENGTH'' = Some CURRENT_BRANCH_HISTORY_MAX_LENGTH"
    "parse_size S ''MEMPOOL_MAX_SIZE'' = Some MEMPOOL_MAX_SIZE"
    "parse_size S ''GET_BLOCK_HEADERS_MAX_LENGTH'' = Some GET_BLOCK_HEADERS_MAX_LENGTH"
    "parse_size S ''OPERATION_MAX_SIZE'' = Some OPERATION_MAX_SIZE"
    "parse_size S ''GET_OPERATIONS_MAX_LENGTH'' = Some GET_OPERATIONS_MAX_LENGTH"
    "parse_size S ''PROTOCOL_COMPONENT_MAX_SIZE'' = Some PROTOCOL_COMPONENT_MAX_SIZE"
    "parse_size S ''GET_PROTOCOLS_MAX_LENGTH'' = Some GET_PROTOCOLS_MAX_LENGTH"
    "parse_size S ''GET_OPERATIONS_FOR_BLOCKS_MAX_LENGTH'' = Some GET_OPERATIONS_FOR_BLOCKS_MAX_LENGTH"
    "parse_size S ''OPERATION_LIST_MAX_SIZE'' = Some OPERATION_LIST_MAX_SIZE"
    "parse_size S ''MESSAGE_MAX_SIZE'' = Some MESSAGE_MAX_SIZE"
   by (rule parse_size_const, simp add: p2p_consts_def)+

lemma idents [simp]: "parse_ident S ''u16'' = Some ''u16''" "parse_ident S ''Int32'' = Some ''Int32''"
   "parse_ident S ''Uint8'' = Some ''Uint8''"
  by (simp_all add: ident PRIMITIVE_NAMES_def)

lemma primitives [simp]: "parse_primitive S ''Int32'' = Some PInt32" "parse_primitive S ''Uint8'' = Some PUint8"
  by (simp_all add: parse_primitive_def PRIMITIVE_NAMES_def)


lemma p2p_made:
  "list_all2 (\<lambda>di (n, d). di_ident di = n \<and> make_encoding S di = Ok d) p2p_types p2p_encodings"
  unfolding p2p_types_def p2p_encodings_def
  by (intro list_all2_Cons [THEN iffD2] conjI list_all2_Nil [THEN iffD2], simp_all only: prod.case)
    (simp_all add: message_defs make_defs)

end

definition syn_ref :: syn where
  "syn_ref = \<lparr>parse_expr = Some, parse_ident = Some, const_value = (\<lambda>s. the (map_of p2p_consts s))\<rparr>"

lemma distinct_p2p_consts: "distinct (map fst p2p_consts)"
  by (simp add: p2p_consts_def)

interpretation syn_ref: p2p_syn syn_ref
  by unfold_locales (auto simp: syn_ref_def map_of_is_SomeI [OF distinct_p2p_consts])

section \<open>Round trips\<close>

fun add_encodings :: "nom \<Rightarrow> rust ncomb \<Rightarrow> wire \<Rightarrow> bigint \<Rightarrow> tenv \<Rightarrow> (string \<times> denc) list \<Rightarrow> tenv" where
  "add_encodings N C W I G [] = G"
| "add_encodings N C W I G ((n, d) # ds) =
     add_encodings N C W I (G\<lparr>type_of_path := (type_of_path G)(n := derive N C W I G d)\<rparr>) ds"

definition base_kinds :: "string \<Rightarrow> kind" where
  "base_kinds p = (if map_of hash_types p \<noteq> None \<or> p = ''Path'' then Item else NoRT)"

definition kind_of :: "(string \<times> kind) list \<Rightarrow> string \<Rightarrow> kind" where
  "kind_of tbl p = (case map_of tbl p of Some k \<Rightarrow> k | None \<Rightarrow> base_kinds p)"

fun add_kinds :: "(string \<times> kind) list \<Rightarrow> (string \<times> denc) list \<Rightarrow> (string \<times> kind) list" where
  "add_kinds tbl [] = tbl"
| "add_kinds tbl ((n, d) # ds) = add_kinds ((n, shape (kind_of tbl) d) # tbl) ds"

lemma add_types_encodings:
  assumes "list_all2 (\<lambda>di (n, d). di_ident di = n \<and> make_encoding S di = Ok d) dis ds"
  shows "add_types N C W I S G dis = add_encodings N C W I G ds"
  using assms
proof (induction dis ds arbitrary: G rule: list_all2_induct)
  case (Cons di dis nd ds)
  then show ?case by (cases nd) simp
qed simp

context reader
begin

lemma add_encodings_rt:
  assumes "\<And>p. rt K z (type_of_path G p) (kind_of tbl p)"
  shows "rt K z (type_of_path (add_encodings N C W I G ds) p) (kind_of (add_kinds tbl ds) p)"
  using assms
proof (induction ds arbitrary: G tbl)
  case (Cons nd ds)
  obtain n d where nd: "nd = (n, d)" by (cases nd)
  show ?case unfolding nd add_encodings.simps add_kinds.simps
  proof (rule Cons.IH)
    show "rt K z (type_of_path (G\<lparr>type_of_path := (type_of_path G)(n := derive N C W I G d)\<rparr>) p)
        (kind_of ((n, shape (kind_of tbl) d) # tbl) p)" for p
      using Cons.prems shape_rt_all(1) [of K z G "kind_of tbl" W I d] by (simp add: kind_of_def)
  qed
qed simp

end


lemma add_kinds_step:
  "shape (kind_of tbl) d = k \<Longrightarrow> k \<noteq> NoRT \<Longrightarrow> list_all (\<lambda>(n, k). k \<noteq> NoRT) (add_kinds ((n, k) # tbl) ds) \<Longrightarrow>
   list_all (\<lambda>(n, k). k \<noteq> NoRT) (add_kinds tbl ((n, d) # ds))"
  by simp

lemma p2p_kinds: "list_all (\<lambda>(n, k). k \<noteq> NoRT) (add_kinds [] p2p_encodings)"
  unfolding p2p_encodings_def
  by ((rule add_kinds_step, simp add: kind_of_def base_kinds_def hash_types_def kind_table
      CRYPTO_KEY_SIZE_def POW_SIZE_def NONCE_SIZE_def, simp)+) simp

lemma add_encodings_other:
  "n \<notin> fst ` set ds \<Longrightarrow> type_of_path (add_encodings N C W I G ds) n = type_of_path G n"
proof (induction ds arbitrary: G)
  case (Cons nd ds)
  then show ?case by (cases nd) auto
qed simp

lemma add_encodings_append:
  "add_encodings N C W I G (ds @ es) = add_encodings N C W I (add_encodings N C W I G ds) es"
proof (induction ds arbitrary: G)
  case (Cons nd ds)
  then show ?case by (cases nd) auto
qed simp

lemma add_encodings_lookup:
  "n \<notin> fst ` set post \<Longrightarrow>
   type_of_path (add_encodings N C W I G (pre @ (n, d) # post)) n = derive N C W I (add_encodings N C W I G pre) d"
  by (simp add: add_encodings_append add_encodings_other)

lemma map_fst_add_kinds: "map fst (add_kinds tbl ds) = rev (map fst ds) @ map fst tbl"
proof (induction ds arbitrary: tbl)
  case (Cons nd ds)
  then show ?case by (cases nd) auto
qed simp

lemma p2p_kind_of: "n \<in> fst ` set p2p_encodings \<Longrightarrow> is_final (kind_of (add_kinds [] p2p_encodings) n)"
proof -
  assume "n \<in> fst ` set p2p_encodings"
  then have "n \<in> set (map fst (add_kinds [] p2p_encodings))" by (simp add: map_fst_add_kinds)
  then obtain k where k: "map_of (add_kinds [] p2p_encodings) n = Some k"
    by (metis list.set_map map_of_eq_None_iff not_Some_eq)
  with p2p_kinds have "k \<noteq> NoRT" by (auto simp: list_all_iff dest: map_of_SomeD)
  with k show ?thesis by (simp add: kind_of_def is_final_def)
qed

lemma p2p_env_encodings:
  assumes "p2p_syn S"
  shows "p2p_env N C P W I S = add_encodings N C W I (base_env N C P) p2p_encodings"
  using add_types_encodings [OF p2p_syn.p2p_made [OF assms]] by (simp add: p2p_env_def)

lemma base_env_rt:
  assumes "reader N C" and "path_reader N P"
  shows "rt K z (type_of_path (base_env N C P) p) (kind_of [] p)"
  using reader.hash_item [OF assms(1)] path_reader.path_item_ok [OF assms(2)]
  by (auto simp: base_env_def kind_of_def base_kinds_def split: option.split)

lemma p2p_final:
  assumes "reader N C" and "path_reader N P" and "p2p_syn S" and "n \<in> fst ` set p2p_encodings"
  shows "final_ok K z (type_of_path (p2p_env N C P W I S) n)"
  using reader.add_encodings_rt [OF assms(1) base_env_rt [OF assms(1,2)]] p2p_kind_of [OF assms(4)]
    rt_final p2p_env_encodings [OF assms(3)] by metis

lemma p2p_names: "map di_ident p2p_types = map fst p2p_encodings"
  by (simp add: p2p_types_def p2p_encodings_def message_defs)

lemma binary_write_encodes:
  assumes "wire_laws W" and "binary_write W H K r (t_encoding T) = Ok bs" and "t_values T r"
  shows "encodes K (z_bytes W H) T r bs"
proof -
  from assms(2) obtain v n where v: "serialize K r = Ok v" "encode_any W H [] v (t_encoding T) = Ok (n, bs)"
    by (auto simp: binary_write_def)
  then have "enc (z_bytes W H) v (t_encoding T) = Some bs"
    using soundD [OF wire_laws.encode_sound [OF assms(1) refl], of H "[]" v "t_encoding T" n bs]
    by (auto simp: encode_any_value)
  with v assms(3) show ?thesis by (auto simp: encodes_def)
qed

end
