(* ===== verification/Reader_Safety.thy ===== *)
theory Reader_Safety
  imports Messages
begin

text \<open>
  No input makes a derived reader panic. The panics of the readers are the slice of \<^verbatim>\<open>bounded\<close>, the \<^verbatim>\<open>unwrap\<close> in the
  hash readers and the \<^verbatim>\<open>unreachable!\<close> arm of the generator; none is reached. The loops of the number readers
  end within their fuel.
\<close>

definition safe :: "'a parser \<Rightarrow> bool" where
  "safe p \<longleftrightarrow> (\<forall>i. safe_at p i)"

fun closed_denc :: "(string \<Rightarrow> bool) \<Rightarrow> denc \<Rightarrow> bool"
  and closed_fields :: "(string \<Rightarrow> bool) \<Rightarrow> (string \<times> denc option) list \<Rightarrow> bool"
  and closed_tags :: "(string \<Rightarrow> bool) \<Rightarrow> (u16 \<times> string \<times> denc) list \<Rightarrow> bool" where
  \<comment> \<open>\<open>DUnit\<close> only as the content of a variant, and only known paths\<close>
  "closed_denc known DUnit = False"
| "closed_denc known (DPrimitive p) = True"
| "closed_denc known DBytes = True"
| "closed_denc known (DPath p) = known p"
| "closed_denc known DZarith = True"
| "closed_denc known DMuTez = True"
| "closed_denc known (DString sz) = True"
| "closed_denc known (DStruct name fs) = closed_fields known fs"
| "closed_denc known (DEnum name tt ignore_unknown tags) = closed_tags known tags"
| "closed_denc known (DOptionField e) = closed_denc known e"
| "closed_denc known (DList sz e) = closed_denc known e"
| "closed_denc known (DSized m e) = closed_denc known e"
| "closed_denc known (DBounded m e) = closed_denc known e"
| "closed_denc known (DDynamic sz e) = closed_denc known e"
| "closed_fields known [] = True"
| "closed_fields known ((f, None) # fs) = closed_fields known fs"
| "closed_fields known ((f, Some e) # fs) = (closed_denc known e \<and> closed_fields known fs)"
| "closed_tags known [] = True"
| "closed_tags known ((i, v, e) # tags) = ((e = DUnit \<or> closed_denc known e) \<and> closed_tags known tags)"

lemma safeI: "(\<And>i. safe_at p i) \<Longrightarrow> safe p"
  by (simp add: safe_def)

lemma safeD: "safe p \<Longrightarrow> safe_at p i"
  by (simp add: safe_def)

lemma safe_bind:
  assumes "safe_at p i" and "\<And>r a. p i = Ok (r, a) \<Longrightarrow> suffix r i \<Longrightarrow> safe_at (k a) r"
    and "q i = res_bind (p i) (\<lambda>(r, a). k a r)"
  shows "safe_at q i"
  using assms(1)
proof (cases rule: safe_at_cases)
  case (1 r a)
  from safe_at_shift [OF assms(2) [OF 1] 1(2)] assms(3) 1(1) show ?thesis by simp
qed (simp add: safe_at_Err assms(3))

lemma safe_return: "safe_at (\<lambda>i. Ok (i, a)) i"
  by (simp add: safe_at_def)

lemma safe_represent: "safe p \<Longrightarrow> safe (represent f p)"
  by (rule safeI, rule safe_bind [where p = p and k = "\<lambda>b i. Ok (i, f b)"])
    (auto simp: represent_def safe_return safeD)

lemma safe_labels: "safe p \<Longrightarrow> safe (read_field n p)" "safe p \<Longrightarrow> safe (read_variant n p)"
  by (auto simp: safe_def safe_at_def read_field_def read_variant_def)

lemma safe_seq_read: "list_all safe ps \<Longrightarrow> safe (seq_read ps)"
proof (induction ps)
  case Nil
  then show ?case by (simp add: safe_def safe_at_def)
next
  case (Cons p ps)
  show ?case
  proof (rule safeI, rule safe_bind [where p = p and k = "\<lambda>a. represent (\<lambda>xs. a # xs) (seq_read ps)"])
    fix i
    show "safe_at p i" using Cons.prems by (simp add: safeD)
    show "safe_at (represent (\<lambda>xs. a # xs) (seq_read ps)) r" for r and a :: rust
      using Cons by (simp add: safeD safe_represent)
    show "seq_read (p # ps) i = res_bind (p i) (\<lambda>(r, a). represent (\<lambda>xs. a # xs) (seq_read ps) r)"
      by (simp add: represent_def)
  qed
qed

lemma safe_read_be: "0 < n \<Longrightarrow> safe (read_be n :: 'a::len word parser)"
  by (auto simp: safe_def safe_at_def read_be_def suffix_drop)

lemma safe_bounded: "safe f \<Longrightarrow> safe (bounded m f)"
proof (rule safeI)
  fix i
  assume "safe f"
  then have "safe_at f (take (min m (length i)) i)" by (rule safeD)
  then show "safe_at (bounded m f) i"
  proof (cases rule: safe_at_cases)
    case (1 r a)
    from suffix_length_le [OF 1(2)] have "length r \<le> min m (length i)" by simp
    with 1(1) show ?thesis by (auto simp: safe_at_def bounded_def Let_def suffix_drop)
  next
    case (2 e)
    then show ?thesis
      by (cases e) (auto simp: safe_at_def bounded_def Let_def
          split: decode_error.splits decode_error_kind.splits nom_kind.splits)
  qed
qed

lemma safe_enum:
  assumes "safe (read_tag_id N tt)" and "\<And>t p. (t, p) \<in> set tags \<Longrightarrow> safe p"
  shows "safe (enum_nom_read N tt ign tags)"
proof (rule safeI)
  fix i
  let ?k = "\<lambda>t r. case map_of tags t of Some p \<Rightarrow> p r
    | None \<Rightarrow> Err (Failure ((if ign then unknown_tag else invalid_tag) r (tag_text (unat t))))"
  show "safe_at (enum_nom_read N tt ign tags) i"
  proof (rule safe_bind [where p = "read_tag_id N tt" and k = ?k])
    show "safe_at (?k t) r" for t r
    proof (cases "map_of tags t")
      case None
      then show ?thesis by (simp add: safe_at_def)
    next
      case (Some p)
      then have "safe p" using assms(2) map_of_SomeD by fastforce
      with Some show ?thesis by (simp add: safeD)
    qed
  qed (use assms(1) in \<open>simp_all add: safeD enum_nom_read_def\<close>)
qed

section \<open>Number loops\<close>

lemma push_bits_no_panic: "push_bits input byte is bits \<noteq> Panic"
  by (induction input byte "is" bits rule: push_bits.induct) (auto simp: res_bind_eq_Panic bits_get_def)

lemma bits_no_panic: "bits_get w n \<noteq> Panic" "bits_take w n \<noteq> Panic"
  by (simp_all add: bits_get_def bits_take_def Let_def)

context nom_laws
begin

lemma u8_safe: "safe (n_u8 N)"
  using safe_read_be [of 1] by (simp add: safe_def safe_at_def read_int)

lemma u8_shorter: "n_u8 N i = Ok (r, b) \<Longrightarrow> suffix r i \<and> length r < length i"
  by (auto simp: read_int read_be_def suffix_drop split: if_splits)

lemma chunks_loop_safe: "length i < fuel \<Longrightarrow> safe_at (chunks_loop fuel N bits) i"
proof (induction fuel arbitrary: bits i)
  case (Suc fuel)
  show ?case
  proof (cases "n_u8 N i")
    case (Ok x)
    then obtain r b where u8: "n_u8 N i = Ok (r, b)" by (cases x) auto
    note r = u8_shorter [OF u8]
    have IH: "safe_at (chunks_loop fuel N bits') r" for bits' using Suc r by auto
    show ?thesis
    proof (cases "push_bits i b [0..<7] bits")
      case push: (Ok bits')
      with u8 r IH [of bits'] bits_no_panic(1) [of b 7] show ?thesis
        by (cases "bits_get b 7") (auto simp: safe_at_def intro: suffix_order.trans)
    qed (use u8 push_bits_no_panic in \<open>auto simp: safe_at_def\<close>)
  qed (use safeD [OF u8_safe, of i] in \<open>auto simp: safe_at_def\<close>)
qed simp

lemma mutez_safe: "safe (mutez N W I)"
proof (rule safeI)
  fix i
  have "safe_at (chunks_loop (Suc (length i)) N []) i" by (rule chunks_loop_safe) simp
  then show "safe_at (mutez N W I) i"
    by (cases rule: safe_at_cases) (auto simp: safe_at_def mutez_def simp del: chunks_loop.simps)
qed

lemma zarith_safe: "safe (zarith N W I)"
proof (rule safeI)
  fix i
  show "safe_at (zarith N W I) i"
  proof (cases "n_u8 N i")
    case (Ok x)
    then obtain r b where u8: "n_u8 N i = Ok (r, b)" by (cases x) auto
    note r = u8_shorter [OF u8]
    have loop: "safe_at (chunks_loop (Suc (length r)) N bits) r" for bits by (rule chunks_loop_safe) simp
    have "chunks_loop (Suc (length r)) N bits r \<noteq> Panic"
      "chunks_loop (Suc (length r)) N bits r = Ok (r', b') \<Longrightarrow> suffix r' i" for bits r' b'
      using loop [of bits] r by (auto simp: safe_at_def intro: suffix_order.trans simp del: chunks_loop.simps)
    with u8 r bits_no_panic push_bits_no_panic show ?thesis
      by (auto simp: safe_at_def zarith_def res_bind_eq_Panic simp del: chunks_loop.simps split: if_splits)
  qed (use safeD [OF u8_safe, of i] in \<open>auto simp: safe_at_def zarith_def\<close>)
qed

lemma tag_safe: "safe_at (n_tag N t) i"
proof (cases "take (length t) i = t")
  case True
  then have "i = t @ drop (length t) i" by (metis append_take_drop_id)
  then have "n_tag N t i = Ok (drop (length t) i, t)" by (metis tag_ok)
  then show ?thesis by (rule safe_at_Ok) (rule suffix_drop)
next
  case False
  then obtain e where "n_tag N t i = Err (Error e)" using tag_no by blast
  then show ?thesis by (rule safe_at_Err)
qed

lemma take_safe: "safe_at (n_take N n) i"
  by (cases "n \<le> length i") (auto simp: safe_at_def take_ok take_short suffix_drop)

lemma length_data_safe: "safe_at s i \<Longrightarrow> safe_at (n_complete_bytes N (n_length_data N s)) i"
proof -
  assume "safe_at s i"
  then have "safe_at (n_length_data N s) i"
  proof (cases rule: safe_at_cases)
    case (1 r n)
    have "suffix (drop (unat n) r) i" using 1(2) suffix_drop suffix_order.trans by blast
    then show ?thesis
      using length_data_ok [where s = s, OF 1(1)] length_data_short [where s = s, OF 1(1)]
      by (cases "unat n \<le> length r") (simp_all add: safe_at_def)
  qed (simp add: safe_at_Err length_data_err)
  then show ?thesis
  proof (cases rule: safe_at_cases)
    case (2 e)
    then show ?thesis
      using complete_bytes_incomplete [of "n_length_data N s" i]
        complete_bytes_err [of "n_length_data N s" i e]
      by (cases "e = Incomplete") (auto intro: safe_at_Err)
  qed (simp add: safe_at_Ok complete_bytes_ok)
qed

lemma bounded_size_safe: "safe_at (bounded_size N k m) i" "safe_at (read_size N) i"
  using safeD [OF safe_read_be [of 4], of i]
  by (auto simp: safe_at_def bounded_size_def read_size_def read_int res_bind_eq_Panic split: if_splits)

end

section \<open>Derived readers\<close>

context ncomb_laws
begin

lemma map_res_safe:
  assumes "safe_at p i"
  shows "safe_at (n_map_res C p k) i"
  using assms
proof (cases rule: safe_at_cases)
  case (1 r b)
  then show ?thesis
    using map_res_some [where p = p, OF 1(1)] map_res_none [where p = p and k = k, OF 1(1)]
    by (cases "k b") (auto intro: safe_at_Ok safe_at_Err)
qed (auto intro: safe_at_Err map_res_err)

lemma map_safe: "safe_at q i \<Longrightarrow> safe_at (n_map C q g) i"
  by (rule safe_bind [where p = q and k = "\<lambda>a i. Ok (i, g a)"]) (simp_all add: map_law safe_return)

lemma map_list_safe: "safe_at q i \<Longrightarrow> safe_at (n_map_list C q h) i"
  by (rule safe_bind [where p = q and k = "\<lambda>a i. Ok (i, h a)"]) (simp_all add: map_list safe_return)

lemma map_bytes_safe: "safe_at p i \<Longrightarrow> (\<And>b. f b \<noteq> Panic) \<Longrightarrow> safe_at (n_map_bytes C p f) i"
  by (auto simp: safe_at_def map_bytes res_bind_eq_Panic)

lemma preceded_safe: "safe_at p i \<Longrightarrow> (\<And>j. safe_at q j) \<Longrightarrow> safe_at (n_preceded C p q) i"
  by (rule safe_bind [where p = p and k = "\<lambda>_. q"]) (simp_all add: preceded_law)

lemma success_safe: "safe_at (n_success C a) i"
  by (simp add: safe_at_def success_law)

lemma map_parser_safe: "safe_at p i \<Longrightarrow> (\<And>j. safe_at q j) \<Longrightarrow> safe_at (n_map_parser C p q) i"
  by (auto simp: safe_at_def map_parser res_bind_eq_Panic)

lemma all_consuming_safe:
  assumes "safe_at q i"
  shows "safe_at (n_all_consuming C q) i"
  using assms
proof (cases rule: safe_at_cases)
  case (1 r a)
  then show ?thesis
    using all_consuming_ok [where q = q and i = i] all_consuming_left [where q = q, OF 1(1)]
    by (cases "r = []") (auto intro: safe_at_Ok safe_at_Err)
qed (auto intro: safe_at_Err all_consuming_err)

lemma alt2_safe: "safe_at p i \<Longrightarrow> safe_at q i \<Longrightarrow> safe_at (n_alt C [p, q]) i"
  by (rule alt_safe) auto

end

context reader
begin

lemma primitive_safe: "safe (generate_primitive_nom_read N C p)"
proof -
  have "safe (boolean N C)"
    unfolding boolean_def by (intro safeI alt2_safe map_bytes_safe tag_safe) auto
  moreover have "safe (n_u8 N)" "safe (n_i8 N)" "safe (n_u16 N)" "safe (n_i16 N)" "safe (n_u32 N)"
    "safe (n_i32 N)" "safe (n_i64 N)" "safe (n_f64 N)"
    using safe_read_be [of 1] safe_read_be [of 2] safe_read_be [of 4] safe_read_be [of 8]
    by (simp_all add: safe_def safe_at_def read_int)
  ultimately show ?thesis by (cases p) (simp_all add: safe_represent)
qed

lemma string_safe: "safe (read_string N C)" "safe (bounded_string N C m)"
  by (simp_all add: safe_def read_string_def bounded_string_def map_res_safe length_data_safe bounded_size_safe)

lemma hash_safe: "safe (read_hash N C name ht)"
proof (rule safeI)
  show "safe_at (read_hash N C name ht) i" for i
    by (cases "hash_size ht \<le> length i")
      (auto simp: safe_at_def read_hash_def map_bytes take_ok take_short try_from_bytes_def suffix_drop)
qed

lemma optional_safe: "safe f \<Longrightarrow> safe (optional_field N C f)"
  unfolding optional_field_def
  by (intro safeI alt2_safe preceded_safe tag_safe success_safe map_safe) (rule safeD)

lemma list_safe: "safe f \<Longrightarrow> safe (read_list C f)" "safe f \<Longrightarrow> safe (bounded_list C m f)"
proof -
  assume f: "safe f"
  show "safe (read_list C f)"
    unfolding read_list_def by (intro safe_represent safeI fold_many0_safe) (rule safeD [OF f])
  show "safe (bounded_list C m f)"
  proof (rule safeI)
    fix i
    have "safe_at (n_fold_many_m_n C 0 m f [] (\<lambda>xs x. xs @ [x])) i"
      by (rule fold_many_safe) (rule safeD [OF f])
    then show "safe_at (bounded_list C m f) i"
      by (cases rule: safe_at_cases) (auto simp: safe_at_def bounded_list_def)
  qed
qed

lemma dynamic_safe: "safe f \<Longrightarrow> safe (dynamic N C f)" "safe f \<Longrightarrow> safe (bounded_dynamic N C m f)"
  by (simp_all add: safe_def dynamic_def bounded_dynamic_def length_value_safe all_consuming_safe
      bounded_size_safe)

lemma sized_safe: "safe f \<Longrightarrow> safe (sized N C m f)"
  by (simp add: safe_def sized_def map_parser_safe take_safe)

lemma bytes_safe: "safe (read_bytes N C)"
  by (simp add: safe_def safe_at_def read_bytes_def map_bytes rest_ok)

lemma struct_safe: "list_all (\<lambda>f. safe (snd f)) fs \<Longrightarrow> safe (struct_nom_read C name fs)"
proof -
  assume fs: "list_all (\<lambda>f. safe (snd f)) fs"
  then have ps: "safe (seq_read (map (\<lambda>(f, p). read_field (lab f) p) fs))" for lab
    by (intro safe_seq_read) (auto simp: list_all_iff safe_labels)
  consider "fs = []" | f p where "fs = [(f, p)]" | "1 < length fs"
    by (cases fs; cases "tl fs") auto
  then show ?thesis
  proof cases
    case 1
    then show ?thesis by (simp add: struct_nom_read_def safe_def success_safe)
  next
    case 2
    with fs safe_labels(1) [of p f] have "safe_at (read_field f p) i" for i by (simp add: safeD)
    with 2 show ?thesis by (simp add: struct_nom_read_def safe_def map_safe)
  next
    case 3
    have "n_tuple C qs = seq_read qs" for qs by (simp add: tuple_seq fun_eq_iff)
    moreover have "safe (n_map_list C (seq_read (map (\<lambda>(f, p). read_field (lab f) p) fs)) h)" for lab h
      using ps [of lab] by (simp add: safe_def map_list_safe)
    ultimately show ?thesis
      using 3 ps by (auto simp: struct_nom_read_def Let_def safe_represent)
  qed
qed

lemma tag_id_safe: "safe (read_tag_id N tt)"
  using safe_read_be [of 1] safe_read_be [of 2]
  by (cases tt) (simp_all add: read_tag_id_def safe_represent safe_def safe_at_def read_int represent_def
      res_bind_eq_Panic)

lemma generate_safe:
  fixes fs :: "(string \<times> denc option) list" and tags :: "(u16 \<times> string \<times> denc) list"
  shows "(\<And>p. known p \<Longrightarrow> safe (t_nom_read (type_of_path G p))) \<Longrightarrow> closed_denc known d \<Longrightarrow>
      safe (generate_nom_read N C W I G d)"
    and "(\<And>p. known p \<Longrightarrow> safe (t_nom_read (type_of_path G p))) \<Longrightarrow> closed_fields known fs \<Longrightarrow>
      list_all (\<lambda>f. safe (snd f)) (generate_field_nom_reads N C W I G name fs)"
    and "(\<And>p. known p \<Longrightarrow> safe (t_nom_read (type_of_path G p))) \<Longrightarrow> closed_tags known tags \<Longrightarrow>
      list_all (\<lambda>f. safe (snd f)) (generate_tag_nom_reads N C W I G name idx tags)"
proof (induction known d and known fs and known tags arbitrary: and name and name idx
    rule: closed_denc_closed_fields_closed_tags.induct)
  case (7 known sz)
  show ?case by (cases sz) (simp_all add: string_safe)
next
  case (9 known name tt ign tags)
  then have "list_all (\<lambda>f. safe (snd f)) (generate_tag_nom_reads N C W I G name 0 tags)" by simp
  then show ?case by (auto intro!: safe_enum tag_id_safe simp: list_all_iff)
next
  case (11 known sz e)
  then show ?case by (cases sz) (simp_all add: list_safe)
next
  case (14 known sz e)
  then show ?case by (cases sz) (simp_all add: dynamic_safe)
next
  case (19 known i v e tags)
  have "safe (n_map C (read_variant l (generate_nom_read N C W I G e)) f)" if "e \<noteq> DUnit" for l f
    using 19 that safe_labels(2) [of "generate_nom_read N C W I G e"] by (simp add: safe_def map_safe)
  moreover have "safe (\<lambda>input. Ok (input, RUnitVariant name idx v))" by (simp add: safe_def safe_return)
  ultimately show ?case using 19 by (cases "e = DUnit") (auto simp: case_not_unit)
qed (simp_all add: primitive_safe bytes_safe struct_safe optional_safe sized_safe safe_bounded
    safe_represent zarith_safe mutez_safe, simp add: safe_def safe_return)

end

context path_reader
begin

lemma path_hash_safe: "safe_at (path_hash N P) i"
  by (simp add: path_hash_def b.map_bytes_safe take_safe)

lemma complete_loop_safe: "safe_at (path_complete_loop N P nodes acc) i"
proof (induction nodes arbitrary: acc i)
  case (Cons node nodes acc i)
  show ?case
  proof (cases node)
    case NodeLeft
    show ?thesis
      by (rule safe_bind [where p = "path_hash N P"
            and k = "\<lambda>h. path_complete_loop N P nodes (acc @ [PathLeft h])"])
        (simp_all add: NodeLeft path_hash_safe Cons.IH)
  next
    case (NodeRight h)
    with Cons.IH [of "acc @ [PathRight h]" i] show ?thesis by (simp add: safe_at_def)
  qed
qed (simp add: safe_at_def)

lemma path_nodes_safe: "safe_at (path_nodes N P) i"
proof -
  let ?f = "n_alt (pn_node P) [path_left N P, path_right N P]"
  have "safe_at ?f j" for j
    by (intro n.alt2_safe) (simp_all add: path_left_def path_right_def n.preceded_safe tag_safe
        n.success_safe n.map_bytes_safe path_hash_safe)
  moreover have "safe_at (path_op N P) j" for j
    by (simp add: path_op_def u.preceded_safe tag_safe u.success_safe)
  ultimately have "safe_at (n_many_till P ?f (path_op N P)) i" by (rule many_till_safe)
  then show ?thesis
    by (rule safe_bind [where k = "\<lambda>a i. Ok (i, fst a)"])
      (simp_all add: path_nodes_def map_nodes safe_return)
qed

lemma verify_safe:
  assumes "safe_at p i"
  shows "safe_at (n_verify P p t) i"
  using assms
proof (cases rule: safe_at_cases)
  case (1 r a)
  then show ?thesis
    using verify_ok [where p = p, OF 1(1)] verify_no [where p = p, OF 1(1)]
    by (cases "t a") (auto intro: safe_at_Ok safe_at_Err)
qed (auto intro: safe_at_Err verify_err)

lemma path_safe: "safe (path_nom_read N P)"
proof (rule safeI)
  fix i
  have "safe_at (path_complete N P nodes) r" for nodes r
    by (rule safe_bind [where p = "path_complete_loop N P (rev nodes) []"
          and k = "\<lambda>items i. Ok (i, path_rust (rev items))"])
      (simp_all add: path_complete_def complete_loop_safe safe_return)
  then show "safe_at (path_nom_read N P) i"
    unfolding path_nom_read_def
    by (rule safe_bind [OF verify_safe [OF path_nodes_safe] _ flat_map])
qed

end

section \<open>The message types\<close>

fun closed_encodings :: "string list \<Rightarrow> (string \<times> denc) list \<Rightarrow> bool" where
  \<comment> \<open>each type mentions only types declared before it\<close>
  "closed_encodings names [] = True"
| "closed_encodings names ((n, d) # ds) =
     (closed_denc (\<lambda>p. p \<in> set names) d \<and> closed_encodings (n # names) ds)"

lemma closed_encodings_safe:
  assumes "reader N C" and "closed_encodings names ds" and "\<And>p. p \<in> set names \<Longrightarrow> safe (t_nom_read (type_of_path G p))"
    and "p \<in> set names \<union> fst ` set ds"
  shows "safe (t_nom_read (type_of_path (add_encodings N C W I G ds) p))"
  using assms(2-)
proof (induction ds arbitrary: G names)
  case (Cons nd ds)
  obtain n d where nd: "nd = (n, d)" by (cases nd)
  from Cons.prems nd have cl: "closed_denc (\<lambda>p. p \<in> set names) d" "closed_encodings (n # names) ds" by simp_all
  have "safe (generate_nom_read N C W I G d)"
    by (rule reader.generate_safe(1) [OF assms(1) _ cl(1)]) (rule Cons.prems(2))
  then show ?case
    unfolding nd add_encodings.simps
    by (intro Cons.IH [OF cl(2)]) (use Cons.prems nd in \<open>auto split: if_splits\<close>)
qed simp

lemma p2p_closed: "closed_encodings (''Path'' # map fst hash_types) p2p_encodings"
  by (simp add: p2p_encodings_def hash_types_def)

lemma p2p_safe:
  assumes "reader N C" and "path_reader N P" and "p2p_syn S" and "n \<in> fst ` set p2p_encodings"
  shows "safe (t_nom_read (type_of_path (p2p_env N C P W I S) n))"
  unfolding p2p_env_encodings [OF assms(3)]
proof (rule closed_encodings_safe [OF assms(1) p2p_closed])
  fix p
  assume "p \<in> set (''Path'' # map fst hash_types)"
  then show "safe (t_nom_read (type_of_path (base_env N C P) p))"
    using reader.hash_safe [OF assms(1)] path_reader.path_safe [OF assms(2)]
    by (auto simp: base_env_def hash_rtype_def path_type_def map_of_eq_None_iff split: option.splits)
qed (use assms(4) in simp)

section \<open>Properties\<close>

context nom_laws
begin

lemma chunks_loop_fuel:
  "length i < fuel \<Longrightarrow> chunks_loop (fuel + k) N bits i = chunks_loop fuel N bits i"
proof (induction fuel arbitrary: bits i)
  case (Suc fuel)
  have "chunks_loop (fuel + k) N bits' r = chunks_loop fuel N bits' r" if "n_u8 N i = Ok (r, b)" for r b bits'
    using u8_shorter [OF that] Suc by auto
  then show ?case by (auto intro!: res_bind_cong split: prod.splits)
qed simp

end

text \<open>
  C37. The loop of the number readers ends: it reads at most one byte of the input per round, so fuel above the
  length of the input is enough, and more of it changes nothing. Neither reader panics on any input.
\<close>


theorem number_readers_end:
  assumes "nom_laws N"
  shows "(length input < fuel \<longrightarrow> chunks_loop fuel N bits input \<noteq> Panic
      \<and> chunks_loop (fuel + extra) N bits input = chunks_loop fuel N bits input)
    \<and> zarith N W I input \<noteq> Panic \<and> mutez N W I input \<noteq> Panic"
  using nom_laws.chunks_loop_safe [OF assms, of input fuel bits] nom_laws.chunks_loop_fuel [OF assms, of input fuel]
    safeD [OF nom_laws.zarith_safe [OF assms]] safeD [OF nom_laws.mutez_safe [OF assms]]
  by (auto simp: safe_at_def)

theorem number_readers_end_witness:
  "chunks_loop 9 nom_ref [] [0x81, 0x01] = chunks_loop 3 nom_ref [] [0x81, 0x01]
    \<and> zarith nom_ref wire_ref bigint_ref [0x81] \<noteq> Panic"
  using number_readers_end [OF nom_ref.nom_laws_axioms, of "[0x81, 0x01]" 3 "[]" 6]
    number_readers_end [OF nom_ref.nom_laws_axioms, of "[0x81]" 3 "[]" 0 wire_ref bigint_ref]
  by simp

end
