(* ===== verification/Binary_Message.thy ===== *)
theory Binary_Message
  imports Reader_Safety Crypto_Nonce
begin

text \<open>
  Messages as bytes and as chunks, \<^verbatim>\<open>tezos/messages/src/p2p/binary_message.rs\<close>, \<^verbatim>\<open>p2p/mod.rs\<close> and the
  \<^verbatim>\<open>SizeFromChunk\<close> instances of the messages. The text of a reader error is rendered from the input and the
  decoding error, which the model keeps instead.
\<close>

section \<open>Reading and writing\<close>

datatype binary_reader_error = ReaderError bytes decode_error | ReaderUnknownTag string

definition map_nom_error :: "bytes \<Rightarrow> decode_error \<Rightarrow> binary_reader_error" where
  "map_nom_error input e =
     (case get_unknown_tag e of Some t \<Rightarrow> ReaderUnknownTag t | None \<Rightarrow> ReaderError input e)"

definition finish :: "(nom_err, 'a) res \<Rightarrow> (decode_error, 'a) res" where
  \<comment> \<open>\<open>Finish::finish\<close> panics on incomplete input\<close>
  "finish r = (case r of Ok x \<Rightarrow> Ok x | Err (Error e) \<Rightarrow> Err e | Err (Failure e) \<Rightarrow> Err e | _ \<Rightarrow> Panic)"

definition complete_input :: "'a ncomb \<Rightarrow> 'a parser \<Rightarrow> bytes \<Rightarrow> (binary_reader_error, 'a) res" where
  "complete_input C p input =
     map_err (map_nom_error input)
       (res_bind (finish (n_complete C p input)) (\<lambda>(_, output). Ok output))"

definition all_consuming_complete_input :: "'a ncomb \<Rightarrow> 'a parser \<Rightarrow> bytes \<Rightarrow> (binary_reader_error, 'a) res" where
  "all_consuming_complete_input C p input =
     map_err (map_nom_error input)
       (res_bind (finish (n_all_consuming C (n_complete C p) input)) (\<lambda>(bs, output).
         if bs \<noteq> [] then Panic else Ok output))"

definition as_bytes :: "wire \<Rightarrow> hex_crate \<Rightarrow> num_ser \<Rightarrow> rtype \<Rightarrow> rust \<Rightarrow> (encoding_error, bytes) res" where
  "as_bytes W H K T r = binary_write W H K r (t_encoding T)"

definition from_bytes :: "rust ncomb \<Rightarrow> rtype \<Rightarrow> bytes \<Rightarrow> (binary_reader_error, rust) res" where
  "from_bytes C T buf = all_consuming_complete_input C (t_nom_read T) buf"

section \<open>Sizes\<close>

definition peer_message_size :: "nom \<Rightarrow> u32 ncomb \<Rightarrow> bytes \<Rightarrow> (binary_reader_error, nat) res" where
  "peer_message_size N C bs = res_bind (complete_input C (read_size N) bs) (\<lambda>s. Ok (unat s))"

definition peer_size_from_chunk :: "nom \<Rightarrow> u32 ncomb \<Rightarrow> bytes \<Rightarrow> (binary_reader_error, nat) res" where
  "peer_size_from_chunk N C bs = res_bind (peer_message_size N C bs) (\<lambda>s. Ok (s + 4))"

definition metadata_size_from_chunk :: "bytes \<Rightarrow> (binary_reader_error, nat) res" where
  "metadata_size_from_chunk bs = Ok 2"

definition ack_size_from_chunk :: "nom \<Rightarrow> nat ncomb \<Rightarrow> bytes \<Rightarrow> (binary_reader_error, nat) res" where
  "ack_size_from_chunk N C bs =
     complete_input C
       (n_alt C
         [n_preceded C (n_tag N [0x00]) (n_success C 1),
          n_preceded C (n_tag N [0xFF]) (n_success C 1),
          n_preceded C (n_tag N [0x01])
            (n_map C (n_preceded C (n_take N 2) (represent unat (read_size N))) (\<lambda>s. s + 3))]) bs"

section \<open>Chunks\<close>

definition CONTENT_LENGTH_FIELD_BYTES :: nat where "CONTENT_LENGTH_FIELD_BYTES = 2"

definition CONTENT_LENGTH_MAX :: nat where "CONTENT_LENGTH_MAX = 65535"

datatype binary_chunk = BinaryChunk (chunk_raw: bytes)

datatype binary_chunk_error =
    OverflowError
  | MissingSizeInformation
  | IncorrectSizeInformation (expected_size: nat) (actual_size: nat)

text \<open>\<^verbatim>\<open>Buf::get_u16\<close> of the \<^verbatim>\<open>bytes\<close> crate, a parameter; the sources call it on at least two bytes.\<close>

type_synonym get_u16 = "bytes \<Rightarrow> u16"

definition reads_u16 :: "get_u16 \<Rightarrow> bool" where
  "reads_u16 g \<longleftrightarrow> (\<forall>s. 2 \<le> length s \<longrightarrow> unat (g s) = from_be (take 2 s))"

definition from_raw :: "get_u16 \<Rightarrow> bytes \<Rightarrow> (binary_chunk_error, binary_chunk) res" where
  "from_raw get_u16 raw =
     (if length raw < CONTENT_LENGTH_FIELD_BYTES then Err MissingSizeInformation
      else
        let expected_len = unat (get_u16 raw);
            found_len = length raw - CONTENT_LENGTH_FIELD_BYTES
        in if expected_len \<noteq> found_len then Err (IncorrectSizeInformation expected_len found_len)
           else if CONTENT_LENGTH_MAX + CONTENT_LENGTH_FIELD_BYTES < length raw then Err OverflowError
           else Ok (BinaryChunk raw))"

definition from_content :: "wire \<Rightarrow> bytes \<Rightarrow> (binary_chunk_error, binary_chunk) res" where
  "from_content W content =
     (if length content \<le> CONTENT_LENGTH_MAX
      then Ok (BinaryChunk (put_u16 W [] (word_of_nat (length content)) @ content))
      else Err OverflowError)"

definition chunk_try_from :: "get_u16 \<Rightarrow> bytes \<Rightarrow> (binary_chunk_error, binary_chunk) res" where
  "chunk_try_from get_u16 v =
     (if length v < CONTENT_LENGTH_FIELD_BYTES then Err MissingSizeInformation
      else if length v \<le> CONTENT_LENGTH_MAX + CONTENT_LENGTH_FIELD_BYTES then
        let expected_content_length = unat (get_u16 (take CONTENT_LENGTH_FIELD_BYTES v))
        in if expected_content_length + CONTENT_LENGTH_FIELD_BYTES = length v then Ok (BinaryChunk v)
           else Err (IncorrectSizeInformation expected_content_length (length v))
      else Err OverflowError)"

definition chunk_content :: "binary_chunk \<Rightarrow> bytes" where
  "chunk_content c = drop CONTENT_LENGTH_FIELD_BYTES (chunk_raw c)"

section \<open>Message hashes\<close>

datatype message_hash_error =
    SerializationError encoding_error
  | HashFromBytesError from_bytes_error
  | HashBlake2bError

definition message_hash ::
  "'st sodium \<Rightarrow> wire \<Rightarrow> hex_crate \<Rightarrow> num_ser \<Rightarrow> rtype \<Rightarrow> rust \<Rightarrow> (message_hash_error, bytes) res" where
  "message_hash D W H K T r =
     res_bind (map_err SerializationError (as_bytes W H K T r)) (\<lambda>bs.
       map_err (\<lambda>_. HashBlake2bError) (digest_256 D bs))"

definition message_typed_hash ::
  "'st sodium \<Rightarrow> wire \<Rightarrow> hex_crate \<Rightarrow> num_ser \<Rightarrow> rtype \<Rightarrow> rust \<Rightarrow> hash_type \<Rightarrow> (message_hash_error, bytes) res" where
  "message_typed_hash D W H K T r ht =
     res_bind (map_err SerializationError (as_bytes W H K T r)) (\<lambda>bs.
     res_bind (map_err (\<lambda>_. HashBlake2bError) (digest_256 D bs)) (\<lambda>d.
       map_err HashFromBytesError (try_from_bytes ht d)))"

section \<open>Lemmas\<close>

context ncomb_laws
begin

lemma all_consuming_complete_Ok:
  "p i = Ok ([], x) \<Longrightarrow> all_consuming_complete_input C p i = Ok x"
  using all_consuming_ok [where q = "n_complete C p", OF complete_ok [where q = p]]
  by (simp add: all_consuming_complete_input_def finish_def)

lemma all_consuming_complete_Failure:
  "p i = Err (Failure e) \<Longrightarrow> all_consuming_complete_input C p i = Err (map_nom_error i e)"
  using all_consuming_err [where q = "n_complete C p", OF complete_err [where q = p]]
  by (simp add: all_consuming_complete_input_def finish_def)

lemma all_consuming_complete_no_panic:
  assumes "safe_at p i"
  shows "all_consuming_complete_input C p i \<noteq> Panic"
  using assms
proof (cases rule: safe_at_cases)
  case (1 r a)
  then have c: "n_complete C p i = Ok (r, a)" by (intro complete_ok [where q = p])
  then show ?thesis
    using all_consuming_ok [where q = "n_complete C p" and i = i]
      all_consuming_left [where q = "n_complete C p", OF c]
    by (cases "r = []") (auto simp: all_consuming_complete_input_def finish_def)
next
  case (2 e)
  then obtain e' where "n_complete C p i = Err e'" "e' \<noteq> Incomplete"
    using complete_incomplete [where q = p and i = i] complete_err [where q = p and i = i and e = e]
    by (cases "e = Incomplete") auto
  then show ?thesis
    using all_consuming_err [where q = "n_complete C p" and i = i]
    by (cases e') (auto simp: all_consuming_complete_input_def finish_def)
qed

lemma complete_input_Ok: "p i = Ok (r, x) \<Longrightarrow> complete_input C p i = Ok x"
  using complete_ok [where q = p] by (simp add: complete_input_def finish_def)

end

lemma as_bytes_encodes:
  "wire_laws W \<Longrightarrow> as_bytes W H K T r = Ok bs \<Longrightarrow> t_values T r \<Longrightarrow> encodes K (z_bytes W H) T r bs"
  by (simp add: as_bytes_def binary_write_encodes)

lemma reads_u16D: "reads_u16 g \<Longrightarrow> 2 \<le> length s \<Longrightarrow> unat (g s) = from_be (take 2 s)"
  by (simp add: reads_u16_def)

lemma unat_length16: "length s < 2 ^ 16 \<Longrightarrow> unat (word_of_nat (length s) :: u16) = length s"
  by (simp add: unat_of_nat take_bit_nat_eq_self_iff)

lemmas chunk_defs = from_raw_def from_content_def chunk_try_from_def chunk_content_def
  CONTENT_LENGTH_FIELD_BYTES_def CONTENT_LENGTH_MAX_def Let_def

lemma from_be_take2: "2 \<le> length raw \<Longrightarrow> from_be (take 2 raw) \<le> 65535"
  using from_be_less [of "take 2 raw"] by simp

lemma from_raw_Ok:
  "reads_u16 g \<Longrightarrow> from_raw g raw = Ok ch \<longleftrightarrow>
     2 \<le> length raw \<and> length raw = from_be (take 2 raw) + 2 \<and> ch = BinaryChunk raw"
  using from_be_take2 [of raw] by (auto simp: chunk_defs reads_u16D)

lemma try_from_Ok:
  "reads_u16 g \<Longrightarrow> chunk_try_from g raw = Ok ch \<longleftrightarrow>
     2 \<le> length raw \<and> length raw = from_be (take 2 raw) + 2 \<and> ch = BinaryChunk raw"
  using from_be_take2 [of raw] by (auto simp: chunk_defs reads_u16D)

lemma from_content_Ok:
  assumes "wire_laws W"
  shows "(\<exists>c. from_content W c = Ok ch \<and> chunk_raw ch = raw) \<longleftrightarrow>
    2 \<le> length raw \<and> length raw = from_be (take 2 raw) + 2 \<and> ch = BinaryChunk raw" (is "?l \<longleftrightarrow> ?r")
proof
  assume ?l
  then show ?r
    using wire_laws.put_word(1) [OF assms] by (auto simp: chunk_defs unat_length16 split: if_splits)
next
  assume r: ?r
  then have "to_be16 (word_of_nat (length (drop 2 raw))) = take 2 raw"
    using to_be_from_be(1) [of "take 2 raw"] by simp
  then have "put_u16 W [] (word_of_nat (length (drop 2 raw))) @ drop 2 raw = raw"
    using wire_laws.put_word(1) [OF assms] by simp
  then have "from_content W (drop 2 raw) = Ok ch"
    using r from_be_take2 [of raw] by (simp add: chunk_defs)
  with r show ?l by auto
qed

lemma p2p_type:
  assumes "p2p_syn S" and "p2p_encodings = pre @ (n, d) # post" and "n \<notin> fst ` set post"
  shows "type_of_path (p2p_env N C P W I S) n = derive N C W I (add_encodings N C W I (base_env N C P) pre) d"
  unfolding p2p_env_encodings [OF assms(1)] assms(2) by (rule add_encodings_lookup [OF assms(3)])

lemma p2p_type_at:
  assumes "p2p_syn S" and "i < length p2p_encodings" and "p2p_encodings ! i = (n, d)"
    and "n \<notin> fst ` set (drop (Suc i) p2p_encodings)"
  shows "type_of_path (p2p_env N C P W I S) n =
    derive N C W I (add_encodings N C W I (base_env N C P) (take i p2p_encodings)) d"
  using p2p_type [OF assms(1) _ assms(4), of "take i p2p_encodings" d] assms(2,3)
  by (metis id_take_nth_drop)

definition peer_tags :: "(u16 \<times> string \<times> denc) list" where
  "peer_tags = (case snd (p2p_encodings ! 28) of DEnum _ _ _ tags \<Rightarrow> tags | _ \<Rightarrow> [])"

lemma peer_message_encoding: "p2p_encodings ! 28 = (''PeerMessage'', DEnum ''PeerMessage'' TagU16 True peer_tags)"
  by (simp add: peer_tags_def p2p_encodings_def)

lemma peer_tags_distinct: "distinct (map fst peer_tags)" "distinct (map (\<lambda>t. fst (snd t)) peer_tags)"
  by (simp_all add: peer_tags_def p2p_encodings_def)

lemma peer_tags_bootstrap:
  "map (\<lambda>t. fst (snd t)) peer_tags ! 4 = ''Bootstrap''" "(0x02, ''Bootstrap'', DUnit) \<in> set peer_tags"
  "peer_tags ! 4 = (0x02, ''Bootstrap'', DUnit)" "4 < length peer_tags"
  by (simp_all add: peer_tags_def p2p_encodings_def)

lemma peer_message_type:
  assumes "p2p_syn S"
  shows "\<exists>G. type_of_path (p2p_env N C P W I S) ''PeerMessage'' =
    derive N C W I G (DEnum ''PeerMessage'' TagU16 True peer_tags)"
  by (rule exI, rule p2p_type_at [OF assms _ peer_message_encoding]) (simp_all add: p2p_encodings_def)

lemma peer_response_type:
  assumes "p2p_syn S"
  obtains G G' where "type_of_path (p2p_env N C P W I S) ''PeerMessageResponse'' =
    derive N C W I G (DDynamic (Some MESSAGE_MAX_SIZE) (DStruct ''PeerMessageResponse''
      [(''message'', Some (DPath ''PeerMessage''))]))"
    "type_of_path G ''PeerMessage'' = derive N C W I G' (DEnum ''PeerMessage'' TagU16 True peer_tags)"
proof -
  let ?G = "\<lambda>i. add_encodings N C W I (base_env N C P) (take i p2p_encodings)"
  have "type_of_path (?G 29) ''PeerMessage'' = derive N C W I (?G 28) (DEnum ''PeerMessage'' TagU16 True peer_tags)"
  proof -
    have "take 29 p2p_encodings = take 28 p2p_encodings @ [p2p_encodings ! 28]"
      by (simp add: p2p_encodings_def)
    then show ?thesis by (simp add: add_encodings_append peer_message_encoding)
  qed
  moreover have "type_of_path (p2p_env N C P W I S) ''PeerMessageResponse'' =
    derive N C W I (?G 29) (DDynamic (Some MESSAGE_MAX_SIZE) (DStruct ''PeerMessageResponse''
        [(''message'', Some (DPath ''PeerMessage''))]))"
    by (rule p2p_type_at [OF assms]) (simp_all add: p2p_encodings_def)
  ultimately show ?thesis using that by blast
qed

lemma unit_variant_has_type:
  "k < length tags \<Longrightarrow> tags ! k = (i, v, DUnit) \<Longrightarrow>
   variant_has_type G name idx tags (RUnitVariant name (idx + word_of_nat k) v)"
proof (induction tags arbitrary: k idx)
  case (Cons t tags)
  then show ?case
  proof (cases k)
    case (Suc m)
    then have "variant_has_type G name (idx + 1) tags (RUnitVariant name (idx + 1 + word_of_nat m) v)"
      using Cons by simp
    then show ?thesis using Suc by (cases t) (simp add: add.assoc)
  qed simp
qed simp

lemma encodes_dynamic:
  "encodes K z (derive N C W I G (DDynamic sz e)) r bs \<Longrightarrow>
   \<exists>b. encodes K z (derive N C W I G e) r b \<and> length b < 2 ^ 32 \<and> bs = to_be32 (word_of_nat (length b)) @ b"
  by (auto simp: encodes_def sized_prefix_def bind_eq_Some_conv split: option.splits if_splits)

lemma derive_path: "derive N C W I G (DPath p) = type_of_path G p"
  by (simp add: derive_def fun_eq_iff rtype.equality)

lemma unit_enum_bytes:
  assumes "encodes K z (derive N C W I G (DEnum name TagU16 ign tags)) r bs"
    and "distinct (map fst tags)" "distinct (map (\<lambda>t. fst (snd t)) tags)" "list_all (\<lambda>(i, v, e). e = DUnit) tags"
  shows "length bs = 2"
  using assms(1-3)
proof (cases rule: encodes_enum)
  case 1
  then show ?thesis by (auto simp: tag_bytes_def)
next
  case (2 i v e x a b)
  with assms(4) show ?thesis by (auto simp: list_all_iff)
qed

lemma nack_info_bytes:
  assumes "type_of_path G ''NackMotive'' = derive N C W I G0 (snd (p2p_encodings ! 3))"
    and "encodes K z (derive N C W I G (snd (p2p_encodings ! 4))) r bs"
  shows "\<exists>a b. length a = 2 \<and> length b < 2 ^ 32 \<and> bs = a @ to_be32 (word_of_nat (length b)) @ b"
proof -
  let ?dyn = "DDynamic None (DList (Some NACK_PEERS_MAX_LENGTH) (DBounded P2P_POINT_MAX_SIZE (DString None)))"
  have "encodes K z (derive N C W I G (DStruct ''NackInfo''
      [(''motive'', Some (DPath ''NackMotive'')), (''potential_peers_to_connect'', Some ?dyn)])) r bs"
    using assms(2) by (simp add: p2p_encodings_def)
  from encodes_struct [OF this] obtain x1 b1 x2 b2 where
    b1: "encodes K z (derive N C W I G (DPath ''NackMotive'')) x1 b1"
    and b2: "encodes K z (derive N C W I G ?dyn) x2 b2" and bs: "bs = b1 @ b2"
    by (auto simp: list_all2_Cons1)
  have "length b1 = 2"
    using b1 unfolding derive_path assms(1)
    by (intro unit_enum_bytes [of K z N C W I G0 "''NackMotive''" False "[(0, ''NoMotive'', DUnit),
          (1, ''TooManyConnections'', DUnit), (2, ''UnknownChainName'', DUnit),
          (3, ''DeprecatedP2pVersion'', DUnit), (4, ''DeprecatedDistributedDbVersion'', DUnit),
          (5, ''AlreadyConnected'', DUnit)]" x1])
      (simp_all add: p2p_encodings_def)
  with encodes_dynamic [OF b2] bs show ?thesis by auto
qed

definition ack_denc :: denc where
  "ack_denc = DEnum ''AckMessage'' TagU8 False
     [(0, ''Ack'', DUnit), (0xFF, ''NackV0'', DUnit), (1, ''Nack'', DPath ''NackInfo'')]"

lemma ack_types:
  assumes "p2p_syn S"
  obtains G G' G'' where "type_of_path (p2p_env N C P W I S) ''AckMessage'' = derive N C W I G ack_denc"
    "type_of_path G ''NackInfo'' = derive N C W I G' (snd (p2p_encodings ! 4))"
    "type_of_path G' ''NackMotive'' = derive N C W I G'' (snd (p2p_encodings ! 3))"
proof -
  let ?G = "\<lambda>i. add_encodings N C W I (base_env N C P) (take i p2p_encodings)"
  have "take 5 p2p_encodings = take 4 p2p_encodings @ [(''NackInfo'', snd (p2p_encodings ! 4))]"
    "take 4 p2p_encodings = take 3 p2p_encodings @ [(''NackMotive'', snd (p2p_encodings ! 3))]"
    by (simp_all add: p2p_encodings_def)
  then have "type_of_path (?G 5) ''NackInfo'' = derive N C W I (?G 4) (snd (p2p_encodings ! 4))"
    "type_of_path (?G 4) ''NackMotive'' = derive N C W I (?G 3) (snd (p2p_encodings ! 3))"
    by (simp_all add: add_encodings_append)
  moreover have "type_of_path (p2p_env N C P W I S) ''AckMessage'' = derive N C W I (?G 5) ack_denc"
    unfolding ack_denc_def by (rule p2p_type_at [OF assms]) (simp_all add: p2p_encodings_def)
  ultimately show ?thesis using that by blast
qed

lemma ack_bytes:
  assumes "p2p_syn S" and "T = type_of_path (p2p_env N C P W I S) ''AckMessage''" and "encodes K z T r bs"
  shows "bs = [0] \<or> bs = [0xFF] \<or>
    (\<exists>a b. length a = 2 \<and> length b < 2 ^ 32 \<and> bs = 1 # a @ to_be32 (word_of_nat (length b)) @ b)"
proof -
  obtain G G' G'' where G: "T = derive N C W I G ack_denc"
    "type_of_path G ''NackInfo'' = derive N C W I G' (snd (p2p_encodings ! 4))"
    "type_of_path G' ''NackMotive'' = derive N C W I G'' (snd (p2p_encodings ! 3))"
    unfolding assms(2) by (rule ack_types [OF assms(1)])
  let ?tags = "[(0 :: u16, ''Ack'', DUnit), (0xFF, ''NackV0'', DUnit), (1, ''Nack'', DPath ''NackInfo'')]"
  have d: "distinct (map fst ?tags)" "distinct (map (\<lambda>t. fst (snd t)) ?tags)" by simp_all
  show ?thesis
  proof (cases rule: encodes_enum [OF assms(3) [unfolded G(1) ack_denc_def] d])
    case (2 i v e x a b)
    then have "e = DPath ''NackInfo''" "a = [1]" by (auto simp: tag_bytes_def)
    with 2(4) have "encodes K z (derive N C W I G' (snd (p2p_encodings ! 4))) x b"
      by (simp add: derive_path G(2))
    from nack_info_bytes [OF G(3) this] 2(5) \<open>a = [1]\<close> show ?thesis by auto
  qed (auto simp: tag_bytes_def)
qed

lemma ack_size_parts:
  assumes N: "nom_laws N" and C: "ncomb_laws Cn"
  shows "ack_size_from_chunk N Cn [0] = Ok 1" and "ack_size_from_chunk N Cn [0xFF] = Ok 1"
    and "length a = 2 \<Longrightarrow> length b < 2 ^ 32 \<Longrightarrow>
      ack_size_from_chunk N Cn (1 # a @ to_be32 (word_of_nat (length b)) @ b) = Ok (length b + 3)"
proof -
  note t = nom_laws.tag_byte [OF N]
    and law = ncomb_laws.preceded_law [OF C] ncomb_laws.success_law [OF C] ncomb_laws.map_law [OF C]
  define p where "p = (\<lambda>x :: u8. n_preceded Cn (n_tag N [x]) (n_success Cn 1))"
  define q where "q = n_preceded Cn (n_tag N [0x01])
    (n_map Cn (n_preceded Cn (n_take N 2) (represent unat (read_size N))) (\<lambda>s. s + 3))"
  have miss: "\<exists>e. p x (y # ys) = Err (Error e)" if "x \<noteq> y" for x y ys
    using t(2) [OF that, of ys] by (auto simp: p_def law)
  have hit: "p x (x # ys) = Ok (ys, 1)" for x ys by (simp add: p_def law t)
  have size: "ack_size_from_chunk N Cn bs = Ok n" if "n_alt Cn [p 0, p 0xFF, q] bs = Ok (r, n)" for bs r n
    using ncomb_laws.complete_input_Ok [where p = "n_alt Cn [p 0, p 0xFF, q]", OF C that]
    by (simp add: ack_size_from_chunk_def p_def q_def)
  have skip: "n_alt Cn [p 0, p 0xFF, q] (y # ys) = Ok x"
    if y: "y \<noteq> 0" and x: "n_alt Cn [p 0xFF, q] (y # ys) = Ok x" for y ys x
  proof -
    obtain e where "p 0 (y # ys) = Err (Error e)" using miss [of 0 y ys] y by auto
    then show ?thesis using x by (intro ncomb_laws.alt_next [OF C, of "p 0"]) simp_all
  qed
  have "n_alt Cn [p 0, p 0xFF, q] [0] = p 0 [0]"
    by (rule ncomb_laws.alt_first [OF C]) (simp add: hit)
  with size hit show "ack_size_from_chunk N Cn [0] = Ok 1" by simp
  have "n_alt Cn [p 0xFF, q] [0xFF] = Ok ([], 1)"
    by (rule ncomb_laws.alt2_first [OF C]) (rule hit)
  with skip size show "ack_size_from_chunk N Cn [0xFF] = Ok 1" by simp
  assume ab: "length a = 2" "length b < 2 ^ 32"
  let ?bs = "a @ to_be32 (word_of_nat (length b)) @ b"
  have "q (1 # ?bs) = Ok (b, length b + 3)"
    using ab t(1) [of 1 ?bs] nom_laws.take_ok [OF N, of 2 ?bs] nom_laws.read_int(5) [OF N]
    by (simp add: q_def law represent_def read_size_def unat_length32)
  then have "n_alt Cn [p 0xFF, q] (1 # ?bs) = Ok (b, length b + 3)"
    using miss [of "0xFF" 1 ?bs] ncomb_laws.alt2_second [OF C, where p = "p 0xFF" and i = "1 # ?bs"] by auto
  with skip size show "ack_size_from_chunk N Cn (1 # ?bs) = Ok (length b + 3)" by simp
qed

lemmas message_max = MESSAGE_MAX_SIZE_def BLOCK_HEADER_MAX_SIZE_def MEMPOOL_MAX_SIZE_def
  MEMPOOL_MAX_OPERATIONS_def

lemma unknown_tag_read:
  assumes "nom_laws N" and "t \<notin> fst ` set tags"
  shows "generate_nom_read N C W I G (DEnum name TagU16 True tags) (to_be16 t @ rest)
    = Err (Failure (unknown_tag rest (tag_text (unat t))))"
proof -
  have "map_of (generate_tag_nom_reads N C W I G name idx tags) t = None" for idx
    using assms(2)
  proof (induction tags arbitrary: idx)
    case (Cons x tags)
    then show ?case by (cases x) auto
  qed simp
  then show ?thesis by (simp add: enum_nom_read_def read_tag_id_def nom_laws.read_int [OF assms(1)])
qed

lemma bounded_dynamic_failure:
  assumes "reader N C" and "f b = Err (Failure e)" and "length b \<le> m" and "length b < 2 ^ 32"
  shows "bounded_dynamic N C m f (to_be32 (word_of_nat (length b)) @ b @ rest) = Err (Failure e)"
proof -
  note L = reader.axioms [OF assms(1)]
  have "bounded_size N BKDynamic m (to_be32 (word_of_nat (length b)) @ b @ rest)
      = Ok (b @ rest, word_of_nat (length b))"
    using assms(3,4) by (simp add: bounded_size_def read_size_def nom_laws.read_int [OF L(1)] unat_length32)
  then show ?thesis
    unfolding bounded_dynamic_def
    by (rule ncomb_laws.length_value_inner [OF L(2)])
      (use assms(2,4) ncomb_laws.all_consuming_err [OF L(2), where q = f and i = b] in
        \<open>simp_all add: unat_length32\<close>)
qed

section \<open>Example messages\<close>

text \<open>
  Concrete messages for the reference instances of the crates. The serializer of \<^verbatim>\<open>num_bigint::BigInt\<close> writes
  the sign and the digits in base \<open>2\<^sup>3\<^sup>2\<close>.
\<close>

definition num_ser_ref :: num_ser where
  "num_ser_ref =
     \<lparr>radix16 = map of_char \<circ> to_str_radix16_ref,
      num_bigint_value = (\<lambda>i. VTuple [VInt8 (word_of_int (sgn i)),
        VList (map (serialize_u32 \<circ> word_of_nat) (rev (digits (2 ^ 32) (nat \<bar>i\<bar>))))])\<rparr>"

definition get_u16_ref :: get_u16 where
  "get_u16_ref s = word_of_nat (from_be (take 2 s))"

lemma reads_u16_ref: "reads_u16 get_u16_ref"
proof -
  have "from_be (take 2 s) mod 65536 = from_be (take 2 s)" if "2 \<le> length s" for s :: bytes
    using from_be_take2 [OF that] by simp
  then show ?thesis by (simp add: reads_u16_def get_u16_ref_def unat_of_nat take_bit_eq_mod)
qed

abbreviation ref_type :: "string \<Rightarrow> rtype" where
  "ref_type \<equiv> type_of_path (p2p_env nom_ref ncomb_ref path_nom_ref wire_ref bigint_ref syn_ref)"

lemma as_bytes_enc:
  assumes "wire_laws W" and "serialize K r = Ok v" and "enc (z_bytes W H) v (t_encoding T) = Some bs"
    and "length bs \<le> usize_max"
  shows "as_bytes W H K T r = Ok bs"
  using writesD [OF wire_laws.encode_complete [OF assms(1) refl] assms(3,4), of "[]"] assms(2)
  by (simp add: as_bytes_def binary_write_def encode_any_value)

definition metadata_example :: rust where
  "metadata_example = RStruct ''MetadataMessage'' [(''disable_mempool'', RBool True), (''private_node'', RBool False)]"

lemma metadata_type:
  assumes "p2p_syn S"
  shows "\<exists>G. type_of_path (p2p_env N C P W I S) ''MetadataMessage'' =
    derive N C W I G (DStruct ''MetadataMessage''
      [(''disable_mempool'', Some (DPrimitive PBool)), (''private_node'', Some (DPrimitive PBool))])"
  by (rule exI, rule p2p_type_at [OF assms, of 2]) (simp_all add: p2p_encodings_def)

lemma metadata_example_ok:
  "t_values (ref_type ''MetadataMessage'') metadata_example"
  "as_bytes wire_ref hex_ref num_ser_ref (ref_type ''MetadataMessage'') metadata_example = Ok [0xFF, 0]"
proof -
  obtain G where G: "ref_type ''MetadataMessage'' = derive nom_ref ncomb_ref wire_ref bigint_ref G
      (DStruct ''MetadataMessage''
        [(''disable_mempool'', Some (DPrimitive PBool)), (''private_node'', Some (DPrimitive PBool))])"
    using metadata_type [OF syn_ref.p2p_syn_axioms] by blast
  show "t_values (ref_type ''MetadataMessage'') metadata_example"
    by (simp add: G derive_def metadata_example_def)
  show "as_bytes wire_ref hex_ref num_ser_ref (ref_type ''MetadataMessage'') metadata_example = Ok [0xFF, 0]"
    by (rule as_bytes_enc [OF wire_ref.wire_laws_axioms], simp add: metadata_example_def)
      (simp_all add: G derive_def usize_max_def)
qed

definition bootstrap_example :: rust where
  "bootstrap_example =
     RStruct ''PeerMessageResponse'' [(''message'', RUnitVariant ''PeerMessage'' 4 ''Bootstrap'')]"

lemma enc_unit_variant:
  assumes "distinct (map fst tags)" "distinct (map (\<lambda>t. fst (snd t)) tags)" and "(i, v, e) \<in> set tags"
  shows "enc z (VEnum (Some v) j) (generate_encoding G (DEnum name tt ign tags)) = tag_bytes (size_of_tag_type tt) i"
  using find_tag [OF assms(3,1,2), of G] by simp

lemma bootstrap_example_ok:
  "t_values (ref_type ''PeerMessageResponse'') bootstrap_example"
  "as_bytes wire_ref hex_ref num_ser_ref (ref_type ''PeerMessageResponse'') bootstrap_example
     = Ok [0, 0, 0, 2, 0, 2]"
proof -
  obtain G G' where G: "ref_type ''PeerMessageResponse'' = derive nom_ref ncomb_ref wire_ref bigint_ref G
      (DDynamic (Some MESSAGE_MAX_SIZE) (DStruct ''PeerMessageResponse''
        [(''message'', Some (DPath ''PeerMessage''))]))"
    and P: "type_of_path G ''PeerMessage'' =
      derive nom_ref ncomb_ref wire_ref bigint_ref G' (DEnum ''PeerMessage'' TagU16 True peer_tags)"
    by (rule peer_response_type [OF syn_ref.p2p_syn_axioms])
  show "t_values (ref_type ''PeerMessageResponse'') bootstrap_example"
    using unit_variant_has_type [OF peer_tags_bootstrap(4,3), of G' "''PeerMessage''" 0]
    by (simp add: G derive_def bootstrap_example_def P)
  have be: "to_be32 2 = [0, 0, 0, 2]" "to_be16 2 = [0, 2]" by code_simp+
  have "enc z (VEnum (Some ''Bootstrap'') j) (t_encoding (type_of_path G ''PeerMessage'')) = Some [0, 2]" for z j
    using enc_unit_variant [OF peer_tags_distinct peer_tags_bootstrap(2), of z j G' "''PeerMessage''" TagU16 True]
    by (simp add: P derive_def tag_bytes_def be)
  then show "as_bytes wire_ref hex_ref num_ser_ref (ref_type ''PeerMessageResponse'') bootstrap_example
      = Ok [0, 0, 0, 2, 0, 2]"
    by (intro as_bytes_enc [OF wire_ref.wire_laws_axioms], simp add: bootstrap_example_def)
      (simp_all add: G derive_def usize_max_def sized_prefix_def MESSAGE_MAX_SIZE_def be)
qed

definition nack_example :: rust where
  "nack_example = RNewtypeVariant ''AckMessage'' 2 ''Nack'' (RStruct ''NackInfo''
     [(''motive'', RUnitVariant ''NackMotive'' 0 ''NoMotive''), (''potential_peers_to_connect'', RSeq [])])"

lemma nack_example_ok:
  "t_values (ref_type ''AckMessage'') nack_example"
  "as_bytes wire_ref hex_ref num_ser_ref (ref_type ''AckMessage'') nack_example = Ok [1, 0, 0, 0, 0, 0, 0]"
proof -
  obtain G G' G'' where T: "ref_type ''AckMessage'' = derive nom_ref ncomb_ref wire_ref bigint_ref G ack_denc"
    and I: "type_of_path G ''NackInfo'' = derive nom_ref ncomb_ref wire_ref bigint_ref G' (snd (p2p_encodings ! 4))"
    and M: "type_of_path G' ''NackMotive'' = derive nom_ref ncomb_ref wire_ref bigint_ref G'' (snd (p2p_encodings ! 3))"
    by (rule ack_types [OF syn_ref.p2p_syn_axioms])
  note denc = ack_denc_def p2p_encodings_def derive_def nack_example_def
  show "t_values (ref_type ''AckMessage'') nack_example" by (simp add: T I M denc)
  have be: "to_be32 0 = [0, 0, 0, 0]" "to_be16 0 = [0, 0]" by code_simp+
  show "as_bytes wire_ref hex_ref num_ser_ref (ref_type ''AckMessage'') nack_example = Ok [1, 0, 0, 0, 0, 0, 0]"
    by (intro as_bytes_enc [OF wire_ref.wire_laws_axioms], simp add: nack_example_def)
      (simp_all add: T I M denc usize_max_def sized_prefix_def tag_map_new_lists find_by_variant_def tag_bytes_def be)
qed

definition op_hash :: "bytes \<Rightarrow> rust" where
  "op_hash h = RNewtypeStruct ''OperationHash'' (RSeq (map RU8 h))"

definition mempool_value :: "bytes list \<Rightarrow> bytes list \<Rightarrow> rust" where
  "mempool_value known pending =
     RStruct ''Mempool'' [(''known_valid'', RSeq (map op_hash known)), (''pending'', RSeq (map op_hash pending))]"

lemma serialize_op_hashes: "serialize_elements K (map op_hash hs) = Ok (map (\<lambda>h. VList (map VUint8 h)) hs)"
  by (induction hs) (simp_all add: op_hash_def serialize_bytes)

lemma enc_op_hashes:
  "list_all (\<lambda>h. length h = 32) hs \<Longrightarrow>
   concat_opts (map (\<lambda>v. enc z v (EHash OperationHash)) (map (\<lambda>h. VList (map VUint8 h)) hs)) = Some (concat hs)"
  by (induction hs) (simp_all add: value_bytes_Some)

lemma mempool_enc:
  assumes "p2p_syn S" and "list_all (\<lambda>h. length h = 32) known" and "list_all (\<lambda>h. length h = 32) pending"
    and "T = type_of_path (p2p_env N C P W I S) ''Mempool''" and "serialize K (mempool_value known pending) = Ok v"
  shows "(\<exists>bs. enc z v (t_encoding T) = Some bs) \<longleftrightarrow> length known + length pending < MEMPOOL_MAX_OPERATIONS"
    and "enc z v (t_encoding T) = Some bs \<Longrightarrow> length bs \<le> MEMPOOL_MAX_SIZE"
proof -
  let ?G = "add_encodings N C W I (base_env N C P) (take 14 p2p_encodings)"
  have T: "T = derive N C W I ?G (DBounded MEMPOOL_MAX_SIZE (DStruct ''Mempool''
         [(''known_valid'', Some (DDynamic None (DList None (DPath ''OperationHash'')))),
          (''pending'', Some (DDynamic None (DDynamic None (DList None (DPath ''OperationHash'')))))]))"
    unfolding assms(4) by (rule p2p_type_at [OF assms(1)]) (simp_all add: p2p_encodings_def)
  have "type_of_path ?G ''OperationHash'' = type_of_path (base_env N C P) ''OperationHash''"
    by (rule add_encodings_other) (simp add: p2p_encodings_def)
  then have G: "t_encoding (type_of_path ?G ''OperationHash'') = EHash OperationHash"
    by (simp add: base_env_def hash_types_def hash_rtype_def)
  have len: "length (concat hs) = 32 * length hs" if "list_all (\<lambda>h. length h = 32) hs" for hs :: "bytes list"
    using that by (induction hs) auto
  have v: "v = VRecord [(''known_valid'', VList (map (\<lambda>h. VList (map VUint8 h)) known)),
      (''pending'', VList (map (\<lambda>h. VList (map VUint8 h)) pending))]"
    using assms(5) by (simp add: mempool_value_def serialize_op_hashes)
  show "(\<exists>bs. enc z v (t_encoding T) = Some bs) \<longleftrightarrow> length known + length pending < MEMPOOL_MAX_OPERATIONS"
    using enc_op_hashes [OF assms(2)] enc_op_hashes [OF assms(3)] len assms(2,3)
    by (auto simp: T derive_def v G sized_prefix_def message_max o_def)
  show "enc z v (t_encoding T) = Some bs \<Longrightarrow> length bs \<le> MEMPOOL_MAX_SIZE"
    by (auto simp: T derive_def bind_eq_Some_conv split: if_splits)
qed

lemma unknown_tag_errors:
  assumes "reader N C" and "p2p_syn S" and "t \<notin> fst ` set peer_tags" and "length rest + 2 \<le> MESSAGE_MAX_SIZE"
    and "input = to_be16 t @ rest" and "E = p2p_env N C P W I S"
  shows "from_bytes C (type_of_path E ''PeerMessage'') input = Err (ReaderUnknownTag (tag_text (unat t)))
    \<and> (\<exists>bs e. bs = to_be32 (word_of_nat (length input)) @ input \<and>
         from_bytes C (type_of_path E ''PeerMessageResponse'') bs = Err (ReaderError bs e))"
proof -
  note L = reader.axioms [OF assms(1)]
  note fail = ncomb_laws.all_consuming_complete_Failure [OF L(2)]
  let ?bs = "to_be32 (word_of_nat (length input)) @ input"
  obtain G G' where R: "type_of_path E ''PeerMessageResponse'' = derive N C W I G (DDynamic (Some MESSAGE_MAX_SIZE)
      (DStruct ''PeerMessageResponse'' [(''message'', Some (DPath ''PeerMessage''))]))"
    and P: "type_of_path G ''PeerMessage'' = derive N C W I G' (DEnum ''PeerMessage'' TagU16 True peer_tags)"
    using peer_response_type [OF assms(2)] assms(6) by metis
  obtain G2 where B: "type_of_path E ''PeerMessage'' = derive N C W I G2 (DEnum ''PeerMessage'' TagU16 True peer_tags)"
    using peer_message_type [OF assms(2)] assms(6) by blast
  let ?e = "unknown_tag rest (tag_text (unat t))"
  have un: "generate_nom_read N C W I H (DEnum ''PeerMessage'' TagU16 True peer_tags) input = Err (Failure ?e)" for H
    unfolding assms(5) by (rule unknown_tag_read [OF L(1) assms(3)])
  have "from_bytes C (type_of_path E ''PeerMessage'') input = Err (map_nom_error input ?e)"
    unfolding from_bytes_def B by (rule fail) (use un [of G2] in \<open>simp add: derive_def\<close>)
  moreover have "from_bytes C (type_of_path E ''PeerMessageResponse'') ?bs
      = Err (map_nom_error ?bs (add_field ''message'' ?e))"
    unfolding from_bytes_def R
  proof (rule fail)
    let ?f = "generate_nom_read N C W I G (DStruct ''PeerMessageResponse''
        [(''message'', Some (DPath ''PeerMessage''))])"
    have "t_nom_read (type_of_path G ''PeerMessage'') input = Err (Failure ?e)"
      using un [of G'] by (simp add: P derive_def)
    then have "?f input = Err (Failure (add_field ''message'' ?e))"
      by (simp add: struct_nom_read_def ncomb_laws.map_law [OF L(2)] read_field_def)
    from bounded_dynamic_failure [where b = input and f = "?f", OF assms(1) this, of MESSAGE_MAX_SIZE "[]"] assms(4,5)
    show "t_nom_read (derive N C W I G (DDynamic (Some MESSAGE_MAX_SIZE) (DStruct ''PeerMessageResponse''
        [(''message'', Some (DPath ''PeerMessage''))]))) ?bs = Err (Failure (add_field ''message'' ?e))"
      by (simp add: derive_def message_max)
  qed
  ultimately show ?thesis
    by (simp add: map_nom_error_def get_unknown_tag_def unknown_tag_def add_field_def)
qed

section \<open>Properties\<close>

text \<open>
  C1. Every message type of the peer-to-peer protocol survives the wire: reading the bytes of a value of the
  type gives back the same value. This holds for each of the 30 types, through nested structs, enums,
  lists, size-prefixed and bounded parts, hashes and Merkle paths.
\<close>

theorem p2p_message_roundtrip:
  assumes "wire_laws W" and "reader N C" and "path_reader N P" and "p2p_syn S"
    and "name \<in> set (map di_ident p2p_types)" and "T = type_of_path (p2p_env N C P W I S) name"
    and "t_values T r" and "as_bytes W H K T r = Ok bs"
  shows "from_bytes C T bs = Ok r"
proof -
  have "t_nom_read T bs = Ok ([], r)"
    using final_okD [OF p2p_final [OF assms(2-4)] as_bytes_encodes [OF assms(1)]] assms(5-8)
    by (simp add: p2p_names)
  then show ?thesis
    using ncomb_laws.all_consuming_complete_Ok reader.axioms(2) [OF assms(2)]
    by (auto simp: from_bytes_def)
qed

theorem p2p_message_roundtrip_witness:
  "from_bytes ncomb_ref (ref_type ''MetadataMessage'') [0xFF, 0] = Ok metadata_example"
  by (rule p2p_message_roundtrip [OF wire_ref.wire_laws_axioms reader_ref.reader_axioms path_ref.path_reader_axioms
        syn_ref.p2p_syn_axioms _ refl metadata_example_ok])
    (simp add: p2p_names p2p_encodings_def)

text \<open>
  A chunk made from a message content holds that content, and both ways of reading raw bytes accept the
  chunk unchanged. A chunk can be made exactly for contents of at most 65535 bytes.
\<close>

theorem chunk_roundtrip:
  assumes "wire_laws W" and "reads_u16 g"
  shows "case from_content W c of
      Ok ch \<Rightarrow> length c \<le> 65535 \<and> chunk_content ch = c
        \<and> from_raw g (chunk_raw ch) = Ok ch \<and> chunk_try_from g (chunk_raw ch) = Ok ch
    | Err e \<Rightarrow> e = OverflowError \<and> 65535 < length c
    | Panic \<Rightarrow> False"
  using reads_u16D [OF assms(2)] wire_laws.put_word(1) [OF assms(1)]
  by (auto simp: chunk_defs unat_length16)

theorem chunk_roundtrip_witness:
  "\<exists>ch. from_content wire_ref [7, 8, 9] = Ok ch \<and> chunk_content ch = [7, 8, 9]
    \<and> from_raw get_u16_ref (chunk_raw ch) = Ok ch \<and> chunk_try_from get_u16_ref (chunk_raw ch) = Ok ch"
  using chunk_roundtrip [OF wire_ref.wire_laws_axioms reads_u16_ref, of "[7, 8, 9]"]
  by (cases "from_content wire_ref [7, 8, 9]") auto

text \<open>
  The two readers of raw chunks, \<^verbatim>\<open>from_raw\<close> and \<^verbatim>\<open>try_from\<close>, accept the same byte strings, namely the raw forms
  of the chunks that can be made from a content. The overflow check of \<^verbatim>\<open>from_raw\<close> never fires.
\<close>

theorem chunk_readers_agree:
  assumes "wire_laws W" and "reads_u16 g"
  shows "(from_raw g raw = Ok ch \<longleftrightarrow> chunk_try_from g raw = Ok ch)
    \<and> (from_raw g raw = Ok ch \<longleftrightarrow> (\<exists>c. from_content W c = Ok ch \<and> chunk_raw ch = raw))
    \<and> from_raw g raw \<noteq> Err OverflowError"
  using from_raw_Ok [OF assms(2)] try_from_Ok [OF assms(2)] from_content_Ok [OF assms(1)]
    from_be_take2 [of raw]
  by (auto simp: chunk_defs reads_u16D [OF assms(2)])

theorem chunk_readers_agree_witness:
  "from_raw get_u16_ref [0, 1, 5] = Ok (BinaryChunk [0, 1, 5])
     \<longleftrightarrow> chunk_try_from get_u16_ref [0, 1, 5] = Ok (BinaryChunk [0, 1, 5])"
  using chunk_readers_agree [OF wire_ref.wire_laws_axioms reads_u16_ref, of "[0, 1, 5]"] by blast

text \<open>
  C19. The size of a peer message is known from its first four bytes: for the bytes of any
  \<^verbatim>\<open>PeerMessageResponse\<close>, \<^verbatim>\<open>size_from_chunk\<close> of any prefix of at least four bytes is the full length.
\<close>

theorem peer_size_exact:
  assumes "wire_laws W" and "nom_laws N" and "ncomb_laws C4" and "p2p_syn S"
    and "T = type_of_path (p2p_env N C P W I S) ''PeerMessageResponse''"
    and "t_values T r" and "as_bytes W H K T r = Ok bs" and "4 \<le> k"
  shows "peer_size_from_chunk N C4 (take k bs) = Ok (length bs)"
proof -
  obtain G where G: "T = derive N C W I G (DDynamic (Some MESSAGE_MAX_SIZE) (DStruct ''PeerMessageResponse''
      [(''message'', Some (DPath ''PeerMessage''))]))"
    using peer_response_type [OF assms(4)] assms(5) by metis
  obtain b where b: "length b < 2 ^ 32" "bs = to_be32 (word_of_nat (length b)) @ b"
    using encodes_dynamic as_bytes_encodes [OF assms(1,7,6)] G by blast
  have "read_size N (take k bs) = Ok (take (k - 4) b, word_of_nat (length b))"
    using b assms(8) by (simp add: read_size_def nom_laws.read_int [OF assms(2)])
  from ncomb_laws.complete_input_Ok [where p = "read_size N", OF assms(3) this] b show ?thesis
    by (simp add: peer_size_from_chunk_def peer_message_size_def unat_length32)
qed

theorem peer_size_exact_witness:
  "peer_size_from_chunk nom_ref ncomb_ref [0, 0, 0, 2] = Ok 6"
  using peer_size_exact [OF wire_ref.wire_laws_axioms nom_ref.nom_laws_axioms ncomb_ref.ncomb_laws_axioms
      syn_ref.p2p_syn_axioms refl bootstrap_example_ok, of 4]
  by simp

text \<open>
  \<^verbatim>\<open>AckMessage::size_from_chunk\<close> gives the length of an acknowledgement and of an old-style refusal, but is
  four bytes short for a refusal with a motive: it counts the tag, the motive and the peer list, and forgets
  the size field in front of the list.
\<close>

theorem nack_size_four_short:
  assumes "wire_laws W" and "nom_laws N" and "ncomb_laws Cn" and "p2p_syn S"
    and "T = type_of_path (p2p_env N C P W I S) ''AckMessage''"
    and "t_values T r" and "as_bytes W H K T r = Ok bs"
  shows "ack_size_from_chunk N Cn bs = Ok (if hd bs = 1 then length bs - 4 else length bs)"
  using ack_bytes [OF assms(4,5) as_bytes_encodes [OF assms(1,7,6)]] ack_size_parts [OF assms(2,3)]
  by auto

theorem nack_size_four_short_witness:
  "ack_size_from_chunk nom_ref ncomb_ref [1, 0, 0, 0, 0, 0, 0] = Ok 3"
  using nack_size_four_short [OF wire_ref.wire_laws_axioms nom_ref.nom_laws_axioms ncomb_ref.ncomb_laws_axioms
      syn_ref.p2p_syn_axioms refl nack_example_ok]
  by simp

text \<open>
  C2. No bytes a peer can send make the decoder of any message type panic: reading ends with a value or an
  error.
\<close>

theorem p2p_decode_never_panics:
  assumes "reader N C" and "path_reader N P" and "p2p_syn S"
    and "name \<in> set (map di_ident p2p_types)" and "T = type_of_path (p2p_env N C P W I S) name"
  shows "from_bytes C T input \<noteq> Panic"
  using ncomb_laws.all_consuming_complete_no_panic [OF reader.axioms(2) [OF assms(1)]]
    p2p_safe [OF assms(1-3)] assms(4,5)
  by (simp add: from_bytes_def p2p_names safe_def)

theorem p2p_decode_never_panics_witness:
  "from_bytes ncomb_ref (ref_type ''AckMessage'') [1, 0, 9] \<noteq> Panic"
  by (rule p2p_decode_never_panics [OF reader_ref.reader_axioms path_ref.path_reader_axioms
        syn_ref.p2p_syn_axioms _ refl])
    (simp add: p2p_names p2p_encodings_def)

text \<open>
  C40. An unknown message tag is reported as such only by the bare message type. In the envelope the peers
  exchange, the error of the field hides it: the reader looks at the outermost error only, so the caller
  gets a general error and cannot ignore the message as the annotation asks for.
\<close>

theorem unknown_tag_masked:
  assumes "reader N C" and "p2p_syn S" and "t \<notin> fst ` set peer_tags" and "length rest + 2 \<le> MESSAGE_MAX_SIZE"
    and "input = to_be16 t @ rest" and "E = p2p_env N C P W I S"
  shows "from_bytes C (type_of_path E ''PeerMessage'') input = Err (ReaderUnknownTag (tag_text (unat t)))
    \<and> (\<exists>bs e. bs = to_be32 (word_of_nat (length input)) @ input \<and>
         from_bytes C (type_of_path E ''PeerMessageResponse'') bs = Err (ReaderError bs e))"
  by (rule unknown_tag_errors [OF assms])

theorem unknown_tag_masked_witness:
  "from_bytes ncomb_ref (ref_type ''PeerMessage'') (to_be16 0x99) = Err (ReaderUnknownTag (tag_text 0x99))
    \<and> (\<exists>bs e. bs = to_be32 2 @ to_be16 0x99 \<and>
         from_bytes ncomb_ref (ref_type ''PeerMessageResponse'') bs = Err (ReaderError bs e))"
  using unknown_tag_masked [OF reader_ref.reader_axioms syn_ref.p2p_syn_axioms _ _ refl refl,
      where t = "0x99" and rest = "[]" and P = path_nom_ref and W = wire_ref and I = bigint_ref]
  by (simp add: peer_tags_def p2p_encodings_def MESSAGE_MAX_SIZE_def)

text \<open>
  C38. A mempool can be written exactly when it holds fewer than \<^verbatim>\<open>MEMPOOL_MAX_OPERATIONS\<close> operations: the size limit
  leaves room for two size fields, while the encoding has three, so a full mempool of 4000 operations is
  refused.
\<close>

theorem mempool_capacity:
  assumes "wire_laws W" and "p2p_syn S" and "T = type_of_path (p2p_env N C P W I S) ''Mempool''"
    and "list_all (\<lambda>h. length h = 32) known" and "list_all (\<lambda>h. length h = 32) pending"
  shows "(\<exists>bs. as_bytes W H K T (mempool_value known pending) = Ok bs)
    \<longleftrightarrow> length known + length pending < MEMPOOL_MAX_OPERATIONS"
proof -
  obtain v where v: "serialize K (mempool_value known pending) = Ok v"
    by (simp add: mempool_value_def serialize_op_hashes)
  note enc = mempool_enc [OF assms(2,4,5,3) v]
  have "(\<exists>bs. as_bytes W H K T (mempool_value known pending) = Ok bs)
      \<longleftrightarrow> (\<exists>bs. enc (z_bytes W H) v (t_encoding T) = Some bs)" (is "?a \<longleftrightarrow> ?b")
  proof
    assume ?a
    then show ?b
      using soundD [OF wire_laws.encode_sound [OF assms(1) refl], of H "[]" v "t_encoding T"] v
      by (auto simp: as_bytes_def binary_write_def encode_any_value)
  next
    assume ?b
    then obtain bs where bs: "enc (z_bytes W H) v (t_encoding T) = Some bs" by blast
    with enc(2) have "length bs \<le> usize_max" by (force simp: message_max usize_max_def)
    from as_bytes_enc [OF assms(1) v bs this] show ?a by blast
  qed
  with enc(1) show ?thesis by simp
qed

theorem mempool_capacity_witness:
  "\<not> (\<exists>bs. as_bytes wire_ref hex_ref num_ser_ref (ref_type ''Mempool'')
        (mempool_value (replicate 4000 (replicate 32 1)) []) = Ok bs)"
  using mempool_capacity [OF wire_ref.wire_laws_axioms syn_ref.p2p_syn_axioms refl,
      where known = "replicate 4000 (replicate 32 1)" and pending = "[]"]
  by (simp add: MEMPOOL_MAX_OPERATIONS_def list_all_iff)

end
