(* ===== verification/Zarith.thy ===== *)
theory Zarith
  imports Binary_Writer Nom_Reader
begin

text \<open>
  Zarith numbers on the wire: \<^verbatim>\<open>encode_z\<close> of \<^verbatim>\<open>binary_writer.rs\<close> against \<^verbatim>\<open>zarith\<close> and \<^verbatim>\<open>mutez\<close> of \<^verbatim>\<open>nom.rs\<close>. Both sides
  are related to the bits of the number, least significant first.
\<close>

section \<open>Bits and bytes\<close>

lemma bits_value_inject: "length xs = length ys \<Longrightarrow> bits_value xs = bits_value ys \<Longrightarrow> xs = ys"
proof -
  have "length L = length M \<Longrightarrow> lval L = lval M \<Longrightarrow> L = M" for L M
  proof (induction L M rule: list_induct2')
    case (4 b L c M)
    then have "b = c" by (cases b; cases c; simp; presburger)
    with 4 show ?case by simp
  qed auto
  from this [of "rev xs" "rev ys"] show "length xs = length ys \<Longrightarrow> bits_value xs = bits_value ys \<Longrightarrow> xs = ys"
    by (simp add: lval_def)
qed

lemma bits_of_byte_exists: "length xs = 8 \<Longrightarrow> \<exists>b. xs = bits_of_byte b"
proof -
  assume l: "length xs = 8"
  have "bits_value xs < 256" using lval_less [of "rev xs"] l by (simp add: lval_def)
  then have "bits_value (bits_of_byte (word_of_nat (bits_value xs))) = bits_value xs"
    by (simp add: bits_value_bits_of_byte unat_of_nat take_bit_eq_mod)
  then show ?thesis using l by (metis bits_value_inject length_bits_of_byte)
qed

lemma bits_bytes: "8 dvd length xs \<Longrightarrow> \<exists>s. xs = concat (map bits_of_byte s)"
proof (induction "length xs" arbitrary: xs rule: less_induct)
  case less
  show ?case
  proof (cases "xs = []")
    case False
    then have "8 \<le> length xs" using less.prems by (auto dest: dvd_imp_le)
    then obtain b where b: "take 8 xs = bits_of_byte b" using bits_of_byte_exists [of "take 8 xs"] by auto
    obtain s where "drop 8 xs = concat (map bits_of_byte s)"
      using less.hyps [of "drop 8 xs"] less.prems \<open>8 \<le> length xs\<close> False by (auto simp: dvd_diff_nat)
    with b have "xs = concat (map bits_of_byte (b # s))" using append_take_drop_id [of 8 xs] by simp
    then show ?thesis by blast
  qed (auto intro: exI [of _ "[]"])
qed

section \<open>The readers on bits\<close>

lemma push_bits_eq: "k \<le> 8 \<Longrightarrow> push_bits input byte [i..<k] acc = Ok (acc @ map (bit byte) [i..<k])"
proof (induction "k - i" arbitrary: i acc)
  case (Suc n)
  then show ?case by (simp add: upt_conv_Cons del: upt_Suc)
qed simp

context nom_laws
begin

lemma u8: "n_u8 N (b # r) = Ok (r, b)"
  using from_be_snoc [of "[]" b] by (simp add: read_int read_be_def)

lemma chunks_loop_step:
  "chunks_loop (Suc fuel) N acc (b # r) =
     (if bit b 7 then chunks_loop fuel N (acc @ map (bit b) [0..<7]) r else Ok (r, acc @ map (bit b) [0..<7]))"
  by (simp add: u8 push_bits_eq del: upt_Suc)

lemma chunks_loop_tail:
  "L \<noteq> [] \<Longrightarrow> length (z_tail L) < fuel \<Longrightarrow>
   \<exists>p. chunks_loop fuel N acc (z_tail L @ rest) = Ok (rest, acc @ L @ replicate p False)"
proof (induction fuel arbitrary: L acc)
  case (Suc fuel)
  show ?case
  proof (cases "length L \<le> 7")
    case True
    then have "map (bit (put_bits 0 L 0)) [0..<7] = L @ replicate (7 - length L) False"
      by (intro map_bit_put_bits) auto
    moreover have "\<not> bit (put_bits 0 L 0) 7" using True by (simp add: bit_put_bits)
    ultimately show ?thesis using True
      by (auto simp: z_tail.simps u8 push_bits_eq simp del: upt_Suc)
  next
    case False
    let ?b = "set_bit 7 (put_bits 0 (take 7 L) 0)"
    have z: "z_tail L = ?b # z_tail (drop 7 L)" using False by (subst z_tail.simps) simp
    have "map (bit ?b) [0..<7] = map (bit (put_bits 0 (take 7 L) 0)) [0..<7]"
      by (rule map_cong) (auto simp: bit_simps)
    also have "\<dots> = take 7 L @ replicate (7 - length (take 7 L)) False"
      by (intro map_bit_put_bits) auto
    finally have m: "map (bit ?b) [0..<7] = take 7 L" using False by simp
    obtain p where "chunks_loop fuel N (acc @ take 7 L) (z_tail (drop 7 L) @ rest)
        = Ok (rest, (acc @ take 7 L) @ drop 7 L @ replicate p False)"
      using Suc.IH [of "drop 7 L" "acc @ take 7 L"] Suc.prems False z by auto
    then have "chunks_loop fuel N (acc @ take 7 L) (z_tail (drop 7 L) @ rest)
        = Ok (rest, acc @ L @ replicate p False)"
      by (metis append.assoc append_take_drop_id)
    moreover have "bit ?b 7" by (simp add: bit_simps)
    ultimately show ?thesis by (auto simp: z u8 push_bits_eq m simp del: upt_Suc)
  qed
qed simp

end

lemma pad_bits_lval: "8 dvd length (pad_bits B)" "lval (pad_bits B) = lval B"
proof -
  have "8 dvd length B + (8 - length B mod 8)" by presburger
  then show "8 dvd length (pad_bits B)" by (auto simp: pad_bits_def Let_def mod_eq_0_iff_dvd)
  show "lval (pad_bits B) = lval B" by (simp add: pad_bits_def Let_def lval_append)
qed

context wire_laws
begin

lemma packed_bits: "from_be (bits_to_bytes W (bitvec_reverse (pad_bits B))) = lval B"
proof -
  obtain s where "rev (pad_bits B) = concat (map bits_of_byte s)"
    using bits_bytes [of "rev (pad_bits B)"] pad_bits_lval(1) by auto
  then show ?thesis
    using bits_value_concat [of s] pad_bits_lval(2) [of B] by (simp add: bits_to_bytes lval_def)
qed

end

locale z_reader = nom_laws N + wire_laws W + bigint_laws I for N W I
begin

lemma zarith_bits:
  assumes "6 < length L"
  shows "zarith N W I (put_bits 0 (take 6 L) (if negative then 0xC0 else 0x80) # z_tail (drop 6 L) @ rest)
    = Ok (rest, if negative then - int (lval L) else int (lval L))"
proof -
  let ?b = "put_bits 0 (take 6 L) (if negative then 0xC0 else 0x80)"
  let ?c = "unset_bit 6 (unset_bit 7 ?b)"
  have b: "bit ?b 7" "bit (unset_bit 7 ?b) 6 = negative"
    using assms by (auto simp: bit_simps bit_put_bits)
  have "map (bit ?c) [0..<6] = map (bit (put_bits 0 (take 6 L) 0)) [0..<6]"
    using assms by (intro map_cong) (auto simp: bit_simps bit_put_bits)
  also have "\<dots> = take 6 L" using assms map_bit_put_bits [of 6 "take 6 L" 0] by simp
  finally have m: "map (bit ?c) [0..<6] = take 6 L" .
  obtain p where p: "chunks_loop (Suc (length (z_tail (drop 6 L) @ rest))) N (take 6 L) (z_tail (drop 6 L) @ rest)
      = Ok (rest, take 6 L @ drop 6 L @ replicate p False)"
    using chunks_loop_tail [of "drop 6 L" "Suc (length (z_tail (drop 6 L) @ rest))" "take 6 L" rest] assms by auto
  have "lval (take 6 L @ drop 6 L @ replicate p False) = lval L"
    unfolding append_assoc [symmetric] append_take_drop_id by (simp add: lval_append)
  then show ?thesis
    using p b m by (simp add: zarith_def u8 push_bits_eq bigint_from_be packed_bits
        del: chunks_loop.simps bitvec_reverse_rev upt_Suc)
qed

lemma mutez_bits:
  assumes "6 < length L"
  shows "mutez N W I (put_bits 0 (take 6 L) 0x80 # z_tail (drop 6 L) @ rest)
    = Ok (rest, int (lval L mod 64 + 128 * (lval L div 64)))"
proof -
  let ?b = "put_bits 0 (take 6 L) 0x80"
  have b: "bit ?b 7" using assms by (auto simp: bit_simps bit_put_bits)
  have m: "map (bit ?b) [0..<7] = take 6 L @ [False]"
    using assms by (intro nth_equalityI) (auto simp: bit_simps bit_put_bits nth_append less_Suc_eq numeral_eq_Suc)
  obtain p where p: "chunks_loop (Suc (length (z_tail (drop 6 L) @ rest))) N (take 6 L @ [False])
      (z_tail (drop 6 L) @ rest) = Ok (rest, (take 6 L @ [False]) @ drop 6 L @ replicate p False)"
    using chunks_loop_tail [of "drop 6 L" "Suc (length (z_tail (drop 6 L) @ rest))" "take 6 L @ [False]" rest] assms
    by auto
  have "lval L = lval (take 6 L) + 64 * lval (drop 6 L)"
    using lval_append [of "take 6 L" "drop 6 L"] assms by simp
  moreover have "lval (take 6 L) < 64" using lval_less [of "take 6 L"] assms by simp
  ultimately have "lval L mod 64 = lval (take 6 L)" "lval L div 64 = lval (drop 6 L)" by auto
  then have "lval ((take 6 L @ [False]) @ drop 6 L @ replicate p False) = lval L mod 64 + 128 * (lval L div 64)"
    using assms by (simp add: lval_append)
  then show ?thesis
    using p b m by (simp add: mutez_def chunks_loop_step bigint_from_be packed_bits
        del: chunks_loop.simps bitvec_reverse_rev upt_Suc)
qed

lemma sint_of_int8: "- 128 \<le> x \<Longrightarrow> x < 128 \<Longrightarrow> sint (word_of_int x :: u8) = x"
  by (simp add: signed_of_int signed_take_bit_int_eq_self)

lemma one_byte:
  assumes "unat b < 64"
  shows "zarith N W I ((if negative then or b 0x40 else b) # rest)
      = Ok (rest, if negative then - int (unat b) else int (unat b))" (is ?zarith)
    and "mutez N W I (b # rest) = Ok (rest, int (unat b))" (is ?mutez)
proof -
  have "take_bit 6 b = b" using assms
    by (simp add: word_unat_eq_iff unsigned_take_bit_eq take_bit_nat_eq_self_iff)
  then have hi: "\<not> bit b j" if "6 \<le> j" for j using that by (metis bit_take_bit_iff not_le)
  have or: "or b 0x40 = set_bit 6 b" by (simp add: set_bit_eq_or)
  have c: "unset_bit 6 (unset_bit 7 (set_bit 6 b)) = b" "unset_bit 6 (unset_bit 7 b) = b"
    by (rule bit_eqI, use hi in \<open>force simp: bit_simps\<close>)+
  have "int (unat b) < 64" using assms by linarith
  then have "uint b < 64" by simp
  then have "- 128 \<le> uint b \<and> uint b < 64 \<and> - uint b < 128" using uint_ge_0 [of b] by linarith
  then have s: "sint b = int (unat b)" "sint (- b) = - int (unat b)"
    using sint_of_int8 [of "int (unat b)"] sint_of_int8 [of "- int (unat b)"] by simp_all
  have "\<not> bit (if negative then set_bit 6 b else b) 7"
    "bit (unset_bit 7 (if negative then set_bit 6 b else b)) 6 = negative"
    using hi [of 6] hi [of 7] by (auto simp: bit_simps)
  then show ?zarith using c s by (cases negative) (simp_all add: or zarith_def u8 del: chunks_loop.simps)
  have "map (bit b) [0..<8] = rev (bits_of_byte b)" by (simp add: bits_of_byte_def rev_map)
  then have "lval (map (bit b) [0..<8]) = unat b" by (simp add: lval_def bits_value_bits_of_byte del: upt_Suc)
  moreover have "map (bit b) [0..<8] = map (bit b) [0..<7] @ [False]" using hi [of 7] by (simp add: numeral_eq_Suc)
  ultimately have "lval (map (bit b) [0..<7]) = unat b" by (simp add: lval_append del: upt_Suc)
  then show ?mutez using hi [of 7]
    by (simp add: mutez_def chunks_loop_step bigint_from_be packed_bits del: chunks_loop.simps bitvec_reverse_rev upt_Suc)
qed

end

section \<open>Numbers as text\<close>

lemma hex_char_ascii:
  "d < 16 \<Longrightarrow> (of_char (hex_char d) :: u8) < 0x80 \<and> ascii_alphanumeric (of_char (hex_char d))"
proof -
  have "\<forall>d\<in>set [0..<16]. (of_char (hex_char d) :: u8) < 0x80 \<and> ascii_alphanumeric (of_char (hex_char d))"
    by code_simp
  then show "d < 16 \<Longrightarrow> ?thesis" by simp
qed

context hex_laws
begin

lemma hex_bytes:
  assumes "\<forall>d\<in>set ds. d < 16" and "even (length ds)"
  shows "\<exists>bs. map hex_char ds = hex_encode H bs \<and> from_be bs = undigits 16 ds \<and> 2 * length bs = length ds"
  using assms
proof (induction "length ds" arbitrary: ds rule: less_induct)
  case less
  show ?case
  proof (cases ds rule: rev_cases)
    case (snoc es b)
    with less.prems obtain r a where es: "es = r @ [a]" by (cases es rule: rev_cases) auto
    with snoc less.prems obtain bs where bs: "map hex_char r = hex_encode H bs" "from_be bs = undigits 16 r"
      "2 * length bs = length r" using less.hyps [of r] by auto
    have ab: "a < 16" "b < 16" using less.prems snoc es by auto
    then have "unat (word_of_nat (16 * a + b) :: u8) = 16 * a + b"
      by (simp only: unat_of_nat take_bit_eq_mod) simp
    with bs ab snoc es have "map hex_char ds = hex_encode H (bs @ [word_of_nat (16 * a + b)])
        \<and> from_be (bs @ [word_of_nat (16 * a + b)]) = undigits 16 ds
        \<and> 2 * length (bs @ [word_of_nat (16 * a + b) :: u8]) = length ds"
      by (simp add: hex_encode_def flip: append_assoc)
    then show ?thesis by blast
  qed (simp add: hex_encode_def)
qed

lemma number_bytes:
  assumes "\<forall>d\<in>set ds. d < 16"
  shows "\<exists>bs. hex_decode H (if length ds mod 2 = 1 then CHR ''0'' # map hex_char ds else map hex_char ds) = Ok bs
    \<and> from_be bs = undigits 16 ds \<and> length bs = (length ds + 1) div 2"
proof -
  let ?ds = "if length ds mod 2 = 1 then 0 # ds else ds"
  have ds: "\<forall>d\<in>set ?ds. d < 16" using assms by simp
  have even: "even (length ?ds)" by (cases "length ds mod 2 = 1") (simp_all add: even_iff_mod_2_eq_zero mod_Suc)
  obtain bs where bs: "map hex_char ?ds = hex_encode H bs" "from_be bs = undigits 16 ?ds" "2 * length bs = length ?ds"
    using hex_bytes [OF ds even] by blast
  have "undigits 16 ?ds = undigits 16 ds" using undigits_replicate_0 [of 16 1 ds] by simp
  moreover have "map hex_char ?ds = (if length ds mod 2 = 1 then CHR ''0'' # map hex_char ds else map hex_char ds)"
    by (simp add: hex_char_def)
  moreover have "length bs = (length ds + 1) div 2" using bs(3) by (auto split: if_splits)
  ultimately show ?thesis using bs(1,2) hex_decode_encode [of bs] by (intro exI [of _ bs]) simp
qed

end

definition z_digits :: "nat \<Rightarrow> nat list" where
  "z_digits m = (if m = 0 then [0] else digits 16 m)"

lemma z_digits:
  "\<forall>d\<in>set (z_digits m). d < 16" "undigits 16 (z_digits m) = m" "z_digits m \<noteq> []"
  "m < 256 \<Longrightarrow> length (z_digits m) \<le> 2"
  using undigits_snoc [of 16 "[]" 0]
  by (auto simp: z_digits_def digits_less undigits_digits length_digits_le)

definition z_text :: "int \<Rightarrow> bytes" where
  "z_text n = (if n < 0 then [45] else []) @ map (of_char \<circ> hex_char) (z_digits (nat \<bar>n\<bar>))"

lemma z_text_sign: "z_sign W (z_text n) = Ok (of_bool (n < 0), n < 0)"
proof -
  obtain d ds where d: "z_digits (nat \<bar>n\<bar>) = d # ds" using z_digits(3) by (meson list.exhaust)
  then have "d < 16" using z_digits(1) [of "nat \<bar>n\<bar>"] by simp
  then show ?thesis
    using hex_char_ascii [of d] d by (simp add: z_text_def z_sign_def ascii_alphanumeric_def)
qed

lemma z_text_hex:
  "map (\<lambda>b. char_of (unat b)) (let h = drop (of_bool (n < 0)) (z_text n) in if length h mod 2 = 1 then 48 # h else h)
   = (let t = map hex_char (z_digits (nat \<bar>n\<bar>)) in if length t mod 2 = 1 then CHR ''0'' # t else t)"
proof -
  have "char_of (48 :: nat) = CHR ''0''" by code_simp
  then show ?thesis by (simp add: z_text_def Let_def char_of_byte o_def)
qed

locale z_codec = z_reader N W I + hex_laws H for N W I H
begin

lemma text_z_text: "map of_char (to_str_radix16 I n) = z_text n"
proof (cases n "0 :: int" rule: linorder_cases)
  case less
  then show ?thesis by (simp add: to_str_radix_neg to_str_radix_pos z_text_def z_digits_def)
qed (simp_all add: to_str_radix_0 to_str_radix_pos z_text_def z_digits_def hex_char_def)

text \<open>What the writer makes of a number: one byte, or the first six bits and seven-bit chunks.\<close>

lemma encode_z_text:
  obtains b where "unat b = nat \<bar>n\<bar>" "\<bar>n\<bar> < 64" "encode_z W H [] (z_text n) = Ok (1, [if n < 0 then or b 0x40 else b])"
  | L k where "lval L = nat \<bar>n\<bar>" "64 \<le> \<bar>n\<bar>" "6 < length L" "encode_z W H [] (z_text n) =
      Ok (k, put_bits 0 (take 6 L) (if n < 0 then 0xC0 else 0x80) # z_tail (drop 6 L))"
proof -
  let ?m = "nat \<bar>n\<bar>"
  obtain bs where bs: "hex_decode H (if length (z_digits ?m) mod 2 = 1 then CHR ''0'' # map hex_char (z_digits ?m)
        else map hex_char (z_digits ?m)) = Ok bs"
    "from_be bs = ?m" "length bs = (length (z_digits ?m) + 1) div 2"
    using number_bytes [OF z_digits(1) [of ?m]] z_digits(2) by auto
  have e: "encode_z W H [] (z_text n) =
      (if length bs = 1 \<and> hd bs \<le> 0x3F then Ok (1, [if n < 0 then or (hd bs) 0x40 else hd bs])
       else encode_z_bits W [] (n < 0) bs)"
    using z_text_hex [of n] bs(1) by (simp add: encode_z_def z_text_sign put_byte Let_def)
  have one: "length bs = 1 \<Longrightarrow> unat (hd bs) = ?m" using bs(2) from_be_snoc [of "[]"] by (cases bs) auto
  show ?thesis
  proof (cases "\<bar>n\<bar> < 64")
    case True
    then have "?m < 256" by linarith
    then have "length bs = 1" using bs(3) z_digits(3,4) [of ?m] by (cases "z_digits ?m") auto
    moreover have "hd bs \<le> 0x3F" using one [OF \<open>length bs = 1\<close>] True by (simp add: word_le_nat_alt)
    ultimately show ?thesis using that(1) [of "hd bs"] e one True by simp
  next
    case False
    then have nb: "\<not> (length bs = 1 \<and> hd bs \<le> 0x3F)" using one by (auto simp: word_le_nat_alt)
    define L where "L = rev (dropWhile Not (concat (map bits_of_byte bs)))"
    moreover have "bits_value (dropWhile Not xs) = bits_value xs" for xs by (induction xs) auto
    ultimately have "lval L = ?m" using bs(2) by (simp add: lval_def bits_value_concat)
    then have "64 \<le> lval L" using False by linarith
    then have l: "6 < length L" using lval_less [of L] by (rule_tac ccontr) (use power_increasing [of "length L" 6 "2 :: nat"] in simp)
    then obtain k where "encode_z_bits W [] (n < 0) bs =
        Ok (k, put_bits 0 (take 6 L) (if n < 0 then 0xC0 else 0x80) # z_tail (drop 6 L))"
      using encode_z_bits_eq [of L bs] by (auto simp: L_def)
    then have "encode_z W H [] (z_text n) =
        Ok (k, put_bits 0 (take 6 L) (if n < 0 then 0xC0 else 0x80) # z_tail (drop 6 L))"
      unfolding e if_not_P [OF nb] .
    with that(2) l \<open>lval L = ?m\<close> False show ?thesis by simp
  qed
qed

end

interpretation z_reader_ref: z_reader nom_ref wire_ref bigint_ref
  by (intro z_reader.intro nom_ref.nom_laws_axioms wire_ref.wire_laws_axioms bigint_ref.bigint_laws_axioms)

interpretation z_ref: z_codec nom_ref wire_ref bigint_ref hex_ref
  by (intro z_codec.intro z_reader.intro nom_ref.nom_laws_axioms wire_ref.wire_laws_axioms
      bigint_ref.bigint_laws_axioms hex_ref.hex_laws_axioms)

section \<open>Properties\<close>

text \<open>
  C13. Every integer survives the Zarith encoding: the writer accepts its hexadecimal text, and the reader gives
  the integer back from the written bytes, whatever follows them.
\<close>

theorem zarith_roundtrip:
  assumes "z_codec N W I H"
  shows "\<exists>bs. encode_any W H [] (VString (map of_char (to_str_radix16 I n))) EZ = Ok (length bs, bs)
    \<and> zarith N W I (bs @ rest) = Ok (rest, n)"
proof -
  note laws = z_codec.axioms(1) [OF assms]
  note W = z_reader.axioms(2) [OF laws]
  have "\<exists>k bs. encode_z W H [] (z_text n) = Ok (k, bs) \<and> zarith N W I (bs @ rest) = Ok (rest, n)"
    using z_reader.one_byte(1) [OF laws] z_reader.zarith_bits [OF laws, where negative = "n < 0"]
    by (cases rule: z_codec.encode_z_text [OF assms, of n]) auto
  then show ?thesis
    using wire_laws.encode_z_append [OF W, of H "[]" "z_text n"]
    by (auto simp: z_codec.text_z_text [OF assms] encode_any_value)
qed

theorem zarith_roundtrip_witness:
  "\<exists>bs. encode_any wire_ref hex_ref [] (VString (map of_char (to_str_radix16 bigint_ref (- 1000)))) EZ
      = Ok (length bs, bs) \<and> zarith nom_ref wire_ref bigint_ref (bs @ [7]) = Ok ([7], - 1000)"
  by (rule zarith_roundtrip [OF z_ref.z_codec_axioms])

text \<open>
  C39. An amount in \<^verbatim>\<open>Mutez\<close> does not survive: the writer uses the signed format with six bits in the first byte,
  the reader takes seven. The amount \<open>n\<close> is read as \<open>n mod 64 + 128 * (n div 64)\<close>, so exactly the amounts below
  64 are read back.
\<close>

theorem mutez_not_roundtrip:
  assumes "z_codec N W I H" and "0 \<le> n"
  shows "(\<exists>bs. encode_any W H [] (VString (map of_char (to_str_radix16 I n))) EMutez = Ok (length bs, bs)
      \<and> mutez N W I (bs @ rest) = Ok (rest, n mod 64 + 128 * (n div 64)))
    \<and> (n mod 64 + 128 * (n div 64) = n \<longleftrightarrow> n < 64)"
proof -
  note laws = z_codec.axioms(1) [OF assms(1)]
  note W = z_reader.axioms(2) [OF laws]
  have "\<exists>k bs. encode_z W H [] (z_text n) = Ok (k, bs)
      \<and> mutez N W I (bs @ rest) = Ok (rest, n mod 64 + 128 * (n div 64))"
  proof (cases rule: z_codec.encode_z_text [OF assms(1), of n])
    case (1 b)
    then show ?thesis using assms(2) z_reader.one_byte(2) [OF laws, of b rest] by auto
  next
    case (2 L k)
    have "int (lval L mod 64 + 128 * (lval L div 64)) = n mod 64 + 128 * (n div 64)"
      using 2(1) assms(2) by (simp add: zmod_int zdiv_int)
    with 2 show ?thesis using assms(2) z_reader.mutez_bits [OF laws, of L rest] by auto
  qed
  moreover have "n mod 64 + 128 * (n div 64) = n \<longleftrightarrow> n < 64" using assms(2) by presburger
  ultimately show ?thesis
    using wire_laws.encode_z_append [OF W, of H "[]" "z_text n"]
    by (auto simp: z_codec.text_z_text [OF assms(1)] encode_any_value)
qed

theorem mutez_not_roundtrip_witness:
  "\<exists>bs. encode_any wire_ref hex_ref [] (VString (map of_char (to_str_radix16 bigint_ref 100))) EMutez
      = Ok (length bs, bs) \<and> mutez nom_ref wire_ref bigint_ref (bs @ []) = Ok ([], 164)"
  using mutez_not_roundtrip [OF z_ref.z_codec_axioms, of 100 "[]"] by simp

end
