(* ===== verification/Spsc.thy ===== *)
theory Spsc
  imports Prelude
begin

unbundle bit_operations_syntax

text \<open>
  The single-producer single-consumer queue of \<^verbatim>\<open>tezos/spsc/src/lib.rs\<close>: a ring buffer whose head and tail hold a
  lap number above a slot index, and whose tail carries the closed flag in its top bit. A slot is \<open>None\<close>
  until it is first written; reading such a slot is undefined behaviour and modelled as \<open>Panic\<close>, as are failed
  index checks and overflowing additions. An operation that fails leaves the queue unchanged.
\<close>

section \<open>The queue\<close>

definition CLOSED_BIT :: u64 where
  "CLOSED_BIT = push_bit 63 1"

datatype 'a push_error = PushFull 'a | PushClosed 'a

datatype pop_error = PopEmpty | PopClosed

record 'a queue =
  q_head :: u64
  q_tail :: u64
  q_buffer :: "'a option list"
  q_mask_bit :: u64

function next_power_of_two_from :: "nat \<Rightarrow> nat \<Rightarrow> nat" where
  "next_power_of_two_from p n = (if p = 0 \<or> n \<le> p then p else next_power_of_two_from (2 * p) n)"
  by pat_completeness auto
termination by (relation "measure (\<lambda>(p, n). n - p)") auto

declare next_power_of_two_from.simps [simp del]

definition next_power_of_two :: "nat \<Rightarrow> nat" where
  "next_power_of_two n = next_power_of_two_from 1 n"

definition new_queue :: "nat \<Rightarrow> (unit, 'a queue) res" where
  "new_queue capacity =
     (if capacity = 0 \<or> 2 ^ 64 \<le> next_power_of_two (capacity + 1) then Panic
      else Ok \<lparr>q_head = 0, q_tail = 0, q_buffer = replicate capacity None,
               q_mask_bit = word_of_nat (next_power_of_two (capacity + 1))\<rparr>)"

definition usize_add :: "u64 \<Rightarrow> u64 \<Rightarrow> ('e, u64) res" where
  "usize_add a b = (if unat a + unat b < 2 ^ 64 then Ok (a + b) else Panic)"

definition slot_index :: "'a queue \<Rightarrow> u64 \<Rightarrow> nat" where
  "slot_index q i = unat (i AND (q_mask_bit q - 1))"

definition next_lap :: "'a queue \<Rightarrow> u64 \<Rightarrow> u64" where
  "next_lap q i = (i AND NOT (q_mask_bit q - 1)) + q_mask_bit q"

definition advance :: "'a queue \<Rightarrow> u64 \<Rightarrow> ('e, u64) res" where
  \<comment> \<open>the \<open>next\<close> of \<open>push\<close> and \<open>pop\<close>\<close>
  "advance q i =
     (if slot_index q i + 1 < length (q_buffer q) then usize_add i 1 else Ok (next_lap q i))"

definition is_closed :: "u64 \<Rightarrow> bool" where
  "is_closed tail \<longleftrightarrow> tail AND CLOSED_BIT \<noteq> 0"

definition set_closed :: "'a queue \<Rightarrow> 'a queue" where
  "set_closed q = q\<lparr>q_tail := q_tail q OR CLOSED_BIT\<rparr>"

definition queue_len :: "'a queue \<Rightarrow> nat" where
  "queue_len q =
     (if q_tail q - q_mask_bit q = q_head q then length (q_buffer q)
      else
        let tail = slot_index q (q_tail q); head = slot_index q (q_head q)
        in if tail < head then (tail + length (q_buffer q)) - head else tail - head)"

definition is_empty :: "'a queue \<Rightarrow> bool" where
  "is_empty q \<longleftrightarrow> queue_len q = 0"

definition available :: "'a queue \<Rightarrow> nat" where
  "available q = length (q_buffer q) - queue_len q"

definition push :: "'a queue \<Rightarrow> 'a \<Rightarrow> ('a push_error, 'a queue) res" where
  "push q elem =
     (let tail = q_tail q; head = q_head q in
      if is_closed tail then Err (PushClosed elem)
      else if head + q_mask_bit q = tail then Err (PushFull elem)
      else
        let index = slot_index q tail in
        if length (q_buffer q) \<le> index then Panic
        else
          res_bind (advance q tail) (\<lambda>next_tail.
            Ok (q\<lparr>q_buffer := (q_buffer q)[index := Some elem], q_tail := next_tail\<rparr>)))"

definition pop :: "'a queue \<Rightarrow> (pop_error, 'a \<times> 'a queue) res" where
  "pop q =
     (let head = q_head q; tail = q_tail q in
      if tail AND NOT CLOSED_BIT = head then (if is_closed tail then Err PopClosed else Err PopEmpty)
      else
        let index = slot_index q head in
        if length (q_buffer q) \<le> index then Panic
        else case q_buffer q ! index of
          None \<Rightarrow> Panic
        | Some data \<Rightarrow> res_bind (advance q head) (\<lambda>next_head. Ok (data, q\<lparr>q_head := next_head\<rparr>)))"

definition copy_slice :: "nat \<Rightarrow> 'a list \<Rightarrow> 'a option list \<Rightarrow> (unit push_error, 'a option list) res" where
  \<comment> \<open>the copies of \<open>push_slice\<close>, with the bounds checks of slicing\<close>
  "copy_slice index items buffer =
     (if length buffer < index + length items then
        let len = length buffer - index in
        if length buffer < index \<or> length items < len \<or> length buffer < length items - len then Panic
        else
          let buffer = take index buffer @ map Some (take len items)
          in Ok (map Some (drop len items) @ drop (length items - len) buffer)
      else Ok (take index buffer @ map Some items @ drop (index + length items) buffer))"

definition slice_next_tail :: "'a queue \<Rightarrow> nat \<Rightarrow> (unit push_error, u64) res" where
  "slice_next_tail q slice_length =
     (let tail = q_tail q; buffer_length = length (q_buffer q); index = slot_index q tail in
      if index + slice_length < buffer_length then usize_add tail (word_of_nat slice_length)
      else if buffer_length = 0 then Panic
      else Ok (next_lap q tail + word_of_nat ((index + slice_length) mod buffer_length)))"

definition push_slice :: "'a queue \<Rightarrow> 'a list \<Rightarrow> (unit push_error, 'a queue) res" where
  "push_slice q items =
     (if is_closed (q_tail q) then Err (PushClosed ())
      else
        res_bind (slice_next_tail q (length items)) (\<lambda>next_tail.
        if q_head q + q_mask_bit q < next_tail then Err (PushFull ())
        else
          res_bind (copy_slice (slot_index q (q_tail q)) items (q_buffer q)) (\<lambda>buffer.
            Ok (q\<lparr>q_buffer := buffer, q_tail := next_tail\<rparr>))))"

fun drop_queue :: "nat \<Rightarrow> 'a queue \<Rightarrow> 'a list \<Rightarrow> ('e, 'a list) res" where
  \<comment> \<open>dropping the queue pops and drops what is left; the list collects the dropped values\<close>
  "drop_queue 0 q dropped = Panic"
| "drop_queue (Suc fuel) q dropped =
     (case pop q of
        Ok (x, q) \<Rightarrow> drop_queue fuel q (dropped @ [x])
      | Err _ \<Rightarrow> Ok dropped
      | Panic \<Rightarrow> Panic)"

section \<open>Positions\<close>

text \<open>The counter value after \<open>n\<close> elements in a ring of \<open>cap\<close> slots with laps of \<open>m\<close>.\<close>

definition position :: "nat \<Rightarrow> nat \<Rightarrow> nat \<Rightarrow> nat" where
  "position cap m n = n div cap * m + n mod cap"

locale ring =
  fixes cap k :: nat
  assumes cap_pos: "0 < cap" and cap_less: "cap < 2 ^ k" and k_small: "k \<le> 62"
begin

abbreviation pos :: "nat \<Rightarrow> nat" where "pos \<equiv> position cap (2 ^ k)"

lemma mod_less: "n mod cap < 2 ^ k"
  using cap_pos cap_less mod_less_divisor [of cap n] by linarith

lemma pos_mod: "pos n mod 2 ^ k = n mod cap"
  using mod_less [of n] by (simp add: position_def)

lemma pos_div: "pos n div 2 ^ k = n div cap"
  using mod_less [of n] by (simp add: position_def)

lemma pos_0 [simp]: "pos 0 = 0"
  by (simp add: position_def)

lemma pos_add_cap: "pos (n + cap) = pos n + 2 ^ k"
  using cap_pos by (simp add: position_def div_add_self2)

lemma pos_Suc:
  "pos (Suc n) = (if n mod cap + 1 < cap then pos n + 1 else (n div cap + 1) * 2 ^ k)"
proof (cases "Suc (n mod cap) = cap")
  case False
  then have "n mod cap + 1 < cap" using mod_less_divisor [OF cap_pos, of n] by linarith
  with False show ?thesis by (simp add: position_def div_Suc mod_Suc)
qed (simp add: position_def div_Suc mod_Suc)

lemma pos_less: "n < l \<Longrightarrow> pos n < pos l"
proof (induction l)
  case (Suc l)
  have "pos l < pos (Suc l)"
    using pos_mod [of l] pos_div [of l] div_mult_mod_eq [of "pos l" "2 ^ k"] mod_less [of l]
    by (auto simp: pos_Suc)
  with Suc show ?case by (cases "n = l") auto
qed simp

lemma pos_less_iff: "pos n < pos l \<longleftrightarrow> n < l"
  using pos_less by (metis linorder_cases less_imp_not_less)

lemma pos_mono: "n \<le> l \<Longrightarrow> pos n \<le> pos l"
  using pos_less [of n l] by (cases "n = l") auto

lemma pos_eq_iff: "pos n = pos l \<longleftrightarrow> n = l"
  using pos_less by (metis linorder_cases less_irrefl)

lemma pos_add:
  "pos (n + s) = (if n mod cap + s < cap then pos n + s
    else (n div cap + (n mod cap + s) div cap) * 2 ^ k + (n mod cap + s) mod cap)"
proof -
  have "n + s = n div cap * cap + (n mod cap + s)" by simp
  then have "(n + s) div cap = n div cap + (n mod cap + s) div cap" "(n + s) mod cap = (n mod cap + s) mod cap"
    using cap_pos by (metis add.commute div_mult_self1 less_not_refl2, metis mod_mult_self3)
  then show ?thesis by (simp add: position_def)
qed

section \<open>Counters\<close>

definition counter :: "nat \<Rightarrow> u64" where
  "counter n = word_of_nat (pos n)"

lemma unat_counter: "pos n < 2 ^ 64 \<Longrightarrow> unat (counter n) = pos n"
  by (simp add: counter_def unat_of_nat take_bit_nat_eq_self_iff)

lemma low_bits: "unat (x AND (2 ^ k - 1)) = unat (x :: u64) mod 2 ^ k"
proof -
  have "x AND (2 ^ k - 1) = take_bit k x" by (simp only: take_bit_eq_mask mask_eq_exp_minus_1)
  then have "unat (x AND (2 ^ k - 1)) = take_bit k (unat x)" by (simp only: unsigned_take_bit_eq)
  then show ?thesis by (simp only: take_bit_eq_mod)
qed

lemma high_bits: "x AND NOT (2 ^ k - 1) = x - word_of_nat (unat (x :: u64) mod 2 ^ k)"
proof -
  have "(x AND (2 ^ k - 1)) + (x AND NOT (2 ^ k - 1)) = x"
    by (subst disjunctive_add_eq_or) (auto intro!: bit_eqI simp: bit_simps)
  moreover have "word_of_nat (unat x mod 2 ^ k) = x AND (2 ^ k - 1)"
    unfolding low_bits [symmetric] by simp
  ultimately show ?thesis by (simp add: eq_diff_eq add.commute)
qed

lemma counter_lap: "x = counter n \<Longrightarrow> pos n < 2 ^ 63 \<Longrightarrow>
   x AND NOT (2 ^ k - 1) = word_of_nat (n div cap * 2 ^ k)"
  using pos_mod [of n] unat_counter [of n]
  by (simp add: high_bits counter_def position_def)

lemma counter_no_top: "pos n < 2 ^ 63 \<Longrightarrow> \<not> bit (counter n) 63"
proof -
  assume "pos n < 2 ^ 63"
  then have "take_bit 63 (unat (counter n)) = unat (counter n)"
    by (simp add: unat_counter take_bit_nat_eq_self_iff)
  then have "\<not> bit (unat (counter n)) 63" by (metis bit_take_bit_iff less_irrefl)
  then show ?thesis by (simp add: bit_unsigned_iff)
qed

lemma counter_eq_iff:
  "pos n < 2 ^ 64 \<Longrightarrow> pos l < 2 ^ 64 \<Longrightarrow> counter n = counter l \<longleftrightarrow> n = l"
  using unat_counter pos_eq_iff by metis

lemma counter_add_lap: "counter n + 2 ^ k = counter (n + cap)"
  by (simp add: counter_def pos_add_cap)

end

lemma bit_CLOSED_BIT: "bit CLOSED_BIT n \<longleftrightarrow> n = 63"
  unfolding CLOSED_BIT_def bit_push_bit_iff by (auto simp: bit_1_iff possible_bit_def)

lemma closed_bit:
  "\<not> bit w 63 \<Longrightarrow> \<not> is_closed w" "is_closed (w OR CLOSED_BIT)"
  "\<not> bit w 63 \<Longrightarrow> (w OR CLOSED_BIT) AND NOT CLOSED_BIT = w" "\<not> bit w 63 \<Longrightarrow> w AND NOT CLOSED_BIT = w"
proof -
  have "(w OR CLOSED_BIT) AND CLOSED_BIT = CLOSED_BIT" by (rule bit_eqI) (auto simp: bit_simps)
  then show "is_closed (w OR CLOSED_BIT)" by (simp add: is_closed_def CLOSED_BIT_def)
  have "w AND CLOSED_BIT = 0" if "\<not> bit w 63"
    by (rule bit_eqI) (use that in \<open>auto simp: bit_CLOSED_BIT bit_simps\<close>)
  then show "\<not> bit w 63 \<Longrightarrow> \<not> is_closed w" by (simp add: is_closed_def)
  show "\<not> bit w 63 \<Longrightarrow> (w OR CLOSED_BIT) AND NOT CLOSED_BIT = w"
    by (rule bit_eqI) (auto simp: bit_CLOSED_BIT bit_simps)
  show "\<not> bit w 63 \<Longrightarrow> w AND NOT CLOSED_BIT = w"
    by (rule bit_eqI) (auto simp: bit_CLOSED_BIT bit_simps)
qed

section \<open>The abstract queue\<close>

text \<open>What the queue promises: a bounded first-in first-out list with a closed flag.\<close>

record 'a fifo =
  f_items :: "'a list"
  f_closed :: bool

definition fifo_push :: "nat \<Rightarrow> 'a fifo \<Rightarrow> 'a \<Rightarrow> ('a push_error, 'a fifo) res" where
  "fifo_push cap f x =
     (if f_closed f then Err (PushClosed x)
      else if length (f_items f) = cap then Err (PushFull x)
      else Ok (f\<lparr>f_items := f_items f @ [x]\<rparr>))"

definition fifo_pop :: "'a fifo \<Rightarrow> (pop_error, 'a \<times> 'a fifo) res" where
  "fifo_pop f =
     (case f_items f of
        [] \<Rightarrow> Err (if f_closed f then PopClosed else PopEmpty)
      | x # xs \<Rightarrow> Ok (x, f\<lparr>f_items := xs\<rparr>))"

definition fifo_push_slice :: "nat \<Rightarrow> 'a fifo \<Rightarrow> 'a list \<Rightarrow> (unit push_error, 'a fifo) res" where
  "fifo_push_slice cap f xs =
     (if f_closed f then Err (PushClosed ())
      else if cap < length (f_items f) + length xs then Err (PushFull ())
      else Ok (f\<lparr>f_items := f_items f @ xs\<rparr>))"

context ring
begin

text \<open>
  A queue from which \<open>n\<close> elements have been taken represents an abstract queue. The laps stay below the
  closed bit: \<open>2\<^sup>6\<^sup>3\<close> is not reached.
\<close>

definition rep :: "'a queue \<Rightarrow> nat \<Rightarrow> 'a fifo \<Rightarrow> bool" where
  "rep q n f \<longleftrightarrow>
     q_mask_bit q = 2 ^ k \<and> length (q_buffer q) = cap \<and> q_head q = counter n
     \<and> q_tail q = (let t = counter (n + length (f_items f)) in if f_closed f then t OR CLOSED_BIT else t)
     \<and> length (f_items f) \<le> cap \<and> pos (n + length (f_items f)) < 2 ^ 63
     \<and> (\<forall>i < length (f_items f). q_buffer q ! ((n + i) mod cap) = Some (f_items f ! i))"

lemma slot_index_counter:
  assumes "q_mask_bit q = 2 ^ k" and "pos n < 2 ^ 63"
  shows "slot_index q (counter n) = n mod cap" and "slot_index q (counter n OR CLOSED_BIT) = n mod cap"
proof -
  have lt: "pos n < 2 ^ 64" using assms(2) by simp
  show "slot_index q (counter n) = n mod cap"
    using assms lt by (simp only: slot_index_def low_bits unat_counter pos_mod)
  have "(counter n OR CLOSED_BIT) AND (2 ^ k - 1) = counter n AND (2 ^ k - 1)"
    using k_small by (intro bit_eqI) (auto simp: bit_simps bit_CLOSED_BIT simp flip: mask_eq_exp_minus_1)
  then show "slot_index q (counter n OR CLOSED_BIT) = n mod cap"
    using assms lt by (simp only: slot_index_def low_bits unat_counter pos_mod)
qed

lemma advance_counter:
  assumes "q_mask_bit q = 2 ^ k" and "length (q_buffer q) = cap" and "pos n < 2 ^ 63"
  shows "advance q (counter n) = Ok (counter (Suc n))"
proof -
  have u: "unat (counter n) = pos n" using assms(3) by (simp add: unat_counter)
  have "next_lap q (counter n) = word_of_nat ((n div cap + 1) * 2 ^ k)"
    using counter_lap [OF refl assms(3)] assms(1) by (simp add: next_lap_def)
  moreover have "counter (Suc n) = (if n mod cap + 1 < cap then counter n + 1 else word_of_nat ((n div cap + 1) * 2 ^ k))"
    unfolding counter_def pos_Suc by simp
  ultimately show ?thesis using assms u by (simp add: advance_def slot_index_counter usize_add_def)
qed

lemma slots_distinct: "i < j \<Longrightarrow> j < i + cap \<Longrightarrow> (n + j) mod cap \<noteq> (n + i) mod cap"
proof
  assume "i < j" "j < i + cap" "(n + j) mod cap = (n + i) mod cap"
  then have "cap dvd j - i" using mod_eq_dvd_iff_nat [of "n + i" "n + j" cap] by simp
  with \<open>i < j\<close> \<open>j < i + cap\<close> show False by (auto dest: dvd_imp_le)
qed

lemma pos_lap_bound: "n \<le> l \<Longrightarrow> pos l < 2 ^ 63 \<Longrightarrow> pos (n + cap) < 2 ^ 64"
proof -
  assume "n \<le> l" "pos l < 2 ^ 63"
  moreover have "pos n \<le> pos l" using pos_less [of n l] \<open>n \<le> l\<close> by (cases "n = l") auto
  moreover have "(2 :: nat) ^ k \<le> 2 ^ 62" using k_small by (intro power_increasing) auto
  ultimately show ?thesis by (simp add: pos_add_cap)
qed

lemma rep_facts:
  assumes "rep q n f"
  shows "q_mask_bit q = 2 ^ k" "length (q_buffer q) = cap" "q_head q = counter n"
    "q_tail q = (if f_closed f then counter (n + length (f_items f)) OR CLOSED_BIT else counter (n + length (f_items f)))"
    "length (f_items f) \<le> cap" "pos (n + length (f_items f)) < 2 ^ 63"
    "i < length (f_items f) \<Longrightarrow> q_buffer q ! ((n + i) mod cap) = Some (f_items f ! i)"
  using assms by (auto simp: rep_def Let_def)

lemma push_refines:
  assumes "rep q n f" and "pos (Suc (n + length (f_items f))) < 2 ^ 63"
  shows "case fifo_push cap f x of
      Ok f' \<Rightarrow> \<exists>q'. push q x = Ok q' \<and> rep q' n f'
    | Err e \<Rightarrow> push q x = Err e
    | Panic \<Rightarrow> False"
proof -
  let ?l = "length (f_items f)" and ?t = "n + length (f_items f)"
  note q = rep_facts [OF assms(1)]
  note top = counter_no_top [OF q(6)]
  show ?thesis
  proof (cases "f_closed f")
    case True
    then show ?thesis using q by (simp add: fifo_push_def push_def closed_bit)
  next
    case open_: False
    have full: "counter n + 2 ^ k = counter ?t \<longleftrightarrow> ?l = cap"
      using q(6) pos_lap_bound [of n ?t] by (auto simp: counter_add_lap counter_eq_iff)
    show ?thesis
    proof (cases "?l = cap")
      case True
      then show ?thesis using q open_ full closed_bit(1) [OF top] by (simp add: fifo_push_def push_def Let_def)
    next
      case False
      let ?q = "q\<lparr>q_buffer := (q_buffer q)[?t mod cap := Some x], q_tail := counter (Suc ?t)\<rparr>"
      have "push q x = Ok ?q"
        using q open_ full False cap_pos mod_less_divisor [OF cap_pos, of ?t]
        by (simp add: push_def Let_def closed_bit top slot_index_counter advance_counter not_le)
      moreover have "rep ?q n (f\<lparr>f_items := f_items f @ [x]\<rparr>)"
      proof -
        have "?t mod cap \<noteq> (n + i) mod cap" if "i < ?l" for i
          using slots_distinct [of i ?l n] that q(5) False by auto
        then show ?thesis
          using q open_ False assms(2) by (auto simp: rep_def nth_append less_Suc_eq)
      qed
      ultimately show ?thesis using open_ False by (auto simp: fifo_push_def)
    qed
  qed
qed

lemma rep_before: "rep q n f \<Longrightarrow> pos n < 2 ^ 63"
  using rep_facts(6) [of q n f] pos_less [of n "n + length (f_items f)"] by (cases "f_items f") auto

lemma pop_refines:
  assumes "rep q n f"
  shows "case fifo_pop f of
      Ok (x, f') \<Rightarrow> \<exists>q'. pop q = Ok (x, q') \<and> rep q' (Suc n) f'
    | Err e \<Rightarrow> pop q = Err e
    | Panic \<Rightarrow> False"
proof -
  note q = rep_facts [OF assms] and top = counter_no_top [OF rep_facts(6) [OF assms]]
  have tail: "q_tail q AND NOT CLOSED_BIT = counter (n + length (f_items f))" "is_closed (q_tail q) = f_closed f"
    using q(4) top by (auto simp: closed_bit)
  have empty: "counter (n + length (f_items f)) = counter n \<longleftrightarrow> f_items f = []"
    using q(6) rep_before [OF assms] by (auto simp: counter_eq_iff)
  show ?thesis
  proof (cases "f_items f")
    case Nil
    then show ?thesis using q(3) tail empty by (simp add: fifo_pop_def pop_def Let_def)
  next
    case (Cons x xs)
    have "q_buffer q ! (n mod cap) = Some x" using q(7) [of 0] Cons by simp
    then have "pop q = Ok (x, q\<lparr>q_head := counter (Suc n)\<rparr>)"
      using q(1-3) tail empty Cons rep_before [OF assms] mod_less_divisor [OF cap_pos, of n]
      by (simp add: pop_def Let_def slot_index_counter advance_counter not_le)
    moreover have "rep (q\<lparr>q_head := counter (Suc n)\<rparr>) (Suc n) (f\<lparr>f_items := xs\<rparr>)"
      using q Cons rep_facts(7) [OF assms, of "Suc i" for i] by (auto simp: rep_def Let_def)
    ultimately show ?thesis using Cons by (auto simp: fifo_pop_def)
  qed
qed

lemma closed_refines: "rep q n f \<Longrightarrow> rep (set_closed q) n (f\<lparr>f_closed := True\<rparr>)"
  by (auto simp: rep_def set_closed_def Let_def or.assoc)

lemma mod_distance:
  "l < cap \<Longrightarrow> l = (if (n + l) mod cap < n mod cap then (n + l) mod cap + cap - n mod cap else (n + l) mod cap - n mod cap)"
proof -
  assume l: "l < cap"
  have "(n + l) mod cap = (if n mod cap + l < cap then n mod cap + l else n mod cap + l - cap)"
    using l mod_less_divisor [OF cap_pos, of n] mod_add_left_eq [of n cap l]
    by (metis add_less_mono le_mod_geq mod_less not_less mod_if add_diff_inverse_nat less_diff_conv2)
  then show ?thesis using l mod_less_divisor [OF cap_pos, of n] by auto
qed

lemma len_refines:
  assumes "rep q n f"
  shows "queue_len q = (if f_closed f \<and> length (f_items f) = cap then 0 else length (f_items f))"
proof -
  let ?l = "length (f_items f)" and ?t = "n + length (f_items f)"
  note q = rep_facts [OF assms] and top = counter_no_top [OF rep_facts(6) [OF assms]]
  have slots: "slot_index q (q_tail q) = ?t mod cap" "slot_index q (q_head q) = n mod cap"
    using q(1,3,4,6) rep_before [OF assms] by (auto simp: slot_index_counter)
  have full: "q_tail q - q_mask_bit q = q_head q \<longleftrightarrow> \<not> f_closed f \<and> ?l = cap"
  proof (cases "f_closed f")
    case True
    have "counter ?t AND CLOSED_BIT = 0"
      by (rule bit_eqI) (use top in \<open>auto simp: bit_CLOSED_BIT bit_simps\<close>)
    then have "q_tail q = counter ?t + CLOSED_BIT" using q(4) True by (simp add: disjunctive_add_eq_or)
    then have "unat (q_tail q) = pos ?t + 2 ^ 63"
      using q(6) by (simp add: unat_word_ariths unat_counter CLOSED_BIT_def)
    moreover have "unat (q_head q + q_mask_bit q) = pos n + 2 ^ k"
      using q(1,3) pos_lap_bound [of n ?t] q(6) by (simp add: counter_add_lap unat_counter flip: pos_add_cap)
    moreover have "pos n \<le> pos ?t" using pos_less [of n ?t] by (cases "?l = 0") auto
    moreover have "(2 :: nat) ^ k \<le> 2 ^ 62" using k_small by (intro power_increasing) auto
    ultimately have "q_tail q \<noteq> q_head q + q_mask_bit q" by auto
    then show ?thesis using True by (simp add: diff_eq_eq)
  next
    case False
    then show ?thesis
      using q(1,3,4,6) pos_lap_bound [of n ?t] by (auto simp: diff_eq_eq counter_add_lap counter_eq_iff)
  qed
  show ?thesis
    using mod_distance [of ?l n] full slots q(2,5) by (auto simp: queue_len_def Let_def)
qed

lemma copy_slice_ok:
  assumes "length buffer = cap" and "index < cap" and "length xs \<le> cap"
  obtains b where "copy_slice index xs buffer = Ok b" "length b = cap"
    "\<And>i. i < length xs \<Longrightarrow> b ! ((index + i) mod cap) = Some (xs ! i)"
    "\<And>j. j < cap \<Longrightarrow> (\<And>i. i < length xs \<Longrightarrow> (index + i) mod cap \<noteq> j) \<Longrightarrow> b ! j = buffer ! j"
proof (cases "index + length xs \<le> cap")
  case True
  let ?b = "take index buffer @ map Some xs @ drop (index + length xs) buffer"
  show ?thesis
  proof (rule that [of ?b])
    fix j assume j: "j < cap" "\<And>i. i < length xs \<Longrightarrow> (index + i) mod cap \<noteq> j"
    have "j < index \<or> index + length xs \<le> j"
    proof (rule ccontr)
      assume "\<not> (j < index \<or> index + length xs \<le> j)"
      then have "j - index < length xs" "index + (j - index) = j" by auto
      then show False using j(1) j(2) [of "j - index"] by simp
    qed
    then show "?b ! j = buffer ! j" using j(1) assms(1) True by (auto simp: nth_append)
  qed (use True assms in \<open>auto simp: copy_slice_def nth_append\<close>)
next
  case False
  let ?n = "cap - index"
  let ?c = "take index buffer @ map Some (take ?n xs)"
  let ?b = "map Some (drop ?n xs) @ drop (length xs - ?n) ?c"
  have n: "?n \<le> length xs" "length xs - ?n \<le> index" using False assms by auto
  have b: "?b ! j = (if j < length xs - ?n then Some (xs ! (?n + j))
      else if j < index then buffer ! j else Some (xs ! (j - index)))" if "j < cap" for j
    using that assms n by (auto simp: nth_append)
  show ?thesis
  proof (rule that [of ?b])
    show "copy_slice index xs buffer = Ok ?b"
      using False assms n by (simp add: copy_slice_def Let_def not_less)
    show "length ?b = cap" using assms n by simp
    show "?b ! ((index + i) mod cap) = Some (xs ! i)" if "i < length xs" for i
      using that assms n b [of "(index + i) mod cap"] by (cases "index + i < cap") (auto simp: mod_if)
    show "?b ! j = buffer ! j" if j: "j < cap" "\<And>i. i < length xs \<Longrightarrow> (index + i) mod cap \<noteq> j" for j
    proof -
      have "\<not> j < length xs - ?n"
      proof
        assume "j < length xs - ?n"
        then have "?n + j < length xs" by simp
        moreover have "index + (?n + j) = cap + j" using assms(2) by simp
        ultimately show False using j(2) [of "?n + j"] j(1) by simp
      qed
      moreover have "j < index"
      proof (rule ccontr)
        assume "\<not> j < index"
        then have "j - index < length xs" "index + (j - index) = j" using j(1) False by auto
        then show False using j(1) j(2) [of "j - index"] by simp
      qed
      ultimately show ?thesis using b j(1) by simp
    qed
  qed
qed

lemma slice_next_tail_eq:
  assumes "q_mask_bit q = 2 ^ k" "length (q_buffer q) = cap" "q_tail q = counter t" "pos (t + s) < 2 ^ 63" "s \<le> cap"
  shows "slice_next_tail q s = Ok (counter (t + s))"
proof -
  have pt: "pos t < 2 ^ 63" using assms(4) pos_less [of t "t + s"] by (cases "s = 0") auto
  have i: "slot_index q (counter t) = t mod cap" using slot_index_counter(1) [OF assms(1) pt] .
  have u: "unat (counter t) = pos t" using pt by (simp add: unat_counter)
  show ?thesis
  proof (cases "t mod cap + s < cap")
    case True
    then have "pos (t + s) = pos t + s" by (simp add: pos_add)
    with True i u assms show ?thesis
      by (simp add: slice_next_tail_def usize_add_def Let_def unat_of_nat take_bit_nat_eq_self_iff counter_def)
  next
    case False
    then have "(t mod cap + s) div cap = 1"
      using assms(5) mod_less_divisor [OF cap_pos, of t] by (intro div_nat_eqI) auto
    with False have "pos (t + s) = (t div cap + 1) * 2 ^ k + (t mod cap + s) mod cap" by (simp add: pos_add)
    then have "counter (t + s) = next_lap q (counter t) + word_of_nat ((t mod cap + s) mod cap)"
      using counter_lap [OF refl pt] assms(1) by (simp add: counter_def next_lap_def)
    with False i assms cap_pos show ?thesis by (simp add: slice_next_tail_def Let_def)
  qed
qed

lemma lap_less_iff:
  assumes "n \<le> l" and "pos l < 2 ^ 63"
  shows "counter n + 2 ^ k < counter l \<longleftrightarrow> n + cap < l"
proof -
  have "unat (counter (n + cap)) = pos (n + cap)" "unat (counter l) = pos l"
    using pos_lap_bound [OF assms] assms(2) by (simp_all add: unat_counter)
  then show ?thesis by (simp only: counter_add_lap word_less_nat_alt pos_less_iff)
qed

lemma push_slice_refines:
  assumes "rep q n f" and "length xs \<le> cap" and "pos (n + length (f_items f) + length xs) < 2 ^ 63"
  shows "case fifo_push_slice cap f xs of
      Ok f' \<Rightarrow> \<exists>q'. push_slice q xs = Ok q' \<and> rep q' n f'
    | Err e \<Rightarrow> push_slice q xs = Err e
    | Panic \<Rightarrow> False"
proof -
  let ?l = "length (f_items f)" and ?t = "n + length (f_items f)" and ?s = "length xs"
  note q = rep_facts [OF assms(1)] and top = counter_no_top [OF rep_facts(6) [OF assms(1)]]
  show ?thesis
  proof (cases "f_closed f")
    case True
    then show ?thesis using q(4) by (simp add: fifo_push_slice_def push_slice_def closed_bit)
  next
    case open_: False
    then have tail: "q_tail q = counter ?t" using q(4) by simp
    note nt = slice_next_tail_eq [OF q(1,2) tail assms(3,2)]
    have full: "q_head q + q_mask_bit q < counter (?t + ?s) \<longleftrightarrow> cap < ?l + ?s"
      using lap_less_iff [of n "?t + ?s"] assms(3) q(1,3) by simp
    show ?thesis
    proof (cases "cap < ?l + ?s")
      case True
      then show ?thesis using open_ tail nt full closed_bit(1) [OF top]
        by (simp add: fifo_push_slice_def push_slice_def)
    next
      case False
      obtain b where b: "copy_slice (?t mod cap) xs (q_buffer q) = Ok b" "length b = cap"
        "\<And>i. i < ?s \<Longrightarrow> b ! ((?t mod cap + i) mod cap) = Some (xs ! i)"
        "\<And>j. j < cap \<Longrightarrow> (\<And>i. i < ?s \<Longrightarrow> (?t mod cap + i) mod cap \<noteq> j) \<Longrightarrow> b ! j = q_buffer q ! j"
        using copy_slice_ok [OF q(2) mod_less_divisor [OF cap_pos] assms(2)] by metis
      let ?q = "q\<lparr>q_buffer := b, q_tail := counter (?t + ?s)\<rparr>"
      have "push_slice q xs = Ok ?q"
        using open_ tail nt full False closed_bit(1) [OF top] b(1) q(6)
        by (simp add: push_slice_def slot_index_counter [OF q(1)])
      moreover have "rep ?q n (f\<lparr>f_items := f_items f @ xs\<rparr>)"
      proof -
        have "b ! ((n + i) mod cap) = Some ((f_items f @ xs) ! i)" if i: "i < ?l + ?s" for i
        proof (cases "i < ?l")
          case True
          have "(?t mod cap + j) mod cap \<noteq> (n + i) mod cap" if "j < ?s" for j
            using slots_distinct [of i "?l + j" n] that True False by (simp add: mod_simps add.assoc)
          then show ?thesis using b(4) [of "(n + i) mod cap"] q(7) [of i] True cap_pos by (simp add: nth_append)
        next
          case ge: False
          then obtain j where j: "i = ?l + j" using le_Suc_ex not_less by blast
          then have "(?t mod cap + j) mod cap = (n + i) mod cap" by (simp add: mod_simps add.assoc)
          then show ?thesis using b(3) [of j] i j by (simp add: nth_append)
        qed
        then show ?thesis using q b(2) open_ False assms(3) by (auto simp: rep_def add.assoc)
      qed
      ultimately show ?thesis using open_ False by (auto simp: fifo_push_slice_def)
    qed
  qed
qed

lemma oversized_slice:
  assumes "rep q n \<lparr>f_items = [], f_closed = False\<rparr>" and "length xs = 2 * cap - n mod cap"
    and "pos (n + cap) < 2 ^ 63"
  shows "\<exists>q'. push_slice q xs = Ok q' \<and> rep q' n \<lparr>f_items = drop cap xs, f_closed = False\<rparr>"
proof -
  let ?i = "n mod cap"
  have i: "?i < cap" using cap_pos by simp
  note q = rep_facts [OF assms(1), simplified]
  have pn: "pos n < 2 ^ 63" using assms(3) by (simp add: pos_add_cap)
  note top = counter_no_top [OF pn]
  have m: "n + (cap - ?i) = (n div cap + 1) * cap"
  proof -
    have "n = n div cap * cap + ?i" by simp
    then show ?thesis using i by (metis add.assoc add_diff_inverse_nat add_mult_distrib less_imp_le_nat mult_1 not_le)
  qed
  then have "pos (n + (cap - ?i)) = (n div cap + 1) * 2 ^ k" using cap_pos by (simp only: position_def) simp
  then have nl: "counter (n + (cap - ?i)) = next_lap q (counter n)"
    using counter_lap [OF refl pn] q(1) by (simp add: counter_def next_lap_def)
  have nt: "slice_next_tail q (length xs) = Ok (counter (n + (cap - ?i)))"
    using q i assms(2) nl by (simp add: slice_next_tail_def Let_def slot_index_counter pn)
  let ?b = "map Some (drop (cap - ?i) xs)"
  have "copy_slice ?i xs (q_buffer q) = Ok ?b"
    using q(2) i assms(2) by (simp add: copy_slice_def Let_def)
  moreover have pe: "pos (n + (cap - ?i)) < 2 ^ 63"
    using assms(3) pos_mono [of "n + (cap - ?i)" "n + cap"] by simp
  then have "\<not> q_head q + q_mask_bit q < counter (n + (cap - ?i))"
    using lap_less_iff [of n "n + (cap - ?i)"] q(1,3) by simp
  ultimately have "push_slice q xs = Ok (q\<lparr>q_buffer := ?b, q_tail := counter (n + (cap - ?i))\<rparr>)"
    using q nt closed_bit(1) [OF top] by (simp add: push_slice_def slot_index_counter pn)
  moreover have "rep (q\<lparr>q_buffer := ?b, q_tail := counter (n + (cap - ?i))\<rparr>) n
      \<lparr>f_items = drop cap xs, f_closed = False\<rparr>"
  proof -
    have "?b ! ((n + j) mod cap) = Some (drop cap xs ! j)" if "j < cap - ?i" for j
    proof -
      have "(n + j) mod cap = ?i + j" using that mod_add_left_eq [of n cap j] by simp
      then show ?thesis using that assms(2) i by (simp add: add.commute add.left_commute)
    qed
    then show ?thesis using q pe assms(2) i by (auto simp: rep_def)
  qed
  ultimately show ?thesis by blast
qed

lemma drop_queue_all:
  "rep q n f \<Longrightarrow> length (f_items f) < fuel \<Longrightarrow> drop_queue fuel q dropped = Ok (dropped @ f_items f)"
proof (induction fuel arbitrary: q n f dropped)
  case (Suc fuel)
  show ?case
  proof (cases "f_items f")
    case Nil
    then show ?thesis using pop_refines [OF Suc.prems(1)] by (simp add: fifo_pop_def)
  next
    case (Cons x xs)
    then obtain q' where "pop q = Ok (x, q')" "rep q' (Suc n) (f\<lparr>f_items := xs\<rparr>)"
      using pop_refines [OF Suc.prems(1)] by (auto simp: fifo_pop_def)
    with Suc.IH [of q' "Suc n" "f\<lparr>f_items := xs\<rparr>" "dropped @ [x]"] Suc.prems(2) Cons show ?thesis by simp
  qed
qed simp

end

interpretation free_ids: ring 2000000 21
  by unfold_locales simp_all

lemma next_power_of_two_from_power:
  "n \<le> 2 ^ l \<Longrightarrow> i \<le> l \<Longrightarrow> (i = 0 \<or> 2 ^ (i - 1) < n) \<Longrightarrow>
   \<exists>k. next_power_of_two_from (2 ^ i) n = 2 ^ k \<and> n \<le> 2 ^ k \<and> k \<le> l"
proof (induction "l - i" arbitrary: i)
  case 0
  then show ?case by (auto simp: next_power_of_two_from.simps intro: exI [of _ i])
next
  case (Suc d)
  show ?case
  proof (cases "n \<le> 2 ^ i")
    case True
    then show ?thesis using Suc.prems by (auto simp: next_power_of_two_from.simps intro: exI [of _ i])
  next
    case False
    then have "\<exists>k. next_power_of_two_from (2 ^ Suc i) n = 2 ^ k \<and> n \<le> 2 ^ k \<and> k \<le> l"
      using Suc.hyps(2) Suc.prems(1) by (intro Suc.hyps(1)) auto
    with False show ?thesis by (subst next_power_of_two_from.simps) simp
  qed
qed

lemma new_queue_ring:
  assumes "0 < cap" and "cap < 2 ^ 62"
  obtains k q where "ring cap k" "next_power_of_two (cap + 1) = 2 ^ k" "new_queue cap = Ok q"
    "ring.rep cap k q 0 \<lparr>f_items = [], f_closed = False\<rparr>"
proof -
  obtain k where k: "next_power_of_two (cap + 1) = 2 ^ k" "cap + 1 \<le> 2 ^ k" "k \<le> 62"
    using next_power_of_two_from_power [of "cap + 1" 62 0] assms by (auto simp: next_power_of_two_def)
  then have ring: "ring cap k" using assms(1) by unfold_locales auto
  have "(2 :: nat) ^ k < 2 ^ 64" using k(3) by (intro power_strict_increasing) auto
  then have "new_queue cap = Ok \<lparr>q_head = 0, q_tail = 0, q_buffer = replicate cap None, q_mask_bit = 2 ^ k\<rparr>"
    using assms(1) k(1) by (simp add: new_queue_def)
  moreover have "ring.rep cap k \<lparr>q_head = 0, q_tail = 0, q_buffer = replicate cap None, q_mask_bit = 2 ^ k\<rparr> 0
      \<lparr>f_items = [], f_closed = False\<rparr>"
    by (simp add: ring.rep_def [OF ring] ring.counter_def [OF ring] ring.pos_0 [OF ring])
  ultimately show ?thesis using that ring k(1) by blast
qed

section \<open>Sequences of operations\<close>

datatype 'a queue_op =
    OpPush 'a
  | OpPushSlice "'a list"
  | OpPop
  | OpClose
  | OpLen
  | OpIsEmpty
  | OpAvailable

datatype 'a queue_result =
    ResPush "('a push_error, unit) res"
  | ResSlice "(unit push_error, unit) res"
  | ResPop "(pop_error, 'a) res"
  | ResClose
  | ResLen nat
  | ResIsEmpty bool
  | ResAvailable nat

fun keep :: "'s \<Rightarrow> ('e, 's) res \<Rightarrow> ('e, unit) res \<times> 's" where
  \<comment> \<open>the outcome of an operation and the state after it, unchanged by a failure\<close>
  "keep s (Ok s') = (Ok (), s')"
| "keep s (Err e) = (Err e, s)"
| "keep s Panic = (Panic, s)"

fun keep_value :: "'s \<Rightarrow> ('e, 'a \<times> 's) res \<Rightarrow> ('e, 'a) res \<times> 's" where
  "keep_value s (Ok (x, s')) = (Ok x, s')"
| "keep_value s (Err e) = (Err e, s)"
| "keep_value s Panic = (Panic, s)"

fun queue_step :: "'a queue \<Rightarrow> 'a queue_op \<Rightarrow> 'a queue_result \<times> 'a queue" where
  "queue_step q (OpPush x) = apfst ResPush (keep q (push q x))"
| "queue_step q (OpPushSlice xs) = apfst ResSlice (keep q (push_slice q xs))"
| "queue_step q OpPop = apfst ResPop (keep_value q (pop q))"
| "queue_step q OpClose = (ResClose, set_closed q)"
| "queue_step q OpLen = (ResLen (queue_len q), q)"
| "queue_step q OpIsEmpty = (ResIsEmpty (is_empty q), q)"
| "queue_step q OpAvailable = (ResAvailable (available q), q)"

fun fifo_step :: "nat \<Rightarrow> 'a fifo \<Rightarrow> 'a queue_op \<Rightarrow> 'a queue_result \<times> 'a fifo" where
  "fifo_step cap f (OpPush x) = apfst ResPush (keep f (fifo_push cap f x))"
| "fifo_step cap f (OpPushSlice xs) = apfst ResSlice (keep f (fifo_push_slice cap f xs))"
| "fifo_step cap f OpPop = apfst ResPop (keep_value f (fifo_pop f))"
| "fifo_step cap f OpClose = (ResClose, f\<lparr>f_closed := True\<rparr>)"
| "fifo_step cap f OpLen = (ResLen (length (f_items f)), f)"
| "fifo_step cap f OpIsEmpty = (ResIsEmpty (f_items f = []), f)"
| "fifo_step cap f OpAvailable = (ResAvailable (cap - length (f_items f)), f)"

fun run_ops :: "('s \<Rightarrow> 'o \<Rightarrow> 'r \<times> 's) \<Rightarrow> 's \<Rightarrow> 'o list \<Rightarrow> 'r list" where
  "run_ops step s [] = []"
| "run_ops step s (oper # ops) = (let (r, s') = step s oper in r # run_ops step s' ops)"

fun op_size :: "'a queue_op \<Rightarrow> nat" where
  "op_size (OpPush x) = 1"
| "op_size (OpPushSlice xs) = length xs"
| "op_size _ = 0"

fun length_query :: "'a queue_op \<Rightarrow> bool" where
  "length_query OpLen = True"
| "length_query OpIsEmpty = True"
| "length_query OpAvailable = True"
| "length_query _ = False"

fun no_closed_full_query :: "nat \<Rightarrow> 'a fifo \<Rightarrow> 'a queue_op list \<Rightarrow> bool" where
  \<comment> \<open>the abstract queue is never asked for its length while it is both closed and full\<close>
  "no_closed_full_query cap f [] \<longleftrightarrow> True"
| "no_closed_full_query cap f (oper # ops) \<longleftrightarrow>
     \<not> (length_query oper \<and> f_closed f \<and> length (f_items f) = cap)
     \<and> no_closed_full_query cap (snd (fifo_step cap f oper)) ops"

context ring
begin

lemma step_refines:
  assumes "rep q n f" and "op_size oper \<le> cap" and "pos (n + length (f_items f) + op_size oper) < 2 ^ 63"
    and "\<not> (length_query oper \<and> f_closed f \<and> length (f_items f) = cap)"
  shows "\<exists>r q' n' f'. queue_step q oper = (r, q') \<and> fifo_step cap f oper = (r, f') \<and> rep q' n' f'
    \<and> n' + length (f_items f') \<le> n + length (f_items f) + op_size oper"
proof (cases oper)
  case (OpPush x)
  with push_refines [OF assms(1), of x] assms show ?thesis
    by (auto simp: fifo_push_def split: if_splits intro!: exI [of _ n])
next
  case (OpPushSlice xs)
  with push_slice_refines [OF assms(1), of xs] assms show ?thesis
    by (auto simp: fifo_push_slice_def split: if_splits intro!: exI [of _ n])
next
  case OpPop
  note pop = pop_refines [OF assms(1)]
  show ?thesis
  proof (cases "f_items f")
    case Nil
    with OpPop pop assms(1) show ?thesis by (auto simp: fifo_pop_def intro!: exI [of _ n])
  next
    case (Cons x xs)
    with OpPop pop show ?thesis by (auto simp: fifo_pop_def intro!: exI [of _ "Suc n"])
  qed
next
  case OpClose
  with closed_refines [OF assms(1)] show ?thesis by force
qed (use assms len_refines [OF assms(1)] rep_facts(2) [OF assms(1)] in
    \<open>auto simp: is_empty_def available_def intro!: exI [of _ n]\<close>)

lemma run_refines:
  assumes "rep q n f" and "\<forall>oper \<in> set ops. op_size oper \<le> cap"
    and "pos (n + length (f_items f) + sum_list (map op_size ops)) < 2 ^ 63" and "no_closed_full_query cap f ops"
  shows "run_ops queue_step q ops = run_ops (fifo_step cap) f ops"
  using assms
proof (induction ops arbitrary: q n f)
  case (Cons oper ops)
  have b: "pos (n + length (f_items f) + op_size oper) < 2 ^ 63"
    using Cons.prems(3) pos_mono [of "n + length (f_items f) + op_size oper"
        "n + length (f_items f) + sum_list (map op_size (oper # ops))"] by simp
  obtain r q' n' f' where st: "queue_step q oper = (r, q')" "fifo_step cap f oper = (r, f')" "rep q' n' f'"
    "n' + length (f_items f') \<le> n + length (f_items f) + op_size oper"
    using step_refines [OF Cons.prems(1) _ b] Cons.prems(2,4) by auto
  have "pos (n' + length (f_items f') + sum_list (map op_size ops)) < 2 ^ 63"
    using Cons.prems(3) st(4) pos_mono [of "n' + length (f_items f') + sum_list (map op_size ops)"
        "n + length (f_items f) + sum_list (map op_size (oper # ops))"] by simp
  then show ?case using st Cons.IH [of q' n' f'] Cons.prems(2,4) by simp
qed simp

end

section \<open>Properties\<close>

text \<open>
  C10. The ring buffer implements a bounded first-in first-out queue. For every capacity below \<open>2\<^sup>6\<^sup>2\<close>, any
  sequence of pushes, slice pushes, pops, closes and questions for the length, the emptiness or the
  available room gives the same results on a new queue and on the abstract queue, under three conditions: no
  slice is longer than the capacity, the number of pushed elements keeps the lap counter below the closed
  bit, and no question is asked while the queue is both closed and full. The first and the last condition
  are needed: the two theorems after this one show what happens without them.
\<close>

theorem spsc_refines_fifo:
  fixes ops :: "'a queue_op list"
  assumes "0 < capacity" and "capacity < 2 ^ 62" and "\<forall>oper \<in> set ops. op_size oper \<le> capacity"
    and "position capacity (next_power_of_two (capacity + 1)) (sum_list (map op_size ops)) < 2 ^ 63"
    and "no_closed_full_query capacity \<lparr>f_items = [], f_closed = False\<rparr> ops"
  shows "\<exists>q. new_queue capacity = Ok q
    \<and> run_ops queue_step q ops = run_ops (fifo_step capacity) \<lparr>f_items = [], f_closed = False\<rparr> ops"
proof -
  obtain k and q :: "'a queue" where k: "ring capacity k" "next_power_of_two (capacity + 1) = 2 ^ k" "new_queue capacity = Ok q"
    "ring.rep capacity k q 0 \<lparr>f_items = [], f_closed = False\<rparr>"
    using new_queue_ring [OF assms(1,2)] .
  with ring.run_refines [OF k(1,4) assms(3)] assms(4,5) show ?thesis by simp
qed

theorem spsc_refines_fifo_witness:
  "\<exists>q. new_queue 2 = Ok q
    \<and> run_ops queue_step q [OpPush (7 :: nat), OpPushSlice [8], OpAvailable, OpPop, OpPush 9, OpLen, OpPop, OpClose, OpIsEmpty]
    = run_ops (fifo_step 2) \<lparr>f_items = [], f_closed = False\<rparr>
        [OpPush 7, OpPushSlice [8], OpAvailable, OpPop, OpPush 9, OpLen, OpPop, OpClose, OpIsEmpty]"
proof -
  have "next_power_of_two 3 = 4"
    by (simp add: next_power_of_two_def next_power_of_two_from.simps)
  then show ?thesis
    by (intro spsc_refines_fifo) (simp_all add: position_def fifo_push_def fifo_push_slice_def fifo_pop_def)
qed

text \<open>
  A slice longer than the queue is not always refused. On an empty queue whose next slot is \<open>i\<close>, a slice of
  twice the capacity less \<open>i\<close> is reported as pushed, but the queue then holds only what follows its first
  \<open>capacity\<close> elements.
\<close>

theorem oversized_slice_loses:
  assumes "ring cap k" and "ring.rep cap k q n \<lparr>f_items = [], f_closed = False\<rparr>"
    and "length xs = 2 * cap - n mod cap" and "position cap (2 ^ k) (n + cap) < 2 ^ 63"
  shows "\<exists>q'. push_slice q xs = Ok q' \<and> ring.rep cap k q' n \<lparr>f_items = drop cap xs, f_closed = False\<rparr>"
  by (rule ring.oversized_slice [OF assms])

theorem oversized_slice_loses_witness:
  "\<exists>q q'. new_queue 2000000 = Ok q \<and> push_slice q (replicate 2000000 False @ replicate 2000000 True) = Ok q'
    \<and> ring.rep 2000000 21 q' 0 \<lparr>f_items = replicate 2000000 True, f_closed = False\<rparr>"
proof -
  obtain k and q :: "bool queue" where k: "ring 2000000 k" "next_power_of_two (2000000 + 1) = 2 ^ k"
    "new_queue 2000000 = Ok q" "ring.rep 2000000 k q 0 \<lparr>f_items = [], f_closed = False\<rparr>"
    using new_queue_ring [of 2000000] by auto
  have "next_power_of_two (2000000 + 1) = 2 ^ 21"
    by (simp add: next_power_of_two_def next_power_of_two_from.simps)
  with k(2) have "(2 :: nat) ^ k = 2 ^ 21" by simp
  then have "k = 21" by (simp only: power_inject_exp)
  then show ?thesis
    using oversized_slice_loses [OF k(1,4), of "replicate 2000000 False @ replicate 2000000 True"] k(3)
    by (simp add: position_def)
qed

text \<open>
  The length of a queue is exact, with one exception: a full queue that has been closed reports length zero,
  hence emptiness and full availability, although its elements can still be taken.
\<close>

theorem closed_full_queue_len:
  assumes "ring cap k" and "ring.rep cap k q n f"
  shows "queue_len q = (if f_closed f \<and> length (f_items f) = cap then 0 else length (f_items f))
    \<and> available q = (if f_closed f \<and> length (f_items f) = cap then cap else cap - length (f_items f))
    \<and> (is_empty q \<longleftrightarrow> f_items f = [] \<or> f_closed f \<and> length (f_items f) = cap)"
  using ring.len_refines [OF assms] ring.rep_facts(2) [OF assms] by (auto simp: available_def is_empty_def)

theorem closed_full_queue_len_witness:
  "queue_len \<lparr>q_head = 0, q_tail = 2 OR CLOSED_BIT, q_buffer = [Some True], q_mask_bit = 2\<rparr> = 0
    \<and> ring.rep 1 1 \<lparr>q_head = 0, q_tail = 2 OR CLOSED_BIT, q_buffer = [Some True], q_mask_bit = 2\<rparr> 0
        \<lparr>f_items = [True], f_closed = True\<rparr>"
proof -
  have r: "ring 1 1" by unfold_locales simp_all
  have "ring.rep 1 1 \<lparr>q_head = 0, q_tail = 2 OR CLOSED_BIT, q_buffer = [Some True], q_mask_bit = 2\<rparr> 0
      \<lparr>f_items = [True], f_closed = True\<rparr>"
    unfolding ring.rep_def [OF r] ring.counter_def [OF r] by (simp add: position_def Let_def)
  with closed_full_queue_len [OF r this] show ?thesis by simp
qed

end
