(* ===== verification/Spsc_Concurrent.thy ===== *)
theory Spsc_Concurrent
  imports Spsc
begin

text \<open>
  The queue of \<^verbatim>\<open>tezos/spsc\<close> with a producer and a consumer running at the same time. Every access to the shared
  head, tail and slots is a step of its own, in the order of the code, and the steps of the two threads
  interleave freely. The memory is sequentially consistent: the acquire and release orderings of the
  code make each thread see the slots written before the counter it has read. A slice is written in one
  step; by the properties below no step of the consumer touches its slots meanwhile, as long as every slice
  fits in the buffer. The code does not check that it does, and neither do the steps: a run in which every
  slice fits is a hypothesis of the properties, and an oversized slice breaks them. The client of the queue,
  the garbage collector, keeps to it. \<open>c_pushed\<close> and \<open>c_popped\<close> record the elements stored and returned.
\<close>

section \<open>Threads\<close>

datatype 'a producer =
    PIdle
  | PTail 'a u64
  | PChecked 'a u64
  | PWrote 'a u64
  | PSliceTail "'a list" u64
  | PSliceChecked "'a list" u64 u64
  | PSliceWrote "'a list" u64
  | PDropped

datatype 'a consumer = CIdle | CHead u64 | CChecked u64 | CRead u64 'a | CDropped

record 'a conf =
  c_queue :: "'a queue"
  c_producer :: "'a producer"
  c_consumer :: "'a consumer"
  c_pushed :: "'a list"
  c_popped :: "'a list"

definition start_conf :: "'a queue \<Rightarrow> 'a conf" where
  "start_conf q = \<lparr>c_queue = q, c_producer = PIdle, c_consumer = CIdle, c_pushed = [], c_popped = []\<rparr>"

inductive spsc_step :: "'a conf \<Rightarrow> 'a conf \<Rightarrow> bool" where
  push_load_tail: "c_producer c = PIdle \<Longrightarrow>
    spsc_step c (c\<lparr>c_producer := PTail x (q_tail (c_queue c))\<rparr>)"
| push_closed: "c_producer c = PTail x t \<Longrightarrow> is_closed t \<Longrightarrow> spsc_step c (c\<lparr>c_producer := PIdle\<rparr>)"
| push_full: "c_producer c = PTail x t \<Longrightarrow> \<not> is_closed t \<Longrightarrow>
    q_head (c_queue c) + q_mask_bit (c_queue c) = t \<Longrightarrow> spsc_step c (c\<lparr>c_producer := PIdle\<rparr>)"
| push_load_head: "c_producer c = PTail x t \<Longrightarrow> \<not> is_closed t \<Longrightarrow>
    q_head (c_queue c) + q_mask_bit (c_queue c) \<noteq> t \<Longrightarrow> spsc_step c (c\<lparr>c_producer := PChecked x t\<rparr>)"
| push_write: "c_producer c = PChecked x t \<Longrightarrow> slot_index (c_queue c) t < length (q_buffer (c_queue c)) \<Longrightarrow>
    spsc_step c (c\<lparr>c_producer := PWrote x t,
      c_queue := (c_queue c)\<lparr>q_buffer := (q_buffer (c_queue c))[slot_index (c_queue c) t := Some x]\<rparr>\<rparr>)"
| push_store_tail: "c_producer c = PWrote x t \<Longrightarrow> advance (c_queue c) t = (Ok n :: (unit, u64) res) \<Longrightarrow>
    spsc_step c (c\<lparr>c_producer := PIdle, c_queue := (c_queue c)\<lparr>q_tail := n\<rparr>, c_pushed := c_pushed c @ [x]\<rparr>)"
| slice_load_tail: "c_producer c = PIdle \<Longrightarrow>
    spsc_step c (c\<lparr>c_producer := PSliceTail xs (q_tail (c_queue c))\<rparr>)"
| slice_closed: "c_producer c = PSliceTail xs t \<Longrightarrow> is_closed t \<Longrightarrow> spsc_step c (c\<lparr>c_producer := PIdle\<rparr>)"
| slice_full: "c_producer c = PSliceTail xs t \<Longrightarrow> \<not> is_closed t \<Longrightarrow>
    slice_next_tail ((c_queue c)\<lparr>q_tail := t\<rparr>) (length xs) = Ok n \<Longrightarrow>
    q_head (c_queue c) + q_mask_bit (c_queue c) < n \<Longrightarrow> spsc_step c (c\<lparr>c_producer := PIdle\<rparr>)"
| slice_load_head: "c_producer c = PSliceTail xs t \<Longrightarrow> \<not> is_closed t \<Longrightarrow>
    slice_next_tail ((c_queue c)\<lparr>q_tail := t\<rparr>) (length xs) = Ok n \<Longrightarrow>
    \<not> q_head (c_queue c) + q_mask_bit (c_queue c) < n \<Longrightarrow>
    spsc_step c (c\<lparr>c_producer := PSliceChecked xs t n\<rparr>)"
| slice_write: "c_producer c = PSliceChecked xs t n \<Longrightarrow>
    copy_slice (slot_index (c_queue c) t) xs (q_buffer (c_queue c)) = Ok b \<Longrightarrow>
    spsc_step c (c\<lparr>c_producer := PSliceWrote xs n, c_queue := (c_queue c)\<lparr>q_buffer := b\<rparr>\<rparr>)"
| slice_store_tail: "c_producer c = PSliceWrote xs n \<Longrightarrow>
    spsc_step c (c\<lparr>c_producer := PIdle, c_queue := (c_queue c)\<lparr>q_tail := n\<rparr>, c_pushed := c_pushed c @ xs\<rparr>)"
| producer_drop: "c_producer c = PIdle \<Longrightarrow>
    spsc_step c (c\<lparr>c_queue := set_closed (c_queue c), c_producer := PDropped\<rparr>)"
| pop_load_head: "c_consumer c = CIdle \<Longrightarrow> spsc_step c (c\<lparr>c_consumer := CHead (q_head (c_queue c))\<rparr>)"
| pop_empty: "c_consumer c = CHead h \<Longrightarrow> q_tail (c_queue c) AND NOT CLOSED_BIT = h \<Longrightarrow>
    spsc_step c (c\<lparr>c_consumer := CIdle\<rparr>)"
| pop_load_tail: "c_consumer c = CHead h \<Longrightarrow> q_tail (c_queue c) AND NOT CLOSED_BIT \<noteq> h \<Longrightarrow>
    spsc_step c (c\<lparr>c_consumer := CChecked h\<rparr>)"
| pop_read: "c_consumer c = CChecked h \<Longrightarrow> slot_index (c_queue c) h < length (q_buffer (c_queue c)) \<Longrightarrow>
    q_buffer (c_queue c) ! slot_index (c_queue c) h = Some x \<Longrightarrow> spsc_step c (c\<lparr>c_consumer := CRead h x\<rparr>)"
| pop_store_head: "c_consumer c = CRead h x \<Longrightarrow> advance (c_queue c) h = (Ok n :: (unit, u64) res) \<Longrightarrow>
    spsc_step c (c\<lparr>c_consumer := CIdle, c_queue := (c_queue c)\<lparr>q_head := n\<rparr>, c_popped := c_popped c @ [x]\<rparr>)"
| consumer_drop: "c_consumer c = CIdle \<Longrightarrow>
    spsc_step c (c\<lparr>c_queue := set_closed (c_queue c), c_consumer := CDropped\<rparr>)"

inductive reachable :: "'a queue \<Rightarrow> 'a conf \<Rightarrow> bool" for q where
  start: "reachable q (start_conf q)"
| step: "reachable q c \<Longrightarrow> spsc_step c c' \<Longrightarrow> reachable q c'"

text \<open>The runs in which no slice that \<open>push_slice\<close> is called with is longer than the buffer.\<close>

definition slice_fits :: "'a conf \<Rightarrow> bool" where
  "slice_fits c \<longleftrightarrow>
     (case c_producer c of PSliceTail xs t \<Rightarrow> length xs \<le> length (q_buffer (c_queue c)) | _ \<Rightarrow> True)"

inductive reachable_fitting :: "'a queue \<Rightarrow> 'a conf \<Rightarrow> bool" for q where
  fitting_start: "reachable_fitting q (start_conf q)"
| fitting_step: "reachable_fitting q c \<Longrightarrow> spsc_step c c' \<Longrightarrow> slice_fits c' \<Longrightarrow> reachable_fitting q c'"

lemma fitting_reachable: "reachable_fitting q c \<Longrightarrow> reachable q c"
  by (induction rule: reachable_fitting.induct) (auto intro: reachable.intros)

section \<open>Invariant\<close>

context ring
begin

primrec producer_ok :: "'a option list \<Rightarrow> nat \<Rightarrow> nat \<Rightarrow> 'a producer \<Rightarrow> bool" where
  "producer_ok buf np nc PIdle \<longleftrightarrow> True"
| "producer_ok buf np nc (PTail x t) \<longleftrightarrow> t = counter np \<or> t = counter np OR CLOSED_BIT"
| "producer_ok buf np nc (PChecked x t) \<longleftrightarrow> t = counter np \<and> np < nc + cap"
| "producer_ok buf np nc (PWrote x t) \<longleftrightarrow> t = counter np \<and> np < nc + cap \<and> buf ! (np mod cap) = Some x"
| "producer_ok buf np nc (PSliceTail xs t) \<longleftrightarrow>
     (t = counter np \<or> t = counter np OR CLOSED_BIT) \<and> length xs \<le> cap"
| "producer_ok buf np nc (PSliceChecked xs t n) \<longleftrightarrow>
     t = counter np \<and> n = counter (np + length xs) \<and> np + length xs \<le> nc + cap \<and> length xs \<le> cap"
| "producer_ok buf np nc (PSliceWrote xs n) \<longleftrightarrow>
     n = counter (np + length xs) \<and> np + length xs \<le> nc + cap
     \<and> (\<forall>i < length xs. buf ! ((np + i) mod cap) = Some (xs ! i))"
| "producer_ok buf np nc PDropped \<longleftrightarrow> True"

primrec consumer_ok :: "'a list \<Rightarrow> nat \<Rightarrow> 'a consumer \<Rightarrow> bool" where
  "consumer_ok pushed nc CIdle \<longleftrightarrow> True"
| "consumer_ok pushed nc (CHead h) \<longleftrightarrow> h = counter nc"
| "consumer_ok pushed nc (CChecked h) \<longleftrightarrow> h = counter nc \<and> nc < length pushed"
| "consumer_ok pushed nc (CRead h x) \<longleftrightarrow> h = counter nc \<and> nc < length pushed \<and> x = pushed ! nc"
| "consumer_ok pushed nc CDropped \<longleftrightarrow> True"

definition producer_inv :: "'a conf \<Rightarrow> bool" where
  "producer_inv c \<longleftrightarrow>
     producer_ok (q_buffer (c_queue c)) (length (c_pushed c)) (length (c_popped c)) (c_producer c)"

definition consumer_inv :: "'a conf \<Rightarrow> bool" where
  "consumer_inv c \<longleftrightarrow> consumer_ok (c_pushed c) (length (c_popped c)) (c_consumer c)"

definition shared_inv :: "'a conf \<Rightarrow> bool" where
  "shared_inv c \<longleftrightarrow>
     (let q = c_queue c; np = length (c_pushed c); nc = length (c_popped c) in
      q_mask_bit q = 2 ^ k \<and> length (q_buffer q) = cap \<and> q_head q = counter nc
      \<and> (q_tail q = counter np \<or> q_tail q = counter np OR CLOSED_BIT)
      \<and> nc \<le> np \<and> np \<le> nc + cap \<and> c_popped c = take nc (c_pushed c)
      \<and> (\<forall>i. nc \<le> i \<and> i < np \<longrightarrow> q_buffer q ! (i mod cap) = Some (c_pushed c ! i)))"

definition spsc_inv :: "'a conf \<Rightarrow> bool" where
  "spsc_inv c \<longleftrightarrow> shared_inv c \<and> producer_inv c \<and> consumer_inv c"

lemmas inv_defs = spsc_inv_def shared_inv_def producer_inv_def consumer_inv_def

end

lemma pushed_grows: "spsc_step c c' \<Longrightarrow> length (c_pushed c) \<le> length (c_pushed c')"
  by (induction rule: spsc_step.induct) auto

context ring
begin

lemma tail_bits:
  assumes "pos (np + cap) < 2 ^ 63" and "t = counter np \<or> t = counter np OR CLOSED_BIT"
  shows "t AND NOT CLOSED_BIT = counter np" and "\<not> is_closed t \<Longrightarrow> t = counter np"
    and "t OR CLOSED_BIT = counter np OR CLOSED_BIT"
  using assms(2) counter_no_top [of np] assms(1) pos_mono [of np "np + cap"]
  by (auto simp: closed_bit or.assoc)

lemma inv_producer:
  "spsc_inv c \<Longrightarrow> producer_inv (c\<lparr>c_producer := p\<rparr>) \<Longrightarrow> spsc_inv (c\<lparr>c_producer := p\<rparr>)"
  by (simp add: spsc_inv_def shared_inv_def consumer_inv_def)

lemma inv_consumer:
  "spsc_inv c \<Longrightarrow> consumer_inv (c\<lparr>c_consumer := p\<rparr>) \<Longrightarrow> spsc_inv (c\<lparr>c_consumer := p\<rparr>)"
  by (simp add: spsc_inv_def shared_inv_def producer_inv_def)

lemma shared_facts:
  assumes "spsc_inv c"
  shows "q_mask_bit (c_queue c) = 2 ^ k" "length (q_buffer (c_queue c)) = cap"
    "q_head (c_queue c) = counter (length (c_popped c))"
    "q_tail (c_queue c) = counter (length (c_pushed c)) \<or> q_tail (c_queue c) = counter (length (c_pushed c)) OR CLOSED_BIT"
    "length (c_popped c) \<le> length (c_pushed c)" "length (c_pushed c) \<le> length (c_popped c) + cap"
    "c_popped c = take (length (c_popped c)) (c_pushed c)"
    "\<And>i. length (c_popped c) \<le> i \<Longrightarrow> i < length (c_pushed c) \<Longrightarrow>
      q_buffer (c_queue c) ! (i mod cap) = Some (c_pushed c ! i)"
    "producer_inv c" "consumer_inv c"
  using assms by (simp_all add: spsc_inv_def shared_inv_def Let_def)

lemma write_inv:
  assumes "spsc_inv c" and "length buf = cap"
    and "\<And>i. length (c_popped c) \<le> i \<Longrightarrow> i < length (c_pushed c) \<Longrightarrow> buf ! (i mod cap) = q_buffer (c_queue c) ! (i mod cap)"
    and "producer_inv (c\<lparr>c_producer := p, c_queue := (c_queue c)\<lparr>q_buffer := buf\<rparr>\<rparr>)"
  shows "spsc_inv (c\<lparr>c_producer := p, c_queue := (c_queue c)\<lparr>q_buffer := buf\<rparr>\<rparr>)"
  using assms shared_facts(8) [OF assms(1)]
  by (simp add: spsc_inv_def shared_inv_def consumer_inv_def Let_def)

lemma store_tail_inv:
  assumes "spsc_inv c" and "length (c_pushed c) + length xs \<le> length (c_popped c) + cap"
    and "\<And>i. i < length xs \<Longrightarrow> q_buffer (c_queue c) ! ((length (c_pushed c) + i) mod cap) = Some (xs ! i)"
    and "n = counter (length (c_pushed c) + length xs)"
  shows "spsc_inv (c\<lparr>c_producer := PIdle, c_queue := (c_queue c)\<lparr>q_tail := n\<rparr>, c_pushed := c_pushed c @ xs\<rparr>)"
proof -
  note sh = shared_facts [OF assms(1)]
  have "q_buffer (c_queue c) ! (i mod cap) = Some ((c_pushed c @ xs) ! i)"
    if "length (c_popped c) \<le> i" "i < length (c_pushed c) + length xs" for i
    using that sh(8) [of i] assms(3) [of "i - length (c_pushed c)"] by (cases "i < length (c_pushed c)") (auto simp: nth_append)
  moreover have "consumer_inv (c\<lparr>c_producer := PIdle, c_queue := (c_queue c)\<lparr>q_tail := n\<rparr>, c_pushed := c_pushed c @ xs\<rparr>)"
    using sh(10) by (cases "c_consumer c") (auto simp: consumer_inv_def nth_append)
  ultimately show ?thesis
    using sh(1-7) assms(2,4) by (simp add: spsc_inv_def shared_inv_def producer_inv_def Let_def)
qed

lemma closed_inv:
  assumes "spsc_inv c" and "pos (length (c_pushed c) + cap) < 2 ^ 63"
  shows "spsc_inv (c\<lparr>c_queue := set_closed (c_queue c)\<rparr>)"
  using assms(1) tail_bits(3) [OF assms(2) shared_facts(4) [OF assms(1)]]
  by (simp add: spsc_inv_def shared_inv_def producer_inv_def consumer_inv_def set_closed_def Let_def)

lemma producer_step_inv:
  assumes "spsc_step c c'" and "c_consumer c' = c_consumer c" and "spsc_inv c"
    and "pos (length (c_pushed c') + cap) < 2 ^ 63" and "c_popped c' = c_popped c" and "c_producer c' \<noteq> c_producer c"
    and "slice_fits c'"
  shows "spsc_inv c'"
proof -
  let ?np = "length (c_pushed c)" and ?nc = "length (c_popped c)"
  have b: "pos (?np + cap) < 2 ^ 63"
    using assms(4) pushed_grows [OF assms(1)] pos_mono [of "?np + cap" "length (c_pushed c') + cap"] by simp
  have pnp: "pos ?np < 2 ^ 63" using b pos_mono [of ?np "?np + cap"] by simp
  note sh = shared_facts [OF assms(3)] and tb = tail_bits [OF b]
  show ?thesis
    using assms(1)
  proof cases
    case (push_load_tail x)
    then show ?thesis using sh(4) by (auto simp: producer_inv_def intro!: inv_producer assms(3))
  next
    case (push_load_head x t)
    then have t: "t = counter ?np" using sh(9) tb(2) [of t] by (simp add: producer_inv_def Let_def)
    have "?np \<noteq> ?nc + cap" using push_load_head t sh(1,3) counter_add_lap [of ?nc] by auto
    then show ?thesis using push_load_head t sh(6) by (auto simp: producer_inv_def intro!: inv_producer assms(3))
  next
    case (push_write x t)
    then have t: "t = counter ?np" "?np < ?nc + cap" using sh(9) by (simp_all add: producer_inv_def Let_def)
    have i: "slot_index (c_queue c) t = ?np mod cap" using t(1) slot_index_counter(1) [OF sh(1) pnp] by simp
    have "?np mod cap \<noteq> i mod cap" if "?nc \<le> i" "i < ?np" for i
      using slots_distinct [of i ?np 0] that t(2) by simp
    then show ?thesis
      unfolding push_write(1) i using t sh(2) cap_pos
      by (intro write_inv assms(3)) (auto simp: producer_inv_def)
  next
    case (push_store_tail x t n)
    then have t: "t = counter ?np" "?np < ?nc + cap" "q_buffer (c_queue c) ! (?np mod cap) = Some x"
      using sh(9) by (simp_all add: producer_inv_def Let_def)
    have "n = counter (Suc ?np)"
      using push_store_tail(3) by (simp add: t(1) advance_counter [OF sh(1,2) pnp])
    then show ?thesis
      unfolding push_store_tail(1) using t by (intro store_tail_inv assms(3)) simp_all
  next
    case (slice_load_tail xs)
    then show ?thesis
      using assms(7) sh(2,4) unfolding slice_load_tail(1)
      by (intro inv_producer assms(3)) (simp add: producer_inv_def slice_fits_def)
  next
    case (slice_load_head xs t n)
    then have t: "t = counter ?np" "length xs \<le> cap" using sh(9) tb(2) [of t] by (simp_all add: producer_inv_def Let_def)
    have bs: "pos (?np + length xs) < 2 ^ 63" using b pos_mono [of "?np + length xs" "?np + cap"] t(2) by simp
    have n: "n = counter (?np + length xs)"
      using slice_next_tail_eq [of "(c_queue c)\<lparr>q_tail := t\<rparr>" ?np "length xs"] slice_load_head(4) sh(1,2) t bs by simp
    have "?np + length xs \<le> ?nc + cap"
      using lap_less_iff [of ?nc "?np + length xs"] bs sh(1,3,5) slice_load_head(5) n by simp
    then show ?thesis
      using slice_load_head t n by (auto simp: producer_inv_def intro!: inv_producer assms(3))
  next
    case (slice_write xs t n buf)
    then have t: "t = counter ?np" "n = counter (?np + length xs)" "?np + length xs \<le> ?nc + cap" "length xs \<le> cap"
      using sh(9) by (simp_all add: producer_inv_def Let_def)
    have i: "slot_index (c_queue c) t = ?np mod cap" using t(1) slot_index_counter(1) [OF sh(1) pnp] by simp
    obtain b' where b': "copy_slice (?np mod cap) xs (q_buffer (c_queue c)) = Ok b'" "length b' = cap"
        "\<And>i. i < length xs \<Longrightarrow> b' ! ((?np mod cap + i) mod cap) = Some (xs ! i)"
        "\<And>j. j < cap \<Longrightarrow> (\<And>i. i < length xs \<Longrightarrow> (?np mod cap + i) mod cap \<noteq> j) \<Longrightarrow> b' ! j = q_buffer (c_queue c) ! j"
      using copy_slice_ok [OF sh(2) mod_less_divisor [OF cap_pos] t(4)] by metis
    then have "buf = b'" using slice_write(3) i by simp
    have "b' ! (i mod cap) = q_buffer (c_queue c) ! (i mod cap)" if "?nc \<le> i" "i < ?np" for i
    proof (rule b'(4))
      show "(?np mod cap + j) mod cap \<noteq> i mod cap" if "j < length xs" for j
        using slots_distinct [of i "?np + j" 0] \<open>?nc \<le> i\<close> \<open>i < ?np\<close> that t(3) by (simp add: mod_simps)
    qed (use cap_pos in simp)
    then show ?thesis
      unfolding slice_write(1) \<open>buf = b'\<close> using t b'(2,3)
      by (intro write_inv assms(3)) (auto simp: producer_inv_def mod_simps)
  next
    case (slice_store_tail xs n)
    then have "n = counter (?np + length xs)" "?np + length xs \<le> ?nc + cap"
      "\<And>i. i < length xs \<Longrightarrow> q_buffer (c_queue c) ! ((?np + i) mod cap) = Some (xs ! i)"
      using sh(9) by (simp_all add: producer_inv_def Let_def)
    then show ?thesis unfolding slice_store_tail(1) by (intro store_tail_inv assms(3)) simp_all
  next
    case producer_drop
    have "spsc_inv (c\<lparr>c_queue := set_closed (c_queue c), c_producer := PDropped\<rparr>)"
      using inv_producer [OF closed_inv [OF assms(3) b], of PDropped] by (simp add: producer_inv_def)
    then show ?thesis by (simp add: producer_drop(1))
  qed (use assms in \<open>auto simp: producer_inv_def intro!: inv_producer\<close>)
qed

lemma consumer_step_inv:
  assumes "spsc_step c c'" and "c_producer c' = c_producer c" and "spsc_inv c"
    and "pos (length (c_pushed c) + cap) < 2 ^ 63" and "c_consumer c' \<noteq> c_consumer c"
  shows "spsc_inv c'"
proof -
  let ?np = "length (c_pushed c)" and ?nc = "length (c_popped c)"
  note sh = shared_facts [OF assms(3)] and tb = tail_bits [OF assms(4)]
  have pnc: "pos ?nc < 2 ^ 63" using assms(4) pos_mono [of ?nc "?np + cap"] sh(5) by simp
  show ?thesis
    using assms(1)
  proof cases
    case pop_load_head
    then show ?thesis using sh(3) by (auto simp: consumer_inv_def intro!: inv_consumer assms(3))
  next
    case (pop_load_tail h)
    then have h: "h = counter ?nc" using sh(10) by (simp add: consumer_inv_def)
    then have "?nc \<noteq> ?np" using pop_load_tail tb(1) [OF sh(4)] by auto
    then show ?thesis using pop_load_tail h sh(5) by (auto simp: consumer_inv_def intro!: inv_consumer assms(3))
  next
    case (pop_read h x)
    then have h: "h = counter ?nc" "?nc < ?np" using sh(10) by (simp_all add: consumer_inv_def)
    then have "x = c_pushed c ! ?nc"
      using pop_read(4) sh(8) [of ?nc] slot_index_counter(1) [OF sh(1) pnc] by simp
    then show ?thesis using pop_read h by (auto simp: consumer_inv_def intro!: inv_consumer assms(3))
  next
    case (pop_store_head h x n)
    then have h: "h = counter ?nc" "?nc < ?np" "x = c_pushed c ! ?nc" using sh(10) by (simp_all add: consumer_inv_def)
    have "n = counter (Suc ?nc)"
      using pop_store_head(3) by (simp add: h(1) advance_counter [OF sh(1,2) pnc])
    moreover have "c_popped c @ [x] = take (Suc ?nc) (c_pushed c)"
      using h sh(7) by (metis take_Suc_conv_app_nth)
    moreover have "producer_ok (q_buffer (c_queue c)) ?np (Suc ?nc) (c_producer c)"
      using sh(9) by (cases "c_producer c") (auto simp: producer_inv_def)
    ultimately show ?thesis
      using pop_store_head(1) h sh
      by (simp add: spsc_inv_def shared_inv_def producer_inv_def consumer_inv_def Let_def)
  next
    case consumer_drop
    have "spsc_inv (c\<lparr>c_queue := set_closed (c_queue c), c_consumer := CDropped\<rparr>)"
      using inv_consumer [OF closed_inv [OF assms(3,4)], of CDropped] by (simp add: consumer_inv_def)
    then show ?thesis by (simp add: consumer_drop(1))
  qed (use assms in \<open>auto simp: consumer_inv_def intro!: inv_consumer\<close>)
qed

end

lemma step_thread:
  "spsc_step c c' \<Longrightarrow>
   (c_consumer c' = c_consumer c \<and> c_popped c' = c_popped c \<and> c_producer c' \<noteq> c_producer c)
   \<or> (c_producer c' = c_producer c \<and> c_consumer c' \<noteq> c_consumer c)"
  by (induction rule: spsc_step.induct) auto

context ring
begin

lemma reachable_inv:
  assumes "reachable_fitting q c" and "rep q 0 \<lparr>f_items = [], f_closed = False\<rparr>"
    and "pos (length (c_pushed c) + cap) < 2 ^ 63"
  shows "spsc_inv c"
  using assms(1,3)
proof induction
  case fitting_start
  then show ?case
    using rep_facts(1-4) [OF assms(2)]
    by (simp add: start_conf_def spsc_inv_def shared_inv_def producer_inv_def consumer_inv_def)
next
  case (fitting_step c c')
  have b: "pos (length (c_pushed c) + cap) < 2 ^ 63"
    using fitting_step.prems pushed_grows [OF fitting_step.hyps(2)]
      pos_mono [of "length (c_pushed c) + cap" "length (c_pushed c') + cap"] by simp
  then show ?case
    using step_thread [OF fitting_step.hyps(2)] producer_step_inv [OF fitting_step.hyps(2)] consumer_step_inv [OF fitting_step.hyps(2)]
      fitting_step.IH fitting_step.prems fitting_step.hyps(3) by blast
qed

end

lemma reachable_facts:
  fixes q :: "'a queue"
  assumes "0 < capacity" and "capacity < 2 ^ 62" and "new_queue capacity = Ok q" and "reachable_fitting q c"
    and "position capacity (next_power_of_two (capacity + 1)) (length (c_pushed c) + capacity) < 2 ^ 63"
  obtains k where "ring capacity k" "ring.spsc_inv capacity k c"
    "\<And>n. n \<le> length (c_pushed c) \<Longrightarrow> slot_index (c_queue c) (ring.counter capacity k n) = n mod capacity"
proof -
  obtain k and q' :: "'a queue" where k: "ring capacity k" "next_power_of_two (capacity + 1) = 2 ^ k"
    "new_queue capacity = Ok q'" "ring.rep capacity k q' 0 \<lparr>f_items = [], f_closed = False\<rparr>"
    using new_queue_ring [OF assms(1,2)] .
  with assms(3) have "ring.rep capacity k q 0 \<lparr>f_items = [], f_closed = False\<rparr>" by simp
  note inv = ring.reachable_inv [OF k(1) assms(4) this assms(5) [unfolded k(2)]]
  have "position capacity (2 ^ k) n < 2 ^ 63" if "n \<le> length (c_pushed c)" for n
    using assms(5) ring.pos_mono [OF k(1), of n "length (c_pushed c) + capacity"] that k(2) by simp
  then show ?thesis
    using that [OF k(1) inv] ring.slot_index_counter(1) [OF k(1) ring.shared_facts(1) [OF k(1) inv]] by blast
qed

section \<open>An interleaving\<close>

text \<open>
  On a queue of two slots, one element is stored, the consumer has checked that it can be taken, and the producer
  has checked that a second element fits.
\<close>

definition two_slots :: "bool queue" where
  "two_slots = \<lparr>q_head = 0, q_tail = 0, q_buffer = [None, None], q_mask_bit = 4\<rparr>"

definition racing :: "bool conf" where
  "racing = \<lparr>c_queue = \<lparr>q_head = 0, q_tail = 1, q_buffer = [Some True, None], q_mask_bit = 4\<rparr>,
     c_producer = PChecked False 1, c_consumer = CChecked 0, c_pushed = [True], c_popped = []\<rparr>"

lemma capacity_three: "next_power_of_two 3 = 4"
  by (simp add: next_power_of_two_def next_power_of_two_from.simps)

lemma two_slots_new: "new_queue 2 = Ok two_slots"
proof -
  have "replicate 2 None = [None, None :: bool option]" by (simp add: numeral_2_eq_2)
  then show ?thesis by (simp add: new_queue_def two_slots_def capacity_three)
qed

lemma racing_reachable: "reachable_fitting two_slots racing"
proof -
  let ?q = "\<lambda>t b. \<lparr>q_head = 0, q_tail = t, q_buffer = [b, None], q_mask_bit = 4\<rparr> :: bool queue"
  let ?c = "\<lambda>q p d ps. \<lparr>c_queue = q, c_producer = p, c_consumer = d, c_pushed = ps, c_popped = []\<rparr> :: bool conf"
  note ev = slot_index_def is_closed_def CLOSED_BIT_def advance_def usize_add_def
  have "reachable_fitting two_slots (?c (?q 0 None) PIdle CIdle [])"
    using reachable_fitting.fitting_start [of two_slots] by (simp add: start_conf_def two_slots_def)
  then have "reachable_fitting two_slots (?c (?q 0 None) (PTail True 0) CIdle [])"
    by (rule fitting_step) (use push_load_tail [of "?c (?q 0 None) PIdle CIdle []" True] in simp, simp add: slice_fits_def)
  then have "reachable_fitting two_slots (?c (?q 0 None) (PChecked True 0) CIdle [])"
    by (rule fitting_step) (use push_load_head [of "?c (?q 0 None) (PTail True 0) CIdle []" True 0] in \<open>simp add: ev\<close>, simp add: slice_fits_def)
  then have "reachable_fitting two_slots (?c (?q 0 (Some True)) (PWrote True 0) CIdle [])"
    by (rule fitting_step) (use push_write [of "?c (?q 0 None) (PChecked True 0) CIdle []" True 0] in \<open>simp add: ev\<close>, simp add: slice_fits_def)
  then have "reachable_fitting two_slots (?c (?q 1 (Some True)) PIdle CIdle [True])"
    by (rule fitting_step)
      (use push_store_tail [of "?c (?q 0 (Some True)) (PWrote True 0) CIdle []" True 0 1] in \<open>simp add: ev\<close>, simp add: slice_fits_def)
  then have "reachable_fitting two_slots (?c (?q 1 (Some True)) PIdle (CHead 0) [True])"
    by (rule fitting_step) (use pop_load_head [of "?c (?q 1 (Some True)) PIdle CIdle [True]"] in simp, simp add: slice_fits_def)
  then have "reachable_fitting two_slots (?c (?q 1 (Some True)) PIdle (CChecked 0) [True])"
    by (rule fitting_step) (use pop_load_tail [of "?c (?q 1 (Some True)) PIdle (CHead 0) [True]" 0] in \<open>simp add: ev\<close>, simp add: slice_fits_def)
  then have "reachable_fitting two_slots (?c (?q 1 (Some True)) (PTail False 1) (CChecked 0) [True])"
    by (rule fitting_step) (use push_load_tail [of "?c (?q 1 (Some True)) PIdle (CChecked 0) [True]" False] in simp, simp add: slice_fits_def)
  then have "reachable_fitting two_slots (?c (?q 1 (Some True)) (PChecked False 1) (CChecked 0) [True])"
    by (rule fitting_step)
      (use push_load_head [of "?c (?q 1 (Some True)) (PTail False 1) (CChecked 0) [True]" False 1] in \<open>simp add: ev\<close>, simp add: slice_fits_def)
  then show ?thesis by (simp add: racing_def)
qed

section \<open>Properties\<close>

text \<open>
  C11. Under every interleaving of the two threads in which no slice is longer than the buffer, and as long as
  the counters stay below the closed bit, the queue is a first-in first-out channel: what the consumer has
  returned is a prefix of what the producer has stored, at most the capacity is in transit, and a consumer
  about to read finds the next element in its slot, never an uninitialised one.
\<close>

theorem spsc_interleaving_fifo:
  assumes "0 < capacity" and "capacity < 2 ^ 62" and "new_queue capacity = Ok q" and "reachable_fitting q c"
    and "position capacity (next_power_of_two (capacity + 1)) (length (c_pushed c) + capacity) < 2 ^ 63"
  shows "c_popped c = take (length (c_popped c)) (c_pushed c)
    \<and> length (c_popped c) \<le> length (c_pushed c) \<and> length (c_pushed c) \<le> length (c_popped c) + capacity
    \<and> (case c_consumer c of
        CChecked h \<Rightarrow> slot_index (c_queue c) h < capacity
          \<and> q_buffer (c_queue c) ! slot_index (c_queue c) h = Some (c_pushed c ! length (c_popped c))
      | _ \<Rightarrow> True)"
proof -
  obtain k where k: "ring capacity k" "ring.spsc_inv capacity k c"
    "\<And>n. n \<le> length (c_pushed c) \<Longrightarrow> slot_index (c_queue c) (ring.counter capacity k n) = n mod capacity"
    using reachable_facts [OF assms] by blast
  note sh = ring.shared_facts [OF k(1,2)]
  have "slot_index (c_queue c) h < capacity
      \<and> q_buffer (c_queue c) ! slot_index (c_queue c) h = Some (c_pushed c ! length (c_popped c))"
    if "c_consumer c = CChecked h" for h
    using that sh(8) [of "length (c_popped c)"] sh(5,10) assms(1) k(3)
    by (simp add: ring.consumer_inv_def [OF k(1)] ring.consumer_ok.simps [OF k(1)])
  then show ?thesis using sh(5-7) by (auto split: consumer.split)
qed

theorem spsc_interleaving_fifo_witness:
  "reachable_fitting two_slots racing \<and> c_popped racing = take 0 (c_pushed racing)
    \<and> q_buffer (c_queue racing) ! slot_index (c_queue racing) 0 = Some True"
  using spsc_interleaving_fifo [OF _ _ two_slots_new racing_reachable] racing_reachable
  by (simp add: racing_def position_def capacity_three)

text \<open>
  C12. The two threads never touch the same slot at the same time: when the consumer is about to read a slot, a
  producer about to write an element or a slice writes to other slots. This holds for the interleavings in
  which no slice is longer than the buffer and the counters stay below the closed bit.
\<close>

theorem spsc_race_free:
  assumes "0 < capacity" and "capacity < 2 ^ 62" and "new_queue capacity = Ok q" and "reachable_fitting q c"
    and "position capacity (next_power_of_two (capacity + 1)) (length (c_pushed c) + capacity) < 2 ^ 63"
    and "c_consumer c = CChecked h"
  shows "case c_producer c of
      PChecked x t \<Rightarrow> slot_index (c_queue c) t \<noteq> slot_index (c_queue c) h
    | PSliceChecked xs t n \<Rightarrow>
        (\<forall>i < length xs. (slot_index (c_queue c) t + i) mod capacity \<noteq> slot_index (c_queue c) h)
    | _ \<Rightarrow> True"
proof -
  let ?np = "length (c_pushed c)" and ?nc = "length (c_popped c)"
  obtain k where k: "ring capacity k" "ring.spsc_inv capacity k c"
    "\<And>n. n \<le> ?np \<Longrightarrow> slot_index (c_queue c) (ring.counter capacity k n) = n mod capacity"
    using reachable_facts [OF assms(1-5)] by blast
  note sh = ring.shared_facts [OF k(1,2)]
  have h: "slot_index (c_queue c) h = ?nc mod capacity" "?nc < ?np"
    using sh(5,10) assms(6) k(3) by (simp_all add: ring.consumer_inv_def [OF k(1)] ring.consumer_ok.simps [OF k(1)])
  have ne: "(?np + i) mod capacity \<noteq> ?nc mod capacity" if "?np + i < ?nc + capacity" for i
    using ring.slots_distinct [OF k(1), of ?nc "?np + i" 0] that h(2) by simp
  show ?thesis
    using sh(9) k(3) h(1) ne ne [of 0]
    by (cases "c_producer c")
      (auto simp: ring.producer_inv_def [OF k(1)] ring.producer_ok.simps [OF k(1)] mod_simps)
qed

theorem spsc_race_free_witness:
  "c_consumer racing = CChecked 0 \<and> c_producer racing = PChecked False 1
    \<and> slot_index (c_queue racing) 1 \<noteq> slot_index (c_queue racing) 0"
  using spsc_race_free [OF _ _ two_slots_new racing_reachable, of 0]
  by (simp add: racing_def position_def capacity_three)

text \<open>
  The condition on the slices is needed. On a queue of three slots that holds one element, a slice of five
  passes the check for a full queue, since its end is computed modulo the capacity, and the producer is then
  about to overwrite the slot the consumer is about to read.
\<close>

theorem oversized_slice_races:
  "\<exists>q c. new_queue 3 = Ok q \<and> reachable q c \<and> c_consumer c = CChecked 0
     \<and> c_producer c = PSliceChecked [False, False, False, False, False] 1 4
     \<and> (slot_index (c_queue c) 1 + 2) mod 3 = slot_index (c_queue c) 0"
proof -
  let ?q = "\<lambda>t b. \<lparr>q_head = 0, q_tail = t, q_buffer = [b, None, None], q_mask_bit = 4\<rparr> :: bool queue"
  let ?c = "\<lambda>q p d ps. \<lparr>c_queue = q, c_producer = p, c_consumer = d, c_pushed = ps, c_popped = []\<rparr> :: bool conf"
  let ?xs = "[False, False, False, False, False]"
  note ev = slot_index_def is_closed_def CLOSED_BIT_def advance_def usize_add_def slice_next_tail_def next_lap_def
  have new: "new_queue 3 = Ok (?q 0 None)"
    by (simp add: new_queue_def next_power_of_two_def next_power_of_two_from.simps numeral_3_eq_3)
  have "reachable (?q 0 None) (?c (?q 0 None) PIdle CIdle [])"
    using reachable.start [of "?q 0 None"] by (simp add: start_conf_def)
  then have "reachable (?q 0 None) (?c (?q 0 None) (PTail True 0) CIdle [])"
    by (rule reachable.step) (use push_load_tail [of "?c (?q 0 None) PIdle CIdle []" True] in simp)
  then have "reachable (?q 0 None) (?c (?q 0 None) (PChecked True 0) CIdle [])"
    by (rule reachable.step) (use push_load_head [of "?c (?q 0 None) (PTail True 0) CIdle []" True 0] in \<open>simp add: ev\<close>)
  then have "reachable (?q 0 None) (?c (?q 0 (Some True)) (PWrote True 0) CIdle [])"
    by (rule reachable.step) (use push_write [of "?c (?q 0 None) (PChecked True 0) CIdle []" True 0] in \<open>simp add: ev\<close>)
  then have "reachable (?q 0 None) (?c (?q 1 (Some True)) PIdle CIdle [True])"
    by (rule reachable.step)
      (use push_store_tail [of "?c (?q 0 (Some True)) (PWrote True 0) CIdle []" True 0 1] in \<open>simp add: ev\<close>)
  then have "reachable (?q 0 None) (?c (?q 1 (Some True)) PIdle (CHead 0) [True])"
    by (rule reachable.step) (use pop_load_head [of "?c (?q 1 (Some True)) PIdle CIdle [True]"] in simp)
  then have "reachable (?q 0 None) (?c (?q 1 (Some True)) PIdle (CChecked 0) [True])"
    by (rule reachable.step) (use pop_load_tail [of "?c (?q 1 (Some True)) PIdle (CHead 0) [True]" 0] in \<open>simp add: ev\<close>)
  then have "reachable (?q 0 None) (?c (?q 1 (Some True)) (PSliceTail ?xs 1) (CChecked 0) [True])"
    by (rule reachable.step) (use slice_load_tail [of "?c (?q 1 (Some True)) PIdle (CChecked 0) [True]" ?xs] in simp)
  then have "reachable (?q 0 None) (?c (?q 1 (Some True)) (PSliceChecked ?xs 1 4) (CChecked 0) [True])"
    by (rule reachable.step)
      (use slice_load_head [of "?c (?q 1 (Some True)) (PSliceTail ?xs 1) (CChecked 0) [True]" ?xs 1 4] in \<open>simp add: ev\<close>)
  then show ?thesis using new by (intro exI conjI) (auto simp: slot_index_def)
qed

text \<open>
  Closing can be undone: when the consumer is dropped while a push is under way, the push stores a tail
  without the closed bit, and the producer keeps a queue that no longer reports that its reader is gone.
\<close>

theorem close_lost:
  fixes q :: "'a queue"
  assumes "0 < capacity" and "capacity < 2 ^ 62" and "new_queue capacity = Ok q"
  shows "\<exists>c. reachable q c \<and> c_consumer c = CDropped \<and> c_producer c = PIdle \<and> \<not> is_closed (q_tail (c_queue c))"
proof -
  obtain k and q' :: "'a queue" where k: "ring capacity k" "next_power_of_two (capacity + 1) = 2 ^ k"
    "new_queue capacity = Ok q'" "ring.rep capacity k q' 0 \<lparr>f_items = [], f_closed = False\<rparr>"
    using new_queue_ring [OF assms(1,2)] .
  let ?C = "ring.counter capacity k"
  have q: "q_mask_bit q = 2 ^ k" "length (q_buffer q) = capacity" "q_head q = ?C 0" "q_tail q = ?C 0"
    using ring.rep_facts(1-4) [OF k(1,4)] k(3) assms(3) by simp_all
  have p0: "position capacity (2 ^ k) n < 2 ^ 63" if "n \<le> 1" for n
  proof -
    have "position capacity (2 ^ k) n \<le> 2 ^ k"
      using ring.pos_mono [OF k(1), of n capacity] ring.pos_add_cap [OF k(1), of 0] ring.pos_0 [OF k(1)]
        that assms(1) by simp
    also have "\<dots> < 2 ^ 63" using ring.k_small [OF k(1)] by (intro power_strict_increasing) auto
    finally show ?thesis .
  qed
  have open_: "\<not> is_closed (?C n)" if "n \<le> 1" for n
    using closed_bit(1) [OF ring.counter_no_top [OF k(1) p0 [OF that]]] .
  have room: "?C capacity \<noteq> ?C 0"
    using ring.counter_eq_iff [OF k(1), of capacity 0] ring.pos_lap_bound [OF k(1), of 0 0] p0 [of 0] assms(1) by simp
  obtain x :: 'a where True by simp
  define c1 where "c1 = (start_conf q)\<lparr>c_producer := PTail x (q_tail (c_queue (start_conf q)))\<rparr>"
  define c2 where "c2 = c1\<lparr>c_producer := PChecked x (?C 0)\<rparr>"
  define c3 where "c3 = c2\<lparr>c_queue := set_closed (c_queue c2), c_consumer := CDropped\<rparr>"
  define c4 where "c4 = c3\<lparr>c_producer := PWrote x (?C 0),
      c_queue := (c_queue c3)\<lparr>q_buffer := (q_buffer (c_queue c3))[slot_index (c_queue c3) (?C 0) := Some x]\<rparr>\<rparr>"
  define c5 where "c5 = c4\<lparr>c_producer := PIdle, c_queue := (c_queue c4)\<lparr>q_tail := ?C 1\<rparr>, c_pushed := c_pushed c4 @ [x]\<rparr>"
  note defs = c1_def c2_def c3_def c4_def c5_def start_conf_def set_closed_def
  have "spsc_step (start_conf q) c1" unfolding c1_def by (rule push_load_tail) (simp add: start_conf_def)
  moreover have "spsc_step c1 c2"
    unfolding c2_def
    by (rule push_load_head) (use q ring.counter_add_lap [OF k(1), of 0] open_ room in \<open>simp_all add: defs\<close>)
  moreover have "spsc_step c2 c3" unfolding c3_def by (rule consumer_drop) (simp add: defs)
  moreover have "spsc_step c3 c4"
    unfolding c4_def
    by (rule push_write) (use q assms(1) in \<open>simp_all add: defs ring.slot_index_counter(1) [OF k(1) _ p0 [of 0]]\<close>)
  moreover have "spsc_step c4 c5"
  proof -
    have "q_mask_bit (c_queue c4) = 2 ^ k" "length (q_buffer (c_queue c4)) = capacity" using q by (simp_all add: defs)
    then have "advance (c_queue c4) (?C 0) = (Ok (?C 1) :: (unit, u64) res)"
      using ring.advance_counter [OF k(1) _ _ p0 [of 0]] by simp
    then show ?thesis unfolding c5_def by (intro push_store_tail) (simp_all add: defs)
  qed
  ultimately have "reachable q c5" by (meson reachable.start reachable.step)
  then show ?thesis by (intro exI [of _ c5]) (use open_ [of 1] in \<open>simp add: defs\<close>)
qed

theorem close_lost_witness:
  "\<exists>q c. new_queue 2 = (Ok q :: (unit, bool queue) res) \<and> reachable q c \<and> c_consumer c = CDropped
    \<and> c_producer c = PIdle \<and> \<not> is_closed (q_tail (c_queue c))"
proof -
  obtain k and q :: "bool queue" where "new_queue 2 = Ok q" using new_queue_ring [of 2] by auto
  with close_lost [of 2 q] show ?thesis by auto
qed

end
