(* ===== verification/State_Res.thy ===== *)
theory State_Res
  imports Prelude "HOL-Library.List_Lexorder" "HOL-Library.Char_ord"
begin

text \<open>
  Vocabulary of the context storage: code that mutates a state and may fail. The state of a failing call is
  kept, as in Rust, where the changes made before an early return stay. Further the sorted association
  lists that stand for the ordered maps of the standard library, and the loops over a list.
\<close>

section \<open>Stateful calls\<close>

type_synonym ('s, 'e, 'a) call = "'s \<Rightarrow> ('e, 'a) res \<times> 's"

definition ret :: "'a \<Rightarrow> ('s, 'e, 'a) call" where
  "ret a s = (Ok a, s)"

definition fail :: "'e \<Rightarrow> ('s, 'e, 'a) call" where
  "fail e s = (Err e, s)"

definition lift_res :: "('e, 'a) res \<Rightarrow> ('s, 'e, 'a) call" where
  "lift_res r s = (r, s)"

definition bind_call :: "('s, 'e, 'a) call \<Rightarrow> ('a \<Rightarrow> ('s, 'e, 'b) call) \<Rightarrow> ('s, 'e, 'b) call" where
  "bind_call m f s = (case m s of (Ok a, s') \<Rightarrow> f a s' | (Err e, s') \<Rightarrow> (Err e, s') | (Panic, s') \<Rightarrow> (Panic, s'))"

definition call_err :: "('e \<Rightarrow> 'f) \<Rightarrow> ('s, 'e, 'a) call \<Rightarrow> ('s, 'f, 'a) call" where
  "call_err g m s = (case m s of (r, s') \<Rightarrow> (map_err g r, s'))"

definition try_call :: "('s, 'e, 'a) call \<Rightarrow> ('s, 'f, ('e, 'a) res) call" where
  \<comment> \<open>the result of a call as a value; a panic is not caught\<close>
  "try_call m s = (case m s of (Panic, s') \<Rightarrow> (Panic, s') | (r, s') \<Rightarrow> (Ok r, s'))"

fun fold_call :: "('a \<Rightarrow> 'b \<Rightarrow> ('s, 'e, 'b) call) \<Rightarrow> 'a list \<Rightarrow> 'b \<Rightarrow> ('s, 'e, 'b) call" where
  "fold_call f [] b s = (Ok b, s)"
| "fold_call f (x # xs) b s = bind_call (f x b) (fold_call f xs) s"

lemma bind_call_eq_Ok:
  "bind_call m f s = (Ok b, s') \<longleftrightarrow> (\<exists>a s1. m s = (Ok a, s1) \<and> f a s1 = (Ok b, s'))"
  by (auto simp: bind_call_def split: prod.splits res.splits)

lemma bind_call_Ok: "m s = (Ok a, s1) \<Longrightarrow> bind_call m f s = f a s1"
  by (simp add: bind_call_def)

lemma bind_call_simps [simp]:
  "bind_call (ret a) f = f a" "bind_call (fail e) f = fail e" "bind_call (lift_res (Ok a)) f = f a"
  by (auto simp: bind_call_def ret_def fail_def lift_res_def)

lemma ret_apply [simp]: "ret a s = (Ok a, s)"
  by (simp add: ret_def)

lemma fail_apply [simp]: "fail e s = (Err e, s)"
  by (simp add: fail_def)

lemma lift_res_apply [simp]: "lift_res r s = (r, s)"
  by (simp add: lift_res_def)

lemma call_err_Ok [simp]: "call_err g m s = (Ok a, s') \<longleftrightarrow> m s = (Ok a, s')"
  by (auto simp: call_err_def split: prod.splits)

section \<open>Ordered maps\<close>

fun alist_insert :: "'k :: linorder \<Rightarrow> 'v \<Rightarrow> ('k \<times> 'v) list \<Rightarrow> ('k \<times> 'v) list" where
  "alist_insert k v [] = [(k, v)]"
| "alist_insert k v ((k', v') # ps) =
     (if k < k' then (k, v) # (k', v') # ps
      else if k = k' then (k, v) # ps
      else (k', v') # alist_insert k v ps)"

definition alist_remove :: "'k \<Rightarrow> ('k \<times> 'v) list \<Rightarrow> ('k \<times> 'v) list" where
  "alist_remove k ps = filter (\<lambda>p. fst p \<noteq> k) ps"

definition keys_sorted :: "('k :: linorder \<times> 'v) list \<Rightarrow> bool" where
  "keys_sorted ps \<longleftrightarrow> sorted_wrt (<) (map fst ps)"

lemma keys_sorted_simps [simp]:
  "keys_sorted []" "keys_sorted (p # ps) \<longleftrightarrow> (\<forall>q \<in> set ps. fst p < fst q) \<and> keys_sorted ps"
  by (auto simp: keys_sorted_def)

lemma set_alist_insert: "set (alist_insert k v ps) \<subseteq> insert (k, v) (set ps)"
  by (induction k v ps rule: alist_insert.induct) auto

lemma keys_sorted_insert: "keys_sorted ps \<Longrightarrow> keys_sorted (alist_insert k v ps)"
proof (induction k v ps rule: alist_insert.induct)
  case (2 k v k' v' ps)
  then show ?case using set_alist_insert [of k v ps] by fastforce
qed simp

lemma keys_sorted_remove: "keys_sorted ps \<Longrightarrow> keys_sorted (alist_remove k ps)"
  by (induction ps) (auto simp: alist_remove_def)

lemma keys_sorted_distinct: "keys_sorted ps \<Longrightarrow> distinct (map fst ps)"
  by (induction ps) fastforce+

lemma map_of_alist_insert: "keys_sorted ps \<Longrightarrow> map_of (alist_insert k v ps) = (map_of ps)(k \<mapsto> v)"
  by (induction k v ps rule: alist_insert.induct) auto

lemma map_of_alist_remove: "map_of (alist_remove k ps) = (map_of ps)(k := None)"
  by (induction ps) (auto simp: alist_remove_def)

lemma fst_alist_insert: "fst ` set (alist_insert k v ps) = insert k (fst ` set ps)"
  by (induction k v ps rule: alist_insert.induct) auto

lemma alist_insert_neq_Nil [simp]: "alist_insert k v ps \<noteq> []"
  by (induction k v ps rule: alist_insert.induct) auto

lemma alist_remove_simps [simp]:
  "alist_remove k [] = []" "alist_remove k ((k', v) # ps) = (if k' = k then alist_remove k ps else (k', v) # alist_remove k ps)"
  by (simp_all add: alist_remove_def)

lemma keys_sorted_ext:
  assumes "keys_sorted ps" and "keys_sorted qs" and "map_of ps = map_of qs"
  shows "ps = qs"
proof -
  have "set ps = set qs"
    using assms map_of_eq_Some_iff [OF keys_sorted_distinct] by (metis surj_pair subsetI subset_antisym)
  moreover have "sorted_wrt (<) (map fst xs) \<Longrightarrow> sorted_wrt (\<lambda>p q. fst p < fst q) xs" for xs :: "('a \<times> 'b) list"
    by (simp add: sorted_wrt_map)
  ultimately show ?thesis
    using assms(1,2)
  proof (induction ps arbitrary: qs)
    case (Cons p ps)
    then obtain q qs' where q: "qs = q # qs'" by (cases qs) auto
    with Cons.prems have "p = q"
      by (metis keys_sorted_simps(2) less_asym list.set_intros(1) set_ConsD)
    moreover from this have "set ps = set qs'"
      using Cons.prems q by (auto, (metis insertE insertI2 less_irrefl)+)
    ultimately show ?case using Cons q by simp
  qed simp
qed

lemma alist_insert_sorted_Cons:
  "keys_sorted ps \<Longrightarrow> \<forall>q \<in> set ps. k < fst q \<Longrightarrow> alist_insert k v ps = (k, v) # ps"
  by (cases ps) auto

lemma alist_insert_last:
  "\<forall>p \<in> set ps. fst p < k \<Longrightarrow> alist_insert k v ps = ps @ [(k, v)]"
  by (induction ps) auto

end
