(* ===== verification/Kv_Store.thy ===== *)
theory Kv_Store
  imports State_Res Spsc
begin

unbundle bit_operations_syntax

text \<open>
  The key-value store of the context: hash ids (\<^verbatim>\<open>kv_store/mod.rs\<close>), the vectors indexed by them
  (\<^verbatim>\<open>kv_store/entries.rs\<close>) and the hash and value tables with their free ids
  (\<^verbatim>\<open>kv_store/in_memory.rs\<close>).
\<close>

section \<open>Hash ids\<close>

type_synonym hash_id = u64
type_synonym entry_hash = bytes

datatype hash_id_error = HashIdError

definition into_usize :: "hash_id \<Rightarrow> (hash_id_error, usize) res" where
  "into_usize h = (case checked_sub (unat h) 1 of None \<Rightarrow> Err HashIdError | Some i \<Rightarrow> Ok i)"

definition hash_id_from_usize :: "usize \<Rightarrow> (hash_id_error, hash_id) res" where
  "hash_id_from_usize i = (case checked_add i 1 of None \<Rightarrow> Err HashIdError | Some n \<Rightarrow> Ok (word_of_nat n))"

definition READONLY :: u64 where
  "READONLY = push_bit 63 1"

definition set_readonly_runner :: "hash_id \<Rightarrow> (hash_id_error, hash_id) res" where
  "set_readonly_runner h = (if h OR READONLY = 0 then Err HashIdError else Ok (h OR READONLY))"

definition get_readonly_id :: "hash_id \<Rightarrow> (hash_id_error, hash_id option) res" where
  "get_readonly_id h =
     (if h AND READONLY \<noteq> 0
      then if h AND NOT READONLY = 0 then Err HashIdError else Ok (Some (h AND NOT READONLY))
      else Ok None)"

section \<open>Vectors indexed by hash ids\<close>

definition entries_set :: "'v list \<Rightarrow> hash_id \<Rightarrow> 'v \<Rightarrow> (hash_id_error, 'v list) res" where
  "entries_set es key v =
     res_bind (into_usize key) (\<lambda>i. if i < length es then Ok (es[i := v]) else Panic)"

definition entries_get :: "'v list \<Rightarrow> hash_id \<Rightarrow> (hash_id_error, 'v option) res" where
  "entries_get es key =
     res_bind (into_usize key) (\<lambda>i. Ok (if i < length es then Some (es ! i) else None))"

definition entries_insert_at :: "'v \<Rightarrow> 'v list \<Rightarrow> hash_id \<Rightarrow> 'v \<Rightarrow> (hash_id_error, 'v list) res" where
  "entries_insert_at default_value es key v =
     res_bind (into_usize key) (\<lambda>i.
       let es = (if length es \<le> i then es @ replicate (i + 1 - length es) default_value else es)
       in Ok (es[i := v]))"

section \<open>The tables\<close>

definition ENTRY_HASH_LEN :: nat where
  "ENTRY_HASH_LEN = 32"

record hash_value_store =
  hv_hashes :: "entry_hash list"
  hv_values :: "bytes option list"
  hv_free_ids :: "hash_id queue option"
  hv_new_ids :: "hash_id list"

definition hash_value_store_new :: "hash_id queue option \<Rightarrow> hash_value_store" where
  "hash_value_store_new consumer =
     \<lparr>hv_hashes = [], hv_values = [], hv_free_ids = consumer, hv_new_ids = []\<rparr>"

definition hash_value_store_clear :: "hash_value_store \<Rightarrow> hash_value_store" where
  "hash_value_store_clear s =
     \<lparr>hv_hashes = [], hv_values = [], hv_free_ids = hv_free_ids s, hv_new_ids = []\<rparr>"

definition get_free_id :: "(hash_value_store, 'e, hash_id option) call" where
  "get_free_id s =
     (case hv_free_ids s of
        None \<Rightarrow> (Ok None, s)
      | Some q \<Rightarrow>
          (case pop q of
             Ok (x, q') \<Rightarrow> (Ok (Some x), s\<lparr>hv_free_ids := Some q'\<rparr>)
           | Err _ \<Rightarrow> (Ok None, s)
           | Panic \<Rightarrow> (Panic, s)))"

definition get_vacant_entry :: "(hash_value_store, hash_id_error, hash_id) call" where
  \<comment> \<open>\<open>Entries::get_vacant_entry\<close> on the hashes: a default value is pushed\<close>
  "get_vacant_entry s =
     (hash_id_from_usize (length (hv_hashes s)), s\<lparr>hv_hashes := hv_hashes s @ [replicate ENTRY_HASH_LEN 0]\<rparr>)"

definition get_vacant_entry_hash :: "(hash_value_store, hash_id_error, hash_id) call" where
  "get_vacant_entry_hash =
     bind_call
       (bind_call get_free_id (\<lambda>free_id.
          case free_id of
            None \<Rightarrow> get_vacant_entry
          | Some free_id \<Rightarrow> (\<lambda>s.
              case entries_set (hv_values s) free_id None of
                Ok values \<Rightarrow>
                  (res_bind (entries_get (hv_hashes s) free_id) (\<lambda>entry.
                     case entry of None \<Rightarrow> Err HashIdError | Some _ \<Rightarrow> Ok free_id),
                   s\<lparr>hv_values := values\<rparr>)
              | Err e \<Rightarrow> (Err e, s)
              | Panic \<Rightarrow> (Panic, s))))
       (\<lambda>hash_id s. (Ok hash_id, s\<lparr>hv_new_ids := hv_new_ids s @ [hash_id]\<rparr>))"

definition write_with :: "hash_id \<Rightarrow> entry_hash \<Rightarrow> hash_value_store \<Rightarrow> hash_value_store" where
  \<comment> \<open>the closure copies the digest into the vacant entry\<close>
  "write_with h digest s = s\<lparr>hv_hashes := (hv_hashes s)[unat h - 1 := digest]\<rparr>"

definition insert_value_at :: "hash_id \<Rightarrow> bytes \<Rightarrow> (hash_value_store, hash_id_error, unit) call" where
  "insert_value_at h v s =
     (case entries_insert_at None (hv_values s) h (Some v) of
        Ok values \<Rightarrow> (Ok (), s\<lparr>hv_values := values\<rparr>)
      | Err e \<Rightarrow> (Err e, s)
      | Panic \<Rightarrow> (Panic, s))"

definition get_hash :: "hash_value_store \<Rightarrow> hash_id \<Rightarrow> (hash_id_error, entry_hash option) res" where
  "get_hash s h = entries_get (hv_hashes s) h"

definition hv_get_value :: "hash_value_store \<Rightarrow> hash_id \<Rightarrow> (hash_id_error, bytes option) res" where
  "hv_get_value s h =
     res_bind (entries_get (hv_values s) h) (\<lambda>value. case value of Some v \<Rightarrow> Ok v | None \<Rightarrow> Ok None)"

definition hv_contains :: "hash_value_store \<Rightarrow> hash_id \<Rightarrow> (hash_id_error, bool) res" where
  "hv_contains s h =
     res_bind (entries_get (hv_values s) h) (\<lambda>value. Ok (case value of Some (Some _) \<Rightarrow> True | _ \<Rightarrow> False))"

definition take_new_ids :: "hash_value_store \<Rightarrow> hash_id list \<times> hash_value_store" where
  "take_new_ids s = (hv_new_ids s, s\<lparr>hv_new_ids := []\<rparr>)"

end
