(* ===== verification/Context_Data.thy ===== *)
theory Context_Data
  imports Kv_Store Crypto_Hash
begin

text \<open>
  The data of the Merkle storage, \<^verbatim>\<open>working_tree/mod.rs\<close>, and the interfaces of the crates it uses: \<^verbatim>\<open>im_rc\<close> (the
  ordered map of a directory), \<^verbatim>\<open>bincode\<close> with the derived serde implementations, \<^verbatim>\<open>blake2\<close> and \<^verbatim>\<open>leb128\<close>. The nodes of a
  directory are shared and mutable (\<^verbatim>\<open>Rc<Node>\<close> with cells): a node is an address of the heap of \<open>ctx\<close>, and
  its cells are fields of the node there.
\<close>

section \<open>Entries and nodes\<close>

datatype node_kind = NonLeaf | Leaf

record commit =
  parent_commit_hash :: "hash_id option"
  root_hash :: hash_id
  commit_time :: u64
  commit_author :: string
  commit_message :: string

type_synonym addr = nat

datatype 't entry = ETree 't | EBlob bytes | ECommit commit

record 't node =
  node_kind :: node_kind
  commited :: bool
  entry_hash_cell :: "hash_id option"
  entry_cell :: "'t entry option"

text \<open>What the derived serde implementations show of an entry: of a node only its kind and the id of its hash.\<close>

datatype disk_entry =
    DTree "(string \<times> node_kind \<times> hash_id) list"
  | DBlob bytes
  | DCommit commit

section \<open>Crates\<close>

record 't ordmap =
  om_new :: 't
  om_get :: "'t \<Rightarrow> string \<Rightarrow> addr option"
  om_insert :: "'t \<Rightarrow> string \<Rightarrow> addr \<Rightarrow> 't"
  om_remove :: "'t \<Rightarrow> string \<Rightarrow> 't"
  om_len :: "'t \<Rightarrow> nat"
  om_is_empty :: "'t \<Rightarrow> bool"
  om_iter :: "'t \<Rightarrow> (string \<times> addr) list"

text \<open>\<^verbatim>\<open>OrdMap\<close> is a finite map that iterates in the order of its keys.\<close>

locale ordmap_laws =
  fixes M :: "'t ordmap"
  assumes iter_sorted: "keys_sorted (om_iter M t)"
    and iter_new: "om_iter M (om_new M) = []"
    and get_iter: "om_get M t k = map_of (om_iter M t) k"
    and iter_insert: "om_iter M (om_insert M t k v) = alist_insert k v (om_iter M t)"
    and iter_remove: "om_iter M (om_remove M t k) = alist_remove k (om_iter M t)"
    and len_iter: "om_len M t = length (om_iter M t)"
    and is_empty_iter: "om_is_empty M t \<longleftrightarrow> om_iter M t = []"

datatype bincode_error = BincodeError string

record context_crates =
  bincode_serialize :: "disk_entry \<Rightarrow> (bincode_error, bytes) res"
  bincode_deserialize :: "bytes \<Rightarrow> (bincode_error, disk_entry) res"
  var_blake2b :: "nat \<Rightarrow> bytes \<Rightarrow> bytes option"
  leb128_unsigned :: "u64 \<Rightarrow> bytes"
  default_hasher :: "bytes \<Rightarrow> u64"

text \<open>
  \<^verbatim>\<open>bincode\<close> without a size limit writes every entry, and reads back what it wrote; an id is a \<^verbatim>\<open>NonZeroUsize\<close>. A \<^verbatim>\<open>VarBlake2b\<close>
  of 32 bytes exists and digests the concatenation of its updates. LEB128 numbers are
  self-delimiting. \<open>default_hasher\<close> is the \<^verbatim>\<open>DefaultHasher\<close> of the standard library, whose algorithm is not
  specified; nothing is assumed of it.
\<close>

fun disk_ids :: "disk_entry \<Rightarrow> hash_id set" where
  "disk_ids (DTree es) = (\<lambda>(k, kind, h). h) ` set es"
| "disk_ids (DBlob b) = {}"
| "disk_ids (DCommit c) = insert (root_hash c) (set_option (parent_commit_hash c))"

locale context_crates_laws =
  fixes X :: context_crates
  assumes bincode_roundtrip: "0 \<notin> disk_ids d \<Longrightarrow>
      \<exists>b. bincode_serialize X d = Ok b \<and> bincode_deserialize X b = Ok d"
    and blake2b_size: "\<exists>digest. var_blake2b X 32 bs = Some digest \<and> length digest = 32"
    and leb128_prefix_free: "leb128_unsigned X m @ bs = leb128_unsigned X n @ cs \<Longrightarrow> m = n \<and> bs = cs"

section \<open>Errors\<close>

text \<open>
  The constructors that the modelled code raises. Those for poisoned locks, RocksDB, inter-process access, slices of the wrong length
  and failures of writing LEB128 to a hasher, which cannot occur here, are left out, and so are the causes the constructors
  of the source carry only to print them.
\<close>

datatype db_error =
    DBFoundUnexpectedStructure string string
  | DBSerializationError bincode_error
  | DBMissingEntry hash_id
  | DBHashIdFailed

datatype hashing_error =
    HInvalidOutputSize
  | HValueExpected string
  | HUnexpectedEmptyInode
  | HMissingEntry
  | HDBError db_error
  | HHashIdNotFound hash_id

datatype merkle_error =
    MDBError db_error
  | MSerializationError bincode_error
  | MValueIsNotABlob string
  | MFoundUnexpectedStructure string string
  | MEntryNotFound hash_id
  | MValueNotFound string
  | MKeyEmpty
  | MHashingError hashing_error
  | MInvalidState string

datatype context_error =
    UnknownContextHashError string
  | MerkleStorageError merkle_error
  | InvalidCommitDate
  | ContextHashError from_bytes_error
  | ContextDBError db_error

definition db_of_hash_id :: "hash_id_error \<Rightarrow> db_error" where
  "db_of_hash_id e = DBHashIdFailed"

section \<open>Commands of the garbage collector\<close>

type_synonym cycle_map = "(hash_id \<times> bytes option) list"

datatype gc_command = StartNewCycle cycle_map "hash_id list" | MarkReused "hash_id list"

section \<open>The in-memory repository\<close>

definition PRESERVE_CYCLE_COUNT :: nat where
  "PRESERVE_CYCLE_COUNT = 7"

record in_memory =
  current_cycle :: cycle_map
  im_hashes :: hash_value_store
  im_sender :: "gc_command list option" \<comment> \<open>the commands sent to the collector, oldest first\<close>
  context_hashes :: "u64 \<rightharpoonup> hash_id"
  context_hashes_cycles :: "u64 list list"

definition in_memory_new :: "(gc_command list \<times> hash_id queue) option \<Rightarrow> in_memory" where
  \<comment> \<open>\<open>InMemory::new\<close>: the argument is \<open>None\<close> when the collector is disabled, otherwise the two channels to it\<close>
  "in_memory_new gc =
     \<lparr>current_cycle = [], im_hashes = hash_value_store_new (map_option snd gc), im_sender = map_option fst gc,
      context_hashes = Map.empty, context_hashes_cycles = replicate PRESERVE_CYCLE_COUNT []\<rparr>"

definition im_get_vacant_entry_hash :: "(in_memory, db_error, hash_id) call" where
  "im_get_vacant_entry_hash r =
     (case call_err db_of_hash_id get_vacant_entry_hash (im_hashes r) of (x, s) \<Rightarrow> (x, r\<lparr>im_hashes := s\<rparr>))"

definition im_get_hash :: "in_memory \<Rightarrow> hash_id \<Rightarrow> (db_error, entry_hash option) res" where
  "im_get_hash r h = map_err db_of_hash_id (get_hash (im_hashes r) h)"

definition im_get_value :: "in_memory \<Rightarrow> hash_id \<Rightarrow> (db_error, bytes option) res" where
  "im_get_value r h = map_err db_of_hash_id (hv_get_value (im_hashes r) h)"

definition im_contains :: "in_memory \<Rightarrow> hash_id \<Rightarrow> (db_error, bool) res" where
  "im_contains r h = map_err db_of_hash_id (hv_contains (im_hashes r) h)"

definition write_batch :: "(hash_id \<times> bytes) list \<Rightarrow> (in_memory, db_error, unit) call" where
  "write_batch batch =
     fold_call (\<lambda>(h, v) _ r.
       case call_err db_of_hash_id (insert_value_at h v) (im_hashes r) of
         (Ok _, s) \<Rightarrow> (Ok (), r\<lparr>im_hashes := s, current_cycle := alist_insert h (Some v) (current_cycle r)\<rparr>)
       | (Err e, s) \<Rightarrow> (Err e, r\<lparr>im_hashes := s\<rparr>)
       | (Panic, s) \<Rightarrow> (Panic, r\<lparr>im_hashes := s\<rparr>)) batch ()"

definition new_cycle_started :: "in_memory \<Rightarrow> in_memory" where
  "new_cycle_started r =
     (case im_sender r of
        None \<Rightarrow> r
      | Some commands \<Rightarrow>
          let (new_ids, s) = take_new_ids (im_hashes r);
              r = r\<lparr>current_cycle := [], im_hashes := s,
                     im_sender := Some (commands @ [StartNewCycle (current_cycle r) new_ids])\<rparr>;
              r = (case context_hashes_cycles r of
                     [] \<Rightarrow> r
                   | unused # cycles \<Rightarrow>
                       r\<lparr>context_hashes := (\<lambda>h. if h \<in> set unused then None else context_hashes r h),
                         context_hashes_cycles := cycles\<rparr>)
          in r\<lparr>context_hashes_cycles := context_hashes_cycles r @ [[]]\<rparr>)"

definition im_block_applied :: "hash_id list \<Rightarrow> in_memory \<Rightarrow> in_memory" where
  "im_block_applied reused r =
     (case im_sender r of
        None \<Rightarrow> r
      | Some commands \<Rightarrow> r\<lparr>im_sender := Some (commands @ [MarkReused reused])\<rparr>)"

definition get_context_hash :: "context_crates \<Rightarrow> in_memory \<Rightarrow> bytes \<Rightarrow> hash_id option" where
  "get_context_hash X r context_hash = context_hashes r (default_hasher X context_hash)"

definition put_context_hash :: "context_crates \<Rightarrow> hash_id \<Rightarrow> (in_memory, db_error, unit) call" where
  "put_context_hash X commit_hash_id r =
     (res_bind (im_get_hash r commit_hash_id) (\<lambda>h. ok_or (DBMissingEntry commit_hash_id) (map_option (\<lambda>_. ()) h)),
      case im_get_hash r commit_hash_id of
        Ok (Some commit_hash) \<Rightarrow>
          let hashed = default_hasher X commit_hash; cycles = context_hashes_cycles r in
          r\<lparr>context_hashes := (context_hashes r)(hashed \<mapsto> commit_hash_id),
            context_hashes_cycles :=
              (if cycles = [] then [] else butlast cycles @ [last cycles @ [hashed]])\<rparr>
      | _ \<Rightarrow> r)"

section \<open>The state of an index\<close>

record 't ctx =
  cx_heap :: "'t node list"
  cx_repo :: in_memory
  cx_strings :: "string set"

definition read_node :: "addr \<Rightarrow> ('t ctx, 'e, 't node) call" where
  "read_node a s = (if a < length (cx_heap s) then Ok (cx_heap s ! a) else Panic, s)"

definition alloc_node :: "'t node \<Rightarrow> ('t ctx, 'e, addr) call" where
  "alloc_node n s = (Ok (length (cx_heap s)), s\<lparr>cx_heap := cx_heap s @ [n]\<rparr>)"

definition update_node :: "addr \<Rightarrow> ('t node \<Rightarrow> 't node) \<Rightarrow> ('t ctx, 'e, unit) call" where
  "update_node a f s =
     (if a < length (cx_heap s) then (Ok (), s\<lparr>cx_heap := (cx_heap s)[a := f (cx_heap s ! a)]\<rparr>) else (Panic, s))"

definition with_repo :: "(in_memory, 'e, 'a) call \<Rightarrow> ('t ctx, 'e, 'a) call" where
  "with_repo m s = (case m (cx_repo s) of (x, r) \<Rightarrow> (x, s\<lparr>cx_repo := r\<rparr>))"

section \<open>Serialization of entries\<close>

definition to_disk :: "'t ordmap \<Rightarrow> 't entry \<Rightarrow> ('t ctx, bincode_error, disk_entry) call" where
  \<comment> \<open>a node is written only when its hash id is known\<close>
  "to_disk M e =
     (case e of
        EBlob b \<Rightarrow> ret (DBlob b)
      | ECommit c \<Rightarrow> ret (DCommit c)
      | ETree tree \<Rightarrow>
          bind_call
            (fold_call (\<lambda>(k, a) es.
               bind_call (read_node a) (\<lambda>n.
                 case entry_hash_cell n of
                   None \<Rightarrow> fail (BincodeError ''entry_hash missing in Node'')
                 | Some h \<Rightarrow> ret (es @ [(k, node_kind n, h)]))) (om_iter M tree) [])
            (\<lambda>es. ret (DTree es)))"

definition node_of_disk :: "node_kind \<Rightarrow> hash_id \<Rightarrow> 't node" where
  "node_of_disk kind h =
     \<lparr>node_kind = kind, commited = True, entry_hash_cell = Some h, entry_cell = None\<rparr>"

definition of_disk :: "'t ordmap \<Rightarrow> disk_entry \<Rightarrow> ('t ctx, 'e, 't entry) call" where
  "of_disk M d =
     (case d of
        DBlob b \<Rightarrow> ret (EBlob b)
      | DCommit c \<Rightarrow> ret (ECommit c)
      | DTree es \<Rightarrow>
          bind_call
            (fold_call (\<lambda>(k, kind, h) tree.
               bind_call (alloc_node (node_of_disk kind h)) (\<lambda>a. ret (om_insert M tree k a))) es (om_new M))
            (\<lambda>tree. ret (ETree tree)))"

end
