(* ===== verification/Context_Hash.thy ===== *)
theory Context_Hash
  imports Context_Data
begin

unbundle bit_operations_syntax

text \<open>
  The hashes of entries, \<^verbatim>\<open>new_context/src/hash/mod.rs\<close>, with the port of OCaml's string hash in \<^verbatim>\<open>hash/ocaml.rs\<close>.
  A directory of more than 256 entries is hashed as a tree of inodes. Hashing a node hashes the entries
  below it first; the recursion over the heap is bounded by fuel.
\<close>

section \<open>The string hash of OCaml\<close>

definition ocaml_mix :: "u32 \<Rightarrow> u32 \<Rightarrow> u32" where
  "ocaml_mix h w =
     (let w = w * 0xcc9e2d51;
          w = push_bit 15 w OR drop_bit 17 w;
          w = w * 0x1b873593;
          h = h XOR w;
          h = push_bit 13 h OR drop_bit 19 h
      in h * 5 + 0xe6546b64)"

definition u32_from_le :: "bytes \<Rightarrow> u32" where
  "u32_from_le bs = word_of_nat (from_be (rev bs))"

fun ocaml_hash_blocks :: "u32 \<Rightarrow> bytes \<Rightarrow> u32 \<times> bytes" where
  \<comment> \<open>the loop over 32-bit blocks: the hash and the bytes that are left\<close>
  "ocaml_hash_blocks h (a # b # c # d # bs) = ocaml_hash_blocks (ocaml_mix h (u32_from_le [a, b, c, d])) bs"
| "ocaml_hash_blocks h bs = (h, bs)"

definition ocaml_hash_string :: "u32 \<Rightarrow> bytes \<Rightarrow> u32" where
  "ocaml_hash_string seed s =
     (let len = word_of_nat (length s) :: u32;
          (h, left) = ocaml_hash_blocks seed s;
          h = (case left of
                 [a, b, c] \<Rightarrow> ocaml_mix h (push_bit 16 (ucast c) OR push_bit 8 (ucast b) OR ucast a)
               | [a, b] \<Rightarrow> ocaml_mix h (push_bit 8 (ucast b) OR ucast a)
               | [a] \<Rightarrow> ocaml_mix h (ucast a)
               | _ \<Rightarrow> h);
          h = h XOR len;
          h = h XOR drop_bit 16 h;
          h = h * 0x85ebca6b;
          h = h XOR drop_bit 13 h;
          h = h * 0xc2b2ae35;
          h = h XOR drop_bit 16 h
      in h AND 0x3FFFFFFF)"

definition str_bytes :: "string \<Rightarrow> bytes" where
  "str_bytes s = map of_char s"

definition inode_index :: "nat \<Rightarrow> string \<Rightarrow> nat" where
  "inode_index depth name = unat (ocaml_hash_string (word_of_nat depth) (str_bytes name) mod 32)"

section \<open>Digests in the store\<close>

definition hash_id_of_db :: "(in_memory, db_error, 'a) call \<Rightarrow> ('t ctx, hashing_error, 'a) call" where
  "hash_id_of_db m = call_err HDBError (with_repo m)"

definition repo_hash :: "hash_id \<Rightarrow> hashing_error \<Rightarrow> ('t ctx, hashing_error, entry_hash) call" where
  \<comment> \<open>\<open>store.get_hash(id)?.ok_or(missing)?\<close>\<close>
  "repo_hash h missing s =
     (res_bind (map_err HDBError (im_get_hash (cx_repo s) h)) (ok_or missing), s)"

definition write_digest :: "context_crates \<Rightarrow> bytes \<Rightarrow> ('t ctx, hashing_error, hash_id) call" where
  \<comment> \<open>\<open>VarBlake2b::new(ENTRY_HASH_LEN)?\<close> with the updates, then \<open>get_vacant_entry_hash()?.write_with\<close>\<close>
  "write_digest X bs =
     (case var_blake2b X ENTRY_HASH_LEN bs of
        None \<Rightarrow> fail HInvalidOutputSize
      | Some out \<Rightarrow>
          bind_call (hash_id_of_db im_get_vacant_entry_hash) (\<lambda>h s.
            (Ok h, s\<lparr>cx_repo := (cx_repo s)\<lparr>im_hashes := write_with h out (im_hashes (cx_repo s))\<rparr>\<rparr>)))"

section \<open>Inodes\<close>

datatype inode =
    InodeEmpty
  | InodeValue "(string \<times> addr) list"
  | InodeTree nat nat "(nat \<times> hash_id) list"

definition leb128_len :: "context_crates \<Rightarrow> nat \<Rightarrow> bytes" where
  "leb128_len X n = leb128_unsigned X (word_of_nat n)"

definition encode_irmin_node_kind :: "node_kind \<Rightarrow> bytes" where
  "encode_irmin_node_kind kind =
     (case kind of NonLeaf \<Rightarrow> [0, 0, 0, 0, 0, 0, 0, 0] | Leaf \<Rightarrow> [255, 0, 0, 0, 0, 0, 0, 0])"

definition inode_value_kind :: "node_kind \<Rightarrow> bytes" where
  "inode_value_kind kind = (case kind of Leaf \<Rightarrow> [1] | NonLeaf \<Rightarrow> [0])"

text \<open>The argument \<open>nh\<close> of the following functions is \<open>Node::entry_hash\<close> for the nodes below.\<close>

type_synonym 't node_hash = "addr \<Rightarrow> ('t ctx, hashing_error, entry_hash) call"

definition hash_long_inode :: "context_crates \<Rightarrow> 't node_hash \<Rightarrow> inode \<Rightarrow> ('t ctx, hashing_error, hash_id) call" where
  "hash_long_inode X nh inode =
     (case inode of
        InodeEmpty \<Rightarrow> fail HUnexpectedEmptyInode
      | InodeValue entries \<Rightarrow>
          bind_call
            (fold_call (\<lambda>(name, a) bs.
               bind_call (read_node a) (\<lambda>n.
               bind_call (nh a) (\<lambda>hash.
                 ret (bs @ leb128_len X (length (str_bytes name)) @ str_bytes name
                        @ inode_value_kind (node_kind n) @ hash))))
               entries ([0] @ [word_of_nat (length entries)]))
            (write_digest X)
      | InodeTree depth children pointers \<Rightarrow>
          bind_call
            (fold_call (\<lambda>(index, h) bs.
               bind_call (repo_hash h (HHashIdNotFound h)) (\<lambda>hash. ret (bs @ [word_of_nat index] @ hash)))
               pointers
               ([1] @ leb128_len X depth @ leb128_len X children @ [word_of_nat (length pointers)]))
            (write_digest X))"

function (sequential) partition_entries ::
    "context_crates \<Rightarrow> 't node_hash \<Rightarrow> nat \<Rightarrow> (string \<times> addr) list \<Rightarrow> ('t ctx, hashing_error, inode) call"
  and partition_pointers ::
    "context_crates \<Rightarrow> 't node_hash \<Rightarrow> nat \<Rightarrow> (string \<times> addr) list \<Rightarrow> nat \<Rightarrow> (nat \<times> hash_id) list
      \<Rightarrow> ('t ctx, hashing_error, (nat \<times> hash_id) list) call" where
  "partition_entries X nh depth entries s =
     (if entries = [] then (Ok InodeEmpty, s)
      else if length entries \<le> 32 then (Ok (InodeValue entries), s)
      else
        bind_call (partition_pointers X nh depth entries 0 [])
          (\<lambda>pointers. ret (InodeTree depth (length entries) pointers)) s)"
| "partition_pointers X nh depth entries i pointers s =
     (if 31 < i then (Ok pointers, s)
      else if 2 ^ 32 \<le> depth + 1 then (Panic, s)
      else
        bind_call (partition_entries X nh (depth + 1) (filter (\<lambda>(name, _). inode_index depth name = i) entries))
          (\<lambda>ti. case ti of
             InodeEmpty \<Rightarrow> partition_pointers X nh depth entries (i + 1) pointers
           | _ \<Rightarrow> bind_call (hash_long_inode X nh ti)
               (\<lambda>h. partition_pointers X nh depth entries (i + 1) (pointers @ [(i, h)]))) s)"
  by pat_completeness auto

termination
  by (relation "measures [\<lambda>x. case x of Inl (X, nh, depth, entries, s) \<Rightarrow> 2 ^ 32 - depth
        | Inr (X, nh, depth, entries, i, pointers, s) \<Rightarrow> 2 ^ 32 - depth,
      \<lambda>x. case x of Inl _ \<Rightarrow> 33 | Inr (X, nh, depth, entries, i, pointers, s) \<Rightarrow> 32 - i]") auto

definition hash_short_inode ::
    "'t ordmap \<Rightarrow> context_crates \<Rightarrow> 't node_hash \<Rightarrow> 't \<Rightarrow> ('t ctx, hashing_error, hash_id) call" where
  "hash_short_inode M X nh tree =
     bind_call
       (fold_call (\<lambda>(k, a) bs.
          bind_call (read_node a) (\<lambda>n.
          bind_call (nh a) (\<lambda>hash.
            ret (bs @ encode_irmin_node_kind (node_kind n) @ leb128_len X (length (str_bytes k)) @ str_bytes k
                   @ be_bytes 8 ENTRY_HASH_LEN @ hash))))
          (om_iter M tree) (be_bytes 8 (om_len M tree)))
       (write_digest X)"

definition hash_tree ::
    "'t ordmap \<Rightarrow> context_crates \<Rightarrow> 't node_hash \<Rightarrow> 't \<Rightarrow> ('t ctx, hashing_error, hash_id) call" where
  "hash_tree M X nh tree =
     (if 256 < om_len M tree
      then bind_call (partition_entries X nh 0 (om_iter M tree)) (hash_long_inode X nh)
      else hash_short_inode M X nh tree)"

section \<open>Blobs, commits and entries\<close>

definition hash_blob :: "context_crates \<Rightarrow> bytes \<Rightarrow> ('t ctx, hashing_error, hash_id) call" where
  "hash_blob X blob = write_digest X (be_bytes 8 (length blob) @ blob)"

definition hash_commit :: "context_crates \<Rightarrow> commit \<Rightarrow> ('t ctx, hashing_error, hash_id) call" where
  "hash_commit X c =
     bind_call (repo_hash (root_hash c) (HValueExpected ''root_hash'')) (\<lambda>root_hash.
     bind_call
       (case parent_commit_hash c of
          Some parent \<Rightarrow>
            bind_call (repo_hash parent (HValueExpected ''parent_commit_hash'')) (\<lambda>parent_commit_hash.
              ret (be_bytes 8 1 @ be_bytes 8 (length parent_commit_hash) @ parent_commit_hash))
        | None \<Rightarrow> ret (be_bytes 8 0))
       (\<lambda>parents.
          write_digest X
            (be_bytes 8 ENTRY_HASH_LEN @ root_hash @ parents @ to_be64 (commit_time c)
              @ be_bytes 8 (length (str_bytes (commit_author c))) @ str_bytes (commit_author c)
              @ be_bytes 8 (length (str_bytes (commit_message c))) @ str_bytes (commit_message c))))"

definition hash_entry ::
    "'t ordmap \<Rightarrow> context_crates \<Rightarrow> 't node_hash \<Rightarrow> 't entry \<Rightarrow> ('t ctx, hashing_error, hash_id) call" where
  "hash_entry M X nh e =
     (case e of
        ECommit c \<Rightarrow> hash_commit X c
      | ETree tree \<Rightarrow> hash_tree M X nh tree
      | EBlob blob \<Rightarrow> hash_blob X blob)"

definition node_entry_hash :: "(addr \<Rightarrow> ('t ctx, hashing_error, hash_id) call) \<Rightarrow> 't node_hash" where
  "node_entry_hash hash_id_of a = bind_call (hash_id_of a) (\<lambda>h. repo_hash h (HHashIdNotFound h))"

fun entry_hash_id :: "nat \<Rightarrow> 't ordmap \<Rightarrow> context_crates \<Rightarrow> addr \<Rightarrow> ('t ctx, hashing_error, hash_id) call" where
  "entry_hash_id 0 M X a s = (Panic, s)"
| "entry_hash_id (Suc fuel) M X a s =
     bind_call (read_node a) (\<lambda>n.
       case entry_hash_cell n of
         Some h \<Rightarrow> ret h
       | None \<Rightarrow>
           bind_call
             (case entry_cell n of
                None \<Rightarrow> fail HMissingEntry
              | Some e \<Rightarrow> hash_entry M X (node_entry_hash (entry_hash_id fuel M X)) e)
             (\<lambda>h. bind_call (update_node a (\<lambda>n. n\<lparr>entry_hash_cell := Some h\<rparr>)) (\<lambda>_. ret h))) s"

end
