(* ===== verification/Tezedge_Index.thy ===== *)
theory Tezedge_Index
  imports Context_Hash
begin

text \<open>
  \<^verbatim>\<open>TezedgeIndex\<close> of \<^verbatim>\<open>new_context/src/tezedge_context.rs\<close>: entries, commits and trees by hash id, nodes loaded on demand,
  lookup of directories and values by path, and the views of a committed context. A lookup that loads a
  node from the repository stores the entry in the node. The locks of the repository and the borrow
  checks of the cells succeed in a single thread and are left out.
\<close>

section \<open>Reading entries\<close>

definition find_entry :: "'t ordmap \<Rightarrow> context_crates \<Rightarrow> hash_id \<Rightarrow> ('t ctx, db_error, 't entry option) call" where
  "find_entry M X h s =
     bind_call (lift_res (im_get_value (cx_repo s) h)) (\<lambda>bs.
       case bs of
         None \<Rightarrow> ret None
       | Some entry_bytes \<Rightarrow>
           bind_call (lift_res (map_err DBSerializationError (bincode_deserialize X entry_bytes))) (\<lambda>d.
           bind_call (of_disk M d) (\<lambda>e. ret (Some e)))) s"

definition index_get_hash :: "hash_id \<Rightarrow> ('t ctx, db_error, entry_hash option) call" where
  "index_get_hash h s = (im_get_hash (cx_repo s) h, s)"

definition get_entry :: "'t ordmap \<Rightarrow> context_crates \<Rightarrow> hash_id \<Rightarrow> ('t ctx, merkle_error, 't entry) call" where
  "get_entry M X h =
     bind_call (call_err MDBError (find_entry M X h)) (\<lambda>e.
       case e of None \<Rightarrow> fail (MEntryNotFound h) | Some e \<Rightarrow> ret e)"

definition find_commit :: "'t ordmap \<Rightarrow> context_crates \<Rightarrow> hash_id \<Rightarrow> ('t ctx, db_error, commit option) call" where
  "find_commit M X h =
     bind_call (find_entry M X h) (\<lambda>e.
       case e of
         Some (ECommit c) \<Rightarrow> ret (Some c)
       | Some (ETree _) \<Rightarrow> fail (DBFoundUnexpectedStructure ''commit'' ''tree'')
       | Some (EBlob _) \<Rightarrow> fail (DBFoundUnexpectedStructure ''commit'' ''blob'')
       | None \<Rightarrow> ret None)"

definition get_commit :: "'t ordmap \<Rightarrow> context_crates \<Rightarrow> hash_id \<Rightarrow> ('t ctx, merkle_error, commit) call" where
  "get_commit M X h =
     bind_call (call_err MDBError (find_commit M X h)) (\<lambda>c.
       case c of None \<Rightarrow> fail (MEntryNotFound h) | Some c \<Rightarrow> ret c)"

definition index_find_tree :: "'t ordmap \<Rightarrow> context_crates \<Rightarrow> hash_id \<Rightarrow> ('t ctx, db_error, 't option) call" where
  "index_find_tree M X h =
     bind_call (find_entry M X h) (\<lambda>e.
       case e of
         Some (ETree tree) \<Rightarrow> ret (Some tree)
       | Some (EBlob _) \<Rightarrow> fail (DBFoundUnexpectedStructure ''tree'' ''blob'')
       | Some (ECommit _) \<Rightarrow> fail (DBFoundUnexpectedStructure ''tree'' ''commit'')
       | None \<Rightarrow> ret None)"

definition index_get_tree :: "'t ordmap \<Rightarrow> context_crates \<Rightarrow> hash_id \<Rightarrow> ('t ctx, merkle_error, 't) call" where
  "index_get_tree M X h =
     bind_call (call_err MDBError (index_find_tree M X h)) (\<lambda>t.
       case t of None \<Rightarrow> fail (MEntryNotFound h) | Some t \<Rightarrow> ret t)"

section \<open>Keys\<close>

fun join_key :: "string list \<Rightarrow> string" where
  "join_key [] = ''''"
| "join_key [k] = k"
| "join_key (k # ks) = k @ ''/'' @ join_key ks"

fun string_to_key :: "string \<Rightarrow> string list" where
  "string_to_key [] = [[]]"
| "string_to_key (c # cs) =
     (if c = CHR ''/'' then [] # string_to_key cs
      else case string_to_key cs of [] \<Rightarrow> [[c]] | k # ks \<Rightarrow> (c # k) # ks)"

definition get_str :: "string \<Rightarrow> ('t ctx, 'e, string) call" where
  \<comment> \<open>\<open>StringInterner::get_str\<close>: short strings are kept\<close>
  "get_str k s = (Ok k, if 30 \<le> length k then s else s\<lparr>cx_strings := insert k (cx_strings s)\<rparr>)"

section \<open>Nodes\<close>

definition get_hash_id :: "'t node \<Rightarrow> (merkle_error, hash_id) res" where
  "get_hash_id n = ok_or (MInvalidState ''Missing entry hash'') (entry_hash_cell n)"

definition set_entry :: "addr \<Rightarrow> 't entry \<Rightarrow> ('t ctx, 'e, unit) call" where
  "set_entry a e = update_node a (\<lambda>n. n\<lparr>entry_cell := Some e\<rparr>)"

definition load_entry :: "'t ordmap \<Rightarrow> context_crates \<Rightarrow> addr \<Rightarrow> 't node \<Rightarrow> ('t ctx, merkle_error, 't entry) call" where
  \<comment> \<open>from the repository, by the hash id of the node\<close>
  "load_entry M X a n =
     bind_call (lift_res (get_hash_id n)) (\<lambda>h.
     bind_call (get_entry M X h) (\<lambda>e.
     bind_call (set_entry a e) (\<lambda>_. ret e)))"

definition node_entry :: "'t ordmap \<Rightarrow> context_crates \<Rightarrow> addr \<Rightarrow> ('t ctx, merkle_error, 't entry) call" where
  "node_entry M X a =
     bind_call (read_node a) (\<lambda>n.
       case entry_cell n of Some e \<Rightarrow> ret e | None \<Rightarrow> load_entry M X a n)"

fun find_raw_tree :: "'t ordmap \<Rightarrow> context_crates \<Rightarrow> string list \<Rightarrow> 't \<Rightarrow> ('t ctx, merkle_error, 't) call" where
  "find_raw_tree M X [] root s = (Ok root, s)"
| "find_raw_tree M X (first # key) root s =
     (case om_get M root first of
        None \<Rightarrow> (Ok (om_new M), s)
      | Some a \<Rightarrow>
          bind_call (read_node a) (\<lambda>n.
          bind_call (case entry_cell n of Some e \<Rightarrow> ret e | None \<Rightarrow> load_entry M X a n) (\<lambda>e.
            case e of
              ETree tree \<Rightarrow> find_raw_tree M X key tree
            | EBlob _ \<Rightarrow> ret (om_new M)
            | ECommit _ \<Rightarrow> fail (MFoundUnexpectedStructure ''Tree/Blob'' ''commit''))) s)"

definition get_from_tree :: "'t ordmap \<Rightarrow> context_crates \<Rightarrow> 't \<Rightarrow> string list \<Rightarrow> ('t ctx, merkle_error, bytes) call" where
  "get_from_tree M X root key =
     (if key = [] then fail MKeyEmpty
      else
        bind_call (find_raw_tree M X (butlast key) root) (\<lambda>tree.
          case om_get M tree (last key) of
            None \<Rightarrow> fail (MValueNotFound (join_key key))
          | Some a \<Rightarrow>
              bind_call (node_entry M X a) (\<lambda>e.
                case e of EBlob blob \<Rightarrow> ret blob | _ \<Rightarrow> fail (MValueIsNotABlob (join_key key)))))"

definition get_history :: "'t ordmap \<Rightarrow> context_crates \<Rightarrow> hash_id \<Rightarrow> string list \<Rightarrow> ('t ctx, merkle_error, bytes) call" where
  "get_history M X commit_hash key =
     bind_call (get_commit M X commit_hash) (\<lambda>c.
     bind_call (index_get_tree M X (root_hash c)) (\<lambda>tree. get_from_tree M X tree key))"

section \<open>Views of a committed context\<close>

text \<open>The recursions into the entries below a directory are bounded by fuel.\<close>

fun key_values_recursively :: "nat \<Rightarrow> 't ordmap \<Rightarrow> context_crates \<Rightarrow> (hash_id \<Rightarrow> ('t ctx, merkle_error, 't entry) call)
    \<Rightarrow> string \<Rightarrow> 't entry \<Rightarrow> (string list \<times> bytes) list \<Rightarrow> ('t ctx, merkle_error, (string list \<times> bytes) list) call" where
  \<comment> \<open>\<open>root_of\<close> reads the root tree of a commit\<close>
  "key_values_recursively 0 M X root_of path e entries s = (Panic, s)"
| "key_values_recursively (Suc fuel) M X root_of path e entries s =
     (case e of
        EBlob blob \<Rightarrow> ret (entries @ [(string_to_key path, blob)])
      | ETree tree \<Rightarrow>
          fold_call (\<lambda>(key, a) entries.
            bind_call (try_call (node_entry M X a)) (\<lambda>r.
              case r of
                Ok e \<Rightarrow> key_values_recursively fuel M X root_of (path @ ''/'' @ key) e entries
              | _ \<Rightarrow> ret entries)) (om_iter M tree) entries
      | ECommit c \<Rightarrow>
          bind_call (root_of (root_hash c)) (\<lambda>e. key_values_recursively fuel M X root_of path e entries)) s"

definition key_values_of_tree :: "nat \<Rightarrow> 't ordmap \<Rightarrow> context_crates \<Rightarrow> (hash_id \<Rightarrow> ('t ctx, merkle_error, 't entry) call)
    \<Rightarrow> 't \<Rightarrow> string list \<Rightarrow> ('t ctx, merkle_error, (string list \<times> bytes) list option) call" where
  "key_values_of_tree fuel M X root_of root_tree prefix =
     bind_call (find_raw_tree M X prefix root_tree) (\<lambda>prefixed_tree.
     bind_call
       (fold_call (\<lambda>(key, a) keyvalues.
          bind_call (node_entry M X a) (\<lambda>e.
            key_values_recursively fuel M X root_of
              (join_key prefix @ (if prefix = [] then '''' else ''/'') @ key) e keyvalues))
          (om_iter M prefixed_tree) [])
       (\<lambda>keyvalues. ret (if keyvalues = [] then None else Some keyvalues)))"

definition get_context_key_values_by_prefix :: "nat \<Rightarrow> 't ordmap \<Rightarrow> context_crates \<Rightarrow> hash_id \<Rightarrow> string list
    \<Rightarrow> ('t ctx, merkle_error, (string list \<times> bytes) list option) call" where
  "get_context_key_values_by_prefix fuel M X context_hash prefix =
     bind_call (get_commit M X context_hash) (\<lambda>c.
     bind_call (index_get_tree M X (root_hash c)) (\<lambda>root_tree.
       key_values_of_tree fuel M X (get_entry M X) root_tree prefix))"

datatype string_tree = STree "(string \<times> string_tree) list" | SBlob string | SNull

fun context_recursive :: "nat \<Rightarrow> 't ordmap \<Rightarrow> context_crates \<Rightarrow> hex_crate \<Rightarrow> 't entry \<Rightarrow> nat option
    \<Rightarrow> ('t ctx, merkle_error, string_tree) call" where
  "context_recursive 0 M X H e depth s = (Panic, s)"
| "context_recursive (Suc fuel) M X H e depth s =
     (if depth = Some 0 then ret SNull
      else
        (case e of
           EBlob blob \<Rightarrow> ret (SBlob (hex_encode H blob))
         | ETree tree \<Rightarrow>
             bind_call
               (fold_call (\<lambda>(key, a) new_tree.
                  bind_call (node_entry M X a) (\<lambda>e.
                  bind_call (context_recursive fuel M X H e (map_option (\<lambda>d. d - 1) depth)) (\<lambda>t.
                    ret (alist_insert key t new_tree)))) (om_iter M tree) [])
               (\<lambda>new_tree. ret (STree new_tree))
         | ECommit _ \<Rightarrow> fail (MFoundUnexpectedStructure ''Tree/Blob'' ''Commit''))) s"

definition get_context_tree_by_prefix :: "nat \<Rightarrow> 't ordmap \<Rightarrow> context_crates \<Rightarrow> hex_crate \<Rightarrow> hash_id \<Rightarrow> string list
    \<Rightarrow> nat option \<Rightarrow> ('t ctx, merkle_error, string_tree) call" where
  "get_context_tree_by_prefix fuel M X H context_hash prefix depth =
     (if depth = Some 0 then ret SNull
      else
        bind_call (get_commit M X context_hash) (\<lambda>c.
        bind_call (index_get_tree M X (root_hash c)) (\<lambda>root_tree.
        bind_call (find_raw_tree M X prefix root_tree) (\<lambda>prefixed_tree.
        bind_call
          (fold_call (\<lambda>(key, a) out.
             bind_call (node_entry M X a) (\<lambda>e.
             bind_call (context_recursive fuel M X H e (map_option (\<lambda>d. d - 1) depth)) (\<lambda>t.
               ret (alist_insert key t out)))) (om_iter M prefixed_tree) [])
          (\<lambda>out. ret (STree out))))))"

end
