(* ===== verification/Working_Tree.thy ===== *)
theory Working_Tree
  imports Tezedge_Index
begin

text \<open>
  \<^verbatim>\<open>WorkingTree\<close> of \<^verbatim>\<open>new_context/src/working_tree/working_tree.rs\<close>: a directory or a value, changed by replacing the
  directories on the path to the change, walked by an iterator, and committed by serializing what is new.
  The index of a working tree is the state \<open>ctx\<close>.
\<close>

section \<open>Values\<close>

datatype 't working_tree = WTree 't | WValue bytes

definition wt_get_value :: "'t working_tree \<Rightarrow> bytes option" where
  "wt_get_value w = (case w of WTree _ \<Rightarrow> None | WValue v \<Rightarrow> Some v)"

definition wt_kind :: "'t working_tree \<Rightarrow> node_kind" where
  "wt_kind w = (case w of WTree _ \<Rightarrow> NonLeaf | WValue _ \<Rightarrow> Leaf)"

definition wt_is_empty :: "'t ordmap \<Rightarrow> 't working_tree \<Rightarrow> bool" where
  "wt_is_empty M w = (case w of WTree tree \<Rightarrow> om_is_empty M tree | WValue _ \<Rightarrow> True)"

definition root_ref :: "'t ordmap \<Rightarrow> 't working_tree \<Rightarrow> 't" where
  "root_ref M w = (case w of WTree tree \<Rightarrow> tree | WValue _ \<Rightarrow> om_new M)"

definition get_non_leaf :: "'t entry \<Rightarrow> 't node" where
  "get_non_leaf e = \<lparr>node_kind = NonLeaf, commited = False, entry_hash_cell = None, entry_cell = Some e\<rparr>"

definition get_leaf :: "'t entry \<Rightarrow> 't node" where
  "get_leaf e = \<lparr>node_kind = Leaf, commited = False, entry_hash_cell = None, entry_cell = Some e\<rparr>"

definition entry_tree :: "'t entry \<Rightarrow> (merkle_error, 't) res" where
  "entry_tree e =
     (case e of
        ETree tree \<Rightarrow> Ok tree
      | EBlob _ \<Rightarrow> Err (MFoundUnexpectedStructure ''tree'' ''blob'')
      | ECommit _ \<Rightarrow> Err (MFoundUnexpectedStructure ''tree'' ''commit''))"

definition entry_value :: "'t entry \<Rightarrow> (merkle_error, bytes) res" where
  "entry_value e =
     (case e of
        EBlob blob \<Rightarrow> Ok blob
      | ETree _ \<Rightarrow> Err (MFoundUnexpectedStructure ''blob'' ''tree'')
      | ECommit _ \<Rightarrow> Err (MFoundUnexpectedStructure ''blob'' ''commit''))"

definition get_entry_from_hash_id :: "'t ordmap \<Rightarrow> context_crates \<Rightarrow> hash_id \<Rightarrow> ('t ctx, merkle_error, 't entry) call" where
  "get_entry_from_hash_id M X h s =
     bind_call (lift_res (map_err MDBError (im_get_value (cx_repo s) h))) (\<lambda>bs.
       case bs of
         None \<Rightarrow> fail (MEntryNotFound h)
       | Some entry_bytes \<Rightarrow>
           bind_call (lift_res (map_err MSerializationError (bincode_deserialize X entry_bytes))) (of_disk M)) s"

section \<open>Reading\<close>

definition find_tree :: "'t ordmap \<Rightarrow> context_crates \<Rightarrow> 't working_tree \<Rightarrow> string list
    \<Rightarrow> ('t ctx, merkle_error, 't working_tree option) call" where
  "find_tree M X w key =
     bind_call (find_raw_tree M X key (root_ref M w)) (\<lambda>tree.
       ret (if om_is_empty M tree then None else Some (WTree tree)))"

definition find :: "'t ordmap \<Rightarrow> context_crates \<Rightarrow> 't working_tree \<Rightarrow> string list
    \<Rightarrow> ('t ctx, merkle_error, bytes option) call" where
  "find M X w key =
     bind_call (try_call (get_from_tree M X (root_ref M w) key)) (\<lambda>r.
       case r of
         Ok v \<Rightarrow> ret (Some v)
       | Err (MValueNotFound _) \<Rightarrow> ret None
       | Err e \<Rightarrow> fail e
       | Panic \<Rightarrow> lift_res Panic)"

definition mem :: "'t ordmap \<Rightarrow> context_crates \<Rightarrow> 't working_tree \<Rightarrow> string list
    \<Rightarrow> ('t ctx, merkle_error, bool) call" where
  "mem M X w key =
     (if key = [] then fail MKeyEmpty
      else
        bind_call (try_call (find_raw_tree M X (butlast key) (root_ref M w))) (\<lambda>r.
          ret (case r of Ok tree \<Rightarrow> om_get M tree (last key) \<noteq> None | _ \<Rightarrow> False)))"

definition mem_tree :: "'t ordmap \<Rightarrow> context_crates \<Rightarrow> 't working_tree \<Rightarrow> string list \<Rightarrow> ('t ctx, 'e, bool) call" where
  "mem_tree M X w key =
     bind_call (try_call (find_raw_tree M X key (root_ref M w))) (\<lambda>r.
       ret (case r of Ok tree \<Rightarrow> \<not> om_is_empty M tree | _ \<Rightarrow> False))"

definition wt_list :: "'t ordmap \<Rightarrow> context_crates \<Rightarrow> 't working_tree \<Rightarrow> nat option \<Rightarrow> nat option \<Rightarrow> string list
    \<Rightarrow> ('t ctx, merkle_error, (string \<times> 't working_tree) list) call" where
  "wt_list M X w offset len key =
     bind_call (find_raw_tree M X key (root_ref M w)) (\<lambda>node.
       let node_length = om_len M node;
           len = min (case len of None \<Rightarrow> node_length | Some n \<Rightarrow> n) node_length;
           offset = (case offset of None \<Rightarrow> 0 | Some n \<Rightarrow> n)
       in fold_call (\<lambda>(key, a) children.
            bind_call (node_entry M X a) (\<lambda>e.
              case e of
                ETree tree \<Rightarrow> ret (children @ [(key, WTree tree)])
              | EBlob v \<Rightarrow> ret (children @ [(key, WValue v)])
              | ECommit _ \<Rightarrow> ret children))
          (take len (drop offset (om_iter M node))) [])"

definition node_tree :: "'t ordmap \<Rightarrow> context_crates \<Rightarrow> addr \<Rightarrow> ('t ctx, merkle_error, 't working_tree) call" where
  "node_tree M X a =
     bind_call (node_entry M X a) (\<lambda>e.
     bind_call (read_node a) (\<lambda>n.
       case node_kind n of
         NonLeaf \<Rightarrow> bind_call (lift_res (entry_tree e)) (\<lambda>tree. ret (WTree tree))
       | Leaf \<Rightarrow> bind_call (lift_res (entry_value e)) (\<lambda>v. ret (WValue v))))"

definition get_key_values_by_prefix :: "nat \<Rightarrow> 't ordmap \<Rightarrow> context_crates \<Rightarrow> hash_id \<Rightarrow> string list
    \<Rightarrow> ('t ctx, merkle_error, (string list \<times> bytes) list option) call" where
  "get_key_values_by_prefix fuel M X context_hash_id prefix =
     bind_call (get_commit M X context_hash_id) (\<lambda>c.
     bind_call (get_entry_from_hash_id M X (root_hash c)) (\<lambda>e.
     bind_call (lift_res (entry_tree e)) (\<lambda>root_tree.
       key_values_of_tree fuel M X (get_entry_from_hash_id M X) root_tree prefix)))"

section \<open>Writing\<close>

fun compute_new_root_with_change :: "'t ordmap \<Rightarrow> context_crates \<Rightarrow> 't working_tree \<Rightarrow> string list \<Rightarrow> 't node option
    \<Rightarrow> ('t ctx, merkle_error, 't entry) call" where
  "compute_new_root_with_change M X w key new_node s =
     (if key = [] then
        (case new_node of
           Some n \<Rightarrow> (ok_or (MInvalidState ''Missing entry value'') (entry_cell n), s)
         | None \<Rightarrow> (Ok (ETree (om_new M)), s))
      else
        bind_call (find_raw_tree M X (butlast key) (root_ref M w)) (\<lambda>tree.
        bind_call
          (case new_node of
             None \<Rightarrow> ret (om_remove M tree (last key))
           | Some n \<Rightarrow>
               bind_call (get_str (last key)) (\<lambda>last_key.
               bind_call (alloc_node n) (\<lambda>a. ret (om_insert M tree last_key a))))
          (\<lambda>tree.
             if om_is_empty M tree then compute_new_root_with_change M X w (butlast key) None
             else compute_new_root_with_change M X w (butlast key) (Some (get_non_leaf (ETree tree))))) s)"

definition add_tree :: "'t ordmap \<Rightarrow> context_crates \<Rightarrow> 't working_tree \<Rightarrow> string list \<Rightarrow> 't working_tree
    \<Rightarrow> ('t ctx, merkle_error, 't working_tree) call" where
  "add_tree M X w key tree =
     bind_call
       (compute_new_root_with_change M X w key
          (Some (case tree of WTree t \<Rightarrow> get_non_leaf (ETree t) | WValue v \<Rightarrow> get_leaf (EBlob v))))
       (\<lambda>e. bind_call (lift_res (entry_tree e)) (\<lambda>tree. ret (WTree tree)))"

definition add :: "'t ordmap \<Rightarrow> context_crates \<Rightarrow> 't working_tree \<Rightarrow> string list \<Rightarrow> bytes
    \<Rightarrow> ('t ctx, merkle_error, 't working_tree) call" where
  "add M X w key value =
     bind_call (compute_new_root_with_change M X w key (Some (get_leaf (EBlob value))))
       (\<lambda>e. bind_call (lift_res (entry_tree e)) (\<lambda>tree. ret (WTree tree)))"

definition delete :: "'t ordmap \<Rightarrow> context_crates \<Rightarrow> 't working_tree \<Rightarrow> string list
    \<Rightarrow> ('t ctx, merkle_error, 't working_tree) call" where
  "delete M X w key =
     bind_call
       (if key = [] then ret (ETree (root_ref M w)) else compute_new_root_with_change M X w key None)
       (\<lambda>e. bind_call (lift_res (entry_tree e)) (\<lambda>tree. ret (WTree tree)))"

definition copy :: "'t ordmap \<Rightarrow> context_crates \<Rightarrow> 't working_tree \<Rightarrow> string list \<Rightarrow> string list
    \<Rightarrow> ('t ctx, merkle_error, 't working_tree option) call" where
  "copy M X w from_key to_key =
     bind_call (try_call (find_raw_tree M X from_key (root_ref M w))) (\<lambda>r.
       case r of
         Ok source_tree \<Rightarrow>
           bind_call (compute_new_root_with_change M X w to_key (Some (get_non_leaf (ETree source_tree))))
             (\<lambda>e. bind_call (lift_res (entry_tree e)) (\<lambda>tree. ret (Some (WTree tree))))
       | Err (MEntryNotFound _) \<Rightarrow> ret None
       | Err e \<Rightarrow> fail e
       | Panic \<Rightarrow> lift_res Panic)"

section \<open>Hashes\<close>

definition root_hash_id :: "nat \<Rightarrow> 't ordmap \<Rightarrow> context_crates \<Rightarrow> 't working_tree \<Rightarrow> ('t ctx, merkle_error, hash_id) call" where
  "root_hash_id fuel M X w =
     call_err MHashingError (hash_tree M X (node_entry_hash (entry_hash_id fuel M X)) (root_ref M w))"

definition wt_hash :: "nat \<Rightarrow> 't ordmap \<Rightarrow> context_crates \<Rightarrow> 't working_tree \<Rightarrow> ('t ctx, merkle_error, entry_hash) call" where
  "wt_hash fuel M X w =
     bind_call (root_hash_id fuel M X w) (\<lambda>h s.
       (res_bind (map_err MDBError (im_get_hash (cx_repo s) h)) (ok_or (MEntryNotFound h)), s))"

definition wt_equal :: "nat \<Rightarrow> 't ordmap \<Rightarrow> context_crates \<Rightarrow> 't working_tree \<Rightarrow> 't working_tree
    \<Rightarrow> ('t ctx, merkle_error, bool) call" where
  "wt_equal fuel M X w other =
     bind_call (wt_hash fuel M X w) (\<lambda>h. bind_call (wt_hash fuel M X other) (\<lambda>h'. ret (h = h')))"

section \<open>Commits\<close>

record serializing_data =
  sd_batch :: "(hash_id \<times> bytes) list"
  sd_older :: "hash_id list"
  sd_commit_to_storage :: bool

definition add_serialized_entry :: "'t ordmap \<Rightarrow> context_crates \<Rightarrow> hash_id \<Rightarrow> 't entry \<Rightarrow> serializing_data
    \<Rightarrow> ('t ctx, merkle_error, serializing_data) call" where
  "add_serialized_entry M X h e data =
     (if sd_commit_to_storage data then
        call_err MSerializationError
          (bind_call (to_disk M e) (\<lambda>d.
           bind_call (lift_res (bincode_serialize X d)) (\<lambda>bs. ret (data\<lparr>sd_batch := sd_batch data @ [(h, bs)]\<rparr>))))
      else ret data)"

definition add_older_entry :: "nat \<Rightarrow> 't ordmap \<Rightarrow> context_crates \<Rightarrow> addr \<Rightarrow> serializing_data
    \<Rightarrow> ('t ctx, merkle_error, serializing_data) call" where
  "add_older_entry fuel M X a data =
     (if sd_commit_to_storage data then
        bind_call (call_err MHashingError (entry_hash_id fuel M X a)) (\<lambda>h.
          ret (data\<lparr>sd_older := sd_older data @ [h]\<rparr>))
      else ret data)"

fun get_entries_recursively :: "nat \<Rightarrow> nat \<Rightarrow> 't ordmap \<Rightarrow> context_crates \<Rightarrow> 't entry \<Rightarrow> hash_id \<Rightarrow> 't option \<Rightarrow> serializing_data
    \<Rightarrow> ('t ctx, merkle_error, serializing_data) call" where
  \<comment> \<open>the first number bounds this recursion, the second the one of \<open>entry_hash_id\<close>\<close>
  "get_entries_recursively 0 hf M X e h root data s = (Panic, s)"
| "get_entries_recursively (Suc fuel) hf M X e h root data s =
     bind_call (add_serialized_entry M X h e data) (\<lambda>data.
       case e of
         EBlob _ \<Rightarrow> ret data
       | ETree tree \<Rightarrow>
           fold_call (\<lambda>(k, a) data.
             bind_call (read_node a) (\<lambda>n.
               if commited n then add_older_entry hf M X a data
               else
                 bind_call (update_node a (\<lambda>n. n\<lparr>commited := True\<rparr>)) (\<lambda>_.
                   case entry_cell n of
                     None \<Rightarrow> ret data
                   | Some e \<Rightarrow>
                       bind_call (call_err MHashingError (entry_hash_id hf M X a)) (\<lambda>h.
                         get_entries_recursively fuel hf M X e h None data))))
             (om_iter M tree) data
       | ECommit c \<Rightarrow>
           bind_call (case root of Some root \<Rightarrow> ret (ETree root) | None \<Rightarrow> get_entry_from_hash_id M X (root_hash c))
             (\<lambda>e. get_entries_recursively fuel hf M X e (root_hash c) None data)) s"

definition prepare_commit :: "nat \<Rightarrow> 't ordmap \<Rightarrow> context_crates \<Rightarrow> 't working_tree \<Rightarrow> u64 \<Rightarrow> string \<Rightarrow> string
    \<Rightarrow> hash_id option \<Rightarrow> bool \<Rightarrow> ('t ctx, merkle_error, hash_id \<times> (hash_id \<times> bytes) list \<times> hash_id list) call" where
  "prepare_commit fuel M X w time author message parent commit_to_storage =
     bind_call (root_hash_id fuel M X w) (\<lambda>root_hash.
       let new_commit = \<lparr>parent_commit_hash = parent, root_hash = root_hash, commit_time = time,
                         commit_author = author, commit_message = message\<rparr>
       in
         bind_call (call_err MHashingError (hash_commit X new_commit)) (\<lambda>commit_hash.
         bind_call
           (get_entries_recursively (Suc (Suc fuel)) fuel M X (ECommit new_commit) commit_hash (Some (root_ref M w))
              \<lparr>sd_batch = [], sd_older = [], sd_commit_to_storage = commit_to_storage\<rparr>)
           (\<lambda>data. ret (commit_hash, sd_batch data, sd_older data))))"

section \<open>The tree walker\<close>

datatype fold_depth = DepthEq int | DepthLt int | DepthLe int | DepthGt int | DepthGe int

definition i64_range :: "int \<Rightarrow> bool" where
  "i64_range n \<longleftrightarrow> - (2 ^ 63) \<le> n \<and> n < 2 ^ 63"

fun should_apply :: "fold_depth \<Rightarrow> int \<Rightarrow> bool" where
  "should_apply (DepthEq n) depth = (depth = n)"
| "should_apply (DepthLt n) depth = (depth < n)"
| "should_apply (DepthLe n) depth = (depth \<le> n)"
| "should_apply (DepthGt n) depth = (n < depth)"
| "should_apply (DepthGe n) depth = (n \<le> depth)"

fun should_continue :: "fold_depth \<Rightarrow> int \<Rightarrow> ('e, bool) res" where
  "should_continue (DepthEq n) depth = Ok (depth < n)"
| "should_continue (DepthLt n) depth = (if i64_range (n - 1) then Ok (depth < n - 1) else Panic)"
| "should_continue (DepthLe n) depth = Ok (depth < n)"
| "should_continue (DepthGt n) depth = Ok True"
| "should_continue (DepthGe n) depth = Ok True"

record 't walker_level =
  wl_key :: "string list"
  wl_root :: "'t working_tree"
  wl_depth :: int
  wl_yield_self :: bool
  wl_children :: "(string \<times> addr) list option"

definition walker_level_new :: "'t ordmap \<Rightarrow> string list \<Rightarrow> 't working_tree \<Rightarrow> int \<Rightarrow> fold_depth option
    \<Rightarrow> ('e, 't walker_level) res" where
  "walker_level_new M key root current_depth depth =
     res_bind (case depth of None \<Rightarrow> Ok True | Some d \<Rightarrow> should_continue d current_depth) (\<lambda>continue.
       Ok \<lparr>wl_key = key, wl_root = root, wl_depth = current_depth,
           wl_yield_self = (case depth of None \<Rightarrow> True | Some d \<Rightarrow> should_apply d current_depth),
           wl_children =
             (if continue then (case root of WTree tree \<Rightarrow> Some (om_iter M tree) | WValue _ \<Rightarrow> None) else None)\<rparr>)"

record 't tree_walker =
  tw_depth :: "fold_depth option"
  tw_stack :: "'t walker_level list" \<comment> \<open>the last level first\<close>

definition tree_walker_new :: "'t ordmap \<Rightarrow> string list \<Rightarrow> 't working_tree \<Rightarrow> fold_depth option \<Rightarrow> ('e, 't tree_walker) res" where
  "tree_walker_new M key root depth =
     res_bind (walker_level_new M key root 0 depth) (\<lambda>l. Ok \<lparr>tw_depth = depth, tw_stack = [l]\<rparr>)"

fun walker_next :: "nat \<Rightarrow> 't ordmap \<Rightarrow> context_crates \<Rightarrow> 't tree_walker
    \<Rightarrow> ('t ctx, merkle_error, (string list \<times> 't working_tree) option \<times> 't tree_walker) call" where
  \<comment> \<open>one unit of fuel for each turn of the loop\<close>
  "walker_next 0 M X w s = (Panic, s)"
| "walker_next (Suc fuel) M X w s =
     (case tw_stack w of
        [] \<Rightarrow> ret (None, w)
      | l # stack \<Rightarrow>
          if wl_yield_self l then
            ret (Some (wl_key l, wl_root l), w\<lparr>tw_stack := l\<lparr>wl_yield_self := False\<rparr> # stack\<rparr>)
          else
            (case wl_children l of
               Some iter \<Rightarrow>
                 if \<not> i64_range (wl_depth l + 1) then lift_res Panic
                 else
                   (case iter of
                      (k, a) # children \<Rightarrow>
                        bind_call (try_call (node_tree M X a)) (\<lambda>r.
                          let rest = l\<lparr>wl_children := Some children\<rparr> # stack in
                          case r of
                            Ok root \<Rightarrow>
                              bind_call
                                (lift_res (walker_level_new M (wl_key l @ [k]) root (wl_depth l + 1) (tw_depth w)))
                                (\<lambda>l'. walker_next fuel M X (w\<lparr>tw_stack := l' # rest\<rparr>))
                          | _ \<Rightarrow> walker_next fuel M X (w\<lparr>tw_stack := rest\<rparr>))
                    | [] \<Rightarrow> walker_next fuel M X (w\<lparr>tw_stack := stack\<rparr>))
             | None \<Rightarrow> walker_next fuel M X (w\<lparr>tw_stack := stack\<rparr>))) s"

definition fold_iter :: "'t ordmap \<Rightarrow> context_crates \<Rightarrow> 't working_tree \<Rightarrow> fold_depth option \<Rightarrow> string list
    \<Rightarrow> ('t ctx, merkle_error, 't tree_walker) call" where
  "fold_iter M X w depth key =
     bind_call (find_tree M X w key) (\<lambda>root.
       case root of
         Some root \<Rightarrow> lift_res (tree_walker_new M [] root depth)
       | None \<Rightarrow> ret \<lparr>tw_depth = None, tw_stack = []\<rparr>)"

end
