(* ===== verification/Tezedge_Context.thy ===== *)
theory Tezedge_Context
  imports Working_Tree
begin

text \<open>
  \<^verbatim>\<open>TezedgeContext\<close> and the \<^verbatim>\<open>IndexApi\<close> of \<^verbatim>\<open>new_context/src/tezedge_context.rs\<close>: a working tree with its parent commit, the
  operations of the protocol and of the shell on it, commit and checkout. The contexts made from one another
  share a generator of tree ids, which is an address of \<open>ss_generators\<close>.
\<close>

section \<open>Contexts\<close>

record 't tezedge_context =
  tc_parent_commit_hash :: "hash_id option"
  tc_tree_id :: nat
  tc_tree_id_generator :: addr
  tc_tree :: "'t working_tree"

record 't session =
  ss_ctx :: "'t ctx"
  ss_generators :: "nat list"

definition in_ctx :: "('t ctx, merkle_error, 'a) call \<Rightarrow> ('t session, context_error, 'a) call" where
  "in_ctx m s = (case m (ss_ctx s) of (r, c) \<Rightarrow> (map_err MerkleStorageError r, s\<lparr>ss_ctx := c\<rparr>))"

definition in_db :: "('t ctx, db_error, 'a) call \<Rightarrow> ('t session, context_error, 'a) call" where
  "in_db m s = (case m (ss_ctx s) of (r, c) \<Rightarrow> (map_err ContextDBError r, s\<lparr>ss_ctx := c\<rparr>))"

definition TREE_ID_MAX :: nat where
  "TREE_ID_MAX = 2 ^ 31 - 1"

definition tree_id_next :: "addr \<Rightarrow> ('t session, 'e, nat) call" where
  "tree_id_next g s =
     (if g < length (ss_generators s) \<and> ss_generators s ! g < TREE_ID_MAX then
        (Ok (ss_generators s ! g + 1), s\<lparr>ss_generators := (ss_generators s)[g := ss_generators s ! g + 1]\<rparr>)
      else (Panic, s))"

definition tree_id_generator_new :: "('t session, 'e, addr) call" where
  "tree_id_generator_new s = (Ok (length (ss_generators s)), s\<lparr>ss_generators := ss_generators s @ [0]\<rparr>)"

definition context_new :: "'t ordmap \<Rightarrow> hash_id option \<Rightarrow> 't working_tree option \<Rightarrow> ('t session, 'e, 't tezedge_context) call" where
  "context_new M parent tree =
     bind_call tree_id_generator_new (\<lambda>g.
     bind_call (tree_id_next g) (\<lambda>tree_id.
       ret \<lparr>tc_parent_commit_hash = parent, tc_tree_id = tree_id, tc_tree_id_generator = g,
            tc_tree = (case tree of Some tree \<Rightarrow> tree | None \<Rightarrow> WTree (om_new M))\<rparr>))"

definition with_tree :: "'t tezedge_context \<Rightarrow> 't working_tree \<Rightarrow> ('t session, 'e, 't tezedge_context) call" where
  "with_tree c tree =
     bind_call (tree_id_next (tc_tree_id_generator c)) (\<lambda>tree_id. ret (c\<lparr>tc_tree_id := tree_id, tc_tree := tree\<rparr>))"

section \<open>Operations of the protocol\<close>

definition context_add :: "'t ordmap \<Rightarrow> context_crates \<Rightarrow> 't tezedge_context \<Rightarrow> string list \<Rightarrow> bytes
    \<Rightarrow> ('t session, context_error, 't tezedge_context) call" where
  "context_add M X c key value = bind_call (in_ctx (add M X (tc_tree c) key value)) (with_tree c)"

definition context_delete :: "'t ordmap \<Rightarrow> context_crates \<Rightarrow> 't tezedge_context \<Rightarrow> string list
    \<Rightarrow> ('t session, context_error, 't tezedge_context) call" where
  "context_delete M X c key = bind_call (in_ctx (delete M X (tc_tree c) key)) (with_tree c)"

definition context_copy :: "'t ordmap \<Rightarrow> context_crates \<Rightarrow> 't tezedge_context \<Rightarrow> string list \<Rightarrow> string list
    \<Rightarrow> ('t session, context_error, 't tezedge_context option) call" where
  "context_copy M X c from_key to_key =
     bind_call (in_ctx (copy M X (tc_tree c) from_key to_key)) (\<lambda>tree.
       case tree of
         None \<Rightarrow> ret None
       | Some tree \<Rightarrow> bind_call (with_tree c tree) (\<lambda>c. ret (Some c)))"

definition context_add_tree :: "'t ordmap \<Rightarrow> context_crates \<Rightarrow> 't tezedge_context \<Rightarrow> string list \<Rightarrow> 't working_tree
    \<Rightarrow> ('t session, context_error, 't tezedge_context) call" where
  "context_add_tree M X c key tree = bind_call (in_ctx (add_tree M X (tc_tree c) key tree)) (with_tree c)"

definition context_empty :: "'t ordmap \<Rightarrow> 't tezedge_context \<Rightarrow> ('t session, 'e, 't tezedge_context) call" where
  "context_empty M c = with_tree c (WTree (om_new M))"

definition context_find :: "'t ordmap \<Rightarrow> context_crates \<Rightarrow> 't tezedge_context \<Rightarrow> string list
    \<Rightarrow> ('t session, context_error, bytes option) call" where
  "context_find M X c key = in_ctx (find M X (tc_tree c) key)"

definition context_mem :: "'t ordmap \<Rightarrow> context_crates \<Rightarrow> 't tezedge_context \<Rightarrow> string list
    \<Rightarrow> ('t session, context_error, bool) call" where
  "context_mem M X c key = in_ctx (mem M X (tc_tree c) key)"

definition context_mem_tree :: "'t ordmap \<Rightarrow> context_crates \<Rightarrow> 't tezedge_context \<Rightarrow> string list
    \<Rightarrow> ('t session, context_error, bool) call" where
  "context_mem_tree M X c key = in_ctx (mem_tree M X (tc_tree c) key)"

definition context_find_tree :: "'t ordmap \<Rightarrow> context_crates \<Rightarrow> 't tezedge_context \<Rightarrow> string list
    \<Rightarrow> ('t session, context_error, 't working_tree option) call" where
  "context_find_tree M X c key = in_ctx (find_tree M X (tc_tree c) key)"

definition context_list :: "'t ordmap \<Rightarrow> context_crates \<Rightarrow> 't tezedge_context \<Rightarrow> nat option \<Rightarrow> nat option \<Rightarrow> string list
    \<Rightarrow> ('t session, context_error, (string \<times> 't working_tree) list) call" where
  "context_list M X c offset len key = in_ctx (wt_list M X (tc_tree c) offset len key)"

definition context_fold_iter :: "'t ordmap \<Rightarrow> context_crates \<Rightarrow> 't tezedge_context \<Rightarrow> fold_depth option \<Rightarrow> string list
    \<Rightarrow> ('t session, context_error, 't tree_walker) call" where
  "context_fold_iter M X c depth key = in_ctx (fold_iter M X (tc_tree c) depth key)"

definition get_merkle_root :: "nat \<Rightarrow> 't ordmap \<Rightarrow> context_crates \<Rightarrow> 't tezedge_context
    \<Rightarrow> ('t session, context_error, entry_hash) call" where
  "get_merkle_root fuel M X c = in_ctx (wt_hash fuel M X (tc_tree c))"

section \<open>Operations of the shell\<close>

definition u64_of_date :: "int \<Rightarrow> (context_error, u64) res" where
  "u64_of_date date = (if date < 0 then Err InvalidCommitDate else Ok (word_of_int date))"

definition get_commit_hash :: "hash_id \<Rightarrow> ('t ctx, context_error, bytes) call" where
  "get_commit_hash commit_hash_id s =
     (res_bind (map_err ContextDBError (im_get_hash (cx_repo s) commit_hash_id)) (\<lambda>hash.
        case hash of
          None \<Rightarrow> Err (MerkleStorageError (MEntryNotFound commit_hash_id))
        | Some hash \<Rightarrow> map_err ContextHashError (try_from_bytes ContextHash hash)), s)"

definition in_shell :: "('t ctx, context_error, 'a) call \<Rightarrow> ('t session, context_error, 'a) call" where
  "in_shell m s = (case m (ss_ctx s) of (r, c) \<Rightarrow> (r, s\<lparr>ss_ctx := c\<rparr>))"

definition commit_context :: "nat \<Rightarrow> 't ordmap \<Rightarrow> context_crates \<Rightarrow> 't tezedge_context \<Rightarrow> string \<Rightarrow> string \<Rightarrow> int
    \<Rightarrow> ('t session, context_error, bytes) call" where
  "commit_context fuel M X c author message date =
     bind_call (lift_res (u64_of_date date)) (\<lambda>date.
     in_shell (
     bind_call (call_err MerkleStorageError
        (prepare_commit fuel M X (tc_tree c) date author message (tc_parent_commit_hash c) True))
       (\<lambda>(commit_hash_id, batch, referenced_older_entries).
     bind_call (call_err ContextDBError (with_repo (write_batch batch))) (\<lambda>_.
     bind_call (call_err ContextDBError (with_repo (put_context_hash X commit_hash_id))) (\<lambda>_.
     bind_call (with_repo (\<lambda>r. (Ok (), im_block_applied referenced_older_entries r))) (\<lambda>_.
       get_commit_hash commit_hash_id))))))"

definition hash_context :: "nat \<Rightarrow> 't ordmap \<Rightarrow> context_crates \<Rightarrow> 't tezedge_context \<Rightarrow> string \<Rightarrow> string \<Rightarrow> int
    \<Rightarrow> ('t session, context_error, bytes) call" where
  "hash_context fuel M X c author message date =
     bind_call (lift_res (u64_of_date date)) (\<lambda>date.
     in_shell (
     bind_call (call_err MerkleStorageError
        (prepare_commit fuel M X (tc_tree c) date author message (tc_parent_commit_hash c) False))
       (\<lambda>(commit_hash_id, batch, referenced_older_entries). get_commit_hash commit_hash_id)))"

definition get_last_commit_hash :: "'t tezedge_context \<Rightarrow> ('t session, context_error, bytes option) call" where
  "get_last_commit_hash c =
     (case tc_parent_commit_hash c of
        None \<Rightarrow> ret None
      | Some h \<Rightarrow> in_db (\<lambda>s. (im_get_value (cx_repo s) h, s)))"

section \<open>The index\<close>

definition context_hash_id :: "context_crates \<Rightarrow> bytes \<Rightarrow> ('t session, 'e, hash_id option) call" where
  "context_hash_id X context_hash s = (Ok (get_context_hash X (cx_repo (ss_ctx s)) context_hash), s)"

definition exists :: "'t ordmap \<Rightarrow> context_crates \<Rightarrow> bytes \<Rightarrow> ('t session, context_error, bool) call" where
  "exists M X context_hash =
     bind_call (context_hash_id X context_hash) (\<lambda>h.
       case h of
         None \<Rightarrow> ret False
       | Some h \<Rightarrow> bind_call (in_db (find_entry M X h)) (\<lambda>e. ret (case e of Some (ECommit _) \<Rightarrow> True | _ \<Rightarrow> False)))"

definition checkout :: "'t ordmap \<Rightarrow> context_crates \<Rightarrow> bytes \<Rightarrow> ('t session, context_error, 't tezedge_context option) call" where
  "checkout M X context_hash =
     bind_call (context_hash_id X context_hash) (\<lambda>h.
       case h of
         None \<Rightarrow> ret None
       | Some h \<Rightarrow>
           bind_call (in_db (find_commit M X h)) (\<lambda>c.
             case c of
               None \<Rightarrow> ret None
             | Some c \<Rightarrow>
                 bind_call (in_db (index_find_tree M X (root_hash c))) (\<lambda>tree.
                   case tree of
                     None \<Rightarrow> ret None
                   | Some tree \<Rightarrow>
                       bind_call (context_new M (Some h) (Some (WTree tree))) (\<lambda>c. ret (Some c)))))"

definition block_applied :: "hash_id list \<Rightarrow> ('t session, context_error, unit) call" where
  "block_applied older = in_shell (with_repo (\<lambda>r. (Ok (), im_block_applied older r)))"

definition cycle_started :: "('t session, context_error, unit) call" where
  "cycle_started = in_shell (with_repo (\<lambda>r. (Ok (), new_cycle_started r)))"

definition unknown_context_hash :: "'st sodium \<Rightarrow> base58 \<Rightarrow> bytes \<Rightarrow> ('t session, context_error, 'a) call" where
  "unknown_context_hash S B context_hash =
     bind_call (lift_res (unwrap (to_base58_check S B ContextHash context_hash)))
       (\<lambda>text. fail (UnknownContextHashError text))"

definition get_key_from_history :: "'st sodium \<Rightarrow> base58 \<Rightarrow> 't ordmap \<Rightarrow> context_crates \<Rightarrow> bytes \<Rightarrow> string list
    \<Rightarrow> ('t session, context_error, bytes option) call" where
  "get_key_from_history S B M X context_hash key =
     bind_call (context_hash_id X context_hash) (\<lambda>h.
       case h of
         None \<Rightarrow> unknown_context_hash S B context_hash
       | Some h \<Rightarrow>
           bind_call (in_shell (try_call (get_history M X h key))) (\<lambda>r.
             case r of
               Err (MValueNotFound _) \<Rightarrow> ret None
             | Err (MEntryNotFound _) \<Rightarrow> ret None
             | Err e \<Rightarrow> fail (MerkleStorageError e)
             | Ok v \<Rightarrow> ret (Some v)
             | Panic \<Rightarrow> lift_res Panic))"

definition index_key_values_by_prefix :: "nat \<Rightarrow> 'st sodium \<Rightarrow> base58 \<Rightarrow> 't ordmap \<Rightarrow> context_crates \<Rightarrow> bytes \<Rightarrow> string list
    \<Rightarrow> ('t session, context_error, (string list \<times> bytes) list option) call" where
  "index_key_values_by_prefix fuel S B M X context_hash prefix =
     bind_call (context_hash_id X context_hash) (\<lambda>h.
       case h of
         None \<Rightarrow> unknown_context_hash S B context_hash
       | Some h \<Rightarrow>
           bind_call (checkout M X context_hash) (\<lambda>c.
             case c of
               None \<Rightarrow> ret None
             | Some c \<Rightarrow> in_ctx (get_key_values_by_prefix fuel M X h prefix)))"

definition index_context_tree_by_prefix :: "nat \<Rightarrow> 'st sodium \<Rightarrow> base58 \<Rightarrow> hex_crate \<Rightarrow> 't ordmap \<Rightarrow> context_crates \<Rightarrow> bytes
    \<Rightarrow> string list \<Rightarrow> nat option \<Rightarrow> ('t session, context_error, string_tree) call" where
  "index_context_tree_by_prefix fuel S B H M X context_hash prefix depth =
     bind_call (context_hash_id X context_hash) (\<lambda>h.
       case h of
         None \<Rightarrow> unknown_context_hash S B context_hash
       | Some h \<Rightarrow> in_ctx (get_context_tree_by_prefix fuel M X H h prefix depth))"

end
