(* ===== verification/Context_Rep.thy ===== *)
theory Context_Rep
  imports Tezedge_Context
begin

text \<open>
  What a context means: an abstract tree of directories and values. The relation \<open>rep_node\<close> says which tree a node of
  the heap stands for, whether its entry is in memory or only in the repository, together with what its
  cells promise: a known hash is the hash of the tree, and a committed node can be read from the
  repository.
\<close>

section \<open>Abstract trees\<close>

datatype atree = ABlob bytes | ADir "(string \<times> atree) list"

type_synonym adir = "(string \<times> atree) list"

fun akind :: "atree \<Rightarrow> node_kind" where
  "akind (ABlob _) = Leaf"
| "akind (ADir _) = NonLeaf"

fun adepth :: "atree \<Rightarrow> nat" where
  "adepth (ABlob _) = 0"
| "adepth (ADir es) = Suc (Max (insert 0 ((\<lambda>p. adepth (snd p)) ` set es)))"

section \<open>The hash of a tree\<close>

type_synonym hashed_entry = "string \<times> node_kind \<times> bytes"

definition short_prehash :: "context_crates \<Rightarrow> hashed_entry list \<Rightarrow> bytes" where
  "short_prehash X es =
     be_bytes 8 (length es) @
     concat (map (\<lambda>(k, kind, hash). encode_irmin_node_kind kind @ leb128_len X (length k) @ str_bytes k
       @ be_bytes 8 ENTRY_HASH_LEN @ hash) es)"

definition value_prehash :: "context_crates \<Rightarrow> hashed_entry list \<Rightarrow> bytes" where
  "value_prehash X es =
     [0, word_of_nat (length es)] @
     concat (map (\<lambda>(k, kind, hash). leb128_len X (length k) @ str_bytes k @ inode_value_kind kind @ hash) es)"

definition tree_prehash :: "context_crates \<Rightarrow> nat \<Rightarrow> nat \<Rightarrow> (nat \<times> bytes) list \<Rightarrow> bytes" where
  "tree_prehash X depth children pointers =
     [1] @ leb128_len X depth @ leb128_len X children @ [word_of_nat (length pointers)] @
     concat (map (\<lambda>(i, hash). [word_of_nat i] @ hash) pointers)"

abbreviation blake :: "context_crates \<Rightarrow> bytes \<Rightarrow> bytes option" where
  "blake X bs \<equiv> var_blake2b X ENTRY_HASH_LEN bs"

function (sequential) inode_hash :: "context_crates \<Rightarrow> nat \<Rightarrow> hashed_entry list \<Rightarrow> bytes option"
  and inode_pointers :: "context_crates \<Rightarrow> nat \<Rightarrow> hashed_entry list \<Rightarrow> nat \<Rightarrow> (nat \<times> bytes) list option" where
  "inode_hash X depth es =
     (if length es \<le> 32 then blake X (value_prehash X es)
      else
        (case inode_pointers X depth es 0 of
           None \<Rightarrow> None
         | Some pointers \<Rightarrow> blake X (tree_prehash X depth (length es) pointers)))"
| "inode_pointers X depth es i =
     (if 31 < i then Some []
      else if 2 ^ 32 \<le> depth + 1 then None
      else
        let sub = filter (\<lambda>e. inode_index depth (fst e) = i) es in
        if sub = [] then inode_pointers X depth es (i + 1)
        else
          (case inode_hash X (depth + 1) sub of
             None \<Rightarrow> None
           | Some hash \<Rightarrow> map_option (\<lambda>ps. (i, hash) # ps) (inode_pointers X depth es (i + 1))))"
  by pat_completeness auto

termination
  by (relation "measures [\<lambda>x. case x of Inl (X, depth, es) \<Rightarrow> 2 ^ 32 - depth
        | Inr (X, depth, es, i) \<Rightarrow> 2 ^ 32 - depth,
      \<lambda>x. case x of Inl _ \<Rightarrow> 33 | Inr (X, depth, es, i) \<Rightarrow> 32 - i]") auto

declare inode_hash.simps [simp del] inode_pointers.simps [simp del]

definition dir_hash :: "context_crates \<Rightarrow> hashed_entry list \<Rightarrow> bytes option" where
  "dir_hash X es = (if 256 < length es then inode_hash X 0 es else blake X (short_prehash X es))"

fun ahash :: "context_crates \<Rightarrow> atree \<Rightarrow> bytes option" where
  "ahash X (ABlob b) = blake X (be_bytes 8 (length b) @ b)"
| "ahash X (ADir es) =
     (if \<exists>p \<in> set es. ahash X (snd p) = None then None
      else dir_hash X (map (\<lambda>p. (fst p, akind (snd p), the (ahash X (snd p)))) es))"

declare ahash.simps [simp del]

section \<open>Abstract operations\<close>

fun adir_at :: "string list \<Rightarrow> adir \<Rightarrow> adir" where
  "adir_at [] es = es"
| "adir_at (k # ks) es = (case map_of es k of Some (ADir es') \<Rightarrow> adir_at ks es' | _ \<Rightarrow> [])"

fun aput :: "string list \<Rightarrow> atree option \<Rightarrow> adir \<Rightarrow> adir" where
  "aput [] x es = (case x of Some (ADir es') \<Rightarrow> es' | _ \<Rightarrow> [])"
| "aput [k] x es = (case x of Some t \<Rightarrow> alist_insert k t es | None \<Rightarrow> alist_remove k es)"
| "aput (k # ks) x es =
     (let sub = aput ks x (adir_at [k] es)
      in if sub = [] then alist_remove k es else alist_insert k (ADir sub) es)"

text \<open>The values of a directory by path.\<close>

fun avalue :: "adir \<Rightarrow> string list \<Rightarrow> bytes option" where
  "avalue es [] = None"
| "avalue es [k] = (case map_of es k of Some (ABlob b) \<Rightarrow> Some b | _ \<Rightarrow> None)"
| "avalue es (k # ks) = (case map_of es k of Some (ADir es') \<Rightarrow> avalue es' ks | _ \<Rightarrow> None)"

section \<open>The store and the heap\<close>

definition st_value :: "'t ctx \<Rightarrow> hash_id \<Rightarrow> bytes option" where
  "st_value s h = (case im_get_value (cx_repo s) h of Ok (Some v) \<Rightarrow> Some v | _ \<Rightarrow> None)"

definition st_hash :: "'t ctx \<Rightarrow> hash_id \<Rightarrow> bytes option" where
  "st_hash s h = (case im_get_hash (cx_repo s) h of Ok (Some v) \<Rightarrow> Some v | _ \<Rightarrow> None)"

definition has_hash :: "context_crates \<Rightarrow> (hash_id \<rightharpoonup> bytes) \<Rightarrow> hash_id \<Rightarrow> atree \<Rightarrow> bool" where
  "has_hash X D h t \<longleftrightarrow> ahash X t \<noteq> None \<and> D h = ahash X t"

inductive stored :: "context_crates \<Rightarrow> (hash_id \<rightharpoonup> bytes) \<Rightarrow> (hash_id \<rightharpoonup> bytes) \<Rightarrow> hash_id \<Rightarrow> atree \<Rightarrow> bool" for X V D where
  stored_blob: "V h = Some bs \<Longrightarrow> bincode_deserialize X bs = Ok (DBlob b) \<Longrightarrow> has_hash X D h (ABlob b)
    \<Longrightarrow> stored X V D h (ABlob b)"
| stored_dir: "V h = Some bs \<Longrightarrow> bincode_deserialize X bs = Ok (DTree es) \<Longrightarrow> keys_sorted es \<Longrightarrow> has_hash X D h (ADir ts)
    \<Longrightarrow> list_all2 (\<lambda>p q. fst p = fst q \<and> fst (snd p) = akind (snd q) \<and> stored X V D (snd (snd p)) (snd q)) es ts
    \<Longrightarrow> stored X V D h (ADir ts)"

definition cells_ok :: "context_crates \<Rightarrow> (hash_id \<rightharpoonup> bytes) \<Rightarrow> (hash_id \<rightharpoonup> bytes) \<Rightarrow> 't node \<Rightarrow> atree \<Rightarrow> bool" where
  "cells_ok X V D n t \<longleftrightarrow>
     node_kind n = akind t
     \<and> (\<forall>h. entry_hash_cell n = Some h \<longrightarrow> has_hash X D h t)
     \<and> (commited n \<longrightarrow> (\<exists>h. entry_hash_cell n = Some h \<and> stored X V D h t))"

inductive rep_node :: "'t ordmap \<Rightarrow> context_crates \<Rightarrow> (hash_id \<rightharpoonup> bytes) \<Rightarrow> (hash_id \<rightharpoonup> bytes) \<Rightarrow> 't node list \<Rightarrow> addr \<Rightarrow> atree \<Rightarrow> bool"
  for M X V D hp where
  rep_blob: "a < length hp \<Longrightarrow> entry_cell (hp ! a) = Some (EBlob b) \<Longrightarrow> cells_ok X V D (hp ! a) (ABlob b)
    \<Longrightarrow> rep_node M X V D hp a (ABlob b)"
| rep_dir: "a < length hp \<Longrightarrow> entry_cell (hp ! a) = Some (ETree tree) \<Longrightarrow> cells_ok X V D (hp ! a) (ADir ts)
    \<Longrightarrow> list_all2 (\<lambda>p q. fst p = fst q \<and> rep_node M X V D hp (snd p) (snd q)) (om_iter M tree) ts
    \<Longrightarrow> rep_node M X V D hp a (ADir ts)"
| rep_disk: "a < length hp \<Longrightarrow> entry_cell (hp ! a) = None \<Longrightarrow> entry_hash_cell (hp ! a) = Some h \<Longrightarrow> commited (hp ! a)
    \<Longrightarrow> node_kind (hp ! a) = akind t \<Longrightarrow> stored X V D h t \<Longrightarrow> rep_node M X V D hp a t"

definition rep_tree :: "'t ordmap \<Rightarrow> context_crates \<Rightarrow> (hash_id \<rightharpoonup> bytes) \<Rightarrow> (hash_id \<rightharpoonup> bytes) \<Rightarrow> 't node list \<Rightarrow> 't \<Rightarrow> adir \<Rightarrow> bool" where
  "rep_tree M X V D hp tree ts \<longleftrightarrow>
     list_all2 (\<lambda>p q. fst p = fst q \<and> rep_node M X V D hp (snd p) (snd q)) (om_iter M tree) ts"

fun rep_entry :: "'t ordmap \<Rightarrow> context_crates \<Rightarrow> (hash_id \<rightharpoonup> bytes) \<Rightarrow> (hash_id \<rightharpoonup> bytes) \<Rightarrow> 't node list \<Rightarrow> 't entry \<Rightarrow> atree \<Rightarrow> bool" where
  "rep_entry M X V D hp (EBlob b) t \<longleftrightarrow> t = ABlob b"
| "rep_entry M X V D hp (ETree tree) t \<longleftrightarrow> (\<exists>ts. t = ADir ts \<and> rep_tree M X V D hp tree ts)"
| "rep_entry M X V D hp (ECommit c) t \<longleftrightarrow> False"

inductive_cases stored_blobE: "stored X V D h (ABlob b)"
inductive_cases stored_dirE: "stored X V D h (ADir ts)"

section \<open>Facts about the relations\<close>

lemma has_hash_mono: "has_hash X D h t \<Longrightarrow> D \<subseteq>\<^sub>m D' \<Longrightarrow> has_hash X D' h t"
  by (metis domI has_hash_def map_le_def not_Some_eq)

lemma map_le_Some: "V \<subseteq>\<^sub>m V' \<Longrightarrow> V h = Some v \<Longrightarrow> V' h = Some v"
  by (metis domI map_le_def)

lemma stored_mono:
  assumes "stored X V D h t" and "V \<subseteq>\<^sub>m V'" and "D \<subseteq>\<^sub>m D'"
  shows "stored X V' D' h t"
  using assms(1)
proof (induction rule: stored.induct)
  case (stored_blob h bs b)
  then show ?case
    using map_le_Some [OF assms(2)] has_hash_mono [OF _ assms(3)] by (blast intro: stored.stored_blob)
next
  case (stored_dir h bs es ts)
  from stored_dir.IH have "list_all2 (\<lambda>p q. fst p = fst q \<and> fst (snd p) = akind (snd q)
      \<and> stored X V' D' (snd (snd p)) (snd q)) es ts"
    by (rule list_all2_mono) simp
  with stored_dir.hyps show ?case
    using map_le_Some [OF assms(2)] has_hash_mono [OF _ assms(3)] by (blast intro: stored.stored_dir)
qed

lemma stored_hash: "stored X V D h t \<Longrightarrow> has_hash X D h t"
  by (erule stored.cases) simp_all

lemma list_all2_unique:
  "list_all2 P xs ys \<Longrightarrow> list_all2 Q xs zs \<Longrightarrow> (\<And>x y z. x \<in> set xs \<Longrightarrow> P x y \<Longrightarrow> Q x z \<Longrightarrow> y = z) \<Longrightarrow> ys = zs"
proof (induction xs ys arbitrary: zs rule: list_all2_induct)
  case (Cons x xs y ys)
  from Cons.prems(1) obtain z zs' where zs: "zs = z # zs'" "Q x z" "list_all2 Q xs zs'"
    by (auto simp: list_all2_Cons1)
  have "y = z" using Cons.prems(2) [OF _ Cons.hyps(1) zs(2)] by simp
  moreover have "ys = zs'" by (rule Cons.IH [OF zs(3)]) (rule Cons.prems(2), simp_all)
  ultimately show ?case using zs(1) by simp
qed simp

lemma stored_unique: "stored X V D h t \<Longrightarrow> stored X V D h t' \<Longrightarrow> t = t'"
proof (induction arbitrary: t' rule: stored.induct)
  case (stored_blob h bs b)
  from stored_blob.prems show ?case using stored_blob.hyps by cases auto
next
  case (stored_dir h bs es ts)
  from stored_dir.prems obtain ts' where t': "t' = ADir ts'"
    "list_all2 (\<lambda>p q. fst p = fst q \<and> fst (snd p) = akind (snd q) \<and> stored X V D (snd (snd p)) (snd q)) es ts'"
    using stored_dir.hyps(1,2) by cases auto
  have "ts = ts'"
    by (rule list_all2_unique [OF stored_dir.IH t'(2)]) (simp add: prod_eq_iff)
  with t'(1) show ?case by simp
qed

lemma cells_ok_mono:
  assumes "cells_ok X V D n t" and "V \<subseteq>\<^sub>m V'" and "D \<subseteq>\<^sub>m D'"
  shows "cells_ok X V' D' n t"
  using assms(1) stored_mono [OF _ assms(2,3)] has_hash_mono [OF _ assms(3)] by (force simp: cells_ok_def)

lemma rep_node_facts:
  assumes "rep_node M X V D hp a t"
  shows "a < length hp" "cells_ok X V D (hp ! a) t"
proof -
  show "a < length hp" using assms by cases
  show "cells_ok X V D (hp ! a) t"
    using assms by cases (simp_all add: cells_ok_def stored_hash)
qed

lemma rep_node_entry:
  "rep_node M X V D hp a t \<longleftrightarrow>
     a < length hp \<and> cells_ok X V D (hp ! a) t
     \<and> (case entry_cell (hp ! a) of
          Some e \<Rightarrow> rep_entry M X V D hp e t
        | None \<Rightarrow> commited (hp ! a))"
proof (intro iffI conjI)
  assume r: "rep_node M X V D hp a t"
  show "a < length hp" "cells_ok X V D (hp ! a) t" using rep_node_facts [OF r] by auto
  show "case entry_cell (hp ! a) of Some e \<Rightarrow> rep_entry M X V D hp e t | None \<Rightarrow> commited (hp ! a)"
    using r by (cases rule: rep_node.cases) (auto simp: rep_tree_def)
next
  assume a: "a < length hp \<and> cells_ok X V D (hp ! a) t
     \<and> (case entry_cell (hp ! a) of Some e \<Rightarrow> rep_entry M X V D hp e t | None \<Rightarrow> commited (hp ! a))"
  show "rep_node M X V D hp a t"
  proof (cases "entry_cell (hp ! a)")
    case None
    with a show ?thesis by (auto simp: cells_ok_def intro: rep_disk)
  next
    case (Some e)
    with a show ?thesis by (cases e) (auto simp: rep_tree_def intro: rep_blob rep_dir)
  qed
qed

lemma rep_node_unique: "rep_node M X V D hp a t \<Longrightarrow> rep_node M X V D hp a t' \<Longrightarrow> t = t'"
proof (induction arbitrary: t' rule: rep_node.induct)
  case (rep_blob a b)
  then show ?case by (auto simp: rep_node_entry [of M X V D hp a t'])
next
  case (rep_dir a tree ts)
  from rep_dir.prems rep_dir.hyps(2) obtain ts' where t': "t' = ADir ts'"
    "list_all2 (\<lambda>p q. fst p = fst q \<and> rep_node M X V D hp (snd p) (snd q)) (om_iter M tree) ts'"
    by (auto simp: rep_node_entry [of M X V D hp a t'] rep_tree_def)
  have "ts = ts'"
    by (rule list_all2_unique [OF rep_dir.IH t'(2)]) (simp add: prod_eq_iff)
  with t'(1) show ?case by simp
next
  case (rep_disk a h t)
  then show ?case using stored_unique by (fastforce simp: rep_node_entry [of M X V D hp a t'] cells_ok_def)
qed

text \<open>
  A change of the heap and the store keeps what every node stands for, if it keeps the promises of the cells
  and fills an empty entry cell only with an entry that stands for the same tree.
\<close>

lemma rep_ext:
  assumes "rep_node M X V D hp a t" and "V \<subseteq>\<^sub>m V'" and "D \<subseteq>\<^sub>m D'" and "length hp \<le> length hp'"
    and upd: "\<And>a t. a < length hp \<Longrightarrow> rep_node M X V D hp a t \<Longrightarrow>
      cells_ok X V' D' (hp' ! a) t
      \<and> (entry_cell (hp' ! a) = entry_cell (hp ! a) \<and> (commited (hp ! a) \<longrightarrow> commited (hp' ! a))
         \<or> entry_cell (hp ! a) = None \<and> (\<exists>e. entry_cell (hp' ! a) = Some e \<and> rep_entry M X V' D' hp' e t))"
  shows "rep_node M X V' D' hp' a t"
  using assms(1)
proof (induction rule: rep_node.induct)
  case (rep_blob a b)
  then show ?case
    using upd [OF _ rep_node.rep_blob [OF rep_blob]] assms(4) by (auto simp: rep_node_entry [of M X V' D' hp' a])
next
  case (rep_dir a tree ts)
  have all: "list_all2 (\<lambda>p q. fst p = fst q \<and> rep_node M X V D hp (snd p) (snd q)) (om_iter M tree) ts"
    "list_all2 (\<lambda>p q. fst p = fst q \<and> rep_node M X V' D' hp' (snd p) (snd q)) (om_iter M tree) ts"
    using rep_dir.IH by (auto elim!: list_all2_mono)
  then show ?case
    using upd [OF _ rep_node.rep_dir [OF rep_dir.hyps all(1)]] assms(4) rep_dir.hyps
    by (auto simp: rep_node_entry [of M X V' D' hp' a] rep_tree_def)
next
  case (rep_disk a h t)
  then show ?case
    using upd [OF _ rep_node.rep_disk [OF rep_disk]] assms(4) by (auto simp: rep_node_entry [of M X V' D' hp' a])
qed

end
