(* ===== verification/Context_Lookup.thy ===== *)
theory Context_Lookup
  imports Context_Rep
begin

text \<open>
  Lookups in a context: the invariant of the state, a small logic for calls that keep it and keep what every
  node stands for, and the refinement of the lookups of \<^verbatim>\<open>TezedgeIndex\<close>.
\<close>

section \<open>The invariant\<close>

abbreviation st_rep :: "'t ordmap \<Rightarrow> context_crates \<Rightarrow> 't ctx \<Rightarrow> addr \<Rightarrow> atree \<Rightarrow> bool" where
  "st_rep M X s \<equiv> rep_node M X (st_value s) (st_hash s) (cx_heap s)"

abbreviation st_tree :: "'t ordmap \<Rightarrow> context_crates \<Rightarrow> 't ctx \<Rightarrow> 't \<Rightarrow> adir \<Rightarrow> bool" where
  "st_tree M X s \<equiv> rep_tree M X (st_value s) (st_hash s) (cx_heap s)"

abbreviation st_entry :: "'t ordmap \<Rightarrow> context_crates \<Rightarrow> 't ctx \<Rightarrow> 't entry \<Rightarrow> atree \<Rightarrow> bool" where
  "st_entry M X s \<equiv> rep_entry M X (st_value s) (st_hash s) (cx_heap s)"

abbreviation st_stored :: "context_crates \<Rightarrow> 't ctx \<Rightarrow> hash_id \<Rightarrow> atree \<Rightarrow> bool" where
  "st_stored X s \<equiv> stored X (st_value s) (st_hash s)"

abbreviation hv :: "'t ctx \<Rightarrow> hash_value_store" where
  "hv s \<equiv> im_hashes (cx_repo s)"

definition no_free_ids :: "hash_value_store \<Rightarrow> bool" where
  "no_free_ids s \<longleftrightarrow> (case hv_free_ids s of None \<Rightarrow> True | Some q \<Rightarrow> \<exists>e. pop q = Err e)"

definition wf_store :: "'t ctx \<Rightarrow> bool" where
  "wf_store s \<longleftrightarrow> length (hv_values (hv s)) \<le> length (hv_hashes (hv s)) \<and> no_free_ids (hv s)"

definition wf_id :: "'t ctx \<Rightarrow> hash_id \<Rightarrow> bool" where
  "wf_id s h \<longleftrightarrow> h \<noteq> 0 \<and> unat h \<le> length (hv_hashes (hv s))"

definition wf_node :: "'t ordmap \<Rightarrow> 't ctx \<Rightarrow> addr \<Rightarrow> bool" where
  "wf_node M s a \<longleftrightarrow>
     (let n = cx_heap s ! a in
      (\<forall>h. entry_hash_cell n = Some h \<longrightarrow> wf_id s h)
      \<and> (\<forall>h. entry_hash_cell n = Some h \<longrightarrow> \<not> commited n \<longrightarrow> st_value s h = None
          \<and> (\<forall>b < length (cx_heap s). b \<noteq> a \<longrightarrow> \<not> commited (cx_heap s ! b) \<longrightarrow> entry_hash_cell (cx_heap s ! b) \<noteq> Some h))
      \<and> (\<forall>tree. entry_cell n = Some (ETree tree) \<longrightarrow> (\<forall>p \<in> set (om_iter M tree). snd p < length (cx_heap s)
          \<and> (entry_hash_cell n \<noteq> None \<longrightarrow> entry_hash_cell (cx_heap s ! snd p) \<noteq> None))))"

definition wf_ctx :: "'t ordmap \<Rightarrow> 't ctx \<Rightarrow> bool" where
  "wf_ctx M s \<longleftrightarrow> wf_store s \<and> (\<forall>a < length (cx_heap s). wf_node M s a)"

definition ext :: "'t ordmap \<Rightarrow> context_crates \<Rightarrow> 't ctx \<Rightarrow> 't ctx \<Rightarrow> bool" where
  "ext M X s s' \<longleftrightarrow>
     st_value s \<subseteq>\<^sub>m st_value s' \<and> st_hash s \<subseteq>\<^sub>m st_hash s' \<and> length (cx_heap s) \<le> length (cx_heap s')
     \<and> (\<forall>a t. st_rep M X s a t \<longrightarrow> st_rep M X s' a t)"

lemma ext_refl [simp]: "ext M X s s"
  by (simp add: ext_def)

lemma ext_trans: "ext M X s s' \<Longrightarrow> ext M X s' s'' \<Longrightarrow> ext M X s s''"
  by (auto simp: ext_def intro: map_le_trans)

lemma ext_rep: "ext M X s s' \<Longrightarrow> st_rep M X s a t \<Longrightarrow> st_rep M X s' a t"
  by (simp add: ext_def)

lemma ext_tree: "ext M X s s' \<Longrightarrow> st_tree M X s tree ts \<Longrightarrow> st_tree M X s' tree ts"
  unfolding rep_tree_def by (erule list_all2_mono) (simp add: ext_rep)

lemma ext_entry: "ext M X s s' \<Longrightarrow> st_entry M X s e t \<Longrightarrow> st_entry M X s' e t"
  by (cases e) (auto intro: ext_tree)

lemma ext_stored: "ext M X s s' \<Longrightarrow> st_stored X s h t \<Longrightarrow> st_stored X s' h t"
  by (auto simp: ext_def intro: stored_mono)

lemma ext_hash: "ext M X s s' \<Longrightarrow> has_hash X (st_hash s) h t \<Longrightarrow> has_hash X (st_hash s') h t"
  by (auto simp: ext_def intro: has_hash_mono)

lemmas ext_keeps = ext_rep ext_tree ext_entry ext_stored ext_hash

section \<open>Calls\<close>

definition run :: "'t ordmap \<Rightarrow> context_crates \<Rightarrow> 't ctx \<Rightarrow> ('t ctx, 'e, 'a) call \<Rightarrow> ('a \<Rightarrow> 't ctx \<Rightarrow> bool) \<Rightarrow> ('e \<Rightarrow> 't ctx \<Rightarrow> bool) \<Rightarrow> bool" where
  "run M X s m Q E \<longleftrightarrow>
     (case m s of
        (Ok r, s') \<Rightarrow> ext M X s s' \<and> wf_ctx M s' \<and> Q r s'
      | (Err e, s') \<Rightarrow> ext M X s s' \<and> wf_ctx M s' \<and> E e s'
      | (Panic, s') \<Rightarrow> False)"

lemma run_Ok: "m s = (Ok r, s') \<Longrightarrow> ext M X s s' \<Longrightarrow> wf_ctx M s' \<Longrightarrow> Q r s' \<Longrightarrow> run M X s m Q E"
  by (simp add: run_def)

lemma run_ret: "wf_ctx M s \<Longrightarrow> Q r s \<Longrightarrow> run M X s (ret r) Q E"
  by (simp add: run_def)

lemma run_fail: "wf_ctx M s \<Longrightarrow> E e s \<Longrightarrow> run M X s (fail e) Q E"
  by (simp add: run_def)

lemma run_lift: "wf_ctx M s \<Longrightarrow> r = Ok a \<Longrightarrow> Q a s \<Longrightarrow> run M X s (lift_res r) Q E"
  by (simp add: run_def)

lemma run_bind:
  assumes "run M X s m Q E" and "\<And>r s'. ext M X s s' \<Longrightarrow> wf_ctx M s' \<Longrightarrow> Q r s' \<Longrightarrow> run M X s' (f r) R E"
  shows "run M X s (bind_call m f) R E"
proof (cases "m s")
  case (Pair r s')
  show ?thesis
  proof (cases r)
    case (Ok a)
    with assms(1) Pair have "ext M X s s'" "wf_ctx M s'" "Q a s'" by (simp_all add: run_def)
    moreover from assms(2) [OF this] Ok Pair have "run M X s' (f a) R E" by simp
    ultimately show ?thesis
      using Ok Pair ext_trans [of M X s s'] by (auto simp: run_def bind_call_def split: prod.splits res.splits)
  qed (use assms(1) Pair in \<open>simp_all add: run_def bind_call_def\<close>)
qed

lemma run_weaken: "run M X s m Q E \<Longrightarrow> (\<And>r s'. ext M X s s' \<Longrightarrow> wf_ctx M s' \<Longrightarrow> Q r s' \<Longrightarrow> R r s') \<Longrightarrow> (\<And>e s'. E e s' \<Longrightarrow> F e s') \<Longrightarrow> run M X s m R F"
  by (auto simp: run_def split: prod.splits res.splits)

lemma run_call_err:
  "run M X s m Q (\<lambda>e. E (g e)) \<Longrightarrow> run M X s (call_err g m) Q E"
  by (auto simp: run_def call_err_def split: prod.splits res.splits)

lemma run_fold:
  assumes "wf_ctx M s" and "I [] b s"
    and "\<And>ys x zs b s1. xs = ys @ x # zs \<Longrightarrow> ext M X s s1 \<Longrightarrow> wf_ctx M s1 \<Longrightarrow> I ys b s1 \<Longrightarrow> run M X s1 (f x b) (I (ys @ [x])) E"
  shows "run M X s (fold_call f xs b) (I xs) E"
proof -
  have "run M X s1 (fold_call f zs b) (I xs) E" if "xs = ys @ zs" "ext M X s s1" "wf_ctx M s1" "I ys b s1" for ys zs b s1
    using that
  proof (induction zs arbitrary: ys b s1)
    case Nil
    then show ?case by (intro run_Ok) auto
  next
    case (Cons x zs)
    have "run M X s1 (bind_call (f x b) (fold_call f zs)) (I xs) E"
      by (rule run_bind [OF assms(3) [OF Cons.prems]], rule Cons.IH [of "ys @ [x]"])
        (use Cons.prems in \<open>simp_all add: ext_trans [of M X s s1]\<close>)
    then show ?case by (simp add: run_def)
  qed
  from this [of "[]" xs s b] assms(1,2) show ?thesis by simp
qed

section \<open>Primitive steps\<close>

lemma run_read_node:
  "wf_ctx M s \<Longrightarrow> a < length (cx_heap s) \<Longrightarrow> run M X s (read_node a) (\<lambda>n s'. s' = s \<and> n = cx_heap s ! a) E"
  by (simp add: run_def read_node_def)

lemma st_heap [simp]:
  "st_value (s\<lparr>cx_heap := hp\<rparr>) = st_value s" "st_hash (s\<lparr>cx_heap := hp\<rparr>) = st_hash s"
  by (auto simp: st_value_def st_hash_def fun_eq_iff)

lemma wf_heap_update: "wf_store (s\<lparr>cx_heap := hp\<rparr>) = wf_store s" "wf_id (s\<lparr>cx_heap := hp\<rparr>) h = wf_id s h"
  by (simp_all add: wf_store_def wf_id_def)

lemma ext_append: "ext M X s (s\<lparr>cx_heap := cx_heap s @ ns\<rparr>)"
proof -
  have "st_rep M X (s\<lparr>cx_heap := cx_heap s @ ns\<rparr>) a t" if "st_rep M X s a t" for a t
    using that by (rule rep_ext) (auto simp: nth_append dest: rep_node_facts)
  then show ?thesis by (simp add: ext_def)
qed

lemma wf_append:
  assumes "wf_ctx M s" and "\<And>n h. n \<in> set ns \<Longrightarrow> entry_hash_cell n = Some h \<Longrightarrow> wf_id s h \<and> commited n"
    and "\<And>n tree p. n \<in> set ns \<Longrightarrow> entry_cell n = Some (ETree tree) \<Longrightarrow> p \<in> set (om_iter M tree) \<Longrightarrow>
      snd p < length (cx_heap s) \<and> entry_hash_cell n = None"
  shows "wf_ctx M (s\<lparr>cx_heap := cx_heap s @ ns\<rparr>)"
proof -
  have new: "(cx_heap s @ ns) ! b \<in> set ns" if "\<not> b < length (cx_heap s)" "b < length (cx_heap s) + length ns" for b
    using that by (simp add: nth_append)
  have "wf_node M (s\<lparr>cx_heap := cx_heap s @ ns\<rparr>) a" if a: "a < length (cx_heap s) + length ns" for a
  proof (cases "a < length (cx_heap s)")
    case True
    with assms(1) have "wf_node M s a" by (simp add: wf_ctx_def)
    moreover have "commited ((cx_heap s @ ns) ! b)"
      if "\<not> b < length (cx_heap s)" "b < length (cx_heap s) + length ns" "entry_hash_cell ((cx_heap s @ ns) ! b) = Some h" for b h
      using assms(2) [OF new [OF that(1,2)] that(3)] by simp
    ultimately show ?thesis
      using True by (force simp: wf_node_def Let_def nth_append wf_heap_update)
  next
    case False
    let ?n = "(cx_heap s @ ns) ! a"
    note n = new [OF False a]
    have "wf_id s h \<and> commited ?n" if "entry_hash_cell ?n = Some h" for h using assms(2) [OF n that] .
    moreover have "snd p < length (cx_heap s) + length ns \<and> entry_hash_cell ?n = None"
      if "entry_cell ?n = Some (ETree tree)" "p \<in> set (om_iter M tree)" for tree p
      using assms(3) [OF n that] by simp
    ultimately show ?thesis by (auto simp: wf_node_def Let_def wf_heap_update)
  qed
  with assms(1) show ?thesis by (simp add: wf_ctx_def wf_heap_update)
qed

lemma run_alloc:
  assumes "wf_ctx M s" and "\<And>h. entry_hash_cell n = Some h \<Longrightarrow> wf_id s h \<and> commited n"
    and "\<And>tree p. entry_cell n = Some (ETree tree) \<Longrightarrow> p \<in> set (om_iter M tree) \<Longrightarrow> snd p < length (cx_heap s)
      \<and> entry_hash_cell n = None"
  shows "run M X s (alloc_node n) (\<lambda>a s'. a = length (cx_heap s) \<and> s' = s\<lparr>cx_heap := cx_heap s @ [n]\<rparr>) E"
  by (rule run_Ok [OF _ ext_append [where ns = "[n]"] wf_append [OF assms(1), where ns = "[n]"]])
    (use assms(2,3) in \<open>auto simp: alloc_node_def\<close>)

lemma st_value_wf_id:
  assumes "wf_store s" and "st_value s h = Some v"
  shows "wf_id s h"
  using assms
  by (auto simp: st_value_def im_get_value_def hv_get_value_def entries_get_def into_usize_def wf_id_def wf_store_def
      checked_sub_def unat_eq_zero split: res.splits option.splits if_splits)

lemma stored_value: "stored X V D h t \<Longrightarrow> \<exists>v. V h = Some v"
  by (erule stored.cases) auto

lemma st_value_get: "st_value s h = Some v \<Longrightarrow> im_get_value (cx_repo s) h = Ok (Some v)"
  by (simp add: st_value_def split: res.splits option.splits)

lemma st_hash_get: "st_hash s h = Some v \<Longrightarrow> im_get_hash (cx_repo s) h = Ok (Some v)"
  by (simp add: st_hash_def split: res.splits option.splits)

locale context_store = ordmap_laws M + context_crates_laws X for M :: "'t ordmap" and X :: context_crates
begin

section \<open>Entries of the repository\<close>

lemma of_disk_tree:
  fixes s :: "'t ctx"
  assumes "keys_sorted es"
  shows "\<exists>tree. of_disk M (DTree es) s = (Ok (ETree tree) :: ('e, 't entry) res, s\<lparr>cx_heap := cx_heap s @ map (\<lambda>(k, kind, h). node_of_disk kind h) es\<rparr>)
    \<and> om_iter M tree = zip (map fst es) [length (cx_heap s)..<length (cx_heap s) + length es]"
proof -
  define f :: "string \<times> node_kind \<times> hash_id \<Rightarrow> 't \<Rightarrow> ('t ctx, 'e, 't) call"
    where "f = (\<lambda>(k, kind, h) tree. bind_call (alloc_node (node_of_disk kind h)) (\<lambda>a. ret (om_insert M tree k a)))"
  have "\<exists>tree'. fold_call f es tree s = (Ok tree', s\<lparr>cx_heap := cx_heap s @ map (\<lambda>(k, kind, h). node_of_disk kind h) es\<rparr>)
      \<and> om_iter M tree' = om_iter M tree @ zip (map fst es) [length (cx_heap s)..<length (cx_heap s) + length es]"
    if "\<forall>p \<in> set (om_iter M tree). \<forall>q \<in> set es. fst p < fst q" for tree
    using assms that
  proof (induction es arbitrary: tree s)
    case (Cons e es)
    obtain k kind h where e: "e = (k, kind, h)" by (cases e) auto
    let ?s = "s\<lparr>cx_heap := cx_heap s @ [node_of_disk kind h]\<rparr>" and ?t = "om_insert M tree k (length (cx_heap s))"
    have it: "om_iter M ?t = om_iter M tree @ [(k, length (cx_heap s))]"
      using Cons.prems(2) by (simp add: iter_insert alist_insert_last e)
    have "\<exists>tree'. fold_call f es ?t ?s = (Ok tree', ?s\<lparr>cx_heap := cx_heap ?s @ map (\<lambda>(k, kind, h). node_of_disk kind h) es\<rparr>)
      \<and> om_iter M tree' = om_iter M ?t @ zip (map fst es) [length (cx_heap ?s)..<length (cx_heap ?s) + length es]"
      by (rule Cons.IH) (use Cons.prems in \<open>auto simp: it e\<close>)
    moreover have "f e tree s = (Ok ?t, ?s)" by (simp add: f_def e alloc_node_def bind_call_def)
    ultimately show ?case by (auto simp: bind_call_Ok e it upt_conv_Cons simp del: upt_Suc)
  qed simp
  from this [of "om_new M"] show ?thesis
    by (auto simp: of_disk_def bind_call_def iter_new f_def split: prod.splits)
qed

lemma zip_all2:
  "length xs = length ys \<Longrightarrow> (\<And>i. i < length xs \<Longrightarrow> P (xs ! i) (ys ! i)) \<Longrightarrow> list_all2 P xs ys"
  by (simp add: list_all2_conv_all_nth)

lemma stored_ids: "wf_store s \<Longrightarrow> st_stored X s h t \<Longrightarrow> wf_id s h"
  using stored_value st_value_wf_id by metis

text \<open>Reading a stored entry allocates its nodes and changes nothing else.\<close>

lemma find_entry_stored:
  assumes "wf_ctx M s" and "st_stored X s h t"
  shows "\<exists>e ns. find_entry M X h s = (Ok (Some e), s\<lparr>cx_heap := cx_heap s @ ns\<rparr>)
    \<and> wf_ctx M (s\<lparr>cx_heap := cx_heap s @ ns\<rparr>) \<and> st_entry M X (s\<lparr>cx_heap := cx_heap s @ ns\<rparr>) e t
    \<and> (\<forall>tree. e = ETree tree \<longrightarrow> (\<forall>p \<in> set (om_iter M tree). length (cx_heap s) \<le> snd p \<and> snd p < length (cx_heap s @ ns)
        \<and> entry_cell ((cx_heap s @ ns) ! snd p) = None \<and> entry_hash_cell ((cx_heap s @ ns) ! snd p) \<noteq> None))"
  using assms(2)
proof cases
  case (stored_blob bs b)
  then show ?thesis
    using assms(1) by (intro exI [of _ "EBlob b"] exI [of _ "[]"])
      (simp add: find_entry_def st_value_get of_disk_def bind_call_def)
next
  case (stored_dir bs es ts)
  let ?ns = "map (\<lambda>(k, kind, h). node_of_disk kind h) es :: 't node list" and ?l = "length (cx_heap s)"
  let ?s = "s\<lparr>cx_heap := cx_heap s @ ?ns\<rparr>"
  obtain tree where tree: "of_disk M (DTree es) s = (Ok (ETree tree) :: (db_error, 't entry) res, ?s)"
    "om_iter M tree = zip (map fst es) [?l..<?l + length es]"
    using of_disk_tree [OF stored_dir(4), of s] by blast
  note sub = list_all2_nthD [OF stored_dir(6)]
  have st: "stored X (st_value s) (st_hash s) (snd (snd (es ! i))) (snd (ts ! i))" if "i < length es" for i
    using sub [OF that] by simp
  have node: "(cx_heap s @ ?ns) ! (?l + i) = node_of_disk (fst (snd (es ! i))) (snd (snd (es ! i)))" if "i < length es" for i
    using that by (simp add: nth_append split_beta)
  have len: "length ts = length es" using stored_dir(6) by (simp add: list_all2_lengthD)
  have "wf_ctx M ?s"
  proof (rule wf_append [OF assms(1)])
    fix n h assume "n \<in> set ?ns" "entry_hash_cell n = Some h"
    then obtain i where "i < length es" "h = snd (snd (es ! i))" "commited n"
      by (auto simp: in_set_conv_nth node_of_disk_def split_beta)
    then show "wf_id s h \<and> commited n" using st stored_ids assms(1) by (auto simp: wf_ctx_def)
  qed (auto simp: node_of_disk_def)
  moreover have "rep_tree M X (st_value s) (st_hash s) (cx_heap s @ ?ns) tree ts"
    unfolding rep_tree_def tree(2)
  proof (rule zip_all2)
    fix i assume "i < length (zip (map fst es) [?l..<?l + length es])"
    then have i: "i < length es" by simp
    have "rep_node M X (st_value s) (st_hash s) (cx_heap s @ ?ns) (?l + i) (snd (ts ! i))"
      by (rule rep_disk [where h = "snd (snd (es ! i))"]) (use i node [OF i] sub [OF i] in \<open>simp_all add: node_of_disk_def\<close>)
    with i sub [OF i] show "fst (zip (map fst es) [?l..<?l + length es] ! i) = fst (ts ! i)
        \<and> rep_node M X (st_value s) (st_hash s) (cx_heap s @ ?ns) (snd (zip (map fst es) [?l..<?l + length es] ! i)) (snd (ts ! i))"
      by simp
  qed (simp add: len)
  moreover have "?l \<le> snd p \<and> snd p < length (cx_heap s @ ?ns)
      \<and> entry_cell ((cx_heap s @ ?ns) ! snd p) = None \<and> entry_hash_cell ((cx_heap s @ ?ns) ! snd p) \<noteq> None"
    if "p \<in> set (om_iter M tree)" for p
  proof -
    from that obtain i where "[?l..<?l + length es] ! i = snd p" "i < length es" unfolding tree(2) in_set_zip by auto
    then have i: "snd p = ?l + i" "i < length es" by auto
    with node [OF i(2)] show ?thesis by (simp add: node_of_disk_def)
  qed
  moreover have "find_entry M X h s = (Ok (Some (ETree tree)), ?s)"
    using stored_dir(2,3) tree(1) by (simp add: find_entry_def st_value_get bind_call_def)
  ultimately show ?thesis
    using stored_dir(1) by (intro exI [of _ "ETree tree"] exI [of _ ?ns]) simp
qed

section \<open>Nodes\<close>

lemma run_set_entry:
  assumes "wf_ctx M s" and "a < length (cx_heap s)" and "entry_cell (cx_heap s ! a) = None"
    and "\<And>t. st_rep M X s a t \<Longrightarrow> st_entry M X s e t"
    and "\<And>tree p. e = ETree tree \<Longrightarrow> p \<in> set (om_iter M tree) \<Longrightarrow>
      snd p < length (cx_heap s) \<and> snd p \<noteq> a \<and> entry_cell (cx_heap s ! snd p) = None \<and> entry_hash_cell (cx_heap s ! snd p) \<noteq> None"
  shows "run M X s (set_entry a e) (\<lambda>_ s'. True) E"
proof -
  let ?hp = "(cx_heap s)[a := (cx_heap s ! a)\<lparr>entry_cell := Some e\<rparr>]"
  let ?s = "s\<lparr>cx_heap := ?hp\<rparr>"
  have cells: "cells_ok X V D (n\<lparr>entry_cell := c\<rparr>) t = cells_ok X V D n t" for V D c t and n :: "'t node"
    by (simp add: cells_ok_def)
  have children: "st_tree M X ?s tree ts" if "e = ETree tree" "st_tree M X s tree ts" for tree ts
    using that(2) unfolding rep_tree_def
  proof (rule list.rel_mono_strong)
    fix p q assume p: "p \<in> set (om_iter M tree)" and r: "fst p = fst q \<and> st_rep M X s (snd p) (snd q)"
    then show "fst p = fst q \<and> st_rep M X ?s (snd p) (snd q)"
      using assms(5) [OF that(1) p] by (simp add: rep_node_entry)
  qed
  have rep: "st_rep M X ?s b t" if "st_rep M X s b t" for b t
    using that
  proof (rule rep_ext)
    fix b t assume b: "b < length (cx_heap s)" "st_rep M X s b t"
    have "cells_ok X (st_value ?s) (st_hash ?s) (?hp ! b) t"
      using rep_node_facts(2) [OF b(2)] assms(2) by (auto simp: nth_list_update cells)
    moreover have "st_entry M X ?s e t" if "b = a"
      using assms(4) [of t] b that children by (cases e) auto
    ultimately show "cells_ok X (st_value ?s) (st_hash ?s) (cx_heap ?s ! b) t
      \<and> (entry_cell (cx_heap ?s ! b) = entry_cell (cx_heap s ! b) \<and> (commited (cx_heap s ! b) \<longrightarrow> commited (cx_heap ?s ! b))
         \<or> entry_cell (cx_heap s ! b) = None \<and> (\<exists>e. entry_cell (cx_heap ?s ! b) = Some e \<and> st_entry M X ?s e t))"
      using assms(2,3) by (cases "b = a") auto
  qed simp_all
  have same: "entry_hash_cell (?hp ! b) = entry_hash_cell (cx_heap s ! b)" "commited (?hp ! b) = commited (cx_heap s ! b)" for b
    using assms(2) by (simp_all add: nth_list_update)
  have "wf_node M ?s b" if b: "b < length (cx_heap s)" for b
  proof -
    have "wf_node M s b" using assms(1) b by (simp add: wf_ctx_def)
    then show ?thesis
      using assms(5) b
      by (cases "b = a") (auto simp: wf_node_def Let_def same wf_heap_update nth_list_update_neq)
  qed
  then have "wf_ctx M ?s" using assms(1) by (simp add: wf_ctx_def wf_heap_update)
  then show ?thesis
    using rep by (intro run_Ok [where s' = ?s]) (auto simp: set_entry_def update_node_def assms(2) ext_def)
qed

lemma run_get_entry:
  assumes "wf_ctx M s" and "st_stored X s h t"
  shows "run M X s (get_entry M X h)
    (\<lambda>e s'. st_entry M X s' e t \<and> (\<exists>ns. cx_heap s' = cx_heap s @ ns \<and> cx_repo s' = cx_repo s)
      \<and> (\<forall>tree. e = ETree tree \<longrightarrow> (\<forall>p \<in> set (om_iter M tree). length (cx_heap s) \<le> snd p \<and> snd p < length (cx_heap s')
        \<and> entry_cell (cx_heap s' ! snd p) = None \<and> entry_hash_cell (cx_heap s' ! snd p) \<noteq> None))) E"
proof -
  obtain e ns where e: "find_entry M X h s = (Ok (Some e), s\<lparr>cx_heap := cx_heap s @ ns\<rparr>)"
    "wf_ctx M (s\<lparr>cx_heap := cx_heap s @ ns\<rparr>)" "st_entry M X (s\<lparr>cx_heap := cx_heap s @ ns\<rparr>) e t"
    "\<forall>tree. e = ETree tree \<longrightarrow> (\<forall>p \<in> set (om_iter M tree). length (cx_heap s) \<le> snd p \<and> snd p < length (cx_heap s @ ns)
        \<and> entry_cell ((cx_heap s @ ns) ! snd p) = None \<and> entry_hash_cell ((cx_heap s @ ns) ! snd p) \<noteq> None)"
    using find_entry_stored [OF assms] by blast
  show ?thesis
    by (rule run_Ok [where s' = "s\<lparr>cx_heap := cx_heap s @ ns\<rparr>" and r = e])
      (use e ext_append in \<open>auto simp: get_entry_def bind_call_def call_err_def\<close>)
qed

lemma run_load_entry:
  assumes "wf_ctx M s" and "st_rep M X s a t" and "entry_cell (cx_heap s ! a) = None"
  shows "run M X s (load_entry M X a (cx_heap s ! a)) (\<lambda>e s'. st_entry M X s' e t) E"
proof -
  have a: "a < length (cx_heap s)" using rep_node_facts(1) [OF assms(2)] .
  obtain h where h: "entry_hash_cell (cx_heap s ! a) = Some h" "st_stored X s h t"
    using assms(2,3) by (auto simp: rep_node_entry cells_ok_def)
  show ?thesis
    unfolding load_entry_def
  proof (intro run_bind [OF run_lift [OF assms(1), where a = h and Q = "\<lambda>x s'. x = h \<and> s' = s"]])
    show "get_hash_id (cx_heap s ! a) = Ok h" using h by (simp add: get_hash_id_def)
  next
    fix x s0 assume "x = h \<and> s0 = s"
    then show "run M X s0 (bind_call (get_entry M X x) (\<lambda>e. bind_call (set_entry a e) (\<lambda>_. ret e))) (\<lambda>e s'. st_entry M X s' e t) E"
    proof (clarsimp, intro run_bind [OF run_get_entry [OF assms(1) h(2)]])
      fix e s1
      assume x: "ext M X s s1" "wf_ctx M s1"
        and "st_entry M X s1 e t \<and> (\<exists>ns. cx_heap s1 = cx_heap s @ ns \<and> cx_repo s1 = cx_repo s)
          \<and> (\<forall>tree. e = ETree tree \<longrightarrow> (\<forall>p \<in> set (om_iter M tree). length (cx_heap s) \<le> snd p \<and> snd p < length (cx_heap s1)
            \<and> entry_cell (cx_heap s1 ! snd p) = None \<and> entry_hash_cell (cx_heap s1 ! snd p) \<noteq> None))"
      then obtain ns where e: "st_entry M X s1 e t" "cx_heap s1 = cx_heap s @ ns"
        "\<And>tree p. e = ETree tree \<Longrightarrow> p \<in> set (om_iter M tree) \<Longrightarrow> length (cx_heap s) \<le> snd p \<and> snd p < length (cx_heap s1)
            \<and> entry_cell (cx_heap s1 ! snd p) = None \<and> entry_hash_cell (cx_heap s1 ! snd p) \<noteq> None" by blast
      have "run M X s1 (set_entry a e) (\<lambda>_ s'. True) E"
      proof (rule run_set_entry [OF x(2)])
        show "st_entry M X s1 e t'" if "st_rep M X s1 a t'" for t'
          using rep_node_unique [OF that ext_rep [OF x(1) assms(2)]] e(1) by simp
      qed (use a e(2) assms(3) e(3) in \<open>fastforce simp: nth_append\<close>)+
      then show "run M X s1 (bind_call (set_entry a e) (\<lambda>_. ret e)) (\<lambda>e s'. st_entry M X s' e t) E"
        by (rule run_bind) (auto intro!: run_ret ext_entry [OF _ e(1)])
    qed
  qed simp
qed

lemma run_node_cell:
  assumes "wf_ctx M s" and "st_rep M X s a t"
  shows "run M X s (case entry_cell (cx_heap s ! a) of Some e \<Rightarrow> ret e | None \<Rightarrow> load_entry M X a (cx_heap s ! a))
    (\<lambda>e s'. st_entry M X s' e t) E"
proof (cases "entry_cell (cx_heap s ! a)")
  case None
  with run_load_entry [OF assms] show ?thesis by simp
next
  case (Some e)
  with assms show ?thesis by (auto simp: rep_node_entry intro!: run_ret)
qed

lemma run_node_entry:
  assumes "wf_ctx M s" and "st_rep M X s a t"
  shows "run M X s (node_entry M X a) (\<lambda>e s'. st_entry M X s' e t) E"
  unfolding node_entry_def
  by (rule run_bind [OF run_read_node [OF assms(1) rep_node_facts(1) [OF assms(2)]]])
    (auto intro!: run_node_cell assms)

lemma st_tree_get:
  assumes "st_tree M X s tree ts"
  shows "case map_of ts k of
      None \<Rightarrow> om_get M tree k = None
    | Some t \<Rightarrow> \<exists>a. om_get M tree k = Some a \<and> st_rep M X s a t"
  using assms unfolding rep_tree_def get_iter
  by (induction rule: list_all2_induct) (auto split: option.splits)

lemma run_find_raw_tree:
  assumes "wf_ctx M s" and "st_tree M X s root es"
  shows "run M X s (find_raw_tree M X key root) (\<lambda>tree s'. st_tree M X s' tree (adir_at key es)) E"
  using assms
proof (induction key arbitrary: root es s)
  case Nil
  then show ?case by (intro run_Ok) auto
next
  case (Cons k key)
  note get = st_tree_get [OF Cons.prems(2), of k]
  have none: "st_tree M X s' (om_new M) []" for s' by (simp add: rep_tree_def iter_new)
  show ?case
  proof (cases "map_of es k")
    case None
    with get Cons.prems(1) none show ?thesis by (intro run_Ok) auto
  next
    case (Some t)
    with get obtain a where a: "om_get M root k = Some a" "st_rep M X s a t" by auto
    let ?m = "bind_call (read_node a) (\<lambda>n.
          bind_call (case entry_cell n of Some e \<Rightarrow> ret e | None \<Rightarrow> load_entry M X a n) (\<lambda>e.
            case e of
              ETree tree \<Rightarrow> find_raw_tree M X key tree
            | EBlob _ \<Rightarrow> ret (om_new M)
            | ECommit _ \<Rightarrow> fail (MFoundUnexpectedStructure ''Tree/Blob'' ''commit'')))"
    have "run M X s' (case e of ETree tree \<Rightarrow> find_raw_tree M X key tree | EBlob _ \<Rightarrow> ret (om_new M)
        | ECommit _ \<Rightarrow> fail (MFoundUnexpectedStructure ''Tree/Blob'' ''commit''))
        (\<lambda>tree s'. st_tree M X s' tree (adir_at (k # key) es)) E"
      if "wf_ctx M s'" "st_entry M X s' e t" for e s'
      using that Some none by (cases e) (auto intro!: run_ret Cons.IH)
    then have "run M X s ?m (\<lambda>tree s'. st_tree M X s' tree (adir_at (k # key) es)) E"
      by (intro run_bind [OF run_read_node [OF Cons.prems(1) rep_node_facts(1) [OF a(2)]]])
        (auto intro!: run_bind [OF run_node_cell [OF Cons.prems(1) a(2)]])
    then show ?thesis using a(1) by (simp add: run_def)
  qed
qed

end

end
