(* ===== verification/Context_Update.thy ===== *)
theory Context_Update
  imports Context_Lookup
begin

text \<open>
  The operations of a working tree on abstract trees: the lookups, and the updates, which rebuild the
  directories from the changed entry up to the root, against the insertion from the root down.
\<close>

section \<open>Rebuilding the path\<close>

fun arebuild :: "adir \<Rightarrow> string list \<Rightarrow> atree option \<Rightarrow> atree" where
  "arebuild es key x =
     (if key = [] then (case x of Some t \<Rightarrow> t | None \<Rightarrow> ADir [])
      else
        let sub = aput [last key] x (adir_at (butlast key) es)
        in arebuild es (butlast key) (if sub = [] then None else Some (ADir sub)))"

declare arebuild.simps [simp del]

lemma adir_at_Nil [simp]: "adir_at key [] = []"
  by (cases key) auto

lemma adir_at_append: "adir_at (ks @ ls) es = adir_at ls (adir_at ks es)"
  by (induction ks es rule: adir_at.induct) (auto split: option.splits atree.splits)

lemma aput_snoc:
  "ks \<noteq> [] \<Longrightarrow> aput (ks @ [k]) x es =
     (let sub = aput [k] x (adir_at ks es) in aput ks (if sub = [] then None else Some (ADir sub)) es)"
proof (induction ks arbitrary: es)
  case (Cons j ks)
  show ?case
  proof (cases "ks = []")
    case False
    then obtain i js where ks: "ks = i # js" by (cases ks) auto
    have at: "adir_at (j # ks) es = adir_at ks (adir_at [j] es)" using adir_at_append [of "[j]" ks es] by simp
    have "aput ((j # ks) @ [k]) x es =
        (let sub = aput (ks @ [k]) x (adir_at [j] es) in if sub = [] then alist_remove j es else alist_insert j (ADir sub) es)"
      by (simp add: ks)
    also have "\<dots> = (let sub = aput [k] x (adir_at (j # ks) es) in aput (j # ks) (if sub = [] then None else Some (ADir sub)) es)"
      unfolding Cons.IH [OF False] at by (simp add: Let_def ks)
    finally show ?thesis .
  qed (simp add: Let_def)
qed simp

lemma arebuild_aput: "key \<noteq> [] \<Longrightarrow> arebuild es key x = ADir (aput key x es)"
proof (induction key arbitrary: x rule: rev_induct)
  case (snoc k ks)
  let ?sub = "aput [k] x (adir_at ks es)"
  have "arebuild es (ks @ [k]) x = arebuild es ks (if ?sub = [] then None else Some (ADir ?sub))"
    by (subst arebuild.simps) (simp add: Let_def)
  also have "\<dots> = ADir (aput (ks @ [k]) x es)"
  proof (cases "ks = []")
    case True
    then show ?thesis by (subst arebuild.simps) (auto simp: Let_def)
  next
    case False
    show ?thesis unfolding snoc.IH [OF False] aput_snoc [OF False] Let_def ..
  qed
  finally show ?case .
qed simp

section \<open>Maps of nodes\<close>

lemma all2_insert:
  assumes "list_all2 (\<lambda>p q. fst p = fst q \<and> P (snd p) (snd q)) ps qs" and "P a t"
  shows "list_all2 (\<lambda>p q. fst p = fst q \<and> P (snd p) (snd q)) (alist_insert k a ps) (alist_insert k t qs)"
  using assms by (induction rule: list_all2_induct) (auto simp: split_beta)

lemma all2_remove:
  assumes "list_all2 (\<lambda>p q. fst p = fst q \<and> P (snd p) (snd q)) ps qs"
  shows "list_all2 (\<lambda>p q. fst p = fst q \<and> P (snd p) (snd q)) (alist_remove k ps) (alist_remove k qs)"
  using assms by (induction rule: list_all2_induct) (auto simp: alist_remove_def)

context context_store
begin

lemma st_tree_empty: "st_tree M X s tree ts \<Longrightarrow> om_is_empty M tree \<longleftrightarrow> ts = []"
  by (auto simp: rep_tree_def is_empty_iter)

lemma st_tree_new [simp]: "st_tree M X s (om_new M) []"
  by (simp add: rep_tree_def iter_new)

lemma st_tree_insert: "st_tree M X s tree ts \<Longrightarrow> st_rep M X s a t \<Longrightarrow> st_tree M X s (om_insert M tree k a) (alist_insert k t ts)"
  by (simp add: rep_tree_def iter_insert all2_insert)

lemma st_tree_remove: "st_tree M X s tree ts \<Longrightarrow> st_tree M X s (om_remove M tree k) (alist_remove k ts)"
  by (simp add: rep_tree_def iter_remove all2_remove)

section \<open>Updates\<close>

definition new_node_rep :: "'t ctx \<Rightarrow> 't node \<Rightarrow> atree \<Rightarrow> bool" where
  "new_node_rep s n t \<longleftrightarrow>
     entry_hash_cell n = None \<and> \<not> commited n \<and> node_kind n = akind t \<and> (\<exists>e. entry_cell n = Some e \<and> st_entry M X s e t)"

lemma new_node_ext: "ext M X s s' \<Longrightarrow> new_node_rep s n t \<Longrightarrow> new_node_rep s' n t"
  using ext_entry by (auto simp: new_node_rep_def)

lemma new_node_dir: "st_tree M X s tree ts \<Longrightarrow> new_node_rep s (get_non_leaf (ETree tree)) (ADir ts)"
  by (simp add: new_node_rep_def get_non_leaf_def)

lemma new_node_blob: "new_node_rep s (get_leaf (EBlob b)) (ABlob b)"
  by (simp add: new_node_rep_def get_leaf_def)

lemma run_alloc_new:
  assumes "wf_ctx M s" and "new_node_rep s n t"
  shows "run M X s (alloc_node n) (\<lambda>a s'. st_rep M X s' a t) E"
proof -
  obtain e where e: "entry_cell n = Some e" "st_entry M X s e t" using assms(2) by (auto simp: new_node_rep_def)
  have "snd p < length (cx_heap s)" if "e = ETree tree" "p \<in> set (om_iter M tree)" for tree p
    using e(2) that rep_node_facts(1) by (fastforce simp: rep_tree_def list_all2_conv_all_nth in_set_conv_nth)
  then have "run M X s (alloc_node n) (\<lambda>a s'. a = length (cx_heap s) \<and> s' = s\<lparr>cx_heap := cx_heap s @ [n]\<rparr>) E"
    by (intro run_alloc) (use assms e in \<open>auto simp: new_node_rep_def\<close>)
  then show ?thesis
  proof (rule run_weaken)
    fix a s' assume "ext M X s s'" and s': "a = length (cx_heap s) \<and> s' = s\<lparr>cx_heap := cx_heap s @ [n]\<rparr>"
    then have "st_entry M X s' e t" using ext_entry e(2) by blast
    with s' e(1) assms(2) show "st_rep M X s' a t"
      by (auto simp: rep_node_entry cells_ok_def new_node_rep_def)
  qed
qed

lemma run_get_str:
  assumes "wf_ctx M s"
  shows "run M X s (get_str k) (\<lambda>r s'. r = k) E"
proof -
  have "ext M X s (s\<lparr>cx_strings := S\<rparr>) \<and> wf_ctx M (s\<lparr>cx_strings := S\<rparr>)" for S
  proof -
    let ?s = "s\<lparr>cx_strings := S\<rparr>"
    have eq: "st_value ?s = st_value s" "st_hash ?s = st_hash s"
      by (auto simp: st_value_def st_hash_def fun_eq_iff)
    have "ext M X s ?s" unfolding ext_def eq by simp
    moreover have "wf_node M ?s a = wf_node M s a" for a
      unfolding wf_node_def wf_id_def eq by simp
    ultimately show ?thesis using assms by (simp add: wf_ctx_def wf_store_def)
  qed
  with assms show ?thesis by (simp add: run_def get_str_def)
qed

definition change_rep :: "'t ctx \<Rightarrow> 't node option \<Rightarrow> atree option \<Rightarrow> bool" where
  "change_rep s n x \<longleftrightarrow> rel_option (new_node_rep s) n x"

lemma run_change:
  assumes "wf_ctx M s" and "st_tree M X s tree ts" and "change_rep s n x"
  shows "run M X s
    (case n of
       None \<Rightarrow> ret (om_remove M tree k)
     | Some n \<Rightarrow> bind_call (get_str k) (\<lambda>k. bind_call (alloc_node n) (\<lambda>a. ret (om_insert M tree k a))))
    (\<lambda>tree' s'. st_tree M X s' tree' (aput [k] x ts)) E"
proof (cases n)
  case None
  with assms show ?thesis by (auto simp: change_rep_def intro!: run_ret st_tree_remove)
next
  case (Some m)
  with assms(3) obtain t where x: "x = Some t" "new_node_rep s m t" by (auto simp: change_rep_def option_rel_Some1)
  have "run M X s1 (bind_call (alloc_node m) (\<lambda>a. ret (om_insert M tree k a)))
      (\<lambda>tree' s'. st_tree M X s' tree' (aput [k] x ts)) E" if e: "ext M X s s1" "wf_ctx M s1" for s1
    by (rule run_bind [OF run_alloc_new [OF e(2) new_node_ext [OF e(1) x(2)]]])
      (use e assms(2) x(1) in \<open>auto intro!: run_ret st_tree_insert intro: ext_tree [OF ext_trans]\<close>)
  then show ?thesis unfolding Some by (auto intro!: run_bind [OF run_get_str [OF assms(1)]])
qed

lemma run_compute_new_root:
  assumes "wf_ctx M s" and "st_tree M X s (root_ref M w) es" and "change_rep s n x"
  shows "run M X s (compute_new_root_with_change M X w key n) (\<lambda>e s'. st_entry M X s' e (arebuild es key x)) E"
  using assms
proof (induction "length key" arbitrary: key s n x)
  case 0
  then show ?case
    by (subst arebuild.simps, cases n)
      (auto simp: change_rep_def option_rel_Some1 option_rel_Some2 new_node_rep_def intro!: run_Ok)
next
  case (Suc l)
  then have key: "key \<noteq> []" "l = length (butlast key)" by auto
  let ?sub = "aput [last key] x (adir_at (butlast key) es)"
  let ?m = "bind_call (find_raw_tree M X (butlast key) (root_ref M w)) (\<lambda>tree.
        bind_call
          (case n of
             None \<Rightarrow> ret (om_remove M tree (last key))
           | Some n \<Rightarrow>
               bind_call (get_str (last key)) (\<lambda>last_key.
               bind_call (alloc_node n) (\<lambda>a. ret (om_insert M tree last_key a))))
          (\<lambda>tree.
             if om_is_empty M tree then compute_new_root_with_change M X w (butlast key) None
             else compute_new_root_with_change M X w (butlast key) (Some (get_non_leaf (ETree tree)))))"
  have goal: "arebuild es key x = arebuild es (butlast key) (if ?sub = [] then None else Some (ADir ?sub))"
    using key(1) by (subst arebuild.simps) (simp add: Let_def)
  have up: "run M X s2 (if om_is_empty M tree then compute_new_root_with_change M X w (butlast key) None
             else compute_new_root_with_change M X w (butlast key) (Some (get_non_leaf (ETree tree))))
        (\<lambda>e s'. st_entry M X s' e (arebuild es key x)) E"
    if "ext M X s s2" "wf_ctx M s2" "st_tree M X s2 tree ?sub" for tree s2
    using that st_tree_empty [OF that(3)] ext_tree [OF that(1) Suc.prems(2)] unfolding goal
    by (auto intro!: Suc.hyps(1) [OF key(2)] simp: change_rep_def new_node_dir)
  have "run M X s ?m (\<lambda>e s'. st_entry M X s' e (arebuild es key x)) E"
  proof (rule run_bind [OF run_find_raw_tree [OF Suc.prems(1,2)]])
    fix tree s1 assume s1: "ext M X s s1" "wf_ctx M s1" "st_tree M X s1 tree (adir_at (butlast key) es)"
    have "change_rep s1 n x"
      using Suc.prems(3) new_node_ext [OF s1(1)] by (auto simp: change_rep_def elim: option.rel_mono_strong)
    note change = run_change [OF s1(2,3) this]
    show "run M X s1 (bind_call
          (case n of
             None \<Rightarrow> ret (om_remove M tree (last key))
           | Some n \<Rightarrow>
               bind_call (get_str (last key)) (\<lambda>last_key.
               bind_call (alloc_node n) (\<lambda>a. ret (om_insert M tree last_key a))))
          (\<lambda>tree.
             if om_is_empty M tree then compute_new_root_with_change M X w (butlast key) None
             else compute_new_root_with_change M X w (butlast key) (Some (get_non_leaf (ETree tree)))))
        (\<lambda>e s'. st_entry M X s' e (arebuild es key x)) E"
      by (rule run_bind [OF change]) (rule up [OF ext_trans [OF s1(1)]])
  qed
  moreover have "compute_new_root_with_change M X w key n s = ?m s" using key(1) by simp
  ultimately show ?case by (simp add: run_def del: compute_new_root_with_change.simps)
qed

end

declare compute_new_root_with_change.simps [simp del]

end
