(* ===== verification/Context_Ops.thy ===== *)
theory Context_Ops
  imports Context_Update "HOL-Library.Sublist"
begin

text \<open>
  The context against its specification: every sequence of operations of \<^verbatim>\<open>ProtocolContextApi\<close> gives the results it gives
  on an abstract tree, and the values of the tree by path after an update.
\<close>

section \<open>Values by path\<close>

definition tvalue :: "atree \<Rightarrow> string list \<Rightarrow> bytes option" where
  "tvalue t key = (case t of ABlob b \<Rightarrow> if key = [] then Some b else None | ADir es \<Rightarrow> avalue es key)"

lemma map_of_insert [simp]: "map_of (alist_insert k v ps) = (map_of ps)(k \<mapsto> v)"
  by (induction k v ps rule: alist_insert.induct) (auto simp: fun_eq_iff)

declare map_of_alist_remove [simp]

lemma avalue_Nil [simp]: "avalue [] key = None"
  by (cases "([] :: adir, key)" rule: avalue.cases) auto

lemma avalue_Cons: "avalue es (k # ks) = (case map_of es k of Some t \<Rightarrow> tvalue t ks | None \<Rightarrow> None)"
  by (cases ks) (auto simp: tvalue_def split: option.splits atree.splits)

lemma avalue_aput:
  assumes "key \<noteq> []"
  shows "avalue (aput key x es) key' =
    (if prefix key key' then (case x of Some t \<Rightarrow> tvalue t (drop (length key) key') | None \<Rightarrow> None)
     else if prefix key' key then None
     else avalue es key')"
  using assms
proof (induction key x es arbitrary: key' rule: aput.induct)
  case (2 k x es)
  then show ?case
    by (cases key') (auto simp: avalue_Cons split: option.splits)
next
  case (3 k j ks x es)
  let ?sub = "aput (j # ks) x (adir_at [k] es)"
  show ?case
  proof (cases key')
    case (Cons i key'')
    have IH: "avalue ?sub key'' =
      (if prefix (j # ks) key'' then (case x of Some t \<Rightarrow> tvalue t (drop (length (j # ks)) key'') | None \<Rightarrow> None)
       else if prefix key'' (j # ks) then None else avalue (adir_at [k] es) key'')"
      using 3 by simp
    have eq: "avalue (aput (k # j # ks) x es) key' = (if i = k then avalue ?sub key'' else avalue es key')"
      by (auto simp: Cons Let_def avalue_Cons tvalue_def)
    have "avalue (adir_at [k] es) key'' = avalue es (k # key'')" if "key'' \<noteq> []"
      using that by (auto simp: avalue_Cons tvalue_def split: option.splits atree.splits)
    then show ?thesis
      unfolding eq IH unfolding Cons by (cases "key'' = []") (auto simp del: adir_at.simps aput.simps split: option.splits)
  qed simp
qed simp

section \<open>Working trees\<close>

fun wt_rep :: "'t ordmap \<Rightarrow> context_crates \<Rightarrow> 't ctx \<Rightarrow> 't working_tree \<Rightarrow> atree \<Rightarrow> bool" where
  "wt_rep M X s (WTree tree) t \<longleftrightarrow> (\<exists>ts. t = ADir ts \<and> st_tree M X s tree ts)"
| "wt_rep M X s (WValue b) t \<longleftrightarrow> t = ABlob b"

fun dir_of :: "atree \<Rightarrow> adir" where
  "dir_of (ADir es) = es"
| "dir_of (ABlob _) = []"

lemma wt_rep_ext: "ext M X s s' \<Longrightarrow> wt_rep M X s w t \<Longrightarrow> wt_rep M X s' w t"
  by (cases w) (auto intro: ext_tree)

text \<open>What the lookups return.\<close>

definition afind :: "adir \<Rightarrow> string list \<Rightarrow> (merkle_error, bytes option) res" where
  "afind es key =
     (if key = [] then Err MKeyEmpty
      else case map_of (adir_at (butlast key) es) (last key) of
        None \<Rightarrow> Ok None
      | Some (ABlob b) \<Rightarrow> Ok (Some b)
      | Some (ADir _) \<Rightarrow> Err (MValueIsNotABlob (join_key key)))"

definition amem :: "adir \<Rightarrow> string list \<Rightarrow> (merkle_error, bool) res" where
  "amem es key =
     (if key = [] then Err MKeyEmpty else Ok (map_of (adir_at (butlast key) es) (last key) \<noteq> None))"

lemma adir_at_value: "avalue es (ks @ [k]) = (case map_of (adir_at ks es) k of Some (ABlob b) \<Rightarrow> Some b | _ \<Rightarrow> None)"
proof (induction ks es rule: adir_at.induct)
  case (2 j ks es)
  then show ?case
    by (cases "ks @ [k]") (auto simp: avalue_Cons tvalue_def split: option.splits atree.splits)
qed simp

lemma afind_value: "key \<noteq> [] \<Longrightarrow> afind es key = Ok (Some b) \<longleftrightarrow> avalue es key = Some b"
  using adir_at_value [of es "butlast key" "last key"]
  by (auto simp: afind_def split: option.splits atree.splits)

definition returns :: "'t ordmap \<Rightarrow> context_crates \<Rightarrow> 't ctx \<Rightarrow> ('t ctx, 'e, 'a) call \<Rightarrow> ('e, 'a) res \<Rightarrow> bool" where
  "returns M X s m r \<longleftrightarrow> (\<exists>s'. m s = (r, s') \<and> ext M X s s' \<and> wf_ctx M s')"

lemma run_returns:
  assumes "run M X s m Q (\<lambda>_ _. False)"
  obtains r s' where "m s = (Ok r, s')" "ext M X s s'" "wf_ctx M s'" "Q r s'"
  using assms by (auto simp: run_def split: prod.splits res.splits)

context context_store
begin

lemma root_rep: "wt_rep M X s w t \<Longrightarrow> st_tree M X s (root_ref M w) (dir_of t)"
  by (cases w) (auto simp: root_ref_def)

lemma find_raw_tree_ok:
  assumes "wf_ctx M s" and "wt_rep M X s w t"
  obtains tree s' where "find_raw_tree M X key (root_ref M w) s = (Ok tree, s')" "ext M X s s'" "wf_ctx M s'"
    "st_tree M X s' tree (adir_at key (dir_of t))"
  using run_returns [OF run_find_raw_tree [OF assms(1) root_rep [OF assms(2)], of key "\<lambda>_ _. False"]] by blast

lemma find_returns:
  assumes "wf_ctx M s" and "wt_rep M X s w t"
  shows "returns M X s (find M X w key) (afind (dir_of t) key)"
proof (cases "key = []")
  case True
  with assms(1) show ?thesis
    by (simp add: returns_def find_def get_from_tree_def bind_call_def try_call_def afind_def)
next
  case False
  obtain tree s1 where s1: "find_raw_tree M X (butlast key) (root_ref M w) s = (Ok tree, s1)" "ext M X s s1" "wf_ctx M s1"
    "st_tree M X s1 tree (adir_at (butlast key) (dir_of t))"
    using find_raw_tree_ok [OF assms] .
  show ?thesis
  proof (cases "map_of (adir_at (butlast key) (dir_of t)) (last key)")
    case None
    with st_tree_get [OF s1(4), of "last key"] have "om_get M tree (last key) = None" by simp
    with None False s1 show ?thesis
      by (simp add: returns_def find_def get_from_tree_def bind_call_def try_call_def afind_def)
  next
    case (Some u)
    with st_tree_get [OF s1(4), of "last key"] obtain a where a: "om_get M tree (last key) = Some a" "st_rep M X s1 a u"
      by auto
    obtain e s2 where s2: "node_entry M X a s1 = (Ok e, s2)" "ext M X s1 s2" "wf_ctx M s2" "st_entry M X s2 e u"
      using run_returns [OF run_node_entry [OF s1(3) a(2), where E = "\<lambda>_ _. False"]] by blast
    then show ?thesis
      using Some False s1(1) a(1) ext_trans [OF s1(2) s2(2)]
      by (cases e)
        (auto simp: returns_def find_def get_from_tree_def bind_call_def try_call_def afind_def)
  qed
qed

lemma mem_returns:
  assumes "wf_ctx M s" and "wt_rep M X s w t"
  shows "returns M X s (mem M X w key) (amem (dir_of t) key)"
proof -
  obtain tree s1 where s1: "find_raw_tree M X (butlast key) (root_ref M w) s = (Ok tree, s1)" "ext M X s s1" "wf_ctx M s1"
    "st_tree M X s1 tree (adir_at (butlast key) (dir_of t))"
    using find_raw_tree_ok [OF assms] .
  then show ?thesis
    using st_tree_get [OF s1(4), of "last key"] assms(1)
    by (auto simp: returns_def mem_def bind_call_def try_call_def amem_def split: option.splits)
qed

lemma mem_tree_returns:
  assumes "wf_ctx M s" and "wt_rep M X s w t"
  shows "returns M X s (mem_tree M X w key) (Ok (adir_at key (dir_of t) \<noteq> []))"
proof -
  obtain tree s1 where "find_raw_tree M X key (root_ref M w) s = (Ok tree, s1)" "ext M X s s1" "wf_ctx M s1"
    "st_tree M X s1 tree (adir_at key (dir_of t))"
    using find_raw_tree_ok [OF assms] .
  then show ?thesis
    by (auto simp: returns_def mem_tree_def bind_call_def try_call_def st_tree_empty)
qed

text \<open>An update gives a tree, or an error when the root would become a value.\<close>

lemma update_ok:
  assumes "wf_ctx M s" and "wt_rep M X s w t" and "change_rep s n x" and "arebuild (dir_of t) key x = ADir es'"
  obtains tree s' where
    "bind_call (compute_new_root_with_change M X w key n) (\<lambda>e. bind_call (lift_res (entry_tree e)) (\<lambda>tree. ret (f tree))) s
      = (Ok (f tree), s')" "ext M X s s'" "wf_ctx M s'" "st_tree M X s' tree es'"
proof -
  obtain e s' where "compute_new_root_with_change M X w key n s = (Ok e, s')" "ext M X s s'" "wf_ctx M s'"
    "st_entry M X s' e (ADir es')"
    using run_returns [OF run_compute_new_root [OF assms(1) root_rep [OF assms(2)] assms(3), where E = "\<lambda>_ _. False"]]
      assms(4) by metis
  then show ?thesis
    using that by (cases e) (auto simp: bind_call_def entry_tree_def)
qed

lemma add_ok:
  assumes "wf_ctx M s" and "wt_rep M X s w t" and "key \<noteq> []"
  obtains w' s' where "add M X w key v s = (Ok w', s')" "ext M X s s'" "wf_ctx M s'"
    "wt_rep M X s' w' (ADir (aput key (Some (ABlob v)) (dir_of t)))"
proof -
  have n: "change_rep s (Some (get_leaf (EBlob v))) (Some (ABlob v))" by (simp add: change_rep_def new_node_blob)
  show ?thesis
    by (rule update_ok [OF assms(1,2) n arebuild_aput [OF assms(3)], where f = WTree])
      (rule that [unfolded add_def], assumption+, simp)
qed

lemma add_root:
  "add M X w [] v s = (Err (MFoundUnexpectedStructure ''tree'' ''blob''), s)"
  by (simp add: add_def compute_new_root_with_change.simps bind_call_def get_leaf_def entry_tree_def)

lemma add_tree_ok:
  assumes "wf_ctx M s" and "wt_rep M X s w t" and "wt_rep M X s u t'" and "key \<noteq> [] \<or> akind t' = NonLeaf"
  obtains w' s' where "add_tree M X w key u s = (Ok w', s')" "ext M X s s'" "wf_ctx M s'"
    "wt_rep M X s' w' (ADir (if key = [] then dir_of t' else aput key (Some t') (dir_of t)))"
proof -
  let ?n = "Some (case u of WTree t \<Rightarrow> get_non_leaf (ETree t) | WValue v \<Rightarrow> get_leaf (EBlob v))"
  have n: "change_rep s ?n (Some t')"
    using assms(3) by (cases u) (auto simp: change_rep_def new_node_blob new_node_dir)
  have "arebuild (dir_of t) key (Some t') = ADir (if key = [] then dir_of t' else aput key (Some t') (dir_of t))"
    using assms(4) arebuild_aput [of key] by (cases t') (auto simp: arebuild.simps [of _ "[]"])
  note t' = this
  show ?thesis
    by (rule update_ok [OF assms(1,2) n t', where f = WTree])
      (rule that [unfolded add_tree_def], assumption+, simp)
qed

lemma delete_ok:
  assumes "wf_ctx M s" and "wt_rep M X s w t"
  obtains w' s' where "delete M X w key s = (Ok w', s')" "ext M X s s'" "wf_ctx M s'"
    "wt_rep M X s' w' (ADir (if key = [] then dir_of t else aput key None (dir_of t)))"
proof (cases "key = []")
  case True
  with assms that [of "WTree (root_ref M w)" s] root_rep [OF assms(2)] show ?thesis
    by (auto simp: delete_def bind_call_def entry_tree_def)
next
  case False
  have n: "change_rep s None None" by (simp add: change_rep_def)
  show ?thesis
    by (rule update_ok [OF assms n arebuild_aput [OF False], where f = WTree])
      (use False that in \<open>force simp: delete_def\<close>)
qed

lemma copy_ok:
  assumes "wf_ctx M s" and "wt_rep M X s w t"
  obtains w' s' where "copy M X w from_key to_key s = (Ok (Some w'), s')" "ext M X s s'" "wf_ctx M s'"
    "wt_rep M X s' w' (ADir (let es = adir_at from_key (dir_of t)
      in if to_key = [] then es else aput to_key (Some (ADir es)) (dir_of t)))"
proof -
  let ?es = "adir_at from_key (dir_of t)"
  obtain tree s1 where s1: "find_raw_tree M X from_key (root_ref M w) s = (Ok tree, s1)" "ext M X s s1" "wf_ctx M s1"
    "st_tree M X s1 tree ?es"
    using find_raw_tree_ok [OF assms] .
  have "arebuild (dir_of t) to_key (Some (ADir ?es)) =
      ADir (if to_key = [] then ?es else aput to_key (Some (ADir ?es)) (dir_of t))"
    using arebuild_aput [of to_key] by (auto simp: arebuild.simps [of _ "[]"])
  note t' = this
  have n: "change_rep s1 (Some (get_non_leaf (ETree tree))) (Some (ADir ?es))"
    using new_node_dir [OF s1(4)] by (simp add: change_rep_def)
  have "copy M X w from_key to_key s = bind_call (compute_new_root_with_change M X w to_key (Some (get_non_leaf (ETree tree))))
      (\<lambda>e. bind_call (lift_res (entry_tree e)) (\<lambda>tree. ret (Some (WTree tree)))) s1"
    using s1(1) by (simp add: copy_def bind_call_Ok [where m = "try_call _"] try_call_def)
  note c = this
  show ?thesis
    by (rule update_ok [OF s1(3) wt_rep_ext [OF s1(2) assms(2)] n t', where f = "\<lambda>tree. Some (WTree tree)"])
      (use ext_trans [OF s1(2)] that c in \<open>force simp: Let_def\<close>)
qed

end

end
