(* ===== verification/Context_Ref.thy ===== *)
theory Context_Ref
  imports Context_Lookup
begin

text \<open>
  Reference instances of the crates of the context: an ordered map as a list kept in order, a self-delimiting
  encoding of entries, LEB128, and a digest of the right length.
\<close>

section \<open>Ordered maps\<close>

definition canon :: "(string \<times> addr) list \<Rightarrow> (string \<times> addr) list" where
  "canon ps = (if keys_sorted ps then ps else [])"

definition ordmap_ref :: "(string \<times> addr) list ordmap" where
  "ordmap_ref = \<lparr>om_new = [], om_get = (\<lambda>t k. map_of (canon t) k),
     om_insert = (\<lambda>t k v. alist_insert k v (canon t)), om_remove = (\<lambda>t k. alist_remove k (canon t)),
     om_len = (\<lambda>t. length (canon t)), om_is_empty = (\<lambda>t. canon t = []), om_iter = canon\<rparr>"

interpretation ordmap_ref: ordmap_laws ordmap_ref
proof unfold_locales
  have sorted: "keys_sorted (canon t)" for t by (simp add: canon_def)
  then show "keys_sorted (om_iter ordmap_ref t)" for t by (simp add: ordmap_ref_def)
  show "om_iter ordmap_ref (om_insert ordmap_ref t k v) = alist_insert k v (om_iter ordmap_ref t)" for t k v
    using keys_sorted_insert [OF sorted, of k v t] by (simp add: ordmap_ref_def canon_def)
  show "om_iter ordmap_ref (om_remove ordmap_ref t k) = alist_remove k (om_iter ordmap_ref t)" for t k
    using keys_sorted_remove [OF sorted, of k t] by (simp add: ordmap_ref_def canon_def)
qed (simp_all add: ordmap_ref_def canon_def)

section \<open>Entries as bytes\<close>

definition enc_nat :: "nat \<Rightarrow> bytes" where
  "enc_nat n = replicate n 0 @ [1]"

definition dec_nat :: "bytes \<Rightarrow> nat \<times> bytes" where
  "dec_nat bs = (length (takeWhile ((=) 0) bs), drop 1 (dropWhile ((=) 0) bs))"

lemma dec_enc_nat [simp]: "dec_nat (enc_nat n @ bs) = (n, bs)"
  by (simp add: dec_nat_def enc_nat_def takeWhile_append dropWhile_append)

definition enc_bytes :: "bytes \<Rightarrow> bytes" where
  "enc_bytes b = enc_nat (length b) @ b"

definition dec_bytes :: "bytes \<Rightarrow> bytes \<times> bytes" where
  "dec_bytes bs = (let (n, bs) = dec_nat bs in (take n bs, drop n bs))"

lemma dec_enc_bytes [simp]: "dec_bytes (enc_bytes b @ bs) = (b, bs)"
  by (simp add: dec_bytes_def enc_bytes_def)

definition enc_string :: "string \<Rightarrow> bytes" where
  "enc_string s = enc_bytes (map of_char s)"

definition dec_string :: "bytes \<Rightarrow> string \<times> bytes" where
  "dec_string bs = (let (b, bs) = dec_bytes bs in (map (\<lambda>x. char_of (unat x)) b, bs))"

lemma dec_enc_string [simp]: "dec_string (enc_string s @ bs) = (s, bs)"
  by (simp add: dec_string_def enc_string_def char_of_byte comp_def)

definition enc_u64 :: "u64 \<Rightarrow> bytes" where
  "enc_u64 w = enc_nat (unat w)"

definition dec_u64 :: "bytes \<Rightarrow> u64 \<times> bytes" where
  "dec_u64 bs = (let (n, bs) = dec_nat bs in (word_of_nat n, bs))"

lemma dec_enc_u64 [simp]: "dec_u64 (enc_u64 w @ bs) = (w, bs)"
  by (simp add: dec_u64_def enc_u64_def)

fun enc_dir :: "(string \<times> node_kind \<times> hash_id) list \<Rightarrow> bytes" where
  "enc_dir [] = []"
| "enc_dir ((k, kind, h) # es) = enc_string k @ enc_nat (if kind = Leaf then 1 else 0) @ enc_u64 h @ enc_dir es"

fun dec_dir :: "nat \<Rightarrow> bytes \<Rightarrow> (string \<times> node_kind \<times> hash_id) list" where
  "dec_dir 0 bs = []"
| "dec_dir (Suc n) bs =
     (let (k, bs) = dec_string bs; (kind, bs) = dec_nat bs; (h, bs) = dec_u64 bs
      in (k, if kind = 1 then Leaf else NonLeaf, h) # dec_dir n bs)"

lemma dec_enc_dir [simp]: "dec_dir (length es) (enc_dir es) = es"
  by (induction es rule: enc_dir.induct) (auto, (metis node_kind.exhaust)+)

definition enc_commit :: "commit \<Rightarrow> bytes" where
  "enc_commit c =
     (case parent_commit_hash c of None \<Rightarrow> enc_nat 0 @ enc_nat 0 | Some h \<Rightarrow> enc_nat 1 @ enc_u64 h) @
     enc_u64 (root_hash c) @ enc_u64 (commit_time c) @ enc_string (commit_author c) @ enc_string (commit_message c)"

definition dec_commit :: "bytes \<Rightarrow> commit" where
  "dec_commit bs =
     (let (present, bs) = dec_nat bs; (parent, bs) = dec_u64 bs; (root, bs) = dec_u64 bs; (time, bs) = dec_u64 bs;
          (author, bs) = dec_string bs; (message, bs) = dec_string bs
      in \<lparr>parent_commit_hash = (if present = 1 then Some parent else None), root_hash = root, commit_time = time,
          commit_author = author, commit_message = message\<rparr>)"

lemma dec_enc_commit [simp]: "dec_commit (enc_commit c) = c"
proof -
  have s: "dec_string (enc_string x) = (x, [])" for x using dec_enc_string [of x "[]"] by simp
  have z: "dec_u64 (enc_nat 0 @ bs) = (0, bs)" for bs by (simp add: dec_u64_def)
  show ?thesis
    by (cases c) (auto simp: dec_commit_def enc_commit_def s z split: option.split)
qed

fun enc_entry :: "disk_entry \<Rightarrow> bytes" where
  "enc_entry (DTree es) = enc_nat 0 @ enc_nat (length es) @ enc_dir es"
| "enc_entry (DBlob b) = enc_nat 1 @ enc_bytes b"
| "enc_entry (DCommit c) = enc_nat 2 @ enc_commit c"

definition dec_entry :: "bytes \<Rightarrow> disk_entry" where
  "dec_entry bs =
     (let (tag, bs) = dec_nat bs in
      if tag = 0 then (let (n, bs) = dec_nat bs in DTree (dec_dir n bs))
      else if tag = 1 then DBlob (fst (dec_bytes bs))
      else DCommit (dec_commit bs))"

lemma dec_enc_entry: "dec_entry (enc_entry d) = d"
  using dec_enc_bytes [of _ "[]"] by (cases d) (simp_all add: dec_entry_def)

section \<open>Digests and numbers\<close>

fun leb128 :: "nat \<Rightarrow> bytes" where
  "leb128 n = (if n < 128 then [word_of_nat n] else word_of_nat (n mod 128 + 128) # leb128 (n div 128))"

declare leb128.simps [simp del]

lemma leb128_prefix: "leb128 m @ bs = leb128 n @ cs \<Longrightarrow> m = n \<and> bs = cs"
proof (induction m arbitrary: n rule: leb128.induct)
  case (1 m)
  have byte: "unat (word_of_nat k :: u8) = k" if "k < 256" for k
    using that by (simp add: unat_of_nat take_bit_nat_eq_self_iff)
  have eq: "(word_of_nat j :: u8) = word_of_nat k \<longleftrightarrow> j = k" if "j < 256" "k < 256" for j k
    using byte [OF that(1)] byte [OF that(2)] by metis
  have small: "k mod 128 + 128 < 256" for k :: nat using mod_less_divisor [of 128 k] by linarith
  have cases: "leb128 k = (if k < 128 then [word_of_nat k] else word_of_nat (k mod 128 + 128) # leb128 (k div 128))" for k
    by (rule leb128.simps)
  note head = eq [of m n] eq [of "m mod 128 + 128" n] eq [of m "n mod 128 + 128"] eq [OF small small, of m n]
  show ?case
  proof (cases "m < 128"; cases "n < 128")
    assume "\<not> m < 128" "\<not> n < 128"
    then have "m mod 128 = n mod 128" "leb128 (m div 128) @ bs = leb128 (n div 128) @ cs"
      using "1.prems" cases [of m] cases [of n] head(4) by auto
    moreover from "1.IH" [OF _ this(2)] \<open>\<not> m < 128\<close> have "m div 128 = n div 128" "bs = cs" by auto
    ultimately show ?thesis by (metis div_mult_mod_eq)
  qed (use "1.prems" cases [of m] cases [of n] head small [of m] small [of n] in auto)
qed

definition crates_ref :: context_crates where
  "crates_ref = \<lparr>
     bincode_serialize = (\<lambda>d. Ok (enc_entry d)), bincode_deserialize = (\<lambda>bs. Ok (dec_entry bs)),
     var_blake2b = (\<lambda>n bs. if 1 \<le> n \<and> n \<le> 64 then Some (take n (bs @ replicate n 0)) else None),
     leb128_unsigned = (\<lambda>w. leb128 (unat w)), default_hasher = (\<lambda>bs. word_of_nat (from_be bs))\<rparr>"

interpretation ctx_ref: context_store ordmap_ref crates_ref
proof unfold_locales
  show "\<exists>b. bincode_serialize crates_ref d = Ok b \<and> bincode_deserialize crates_ref b = Ok d" for d
    by (simp add: crates_ref_def dec_enc_entry)
  show "\<exists>digest. var_blake2b crates_ref 32 bs = Some digest \<and> length digest = 32" for bs
    by (simp add: crates_ref_def)
  show "m = n \<and> bs = cs" if "leb128_unsigned crates_ref m @ bs = leb128_unsigned crates_ref n @ cs" for m n bs cs
    using leb128_prefix [of "unat m" bs "unat n" cs] that by (simp add: crates_ref_def word_unat_eq_iff)
qed

end
