(* ===== verification/Context_Api.thy ===== *)
theory Context_Api
  imports Context_Ops Context_Ref
begin

text \<open>
  The operations of \<^verbatim>\<open>ProtocolContextApi\<close>. \<open>tree_step\<close> is what the code does with them, on an abstract tree of directories and values;
  any sequence of them on a context over heap and repository gives the results it gives on the tree.
  \<open>kv_step\<close> is what the documentation promises, on a store of values by path; the two agree where the code
  keeps to its documentation.
\<close>

section \<open>Operations\<close>

datatype context_op =
    CtxAdd "string list" bytes
  | CtxDelete "string list"
  | CtxCopy "string list" "string list"
  | CtxEmpty
  | CtxFind "string list"
  | CtxMem "string list"
  | CtxMemTree "string list"

datatype context_out = OutUpdated | OutNone | OutValue "bytes option" | OutBool bool

type_synonym 't context_state = "'t tezedge_context \<times> 't session"

fun kept :: "'t tezedge_context \<Rightarrow> (context_error, 't tezedge_context) res \<times> 't session
    \<Rightarrow> (context_error, context_out) res \<times> 't context_state" where
  \<comment> \<open>the new context, or the old one after a failure\<close>
  "kept c (Ok c', s) = (Ok OutUpdated, c', s)"
| "kept c (Err e, s) = (Err e, c, s)"
| "kept c (Panic, s) = (Panic, c, s)"

fun kept_option :: "'t tezedge_context \<Rightarrow> (context_error, 't tezedge_context option) res \<times> 't session
    \<Rightarrow> (context_error, context_out) res \<times> 't context_state" where
  "kept_option c (Ok (Some c'), s) = (Ok OutUpdated, c', s)"
| "kept_option c (Ok None, s) = (Ok OutNone, c, s)"
| "kept_option c (Err e, s) = (Err e, c, s)"
| "kept_option c (Panic, s) = (Panic, c, s)"

fun looked_up :: "('a \<Rightarrow> context_out) \<Rightarrow> 't tezedge_context \<Rightarrow> (context_error, 'a) res \<times> 't session
    \<Rightarrow> (context_error, context_out) res \<times> 't context_state" where
  "looked_up out c (Ok r, s) = (Ok (out r), c, s)"
| "looked_up out c (Err e, s) = (Err e, c, s)"
| "looked_up out c (Panic, s) = (Panic, c, s)"

fun context_step :: "'t ordmap \<Rightarrow> context_crates \<Rightarrow> 't context_state \<Rightarrow> context_op
    \<Rightarrow> (context_error, context_out) res \<times> 't context_state" where
  "context_step M X (c, s) (CtxAdd key v) = kept c (context_add M X c key v s)"
| "context_step M X (c, s) (CtxDelete key) = kept c (context_delete M X c key s)"
| "context_step M X (c, s) (CtxCopy from_key to_key) = kept_option c (context_copy M X c from_key to_key s)"
| "context_step M X (c, s) CtxEmpty = kept c (context_empty M c s)"
| "context_step M X (c, s) (CtxFind key) = looked_up OutValue c (context_find M X c key s)"
| "context_step M X (c, s) (CtxMem key) = looked_up OutBool c (context_mem M X c key s)"
| "context_step M X (c, s) (CtxMemTree key) = looked_up OutBool c (context_mem_tree M X c key s)"

fun lookup_out :: "('a \<Rightarrow> context_out) \<Rightarrow> (merkle_error, 'a) res \<Rightarrow> (context_error, context_out) res" where
  "lookup_out out (Ok r) = Ok (out r)"
| "lookup_out out (Err e) = Err (MerkleStorageError e)"
| "lookup_out out Panic = Panic"

text \<open>What the code does, on the abstract tree.\<close>

fun tree_step :: "adir \<Rightarrow> context_op \<Rightarrow> (context_error, context_out) res \<times> adir" where
  "tree_step es (CtxAdd key v) =
     (if key = [] then (Err (MerkleStorageError (MFoundUnexpectedStructure ''tree'' ''blob'')), es)
      else (Ok OutUpdated, aput key (Some (ABlob v)) es))"
| "tree_step es (CtxDelete key) = (Ok OutUpdated, if key = [] then es else aput key None es)"
| "tree_step es (CtxCopy from_key to_key) =
     (Ok OutUpdated,
      let sub = adir_at from_key es in if to_key = [] then sub else aput to_key (Some (ADir sub)) es)"
| "tree_step es CtxEmpty = (Ok OutUpdated, [])"
| "tree_step es (CtxFind key) = (lookup_out OutValue (afind es key), es)"
| "tree_step es (CtxMem key) = (lookup_out OutBool (amem es key), es)"
| "tree_step es (CtxMemTree key) = (Ok (OutBool (adir_at key es \<noteq> [])), es)"

section \<open>Refinement\<close>

definition context_ok :: "'t ordmap \<Rightarrow> context_crates \<Rightarrow> nat \<Rightarrow> 't context_state \<Rightarrow> adir \<Rightarrow> bool" where
  \<comment> \<open>the context stands for a directory and its generator has \<open>n\<close> tree ids left\<close>
  "context_ok M X n cs es \<longleftrightarrow>
     (case cs of (c, s) \<Rightarrow>
       wf_ctx M (ss_ctx s) \<and> wt_rep M X (ss_ctx s) (tc_tree c) (ADir es)
       \<and> tc_tree_id_generator c < length (ss_generators s)
       \<and> ss_generators s ! tc_tree_id_generator c + n \<le> TREE_ID_MAX)"

context context_store
begin

lemma with_tree_ok:
  assumes "context_ok M X (Suc n) (c, s) es" and "ext M X (ss_ctx s) x" and "wf_ctx M x" and "wt_rep M X x w (ADir es')"
  obtains c' s' where "with_tree c w (s\<lparr>ss_ctx := x\<rparr>) = (Ok c' :: (context_error, 't tezedge_context) res, s')" "context_ok M X n (c', s') es'"
  using assms that
  by (simp add: with_tree_def bind_call_def tree_id_next_def context_ok_def)

lemma context_ok_lookup:
  assumes "context_ok M X (Suc n) (c, s) es" and "ext M X (ss_ctx s) x" and "wf_ctx M x"
  shows "context_ok M X n (c, s\<lparr>ss_ctx := x\<rparr>) es"
  using assms wt_rep_ext [OF assms(2), of "tc_tree c" "ADir es"] by (simp add: context_ok_def)

lemma lookup_step:
  assumes "context_ok M X (Suc n) (c, s) es" and "returns M X (ss_ctx s) m r"
  shows "\<exists>s'. looked_up out c (in_ctx m s) = (lookup_out out r, c, s') \<and> context_ok M X n (c, s') es"
proof -
  obtain x where x: "m (ss_ctx s) = (r, x)" "ext M X (ss_ctx s) x" "wf_ctx M x"
    using assms(2) by (auto simp: returns_def)
  then show ?thesis
    using context_ok_lookup [OF assms(1) x(2,3)] by (cases r) (auto simp: in_ctx_def)
qed

lemma update_step:
  assumes "context_ok M X (Suc n) (c, s) es"
    and "m (ss_ctx s) = (Ok w, x)" "ext M X (ss_ctx s) x" "wf_ctx M x" "wt_rep M X x w (ADir es')"
  shows "\<exists>c' s'. kept c (bind_call (in_ctx m) (with_tree c) s) = (Ok OutUpdated, c', s') \<and> context_ok M X n (c', s') es'"
proof -
  obtain c' s' where "with_tree c w (s\<lparr>ss_ctx := x\<rparr>) = (Ok c' :: (context_error, 't tezedge_context) res, s')" "context_ok M X n (c', s') es'"
    using with_tree_ok [OF assms(1,3-5)] .
  with assms(2) show ?thesis by (auto simp: bind_call_def in_ctx_def)
qed

lemma step_refines:
  assumes "context_ok M X (Suc n) cs es"
  obtains cs' where "context_step M X cs oper = (fst (tree_step es oper), cs')" "context_ok M X n cs' (snd (tree_step es oper))"
proof -
  obtain c s where cs: "cs = (c, s)" by (cases cs)
  note ok = assms [unfolded cs]
  have wf: "wf_ctx M (ss_ctx s)" "wt_rep M X (ss_ctx s) (tc_tree c) (ADir es)" using ok by (simp_all add: context_ok_def)
  have "\<exists>cs'. context_step M X cs oper = (fst (tree_step es oper), cs') \<and> context_ok M X n cs' (snd (tree_step es oper))"
  proof (cases oper)
    case (CtxAdd key v)
    show ?thesis
    proof (cases "key = []")
      case True
      with CtxAdd show ?thesis
        using context_ok_lookup [OF ok ext_refl wf(1)] by (simp add: cs context_add_def bind_call_def in_ctx_def add_root)
    next
      case False
      with add_ok [OF wf False, of v] show ?thesis
        using update_step [OF ok] CtxAdd by (fastforce simp: cs context_add_def)
    qed
  next
    case (CtxDelete key)
    with delete_ok [OF wf, of key] show ?thesis
      using update_step [OF ok] by (fastforce simp: cs context_delete_def)
  next
    case (CtxCopy from_key to_key)
    obtain w x where x: "copy M X (tc_tree c) from_key to_key (ss_ctx s) = (Ok (Some w), x)" "ext M X (ss_ctx s) x" "wf_ctx M x"
      "wt_rep M X x w (ADir (snd (tree_step es oper)))"
      by (rule copy_ok [OF wf, of from_key to_key]) (rule that, use CtxCopy in \<open>simp_all add: Let_def del: wt_rep.simps split: if_splits\<close>)
    obtain c' s' where "with_tree c w (s\<lparr>ss_ctx := x\<rparr>) = (Ok c' :: (context_error, 't tezedge_context) res, s')" "context_ok M X n (c', s') (snd (tree_step es oper))"
      using with_tree_ok [OF ok x(2-4)] .
    with x(1) CtxCopy show ?thesis by (auto simp: cs context_copy_def bind_call_def in_ctx_def)
  next
    case CtxEmpty
    obtain c' s' where "with_tree c (WTree (om_new M)) (s\<lparr>ss_ctx := ss_ctx s\<rparr>) = (Ok c' :: (context_error, 't tezedge_context) res, s')" "context_ok M X n (c', s') []"
      by (rule with_tree_ok [OF ok ext_refl wf(1), where w = "WTree (om_new M)" and es' = "[]"]) simp
    with CtxEmpty show ?thesis by (auto simp: cs context_empty_def)
  next
    case (CtxFind key)
    with lookup_step [OF ok find_returns [OF wf, of key], of OutValue] show ?thesis
      by (auto simp: cs context_find_def)
  next
    case (CtxMem key)
    with lookup_step [OF ok mem_returns [OF wf, of key], of OutBool] show ?thesis
      by (auto simp: cs context_mem_def)
  next
    case (CtxMemTree key)
    with lookup_step [OF ok mem_tree_returns [OF wf, of key], of OutBool] show ?thesis
      by (auto simp: cs context_mem_tree_def)
  qed
  with that show ?thesis by blast
qed

lemma steps_refine:
  "context_ok M X (length ops) cs es \<Longrightarrow> run_ops (context_step M X) cs ops = run_ops tree_step es ops"
proof (induction ops arbitrary: cs es)
  case (Cons oper ops)
  obtain cs' where "context_step M X cs oper = (fst (tree_step es oper), cs')"
    "context_ok M X (length ops) cs' (snd (tree_step es oper))"
    using step_refines [of "length ops" cs es oper] Cons.prems by auto
  with Cons.IH show ?case by (simp add: split_beta)
qed simp

end

section \<open>The documented store\<close>

text \<open>
  The comments of \<^verbatim>\<open>ProtocolContextApi\<close> describe a store of values by path: \<open>add\<close> sets a key-value, \<open>delete\<close> deletes it, \<open>copy\<close> copies the
  subtree under a key and returns \<open>None\<close> when the key does not exist, \<open>mem\<close> checks that a value exists and \<open>mem_tree\<close> that
  a directory does. A directory exists when there is a value below it.
\<close>

type_synonym kv = "string list \<Rightarrow> bytes option"

definition kv_dir :: "kv \<Rightarrow> string list \<Rightarrow> bool" where
  "kv_dir m key \<longleftrightarrow> (\<exists>p. p \<noteq> [] \<and> m (key @ p) \<noteq> None)"

definition kv_set :: "string list \<Rightarrow> kv \<Rightarrow> kv \<Rightarrow> kv" where
  \<comment> \<open>what is below a key replaced; a value above it makes room for a directory\<close>
  "kv_set key new m = (\<lambda>p. if prefix key p then new (drop (length key) p) else if prefix p key then None else m p)"

fun kv_step :: "kv \<Rightarrow> context_op \<Rightarrow> (context_error, context_out) res \<times> kv" where
  "kv_step m (CtxAdd key v) =
     (if key = [] then (Err (MerkleStorageError (MFoundUnexpectedStructure ''tree'' ''blob'')), m)
      else (Ok OutUpdated, kv_set key [[] \<mapsto> v] m))"
| "kv_step m (CtxDelete key) =
     (Ok OutUpdated, if key = [] then m else (\<lambda>p. if prefix key p then None else m p))"
| "kv_step m (CtxCopy from_key to_key) =
     (if m from_key \<noteq> None \<or> kv_dir m from_key then (Ok OutUpdated, kv_set to_key (\<lambda>p. m (from_key @ p)) m)
      else (Ok OutNone, m))"
| "kv_step m CtxEmpty = (Ok OutUpdated, Map.empty)"
| "kv_step m (CtxFind key) =
     (if key = [] then Err (MerkleStorageError MKeyEmpty)
      else if kv_dir m key then Err (MerkleStorageError (MValueIsNotABlob (join_key key)))
      else Ok (OutValue (m key)), m)"
| "kv_step m (CtxMem key) =
     (if key = [] then Err (MerkleStorageError MKeyEmpty) else Ok (OutBool (m key \<noteq> None)), m)"
| "kv_step m (CtxMemTree key) = (Ok (OutBool (kv_dir m key)), m)"

text \<open>
  The operations on which the code keeps to its documentation: it does not when a key below a value is deleted (the value is), when
  the source of a copy is missing or a value (an empty directory is copied), and when \<open>mem\<close> is asked for a
  directory (it is true).
\<close>

fun as_documented :: "kv \<Rightarrow> context_op \<Rightarrow> bool" where
  "as_documented m (CtxDelete key) \<longleftrightarrow> (\<forall>p. strict_prefix p key \<longrightarrow> m p = None)"
| "as_documented m (CtxCopy from_key to_key) \<longleftrightarrow> kv_dir m from_key"
| "as_documented m (CtxMem key) \<longleftrightarrow> \<not> kv_dir m key"
| "as_documented m _ \<longleftrightarrow> True"

fun all_documented :: "kv \<Rightarrow> context_op list \<Rightarrow> bool" where
  "all_documented m [] \<longleftrightarrow> True"
| "all_documented m (oper # ops) \<longleftrightarrow> as_documented m oper \<and> all_documented (snd (kv_step m oper)) ops"

text \<open>A tree without empty directories is determined by its values.\<close>

fun no_empty :: "atree \<Rightarrow> bool" where
  "no_empty (ABlob b) \<longleftrightarrow> True"
| "no_empty (ADir es) \<longleftrightarrow> es \<noteq> [] \<and> (\<forall>p \<in> set es. no_empty (snd p))"

definition dir_ok :: "adir \<Rightarrow> bool" where
  "dir_ok es \<longleftrightarrow> (\<forall>p \<in> set es. no_empty (snd p))"

lemma no_empty_dir: "no_empty (ADir es) \<longleftrightarrow> es \<noteq> [] \<and> dir_ok es"
  by (simp add: dir_ok_def)

lemma dir_ok_Nil [simp]: "dir_ok []"
  by (simp add: dir_ok_def)

lemma dir_ok_get: "dir_ok es \<Longrightarrow> map_of es k = Some t \<Longrightarrow> no_empty t"
  by (force simp: dir_ok_def dest: map_of_SomeD)

lemma dir_ok_at: "dir_ok es \<Longrightarrow> dir_ok (adir_at key es)"
proof (induction key es rule: adir_at.induct)
  case (2 k ks es)
  then show ?case by (auto split: option.split atree.split dest: dir_ok_get simp: no_empty_dir simp del: no_empty.simps)
qed simp

lemma dir_ok_insert: "dir_ok es \<Longrightarrow> no_empty t \<Longrightarrow> dir_ok (alist_insert k t es)"
  by (induction k t es rule: alist_insert.induct) (auto simp: dir_ok_def)

lemma dir_ok_remove: "dir_ok es \<Longrightarrow> dir_ok (alist_remove k es)"
  by (auto simp: dir_ok_def alist_remove_def)

lemma dir_ok_aput: "dir_ok es \<Longrightarrow> (\<And>t. x = Some t \<Longrightarrow> no_empty t) \<Longrightarrow> key \<noteq> [] \<Longrightarrow> dir_ok (aput key x es)"
proof (induction key x es rule: aput.induct)
  case (3 k j ks x es)
  then have "dir_ok (aput (j # ks) x (adir_at [k] es))" using dir_ok_at [of es "[k]"] by auto
  with 3(2) show ?case
    by (auto simp: Let_def no_empty_dir dir_ok_remove simp del: no_empty.simps adir_at.simps intro!: dir_ok_insert)
qed (auto simp: dir_ok_insert dir_ok_remove split: option.split)

lemma no_empty_value: "no_empty t \<Longrightarrow> \<exists>p. tvalue t p \<noteq> None"
proof (induction t rule: no_empty.induct)
  case (2 es)
  then obtain k u es' where es: "es = (k, u) # es'" by (cases es) auto
  then obtain p where "tvalue u p \<noteq> None" using 2(1) [of "(k, u)"] 2(2) by auto
  then have "avalue es (k # p) \<noteq> None" by (simp add: es avalue_Cons)
  then show ?case by (auto simp: tvalue_def)
qed (auto simp: tvalue_def)

lemma avalue_adir_at: "p \<noteq> [] \<Longrightarrow> avalue (adir_at key es) p = avalue es (key @ p)"
proof (induction key es rule: adir_at.induct)
  case (2 k ks es)
  then show ?case by (auto simp: avalue_Cons tvalue_def split: option.split atree.split)
qed simp

lemma kv_dir_at:
  assumes "dir_ok es"
  shows "kv_dir (avalue es) key \<longleftrightarrow> adir_at key es \<noteq> []"
proof
  assume "kv_dir (avalue es) key"
  then obtain p where "p \<noteq> []" "avalue es (key @ p) \<noteq> None" by (auto simp: kv_dir_def)
  then show "adir_at key es \<noteq> []" using avalue_adir_at [of p key es] by auto
next
  assume "adir_at key es \<noteq> []"
  then have "no_empty (ADir (adir_at key es))" using dir_ok_at [OF assms] by (simp add: no_empty_dir del: no_empty.simps)
  from no_empty_value [OF this] obtain p where p: "avalue (adir_at key es) p \<noteq> None" by (auto simp: tvalue_def)
  then have "p \<noteq> []" by auto
  with p show "kv_dir (avalue es) key" by (auto simp: kv_dir_def avalue_adir_at)
qed

lemma at_last: "key \<noteq> [] \<Longrightarrow> adir_at key es = (case map_of (adir_at (butlast key) es) (last key) of Some (ADir d) \<Rightarrow> d | _ \<Rightarrow> [])"
  using adir_at_append [of "butlast key" "[last key]" es] by (simp split: option.splits atree.splits)

lemma value_last: "key \<noteq> [] \<Longrightarrow> avalue es key = (case map_of (adir_at (butlast key) es) (last key) of Some (ABlob b) \<Rightarrow> Some b | _ \<Rightarrow> None)"
  using adir_at_value [of es "butlast key" "last key"] by simp

lemma dir_last:
  assumes "dir_ok es" and "key \<noteq> []"
  shows "kv_dir (avalue es) key \<longleftrightarrow> (\<exists>d. map_of (adir_at (butlast key) es) (last key) = Some (ADir d))"
  using dir_ok_get [OF dir_ok_at [OF assms(1)], of "butlast key" "last key"] kv_dir_at [OF assms(1), of key] at_last [OF assms(2), of es]
  by (auto split: option.splits atree.splits)

lemma documented_step:
  assumes "dir_ok es" and "as_documented (avalue es) oper"
  shows "kv_step (avalue es) oper = (fst (tree_step es oper), avalue (snd (tree_step es oper)))"
    and "dir_ok (snd (tree_step es oper))"
proof -
  show "dir_ok (snd (tree_step es oper))"
  proof (cases oper)
    case (CtxCopy from_key to_key)
    then have "adir_at from_key es \<noteq> []" using assms kv_dir_at [OF assms(1)] by simp
    then have "no_empty (ADir (adir_at from_key es))" using dir_ok_at [OF assms(1)] by (simp add: no_empty_dir del: no_empty.simps)
    then show ?thesis using CtxCopy dir_ok_at [OF assms(1), of from_key] dir_ok_aput [OF assms(1), of "Some (ADir (adir_at from_key es))" to_key]
      by (auto simp: Let_def)
  qed (use assms(1) in \<open>auto intro!: dir_ok_aput\<close>)
  show "kv_step (avalue es) oper = (fst (tree_step es oper), avalue (snd (tree_step es oper)))"
  proof (cases oper)
    case (CtxAdd key v)
    then show ?thesis by (auto simp: kv_set_def avalue_aput tvalue_def fun_eq_iff prefix_def)
  next
    case (CtxDelete key)
    then have "avalue es p = None" if "prefix p key" "p \<noteq> key" for p using assms(2) that by (simp add: strict_prefix_def)
    then show ?thesis using CtxDelete by (auto simp: avalue_aput fun_eq_iff)
  next
    case (CtxCopy from_key to_key)
    then have dir: "kv_dir (avalue es) from_key" using assms(2) by simp
    have no: "avalue es from_key = None"
      using dir dir_last [OF assms(1), of from_key] value_last [of from_key es] by (cases "from_key = []") auto
    have sub: "avalue (adir_at from_key es) p = avalue es (from_key @ p)" for p
      using no avalue_adir_at [of p from_key es] by (cases "p = []") auto
    show ?thesis using CtxCopy dir sub by (auto simp: Let_def kv_set_def avalue_aput tvalue_def fun_eq_iff)
  next
    case (CtxFind key)
    then show ?thesis using dir_last [OF assms(1), of key] value_last [of key es]
      by (auto simp: afind_def split: option.splits atree.splits)
  next
    case (CtxMem key)
    then show ?thesis using dir_last [OF assms(1), of key] value_last [of key es] assms(2)
      by (auto simp: amem_def split: option.splits atree.splits)
  next
    case (CtxMemTree key)
    then show ?thesis using kv_dir_at [OF assms(1)] by simp
  qed (simp add: fun_eq_iff)
qed

lemma documented_run:
  "dir_ok es \<Longrightarrow> all_documented (avalue es) ops \<Longrightarrow> run_ops tree_step es ops = run_ops kv_step (avalue es) ops"
proof (induction ops arbitrary: es)
  case (Cons oper ops)
  then show ?case using documented_step [of es oper] by (simp add: split_beta)
qed simp

section \<open>Properties\<close>

lemma avalue_empty: "avalue [] = Map.empty"
  by (simp add: fun_eq_iff)

lemma tree_step_no_panic: "fst (tree_step es oper) \<noteq> Panic"
  by (cases oper) (auto simp: afind_def amem_def split: option.splits atree.splits)

text \<open>
  C6. A context is the store of values by path that its documentation describes: any sequence of additions, deletions, copies
  and lookups gives the results, errors included, that it gives on the store of the values of the tree the
  context stands for, whatever part of it is in memory, in the repository or shared with other contexts.
  The conditions: the heap, the repository, which has handed out no free ids, and the interner are well formed, the
  generator has a tree id left for each operation, the tree has no empty directory, and no operation is one
  of those on which the code departs from its documentation: a deletion below a value, a copy from a key that is
  missing or a value, and \<^verbatim>\<open>mem\<close> of a directory.
\<close>

theorem context_refines_store:
  assumes "ordmap_laws M" and "context_crates_laws X" and "context_ok M X (length ops) (c, s) es" and "dir_ok es"
    and "all_documented (avalue es) ops"
  shows "run_ops (context_step M X) (c, s) ops = run_ops kv_step (avalue es) ops"
  using context_store.steps_refine [OF context_store.intro [OF assms(1,2)] assms(3)] documented_run [OF assms(4,5)] by simp

definition empty_ctx :: "'t ctx" where
  "empty_ctx = \<lparr>cx_heap = [], cx_repo = in_memory_new None, cx_strings = {}\<rparr>"

definition fresh_session :: "'t session" where
  "fresh_session = \<lparr>ss_ctx = empty_ctx, ss_generators = [1]\<rparr>"

definition fresh_context :: "'t ordmap \<Rightarrow> 't tezedge_context" where
  "fresh_context M = \<lparr>tc_parent_commit_hash = None, tc_tree_id = 1, tc_tree_id_generator = 0, tc_tree = WTree (om_new M)\<rparr>"

lemma fresh_context_new:
  "context_new M None None (fresh_session\<lparr>ss_generators := []\<rparr>) = (Ok (fresh_context M), fresh_session)"
  by (simp add: context_new_def tree_id_generator_new_def tree_id_next_def bind_call_def fresh_context_def
      fresh_session_def TREE_ID_MAX_def)

lemma wf_empty_ctx: "wf_ctx M empty_ctx"
  by (simp add: wf_ctx_def wf_store_def empty_ctx_def in_memory_new_def hash_value_store_new_def no_free_ids_def)

lemma fresh_context_ok: "n < TREE_ID_MAX \<Longrightarrow> ordmap_laws M \<Longrightarrow> context_ok M X n (fresh_context M, fresh_session) []"
  using ordmap_laws.iter_new [of M]
  by (simp add: context_ok_def fresh_context_def fresh_session_def wf_empty_ctx rep_tree_def)

theorem context_refines_store_witness:
  "run_ops (context_step ordmap_ref crates_ref) (fresh_context ordmap_ref, fresh_session)
     [CtxAdd [''a'', ''b''] [1], CtxCopy [''a''] [''c''], CtxDelete [''a'', ''b''], CtxMem [''a'', ''b''], CtxMem [''c'', ''b''], CtxFind [''c'', ''b'']]
   = [Ok OutUpdated, Ok OutUpdated, Ok OutUpdated, Ok (OutBool False), Ok (OutBool True), Ok (OutValue (Some [1]))]"
proof -
  let ?ops = "[CtxAdd [''a'', ''b''] [1], CtxCopy [''a''] [''c''], CtxDelete [''a'', ''b''], CtxMem [''a'', ''b''], CtxMem [''c'', ''b''], CtxFind [''c'', ''b'']]"
  define m1 m2 m3 :: kv where "m1 = [[''a'', ''b''] \<mapsto> [1]]" and "m2 = [[''a'', ''b''] \<mapsto> [1], [''c'', ''b''] \<mapsto> [1]]"
    and "m3 = [[''c'', ''b''] \<mapsto> [1]]"
  note m = m1_def m2_def m3_def
  have dir: "kv_dir m1 [''a'']" unfolding m kv_dir_def by (rule exI [of _ "[''b'']"]) simp
  have steps: "kv_step (avalue []) (CtxAdd [''a'', ''b''] [1]) = (Ok OutUpdated, m1)"
    "kv_step m1 (CtxCopy [''a''] [''c'']) = (Ok OutUpdated, m2)" "kv_step m2 (CtxDelete [''a'', ''b'']) = (Ok OutUpdated, m3)"
    using dir by (auto simp: m kv_set_def fun_eq_iff prefix_def avalue_empty)
  have m3: "\<not> kv_dir m3 [x, ''b'']" "m3 [''a'', ''b''] = None" "m3 [''c'', ''b''] = Some [1]" for x
    by (simp_all add: m kv_dir_def)
  have above: "strict_prefix p [''a'', ''b''] \<Longrightarrow> m2 p = None" for p by (auto simp: m)
  have docs: "all_documented (avalue []) ?ops"
    using dir above m3 by (simp add: steps del: kv_step.simps(1-3))
  have "run_ops (context_step ordmap_ref crates_ref) (fresh_context ordmap_ref, fresh_session) ?ops = run_ops kv_step (avalue []) ?ops"
    by (rule context_refines_store [OF ordmap_ref.ordmap_laws_axioms ctx_ref.context_crates_laws_axioms
          fresh_context_ok [OF _ ordmap_ref.ordmap_laws_axioms] dir_ok_Nil docs]) (simp add: TREE_ID_MAX_def)
  also have "\<dots> = [Ok OutUpdated, Ok OutUpdated, Ok OutUpdated, Ok (OutBool False), Ok (OutBool True), Ok (OutValue (Some [1]))]"
    using m3 by (simp add: steps del: kv_step.simps(1-3))
  finally show ?thesis .
qed

text \<open>
  Where the code departs from its documentation: \<^verbatim>\<open>copy\<close> of a missing key succeeds and puts an empty directory at the target, which \<^verbatim>\<open>mem\<close>
  then reports as a value.
\<close>

theorem copy_of_missing_succeeds:
  assumes "ordmap_laws M" and "context_crates_laws X" and "context_ok M X 2 (c, s) es"
    and "adir_at from_key es = []" and "to_key = [k]"
  shows "run_ops (context_step M X) (c, s) [CtxCopy from_key to_key, CtxMem to_key] = [Ok OutUpdated, Ok (OutBool True)]"
  using context_store.steps_refine [OF context_store.intro [OF assms(1,2)], of "[CtxCopy from_key to_key, CtxMem to_key]" "(c, s)" es] assms(3-5)
  by (simp add: numeral_2_eq_2 amem_def)

theorem copy_of_missing_succeeds_witness:
  "run_ops (context_step ordmap_ref crates_ref) (fresh_context ordmap_ref, fresh_session) [CtxCopy [''a''] [''b''], CtxMem [''b'']]
   = [Ok OutUpdated, Ok (OutBool True)]"
  using copy_of_missing_succeeds [OF ordmap_ref.ordmap_laws_axioms ctx_ref.context_crates_laws_axioms
      fresh_context_ok [OF _ ordmap_ref.ordmap_laws_axioms], of "[''a'']" "[''b'']" "''b''"]
  by (simp add: TREE_ID_MAX_def)



end
