(* ===== verification/Context_Hashing.thy ===== *)
theory Context_Hashing
  imports Context_Lookup
begin

text \<open>
  Hashing a tree: whatever nodes are in memory, already hashed, or only in the repository, the digest stored for
  the tree is the hash of what it stands for. The only other outcome is that the ids of hashes run out.
\<close>

section \<open>What hashing changes\<close>

definition exhausted :: "'e \<Rightarrow> 't ctx \<Rightarrow> bool" where
  "exhausted e s \<longleftrightarrow> 2 ^ 64 \<le> length (hv_hashes (hv s))"

definition hash_ext :: "'t ctx \<Rightarrow> 't ctx \<Rightarrow> bool" where
  \<comment> \<open>only hash cells and digests are added\<close>
  "hash_ext s s' \<longleftrightarrow>
     length (cx_heap s') = length (cx_heap s) \<and> st_value s' = st_value s
     \<and> length (hv_hashes (hv s)) \<le> length (hv_hashes (hv s'))
     \<and> (\<forall>b < length (cx_heap s). node_kind (cx_heap s' ! b) = node_kind (cx_heap s ! b)
         \<and> commited (cx_heap s' ! b) = commited (cx_heap s ! b) \<and> entry_cell (cx_heap s' ! b) = entry_cell (cx_heap s ! b)
         \<and> (entry_hash_cell (cx_heap s ! b) \<noteq> None \<longrightarrow> entry_hash_cell (cx_heap s' ! b) \<noteq> None))"

lemma hash_ext_refl [simp]: "hash_ext s s"
  by (simp add: hash_ext_def)

lemma hash_ext_trans: "hash_ext s s' \<Longrightarrow> hash_ext s' s'' \<Longrightarrow> hash_ext s s''"
  by (auto simp: hash_ext_def)

section \<open>New digests\<close>

definition add_hash :: "'t ctx \<Rightarrow> bytes \<Rightarrow> hash_id list \<Rightarrow> 't ctx" where
  "add_hash s d ids = s\<lparr>cx_repo := (cx_repo s)\<lparr>im_hashes := (hv s)\<lparr>hv_hashes := hv_hashes (hv s) @ [d], hv_new_ids := hv_new_ids (hv s) @ ids\<rparr>\<rparr>\<rparr>"

lemma add_hash_simps [simp]:
  "cx_heap (add_hash s d ids) = cx_heap s" "hv_hashes (hv (add_hash s d ids)) = hv_hashes (hv s) @ [d]"
  "st_value (add_hash s d ids) = st_value s" "hv_values (hv (add_hash s d ids)) = hv_values (hv s)"
  "hv_free_ids (hv (add_hash s d ids)) = hv_free_ids (hv s)"
  by (auto simp: add_hash_def st_value_def im_get_value_def hv_get_value_def fun_eq_iff)

lemma st_hash_nth: "st_hash s h = (if h \<noteq> 0 \<and> unat h \<le> length (hv_hashes (hv s)) then Some (hv_hashes (hv s) ! (unat h - 1)) else None)"
  using unat_gt_0 [of h]
  by (auto simp: st_hash_def im_get_hash_def get_hash_def entries_get_def into_usize_def checked_sub_def Suc_le_eq
      split: option.splits)

lemma add_hash_ext: "ext M X s (add_hash s d ids)"
proof -
  have le: "st_hash s \<subseteq>\<^sub>m st_hash (add_hash s d ids)"
  proof (unfold map_le_def, intro ballI)
    fix h assume "h \<in> dom (st_hash s)"
    then have "0 < unat h" "unat h \<le> length (hv_hashes (hv s))"
      by (auto simp: st_hash_nth unat_gt_0 split: if_splits)
    then show "st_hash s h = st_hash (add_hash s d ids) h" by (auto simp: st_hash_nth nth_append)
  qed
  have "st_rep M X (add_hash s d ids) a t" if "st_rep M X s a t" for a t
    using that
    by (rule rep_ext) (use le in \<open>auto dest!: rep_node_facts(2) intro: cells_ok_mono\<close>)
  with le show ?thesis by (simp add: ext_def)
qed

lemma add_hash_wf:
  assumes "wf_ctx M s"
  shows "wf_ctx M (add_hash s d ids)"
proof -
  have "wf_node M (add_hash s d ids) a" if "wf_node M s a" for a
  proof -
    have "wf_id (add_hash s d ids) h" if "wf_id s h" for h using that by (simp add: wf_id_def)
    with that show ?thesis unfolding wf_node_def Let_def add_hash_simps by blast
  qed
  with assms show ?thesis by (simp add: wf_ctx_def wf_store_def no_free_ids_def)
qed

definition fresh_id :: "'t ctx \<Rightarrow> hash_id \<Rightarrow> bool" where
  \<comment> \<open>an id in no cell and without a value\<close>
  "fresh_id s h \<longleftrightarrow> wf_id s h \<and> st_value s h = None \<and> (\<forall>b < length (cx_heap s). entry_hash_cell (cx_heap s ! b) \<noteq> Some h)"

context context_store
begin

lemma run_write_digest:
  assumes "wf_ctx M s" and "blake X bs = Some d"
  shows "run M X s (write_digest X bs) (\<lambda>h s'. st_hash s' h = Some d \<and> hash_ext s s' \<and> cx_heap s' = cx_heap s \<and> fresh_id s' h \<and> \<not> wf_id s h) exhausted"
proof -
  let ?n = "length (hv_hashes (hv s))"
  have free: "get_free_id (hv s) = (Ok None, hv s)"
    using assms(1) by (auto simp: wf_ctx_def wf_store_def no_free_ids_def get_free_id_def split: option.splits)
  have out: "length d = 32" using blake2b_size [of bs] assms(2) by (auto simp: ENTRY_HASH_LEN_def)
  show ?thesis
  proof (cases "?n + 1 < 2 ^ 64")
    case False
    then have "write_digest X bs s = (Err (HDBError DBHashIdFailed), add_hash s (replicate ENTRY_HASH_LEN 0) [])"
      by (simp add: write_digest_def assms(2) hash_id_of_db_def call_err_def with_repo_def im_get_vacant_entry_hash_def
          get_vacant_entry_hash_def bind_call_def free get_vacant_entry_def hash_id_from_usize_def checked_add_def
          usize_max_def db_of_hash_id_def add_hash_def)
    with False assms(1) show ?thesis
      by (simp add: run_def add_hash_ext add_hash_wf exhausted_def)
  next
    case True
    let ?h = "word_of_nat (?n + 1) :: hash_id"
    have h: "unat ?h = ?n + 1" using True by (simp only: unat_of_nat take_bit_nat_eq_self_iff) simp
    then have h0: "?h \<noteq> 0" by (metis add_is_0 one_neq_zero unat_0)
    have res: "write_digest X bs s = (Ok ?h, add_hash s d [?h])"
      using True h
      by (simp add: write_digest_def assms(2) hash_id_of_db_def call_err_def with_repo_def im_get_vacant_entry_hash_def
          get_vacant_entry_hash_def bind_call_def free get_vacant_entry_def hash_id_from_usize_def checked_add_def
          usize_max_def add_hash_def write_with_def del: of_nat_Suc of_nat_add)
    have none: "st_value s ?h = None"
      using st_value_wf_id [of s ?h] assms(1) h by (cases "st_value s ?h") (auto simp: wf_ctx_def wf_id_def)
    have "entry_hash_cell (cx_heap s ! b) \<noteq> Some ?h" if "b < length (cx_heap s)" for b
    proof
      assume "entry_hash_cell (cx_heap s ! b) = Some ?h"
      with assms(1) that have "unat ?h \<le> ?n" by (auto simp: wf_ctx_def wf_node_def wf_id_def Let_def)
      with h show False by simp
    qed
    with none have "fresh_id (add_hash s d [?h]) ?h" using h h0 by (simp add: fresh_id_def wf_id_def)
    moreover have "st_hash (add_hash s d [?h]) ?h = Some d" using h h0 by (simp add: st_hash_nth nth_append)
    moreover have "\<not> wf_id s ?h" using h by (simp add: wf_id_def)
    ultimately show ?thesis
      by (intro run_Ok [where r = ?h and s' = "add_hash s d [?h]"] res) (simp_all add: add_hash_ext add_hash_wf assms(1) hash_ext_def)
  qed
qed

text \<open>Entering a hash into the cell of a node.\<close>

lemma run_set_hash:
  assumes "wf_ctx M s" and "st_rep M X s a t" and "has_hash X (st_hash s) h t" and "fresh_id s h" and "\<not> commited (cx_heap s ! a)"
    and children: "\<And>tree p. entry_cell (cx_heap s ! a) = Some (ETree tree) \<Longrightarrow> p \<in> set (om_iter M tree) \<Longrightarrow> entry_hash_cell (cx_heap s ! snd p) \<noteq> None"
  shows "run M X s (update_node a (\<lambda>n. n\<lparr>entry_hash_cell := Some h\<rparr>))
    (\<lambda>_ s'. hash_ext s s' \<and> entry_hash_cell (cx_heap s' ! a) = Some h \<and> has_hash X (st_hash s') h t) E"
proof -
  let ?hp = "(cx_heap s)[a := (cx_heap s ! a)\<lparr>entry_hash_cell := Some h\<rparr>]"
  let ?s = "s\<lparr>cx_heap := ?hp\<rparr>"
  have a: "a < length (cx_heap s)" using rep_node_facts(1) [OF assms(2)] .
  have same: "entry_cell (?hp ! b) = entry_cell (cx_heap s ! b)" "commited (?hp ! b) = commited (cx_heap s ! b)"
    "node_kind (?hp ! b) = node_kind (cx_heap s ! b)" for b
    using a by (simp_all add: nth_list_update)
  have cell: "entry_hash_cell (?hp ! b) = (if b = a then Some h else entry_hash_cell (cx_heap s ! b))" for b
    using a by (simp add: nth_list_update)
  have rep: "st_rep M X ?s b u" if "st_rep M X s b u" for b u
    using that
  proof (rule rep_ext)
    fix b u assume b: "b < length (cx_heap s)" "st_rep M X s b u"
    have "u = t" if "b = a" using rep_node_unique [OF b(2)] assms(2) that by simp
    then have "cells_ok X (st_value ?s) (st_hash ?s) (?hp ! b) u"
      using rep_node_facts(2) [OF b(2)] assms(3,5) by (auto simp: cells_ok_def same cell)
    then show "cells_ok X (st_value ?s) (st_hash ?s) (cx_heap ?s ! b) u
      \<and> (entry_cell (cx_heap ?s ! b) = entry_cell (cx_heap s ! b) \<and> (commited (cx_heap s ! b) \<longrightarrow> commited (cx_heap ?s ! b))
         \<or> entry_cell (cx_heap s ! b) = None \<and> (\<exists>e. entry_cell (cx_heap ?s ! b) = Some e \<and> st_entry M X ?s e u))"
      using same by simp
  qed simp_all
  have "wf_node M ?s b" if b: "b < length (cx_heap s)" for b
  proof -
    have wfb: "wf_node M s b" using assms(1) b by (simp add: wf_ctx_def)
    have "wf_id s h" "st_value s h = None" "\<forall>b < length (cx_heap s). entry_hash_cell (cx_heap s ! b) \<noteq> Some h"
      using assms(4) by (simp_all add: fresh_id_def)
    with wfb children b show ?thesis
      by (cases "b = a") (auto simp: wf_node_def Let_def same cell wf_heap_update)
  qed
  then have wf: "wf_ctx M ?s" using assms(1) by (simp add: wf_ctx_def wf_heap_update)
  have "hash_ext s ?s" by (auto simp: hash_ext_def same cell)
  with wf rep assms(3) show ?thesis
    by (intro run_Ok [where s' = ?s]) (auto simp: update_node_def a ext_def)
qed

section \<open>The entries of a directory\<close>

definition rep_list :: "'t ctx \<Rightarrow> (string \<times> addr) list \<Rightarrow> adir \<Rightarrow> bool" where
  "rep_list s ps ts \<longleftrightarrow> list_all2 (\<lambda>p q. fst p = fst q \<and> st_rep M X s (snd p) (snd q)) ps ts"

definition hashed_dir :: "adir \<Rightarrow> hashed_entry list" where
  "hashed_dir ts = map (\<lambda>q. (fst q, akind (snd q), the (ahash X (snd q)))) ts"

definition cells_known :: "'t ctx \<Rightarrow> (string \<times> addr) list \<Rightarrow> bool" where
  "cells_known s ps \<longleftrightarrow> (\<forall>p \<in> set ps. entry_hash_cell (cx_heap s ! snd p) \<noteq> None)"

text \<open>The hash function of the nodes below, for the trees of a set.\<close>

definition nh_ok :: "'t node_hash \<Rightarrow> atree set \<Rightarrow> bool" where
  "nh_ok nh T \<longleftrightarrow>
     (\<forall>s a t. t \<in> T \<longrightarrow> wf_ctx M s \<longrightarrow> st_rep M X s a t \<longrightarrow>
        run M X s (nh a) (\<lambda>d s'. ahash X t = Some d \<and> hash_ext s s' \<and> entry_hash_cell (cx_heap s' ! a) \<noteq> None) exhausted)"

lemma rep_list_ext: "ext M X s s' \<Longrightarrow> rep_list s ps ts \<Longrightarrow> rep_list s' ps ts"
  unfolding rep_list_def by (erule list_all2_mono) (simp add: ext_rep)

lemma rep_list_addr: "rep_list s ps ts \<Longrightarrow> p \<in> set ps \<Longrightarrow> snd p < length (cx_heap s)"
  unfolding rep_list_def using rep_node_facts(1) by (fastforce simp: list_all2_conv_all_nth in_set_conv_nth)

lemma cells_known_ext: "hash_ext s s' \<Longrightarrow> cells_known s ps \<Longrightarrow> rep_list s ps ts \<Longrightarrow> cells_known s' ps"
  using rep_list_addr by (auto simp: cells_known_def hash_ext_def)

lemma run_hash_entries:
  fixes g :: "string \<Rightarrow> node_kind \<Rightarrow> bytes \<Rightarrow> bytes"
  assumes "wf_ctx M s" and "rep_list s ps ts" and "nh_ok nh (snd ` set ts)"
  shows "run M X s
    (fold_call (\<lambda>(name, a) bs. bind_call (read_node a) (\<lambda>n. bind_call (nh a) (\<lambda>hash. ret (bs @ g name (node_kind n) hash)))) ps b0)
    (\<lambda>bs s'. bs = b0 @ concat (map (\<lambda>(k, kind, hash). g k kind hash) (hashed_dir ts)) \<and> hash_ext s s' \<and> cells_known s' ps) exhausted"
proof -
  have len: "length ts = length ps" using assms(2) by (simp add: rep_list_def list_all2_lengthD)
  let ?I = "\<lambda>ys bs s'. bs = b0 @ concat (map (\<lambda>(k, kind, hash). g k kind hash) (hashed_dir (take (length ys) ts)))
     \<and> hash_ext s s' \<and> cells_known s' ys"
  have "run M X s
    (fold_call (\<lambda>(name, a) bs. bind_call (read_node a) (\<lambda>n. bind_call (nh a) (\<lambda>hash. ret (bs @ g name (node_kind n) hash)))) ps b0)
    (?I ps) exhausted"
  proof (rule run_fold [OF assms(1)])
    show "?I [] b0 s" by (simp add: hashed_dir_def cells_known_def)
  next
    fix ys x zs bs s1
    assume ps: "ps = ys @ x # zs" and s1: "ext M X s s1" "wf_ctx M s1" and I: "?I ys bs s1"
    obtain k a where x: "x = (k, a)" by (cases x)
    let ?t = "ts ! length ys"
    have rep: "rep_list s1 ps ts" using rep_list_ext [OF s1(1) assms(2)] .
    then have a: "k = fst ?t" "st_rep M X s1 a (snd ?t)"
      using list_all2_nthD [OF rep [unfolded rep_list_def], of "length ys"] by (simp_all add: ps x)
    have t: "snd ?t \<in> snd ` set ts" using len ps by auto
    have "run M X s1 (nh a) (\<lambda>d s'. ahash X (snd ?t) = Some d \<and> hash_ext s1 s' \<and> entry_hash_cell (cx_heap s' ! a) \<noteq> None) exhausted"
      using assms(3) t s1(2) a(2) unfolding nh_ok_def by blast
    then have step: "run M X s1 (bind_call (nh a) (\<lambda>hash. ret (bs @ g k (node_kind (cx_heap s1 ! a)) hash))) (?I (ys @ [x])) exhausted"
    proof (rule run_bind)
      fix d s2
      assume s2: "ext M X s1 s2" "wf_ctx M s2" and d: "ahash X (snd ?t) = Some d \<and> hash_ext s1 s2 \<and> entry_hash_cell (cx_heap s2 ! a) \<noteq> None"
      have "rep_list s1 ys (take (length ys) ts)"
        using list_all2_takeI [OF rep [unfolded rep_list_def], of "length ys"] ps by (simp add: rep_list_def)
      then have known: "cells_known s2 (ys @ [x])"
        using cells_known_ext [of s1 s2 ys] I d x by (auto simp: cells_known_def)
      have kind: "node_kind (cx_heap s1 ! a) = akind (snd ?t)"
        using rep_node_facts(2) [OF a(2)] by (simp add: cells_ok_def)
      have take: "take (Suc (length ys)) ts = take (length ys) ts @ [?t]"
        using len ps by (simp add: take_Suc_conv_app_nth)
      have dir: "hashed_dir (take (Suc (length ys)) ts) = hashed_dir (take (length ys) ts) @ [(k, node_kind (cx_heap s1 ! a), d)]"
        unfolding take using d by (simp add: hashed_dir_def kind a(1))
      show "run M X s2 (ret (bs @ g k (node_kind (cx_heap s1 ! a)) d)) (?I (ys @ [x])) exhausted"
        by (rule run_ret [OF s2(2)])
          (use I d known hash_ext_trans [of s s1 s2] in \<open>simp add: dir\<close>)
    qed
    show "run M X s1 ((case x of (name, a) \<Rightarrow> \<lambda>bs. bind_call (read_node a) (\<lambda>n. bind_call (nh a) (\<lambda>hash. ret (bs @ g name (node_kind n) hash)))) bs)
        (?I (ys @ [x])) exhausted"
      unfolding x prod.case
      by (rule run_bind [OF run_read_node [OF s1(2) rep_node_facts(1) [OF a(2)]]]) (use step x in simp)
  qed
  then show ?thesis by (simp add: len)
qed

section \<open>Directories\<close>

lemma run_digest_entries:
  fixes g :: "string \<Rightarrow> node_kind \<Rightarrow> bytes \<Rightarrow> bytes"
  assumes "wf_ctx M s" and "rep_list s ps ts" and "nh_ok nh (snd ` set ts)"
    and "blake X (b0 @ concat (map (\<lambda>(k, kind, hash). g k kind hash) (hashed_dir ts))) = Some d"
  shows "run M X s
    (bind_call (fold_call (\<lambda>(name, a) bs. bind_call (read_node a) (\<lambda>n. bind_call (nh a) (\<lambda>hash. ret (bs @ g name (node_kind n) hash)))) ps b0)
      (write_digest X))
    (\<lambda>h s'. st_hash s' h = Some d \<and> hash_ext s s' \<and> cells_known s' ps \<and> fresh_id s' h) exhausted"
proof (rule run_bind [OF run_hash_entries [OF assms(1-3)]])
  fix bs s1
  assume s1: "ext M X s s1" "wf_ctx M s1"
    and bs: "bs = b0 @ concat (map (\<lambda>(k, kind, hash). g k kind hash) (hashed_dir ts)) \<and> hash_ext s s1 \<and> cells_known s1 ps"
  show "run M X s1 (write_digest X bs)
      (\<lambda>h s'. st_hash s' h = Some d \<and> hash_ext s s' \<and> cells_known s' ps \<and> fresh_id s' h) exhausted"
    by (rule run_weaken [OF run_write_digest [OF s1(2)]])
      (use assms(4) bs in \<open>auto simp: cells_known_def intro: hash_ext_trans\<close>)
qed

lemma run_hash_short:
  assumes "wf_ctx M s" and "st_tree M X s tree ts" and "nh_ok nh (snd ` set ts)"
    and "blake X (short_prehash X (hashed_dir ts)) = Some d"
  shows "run M X s (hash_short_inode M X nh tree)
    (\<lambda>h s'. st_hash s' h = Some d \<and> hash_ext s s' \<and> cells_known s' (om_iter M tree) \<and> fresh_id s' h) exhausted"
proof -
  have rep: "rep_list s (om_iter M tree) ts" using assms(2) by (simp add: rep_list_def rep_tree_def)
  have "om_len M tree = length ts" using rep by (simp add: len_iter rep_list_def list_all2_lengthD)
  then show ?thesis
    unfolding hash_short_inode_def
    by (intro run_digest_entries [OF assms(1) rep assms(3),
          where g = "\<lambda>k kind hash. encode_irmin_node_kind kind @ leb128_len X (length (str_bytes k)) @ str_bytes k
            @ be_bytes 8 ENTRY_HASH_LEN @ hash"])
      (use assms(4) in \<open>simp add: short_prehash_def hashed_dir_def str_bytes_def\<close>)
qed

lemma run_hash_value:
  assumes "wf_ctx M s" and "rep_list s ps ts" and "nh_ok nh (snd ` set ts)"
    and "blake X (value_prehash X (hashed_dir ts)) = Some d"
  shows "run M X s (hash_long_inode X nh (InodeValue ps))
    (\<lambda>h s'. st_hash s' h = Some d \<and> hash_ext s s' \<and> cells_known s' ps \<and> fresh_id s' h) exhausted"
proof -
  have "length ps = length ts" using assms(2) by (simp add: rep_list_def list_all2_lengthD)
  then show ?thesis
    unfolding hash_long_inode_def inode.case
    by (intro run_digest_entries [OF assms(1-3),
          where g = "\<lambda>k kind hash. leb128_len X (length (str_bytes k)) @ str_bytes k @ inode_value_kind kind @ hash"])
      (use assms(4) in \<open>simp add: value_prehash_def hashed_dir_def str_bytes_def\<close>)
qed

definition pointers_ok :: "'t ctx \<Rightarrow> (nat \<times> hash_id) list \<Rightarrow> (nat \<times> bytes) list \<Rightarrow> bool" where
  "pointers_ok s hs ds \<longleftrightarrow> list_all2 (\<lambda>p q. fst p = fst q \<and> st_hash s (snd p) = Some (snd q)) hs ds"

lemma pointers_ok_ext: "ext M X s s' \<Longrightarrow> pointers_ok s hs ds \<Longrightarrow> pointers_ok s' hs ds"
  unfolding pointers_ok_def by (erule list_all2_mono) (auto simp: ext_def intro: map_le_Some)

lemma run_hash_inode_tree:
  assumes "wf_ctx M s" and "pointers_ok s hs ds" and "blake X (tree_prehash X depth children ds) = Some d"
  shows "run M X s (hash_long_inode X nh (InodeTree depth children hs))
    (\<lambda>h s'. st_hash s' h = Some d \<and> hash_ext s s' \<and> cx_heap s' = cx_heap s \<and> fresh_id s' h) exhausted"
proof -
  let ?b0 = "[1] @ leb128_len X depth @ leb128_len X children @ [word_of_nat (length hs)] :: bytes"
  let ?f = "\<lambda>(index, h) bs. bind_call (repo_hash h (HHashIdNotFound h)) (\<lambda>hash. ret (bs @ [word_of_nat index] @ hash))
     :: ('t ctx, hashing_error, bytes) call"
  have len: "length hs = length ds" using assms(2) by (simp add: pointers_ok_def list_all2_lengthD)
  have fold: "fold_call ?f hs b s = (Ok (b @ concat (map (\<lambda>(i, hash). [word_of_nat i] @ hash) ds)), s)" for b
    using assms(2) unfolding pointers_ok_def
    by (induction arbitrary: b rule: list_all2_induct)
      (auto simp: bind_call_def repo_hash_def st_hash_get split_beta)
  have "hash_long_inode X nh (InodeTree depth children hs) s = write_digest X (tree_prehash X depth children ds) s"
    unfolding hash_long_inode_def inode.case bind_call_Ok [where m = "fold_call _ _ _", OF fold]
    by (simp only: tree_prehash_def len append_assoc)
  with run_write_digest [OF assms(1,3)] show ?thesis by (auto simp: run_def split: prod.splits res.splits)
qed

lemma rep_list_filter:
  assumes "rep_list s ps ts"
  shows "rep_list s (filter (\<lambda>(name, _). P name) ps) (filter (\<lambda>q. P (fst q)) ts)"
  using assms unfolding rep_list_def by (induction rule: list_all2_induct) auto

lemma hashed_filter: "filter (\<lambda>e. P (fst e)) (hashed_dir ts) = hashed_dir (filter (\<lambda>q. P (fst q)) ts)"
  by (simp add: hashed_dir_def filter_map comp_def)

lemma nh_ok_mono: "nh_ok nh T \<Longrightarrow> T' \<subseteq> T \<Longrightarrow> nh_ok nh T'"
  by (auto simp: nh_ok_def)

text \<open>A partition is an inode whose hash is the specified one.\<close>

definition inode_ok :: "'t ctx \<Rightarrow> nat \<Rightarrow> (string \<times> addr) list \<Rightarrow> adir \<Rightarrow> inode \<Rightarrow> bool" where
  "inode_ok s depth ps ts inode \<longleftrightarrow>
     (if ps = [] then inode = InodeEmpty
      else if length ps \<le> 32 then inode = InodeValue ps
      else cells_known s ps \<and> (\<exists>hs ds. inode = InodeTree depth (length ps) hs \<and> pointers_ok s hs ds
        \<and> inode_pointers X depth (hashed_dir ts) 0 = Some ds))"

lemma run_hash_inode:
  assumes "wf_ctx M s" and "rep_list s ps ts" and "nh_ok nh (snd ` set ts)" and "ps \<noteq> []"
    and "inode_ok s depth ps ts inode" and "inode_hash X depth (hashed_dir ts) = Some d"
  shows "run M X s (hash_long_inode X nh inode)
    (\<lambda>h s'. st_hash s' h = Some d \<and> hash_ext s s' \<and> cells_known s' ps \<and> fresh_id s' h) exhausted"
proof (cases "length ps \<le> 32")
  case True
  moreover have len: "length (hashed_dir ts) = length ps"
    using assms(2) by (simp add: rep_list_def hashed_dir_def list_all2_lengthD)
  ultimately have "blake X (value_prehash X (hashed_dir ts)) = Some d"
    using assms(6) by (subst (asm) inode_hash.simps) simp
  then show ?thesis using run_hash_value [OF assms(1-3)] assms(4,5) True by (simp add: inode_ok_def)
next
  case False
  have len: "length (hashed_dir ts) = length ps"
    using assms(2) by (simp add: rep_list_def hashed_dir_def list_all2_lengthD)
  obtain hs ds where inode: "inode = InodeTree depth (length ps) hs" "pointers_ok s hs ds"
    "inode_pointers X depth (hashed_dir ts) 0 = Some ds" "cells_known s ps"
    using assms(4,5) False by (auto simp: inode_ok_def)
  have "blake X (tree_prehash X depth (length ps) ds) = Some d"
    using assms(6) False inode(3) by (subst (asm) inode_hash.simps) (simp add: len)
  from run_hash_inode_tree [OF assms(1) inode(2) this, of nh] show ?thesis
    unfolding inode(1) by (rule run_weaken) (use inode(4) in \<open>auto simp: cells_known_def\<close>)
qed

lemma inode_index_less: "inode_index depth name < 32"
proof -
  have "unat (w mod 32) = unat w mod 32" for w :: u32 by (simp add: unat_mod)
  then show ?thesis by (simp add: inode_index_def)
qed

lemma inode_pointers_less: "inode_pointers X depth es i = Some ds \<Longrightarrow> i \<le> 31 \<Longrightarrow> depth + 1 < 2 ^ 32"
  by (subst (asm) inode_pointers.simps) (simp split: if_splits)

lemma inode_pointers_empty:
  assumes "i \<le> 31" and "inode_pointers X depth es i = Some ds" and "filter (\<lambda>e. inode_index depth (fst e) = i) es = []"
  shows "inode_pointers X depth es (i + 1) = Some ds"
  using assms(2) inode_pointers_less [OF assms(2,1)] assms(1,3)
  by (subst (asm) inode_pointers.simps) (simp add: Let_def)

lemma inode_pointers_sub:
  assumes "i \<le> 31" and "inode_pointers X depth es i = Some ds" and "filter (\<lambda>e. inode_index depth (fst e) = i) es \<noteq> []"
  obtains hash ds' where "inode_hash X (depth + 1) (filter (\<lambda>e. inode_index depth (fst e) = i) es) = Some hash"
    "inode_pointers X depth es (i + 1) = Some ds'" "ds = (i, hash) # ds'"
  using assms(2) inode_pointers_less [OF assms(2,1)] assms(1,3) that
  by (subst (asm) inode_pointers.simps) (auto simp: Let_def split: option.splits)

lemma run_cong: "m s = m' s \<Longrightarrow> run M X s m' Q E \<Longrightarrow> run M X s m Q E"
  by (simp add: run_def)

definition partition_ok :: "'t node_hash \<Rightarrow> nat \<Rightarrow> bool" where
  "partition_ok nh depth \<longleftrightarrow>
     (\<forall>s ps ts. wf_ctx M s \<longrightarrow> rep_list s ps ts \<longrightarrow> nh_ok nh (snd ` set ts) \<longrightarrow>
        (ps \<noteq> [] \<longrightarrow> inode_hash X depth (hashed_dir ts) \<noteq> None) \<longrightarrow>
        run M X s (partition_entries X nh depth ps) (\<lambda>inode s'. hash_ext s s' \<and> inode_ok s' depth ps ts inode) exhausted)"

lemma run_partition_pointers:
  assumes sub: "partition_ok nh (depth + 1)" and "nh_ok nh (snd ` set ts)"
    and "wf_ctx M s" and "rep_list s ps ts" and "pointers_ok s hs ds" and "inode_pointers X depth (hashed_dir ts) i = Some ds'"
  shows "run M X s (partition_pointers X nh depth ps i hs)
    (\<lambda>hs' s'. hash_ext s s' \<and> pointers_ok s' hs' (ds @ ds') \<and> cells_known s' (filter (\<lambda>(name, _). i \<le> inode_index depth name) ps)) exhausted"
  using assms(3-)
proof (induction "32 - i" arbitrary: i s hs ds ds')
  case 0
  have "ds' = []" using "0.prems"(4) "0.hyps" by (subst (asm) inode_pointers.simps) simp
  moreover have "\<not> i \<le> inode_index depth name" for name using inode_index_less [of depth name] "0.hyps" by simp
  ultimately show ?case
    using "0.prems" "0.hyps" by (intro run_Ok [where r = hs and s' = s]) (auto simp: cells_known_def)
next
  case (Suc n)
  let ?P = "\<lambda>name. inode_index depth name = i"
  let ?ps = "filter (\<lambda>(name, _). ?P name) ps" and ?ts = "filter (\<lambda>q. ?P (fst q)) ts"
  let ?Q = "\<lambda>s hs' s'. hash_ext s s' \<and> pointers_ok s' hs' (ds @ ds') \<and> cells_known s' (filter (\<lambda>(name, _). i \<le> inode_index depth name) ps)"
  have i: "i \<le> 31" and n: "n = 32 - (i + 1)" using Suc.hyps(2) by simp_all
  note less = inode_pointers_less [OF Suc.prems(4) i]
  have rep: "rep_list s ?ps ?ts" by (rule rep_list_filter [OF Suc.prems(2)])
  have same: "filter (\<lambda>e. ?P (fst e)) (hashed_dir ts) = hashed_dir ?ts" by (rule hashed_filter)
  have nil: "hashed_dir ?ts = [] \<longleftrightarrow> ?ps = []" using rep by (auto simp: rep_list_def hashed_dir_def)
  have nh: "nh_ok nh (snd ` set ?ts)" using assms(2) by (rule nh_ok_mono) auto
  have some: "?ps \<noteq> [] \<longrightarrow> inode_hash X (depth + 1) (hashed_dir ?ts) \<noteq> None"
    using inode_pointers_sub [OF i Suc.prems(4)] nil unfolding same by (metis option.distinct(1))
  have split: "cells_known s' (filter (\<lambda>(name, _). i \<le> inode_index depth name) ps)"
    if "cells_known s' ?ps" "cells_known s' (filter (\<lambda>(name, _). i + 1 \<le> inode_index depth name) ps)" for s'
    using that by (fastforce simp: cells_known_def)
  have "run M X s (bind_call (partition_entries X nh (depth + 1) ?ps)
     (\<lambda>ti. case ti of
             InodeEmpty \<Rightarrow> partition_pointers X nh depth ps (i + 1) hs
           | _ \<Rightarrow> bind_call (hash_long_inode X nh ti)
               (\<lambda>h. partition_pointers X nh depth ps (i + 1) (hs @ [(i, h)])))) (?Q s) exhausted"
  proof (rule run_bind)
    show "run M X s (partition_entries X nh (depth + 1) ?ps) (\<lambda>inode s'. hash_ext s s' \<and> inode_ok s' (depth + 1) ?ps ?ts inode) exhausted"
      using sub Suc.prems(1) rep nh some unfolding partition_ok_def by blast
  next
    fix ti s1 assume s1: "ext M X s s1" "wf_ctx M s1" and ti: "hash_ext s s1 \<and> inode_ok s1 (depth + 1) ?ps ?ts ti"
    note rep1 = rep_list_ext [OF s1(1) Suc.prems(2)] and ptr1 = pointers_ok_ext [OF s1(1) Suc.prems(3)]
    show "run M X s1 (case ti of InodeEmpty \<Rightarrow> partition_pointers X nh depth ps (i + 1) hs
           | _ \<Rightarrow> bind_call (hash_long_inode X nh ti)
               (\<lambda>h. partition_pointers X nh depth ps (i + 1) (hs @ [(i, h)]))) (?Q s) exhausted"
    proof (cases "?ps = []")
      case True
      then have "ti = InodeEmpty" using ti by (simp add: inode_ok_def)
      moreover have next_i: "inode_pointers X depth (hashed_dir ts) (i + 1) = Some ds'"
        by (rule inode_pointers_empty [OF i Suc.prems(4)]) (use True nil same in simp)
      have "cells_known s' ?ps" for s' unfolding True by (simp add: cells_known_def)
      then have "run M X s1 (partition_pointers X nh depth ps (i + 1) hs) (?Q s) exhausted"
        by (intro run_weaken [OF Suc.hyps(1) [OF n s1(2) rep1 ptr1 next_i]]) (use ti split in \<open>auto intro: hash_ext_trans\<close>)
      ultimately show ?thesis by simp
    next
      case False
      then obtain hash ds1 where hash: "inode_hash X (depth + 1) (hashed_dir ?ts) = Some hash"
        "inode_pointers X depth (hashed_dir ts) (i + 1) = Some ds1" "ds' = (i, hash) # ds1"
        using inode_pointers_sub [OF i Suc.prems(4)] nil unfolding same by metis
      have "ti \<noteq> InodeEmpty" using ti False by (auto simp: inode_ok_def split: if_splits)
      then have eq: "(case ti of InodeEmpty \<Rightarrow> partition_pointers X nh depth ps (i + 1) hs
           | _ \<Rightarrow> bind_call (hash_long_inode X nh ti) (\<lambda>h. partition_pointers X nh depth ps (i + 1) (hs @ [(i, h)])))
         = bind_call (hash_long_inode X nh ti) (\<lambda>h. partition_pointers X nh depth ps (i + 1) (hs @ [(i, h)]))"
        by (cases ti) simp_all
      show ?thesis
        unfolding eq
      proof (rule run_bind [OF run_hash_inode [OF s1(2) rep_list_filter [OF rep1] nh False]])
        fix h s2 assume s2: "ext M X s1 s2" "wf_ctx M s2"
          and h: "st_hash s2 h = Some hash \<and> hash_ext s1 s2 \<and> cells_known s2 ?ps \<and> fresh_id s2 h"
        have ptr2: "pointers_ok s2 (hs @ [(i, h)]) (ds @ [(i, hash)])"
          using pointers_ok_ext [OF s2(1) ptr1] h by (simp add: pointers_ok_def list_all2_appendI)
        note rep2 = rep_list_ext [OF s2(1) rep1]
        show "run M X s2 (partition_pointers X nh depth ps (i + 1) (hs @ [(i, h)])) (?Q s) exhausted"
          by (rule run_weaken [OF Suc.hyps(1) [OF n s2(2) rep2 ptr2 hash(2)]])
            (use h ti hash(3) split cells_known_ext [OF _ _ rep_list_filter [OF rep2]] in \<open>auto intro: hash_ext_trans\<close>)
      qed (use ti hash(1) in simp_all)
    qed
  qed
  then show ?case
    by (rule run_cong [rotated]) (use i less in simp)
qed

lemma partition_entries_ok: "partition_ok nh depth"
proof (induction "2 ^ 32 - depth" arbitrary: depth rule: less_induct)
  case less
  show ?case
    unfolding partition_ok_def
  proof (intro allI impI)
    fix s :: "'t ctx" and ps ts
    assume a: "wf_ctx M s" "rep_list s ps ts" "nh_ok nh (snd ` set ts)"
      "ps \<noteq> [] \<longrightarrow> inode_hash X depth (hashed_dir ts) \<noteq> None"
    show "run M X s (partition_entries X nh depth ps) (\<lambda>inode s'. hash_ext s s' \<and> inode_ok s' depth ps ts inode) exhausted"
    proof (cases "length ps \<le> 32")
      case True
      then have "partition_entries X nh depth ps s = (Ok (if ps = [] then InodeEmpty else InodeValue ps), s)" by simp
      then show ?thesis by (rule run_Ok) (use a(1) True in \<open>simp_all add: inode_ok_def\<close>)
    next
      case False
      have len: "length (hashed_dir ts) = length ps"
        using a(2) by (simp add: rep_list_def hashed_dir_def list_all2_lengthD)
      obtain ds where ds: "inode_pointers X depth (hashed_dir ts) 0 = Some ds"
        using a(4) False by (subst (asm) inode_hash.simps) (fastforce simp: len split: option.splits)
      then have "depth + 1 < 2 ^ 32" by (rule inode_pointers_less) simp
      then have sub: "partition_ok nh (depth + 1)" by (intro less) simp
      have "run M X s (bind_call (partition_pointers X nh depth ps 0 [])
          (\<lambda>pointers. ret (InodeTree depth (length ps) pointers))) (\<lambda>inode s'. hash_ext s s' \<and> inode_ok s' depth ps ts inode) exhausted"
        by (rule run_bind [OF run_partition_pointers [OF sub a(3,1,2) _ ds, of "[]" "[]"]])
          (use False ds in \<open>auto simp: pointers_ok_def inode_ok_def intro!: run_ret\<close>)
      then show ?thesis by (rule run_cong [rotated]) (use False in auto)
    qed
  qed
qed

lemma run_hash_tree:
  assumes "wf_ctx M s" and "st_tree M X s tree ts" and "nh_ok nh (snd ` set ts)" and "dir_hash X (hashed_dir ts) = Some d"
  shows "run M X s (hash_tree M X nh tree)
    (\<lambda>h s'. st_hash s' h = Some d \<and> hash_ext s s' \<and> cells_known s' (om_iter M tree) \<and> fresh_id s' h) exhausted"
proof -
  have rep: "rep_list s (om_iter M tree) ts" using assms(2) by (simp add: rep_list_def rep_tree_def)
  have len: "length (hashed_dir ts) = om_len M tree" using rep by (simp add: len_iter rep_list_def hashed_dir_def list_all2_lengthD)
  show ?thesis
  proof (cases "256 < om_len M tree")
    case False
    then have "blake X (short_prehash X (hashed_dir ts)) = Some d" using assms(4) by (simp add: dir_hash_def len)
    from run_hash_short [OF assms(1-3) this] False show ?thesis by (simp add: hash_tree_def)
  next
    case True
    then have hash: "inode_hash X 0 (hashed_dir ts) = Some d" using assms(4) by (simp add: dir_hash_def len)
    have ne: "om_iter M tree \<noteq> []" using True by (auto simp: len_iter)
    have "run M X s (partition_entries X nh 0 (om_iter M tree))
        (\<lambda>inode s'. hash_ext s s' \<and> inode_ok s' 0 (om_iter M tree) ts inode) exhausted"
      using partition_entries_ok [of nh 0] assms(1,3) rep hash unfolding partition_ok_def by simp
    then have "run M X s (bind_call (partition_entries X nh 0 (om_iter M tree)) (hash_long_inode X nh))
        (\<lambda>h s'. st_hash s' h = Some d \<and> hash_ext s s' \<and> cells_known s' (om_iter M tree) \<and> fresh_id s' h) exhausted"
    proof (rule run_bind)
      fix inode s1 assume s1: "ext M X s s1" "wf_ctx M s1" and inode: "hash_ext s s1 \<and> inode_ok s1 0 (om_iter M tree) ts inode"
      show "run M X s1 (hash_long_inode X nh inode)
          (\<lambda>h s'. st_hash s' h = Some d \<and> hash_ext s s' \<and> cells_known s' (om_iter M tree) \<and> fresh_id s' h) exhausted"
        by (rule run_weaken [OF run_hash_inode [OF s1(2) rep_list_ext [OF s1(1) rep] assms(3) ne _ hash]])
          (use inode in \<open>auto intro: hash_ext_trans\<close>)
    qed
    with True show ?thesis by (simp add: hash_tree_def)
  qed
qed

section \<open>Nodes\<close>

lemma adepth_child: "q \<in> set ts \<Longrightarrow> adepth (snd q) < adepth (ADir ts)"
  by (simp add: less_Suc_eq_le)

lemma ahash_dir: "ahash X (ADir ts) \<noteq> None \<Longrightarrow> ahash X (ADir ts) = dir_hash X (hashed_dir ts) \<and> (\<forall>q \<in> set ts. ahash X (snd q) \<noteq> None)"
  by (auto simp: ahash.simps hashed_dir_def split: if_splits)

definition hashable :: "nat \<Rightarrow> atree set" where
  "hashable fuel = {t. adepth t < fuel \<and> ahash X t \<noteq> None}"

lemma run_hash_entry:
  assumes "wf_ctx M s" and "st_entry M X s e t" and "nh_ok nh (hashable fuel)" and "adepth t \<le> fuel" and "ahash X t \<noteq> None"
  shows "run M X s (hash_entry M X nh e)
    (\<lambda>h s'. has_hash X (st_hash s') h t \<and> hash_ext s s' \<and> fresh_id s' h
      \<and> (\<forall>tree. e = ETree tree \<longrightarrow> cells_known s' (om_iter M tree))) exhausted"
proof (cases e)
  case (EBlob b)
  then obtain d where d: "t = ABlob b" "blake X (be_bytes 8 (length b) @ b) = Some d" "ahash X t = Some d"
    using assms(2,5) by (auto simp: ahash.simps)
  show ?thesis
    unfolding EBlob hash_entry_def entry.case hash_blob_def
    by (rule run_weaken [OF run_write_digest [OF assms(1) d(2)]]) (simp_all add: has_hash_def d(3))
next
  case (ETree tree)
  then obtain ts where ts: "t = ADir ts" "st_tree M X s tree ts" using assms(2) by auto
  obtain d where d: "dir_hash X (hashed_dir ts) = Some d" "ahash X t = Some d" "\<forall>q \<in> set ts. ahash X (snd q) \<noteq> None"
    using ahash_dir [of ts] assms(5) ts(1) by auto
  have "nh_ok nh (snd ` set ts)"
    using assms(3) by (rule nh_ok_mono) (use d(3) adepth_child [of _ ts] assms(4) ts(1) in \<open>fastforce simp: hashable_def\<close>)
  from run_hash_tree [OF assms(1) ts(2) this d(1)] show ?thesis
    unfolding ETree hash_entry_def entry.case by (rule run_weaken) (simp_all add: has_hash_def d(2))
qed (use assms(2) in simp)

lemma run_entry_hash_id:
  assumes "wf_ctx M s" and "st_rep M X s a t" and "t \<in> hashable fuel"
  shows "run M X s (entry_hash_id fuel M X a)
    (\<lambda>h s'. has_hash X (st_hash s') h t \<and> hash_ext s s' \<and> entry_hash_cell (cx_heap s' ! a) = Some h) exhausted"
  using assms
proof (induction fuel arbitrary: s a t)
  case 0
  then show ?case by (simp add: hashable_def)
next
  case (Suc fuel)
  let ?Q = "\<lambda>h s'. has_hash X (st_hash s') h t \<and> hash_ext s s' \<and> entry_hash_cell (cx_heap s' ! a) = Some h"
  let ?nh = "node_entry_hash (entry_hash_id fuel M X)"
  note a = rep_node_facts(1) [OF Suc.prems(2)] and cells = rep_node_facts(2) [OF Suc.prems(2)]
  have nh: "nh_ok ?nh (hashable fuel)"
    unfolding nh_ok_def node_entry_hash_def
    by (intro allI impI, rule run_bind [OF Suc.IH], assumption+)
      (auto simp: repo_hash_def st_hash_get has_hash_def intro!: run_Ok)
  have "run M X s (case entry_hash_cell (cx_heap s ! a) of Some h \<Rightarrow> ret h
       | None \<Rightarrow>
           bind_call (case entry_cell (cx_heap s ! a) of None \<Rightarrow> fail HMissingEntry | Some e \<Rightarrow> hash_entry M X ?nh e)
             (\<lambda>h. bind_call (update_node a (\<lambda>n. n\<lparr>entry_hash_cell := Some h\<rparr>)) (\<lambda>_. ret h))) ?Q exhausted"
  proof (cases "entry_hash_cell (cx_heap s ! a)")
    case (Some h)
    then show ?thesis using cells Suc.prems(1) by (auto simp: cells_ok_def intro!: run_ret)
  next
    case None
    then have "\<not> commited (cx_heap s ! a)" using cells by (auto simp: cells_ok_def)
    moreover from this obtain e where e: "entry_cell (cx_heap s ! a) = Some e" "st_entry M X s e t"
      using Suc.prems(2) by (auto simp: rep_node_entry split: option.splits)
    moreover have "adepth t \<le> fuel" "ahash X t \<noteq> None" using Suc.prems(3) by (auto simp: hashable_def)
    note hash = run_hash_entry [OF Suc.prems(1) e(2) nh this]
    have "run M X s (bind_call (hash_entry M X ?nh e)
             (\<lambda>h. bind_call (update_node a (\<lambda>n. n\<lparr>entry_hash_cell := Some h\<rparr>)) (\<lambda>_. ret h))) ?Q exhausted"
    proof (rule run_bind [OF hash])
      fix h s1
      assume s1: "ext M X s s1" "wf_ctx M s1" and h: "has_hash X (st_hash s1) h t \<and> hash_ext s s1 \<and> fresh_id s1 h
        \<and> (\<forall>tree. e = ETree tree \<longrightarrow> cells_known s1 (om_iter M tree))"
      have keep: "entry_cell (cx_heap s1 ! a) = Some e" "\<not> commited (cx_heap s1 ! a)"
        using h a e(1) calculation(1) by (auto simp: hash_ext_def)
      have "run M X s1 (update_node a (\<lambda>n. n\<lparr>entry_hash_cell := Some h\<rparr>))
        (\<lambda>_ s'. hash_ext s1 s' \<and> entry_hash_cell (cx_heap s' ! a) = Some h \<and> has_hash X (st_hash s') h t) exhausted"
        by (rule run_set_hash [OF s1(2) ext_rep [OF s1(1) Suc.prems(2)]]) (use h keep in \<open>auto simp: cells_known_def\<close>)
      then show "run M X s1 (bind_call (update_node a (\<lambda>n. n\<lparr>entry_hash_cell := Some h\<rparr>)) (\<lambda>_. ret h)) ?Q exhausted"
        by (rule run_bind) (use h in \<open>auto intro!: run_ret intro: hash_ext_trans\<close>)
    qed
    then show ?thesis using None e(1) by simp
  qed
  then have "run M X s (bind_call (read_node a) (\<lambda>n. case entry_hash_cell n of Some h \<Rightarrow> ret h
       | None \<Rightarrow>
           bind_call (case entry_cell n of None \<Rightarrow> fail HMissingEntry | Some e \<Rightarrow> hash_entry M X ?nh e)
             (\<lambda>h. bind_call (update_node a (\<lambda>n. n\<lparr>entry_hash_cell := Some h\<rparr>)) (\<lambda>_. ret h)))) ?Q exhausted"
    by (intro run_bind [OF run_read_node [OF Suc.prems(1) a]]) auto
  then show ?case by (simp add: run_def)
qed

lemma nh_ok_entry: "nh_ok (node_entry_hash (entry_hash_id fuel M X)) (hashable fuel)"
  unfolding nh_ok_def node_entry_hash_def
  by (intro allI impI, rule run_bind [OF run_entry_hash_id], assumption+)
    (auto simp: repo_hash_def st_hash_get has_hash_def intro!: run_Ok)

section \<open>Working trees\<close>

lemma run_root_hash_id:
  assumes "wf_ctx M s" and "st_tree M X s (root_ref M w) ts" and "adepth (ADir ts) \<le> fuel" and "ahash X (ADir ts) \<noteq> None"
  shows "run M X s (root_hash_id fuel M X w)
    (\<lambda>h s'. has_hash X (st_hash s') h (ADir ts) \<and> hash_ext s s' \<and> cells_known s' (om_iter M (root_ref M w)) \<and> fresh_id s' h) exhausted"
proof -
  note dir = ahash_dir [OF assms(4)]
  have "nh_ok (node_entry_hash (entry_hash_id fuel M X)) (snd ` set ts)"
    using nh_ok_entry by (rule nh_ok_mono)
      (use dir assms(3) adepth_child [of _ ts] in \<open>fastforce simp: hashable_def\<close>)
  note hash = run_hash_tree [OF assms(1,2) this]
  show ?thesis
    unfolding root_hash_id_def
    by (rule run_call_err, rule run_weaken [OF hash [of "the (ahash X (ADir ts))"]])
      (use dir assms(4) in \<open>auto simp: has_hash_def exhausted_def\<close>)
qed

end

end
