(* ===== verification/Context_Root.thy ===== *)
theory Context_Root
  imports Context_Api Context_Hashing
begin

text \<open>
  The Merkle root: it is a function of the directory a context stands for.
\<close>

section \<open>The root of a context\<close>

context context_store
begin

lemma run_wt_hash:
  assumes "wf_ctx M s" and "st_tree M X s (root_ref M w) ts" and "adepth (ADir ts) \<le> fuel" and "ahash X (ADir ts) = Some d"
  shows "run M X s (wt_hash fuel M X w) (\<lambda>h s'. h = d) exhausted"
  unfolding wt_hash_def
  by (rule run_bind [OF run_root_hash_id [OF assms(1-3)]])
    (use assms(4) in \<open>auto simp: has_hash_def st_hash_get intro!: run_Ok\<close>)

lemma get_merkle_root_ok:
  assumes "context_ok M X n (c, s) es" and "adepth (ADir es) \<le> fuel" and "ahash X (ADir es) = Some d"
  shows "(\<exists>s'. get_merkle_root fuel M X c s = (Ok d, s') \<and> context_ok M X n (c, s') es)
    \<or> (\<exists>e s'. get_merkle_root fuel M X c s = (Err e, s') \<and> 2 ^ 64 \<le> length (hv_hashes (hv (ss_ctx s'))))"
proof -
  have wf: "wf_ctx M (ss_ctx s)" "wt_rep M X (ss_ctx s) (tc_tree c) (ADir es)"
    using assms(1) by (simp_all add: context_ok_def)
  then have "st_tree M X (ss_ctx s) (root_ref M (tc_tree c)) es"
    by (cases "tc_tree c") (simp_all add: root_ref_def)
  from run_wt_hash [OF wf(1) this assms(2,3)] show ?thesis
    using assms(1)
    by (auto intro: wt_rep_ext simp: run_def get_merkle_root_def in_ctx_def exhausted_def context_ok_def split: prod.splits res.splits)
qed

end

text \<open>
  C8. The Merkle root of a context is the hash of the directory it stands for: nodes hashed before, nodes read back from
  the repository and nodes shared with other contexts give the same root as a directory built afresh,
  and the context stands for the same directory afterwards. The only other outcome is an
  error, with all \<open>2^64\<close> ids of hashes in use.
\<close>

theorem merkle_root_of_content:
  assumes "ordmap_laws M" and "context_crates_laws X" and "context_ok M X n (c, s) es"
    and "adepth (ADir es) \<le> fuel" and "ahash X (ADir es) = Some d"
  shows "(\<exists>s'. get_merkle_root fuel M X c s = (Ok d, s') \<and> context_ok M X n (c, s') es)
    \<or> (\<exists>e s'. get_merkle_root fuel M X c s = (Err e, s') \<and> 2 ^ 64 \<le> length (hv_hashes (hv (ss_ctx s'))))"
  by (rule context_store.get_merkle_root_ok [OF context_store.intro [OF assms(1,2)] assms(3-5)])

definition one_value_session :: "(string \<times> addr) list session" where
  "one_value_session = fresh_session\<lparr>ss_ctx := empty_ctx\<lparr>cx_heap := [get_leaf (EBlob [7])]\<rparr>\<rparr>"

definition one_value_context :: "(string \<times> addr) list tezedge_context" where
  "one_value_context = (fresh_context ordmap_ref)\<lparr>tc_tree := WTree [(''a'', 0)]\<rparr>"

lemma one_value_ok: "context_ok ordmap_ref crates_ref 5 (one_value_context, one_value_session) [(''a'', ABlob [7])]"
proof -
  have "wf_ctx ordmap_ref (ss_ctx one_value_session)"
    using wf_empty_ctx [of ordmap_ref] by (simp add: one_value_session_def fresh_session_def wf_ctx_def wf_node_def get_leaf_def wf_store_def)
  then show ?thesis
    by (simp add: context_ok_def one_value_session_def one_value_context_def fresh_session_def fresh_context_def TREE_ID_MAX_def
        rep_tree_def rep_node_entry ordmap_ref_def canon_def get_leaf_def cells_ok_def)
qed

theorem merkle_root_of_content_witness:
  "let d = the (ahash crates_ref (ADir [(''a'', ABlob [7])])) in
   (\<exists>s'. get_merkle_root 2 ordmap_ref crates_ref one_value_context one_value_session = (Ok d, s')
      \<and> context_ok ordmap_ref crates_ref 5 (one_value_context, s') [(''a'', ABlob [7])])
   \<or> (\<exists>e s'. get_merkle_root 2 ordmap_ref crates_ref one_value_context one_value_session = (Err e, s')
      \<and> 2 ^ 64 \<le> length (hv_hashes (hv (ss_ctx s'))))"
  unfolding Let_def
  by (rule merkle_root_of_content [OF ordmap_ref.ordmap_laws_axioms ctx_ref.context_crates_laws_axioms one_value_ok])
    (simp_all add: ahash.simps dir_hash_def crates_ref_def ENTRY_HASH_LEN_def)

end
