(* ===== verification/Context_Binding.thy ===== *)
theory Context_Binding
  imports Context_Root
begin

text \<open>
  A Merkle root determines the directory below it, as long as the digest has no collision among the strings
  that are hashed for the two directories in question.
\<close>

section \<open>The strings that are hashed\<close>

function inode_inputs :: "context_crates \<Rightarrow> nat \<Rightarrow> hashed_entry list \<Rightarrow> bytes list" where
  "inode_inputs X depth es =
     (if length es \<le> 32 then [value_prehash X es]
      else
        (case inode_pointers X depth es 0 of
           None \<Rightarrow> []
         | Some pointers \<Rightarrow>
             tree_prehash X depth (length es) pointers #
             (if 2 ^ 32 \<le> depth + 1 then []
              else concat (map (\<lambda>i. inode_inputs X (depth + 1) (filter (\<lambda>e. inode_index depth (fst e) = i) es)) [0..<32]))))"
  by pat_completeness auto

termination
  by (relation "measure (\<lambda>(X, depth, es). 2 ^ 32 - depth)") auto

declare inode_inputs.simps [simp del]

fun hash_inputs :: "context_crates \<Rightarrow> atree \<Rightarrow> bytes set" where
  "hash_inputs X (ABlob b) = {be_bytes 8 (length b) @ b}"
| "hash_inputs X (ADir es) =
     (let hs = map (\<lambda>p. (fst p, akind (snd p), the (ahash X (snd p)))) es
      in if 256 < length hs then set (inode_inputs X 0 hs) else {short_prehash X hs}) \<union>
     (\<Union>p \<in> set es. hash_inputs X (snd p))"

fun awf :: "atree \<Rightarrow> bool" where
  \<comment> \<open>sorted names without repetition, and sizes that fit a machine word\<close>
  "awf (ABlob b) \<longleftrightarrow> length b < 2 ^ 64"
| "awf (ADir es) \<longleftrightarrow> keys_sorted es \<and> length es < 2 ^ 64 \<and> (\<forall>p \<in> set es. length (fst p) < 2 ^ 64 \<and> awf (snd p))"

definition entries_ok :: "hashed_entry list \<Rightarrow> bool" where
  "entries_ok es \<longleftrightarrow> keys_sorted es \<and> length es < 2 ^ 64 \<and> (\<forall>e \<in> set es. length (fst e) < 2 ^ 64 \<and> length (snd (snd e)) = 32)"

lemma entries_ok_filter: "entries_ok es \<Longrightarrow> entries_ok (filter P es)"
  by (auto simp: entries_ok_def keys_sorted_def sorted_wrt_map sorted_wrt_filter intro: le_less_trans [OF length_filter_le])

section \<open>Reading the strings back\<close>

lemma concat_map_inj:
  assumes "concat (map f xs) = concat (map f ys)" and "length xs = length ys"
    and "\<And>x y bs cs. x \<in> set xs \<Longrightarrow> y \<in> set ys \<Longrightarrow> f x @ bs = f y @ cs \<Longrightarrow> x = y \<and> bs = cs"
  shows "xs = ys"
  using assms
proof (induction xs arbitrary: ys)
  case (Cons x xs)
  then obtain y zs where ys: "ys = y # zs" by (cases ys) auto
  have "x = y \<and> concat (map f xs) = concat (map f zs)" using Cons.prems(3) [of x y] Cons.prems(1) ys by auto
  moreover from this have "xs = zs" by (intro Cons.IH) (use Cons.prems ys in auto)
  ultimately show ?case using ys by simp
qed simp

lemma be_bytes_inj: "be_bytes k m = be_bytes k n \<Longrightarrow> m < 256 ^ k \<Longrightarrow> n < 256 ^ k \<Longrightarrow> m = n"
  by (metis from_be_be_bytes mod_less)

lemma of_nat_inj: "(word_of_nat m :: 'a :: len word) = word_of_nat n \<Longrightarrow> m < 2 ^ LENGTH('a) \<Longrightarrow> n < 2 ^ LENGTH('a) \<Longrightarrow> m = n"
  by (metis of_nat_inverse)

lemma str_bytes_inj: "str_bytes s = str_bytes t \<Longrightarrow> s = t"
proof -
  have "(of_char c :: u8) = of_char d \<Longrightarrow> c = d" for c d by (metis char_of_byte)
  then show "str_bytes s = str_bytes t \<Longrightarrow> s = t"
    unfolding str_bytes_def by (metis (mono_tags, lifting) injI inj_map_eq_map)
qed

context context_store
begin

lemma leb128_len_inj:
  "leb128_len X m @ bs = leb128_len X n @ cs \<Longrightarrow> m < 2 ^ 64 \<Longrightarrow> n < 2 ^ 64 \<Longrightarrow> m = n \<and> bs = cs"
  using leb128_prefix_free [of "word_of_nat m" bs "word_of_nat n" cs] of_nat_inj [of m n, where 'a = 64]
  by (auto simp: leb128_len_def)

lemma name_inj:
  assumes "leb128_len X (length k) @ str_bytes k @ bs = leb128_len X (length k') @ str_bytes k' @ cs"
    and "length k < 2 ^ 64" and "length k' < 2 ^ 64"
  shows "k = k' \<and> bs = cs"
  using leb128_len_inj [OF assms] str_bytes_inj by (auto simp: str_bytes_def)

lemma value_prehash_inj:
  assumes "value_prehash X es = value_prehash X es'" and "length es \<le> 32" and "length es' \<le> 32" and "entries_ok es" and "entries_ok es'"
  shows "es = es'"
proof -
  have "length es = length es'"
    using assms(1-3) of_nat_inj [of "length es" "length es'", where 'a = 8] by (simp add: value_prehash_def)
  moreover have "concat (map (\<lambda>(k, kind, hash). leb128_len X (length k) @ str_bytes k @ inode_value_kind kind @ hash) es)
    = concat (map (\<lambda>(k, kind, hash). leb128_len X (length k) @ str_bytes k @ inode_value_kind kind @ hash) es')"
    using assms(1) by (simp add: value_prehash_def)
  ultimately show ?thesis
    using assms(4,5)
    by (elim concat_map_inj)
      (auto simp: entries_ok_def inode_value_kind_def dest!: name_inj bspec split: node_kind.splits)
qed

lemma short_prehash_inj:
  assumes "short_prehash X es = short_prehash X es'" and "length es \<le> 256" and "length es' \<le> 256" and "entries_ok es" and "entries_ok es'"
  shows "es = es'"
proof -
  have "length es = length es'"
    using assms(1-3) be_bytes_inj [of 8 "length es" "length es'"] by (simp add: short_prehash_def)
  moreover from this have "concat (map (\<lambda>(k, kind, hash). encode_irmin_node_kind kind @ leb128_len X (length k) @ str_bytes k
       @ be_bytes 8 ENTRY_HASH_LEN @ hash) es)
    = concat (map (\<lambda>(k, kind, hash). encode_irmin_node_kind kind @ leb128_len X (length k) @ str_bytes k
       @ be_bytes 8 ENTRY_HASH_LEN @ hash) es')"
    using assms(1) by (simp add: short_prehash_def)
  ultimately show ?thesis
    using assms(4,5)
    by (elim concat_map_inj)
      (auto simp: entries_ok_def encode_irmin_node_kind_def dest!: name_inj bspec split: node_kind.splits)
qed

lemma tree_prehash_inj:
  assumes "tree_prehash X depth n ps = tree_prehash X depth n' ps'" and "depth < 2 ^ 64" and "n < 2 ^ 64" and "n' < 2 ^ 64"
    and "length ps \<le> 32" and "length ps' \<le> 32" and "\<forall>p \<in> set ps \<union> set ps'. fst p < 32 \<and> length (snd p) = 32"
  shows "ps = ps'"
proof -
  let ?f = "\<lambda>(i, hash). [word_of_nat i] @ hash :: bytes"
  have eq: "word_of_nat (length ps) # concat (map ?f ps) = word_of_nat (length ps') # concat (map ?f ps')"
    using assms(1-4) by (auto simp: tree_prehash_def dest!: leb128_len_inj)
  then have "length ps = length ps'"
    using assms(5,6) of_nat_inj [of "length ps" "length ps'", where 'a = 8] by simp
  moreover have "concat (map ?f ps) = concat (map ?f ps')" using eq by simp
  ultimately show ?thesis
  proof (elim concat_map_inj)
    fix x y bs cs assume xy: "x \<in> set ps" "y \<in> set ps'" and f: "?f x @ bs = ?f y @ cs"
    obtain i h j k where p: "x = (i, h)" "y = (j, k)" by (cases x; cases y)
    have "i < 32" "j < 32" "length h = length k" using bspec [OF assms(7), of x] bspec [OF assms(7), of y] xy p by simp_all
    moreover from f p have "(word_of_nat i :: u8) = word_of_nat j" "h @ bs = k @ cs" by simp_all
    ultimately show "x = y \<and> bs = cs" using of_nat_inj [of i j, where 'a = 8] p by simp
  qed
qed

lemma blake_length: "blake X bs = Some d \<Longrightarrow> length d = 32"
  using blake2b_size [of bs] by (auto simp: ENTRY_HASH_LEN_def)

lemma inode_hash_length: "inode_hash X depth es = Some d \<Longrightarrow> length d = 32"
  by (subst (asm) inode_hash.simps) (auto split: if_splits option.splits dest: blake_length)

lemma inode_hash_long:
  assumes "32 < length es" and "inode_hash X depth es = Some d"
  obtains ps where "inode_pointers X depth es 0 = Some ps" "blake X (tree_prehash X depth (length es) ps) = Some d"
  using assms by (simp add: inode_hash.simps [of X depth es] split: option.splits)

section \<open>Inodes\<close>

abbreviation sub :: "nat \<Rightarrow> nat \<Rightarrow> hashed_entry list \<Rightarrow> hashed_entry list" where
  "sub depth i es \<equiv> filter (\<lambda>e. inode_index depth (fst e) = i) es"

lemma inode_pointers_spec:
  assumes "inode_pointers X depth es i = Some ds"
  shows "\<forall>p \<in> set ds. i \<le> fst p \<and> fst p < 32 \<and> length (snd p) = 32" and "length ds \<le> 32 - i"
    and "i \<le> j \<Longrightarrow> j < 32 \<Longrightarrow> map_of ds j = (if sub depth j es = [] then None else inode_hash X (depth + 1) (sub depth j es))"
    and "i \<le> j \<Longrightarrow> j < 32 \<Longrightarrow> sub depth j es \<noteq> [] \<Longrightarrow> inode_hash X (depth + 1) (sub depth j es) \<noteq> None"
proof -
  have "(\<forall>p \<in> set ds. i \<le> fst p \<and> fst p < 32 \<and> length (snd p) = 32) \<and> length ds \<le> 32 - i
    \<and> (\<forall>j. i \<le> j \<longrightarrow> j < 32 \<longrightarrow> map_of ds j = (if sub depth j es = [] then None else inode_hash X (depth + 1) (sub depth j es))
       \<and> (sub depth j es \<noteq> [] \<longrightarrow> inode_hash X (depth + 1) (sub depth j es) \<noteq> None))"
    using assms
  proof (induction "32 - i" arbitrary: i ds)
    case 0
    then show ?case by (subst (asm) inode_pointers.simps) auto
  next
    case (Suc n)
    have i: "i \<le> 31" and n: "n = 32 - (i + 1)" using Suc.hyps(2) by simp_all
    show ?case
    proof (cases "sub depth i es = []")
      case True
      have IH: "inode_pointers X depth es (i + 1) = Some ds" using inode_pointers_empty [OF i Suc.prems True] .
      have none: "map_of ds i = None" using Suc.hyps(1) [OF n IH] by (force simp: map_of_eq_None_iff)
      have "i \<le> j \<longleftrightarrow> j = i \<or> i + 1 \<le> j" for j by auto
      with Suc.hyps(1) [OF n IH] none True show ?thesis by force
    next
      case False
      obtain hash ds' where ds: "inode_hash X (depth + 1) (sub depth i es) = Some hash"
        "inode_pointers X depth es (i + 1) = Some ds'" "ds = (i, hash) # ds'"
        using inode_pointers_sub [OF i Suc.prems False] .
      have "i \<le> j \<longleftrightarrow> j = i \<or> i + 1 \<le> j" for j by auto
      with Suc.hyps(1) [OF n ds(2)] ds(1,3) False i inode_hash_length [OF ds(1)] show ?thesis by force
    qed
  qed
  then show "\<forall>p \<in> set ds. i \<le> fst p \<and> fst p < 32 \<and> length (snd p) = 32" and "length ds \<le> 32 - i"
    and "i \<le> j \<Longrightarrow> j < 32 \<Longrightarrow> map_of ds j = (if sub depth j es = [] then None else inode_hash X (depth + 1) (sub depth j es))"
    and "i \<le> j \<Longrightarrow> j < 32 \<Longrightarrow> sub depth j es \<noteq> [] \<Longrightarrow> inode_hash X (depth + 1) (sub depth j es) \<noteq> None"
    by blast+
qed

lemma subs_determine:
  assumes "keys_sorted es" and "keys_sorted es'" and "\<And>i. i < 32 \<Longrightarrow> sub depth i es = sub depth i es'"
  shows "es = es'"
proof -
  have "e \<in> set es \<longleftrightarrow> e \<in> set es'" for e
  proof -
    have "e \<in> set l \<longleftrightarrow> e \<in> set (sub depth (inode_index depth (fst e)) l)" for l by simp
    moreover have "sub depth (inode_index depth (fst e)) es = sub depth (inode_index depth (fst e)) es'"
      by (rule assms(3) [OF inode_index_less])
    ultimately show ?thesis by metis
  qed
  then have "map_of es = map_of es'"
    using map_of_inject_set [of es es'] keys_sorted_distinct [OF assms(1)] keys_sorted_distinct [OF assms(2)] by blast
  then show ?thesis by (rule keys_sorted_ext [OF assms(1,2)])
qed

lemma inode_hash_inj:
  assumes "inode_hash X depth es = Some d" and "inode_hash X depth es' = Some d" and "entries_ok es" and "entries_ok es'"
    and "inj_on (blake X) (set (inode_inputs X depth es) \<union> set (inode_inputs X depth es'))"
  shows "es = es'"
  using assms
proof (induction "2 ^ 32 - depth" arbitrary: depth es es' d rule: less_induct)
  case less
  have short: "inode_inputs X depth l = [value_prehash X l]" "blake X (value_prehash X l) = Some d"
    if "length l \<le> 32" "inode_hash X depth l = Some d" for l
    using that by (simp_all add: inode_inputs.simps [of X depth l] inode_hash.simps [of X depth l])
  have long: "\<exists>ps. inode_pointers X depth l 0 = Some ps \<and> blake X (tree_prehash X depth (length l) ps) = Some d
      \<and> depth + 1 < 2 ^ 32 \<and> tree_prehash X depth (length l) ps \<in> set (inode_inputs X depth l)
      \<and> (\<forall>i < 32. set (inode_inputs X (depth + 1) (sub depth i l)) \<subseteq> set (inode_inputs X depth l))"
    if l: "\<not> length l \<le> 32" "inode_hash X depth l = Some d" for l
  proof -
    obtain ps where ps: "inode_pointers X depth l 0 = Some ps" "blake X (tree_prehash X depth (length l) ps) = Some d"
      using inode_hash_long [OF _ l(2)] l(1) by auto
    with inode_pointers_less [OF ps(1)] l(1) show ?thesis
      by (fastforce simp: inode_inputs.simps [of X depth l])
  qed
  have inj: "x = y" if "x \<in> set (inode_inputs X depth es)" "y \<in> set (inode_inputs X depth es')" "blake X x = Some d" "blake X y = Some d" for x y
    using less.prems(5) that by (metis UnI1 UnI2 inj_onD)
  have tag: "value_prehash X l \<noteq> tree_prehash X k n ps" for l k n ps by (simp add: value_prehash_def tree_prehash_def)
  show ?case
  proof (cases "length es \<le> 32"; cases "length es' \<le> 32")
    assume "length es \<le> 32" "length es' \<le> 32"
    with short less.prems(1,2) inj value_prehash_inj less.prems(3,4) show ?thesis by (metis list.set_intros(1))
  next
    assume "length es \<le> 32" "\<not> length es' \<le> 32"
    with short(1,2) [of es] long [of es'] less.prems(1,2) inj tag show ?thesis by (metis list.set_intros(1))
  next
    assume "\<not> length es \<le> 32" "length es' \<le> 32"
    with short(1,2) [of es'] long [of es] less.prems(1,2) inj tag show ?thesis by (metis list.set_intros(1))
  next
    assume len: "\<not> length es \<le> 32" "\<not> length es' \<le> 32"
    obtain ps where ps: "inode_pointers X depth es 0 = Some ps" "blake X (tree_prehash X depth (length es) ps) = Some d"
      "depth + 1 < 2 ^ 32" "tree_prehash X depth (length es) ps \<in> set (inode_inputs X depth es)"
      "\<forall>i < 32. set (inode_inputs X (depth + 1) (sub depth i es)) \<subseteq> set (inode_inputs X depth es)"
      using long [OF len(1) less.prems(1)] by blast
    obtain ps' where ps': "inode_pointers X depth es' 0 = Some ps'" "blake X (tree_prehash X depth (length es') ps') = Some d"
      "tree_prehash X depth (length es') ps' \<in> set (inode_inputs X depth es')"
      "\<forall>i < 32. set (inode_inputs X (depth + 1) (sub depth i es')) \<subseteq> set (inode_inputs X depth es')"
      using long [OF len(2) less.prems(2)] by blast
    note spec = inode_pointers_spec [OF ps(1)] and spec' = inode_pointers_spec [OF ps'(1)]
    have "ps = ps'"
      by (rule tree_prehash_inj [OF inj [OF ps(4) ps'(3) ps(2) ps'(2)]])
        (use ps(3) less.prems(3,4) spec(1,2) spec'(1,2) in \<open>auto simp: entries_ok_def\<close>)
    then have sub_eq: "sub depth i es = sub depth i es'" if i: "i < 32" for i
    proof (cases "sub depth i es = []")
      case True
      then show ?thesis using spec(3) [of i] spec'(3,4) [of i] i \<open>ps = ps'\<close> by (auto split: if_splits)
    next
      case False
      then obtain h where h: "inode_hash X (depth + 1) (sub depth i es) = Some h" "map_of ps i = Some h"
        using spec(3,4) [of i] i by auto
      then have "inode_hash X (depth + 1) (sub depth i es') = Some h"
        using spec'(3) [of i] i \<open>ps = ps'\<close> by (simp split: if_splits)
      moreover have "inj_on (blake X) (set (inode_inputs X (depth + 1) (sub depth i es)) \<union> set (inode_inputs X (depth + 1) (sub depth i es')))"
        by (rule inj_on_subset [OF less.prems(5)]) (use ps(5) ps'(4) i in blast)
      ultimately show ?thesis
        using ps(3) by (intro less.hyps [OF _ h(1)] entries_ok_filter less.prems(3,4)) simp
    qed
    show ?thesis
      by (rule subs_determine [OF _ _ sub_eq]) (use less.prems(3,4) in \<open>simp_all add: entries_ok_def\<close>)
  qed
qed

section \<open>Trees\<close>

lemma dir_hash_inj:
  assumes "dir_hash X es = Some d" and "dir_hash X es' = Some d" and "entries_ok es" and "entries_ok es'"
    and "inj_on (blake X) ((if 256 < length es then set (inode_inputs X 0 es) else {short_prehash X es})
       \<union> (if 256 < length es' then set (inode_inputs X 0 es') else {short_prehash X es'}))"
  shows "es = es'"
proof -
  have tree: "\<exists>bs. blake X (1 # bs) = Some d \<and> 1 # bs \<in> set (inode_inputs X 0 l)"
    if l: "256 < length l" "dir_hash X l = Some d" for l
  proof -
    have "inode_hash X 0 l = Some d" using l by (simp add: dir_hash_def)
    then obtain ps where "inode_pointers X 0 l 0 = Some ps" "blake X (tree_prehash X 0 (length l) ps) = Some d"
      using inode_hash_long [of l 0 d] l(1) by auto
    with l(1) show ?thesis by (auto simp: inode_inputs.simps [of X 0 l] tree_prehash_def)
  qed
  have short: "\<exists>bs. short_prehash X l = 0 # bs" if "\<not> 256 < length l" for l
  proof -
    have "hd (be_bytes 8 (length l)) = (0 :: u8)" using that by (simp add: be_bytes_def)
    then show ?thesis by (cases "be_bytes 8 (length l)") (auto simp: short_prehash_def dest: arg_cong [of _ _ length])
  qed
  have inj: "x = y" if "x \<in> (if 256 < length es then set (inode_inputs X 0 es) else {short_prehash X es})"
      "y \<in> (if 256 < length es' then set (inode_inputs X 0 es') else {short_prehash X es'})" "blake X x = Some d" "blake X y = Some d" for x y
    by (rule inj_onD [OF assms(5)]) (simp only: that(3,4), rule UnI1 [OF that(1)], rule UnI2 [OF that(2)])
  show ?thesis
  proof (cases "256 < length es"; cases "256 < length es'")
    assume "256 < length es" "256 < length es'"
    with assms show ?thesis by (intro inode_hash_inj [of 0 es d es']) (simp_all add: dir_hash_def)
  next
    assume l: "256 < length es" "\<not> 256 < length es'"
    obtain bs where "blake X (1 # bs) = Some d" "1 # bs \<in> set (inode_inputs X 0 es)" using tree [OF l(1) assms(1)] by blast
    with inj [of "1 # bs" "short_prehash X es'"] short [OF l(2)] l assms(2) show ?thesis by (auto simp: dir_hash_def)
  next
    assume l: "\<not> 256 < length es" "256 < length es'"
    obtain bs where "blake X (1 # bs) = Some d" "1 # bs \<in> set (inode_inputs X 0 es')" using tree [OF l(2) assms(2)] by blast
    with inj [of "short_prehash X es" "1 # bs"] short [OF l(1)] l assms(1) show ?thesis by (auto simp: dir_hash_def)
  next
    assume l: "\<not> 256 < length es" "\<not> 256 < length es'"
    with assms(1,2) inj [of "short_prehash X es" "short_prehash X es'"] have "short_prehash X es = short_prehash X es'"
      by (simp add: dir_hash_def)
    with short_prehash_inj l assms(3,4) show ?thesis by simp
  qed
qed

lemma ahash_length: "ahash X t = Some d \<Longrightarrow> length d = 32"
  by (cases t) (auto simp: ahash.simps dir_hash_def split: if_splits dest: blake_length inode_hash_length)

lemma hashed_dir_ok: "awf (ADir ts) \<Longrightarrow> ahash X (ADir ts) \<noteq> None \<Longrightarrow> entries_ok (hashed_dir ts)"
  using ahash_dir [of ts] ahash_length
  by (fastforce simp: entries_ok_def hashed_dir_def keys_sorted_def comp_def)

lemma ahash_inj:
  assumes "awf t" and "awf t'" and "akind t = akind t'" and "ahash X t = Some d" and "ahash X t' = Some d"
    and "inj_on (blake X) (hash_inputs X t \<union> hash_inputs X t')"
  shows "t = t'"
  using assms
proof (induction t arbitrary: t' d rule: awf.induct)
  case (1 b)
  then obtain b' where b': "t' = ABlob b'" by (cases t') auto
  with "1.prems" have "blake X (be_bytes 8 (length b) @ b) = blake X (be_bytes 8 (length b') @ b')" by (simp add: ahash.simps)
  moreover have "be_bytes 8 (length b) @ b \<in> hash_inputs X (ABlob b)" "be_bytes 8 (length b') @ b' \<in> hash_inputs X t'"
    by (simp_all add: b')
  ultimately have "be_bytes 8 (length b) @ b = be_bytes 8 (length b') @ b'"
    using inj_onD [OF "1.prems"(6)] by blast
  then have "b = b'" by (metis append_eq_append_conv length_be_bytes)
  then show ?case by (simp add: b')
next
  case (2 ts)
  then obtain ts' where t': "t' = ADir ts'" by (cases t') auto
  have some: "ahash X (ADir ts) \<noteq> None" "ahash X (ADir ts') \<noteq> None" using "2.prems"(4,5) t' by simp_all
  note dir = ahash_dir [OF some(1)] and dir' = ahash_dir [OF some(2)]
  have "hashed_dir ts = hashed_dir ts'"
  proof (rule dir_hash_inj)
    show "dir_hash X (hashed_dir ts) = Some d" "dir_hash X (hashed_dir ts') = Some d" using dir dir' "2.prems"(4,5) t' by simp_all
    show "entries_ok (hashed_dir ts)" "entries_ok (hashed_dir ts')" using hashed_dir_ok some "2.prems"(1,2) t' by blast+
  qed (rule inj_on_subset [OF "2.prems"(6)], auto simp: t' hashed_dir_def Let_def)
  then have len: "length ts = length ts'" and nth: "i < length ts \<Longrightarrow> fst (ts ! i) = fst (ts' ! i) \<and> akind (snd (ts ! i)) = akind (snd (ts' ! i))
      \<and> the (ahash X (snd (ts ! i))) = the (ahash X (snd (ts' ! i)))" for i
  proof -
    assume eq: "hashed_dir ts = hashed_dir ts'"
    show len: "length ts = length ts'" using arg_cong [OF eq, of length] by (simp add: hashed_dir_def)
    assume i: "i < length ts"
    then have "hashed_dir ts ! i = hashed_dir ts' ! i" using eq by simp
    with i len show "fst (ts ! i) = fst (ts' ! i) \<and> akind (snd (ts ! i)) = akind (snd (ts' ! i))
      \<and> the (ahash X (snd (ts ! i))) = the (ahash X (snd (ts' ! i)))" by (simp add: hashed_dir_def)
  qed
  have "ts ! i = ts' ! i" if i: "i < length ts" for i
  proof -
    have mem: "ts ! i \<in> set ts" "ts' ! i \<in> set ts'" using i len by simp_all
    have some: "ahash X (snd (ts ! i)) \<noteq> None" "ahash X (snd (ts' ! i)) \<noteq> None"
      using dir dir' "2.prems"(4,5) t' mem by auto
    have "snd (ts ! i) = snd (ts' ! i)"
    proof (rule "2.IH" [OF mem(1)])
      show "ahash X (snd (ts ! i)) = Some (the (ahash X (snd (ts ! i))))"
        "ahash X (snd (ts' ! i)) = Some (the (ahash X (snd (ts ! i))))" using some nth [OF i] by auto
      show "inj_on (blake X) (hash_inputs X (snd (ts ! i)) \<union> hash_inputs X (snd (ts' ! i)))"
        by (rule inj_on_subset [OF "2.prems"(6)]) (use mem t' in auto)
    qed (use "2.prems"(1,2) t' mem nth [OF i] in auto)
    with nth [OF i] show ?thesis by (simp add: prod_eq_iff)
  qed
  with len t' show ?case by (simp add: list_eq_iff_nth_eq)
qed

end

lemma merkle_root_value:
  assumes "ordmap_laws M" and "context_crates_laws X" and "context_ok M X n (c, s) es" and "adepth (ADir es) \<le> fuel"
    and "ahash X (ADir es) \<noteq> None" and "get_merkle_root fuel M X c s = (Ok d, s')"
  shows "ahash X (ADir es) = Some d"
proof -
  obtain d' where "ahash X (ADir es) = Some d'" using assms(5) by blast
  with context_store.get_merkle_root_ok [OF context_store.intro [OF assms(1,2)] assms(3,4), of d'] assms(6) show ?thesis by auto
qed

text \<open>
  C9. A Merkle root binds the content of a context: two contexts, in whatever part they are in memory or in the repository, for which
  \<^verbatim>\<open>get_merkle_root\<close> returns the same hash stand for the same directory, unless the digest maps two different ones of the strings
  that are hashed for them to the same 32 bytes. A name or a value cannot be moved, split or exchanged for a
  directory without changing the root, whether the directories on the way are hashed flat or as inodes.
\<close>

theorem merkle_root_binds:
  assumes "ordmap_laws M" and "context_crates_laws X"
    and "context_ok M X n (c, s) es" and "awf (ADir es)" and "ahash X (ADir es) \<noteq> None" and "adepth (ADir es) \<le> fuel"
    and "context_ok M X n' (c', s') es'" and "awf (ADir es')" and "ahash X (ADir es') \<noteq> None" and "adepth (ADir es') \<le> fuel'"
    and "get_merkle_root fuel M X c s = (Ok d, t)" and "get_merkle_root fuel' M X c' s' = (Ok d, t')"
    and "inj_on (var_blake2b X ENTRY_HASH_LEN) (hash_inputs X (ADir es) \<union> hash_inputs X (ADir es'))"
  shows "es = es'"
proof -
  have "ahash X (ADir es) = Some d" "ahash X (ADir es') = Some d"
    using merkle_root_value [OF assms(1-3,6,5,11)] merkle_root_value [OF assms(1,2,7,10,9,12)] by simp_all
  from context_store.ahash_inj [OF context_store.intro [OF assms(1,2)] assms(4,8) _ this assms(13)] show ?thesis by simp
qed

lemma one_value_root: "\<exists>d t. get_merkle_root (Suc 1) ordmap_ref crates_ref one_value_context one_value_session = (Ok d, t)"
  by (simp add: get_merkle_root_def in_ctx_def wt_hash_def root_hash_id_def call_err_def bind_call_def hash_tree_def one_value_context_def
      fresh_context_def root_ref_def ordmap_ref_def canon_def hash_short_inode_def one_value_session_def fresh_session_def empty_ctx_def
      read_node_def node_entry_hash_def get_leaf_def hash_entry_def hash_blob_def write_digest_def crates_ref_def ENTRY_HASH_LEN_def
      hash_id_of_db_def call_err_def with_repo_def im_get_vacant_entry_hash_def get_vacant_entry_hash_def in_memory_new_def
      hash_value_store_new_def get_free_id_def get_vacant_entry_def hash_id_from_usize_def update_node_def repo_hash_def im_get_hash_def
      get_hash_def entries_get_def into_usize_def checked_sub_def write_with_def ok_or_def checked_add_def db_of_hash_id_def ahash.simps
      usize_max_def)

theorem merkle_root_binds_witness:
  "\<exists>d t. get_merkle_root (Suc 1) ordmap_ref crates_ref one_value_context one_value_session = (Ok d, t)
    \<and> inj_on (var_blake2b crates_ref ENTRY_HASH_LEN) (hash_inputs crates_ref (ADir [(''a'', ABlob [7])]))
    \<and> aput [''a''] (Some (ABlob [7])) [] = [(''a'', ABlob [7])]"
proof -
  let ?es = "[(''a'', ABlob [7])]" and ?es' = "aput [''a''] (Some (ABlob [7])) []"
  obtain d t where d: "get_merkle_root (Suc 1) ordmap_ref crates_ref one_value_context one_value_session = (Ok d, t)"
    using one_value_root by blast
  have h: "ahash crates_ref (ADir ?es) \<noteq> None"
    by (simp add: ahash.simps dir_hash_def crates_ref_def ENTRY_HASH_LEN_def)
  have inj: "inj_on (var_blake2b crates_ref ENTRY_HASH_LEN) (hash_inputs crates_ref (ADir ?es))"
    by (simp add: inj_on_def short_prehash_def crates_ref_def ENTRY_HASH_LEN_def ahash.simps be_bytes_def
        encode_irmin_node_kind_def)
  have "?es' = ?es"
    by (rule merkle_root_binds [OF ordmap_ref.ordmap_laws_axioms ctx_ref.context_crates_laws_axioms _ _ _ _ one_value_ok _ _ _ d d])
      (use one_value_ok h inj in simp_all)
  with d inj show ?thesis by blast
qed

end
