(* ===== verification/Context_Commit.thy ===== *)
theory Context_Commit
  imports Context_Root
begin

text \<open>
  Commits: the entries that are not in the repository yet are serialized and written, and checking the commit out gives
  the directory that was committed. While the entries are collected, the flag of a node says that it is
  committed before its entry and those below it are; the proof follows a heap in which the flags of these
  nodes are not yet set.
\<close>

section \<open>Collecting the entries\<close>

lemma bind_call_eq_Err:
  "bind_call m f s = (Err e, s') \<longleftrightarrow> m s = (Err e, s') \<or> (\<exists>a s1. m s = (Ok a, s1) \<and> f a s1 = (Err e, s'))"
  by (auto simp: bind_call_def split: prod.splits res.splits)

definition mark :: "addr set \<Rightarrow> 't node list \<Rightarrow> 't node list" where
  "mark P g = map (\<lambda>i. if i \<in> P then (g ! i)\<lparr>commited := True\<rparr> else g ! i) [0..<length g]"

lemma length_mark [simp]: "length (mark P g) = length g"
  by (simp add: mark_def)

lemma nth_mark [simp]: "i < length g \<Longrightarrow> mark P g ! i = (if i \<in> P then (g ! i)\<lparr>commited := True\<rparr> else g ! i)"
  by (simp add: mark_def)

lemma mark_empty [simp]: "mark {} g = g"
  by (simp add: mark_def map_nth)

lemma mark_insert: "a < length g \<Longrightarrow> a \<notin> P \<Longrightarrow> (mark P g)[a := (mark P g ! a)\<lparr>commited := True\<rparr>] = mark (insert a P) g"
  by (rule nth_equalityI) (auto simp: nth_list_update)

lemma mark_done: "a < length g \<Longrightarrow> mark (insert a P) g = mark P (g[a := (g ! a)\<lparr>commited := True\<rparr>])"
  by (rule nth_equalityI) (auto simp: nth_list_update)

definition id_ok :: "nat \<Rightarrow> hash_id \<Rightarrow> bool" where
  "id_ok k h \<longleftrightarrow> h \<noteq> 0 \<and> unat h \<le> k"

definition snap_node :: "'t ordmap \<Rightarrow> nat \<Rightarrow> addr set \<Rightarrow> (hash_id \<rightharpoonup> bytes) \<Rightarrow> 't node list \<Rightarrow> addr \<Rightarrow> bool" where
  \<comment> \<open>the invariant of a node, apart from those in \<open>P\<close>, whose entries are being collected\<close>
  "snap_node M k P V g a \<longleftrightarrow>
     (\<forall>h. entry_hash_cell (g ! a) = Some h \<longrightarrow> id_ok k h)
     \<and> (\<forall>h. entry_hash_cell (g ! a) = Some h \<longrightarrow> \<not> commited (g ! a) \<longrightarrow> a \<notin> P \<longrightarrow> V h = None
         \<and> (\<forall>b < length g. b \<noteq> a \<longrightarrow> b \<notin> P \<longrightarrow> \<not> commited (g ! b) \<longrightarrow> entry_hash_cell (g ! b) \<noteq> Some h))
     \<and> (\<forall>tree. entry_cell (g ! a) = Some (ETree tree) \<longrightarrow> (\<forall>p \<in> set (om_iter M tree). snd p < length g
         \<and> (entry_hash_cell (g ! a) \<noteq> None \<longrightarrow> entry_hash_cell (g ! snd p) \<noteq> None)))"

definition snap_ok :: "'t ordmap \<Rightarrow> nat \<Rightarrow> addr set \<Rightarrow> (hash_id \<rightharpoonup> bytes) \<Rightarrow> 't node list \<Rightarrow> bool" where
  "snap_ok M k P V g \<longleftrightarrow> (\<forall>a < length g. snap_node M k P V g a)"

lemma wf_snap: "wf_ctx M s \<longleftrightarrow> wf_store s \<and> snap_ok M (length (hv_hashes (hv s))) {} (st_value s) (cx_heap s)"
  by (simp add: wf_ctx_def wf_node_def snap_ok_def snap_node_def Let_def wf_id_def id_ok_def)

definition unwritten :: "addr set \<Rightarrow> 't node list \<Rightarrow> hash_id set" where
  "unwritten P g = {h. \<exists>b < length g. b \<notin> P \<and> \<not> commited (g ! b) \<and> entry_hash_cell (g ! b) = Some h}"

definition flags_ext :: "'t node list \<Rightarrow> 't node list \<Rightarrow> bool" where
  "flags_ext g g' \<longleftrightarrow> length g' = length g \<and>
     (\<forall>a < length g. node_kind (g' ! a) = node_kind (g ! a) \<and> entry_hash_cell (g' ! a) = entry_hash_cell (g ! a)
        \<and> entry_cell (g' ! a) = entry_cell (g ! a) \<and> (commited (g ! a) \<longrightarrow> commited (g' ! a)))"

lemma flags_ext_refl [simp]: "flags_ext g g"
  by (simp add: flags_ext_def)

lemma flags_ext_trans: "flags_ext g g' \<Longrightarrow> flags_ext g' g'' \<Longrightarrow> flags_ext g g''"
  by (simp add: flags_ext_def)

lemma unwritten_flags: "flags_ext g g' \<Longrightarrow> unwritten P g' \<subseteq> unwritten P g"
  by (auto simp: unwritten_def flags_ext_def)

lemma unwritten_insert: "unwritten (insert a P) g \<subseteq> unwritten P g"
  by (auto simp: unwritten_def)

definition add_all :: "(hash_id \<times> bytes) list \<Rightarrow> (hash_id \<rightharpoonup> bytes) \<Rightarrow> hash_id \<rightharpoonup> bytes" where
  "add_all batch V = fold (\<lambda>(h, v) V. V(h \<mapsto> v)) batch V"

lemma add_all_snoc [simp]: "add_all (batch @ [(h, v)]) V = (add_all batch V)(h \<mapsto> v)"
  by (simp add: add_all_def)

text \<open>A node that is done: its tree can be read, so that its flag may be set.\<close>

lemma snap_done:
  assumes "snap_ok M k (insert a P) V g" and "a < length g"
  shows "snap_ok M k P V (g[a := (g ! a)\<lparr>commited := True\<rparr>])"
proof -
  let ?g = "g[a := (g ! a)\<lparr>commited := True\<rparr>]"
  have same: "entry_hash_cell (?g ! b) = entry_hash_cell (g ! b)" "entry_cell (?g ! b) = entry_cell (g ! b)"
    "commited (?g ! b) \<longleftrightarrow> b = a \<or> commited (g ! b)" for b
    using assms(2) by (simp_all add: nth_list_update)
  have "snap_node M k P V ?g b" if "b < length g" for b
  proof -
    have "snap_node M k (insert a P) V g b" using assms(1) that by (simp add: snap_ok_def)
    then show ?thesis unfolding snap_node_def same length_list_update by auto
  qed
  then show ?thesis by (simp add: snap_ok_def)
qed

lemma rep_done:
  assumes "rep_node M X V D g a t" and "entry_hash_cell (g ! a) = Some h" and "stored X V D h t" and "rep_node M X V D g b u"
  shows "rep_node M X V D (g[a := (g ! a)\<lparr>commited := True\<rparr>]) b u"
  using assms(4)
proof (rule rep_ext)
  fix b u assume b: "b < length g" "rep_node M X V D g b u"
  have "u = t" if "b = a" using rep_node_unique [OF b(2)] assms(1) that by simp
  then show "cells_ok X V D (g[a := (g ! a)\<lparr>commited := True\<rparr>] ! b) u
      \<and> (entry_cell (g[a := (g ! a)\<lparr>commited := True\<rparr>] ! b) = entry_cell (g ! b)
          \<and> (commited (g ! b) \<longrightarrow> commited (g[a := (g ! a)\<lparr>commited := True\<rparr>] ! b))
         \<or> entry_cell (g ! b) = None \<and> (\<exists>e. entry_cell (g[a := (g ! a)\<lparr>commited := True\<rparr>] ! b) = Some e
            \<and> rep_entry M X V D (g[a := (g ! a)\<lparr>commited := True\<rparr>]) e u))"
    using rep_node_facts(1) [OF assms(1)] rep_node_facts(2) [OF b(2)] b(1) assms(2,3) by (auto simp: nth_list_update cells_ok_def)
qed simp_all

lemma snap_insert: "snap_ok M k P V g \<Longrightarrow> snap_ok M k (insert a P) V g"
  by (simp add: snap_ok_def snap_node_def)

lemma snap_add:
  assumes "snap_ok M k P V g" and "h \<notin> unwritten P g"
  shows "snap_ok M k P (V(h \<mapsto> v)) g"
  using assms by (auto simp: snap_ok_def snap_node_def unwritten_def)

context context_store
begin

definition collected ::
    "(hash_id \<rightharpoonup> bytes) \<Rightarrow> nat \<Rightarrow> addr set \<Rightarrow> (hash_id \<rightharpoonup> bytes) \<Rightarrow> (hash_id \<rightharpoonup> bytes)
      \<Rightarrow> 't node list \<Rightarrow> serializing_data \<Rightarrow> 't ctx \<Rightarrow> bool" where
  \<comment> \<open>\<open>V\<close> has what can be read when the batch is written, apart from the entries \<open>Q\<close> whose parts are missing\<close>
  "collected V0 k P Q V g data s \<longleftrightarrow>
     snap_ok M k P V g \<and> cx_heap s = mark P g \<and> add_all (sd_batch data) V0 = V ++ Q
     \<and> sd_commit_to_storage data \<and> (\<forall>x \<in> set (sd_batch data). id_ok k (fst x))
     \<and> dom Q \<inter> unwritten P g = {} \<and> dom Q \<inter> dom V = {}
     \<and> P \<subseteq> {..<length g}"

definition stays :: "(hash_id \<rightharpoonup> bytes) \<Rightarrow> (hash_id \<rightharpoonup> bytes) \<Rightarrow> 't node list \<Rightarrow> (hash_id \<rightharpoonup> bytes) \<Rightarrow> 't node list \<Rightarrow> bool" where
  "stays D V g V' g' \<longleftrightarrow> flags_ext g g' \<and> V \<subseteq>\<^sub>m V' \<and> (\<forall>a u. rep_node M X V D g a u \<longrightarrow> rep_node M X V' D g' a u)"

lemma stays_refl [simp]: "stays D V g V g"
  by (simp add: stays_def)

lemma stays_trans: "stays D V g V' g' \<Longrightarrow> stays D V' g' V'' g'' \<Longrightarrow> stays D V g V'' g''"
  by (auto simp: stays_def intro: flags_ext_trans map_le_trans)

lemma stays_add: "h \<notin> dom V \<Longrightarrow> stays D V g (V(h \<mapsto> v)) g"
proof -
  assume "h \<notin> dom V"
  then have le: "V \<subseteq>\<^sub>m V(h \<mapsto> v)" by (auto simp: map_le_def)
  have "rep_node M X (V(h \<mapsto> v)) D g a u" if "rep_node M X V D g a u" for a u
    using that by (rule rep_ext) (use le in \<open>auto dest: rep_node_facts(2) intro: cells_ok_mono\<close>)
  with le show ?thesis by (simp add: stays_def)
qed

lemma known_hash_id: "a < length (cx_heap s) \<Longrightarrow> entry_hash_cell (cx_heap s ! a) = Some h \<Longrightarrow> entry_hash_id (Suc hf) M X a s = (Ok h, s)"
  by (simp add: bind_call_def read_node_def)

lemma to_disk_tree:
  assumes "\<forall>p \<in> set (om_iter M tree). snd p < length (cx_heap s) \<and> entry_hash_cell (cx_heap s ! snd p) \<noteq> None"
  shows "to_disk M (ETree tree) s = (Ok (DTree (map (\<lambda>p. (fst p, node_kind (cx_heap s ! snd p), the (entry_hash_cell (cx_heap s ! snd p)))) (om_iter M tree))), s)"
proof -
  have "fold_call (\<lambda>(k, a) es. bind_call (read_node a) (\<lambda>n. case entry_hash_cell n of
          None \<Rightarrow> fail (BincodeError ''entry_hash missing in Node'') | Some h \<Rightarrow> ret (es @ [(k, node_kind n, h)]))) ps es s
      = (Ok (es @ map (\<lambda>p. (fst p, node_kind (cx_heap s ! snd p), the (entry_hash_cell (cx_heap s ! snd p)))) ps), s)"
    if "\<forall>p \<in> set ps. snd p < length (cx_heap s) \<and> entry_hash_cell (cx_heap s ! snd p) \<noteq> None" for ps es
    using that by (induction ps arbitrary: es) (auto simp: bind_call_def read_node_def)
  from this [OF assms, of "[]"] show ?thesis by (simp add: to_disk_def bind_call_def)
qed

definition child_entries :: "nat \<Rightarrow> nat \<Rightarrow> string \<times> addr \<Rightarrow> serializing_data \<Rightarrow> ('t ctx, merkle_error, serializing_data) call" where
  \<comment> \<open>the body of the loop over a directory\<close>
  "child_entries fuel hf = (\<lambda>(k, a) data.
     bind_call (read_node a) (\<lambda>n.
       if commited n then add_older_entry hf M X a data
       else
         bind_call (update_node a (\<lambda>n. n\<lparr>commited := True\<rparr>)) (\<lambda>_.
           case entry_cell n of
             None \<Rightarrow> ret data
           | Some e \<Rightarrow>
               bind_call (call_err MHashingError (entry_hash_id hf M X a)) (\<lambda>h.
                 get_entries_recursively fuel hf M X e h None data))))"

definition collect_ok :: "nat \<Rightarrow> nat \<Rightarrow> bool" where
  "collect_ok fuel hf \<longleftrightarrow>
     (\<forall>V0 D k P Q V g data s e h t.
        collected V0 k P Q V g data s \<longrightarrow> rep_entry M X V D g e t \<longrightarrow>
        (\<forall>tree. e = ETree tree \<longrightarrow> (\<forall>p \<in> set (om_iter M tree). entry_hash_cell (g ! snd p) \<noteq> None)) \<longrightarrow>
        has_hash X D h t \<longrightarrow> id_ok k h \<longrightarrow> h \<notin> dom V \<union> dom Q \<union> unwritten P g \<longrightarrow>
        (\<forall>p \<in> P. \<exists>u. rep_node M X V D g p u \<and> adepth t \<le> adepth u) \<longrightarrow> adepth t < fuel \<longrightarrow>
        (\<exists>data' g' V'. get_entries_recursively fuel hf M X e h None data s = (Ok data', s\<lparr>cx_heap := mark P g'\<rparr>)
           \<and> collected V0 k P Q V' g' data' (s\<lparr>cx_heap := mark P g'\<rparr>) \<and> stays D V g V' g' \<and> stored X V' D h t
           \<and> dom V' \<subseteq> dom V \<union> {h} \<union> unwritten P g))"

lemma collect_child:
  assumes "collect_ok fuel (Suc hf)" and c: "collected V0 k P Q V g data s" and rep: "rep_node M X V D g a u"
    and h: "entry_hash_cell (g ! a) = Some h" and fuel: "adepth u < fuel"
    and above: "\<forall>p \<in> P. \<exists>w. rep_node M X V D g p w \<and> adepth u < adepth w"
  shows "\<exists>data' g' V'. child_entries fuel (Suc hf) (name, a) data s = (Ok data', s\<lparr>cx_heap := mark P g'\<rparr>)
    \<and> collected V0 k P Q V' g' data' (s\<lparr>cx_heap := mark P g'\<rparr>) \<and> stays D V g V' g' \<and> stored X V' D h u
    \<and> dom V' \<subseteq> dom V \<union> unwritten P g"
proof -
  note a = rep_node_facts(1) [OF rep] and cells = rep_node_facts(2) [OF rep]
  have hp: "cx_heap s = mark P g" using c by (simp add: collected_def)
  have out: "a \<notin> P" using above rep_node_unique [OF rep] by (metis nat_neq_iff)
  show ?thesis
  proof (cases "commited (g ! a)")
    case True
    have "stored X V D h u" using cells h True by (auto simp: cells_ok_def)
    moreover have "child_entries fuel (Suc hf) (name, a) data s = (Ok (data\<lparr>sd_older := sd_older data @ [h]\<rparr>), s)"
      using c True a out h hp known_hash_id [of a s h hf]
      by (simp add: child_entries_def bind_call_def read_node_def add_older_entry_def collected_def call_err_def)
    moreover have "s\<lparr>cx_heap := mark P g\<rparr> = s" using hp by simp
    ultimately show ?thesis
      using c by (intro exI [of _ "data\<lparr>sd_older := sd_older data @ [h]\<rparr>"] exI [of _ g] exI [of _ V]) (simp add: collected_def)
  next
    case False
    obtain e where e: "entry_cell (g ! a) = Some e" "rep_entry M X V D g e u"
      using rep False by (auto simp: rep_node_entry split: option.splits)
    let ?P = "insert a P" and ?s = "s\<lparr>cx_heap := mark (insert a P) g\<rparr>"
    have snap: "snap_ok M k P V g" using c by (simp add: collected_def)
    have un: "h \<in> unwritten P g" using a out False h by (auto simp: unwritten_def)
    have node: "snap_node M k P V g a" using snap a by (simp add: snap_ok_def)
    have hV: "h \<notin> dom V" "h \<notin> unwritten ?P g" "id_ok k h"
      using node h False out unfolding snap_node_def unwritten_def by auto
    have hQ: "h \<notin> dom Q" using c un by (auto simp: collected_def)
    have c': "collected V0 k ?P Q V g data ?s"
      using c a snap_insert [OF snap] unwritten_insert [of a P g] by (auto simp: collected_def)
    have "\<exists>data' g' V'. get_entries_recursively fuel (Suc hf) M X e h None data ?s = (Ok data', ?s\<lparr>cx_heap := mark ?P g'\<rparr>)
       \<and> collected V0 k ?P Q V' g' data' (?s\<lparr>cx_heap := mark ?P g'\<rparr>) \<and> stays D V g V' g' \<and> stored X V' D h u
       \<and> dom V' \<subseteq> dom V \<union> {h} \<union> unwritten ?P g"
    proof (rule assms(1) [unfolded collect_ok_def, rule_format, OF c' e(2)])
      show "entry_hash_cell (g ! snd p) \<noteq> None" if "e = ETree tree" "p \<in> set (om_iter M tree)" for tree p
        using node e(1) h that by (simp add: snap_node_def)
      show "has_hash X D h u" using cells h by (simp add: cells_ok_def)
      show "\<exists>w. rep_node M X V D g p w \<and> adepth u \<le> adepth w" if "p \<in> ?P" for p
        using that above rep by (metis insertE less_imp_le order_refl)
    qed (use hV hQ fuel in auto)
    then obtain data' g' V' where r: "get_entries_recursively fuel (Suc hf) M X e h None data ?s = (Ok data', s\<lparr>cx_heap := mark ?P g'\<rparr>)"
      "collected V0 k ?P Q V' g' data' (s\<lparr>cx_heap := mark ?P g'\<rparr>)" "stays D V g V' g'" "stored X V' D h u"
      "dom V' \<subseteq> dom V \<union> {h} \<union> unwritten ?P g" by auto
    let ?g = "g'[a := (g' ! a)\<lparr>commited := True\<rparr>]"
    have fl: "flags_ext g g'" "length g' = length g" "rep_node M X V' D g' a u" using r(3) rep by (auto simp: stays_def flags_ext_def)
    have h': "entry_hash_cell (g' ! a) = Some h" using fl a h by (simp add: flags_ext_def)
    have fl': "flags_ext g' ?g" using a fl(2) by (auto simp: flags_ext_def nth_list_update)
    have "stays D V' g' V' ?g" unfolding stays_def using rep_done [OF fl(3) h' r(4)] fl' by (intro conjI allI impI) auto
    then have stays: "stays D V g V' ?g" by (rule stays_trans [OF r(3)])
    have "unwritten P ?g \<subseteq> unwritten ?P g'" using a fl(2) by (auto simp: unwritten_def nth_list_update split: if_splits)
    then have "collected V0 k P Q V' ?g data' (s\<lparr>cx_heap := mark P ?g\<rparr>)"
      using r(2) snap_done [of M k a P V' g'] a fl(2) by (auto simp: collected_def)
    moreover have "child_entries fuel (Suc hf) (name, a) data s = (Ok data', s\<lparr>cx_heap := mark P ?g\<rparr>)"
    proof -
      have "update_node a (\<lambda>n. n\<lparr>commited := True\<rparr>) s = (Ok () :: (merkle_error, unit) res, ?s)"
        using a hp mark_insert [OF a out] out by (simp add: update_node_def)
      moreover have "entry_hash_id (Suc hf) M X a ?s = (Ok h, ?s)"
        by (rule known_hash_id) (use a h in simp_all)
      ultimately show ?thesis
        using r(1) a out False hp e(1) mark_done [of a g' P] fl(2)
        by (simp add: child_entries_def bind_call_def read_node_def call_err_def del: entry_hash_id.simps)
    qed
    moreover have "dom V' \<subseteq> dom V \<union> unwritten P g" using r(5) un unwritten_insert [of a P g] by blast
    ultimately show ?thesis using stays r(4) by blast
  qed
qed

lemma collect_children:
  assumes "collect_ok fuel (Suc hf)" and "collected V0 k P Q V g data s"
    and "\<forall>p \<in> set ps. entry_hash_cell (g ! snd p) \<noteq> None \<and> (\<exists>u. rep_node M X V D g (snd p) u \<and> adepth u < d)" and "d \<le> fuel"
    and "\<forall>p \<in> P. \<exists>w. rep_node M X V D g p w \<and> d \<le> adepth w"
  shows "\<exists>data' g' V'. fold_call (child_entries fuel (Suc hf)) ps data s = (Ok data', s\<lparr>cx_heap := mark P g'\<rparr>)
    \<and> collected V0 k P Q V' g' data' (s\<lparr>cx_heap := mark P g'\<rparr>) \<and> stays D V g V' g' \<and> dom V' \<subseteq> dom V \<union> unwritten P g
    \<and> (\<forall>p \<in> set ps. \<forall>u. rep_node M X V D g (snd p) u \<longrightarrow> stored X V' D (the (entry_hash_cell (g ! snd p))) u)"
  using assms(2-)
proof (induction ps arbitrary: V g data s)
  case Nil
  then have "s\<lparr>cx_heap := mark P g\<rparr> = s" by (simp add: collected_def)
  with Nil show ?case by (intro exI [of _ data] exI [of _ g] exI [of _ V]) simp
next
  case (Cons p ps)
  obtain name a where p: "p = (name, a)" by (cases p)
  obtain h u where h: "entry_hash_cell (g ! a) = Some h" and u: "rep_node M X V D g a u" "adepth u < d"
    using Cons.prems(2) p by auto
  have "\<forall>p \<in> P. \<exists>w. rep_node M X V D g p w \<and> adepth u < adepth w"
    using Cons.prems(4) u(2) by (meson order.strict_trans2)
  then obtain data1 g1 V1 where c1: "child_entries fuel (Suc hf) (name, a) data s = (Ok data1, s\<lparr>cx_heap := mark P g1\<rparr>)"
    "collected V0 k P Q V1 g1 data1 (s\<lparr>cx_heap := mark P g1\<rparr>)" "stays D V g V1 g1" "stored X V1 D h u"
    "dom V1 \<subseteq> dom V \<union> unwritten P g"
    using collect_child [OF assms(1) Cons.prems(1) u(1) h, of name] u(2) Cons.prems(3) by auto
  let ?s = "s\<lparr>cx_heap := mark P g1\<rparr>"
  have addr: "snd q < length g" if "q \<in> set ps" for q using Cons.prems(2) that rep_node_facts(1) by fastforce
  have keep: "rep_node M X V1 D g1 b w" if "rep_node M X V D g b w" for b w using c1(3) that by (simp add: stays_def)
  have cell: "entry_hash_cell (g1 ! snd q) = entry_hash_cell (g ! snd q)" if "q \<in> set ps" for q
    using c1(3) addr [OF that] by (simp add: stays_def flags_ext_def)
  have "\<exists>data' g' V'. fold_call (child_entries fuel (Suc hf)) ps data1 ?s = (Ok data', ?s\<lparr>cx_heap := mark P g'\<rparr>)
    \<and> collected V0 k P Q V' g' data' (?s\<lparr>cx_heap := mark P g'\<rparr>) \<and> stays D V1 g1 V' g' \<and> dom V' \<subseteq> dom V1 \<union> unwritten P g1
    \<and> (\<forall>p \<in> set ps. \<forall>u. rep_node M X V1 D g1 (snd p) u \<longrightarrow> stored X V' D (the (entry_hash_cell (g1 ! snd p))) u)"
  proof (rule Cons.IH [OF c1(2)])
    show "\<forall>p \<in> set ps. entry_hash_cell (g1 ! snd p) \<noteq> None \<and> (\<exists>u. rep_node M X V1 D g1 (snd p) u \<and> adepth u < d)"
      using Cons.prems(2) keep cell by (metis list.set_intros(2))
    show "\<forall>p \<in> P. \<exists>w. rep_node M X V1 D g1 p w \<and> d \<le> adepth w" using Cons.prems(4) keep by blast
  qed (rule Cons.prems(3))
  then obtain data2 g2 V2 where c2: "fold_call (child_entries fuel (Suc hf)) ps data1 ?s = (Ok data2, s\<lparr>cx_heap := mark P g2\<rparr>)"
    "collected V0 k P Q V2 g2 data2 (s\<lparr>cx_heap := mark P g2\<rparr>)" "stays D V1 g1 V2 g2" "dom V2 \<subseteq> dom V1 \<union> unwritten P g1"
    "\<forall>p \<in> set ps. \<forall>u. rep_node M X V1 D g1 (snd p) u \<longrightarrow> stored X V2 D (the (entry_hash_cell (g1 ! snd p))) u"
    by auto
  have "stored X V2 D (the (entry_hash_cell (g ! snd q))) w" if "q \<in> set (p # ps)" "rep_node M X V D g (snd q) w" for q w
  proof (cases "q \<in> set ps")
    case True
    with c2(5) keep [OF that(2)] cell show ?thesis by metis
  next
    case False
    then have q: "q = (name, a)" using that(1) p by simp
    moreover have "w = u" using rep_node_unique [OF that(2)] u(1) q by simp
    ultimately show ?thesis using stored_mono [OF c1(4)] c2(3) h by (simp add: stays_def)
  qed
  moreover have "dom V2 \<subseteq> dom V \<union> unwritten P g"
  proof -
    have "unwritten P g1 \<subseteq> unwritten P g" using c1(3) by (intro unwritten_flags) (simp add: stays_def)
    with c1(5) c2(4) show ?thesis by blast
  qed
  moreover have "fold_call (child_entries fuel (Suc hf)) (p # ps) data s = (Ok data2, s\<lparr>cx_heap := mark P g2\<rparr>)"
    using c1(1) c2(1) p by (simp add: bind_call_def)
  ultimately show ?case using c2(2) stays_trans [OF c1(3) c2(3)] by blast
qed

lemma collected_add:
  assumes "collected V0 k P Q V g data s" and "h \<notin> dom V \<union> dom Q \<union> unwritten P g" and "id_ok k h"
  shows "collected V0 k P (Q(h \<mapsto> bs)) V g (data\<lparr>sd_batch := sd_batch data @ [(h, bs)]\<rparr>) s"
  using assms by (auto simp: collected_def)

lemma collected_done:
  assumes "collected V0 k P (Q(h \<mapsto> bs)) V g data s" and "h \<notin> dom Q"
  shows "collected V0 k P Q (V(h \<mapsto> bs)) g data s" and "h \<notin> dom V"
proof -
  show "h \<notin> dom V" using assms by (auto simp: collected_def)
  have "V ++ Q(h \<mapsto> bs) = V(h \<mapsto> bs) ++ Q" using assms(2) by (simp add: map_add_upd_left)
  then show "collected V0 k P Q (V(h \<mapsto> bs)) g data s"
    using assms snap_add [of M k P V g h bs] by (auto simp: collected_def)
qed

lemma collect_all: "collect_ok fuel (Suc hf)"
proof (induction fuel)
  case 0
  show ?case by (simp add: collect_ok_def)
next
  case (Suc fuel)
  show ?case
    unfolding collect_ok_def
  proof (intro allI impI)
    fix V0 V Q :: "hash_id \<rightharpoonup> bytes" and D k P g data s e h t
    assume c: "collected V0 k P Q V g data s" and rep: "rep_entry M X V D g e t"
      and known: "\<forall>tree. e = ETree tree \<longrightarrow> (\<forall>p \<in> set (om_iter M tree). entry_hash_cell (g ! snd p) \<noteq> None)"
      and h: "has_hash X D h t" "id_ok k h" "h \<notin> dom V \<union> dom Q \<union> unwritten P g"
      and above: "\<forall>p \<in> P. \<exists>u. rep_node M X V D g p u \<and> adepth t \<le> adepth u" and fuel: "adepth t < Suc fuel"
    have hp: "cx_heap s = mark P g" and store: "sd_commit_to_storage data" using c by (simp_all add: collected_def)
    show "\<exists>data' g' V'. get_entries_recursively (Suc fuel) (Suc hf) M X e h None data s = (Ok data', s\<lparr>cx_heap := mark P g'\<rparr>)
           \<and> collected V0 k P Q V' g' data' (s\<lparr>cx_heap := mark P g'\<rparr>) \<and> stays D V g V' g' \<and> stored X V' D h t
           \<and> dom V' \<subseteq> dom V \<union> {h} \<union> unwritten P g"
    proof (cases e)
      case (ECommit c)
      with rep show ?thesis by simp
    next
      case (EBlob b)
      then have t: "t = ABlob b" using rep by simp
      obtain bs where bs: "bincode_serialize X (DBlob b) = Ok bs" "bincode_deserialize X bs = Ok (DBlob b)"
        using bincode_roundtrip [of "DBlob b"] by auto
      let ?data = "data\<lparr>sd_batch := sd_batch data @ [(h, bs)]\<rparr>" and ?V = "V(h \<mapsto> bs)"
      have "get_entries_recursively (Suc fuel) (Suc hf) M X e h None data s = (Ok ?data, s)"
        using EBlob store bs(1) by (simp add: bind_call_def add_serialized_entry_def to_disk_def call_err_def)
      moreover have "s\<lparr>cx_heap := mark P g\<rparr> = s" using hp by simp
      moreover have "collected V0 k P Q ?V g ?data s"
        using collected_done(1) [OF collected_add [OF c h(3,2)]] h(3) by simp
      moreover have "stored X ?V D h t" unfolding t using bs(2) h(1) t by (intro stored_blob [of _ _ bs]) simp_all
      moreover have "stays D V g ?V g" using h(3) by (simp add: stays_add)
      ultimately show ?thesis by (intro exI [of _ ?data] exI [of _ g] exI [of _ ?V]) auto
    next
      case (ETree tree)
      then obtain ts where t: "t = ADir ts" and tree: "rep_tree M X V D g tree ts" using rep by auto
      let ?ps = "om_iter M tree"
      let ?es = "map (\<lambda>p. (fst p, node_kind (g ! snd p), the (entry_hash_cell (g ! snd p)))) ?ps"
      have sub: "\<exists>u. (fst p, u) \<in> set ts \<and> rep_node M X V D g (snd p) u" if "p \<in> set ?ps" for p
        using tree that unfolding rep_tree_def by (force simp: list_all2_conv_all_nth in_set_conv_nth)
      have addr: "snd p < length g" if "p \<in> set ?ps" for p using sub [OF that] rep_node_facts(1) by blast
      have mk: "cx_heap s ! snd p = (if snd p \<in> P then (g ! snd p)\<lparr>commited := True\<rparr> else g ! snd p)" if "p \<in> set ?ps" for p
        using addr [OF that] hp by simp
      have disk: "to_disk M (ETree tree) s = (Ok (DTree ?es), s)"
      proof -
        have "map (\<lambda>p. (fst p, node_kind (cx_heap s ! snd p), the (entry_hash_cell (cx_heap s ! snd p)))) ?ps = ?es"
          using mk by auto
        with to_disk_tree [of tree s] addr known ETree mk hp show ?thesis by simp
      qed
      have ids: "0 \<notin> disk_ids (DTree ?es)"
      proof
        assume "0 \<in> disk_ids (DTree ?es)"
        then obtain p where p: "p \<in> set ?ps" "the (entry_hash_cell (g ! snd p)) = 0" by auto
        then have "entry_hash_cell (g ! snd p) = Some 0" using known ETree by auto
        with c addr [OF p(1)] show False by (auto simp: collected_def snap_ok_def snap_node_def id_ok_def)
      qed
      obtain bs where bs: "bincode_serialize X (DTree ?es) = Ok bs" "bincode_deserialize X bs = Ok (DTree ?es)"
        using bincode_roundtrip [OF ids] by blast
      let ?data = "data\<lparr>sd_batch := sd_batch data @ [(h, bs)]\<rparr>"
      have c1: "collected V0 k P (Q(h \<mapsto> bs)) V g ?data s" by (rule collected_add [OF c h(3,2)])
      have below: "\<forall>p \<in> set ?ps. entry_hash_cell (g ! snd p) \<noteq> None \<and> (\<exists>u. rep_node M X V D g (snd p) u \<and> adepth u < adepth t)"
        using known ETree sub adepth_child [of _ ts] t by (metis snd_conv)
      obtain data' g' V' where r: "fold_call (child_entries fuel (Suc hf)) ?ps ?data s = (Ok data', s\<lparr>cx_heap := mark P g'\<rparr>)"
        "collected V0 k P (Q(h \<mapsto> bs)) V' g' data' (s\<lparr>cx_heap := mark P g'\<rparr>)" "stays D V g V' g'" "dom V' \<subseteq> dom V \<union> unwritten P g"
        "\<forall>p \<in> set ?ps. \<forall>u. rep_node M X V D g (snd p) u \<longrightarrow> stored X V' D (the (entry_hash_cell (g ! snd p))) u"
        using collect_children [OF Suc.IH c1 below _ above] fuel by auto
      let ?V = "V'(h \<mapsto> bs)"
      have hQ: "h \<notin> dom Q" using h(3) by simp
      note fin = collected_done [OF r(2) hQ]
      have le: "V' \<subseteq>\<^sub>m ?V" using fin(2) by (auto simp: map_le_def)
      have "stored X ?V D h t"
        unfolding t
      proof (rule stored_dir [where bs = bs and es = ?es])
        show "keys_sorted ?es" using iter_sorted [of tree] by (simp add: keys_sorted_def comp_def)
        have "list_all2 (\<lambda>p q. fst p = fst q \<and> node_kind (g ! snd p) = akind (snd q)
            \<and> stored X ?V D (the (entry_hash_cell (g ! snd p))) (snd q)) ?ps ts"
          using tree unfolding rep_tree_def
        proof (rule list.rel_mono_strong)
          fix p q assume p: "p \<in> set ?ps" and pq: "fst p = fst q \<and> rep_node M X V D g (snd p) (snd q)"
          have "stored X V' D (the (entry_hash_cell (g ! snd p))) (snd q)" using r(5) p pq by blast
          then have "stored X ?V D (the (entry_hash_cell (g ! snd p))) (snd q)" by (rule stored_mono [OF _ le]) simp
          with pq rep_node_facts(2) [of M X V D g "snd p" "snd q"] show "fst p = fst q \<and> node_kind (g ! snd p) = akind (snd q)
            \<and> stored X ?V D (the (entry_hash_cell (g ! snd p))) (snd q)" by (simp add: cells_ok_def)
        qed
        then show "list_all2 (\<lambda>p q. fst p = fst q \<and> fst (snd p) = akind (snd q) \<and> stored X ?V D (snd (snd p)) (snd q)) ?es ts"
          by (simp add: list_all2_map1)
      qed (use bs(2) h(1) t in simp_all)
      moreover have "get_entries_recursively (Suc fuel) (Suc hf) M X e h None data s = (Ok data', s\<lparr>cx_heap := mark P g'\<rparr>)"
        using r(1) disk bs(1) store unfolding ETree child_entries_def
        by (simp add: bind_call_def add_serialized_entry_def call_err_def)
      moreover have "stays D V g ?V g'" using stays_trans [OF r(3) stays_add [OF fin(2)]] .
      moreover have "dom ?V \<subseteq> dom V \<union> {h} \<union> unwritten P g" using r(4) by auto
      ultimately show ?thesis using fin(1) by blast
    qed
  qed
qed

section \<open>Commits\<close>

lemma run_hash_commit:
  assumes "wf_ctx M s" and "st_hash s (root_hash c) = Some r"
    and "\<And>p. parent_commit_hash c = Some p \<Longrightarrow> st_hash s p \<noteq> None"
  shows "run M X s (hash_commit X c)
    (\<lambda>h s'. (\<exists>d. st_hash s' h = Some d \<and> length d = 32) \<and> hash_ext s s' \<and> cx_heap s' = cx_heap s \<and> fresh_id s' h \<and> \<not> wf_id s h) exhausted"
proof -
  have digest: "run M X s (write_digest X bs)
    (\<lambda>h s'. (\<exists>d. st_hash s' h = Some d \<and> length d = 32) \<and> hash_ext s s' \<and> cx_heap s' = cx_heap s \<and> fresh_id s' h \<and> \<not> wf_id s h) exhausted" for bs
  proof -
    obtain d where d: "blake X bs = Some d" "length d = 32" using blake2b_size [of bs] by (auto simp: ENTRY_HASH_LEN_def)
    show ?thesis by (rule run_weaken [OF run_write_digest [OF assms(1) d(1)]]) (use d(2) in simp_all)
  qed
  have root: "repo_hash (root_hash c) (HValueExpected ''root_hash'') s = (Ok r, s)"
    using st_hash_get [OF assms(2)] by (simp add: repo_hash_def)
  show ?thesis
  proof (cases "parent_commit_hash c")
    case None
    with digest root show ?thesis by (simp add: hash_commit_def run_def bind_call_def)
  next
    case (Some p)
    then obtain q where "st_hash s p = Some q" using assms(3) by auto
    then have "repo_hash p (HValueExpected ''parent_commit_hash'') s = (Ok q, s)"
      using st_hash_get by (simp add: repo_hash_def)
    with digest root Some show ?thesis by (simp add: hash_commit_def run_def bind_call_def)
  qed
qed

definition prepared :: "'t ctx \<Rightarrow> adir \<Rightarrow> hash_id \<Rightarrow> (hash_id \<times> bytes) list \<Rightarrow> 't ctx \<Rightarrow> bool" where
  \<comment> \<open>what holds once the batch is written to the repository\<close>
  "prepared s es h batch s' \<longleftrightarrow>
     (let V = add_all batch (st_value s'); D = st_hash s' in
       wf_store s' \<and> snap_ok M (length (hv_hashes (hv s'))) {} V (cx_heap s')
       \<and> (\<forall>x \<in> set batch. id_ok (length (hv_hashes (hv s'))) (fst x))
       \<and> st_value s \<subseteq>\<^sub>m V \<and> st_hash s \<subseteq>\<^sub>m D \<and> length (cx_heap s) \<le> length (cx_heap s')
       \<and> (\<forall>a u. st_rep M X s a u \<longrightarrow> rep_node M X V D (cx_heap s') a u)
       \<and> (\<exists>bs c. V h = Some bs \<and> bincode_deserialize X bs = Ok (DCommit c) \<and> stored X V D (root_hash c) (ADir es))
       \<and> (\<exists>d. D h = Some d \<and> length d = 32))"

lemma collected_start:
  assumes "wf_ctx M s" and "sd_commit_to_storage data" and "sd_batch data = []"
  shows "collected (st_value s) (length (hv_hashes (hv s))) {} Map.empty (st_value s) (cx_heap s) data s"
  using assms by (simp add: collected_def wf_snap add_all_def)

lemma fresh_unwritten: "fresh_id s h \<Longrightarrow> h \<notin> dom (st_value s) \<union> dom (Map.empty :: hash_id \<rightharpoonup> bytes) \<union> unwritten {} (cx_heap s)"
  by (auto simp: fresh_id_def unwritten_def)

lemma collect_commit:
  assumes "wf_ctx M s" and "st_tree M X s tree es" and "\<forall>p \<in> set (om_iter M tree). entry_hash_cell (cx_heap s ! snd p) \<noteq> None"
    and "has_hash X (st_hash s) (root_hash c) (ADir es)" and "fresh_id s (root_hash c)" and "fresh_id s h" and "h \<noteq> root_hash c"
    and "adepth (ADir es) \<le> fuel" and "0 \<notin> set_option (parent_commit_hash c)"
    and "st_hash s h = Some d" and "length d = 32"
  shows "\<exists>data s'. get_entries_recursively (Suc (Suc fuel)) fuel M X (ECommit c) h (Some tree)
      \<lparr>sd_batch = [], sd_older = [], sd_commit_to_storage = True\<rparr> s = (Ok data, s') \<and> prepared s es h (sd_batch data) s'"
proof -
  let ?k = "length (hv_hashes (hv s))" and ?old = "st_value s" and ?D = "st_hash s"
  let ?data = "\<lparr>sd_batch = [], sd_older = [], sd_commit_to_storage = True\<rparr>"
  obtain hf where hf: "fuel = Suc hf" using assms(8) by (cases fuel) auto
  have "0 \<notin> disk_ids (DCommit c)" using assms(5,9) by (auto simp: fresh_id_def wf_id_def)
  then obtain bs where bs: "bincode_serialize X (DCommit c) = Ok bs" "bincode_deserialize X bs = Ok (DCommit c)"
    using bincode_roundtrip by blast
  have ids: "id_ok ?k h" "id_ok ?k (root_hash c)" using assms(5,6) by (simp_all add: fresh_id_def wf_id_def id_ok_def)
  let ?data1 = "?data\<lparr>sd_batch := [(h, bs)]\<rparr>"
  have c1: "collected ?old ?k {} [h \<mapsto> bs] ?old (cx_heap s) ?data1 s"
    using collected_add [OF collected_start [OF assms(1), of ?data] fresh_unwritten [OF assms(6)] ids(1), of bs] by simp
  have "\<exists>data' g' V'. get_entries_recursively (Suc fuel) (Suc hf) M X (ETree tree) (root_hash c) None ?data1 s = (Ok data', s\<lparr>cx_heap := mark {} g'\<rparr>)
     \<and> collected ?old ?k {} [h \<mapsto> bs] V' g' data' (s\<lparr>cx_heap := mark {} g'\<rparr>) \<and> stays ?D ?old (cx_heap s) V' g'
     \<and> stored X V' ?D (root_hash c) (ADir es) \<and> dom V' \<subseteq> dom ?old \<union> {root_hash c} \<union> unwritten {} (cx_heap s)"
    by (rule collect_all [unfolded collect_ok_def, rule_format, OF c1])
      (use assms(2-4,7,8) ids fresh_unwritten [OF assms(5)] in \<open>auto simp del: adepth.simps\<close>)
  then obtain data g V where r:
    "get_entries_recursively (Suc fuel) (Suc hf) M X (ETree tree) (root_hash c) None ?data1 s = (Ok data, s\<lparr>cx_heap := g\<rparr>)"
    "collected ?old ?k {} [h \<mapsto> bs] V g data (s\<lparr>cx_heap := g\<rparr>)" "stays ?D ?old (cx_heap s) V g" "stored X V ?D (root_hash c) (ADir es)"
    by auto
  let ?V = "V(h \<mapsto> bs)" and ?s = "s\<lparr>cx_heap := g\<rparr>"
  have fin: "collected ?old ?k {} Map.empty ?V g data ?s" "h \<notin> dom V" using collected_done [of _ _ _ Map.empty, OF r(2)] by simp_all
  have stays: "stays ?D ?old (cx_heap s) ?V g" by (rule stays_trans [OF r(3) stays_add [OF fin(2)]])
  have "stored X ?V ?D (root_hash c) (ADir es)"
    by (rule stored_mono [OF r(4)]) (use fin(2) in \<open>auto simp: map_le_def\<close>)
  then have "prepared s es h (sd_batch data) ?s"
    using fin(1) stays assms(1,10,11) bs(2)
    by (auto simp: prepared_def Let_def collected_def stays_def flags_ext_def wf_heap_update wf_ctx_def)
  moreover have "get_entries_recursively (Suc (Suc fuel)) fuel M X (ECommit c) h (Some tree) ?data s = (Ok data, ?s)"
    using r(1) bs(1) unfolding hf
    by (subst get_entries_recursively.simps(2)) (simp add: bind_call_def add_serialized_entry_def to_disk_def call_err_def
        del: get_entries_recursively.simps)
  ultimately show ?thesis by blast
qed

lemma prepare_commit_ok:
  assumes "wf_ctx M s" and "st_tree M X s (root_ref M w) es" and "adepth (ADir es) \<le> fuel" and "ahash X (ADir es) \<noteq> None"
    and parent: "\<And>p. parent = Some p \<Longrightarrow> st_hash s p \<noteq> None"
  shows "(\<exists>h batch older s'. prepare_commit fuel M X w time author message parent True s = (Ok (h, batch, older), s') \<and> prepared s es h batch s')
    \<or> (\<exists>e s'. prepare_commit fuel M X w time author message parent True s = (Err e, s') \<and> exhausted e s')"
proof -
  let ?w = "root_ref M w"
  let ?c = "\<lambda>r. \<lparr>parent_commit_hash = parent, root_hash = r, commit_time = time, commit_author = author, commit_message = message\<rparr>"
  let ?hash = "bind_call (root_hash_id fuel M X w) (\<lambda>r. bind_call (call_err MHashingError (hash_commit X (?c r))) (\<lambda>h. ret (r, h)))"
  have "run M X s ?hash (\<lambda>(r, h) s'. has_hash X (st_hash s') r (ADir es) \<and> cells_known s' (om_iter M ?w) \<and> fresh_id s' r \<and> fresh_id s' h \<and> h \<noteq> r
      \<and> (\<exists>d. st_hash s' h = Some d \<and> length d = 32)) exhausted"
  proof (rule run_bind [OF run_root_hash_id [OF assms(1-4)]])
    fix r s1 assume s1: "ext M X s s1" "wf_ctx M s1"
      and r: "has_hash X (st_hash s1) r (ADir es) \<and> hash_ext s s1 \<and> cells_known s1 (om_iter M ?w) \<and> fresh_id s1 r"
    have par: "st_hash s1 p \<noteq> None" if "parent_commit_hash (?c r) = Some p" for p
      using parent [of p] that s1(1) map_le_Some [of "st_hash s" "st_hash s1" p] by (auto simp: ext_def)
    obtain rd where "st_hash s1 r = Some rd" using r by (auto simp: has_hash_def)
    then have "run M X s1 (hash_commit X (?c r)) (\<lambda>h s'. (\<exists>d. st_hash s' h = Some d \<and> length d = 32) \<and> hash_ext s1 s' \<and> cx_heap s' = cx_heap s1
        \<and> fresh_id s' h \<and> \<not> wf_id s1 h) exhausted"
      by (intro run_hash_commit [OF s1(2) _ par]) simp_all
    then show "run M X s1 (bind_call (call_err MHashingError (hash_commit X (?c r))) (\<lambda>h. ret (r, h)))
      (\<lambda>(r, h) s'. has_hash X (st_hash s') r (ADir es) \<and> cells_known s' (om_iter M ?w) \<and> fresh_id s' r \<and> fresh_id s' h \<and> h \<noteq> r
      \<and> (\<exists>d. st_hash s' h = Some d \<and> length d = 32)) exhausted"
    proof (rule run_bind [OF run_call_err [OF run_weaken]])
      fix h s2 assume s2: "ext M X s1 s2" "wf_ctx M s2" and h: "(\<exists>d. st_hash s2 h = Some d \<and> length d = 32) \<and> hash_ext s1 s2 \<and> cx_heap s2 = cx_heap s1
        \<and> fresh_id s2 h \<and> \<not> wf_id s1 h"
      have "fresh_id s2 r" using r h by (auto simp: fresh_id_def hash_ext_def wf_id_def)
      moreover have "h \<noteq> r" using r h by (auto simp: fresh_id_def)
      moreover have "has_hash X (st_hash s2) r (ADir es)" using r ext_hash [OF s2(1)] by blast
      moreover have "cells_known s2 (om_iter M ?w)" using r h by (simp add: cells_known_def)
      ultimately show "run M X s2 (ret (r, h)) (\<lambda>(r, h) s'. has_hash X (st_hash s') r (ADir es) \<and> cells_known s' (om_iter M ?w) \<and> fresh_id s' r
          \<and> fresh_id s' h \<and> h \<noteq> r \<and> (\<exists>d. st_hash s' h = Some d \<and> length d = 32)) exhausted"
        using h by (intro run_ret [OF s2(2)]) simp
    qed (auto simp: exhausted_def)
  qed
  then consider (ok) r h s1 where "?hash s = (Ok (r, h), s1)" "ext M X s s1" "wf_ctx M s1" "has_hash X (st_hash s1) r (ADir es)"
      "cells_known s1 (om_iter M ?w)" "fresh_id s1 r" "fresh_id s1 h" "h \<noteq> r" "\<exists>d. st_hash s1 h = Some d \<and> length d = 32"
    | (err) e s1 where "?hash s = (Err e, s1)" "exhausted e s1"
    by (auto simp: run_def split: prod.splits res.splits)
  then show ?thesis
  proof cases
    case ok
    obtain d where d: "st_hash s1 h = Some d" "length d = 32" using ok(9) by blast
    have "0 \<notin> set_option (parent_commit_hash (?c r))"
      using parent by (auto simp: st_hash_nth)
    then obtain data s2 where r: "get_entries_recursively (Suc (Suc fuel)) fuel M X (ECommit (?c r)) h (Some ?w)
        \<lparr>sd_batch = [], sd_older = [], sd_commit_to_storage = True\<rparr> s1 = (Ok data, s2)" "prepared s1 es h (sd_batch data) s2"
      using collect_commit [OF ok(3) ext_tree [OF ok(2) assms(2)], of "?c r" h fuel d] ok(4-8) assms(3) d
      by (auto simp: cells_known_def simp del: adepth.simps get_entries_recursively.simps)
    have "prepared s es h (sd_batch data) s2"
      using r(2) ok(2) by (auto simp: prepared_def Let_def ext_def intro: map_le_trans)
    moreover have "prepare_commit fuel M X w time author message parent True s = (Ok (h, sd_batch data, sd_older data), s2)"
      using ok(1) r(1) unfolding prepare_commit_def Let_def
      by (auto simp: bind_call_eq_Ok bind_call_Ok simp del: get_entries_recursively.simps)
    ultimately show ?thesis by blast
  next
    case err
    then have "prepare_commit fuel M X w time author message parent True s = (Err e, s1)"
      unfolding prepare_commit_def Let_def by (auto simp: bind_call_eq_Err simp del: get_entries_recursively.simps)
    with err(2) show ?thesis by blast
  qed
qed

end

section \<open>Writing the batch\<close>

definition values_map :: "bytes option list \<Rightarrow> hash_id \<rightharpoonup> bytes" where
  "values_map vs h = (if h \<noteq> 0 \<and> unat h \<le> length vs then vs ! (unat h - 1) else None)"

lemma st_value_map: "st_value s = values_map (hv_values (hv s))"
proof
  fix h
  show "st_value s h = values_map (hv_values (hv s)) h"
    using unat_gt_0 [of h]
    by (auto simp: values_map_def st_value_def im_get_value_def hv_get_value_def entries_get_def into_usize_def checked_sub_def Suc_le_eq
        split: option.splits res.splits)
qed

lemma unat_pred_inj:
  fixes h h' :: hash_id
  assumes "h \<noteq> 0" and "h' \<noteq> 0"
  shows "unat h - 1 = unat h' - 1 \<longleftrightarrow> h = h'"
proof -
  have "0 < unat h" "0 < unat h'" using assms by (simp_all add: unat_gt_0)
  then show ?thesis unfolding word_unat_eq_iff by linarith
qed

lemma insert_value_ok:
  assumes "id_ok k h" and "length (hv_values r) \<le> k"
  shows "\<exists>vs. insert_value_at h v r = (Ok (), r\<lparr>hv_values := vs\<rparr>) \<and> length vs \<le> k
    \<and> values_map vs = (values_map (hv_values r))(h \<mapsto> v)"
proof -
  let ?i = "unat h - 1" and ?vs = "hv_values r"
  let ?pad = "if length ?vs \<le> ?i then ?vs @ replicate (?i + 1 - length ?vs) None else ?vs"
  have h: "h \<noteq> 0" "0 < unat h" "unat h \<le> k" using assms(1) by (auto simp: id_ok_def unat_gt_0)
  then have res: "insert_value_at h v r = (Ok (), r\<lparr>hv_values := ?pad[?i := Some v]\<rparr>)"
    by (simp add: insert_value_at_def entries_insert_at_def into_usize_def checked_sub_def Let_def Suc_le_eq)
  have len: "length ?pad = max (length ?vs) (unat h)" using h(2) by auto
  have "values_map (?pad[?i := Some v]) x = ((values_map ?vs)(h \<mapsto> v)) x" for x
  proof (cases "x = 0")
    case True
    with h(1) show ?thesis by (simp add: values_map_def)
  next
    case False
    then have x: "0 < unat x" by (simp add: unat_gt_0)
    show ?thesis
    proof (cases "x = h")
      case True
      have "?i < length ?pad" unfolding len using h(2) by simp
      moreover have "unat x \<le> length ?pad" unfolding len True by simp
      ultimately show ?thesis using True False unfolding values_map_def by (simp only: length_list_update nth_list_update_eq) simp
    next
      case neq: False
      then have ix: "?i \<noteq> unat x - 1" using unat_pred_inj [OF False h(1)] by auto
      have "(if unat x \<le> length ?pad then ?pad ! (unat x - 1) else None) = (if unat x \<le> length ?vs then ?vs ! (unat x - 1) else None)"
        using x h(2) by (auto simp: nth_append)
      then show ?thesis using neq False unfolding values_map_def length_list_update nth_list_update_neq [OF ix] by simp
    qed
  qed
  moreover have "length (?pad[?i := Some v]) \<le> k" unfolding length_list_update len using h(3) assms(2) by simp
  ultimately show ?thesis using res by blast
qed

lemma write_batch_ok:
  assumes "\<forall>x \<in> set batch. id_ok k (fst x)" and "length (hv_values (im_hashes r)) \<le> k"
  shows "\<exists>vs cycle. write_batch batch r = (Ok (), r\<lparr>im_hashes := (im_hashes r)\<lparr>hv_values := vs\<rparr>, current_cycle := cycle\<rparr>)
    \<and> length vs \<le> k \<and> values_map vs = add_all batch (values_map (hv_values (im_hashes r)))"
  using assms unfolding write_batch_def
proof (induction batch arbitrary: r)
  case Nil
  then show ?case by (intro exI [of _ "hv_values (im_hashes r)"] exI [of _ "current_cycle r"]) (simp add: add_all_def)
next
  case (Cons x batch)
  obtain h v where x: "x = (h, v)" by (cases x)
  obtain vs where vs: "insert_value_at h v (im_hashes r) = (Ok (), (im_hashes r)\<lparr>hv_values := vs\<rparr>)" "length vs \<le> k"
    "values_map vs = (values_map (hv_values (im_hashes r)))(h \<mapsto> v)"
    using insert_value_ok [of k h "im_hashes r" v] Cons.prems x by auto
  let ?r = "r\<lparr>im_hashes := (im_hashes r)\<lparr>hv_values := vs\<rparr>, current_cycle := alist_insert h (Some v) (current_cycle r)\<rparr>"
  have "\<forall>x \<in> set batch. id_ok k (fst x)" "length (hv_values (im_hashes ?r)) \<le> k" using Cons.prems vs(2) by simp_all
  from Cons.IH [OF this] obtain vs' cycle where IH: "write_batch batch ?r
      = (Ok (), r\<lparr>im_hashes := (im_hashes r)\<lparr>hv_values := vs'\<rparr>, current_cycle := cycle\<rparr>)"
    "length vs' \<le> k" "values_map vs' = add_all batch (values_map vs)" by (auto simp: write_batch_def)
  have "values_map vs' = add_all (x # batch) (values_map (hv_values (im_hashes r)))"
    using IH(3) vs(3) x by (simp add: add_all_def)
  moreover have "write_batch (x # batch) r = (Ok (), r\<lparr>im_hashes := (im_hashes r)\<lparr>hv_values := vs'\<rparr>, current_cycle := cycle\<rparr>)"
    using IH(1) vs(1) x by (simp add: write_batch_def bind_call_def call_err_def)
  ultimately show ?case using IH(2) unfolding write_batch_def by blast
qed

end
