(* ===== verification/Context_Checkout.thy ===== *)
theory Context_Checkout
  imports Context_Commit
begin

text \<open>
  A commit can be checked out: \<^verbatim>\<open>commit_context\<close> writes what is needed to read the directory again, and \<^verbatim>\<open>checkout\<close> of the hash it
  returns gives a context of the same content, next to the contexts in use.
\<close>

context context_store
begin

definition committed :: "'t ctx \<Rightarrow> hash_id \<Rightarrow> bytes \<Rightarrow> adir \<Rightarrow> bool" where
  "committed s h d es \<longleftrightarrow>
     (\<exists>bs c. st_value s h = Some bs \<and> bincode_deserialize X bs = Ok (DCommit c) \<and> st_stored X s (root_hash c) (ADir es))
     \<and> st_hash s h = Some d \<and> length d = 32"

lemma repo_same:
  assumes "im_hashes r = hv s"
  shows "st_value (s\<lparr>cx_repo := r\<rparr>) = st_value s" "st_hash (s\<lparr>cx_repo := r\<rparr>) = st_hash s"
    "wf_ctx M (s\<lparr>cx_repo := r\<rparr>) = wf_ctx M s" "committed (s\<lparr>cx_repo := r\<rparr>) h d es = committed s h d es"
proof -
  show v: "st_value (s\<lparr>cx_repo := r\<rparr>) = st_value s" by (simp add: st_value_map assms)
  show h: "st_hash (s\<lparr>cx_repo := r\<rparr>) = st_hash s" by (simp add: fun_eq_iff st_hash_nth assms)
  show "wf_ctx M (s\<lparr>cx_repo := r\<rparr>) = wf_ctx M s" by (simp add: wf_snap wf_store_def v assms)
  show "committed (s\<lparr>cx_repo := r\<rparr>) h d es = committed s h d es" by (simp add: committed_def v h)
qed

lemma prepared_write:
  assumes "prepared s es h batch s'"
  obtains s2 d where "with_repo (write_batch batch) s' = (Ok () :: (db_error, unit) res, s2)" "ext M X s s2" "wf_ctx M s2" "committed s2 h d es"
proof -
  let ?k = "length (hv_hashes (hv s'))"
  have p: "\<forall>x \<in> set batch. id_ok ?k (fst x)" "length (hv_values (hv s')) \<le> ?k" "no_free_ids (hv s')"
    using assms by (simp_all add: prepared_def Let_def wf_store_def)
  obtain vs cycle where w: "write_batch batch (cx_repo s') = (Ok (), (cx_repo s')\<lparr>im_hashes := (hv s')\<lparr>hv_values := vs\<rparr>, current_cycle := cycle\<rparr>)"
    "length vs \<le> ?k" "values_map vs = add_all batch (values_map (hv_values (hv s')))"
    using write_batch_ok [OF p(1,2)] by blast
  let ?s = "s'\<lparr>cx_repo := (cx_repo s')\<lparr>im_hashes := (hv s')\<lparr>hv_values := vs\<rparr>, current_cycle := cycle\<rparr>\<rparr>"
  have v: "st_value ?s = add_all batch (st_value s')" by (simp add: st_value_map w(3))
  have h: "st_hash ?s = st_hash s'" by (simp add: fun_eq_iff st_hash_nth)
  have wf: "wf_ctx M ?s" using assms w(2) p(3) unfolding wf_snap v by (simp add: prepared_def Let_def wf_store_def no_free_ids_def)
  have "ext M X s ?s" using assms by (simp add: prepared_def Let_def ext_def v h)
  moreover obtain d where "committed ?s h d es" using assms by (auto simp: prepared_def Let_def committed_def v h)
  moreover have "with_repo (write_batch batch) s' = (Ok () :: (db_error, unit) res, ?s)" by (simp add: with_repo_def w(1))
  ultimately show ?thesis using wf that by blast
qed

lemma commit_context_ok:
  assumes ok: "context_ok M X n (c, s) es" and "adepth (ADir es) \<le> fuel" and "ahash X (ADir es) \<noteq> None" and "0 \<le> date"
    and "\<And>p. tc_parent_commit_hash c = Some p \<Longrightarrow> st_hash (ss_ctx s) p \<noteq> None"
  shows "(\<exists>h d x. commit_context fuel M X c author message date s = (Ok d, s\<lparr>ss_ctx := x\<rparr>) \<and> ext M X (ss_ctx s) x \<and> wf_ctx M x
        \<and> get_context_hash X (cx_repo x) d = Some h \<and> committed x h d es)
    \<or> (\<exists>e s'. commit_context fuel M X c author message date s = (Err e, s') \<and> 2 ^ 64 \<le> length (hv_hashes (hv (ss_ctx s'))))"
proof -
  let ?prep = "prepare_commit fuel M X (tc_tree c) (word_of_int date) author message (tc_parent_commit_hash c) True"
  have wf: "wf_ctx M (ss_ctx s)" "st_tree M X (ss_ctx s) (root_ref M (tc_tree c)) es"
    using ok by (cases "tc_tree c"; simp add: context_ok_def root_ref_def)+
  consider h batch older s1 where "?prep (ss_ctx s) = (Ok (h, batch, older), s1)" "prepared (ss_ctx s) es h batch s1"
    | e s1 where "?prep (ss_ctx s) = (Err e, s1)" "exhausted e s1"
    using prepare_commit_ok [OF wf assms(2,3), of "tc_parent_commit_hash c" "word_of_int date" author message] assms(5) by blast
  then show ?thesis
  proof cases
    case (1 h batch older s1)
    obtain s2 d where s2: "with_repo (write_batch batch) s1 = (Ok () :: (db_error, unit) res, s2)" "ext M X (ss_ctx s) s2" "wf_ctx M s2" "committed s2 h d es"
      using prepared_write [OF 1(2)] .
    have d: "im_get_hash (cx_repo s2) h = Ok (Some d)" "length d = 32" using s2(4) st_hash_get by (auto simp: committed_def)
    let ?r = "im_block_applied older (snd (put_context_hash X h (cx_repo s2)))"
    let ?x = "s2\<lparr>cx_repo := ?r\<rparr>"
    have hv: "im_hashes ?r = hv s2" using d(1) by (simp add: im_block_applied_def put_context_hash_def Let_def split: option.splits)
    note same = repo_same [OF hv]
    have "get_context_hash X ?r d = Some h"
      using d(1) by (simp add: get_context_hash_def im_block_applied_def put_context_hash_def Let_def split: option.splits)
    moreover have "ext M X (ss_ctx s) ?x" using s2(2) by (simp add: ext_def same)
    moreover have "commit_context fuel M X c author message date s = (Ok d, s\<lparr>ss_ctx := ?x\<rparr>)"
      using assms(4) 1(1) s2(1) d hv
      by (simp add: commit_context_def u64_of_date_def in_shell_def bind_call_def call_err_def with_repo_def put_context_hash_def
          get_commit_hash_def im_get_hash_def try_from_bytes_def Let_def split: prod.splits)
    moreover have "wf_ctx M ?x" "committed ?x h d es" using s2(3,4) same(3,4) by simp_all
    ultimately show ?thesis by (intro disjI1 exI [of _ h] exI [of _ d] exI [of _ ?x]) simp
  next
    case (2 e s1)
    then have "commit_context fuel M X c author message date s = (Err (MerkleStorageError e), s\<lparr>ss_ctx := s1\<rparr>)"
      using assms(4) by (simp add: commit_context_def u64_of_date_def in_shell_def bind_call_def call_err_def)
    with 2(2) show ?thesis by (auto simp: exhausted_def)
  qed
qed

lemma checkout_ok:
  assumes "wf_ctx M (ss_ctx s)" and "get_context_hash X (cx_repo (ss_ctx s)) d = Some h" and "committed (ss_ctx s) h d es" and "m < TREE_ID_MAX"
  obtains c' x where "checkout M X d s = (Ok (Some c'), \<lparr>ss_ctx = x, ss_generators = ss_generators s @ [1]\<rparr>)"
    "context_ok M X m (c', \<lparr>ss_ctx = x, ss_generators = ss_generators s @ [1]\<rparr>) es" "ext M X (ss_ctx s) x"
proof -
  obtain bs c where bs: "st_value (ss_ctx s) h = Some bs" "bincode_deserialize X bs = Ok (DCommit c)"
    "st_stored X (ss_ctx s) (root_hash c) (ADir es)" using assms(3) by (auto simp: committed_def)
  obtain e ns where e: "find_entry M X (root_hash c) (ss_ctx s) = (Ok (Some e), (ss_ctx s)\<lparr>cx_heap := cx_heap (ss_ctx s) @ ns\<rparr>)"
    "wf_ctx M ((ss_ctx s)\<lparr>cx_heap := cx_heap (ss_ctx s) @ ns\<rparr>)" "st_entry M X ((ss_ctx s)\<lparr>cx_heap := cx_heap (ss_ctx s) @ ns\<rparr>) e (ADir es)"
    using find_entry_stored [OF assms(1) bs(3)] by blast
  let ?x = "(ss_ctx s)\<lparr>cx_heap := cx_heap (ss_ctx s) @ ns\<rparr>"
  obtain tree where tree: "e = ETree tree" using e(3) by (cases e) auto
  let ?c = "\<lparr>tc_parent_commit_hash = Some h, tc_tree_id = 1, tc_tree_id_generator = length (ss_generators s), tc_tree = WTree tree\<rparr>"
  have commit: "find_commit M X h (ss_ctx s) = (Ok (Some c), ss_ctx s)"
    using bs(1,2) by (simp add: find_commit_def find_entry_def st_value_get bind_call_def of_disk_def)
  have root: "index_find_tree M X (root_hash c) (ss_ctx s) = (Ok (Some tree), ?x)"
    using e(1) tree by (simp add: index_find_tree_def bind_call_def)
  have "checkout M X d s = (Ok (Some ?c), \<lparr>ss_ctx = ?x, ss_generators = ss_generators s @ [1]\<rparr>)"
    using assms(2) commit root
    by (simp add: checkout_def context_hash_id_def bind_call_def in_db_def context_new_def tree_id_generator_new_def tree_id_next_def
        TREE_ID_MAX_def)
  moreover have "context_ok M X m (?c, \<lparr>ss_ctx = ?x, ss_generators = ss_generators s @ [1]\<rparr>) es"
    using e(2,3) tree assms(4) by (simp add: context_ok_def)
  ultimately show ?thesis using that ext_append by blast
qed

lemma commit_checkout_ok:
  assumes ok: "context_ok M X n (c, s) es" and "adepth (ADir es) \<le> fuel" and "ahash X (ADir es) \<noteq> None" and "0 \<le> date"
    and "\<forall>p. tc_parent_commit_hash c = Some p \<longrightarrow> st_hash (ss_ctx s) p \<noteq> None" and "m < TREE_ID_MAX"
  shows "(\<exists>d s' c' s''. commit_context fuel M X c author message date s = (Ok d, s') \<and> checkout M X d s' = (Ok (Some c'), s'')
        \<and> context_ok M X m (c', s'') es \<and> context_ok M X n (c, s'') es)
    \<or> (\<exists>e s'. commit_context fuel M X c author message date s = (Err e, s') \<and> 2 ^ 64 \<le> length (hv_hashes (hv (ss_ctx s'))))"
proof -
  have par: "st_hash (ss_ctx s) p \<noteq> None" if "tc_parent_commit_hash c = Some p" for p using assms(5) that by blast
  consider (ok) h d x where "commit_context fuel M X c author message date s = (Ok d, s\<lparr>ss_ctx := x\<rparr>)" "ext M X (ss_ctx s) x" "wf_ctx M x"
      "get_context_hash X (cx_repo x) d = Some h" "committed x h d es"
    | (err) e s' where "commit_context fuel M X c author message date s = (Err e, s')" "2 ^ 64 \<le> length (hv_hashes (hv (ss_ctx s')))"
    using commit_context_ok [OF assms(1-4) par, of author message] by blast
  then show ?thesis
  proof cases
    case ok
    let ?s = "s\<lparr>ss_ctx := x\<rparr>"
    obtain c' y where co: "checkout M X d ?s = (Ok (Some c'), \<lparr>ss_ctx = y, ss_generators = ss_generators s @ [1]\<rparr>)"
      "context_ok M X m (c', \<lparr>ss_ctx = y, ss_generators = ss_generators s @ [1]\<rparr>) es" "ext M X x y"
      using checkout_ok [of ?s d h es m] ok(3-5) assms(6) by auto
    have "wf_ctx M y" using co(2) by (simp add: context_ok_def)
    moreover have "wt_rep M X y (tc_tree c) (ADir es)"
      using wt_rep_ext [OF ext_trans [OF ok(2) co(3)]] assms(1) by (simp add: context_ok_def)
    ultimately have "context_ok M X n (c, \<lparr>ss_ctx = y, ss_generators = ss_generators s @ [1]\<rparr>) es"
      using assms(1) by (simp add: context_ok_def nth_append)
    with ok(1) co(1,2) show ?thesis by blast
  next
    case err
    then show ?thesis by blast
  qed
qed

end

text \<open>
  C7. What is committed can be checked out: \<^verbatim>\<open>commit_context\<close> returns a hash from which \<^verbatim>\<open>checkout\<close> makes a context that stands for the
  directory that was committed, and the context it was called on still stands for it. The nodes below may be
  in memory, shared, hashed or committed before. The only other outcome is an error, with all ids in use.
\<close>

theorem commit_checkout:
  assumes "ordmap_laws M" and "context_crates_laws X" and "context_ok M X n (c, s) es"
    and "adepth (ADir es) \<le> fuel" and "ahash X (ADir es) \<noteq> None" and "0 \<le> date"
    and "\<forall>p. tc_parent_commit_hash c = Some p \<longrightarrow> st_hash (ss_ctx s) p \<noteq> None" and "m < TREE_ID_MAX"
  shows "(\<exists>d s' c' s''. commit_context fuel M X c author message date s = (Ok d, s') \<and> checkout M X d s' = (Ok (Some c'), s'')
        \<and> context_ok M X m (c', s'') es \<and> context_ok M X n (c, s'') es)
    \<or> (\<exists>e s'. commit_context fuel M X c author message date s = (Err e, s') \<and> 2 ^ 64 \<le> length (hv_hashes (hv (ss_ctx s'))))"
  by (rule context_store.commit_checkout_ok [OF context_store.intro [OF assms(1,2)] assms(3-8)])

theorem commit_checkout_witness:
  "(\<exists>d s' c' s''. commit_context 2 ordmap_ref crates_ref one_value_context ''Tezos'' ''genesis'' 0 one_value_session = (Ok d, s')
      \<and> checkout ordmap_ref crates_ref d s' = (Ok (Some c'), s'')
      \<and> context_ok ordmap_ref crates_ref 5 (c', s'') [(''a'', ABlob [7])]
      \<and> context_ok ordmap_ref crates_ref 5 (one_value_context, s'') [(''a'', ABlob [7])])
   \<or> (\<exists>e s'. commit_context 2 ordmap_ref crates_ref one_value_context ''Tezos'' ''genesis'' 0 one_value_session = (Err e, s')
      \<and> 2 ^ 64 \<le> length (hv_hashes (hv (ss_ctx s'))))"
  by (rule commit_checkout [OF ordmap_ref.ordmap_laws_axioms ctx_ref.context_crates_laws_axioms one_value_ok])
    (simp_all add: ahash.simps dir_hash_def crates_ref_def ENTRY_HASH_LEN_def TREE_ID_MAX_def one_value_context_def fresh_context_def)

end
