(* ===== verification/Context_Values.thy ===== *)
theory Context_Values
  imports Context_Checkout
begin

text \<open>
  Values by path: what a lookup finds after an update, and two updates that lose values.
\<close>

section \<open>Additions\<close>

lemma find_out: "run_ops tree_step es [CtxFind key] = [Ok (OutValue (Some b))] \<longleftrightarrow> key \<noteq> [] \<and> avalue es key = Some b"
proof (cases "key = []")
  case True
  then show ?thesis by (simp add: afind_def)
next
  case False
  with afind_value [OF False, of es b] show ?thesis by (cases "afind es key") auto
qed

text \<open>
  After a value is added at a path, it is found there, whatever was on the way, and a value at any other path that is
  neither above nor below is the one that was there before.
\<close>

theorem add_then_find:
  assumes "ordmap_laws M" and "context_crates_laws X" and "context_ok M X 2 (c, s) es" and "key \<noteq> []"
  shows "run_ops (context_step M X) (c, s) [CtxAdd key v, CtxFind key] = [Ok OutUpdated, Ok (OutValue (Some v))]
    \<and> (\<forall>key' b. \<not> prefix key key' \<longrightarrow> \<not> prefix key' key \<longrightarrow>
        (run_ops (context_step M X) (c, s) [CtxAdd key v, CtxFind key'] = [Ok OutUpdated, Ok (OutValue (Some b))] \<longleftrightarrow>
         run_ops (context_step M X) (c, s) [CtxFind key'] = [Ok (OutValue (Some b))]))"
proof -
  have one: "context_ok M X 1 (c, s) es" using assms(3) by (simp add: context_ok_def)
  note refine = context_store.steps_refine [OF context_store.intro [OF assms(1,2)]]
  have add: "run_ops (context_step M X) (c, s) [CtxAdd key v, CtxFind k] = Ok OutUpdated # run_ops tree_step (aput key (Some (ABlob v)) es) [CtxFind k]" for k
    using refine [of "[CtxAdd key v, CtxFind k]" "(c, s)" es] assms(3,4) by (simp add: numeral_2_eq_2)
  have lookup: "run_ops (context_step M X) (c, s) [CtxFind k] = run_ops tree_step es [CtxFind k]" for k
    using refine [of "[CtxFind k]" "(c, s)" es] one by simp
  show ?thesis
    unfolding add lookup list.inject find_out using assms(4) by (auto simp: avalue_aput tvalue_def)
qed

theorem add_then_find_witness:
  "run_ops (context_step ordmap_ref crates_ref) (one_value_context, one_value_session) [CtxAdd [''b'', ''c''] [9], CtxFind [''b'', ''c'']]
     = [Ok OutUpdated, Ok (OutValue (Some [9]))]
   \<and> (run_ops (context_step ordmap_ref crates_ref) (one_value_context, one_value_session) [CtxAdd [''b'', ''c''] [9], CtxFind [''a'']]
       = [Ok OutUpdated, Ok (OutValue (Some [7]))] \<longleftrightarrow>
      run_ops (context_step ordmap_ref crates_ref) (one_value_context, one_value_session) [CtxFind [''a'']] = [Ok (OutValue (Some [7]))])"
proof -
  have "context_ok ordmap_ref crates_ref 2 (one_value_context, one_value_session) [(''a'', ABlob [7])]"
    using one_value_ok by (simp add: context_ok_def)
  from add_then_find [OF ordmap_ref.ordmap_laws_axioms ctx_ref.context_crates_laws_axioms this, of "[''b'', ''c'']" "[9]"]
  show ?thesis by simp
qed

section \<open>Deletions below a value\<close>

text \<open>
  C33. Deleting a path below a value deletes the value: \<^verbatim>\<open>delete\<close> of \<^verbatim>\<open>k/k'\<close>, where \<^verbatim>\<open>k\<close> is a value, succeeds and
  leaves nothing at \<^verbatim>\<open>k\<close>. The lookup of the directory \<^verbatim>\<open>k\<close> gives an empty one for the value, which is still
  empty when \<^verbatim>\<open>k'\<close> is removed from it, so that \<^verbatim>\<open>k\<close> itself is removed.
\<close>

theorem delete_below_value:
  assumes "ordmap_laws M" and "context_crates_laws X" and "context_ok M X 3 (c, s) es" and "map_of es k = Some (ABlob v)"
  shows "run_ops (context_step M X) (c, s) [CtxFind [k], CtxDelete [k, k'], CtxFind [k]]
    = [Ok (OutValue (Some v)), Ok OutUpdated, Ok (OutValue None)]"
  using context_store.steps_refine [OF context_store.intro [OF assms(1,2)], of "[CtxFind [k], CtxDelete [k, k'], CtxFind [k]]" "(c, s)" es] assms(3,4)
  by (simp add: afind_def numeral_3_eq_3)

theorem delete_below_value_witness:
  "run_ops (context_step ordmap_ref crates_ref) (one_value_context, one_value_session)
     [CtxFind [''a''], CtxDelete [''a'', ''b''], CtxFind [''a'']]
   = [Ok (OutValue (Some [7])), Ok OutUpdated, Ok (OutValue None)]"
proof -
  have "context_ok ordmap_ref crates_ref 3 (one_value_context, one_value_session) [(''a'', ABlob [7])]"
    using one_value_ok by (simp add: context_ok_def)
  from delete_below_value [OF ordmap_ref.ordmap_laws_axioms ctx_ref.context_crates_laws_axioms this, of "''a''" "[7]" "''b''"]
  show ?thesis by simp
qed

end
