(* ===== verification/Context_Lost.thy ===== *)
theory Context_Lost
  imports Context_Checkout
begin

text \<open>
  Hashing a context before committing it: \<^verbatim>\<open>hash_context\<close> marks the nodes it visits as committed without writing them, so that
  a commit that follows leaves them out.
\<close>

definition plain_ctx :: "string set \<Rightarrow> 't node list \<Rightarrow> bytes list \<Rightarrow> bytes option list \<Rightarrow> cycle_map \<Rightarrow> hash_id list \<Rightarrow> (u64 \<rightharpoonup> hash_id) \<Rightarrow> u64 list list \<Rightarrow> 't ctx" where
  "plain_ctx st hp ds vs cyc ids ch cc =
     \<lparr>cx_heap = hp,
      cx_repo = \<lparr>current_cycle = cyc, im_hashes = \<lparr>hv_hashes = ds, hv_values = vs, hv_free_ids = None, hv_new_ids = ids\<rparr>,
                 im_sender = None, context_hashes = ch, context_hashes_cycles = cc\<rparr>,
      cx_strings = st\<rparr>"

lemma plain_ctx_simps [simp]:
  "cx_heap (plain_ctx st hp ds vs cyc ids ch cc) = hp"
  "(plain_ctx st hp ds vs cyc ids ch cc)\<lparr>cx_heap := hp'\<rparr> = plain_ctx st hp' ds vs cyc ids ch cc"
  "cx_repo (plain_ctx st hp ds vs cyc ids ch cc) = \<lparr>current_cycle = cyc,
     im_hashes = \<lparr>hv_hashes = ds, hv_values = vs, hv_free_ids = None, hv_new_ids = ids\<rparr>,
     im_sender = None, context_hashes = ch, context_hashes_cycles = cc\<rparr>"
  by (simp_all add: plain_ctx_def)

lemma plain_ctx_repo: "(plain_ctx st hp ds vs cyc ids ch cc)\<lparr>cx_repo := \<lparr>current_cycle = cyc',
     im_hashes = \<lparr>hv_hashes = ds', hv_values = vs', hv_free_ids = None, hv_new_ids = ids'\<rparr>,
     im_sender = None, context_hashes = ch', context_hashes_cycles = cc'\<rparr>\<rparr> = plain_ctx st hp ds' vs' cyc' ids' ch' cc'"
  by (simp add: plain_ctx_def)

lemma im_get_hash_nth:
  "im_get_hash r h = (if h = 0 then Err DBHashIdFailed
     else Ok (if unat h \<le> length (hv_hashes (im_hashes r)) then Some (hv_hashes (im_hashes r) ! (unat h - 1)) else None))"
  using unat_gt_0 [of h]
  by (auto simp: im_get_hash_def get_hash_def entries_get_def into_usize_def checked_sub_def db_of_hash_id_def Suc_le_eq
      split: option.splits)

definition value_node :: "bool \<Rightarrow> hash_id option \<Rightarrow> bytes \<Rightarrow> 't node" where
  "value_node cm cell v = \<lparr>node_kind = Leaf, commited = cm, entry_hash_cell = cell, entry_cell = Some (EBlob v)\<rparr>"

lemma value_node_simps [simp]:
  "node_kind (value_node cm cell v) = Leaf" "commited (value_node cm cell v) = cm"
  "entry_hash_cell (value_node cm cell v) = cell" "entry_cell (value_node cm cell v) = Some (EBlob v)"
  "(value_node cm cell v)\<lparr>entry_hash_cell := c\<rparr> = value_node cm c v" "(value_node cm cell v)\<lparr>commited := b\<rparr> = value_node b cell v"
  by (simp_all add: value_node_def)

context context_store
begin

definition digest_of :: "bytes \<Rightarrow> bytes" where
  "digest_of bs = the (blake X bs)"

lemma digest_of: "blake X bs = Some (digest_of bs)" "length (digest_of bs) = 32"
  using blake2b_size [of bs] by (auto simp: digest_of_def ENTRY_HASH_LEN_def)

lemma write_digest_plain:
  assumes "length ds < 100"
  shows "write_digest X bs (plain_ctx st hp ds vs cyc ids ch cc) =
    (Ok (word_of_nat (length ds + 1)), plain_ctx st hp (ds @ [digest_of bs]) vs cyc (ids @ [word_of_nat (length ds + 1)]) ch cc)"
proof -
  have h: "unat (word_of_nat (length ds + 1) :: hash_id) = length ds + 1"
    using assms by (simp only: unat_of_nat take_bit_nat_eq_self_iff) simp
  show ?thesis
    using assms h
    by (simp add: write_digest_def digest_of(1) hash_id_of_db_def call_err_def with_repo_def im_get_vacant_entry_hash_def
        get_vacant_entry_hash_def bind_call_def get_free_id_def get_vacant_entry_def hash_id_from_usize_def checked_add_def
        usize_max_def plain_ctx_def write_with_def del: of_nat_Suc of_nat_add)
qed

lemma repo_hash_plain:
  "h \<noteq> 0 \<Longrightarrow> unat h \<le> length ds \<Longrightarrow>
     repo_hash h e (plain_ctx st hp ds vs cyc ids ch cc) = (Ok (ds ! (unat h - 1)), plain_ctx st hp ds vs cyc ids ch cc)"
  by (simp add: repo_hash_def im_get_hash_nth plain_ctx_def)

lemma read_plain: "a < length hp \<Longrightarrow> read_node a (plain_ctx st hp ds vs cyc ids ch cc) = (Ok (hp ! a), plain_ctx st hp ds vs cyc ids ch cc)"
  by (simp add: read_node_def)

lemma update_plain: "a < length hp \<Longrightarrow> update_node a f (plain_ctx st hp ds vs cyc ids ch cc) = (Ok (), plain_ctx st (hp[a := f (hp ! a)]) ds vs cyc ids ch cc)"
  by (simp add: update_node_def)

lemmas plain = write_digest_plain repo_hash_plain read_plain update_plain bind_call_def call_err_def

lemma root_first:
  assumes "om_iter M tree = [(k, 0)]"
  shows "\<exists>d d'. root_hash_id (Suc fuel) M X (WTree tree) (plain_ctx st [value_node False None v] [] vs cyc [] ch cc)
    = (Ok 2, plain_ctx st [value_node False (Some 1) v] [d, d'] vs cyc [1, 2] ch cc)"
proof -
  have len: "om_len M tree = 1" using assms by (simp add: len_iter)
  show ?thesis
    by (simp add: root_hash_id_def root_ref_def hash_tree_def hash_short_inode_def assms len plain node_entry_hash_def hash_entry_def hash_blob_def) blast
qed

lemma root_again:
  assumes "om_iter M tree = [(k, 0)]"
  shows "\<exists>d. root_hash_id (Suc fuel) M X (WTree tree) (plain_ctx st [value_node True (Some 1) v] [d1, d2, d3] vs cyc ids ch cc)
    = (Ok 4, plain_ctx st [value_node True (Some 1) v] [d1, d2, d3, d] vs cyc (ids @ [4]) ch cc)"
proof -
  have len: "om_len M tree = 1" using assms by (simp add: len_iter)
  show ?thesis
    by (simp add: root_hash_id_def root_ref_def hash_tree_def hash_short_inode_def assms len plain node_entry_hash_def) blast
qed

lemma hash_first:
  assumes "om_iter M tree = [(k, 0)]" and "tc_tree c = WTree tree" and "tc_parent_commit_hash c = None" and "0 \<le> date"
    and "ss_ctx s = plain_ctx st [value_node False None v] [] vs cyc [] ch cc"
  shows "\<exists>d1 d2 d3. hash_context (Suc fuel) M X c author message date s
    = (Ok d3, s\<lparr>ss_ctx := plain_ctx st [value_node True (Some 1) v] [d1, d2, d3] vs cyc [1, 2, 3] ch cc\<rparr>)"
proof -
  obtain d1 d2 where root: "root_hash_id (Suc fuel) M X (WTree tree) (plain_ctx st [value_node False None v] [] vs cyc [] ch cc)
    = (Ok 2, plain_ctx st [value_node False (Some 1) v] [d1, d2] vs cyc [1, 2] ch cc)" using root_first [OF assms(1)] by blast
  show ?thesis
    using assms(1-5)
    by (simp add: hash_context_def u64_of_date_def in_shell_def prepare_commit_def root plain hash_commit_def root_ref_def
        add_serialized_entry_def Let_def get_commit_hash_def im_get_hash_nth digest_of(2)) blast
qed

lemma commit_after:
  assumes "om_iter M tree = [(k, 0)]" and "tc_tree c = WTree tree" and "tc_parent_commit_hash c = None" and "0 \<le> date"
    and "ss_ctx s = plain_ctx st [value_node True (Some 1) v] [d1, d2, d3] [] cyc ids ch cc"
  shows "\<exists>d4 d5 root commit cyc' ch' cc'. commit_context (Suc fuel) M X c author message date s
    = (Ok d5, s\<lparr>ss_ctx := plain_ctx st [value_node True (Some 1) v] [d1, d2, d3, d4, d5] [None, None, None, Some root, Some commit]
        cyc' (ids @ [4, 5]) ch' cc'\<rparr>)
    \<and> ch' (default_hasher X d5) = Some 5 \<and> bincode_deserialize X root = Ok (DTree [(k, Leaf, 1)])
    \<and> (\<exists>c. bincode_deserialize X commit = Ok (DCommit c) \<and> root_hash c = 4)"
proof -
  obtain d4 where root: "root_hash_id (Suc fuel) M X (WTree tree) (plain_ctx st [value_node True (Some 1) v] [d1, d2, d3] [] cyc ids ch cc)
    = (Ok 4, plain_ctx st [value_node True (Some 1) v] [d1, d2, d3, d4] [] cyc (ids @ [4]) ch cc)" using root_again [OF assms(1)] by blast
  let ?c = "\<lparr>parent_commit_hash = None, root_hash = 4, commit_time = word_of_int date, commit_author = author, commit_message = message\<rparr>"
  obtain rb where rb: "bincode_serialize X (DTree [(k, Leaf, 1)]) = Ok rb" "bincode_deserialize X rb = Ok (DTree [(k, Leaf, 1)])"
    using bincode_roundtrip [of "DTree [(k, Leaf, 1)]"] by auto
  obtain cb where cb: "bincode_serialize X (DCommit ?c) = Ok cb" "bincode_deserialize X cb = Ok (DCommit ?c)"
    using bincode_roundtrip [of "DCommit ?c"] by auto
  have ix: "into_usize 5 = Ok (Suc (Suc (Suc (Suc 0))))" "into_usize 4 = Ok (Suc (Suc (Suc 0)))"
    by (simp_all add: into_usize_def checked_sub_def)
  have ins: "insert_value_at 5 cb \<lparr>hv_hashes = ds, hv_values = [], hv_free_ids = None, hv_new_ids = js\<rparr>
      = (Ok (), \<lparr>hv_hashes = ds, hv_values = [None, None, None, None, Some cb], hv_free_ids = None, hv_new_ids = js\<rparr>)"
    "insert_value_at 4 rb \<lparr>hv_hashes = ds, hv_values = [None, None, None, None, Some cb], hv_free_ids = None, hv_new_ids = js\<rparr>
      = (Ok (), \<lparr>hv_hashes = ds, hv_values = [None, None, None, Some rb, Some cb], hv_free_ids = None, hv_new_ids = js\<rparr>)" for ds js
    by (simp_all add: insert_value_at_def entries_insert_at_def ix)
  let ?d5 = "digest_of (be_bytes 8 ENTRY_HASH_LEN @ d4 @ be_bytes 8 0 @ to_be64 (word_of_int date) @
    be_bytes 8 (length (str_bytes author)) @ str_bytes author @ be_bytes 8 (length (str_bytes message)) @ str_bytes message)"
  let ?ch = "ch(default_hasher X ?d5 \<mapsto> 5)" and ?cc = "if cc = [] then [] else butlast cc @ [last cc @ [default_hasher X ?d5]]"
  have "commit_context (Suc fuel) M X c author message date s
    = (Ok ?d5, s\<lparr>ss_ctx := plain_ctx st [value_node True (Some 1) v] [d1, d2, d3, d4, ?d5] [None, None, None, Some rb, Some cb]
        (alist_insert 4 (Some rb) (alist_insert 5 (Some cb) cyc)) (ids @ [4, 5]) ?ch ?cc\<rparr>)"
    using assms(1-5)
    by (simp add: commit_context_def u64_of_date_def in_shell_def prepare_commit_def root plain hash_commit_def root_ref_def
        add_serialized_entry_def to_disk_def rb(1) cb(1) Let_def get_commit_hash_def im_get_hash_nth digest_of(2)
        add_older_entry_def with_repo_def write_batch_def ins put_context_hash_def im_block_applied_def plain_ctx_repo)
  then show ?thesis
    using rb(2) cb(2)
    by (intro exI [of _ d4] exI [of _ ?d5] exI [of _ rb] exI [of _ cb] exI [of _ "alist_insert 4 (Some rb) (alist_insert 5 (Some cb) cyc)"]
        exI [of _ ?ch] exI [of _ ?cc] conjI exI [of _ ?c]) simp_all
qed

lemma value_at_plain:
  "h \<noteq> 0 \<Longrightarrow> unat h \<le> length vs \<Longrightarrow> im_get_value (cx_repo (plain_ctx st hp ds vs cyc ids ch cc)) h = Ok (vs ! (unat h - 1))"
  using unat_gt_0 [of h]
  by (auto simp: im_get_value_def hv_get_value_def entries_get_def into_usize_def checked_sub_def Suc_le_eq split: option.splits)

lemma checkout_after:
  assumes "ch (default_hasher X d5) = Some 5" and "bincode_deserialize X root = Ok (DTree [(k, Leaf, 1)])"
    and "bincode_deserialize X commit = Ok (DCommit c)" and "root_hash c = 4"
    and "ss_ctx s = plain_ctx st [n] ds [None, None, None, Some root, Some commit] cyc ids ch cc"
  shows "\<exists>c' s'. checkout M X d5 s = (Ok (Some c'), s') \<and> fst (context_find M X c' [k] s') = Err (MerkleStorageError (MEntryNotFound 1))"
proof -
  let ?vs = "[None, None, None, Some root, Some commit]"
  obtain tree where tree: "of_disk M (DTree [(k, Leaf, 1)]) (plain_ctx st [n] ds ?vs cyc ids ch cc)
      = (Ok (ETree tree) :: (db_error, 't entry) res, plain_ctx st [n, node_of_disk Leaf 1] ds ?vs cyc ids ch cc)"
    "om_iter M tree = [(k, 1)]"
    using of_disk_tree [of "[(k, Leaf, 1)]" "plain_ctx st [n] ds ?vs cyc ids ch cc"] by auto
  have five: "im_get_value (cx_repo (ss_ctx s)) 5 = Ok (Some commit)" "im_get_value (cx_repo (ss_ctx s)) 4 = Ok (Some root)"
    unfolding assms(5) by (subst value_at_plain; simp)+
  let ?c = "\<lparr>tc_parent_commit_hash = Some 5, tc_tree_id = 1, tc_tree_id_generator = length (ss_generators s), tc_tree = WTree tree\<rparr>"
  let ?s = "\<lparr>ss_ctx = plain_ctx st [n, node_of_disk Leaf 1] ds ?vs cyc ids ch cc, ss_generators = ss_generators s @ [1]\<rparr>"
  have "checkout M X d5 s = (Ok (Some ?c), ?s)"
    using assms(1-5) five tree(1)
    by (simp add: checkout_def context_hash_id_def get_context_hash_def bind_call_def in_db_def find_commit_def find_entry_def of_disk_def
        index_find_tree_def context_new_def tree_id_generator_new_def tree_id_next_def TREE_ID_MAX_def)
  moreover have "im_get_value (cx_repo (ss_ctx ?s)) 1 = Ok None"
    using value_at_plain [of 1 ?vs] by simp
  then have "fst (context_find M X ?c [k] ?s) = Err (MerkleStorageError (MEntryNotFound 1))"
    by (simp add: context_find_def in_ctx_def find_def root_ref_def get_from_tree_def bind_call_def try_call_def get_iter tree(2)
        node_entry_def read_node_def node_of_disk_def load_entry_def get_hash_id_def get_entry_def call_err_def find_entry_def)
  ultimately show ?thesis by blast
qed

lemma add_first:
  "\<exists>tree s. context_add M X (fresh_context M) [k] v fresh_session
      = (Ok \<lparr>tc_parent_commit_hash = None, tc_tree_id = 2, tc_tree_id_generator = 0, tc_tree = WTree tree\<rparr>, s)
    \<and> om_iter M tree = [(k, 0)]
    \<and> ss_ctx s = plain_ctx (if 30 \<le> length k then {} else {k}) [value_node False None v] [] [] [] [] Map.empty (replicate PRESERVE_CYCLE_COUNT [])"
  by (simp add: context_add_def fresh_context_def fresh_session_def empty_ctx_def in_memory_new_def hash_value_store_new_def add_def
      bind_call_def in_ctx_def root_ref_def get_str_def alloc_node_def is_empty_iter iter_insert iter_new get_leaf_def get_non_leaf_def
      entry_tree_def with_tree_def tree_id_next_def TREE_ID_MAX_def plain_ctx_def value_node_def ok_or_def)

end

text \<open>
  C34. A value that is hashed before it is committed is lost: after an addition to a fresh context, \<^verbatim>\<open>hash_context\<close> and then
  \<^verbatim>\<open>commit_context\<close> succeed and the commit can be checked out, but looking the value up fails with \<^verbatim>\<open>EntryNotFound\<close>. \<^verbatim>\<open>hash_context\<close>
  sets the committed flag of the nodes without writing them, and the commit skips nodes with the flag.
\<close>

theorem hash_before_commit:
  assumes "ordmap_laws M" and "context_crates_laws X" and "0 \<le> date"
  shows "\<exists>c s1 d s2 d' s3 c' s4. context_add M X (fresh_context M) [k] v fresh_session = (Ok c, s1)
    \<and> hash_context (Suc fuel) M X c author message date s1 = (Ok d, s2)
    \<and> commit_context (Suc fuel) M X c author message date s2 = (Ok d', s3)
    \<and> checkout M X d' s3 = (Ok (Some c'), s4)
    \<and> fst (context_find M X c' [k] s4) = Err (MerkleStorageError (MEntryNotFound 1))"
proof -
  note store = context_store.intro [OF assms(1,2)]
  define st where "st = (if 30 \<le> length k then {} else {k})"
  define cc0 :: "u64 list list" where "cc0 = replicate PRESERVE_CYCLE_COUNT []"
  obtain tree s1 where a: "context_add M X (fresh_context M) [k] v fresh_session
      = (Ok \<lparr>tc_parent_commit_hash = None, tc_tree_id = 2, tc_tree_id_generator = 0, tc_tree = WTree tree\<rparr>, s1)" "om_iter M tree = [(k, 0)]"
    "ss_ctx s1 = plain_ctx st [value_node False None v] [] [] [] [] Map.empty cc0"
    using context_store.add_first [OF store, of k v] unfolding st_def cc0_def by blast
  let ?c = "\<lparr>tc_parent_commit_hash = None, tc_tree_id = 2, tc_tree_id_generator = 0, tc_tree = WTree tree\<rparr>"
  have "\<exists>d1 d2 d3. hash_context (Suc fuel) M X ?c author message date s1
    = (Ok d3, s1\<lparr>ss_ctx := plain_ctx st [value_node True (Some 1) v] [d1, d2, d3] [] [] [1, 2, 3] Map.empty cc0\<rparr>)"
    by (rule context_store.hash_first [OF store a(2) _ _ assms(3) a(3)]) simp_all
  then obtain d1 d2 d3 s2 where h: "hash_context (Suc fuel) M X ?c author message date s1 = (Ok d3, s2)"
    "ss_ctx s2 = plain_ctx st [value_node True (Some 1) v] [d1, d2, d3] [] [] [1, 2, 3] Map.empty cc0" by auto
  have "\<exists>d4 d5 root commit cyc' ch' cc'. commit_context (Suc fuel) M X ?c author message date s2
    = (Ok d5, s2\<lparr>ss_ctx := plain_ctx st [value_node True (Some 1) v] [d1, d2, d3, d4, d5] [None, None, None, Some root, Some commit]
        cyc' ([1, 2, 3] @ [4, 5]) ch' cc'\<rparr>)
    \<and> ch' (default_hasher X d5) = Some 5 \<and> bincode_deserialize X root = Ok (DTree [(k, Leaf, 1)])
    \<and> (\<exists>c. bincode_deserialize X commit = Ok (DCommit c) \<and> root_hash c = 4)"
    by (rule context_store.commit_after [OF store a(2) _ _ assms(3) h(2)]) simp_all
  then obtain d4 d5 root cb cyc ch cc co s3 where c: "commit_context (Suc fuel) M X ?c author message date s2 = (Ok d5, s3)"
    "ch (default_hasher X d5) = Some 5" "bincode_deserialize X root = Ok (DTree [(k, Leaf, 1)])"
    "bincode_deserialize X cb = Ok (DCommit co)" "root_hash co = 4"
    "ss_ctx s3 = plain_ctx st [value_node True (Some 1) v] [d1, d2, d3, d4, d5] [None, None, None, Some root, Some cb]
        cyc ([1, 2, 3] @ [4, 5]) ch cc" by auto
  obtain c' s4 where "checkout M X d5 s3 = (Ok (Some c'), s4)"
    "fst (context_find M X c' [k] s4) = Err (MerkleStorageError (MEntryNotFound 1))"
    using context_store.checkout_after [OF store c(2-6)] by blast
  with a(1) h(1) c(1) show ?thesis by blast
qed

theorem hash_before_commit_witness:
  "\<exists>c s1 d s2 d' s3 c' s4. context_add ordmap_ref crates_ref (fresh_context ordmap_ref) [''a''] [7] fresh_session = (Ok c, s1)
    \<and> hash_context 1 ordmap_ref crates_ref c ''Tezos'' ''genesis'' 0 s1 = (Ok d, s2)
    \<and> commit_context 1 ordmap_ref crates_ref c ''Tezos'' ''genesis'' 0 s2 = (Ok d', s3)
    \<and> checkout ordmap_ref crates_ref d' s3 = (Ok (Some c'), s4)
    \<and> fst (context_find ordmap_ref crates_ref c' [''a''] s4) = Err (MerkleStorageError (MEntryNotFound 1))"
  using hash_before_commit [OF ordmap_ref.ordmap_laws_axioms ctx_ref.context_crates_laws_axioms, of 0 "''a''" "[7]" 0 "''Tezos''" "''genesis''"]
  by simp

end
