(* ===== verification/Context_Walk.thy ===== *)
theory Context_Walk
  imports Context_Root
begin

text \<open>
  The tree walker behind \<^verbatim>\<open>fold_iter\<close>: its loop over a stack of levels, which leaves out subtrees by their depth and loads
  nodes as it meets them, gives the nodes of the tree in preorder whose depth is asked for.
\<close>

section \<open>Specification\<close>

fun preorder :: "string list \<Rightarrow> atree \<Rightarrow> (string list \<times> atree) list" where
  "preorder key (ABlob b) = [(key, ABlob b)]"
| "preorder key (ADir es) = (key, ADir es) # concat (map (\<lambda>p. preorder (key @ [fst p]) (snd p)) es)"

definition applies :: "fold_depth option \<Rightarrow> nat \<Rightarrow> bool" where
  "applies d n \<longleftrightarrow> (case d of None \<Rightarrow> True | Some d \<Rightarrow> should_apply d (int n))"

definition visited :: "fold_depth option \<Rightarrow> atree \<Rightarrow> (string list \<times> atree) list" where
  \<comment> \<open>the nodes of a tree whose depth is asked for, in preorder\<close>
  "visited d t = filter (\<lambda>(key, _). applies d (length key)) (preorder [] t)"

definition goes_on :: "fold_depth option \<Rightarrow> nat \<Rightarrow> bool" where
  "goes_on d n \<longleftrightarrow> (case d of None \<Rightarrow> True | Some d \<Rightarrow> should_continue d (int n) = (Ok True :: (unit, bool) res))"

definition depth_ok :: "fold_depth option \<Rightarrow> bool" where
  \<comment> \<open>\<open>n - 1\<close> does not overflow\<close>
  "depth_ok d \<longleftrightarrow> (case d of Some (DepthLt n) \<Rightarrow> i64_range (n - 1) | _ \<Rightarrow> True)"

fun awalk :: "fold_depth option \<Rightarrow> string list \<Rightarrow> atree \<Rightarrow> (string list \<times> atree) list" where
  "awalk d key (ABlob b) = (if applies d (length key) then [(key, ABlob b)] else [])"
| "awalk d key (ADir es) =
     (if applies d (length key) then [(key, ADir es)] else []) @
     (if goes_on d (length key) then concat (map (\<lambda>p. awalk d (key @ [fst p]) (snd p)) es) else [])"

lemma preorder_deeper: "x \<in> set (preorder key t) \<Longrightarrow> length key \<le> length (fst x)"
proof (induction key t rule: preorder.induct)
  case (2 key es)
  then show ?case by fastforce
qed simp

lemma goes_on_applies: "\<not> goes_on d m \<Longrightarrow> depth_ok d \<Longrightarrow> m < n \<Longrightarrow> \<not> applies d n"
  by (cases d rule: option.exhaust; cases "the d") (auto simp: goes_on_def applies_def depth_ok_def)

lemma awalk_preorder: "depth_ok d \<Longrightarrow> awalk d key t = filter (\<lambda>(key, _). applies d (length key)) (preorder key t)"
proof (induction d key t rule: awalk.induct)
  case (2 d key es)
  let ?sub = "concat (map (\<lambda>p. preorder (key @ [fst p]) (snd p)) es)"
  show ?case
  proof (cases "goes_on d (length key)")
    case True
    have "concat (map (\<lambda>p. awalk d (key @ [fst p]) (snd p)) es) = filter (\<lambda>(key, _). applies d (length key)) ?sub"
      using "2.IH" [OF True _ "2.prems"] by (auto simp: filter_concat comp_def intro!: arg_cong [where f = concat])
    with True show ?thesis by simp
  next
    case False
    have "\<not> applies d (length (fst x))" if x: "x \<in> set ?sub" for x
    proof -
      obtain p where "x \<in> set (preorder (key @ [fst p]) (snd p))" using x by auto
      then show ?thesis using preorder_deeper goes_on_applies [OF False "2.prems"] by fastforce
    qed
    then have "filter (\<lambda>(key, _). applies d (length key)) ?sub = []" by (auto simp: filter_empty_conv split_beta)
    with False show ?thesis by simp
  qed
qed simp

section \<open>Levels\<close>

record alevel =
  al_key :: "string list"
  al_tree :: atree
  al_yield :: bool
  al_children :: adir

definition level_out :: "fold_depth option \<Rightarrow> alevel \<Rightarrow> (string list \<times> atree) list" where
  "level_out d l = (if al_yield l then [(al_key l, al_tree l)] else []) @
     concat (map (\<lambda>p. awalk d (al_key l @ [fst p]) (snd p)) (al_children l))"

definition stack_out :: "fold_depth option \<Rightarrow> alevel list \<Rightarrow> (string list \<times> atree) list" where
  "stack_out d ls = concat (map (level_out d) ls)"

fun tsize :: "atree \<Rightarrow> nat" where
  "tsize (ABlob b) = 3"
| "tsize (ADir es) = 3 + sum_list (map (\<lambda>p. tsize (snd p)) es)"

definition level_work :: "alevel \<Rightarrow> nat" where
  "level_work l = 1 + (if al_yield l then 1 else 0) + sum_list (map (\<lambda>p. tsize (snd p)) (al_children l))"

definition stack_work :: "alevel list \<Rightarrow> nat" where
  "stack_work ls = sum_list (map level_work ls)"

definition alevel_new :: "fold_depth option \<Rightarrow> string list \<Rightarrow> atree \<Rightarrow> alevel" where
  "alevel_new d key t = \<lparr>al_key = key, al_tree = t, al_yield = applies d (length key),
     al_children = (if goes_on d (length key) then dir_of t else [])\<rparr>"

lemma level_new_out: "level_out d (alevel_new d key t) = awalk d key t"
  by (cases t) (simp_all add: level_out_def alevel_new_def)

lemma level_new_work: "level_work (alevel_new d key t) < tsize t"
  by (cases t) (simp_all add: level_work_def alevel_new_def)

section \<open>The loop\<close>

lemma run_try: "run M X s m Q (\<lambda>_ _. False) \<Longrightarrow> run M X s (try_call m) (\<lambda>r s'. \<exists>a. r = Ok a \<and> Q a s') E"
  by (auto simp: run_def try_call_def split: prod.splits res.splits)

context context_store
begin

lemma run_node_tree:
  assumes "wf_ctx M s" and "st_rep M X s a t"
  shows "run M X s (node_tree M X a) (\<lambda>w s'. wt_rep M X s' w t) E"
  unfolding node_tree_def
proof (rule run_bind [OF run_node_entry [OF assms]])
  fix e s1 assume s1: "ext M X s s1" "wf_ctx M s1" and e: "st_entry M X s1 e t"
  have rep: "st_rep M X s1 a t" by (rule ext_rep [OF s1(1) assms(2)])
  have kind: "node_kind (cx_heap s1 ! a) = akind t" using rep_node_facts(2) [OF rep] by (simp add: cells_ok_def)
  show "run M X s1 (bind_call (read_node a) (\<lambda>n. case node_kind n of
          NonLeaf \<Rightarrow> bind_call (lift_res (entry_tree e)) (\<lambda>tree. ret (WTree tree))
        | Leaf \<Rightarrow> bind_call (lift_res (entry_value e)) (\<lambda>v. ret (WValue v)))) (\<lambda>w s'. wt_rep M X s' w t) E"
    by (rule run_bind [OF run_read_node [OF s1(2) rep_node_facts(1) [OF rep]]])
      (use kind e in \<open>cases e; auto simp: entry_tree_def entry_value_def run_def s1(2)\<close>)
qed

definition level_rep :: "'t ctx \<Rightarrow> 't walker_level \<Rightarrow> alevel \<Rightarrow> bool" where
  "level_rep s l a \<longleftrightarrow>
     wl_key l = al_key a \<and> wl_depth l = int (length (al_key a)) \<and> wl_yield_self l = al_yield a
     \<and> wt_rep M X s (wl_root l) (al_tree a)
     \<and> (case wl_children l of
          None \<Rightarrow> al_children a = []
        | Some iter \<Rightarrow> akind (al_tree a) = NonLeaf \<and> rep_list s iter (al_children a))
     \<and> set (al_children a) \<subseteq> set (dir_of (al_tree a)) \<and> length (al_key a) + adepth (al_tree a) < 2 ^ 63"

lemma level_rep_ext: "ext M X s s' \<Longrightarrow> level_rep s l a \<Longrightarrow> level_rep s' l a"
  by (auto simp: level_rep_def intro: wt_rep_ext rep_list_ext split: option.splits)

lemma stack_rep_ext: "ext M X s s' \<Longrightarrow> list_all2 (level_rep s) ls as \<Longrightarrow> list_all2 (level_rep s') ls as"
  by (erule list_all2_mono) (rule level_rep_ext)

lemma walker_level_new_rep:
  assumes "wt_rep M X s w t" and "depth_ok d" and "length key + adepth t < 2 ^ 63"
  shows "\<exists>l. walker_level_new M key w (int (length key)) d = (Ok l :: (merkle_error, 't walker_level) res) \<and> level_rep s l (alevel_new d key t)"
proof -
  obtain b where b: "(case d of None \<Rightarrow> Ok True | Some d \<Rightarrow> should_continue d (int (length key))) = (Ok b :: (merkle_error, bool) res)" "b \<longleftrightarrow> goes_on d (length key)"
    using assms(2) by (cases d; cases "the d") (auto simp: depth_ok_def goes_on_def)
  let ?l = "\<lparr>wl_key = key, wl_root = w, wl_depth = int (length key),
    wl_yield_self = (case d of None \<Rightarrow> True | Some d \<Rightarrow> should_apply d (int (length key))),
    wl_children = (if b then (case w of WTree tree \<Rightarrow> Some (om_iter M tree) | WValue _ \<Rightarrow> None) else None)\<rparr>"
  have "walker_level_new M key w (int (length key)) d = (Ok ?l :: (merkle_error, _) res)" by (simp add: walker_level_new_def b(1))
  moreover have "level_rep s ?l (alevel_new d key t)"
  proof (cases w)
    case (WTree tree)
    then obtain ts where "t = ADir ts" "st_tree M X s tree ts" using assms(1) by auto
    with WTree assms(3) show ?thesis
      by (simp add: level_rep_def alevel_new_def applies_def b(2) rep_list_def rep_tree_def del: adepth.simps)
  next
    case (WValue v)
    with assms(1,3) show ?thesis by (simp add: level_rep_def alevel_new_def applies_def b(2))
  qed
  ultimately show ?thesis by blast
qed

lemma run_walker_next:
  assumes "wf_ctx M s" and "list_all2 (level_rep s) (tw_stack w) ls" and "stack_work ls < fuel" and "depth_ok (tw_depth w)"
  shows "run M X s (walker_next fuel M X w) (\<lambda>(out, w') s'. tw_depth w' = tw_depth w \<and>
     (case stack_out (tw_depth w) ls of
        [] \<Rightarrow> out = None
      | (k, t) # xs \<Rightarrow> \<exists>tree ls'. out = Some (k, tree) \<and> wt_rep M X s' tree t \<and> list_all2 (level_rep s') (tw_stack w') ls'
          \<and> stack_out (tw_depth w) ls' = xs \<and> stack_work ls' < stack_work ls)) E"
  using assms
proof (induction fuel arbitrary: s w ls)
  case (Suc fuel)
  let ?d = "tw_depth w"
  let ?Q = "\<lambda>ls (out, w') s'. tw_depth w' = tw_depth w \<and>
     (case stack_out ?d ls of
        [] \<Rightarrow> out = None
      | (k, t) # xs \<Rightarrow> \<exists>tree ls'. out = Some (k, tree) \<and> wt_rep M X s' tree t \<and> list_all2 (level_rep s') (tw_stack w') ls'
          \<and> stack_out ?d ls' = xs \<and> stack_work ls' < stack_work ls)"
  have again: "run M X s' (walker_next fuel M X (w\<lparr>tw_stack := stack\<rparr>)) (?Q ls) E"
    if "wf_ctx M s'" "list_all2 (level_rep s') stack ls1" "stack_out ?d ls1 = stack_out ?d ls" "stack_work ls1 < stack_work ls" for s' stack ls1
    by (rule run_weaken [OF Suc.IH [of s' "w\<lparr>tw_stack := stack\<rparr>" ls1]])
      (use that Suc.prems(3,4) in \<open>fastforce split: list.splits\<close>)+
  show ?case
  proof (cases "tw_stack w")
    case Nil
    then show ?thesis using Suc.prems(1,2) by (intro run_Ok) (auto simp: stack_out_def)
  next
    case (Cons l stack)
    then obtain a as where ls: "ls = a # as" "level_rep s l a" "list_all2 (level_rep s) stack as"
      using Suc.prems(2) by (auto simp: list_all2_Cons1)
    note rep = ls(2) [unfolded level_rep_def]
    show ?thesis
    proof (cases "wl_yield_self l")
      case True
      let ?l = "l\<lparr>wl_yield_self := False\<rparr>" and ?a = "a\<lparr>al_yield := False\<rparr>"
      have "level_rep s ?l ?a" using rep by (simp add: level_rep_def split: option.splits)
      then have "list_all2 (level_rep s) (?l # stack) (?a # as)" using ls(3) by simp
      moreover have "stack_out ?d ls = (al_key a, al_tree a) # stack_out ?d (?a # as)" "stack_work (?a # as) < stack_work ls"
        using rep True by (auto simp: stack_out_def level_out_def stack_work_def level_work_def ls(1))
      ultimately show ?thesis
        using True Cons Suc.prems(1) rep
        by (intro run_Ok [where s' = s and r = "(Some (wl_key l, wl_root l), w\<lparr>tw_stack := ?l # stack\<rparr>)"])
          (auto simp del: list_all2_Cons intro!: exI [of _ "?a # as"])
    next
      case no: False
      have small: "i64_range (int (length (al_key a)) + 1)" if "akind (al_tree a) = NonLeaf"
        using rep that by (cases "al_tree a") (auto simp: i64_range_def)
      have pop: "run M X s (walker_next fuel M X (w\<lparr>tw_stack := stack\<rparr>)) (?Q ls) E" if "al_children a = []"
        by (rule again [OF Suc.prems(1) ls(3)])
          (use that rep no in \<open>auto simp: ls(1) stack_out_def level_out_def stack_work_def level_work_def\<close>)
      show ?thesis
      proof (cases "wl_children l")
        case None
        with pop no Cons rep show ?thesis by (simp add: run_def)
      next
        case (Some iter)
        then have kind: "akind (al_tree a) = NonLeaf" and kids: "rep_list s iter (al_children a)" using rep by auto
        show ?thesis
        proof (cases iter)
          case Nil
          with pop no Cons rep Some small [OF kind] kids show ?thesis by (simp add: run_def rep_list_def)
        next
          case it: (Cons p children)
          obtain k x where p: "p = (k, x)" by (cases p)
          obtain u cs where cs: "al_children a = (k, u) # cs" "st_rep M X s x u" "rep_list s children cs"
            using kids it p by (auto simp: rep_list_def list_all2_Cons1)
          let ?rest = "l\<lparr>wl_children := Some children\<rparr> # stack" and ?a = "a\<lparr>al_children := cs\<rparr>"
          let ?new = "alevel_new ?d (al_key a @ [k]) u"
          have rest: "level_rep s (l\<lparr>wl_children := Some children\<rparr>) ?a" using rep cs kind by (simp add: level_rep_def)
          have "(k, u) \<in> set (dir_of (al_tree a))" using rep cs(1) by auto
          then have deep: "length (al_key a @ [k]) + adepth u < 2 ^ 63"
            using rep adepth_child [of "(k, u)" "dir_of (al_tree a)"] kind by (cases "al_tree a") auto
          have out: "stack_out ?d (?new # ?a # as) = stack_out ?d ls"
            using rep no by (simp add: stack_out_def level_new_out level_out_def [of _ a] level_out_def [of _ ?a] ls(1) cs(1))
          have work: "stack_work (?new # ?a # as) < stack_work ls"
            using level_new_work [of ?d "al_key a @ [k]" u] rep no by (simp add: stack_work_def level_work_def [of a] level_work_def [of ?a] ls(1) cs(1))
          have "run M X s (bind_call (try_call (node_tree M X x)) (\<lambda>r. case r of
              Ok root \<Rightarrow> bind_call (lift_res (walker_level_new M (wl_key l @ [k]) root (wl_depth l + 1) ?d))
                (\<lambda>l'. walker_next fuel M X (w\<lparr>tw_stack := l' # ?rest\<rparr>))
            | _ \<Rightarrow> walker_next fuel M X (w\<lparr>tw_stack := ?rest\<rparr>))) (?Q ls) E"
          proof (rule run_bind [OF run_try [OF run_node_tree [OF Suc.prems(1) cs(2)]]])
            fix r s1 assume s1: "ext M X s s1" "wf_ctx M s1" and "\<exists>root. r = Ok root \<and> wt_rep M X s1 root u"
            then obtain root where r: "r = Ok root" "wt_rep M X s1 root u" by blast
            obtain l' where l': "walker_level_new M (al_key a @ [k]) root (int (length (al_key a @ [k]))) ?d = (Ok l' :: (merkle_error, _) res)"
              "level_rep s1 l' ?new"
              using walker_level_new_rep [OF r(2) Suc.prems(4) deep] by blast
            have "list_all2 (level_rep s1) (l' # ?rest) (?new # ?a # as)"
              using l'(2) level_rep_ext [OF s1(1) rest] stack_rep_ext [OF s1(1) ls(3)] by simp
            from again [OF s1(2) this out work] show "run M X s1 (case r of
              Ok root \<Rightarrow> bind_call (lift_res (walker_level_new M (wl_key l @ [k]) root (wl_depth l + 1) ?d))
                (\<lambda>l'. walker_next fuel M X (w\<lparr>tw_stack := l' # ?rest\<rparr>))
            | _ \<Rightarrow> walker_next fuel M X (w\<lparr>tw_stack := ?rest\<rparr>)) (?Q ls) E"
              using l'(1) r(1) rep by (simp add: add.commute)
          qed
          then show ?thesis
            using no Cons rep Some small [OF kind] it p by (simp add: run_def Let_def)
        qed
      qed
    qed
  qed
qed simp

end

section \<open>The whole walk\<close>

fun walk_all :: "nat \<Rightarrow> nat \<Rightarrow> 't ordmap \<Rightarrow> context_crates \<Rightarrow> 't tree_walker
    \<Rightarrow> ('t ctx, merkle_error, (string list \<times> 't working_tree) list) call" where
  \<comment> \<open>the iterator until its end: at most the first number of items, each with the second number of turns\<close>
  "walk_all 0 fuel M X w s = (Panic, s)"
| "walk_all (Suc n) fuel M X w s =
     bind_call (walker_next fuel M X w) (\<lambda>(item, w).
       case item of
         None \<Rightarrow> ret []
       | Some item \<Rightarrow> bind_call (walk_all n fuel M X w) (\<lambda>items. ret (item # items))) s"

context context_store
begin

definition items_rep :: "'t ctx \<Rightarrow> (string list \<times> 't working_tree) list \<Rightarrow> (string list \<times> atree) list \<Rightarrow> bool" where
  "items_rep s ws ts \<longleftrightarrow> list_all2 (\<lambda>w t. fst w = fst t \<and> wt_rep M X s (snd w) (snd t)) ws ts"

lemma run_walk_all:
  assumes "wf_ctx M s" and "list_all2 (level_rep s) (tw_stack w) ls" and "stack_work ls < n" and "stack_work ls < fuel" and "depth_ok (tw_depth w)"
  shows "run M X s (walk_all n fuel M X w) (\<lambda>ws s'. items_rep s' ws (stack_out (tw_depth w) ls)) E"
  using assms
proof (induction n arbitrary: s w ls)
  case (Suc n)
  let ?d = "tw_depth w"
  have "run M X s (bind_call (walker_next fuel M X w) (\<lambda>(item, w). case item of
         None \<Rightarrow> ret []
       | Some item \<Rightarrow> bind_call (walk_all n fuel M X w) (\<lambda>items. ret (item # items)))) (\<lambda>ws s'. items_rep s' ws (stack_out ?d ls)) E"
  proof (rule run_bind [OF run_walker_next [OF Suc.prems(1,2,4,5)]], clarify)
    fix item s1 and w1 :: "'t tree_walker"
    assume s1: "ext M X s s1" "wf_ctx M s1" and d: "tw_depth w1 = ?d"
      and c: "case stack_out ?d ls of [] \<Rightarrow> item = None
        | (k, t) # xs \<Rightarrow> \<exists>tree ls'. item = Some (k, tree) \<and> wt_rep M X s1 tree t \<and> list_all2 (level_rep s1) (tw_stack w1) ls'
            \<and> stack_out ?d ls' = xs \<and> stack_work ls' < stack_work ls"
    show "run M X s1 (case item of None \<Rightarrow> ret []
       | Some item \<Rightarrow> bind_call (walk_all n fuel M X w1) (\<lambda>items. ret (item # items))) (\<lambda>ws s'. items_rep s' ws (stack_out ?d ls)) E"
    proof (cases "stack_out ?d ls")
      case Nil
      with c s1(2) show ?thesis by (auto simp: items_rep_def intro!: run_ret)
    next
      case (Cons x xs)
      then obtain tree ls' where t: "item = Some (fst x, tree)" "wt_rep M X s1 tree (snd x)" "list_all2 (level_rep s1) (tw_stack w1) ls'"
        "stack_out ?d ls' = xs" "stack_work ls' < stack_work ls" using c by (cases x) auto
      have "run M X s1 (walk_all n fuel M X w1) (\<lambda>ws s'. items_rep s' ws xs) E"
        using Suc.IH [OF s1(2) t(3)] t(4,5) d Suc.prems(3-5) by simp
      then have "run M X s1 (bind_call (walk_all n fuel M X w1) (\<lambda>items. ret ((fst x, tree) # items))) (\<lambda>ws s'. items_rep s' ws (x # xs)) E"
        by (rule run_bind) (use t(2) wt_rep_ext in \<open>auto simp: items_rep_def run_def\<close>)
      with t(1) Cons show ?thesis by simp
    qed
  qed
  then show ?case by (simp add: run_def)
qed simp

lemma fold_iter_ok:
  assumes "wf_ctx M s" and "wt_rep M X s w (ADir es)" and "depth_ok d"
    and "adepth (ADir (adir_at key es)) < 2 ^ 63" and "tsize (ADir (adir_at key es)) < fuel"
  shows "run M X s (bind_call (fold_iter M X w d key) (walk_all fuel fuel M X))
    (\<lambda>ws s'. items_rep s' ws (if adir_at key es = [] then [] else visited d (ADir (adir_at key es)))) E"
proof -
  let ?es = "adir_at key es"
  obtain tree s1 where s1: "find_raw_tree M X key (root_ref M w) s = (Ok tree, s1)" "ext M X s s1" "wf_ctx M s1" "st_tree M X s1 tree ?es"
    using find_raw_tree_ok [OF assms(1,2), of key] by auto
  have empty: "om_is_empty M tree \<longleftrightarrow> ?es = []" using s1(4) by (auto simp: is_empty_iter rep_tree_def)
  have "run M X s (fold_iter M X w d key)
    (\<lambda>w s'. \<exists>ls. list_all2 (level_rep s') (tw_stack w) ls \<and> depth_ok (tw_depth w) \<and> stack_work ls < fuel
       \<and> stack_out (tw_depth w) ls = (if ?es = [] then [] else visited d (ADir ?es))) E"
  proof (cases "?es = []")
    case True
    have "fold_iter M X w d key s = (Ok \<lparr>tw_depth = None, tw_stack = []\<rparr>, s1)"
      using s1(1) empty True by (simp add: fold_iter_def find_tree_def bind_call_def)
    then show ?thesis
      by (rule run_Ok) (use True s1 assms(5) in \<open>auto simp: depth_ok_def stack_work_def stack_out_def intro!: exI [of _ "[]"]\<close>)
  next
    case False
    have wt: "wt_rep M X s1 (WTree tree) (ADir ?es)" using s1(4) by simp
    obtain l where l: "walker_level_new M [] (WTree tree) 0 d = (Ok l :: (merkle_error, 't walker_level) res)" "level_rep s1 l (alevel_new d [] (ADir ?es))"
      using walker_level_new_rep [OF wt assms(3), of "[]"] assms(4) by auto
    have "fold_iter M X w d key s = (Ok \<lparr>tw_depth = d, tw_stack = [l]\<rparr>, s1)"
      using s1(1) empty False l(1) by (simp add: fold_iter_def find_tree_def bind_call_def tree_walker_new_def)
    then show ?thesis
      by (rule run_Ok)
        (use False s1 l(2) assms(3,5) level_new_work [of d "[]" "ADir ?es"] in
          \<open>auto simp: stack_work_def stack_out_def level_new_out visited_def awalk_preorder simp del: awalk.simps preorder.simps tsize.simps
            intro!: exI [of _ "[alevel_new d [] (ADir ?es)]"]\<close>)
  qed
  then show ?thesis
  proof (rule run_bind)
    fix s2 and w1 :: "'t tree_walker"
    assume "wf_ctx M s2" and "\<exists>ls. list_all2 (level_rep s2) (tw_stack w1) ls \<and> depth_ok (tw_depth w1) \<and> stack_work ls < fuel
       \<and> stack_out (tw_depth w1) ls = (if ?es = [] then [] else visited d (ADir ?es))"
    then show "run M X s2 (walk_all fuel fuel M X w1) (\<lambda>ws s'. items_rep s' ws (if ?es = [] then [] else visited d (ADir ?es))) E"
      using run_walk_all [of s2 w1 _ fuel fuel E] by fastforce
  qed
qed

end

text \<open>
  C21. The iterator of \<^verbatim>\<open>fold_iter\<close> ends, and gives exactly the nodes of the directory at the path whose depth is asked for, in preorder,
  each with its path and a tree that stands for it. Skipping the children of a node by \<^verbatim>\<open>should_continue\<close> leaves none of them
  out, and nodes that are only in the repository are loaded on the way.
\<close>

theorem fold_iter_visits:
  assumes "ordmap_laws M" and "context_crates_laws X" and "wf_ctx M s" and "wt_rep M X s w (ADir es)" and "depth_ok d"
    and "adepth (ADir (adir_at key es)) < 2 ^ 63" and "tsize (ADir (adir_at key es)) < fuel"
  shows "\<exists>ws s'. bind_call (fold_iter M X w d key) (walk_all fuel fuel M X) s = (Ok ws, s')
    \<and> list_all2 (\<lambda>w t. fst w = fst t \<and> wt_rep M X s' (snd w) (snd t)) ws
        (if adir_at key es = [] then [] else visited d (ADir (adir_at key es)))"
proof -
  note store = context_store.intro [OF assms(1,2)]
  from context_store.fold_iter_ok [OF store assms(3-7), of "\<lambda>_ _. False"]
  show ?thesis
    by (auto simp: run_def context_store.items_rep_def [OF store] split: prod.splits res.splits)
qed

theorem fold_iter_visits_witness:
  "\<exists>ws s'. bind_call (fold_iter ordmap_ref crates_ref (WTree [(''a'', 0)]) (Some (DepthGe 1)) []) (walk_all 10 10 ordmap_ref crates_ref)
      (ss_ctx one_value_session) = (Ok ws, s')
    \<and> list_all2 (\<lambda>w t. fst w = fst t \<and> wt_rep ordmap_ref crates_ref s' (snd w) (snd t)) ws [([''a''], ABlob [7])]"
proof -
  have ok: "wf_ctx ordmap_ref (ss_ctx one_value_session)" "wt_rep ordmap_ref crates_ref (ss_ctx one_value_session) (WTree [(''a'', 0)]) (ADir [(''a'', ABlob [7])])"
    using one_value_ok by (simp_all add: context_ok_def one_value_context_def)
  have "visited (Some (DepthGe 1)) (ADir [(''a'', ABlob [7])]) = [([''a''], ABlob [7])]"
    by (simp add: visited_def applies_def)
  with fold_iter_visits [OF ordmap_ref.ordmap_laws_axioms ctx_ref.context_crates_laws_axioms ok, of "Some (DepthGe 1)" "[]" 10]
  show ?thesis by (simp add: depth_ok_def del: wt_rep.simps)
qed

end
