(* ===== verification/Gc_Worker.thy ===== *)
theory Gc_Worker
  imports Context_Checkout
begin

text \<open>
  The garbage collector of the context, \<^verbatim>\<open>new_context/src/gc/worker.rs\<close>: the ids written in the last seven cycles, the ids that a
  block reuses moved to the last of them with everything below, and the ids of the oldest cycle handed back
  through the queue of free ids. The thread handles one command at a time; messages it prints are left out.
\<close>

section \<open>Cycles\<close>

definition cycles_default :: "cycle_map list" where
  "cycles_default = replicate PRESERVE_CYCLE_COUNT []"

fun take_out :: "hash_id \<Rightarrow> cycle_map list \<Rightarrow> bytes option \<Rightarrow> bytes option \<times> cycle_map list" where
  \<comment> \<open>the loop of \<open>move_to_last_cycle\<close>: the id is removed from every store, the value is the last one found\<close>
  "take_out h [] value = (value, [])"
| "take_out h (store # stores) value =
     (let value = (case map_of store h of Some (Some item) \<Rightarrow> Some item | _ \<Rightarrow> value);
          (value, stores) = take_out h stores value
      in (value, alist_remove h store # stores))"

definition move_to_last_cycle :: "hash_id \<Rightarrow> cycle_map list \<Rightarrow> (unit, bytes option \<times> cycle_map list) res" where
  "move_to_last_cycle h stores =
     (if stores = [] then Panic
      else
        let (value, older) = take_out h (butlast stores) None in
        Ok (case value of
              None \<Rightarrow> (None, older @ [last stores])
            | Some value \<Rightarrow> (Some value, older @ [alist_insert h (Some value) (last stores)])))"

definition roll :: "cycle_map \<Rightarrow> cycle_map list \<Rightarrow> hash_id list \<times> cycle_map list" where
  "roll new_cycle stores =
     (case stores of
        [] \<Rightarrow> ([], [new_cycle])
      | unused # stores \<Rightarrow> (map fst unused, stores @ [new_cycle]))"

section \<open>The thread\<close>

record gc_thread =
  gc_cycles :: "cycle_map list"
  gc_free_ids :: "hash_id queue"
  gc_pending :: "hash_id list"

definition with_new_ids :: "hash_id list \<Rightarrow> cycle_map \<Rightarrow> cycle_map" where
  "with_new_ids new_ids new_cycle =
     fold (\<lambda>h m. case map_of m h of Some _ \<Rightarrow> m | None \<Rightarrow> alist_insert h None m) new_ids new_cycle"

definition send_unused :: "hash_id list \<Rightarrow> gc_thread \<Rightarrow> (unit, gc_thread) res" where
  "send_unused unused t =
     (let navailable = available (gc_free_ids t);
          (to_send, pending) =
            (if navailable < length unused then (take navailable unused, drop navailable unused) else (unused, []))
      in case push_slice (gc_free_ids t) to_send of
           Err _ \<Rightarrow> Ok (t\<lparr>gc_pending := gc_pending t @ unused\<rparr>)
         | Ok q \<Rightarrow> Ok (t\<lparr>gc_free_ids := q, gc_pending := gc_pending t @ pending\<rparr>)
         | Panic \<Rightarrow> Panic)"

definition start_new_cycle :: "cycle_map \<Rightarrow> hash_id list \<Rightarrow> gc_thread \<Rightarrow> (unit, gc_thread) res" where
  "start_new_cycle new_cycle new_ids t =
     (let (unused, stores) = roll (with_new_ids new_ids new_cycle) (gc_cycles t)
      in send_unused unused (t\<lparr>gc_cycles := stores\<rparr>))"

definition send_pending :: "gc_thread \<Rightarrow> (unit, gc_thread) res" where
  "send_pending t =
     (if gc_pending t = [] then Ok t
      else
        let navailable = available (gc_free_ids t) in
        if navailable = 0 then Ok t
        else
          let n_to_send = min navailable (length (gc_pending t));
              start = length (gc_pending t) - n_to_send
          in case push_slice (gc_free_ids t) (drop start (gc_pending t)) of
               Err _ \<Rightarrow> Ok t
             | Ok q \<Rightarrow> Ok (t\<lparr>gc_free_ids := q, gc_pending := take start (gc_pending t)\<rparr>)
             | Panic \<Rightarrow> Panic)"

definition disk_values :: "(string \<times> node_kind \<times> hash_id) list \<Rightarrow> hash_id list" where
  \<comment> \<open>\<open>tree.values()\<close> of the map read from the entries\<close>
  "disk_values es = map (\<lambda>(k, kind, h). h) (fold (\<lambda>(k, n) m. alist_insert k n m) es [])"

fun entries_below :: "disk_entry \<Rightarrow> hash_id list" where
  "entries_below (DBlob _) = []"
| "entries_below (DTree es) = disk_values es"
| "entries_below (DCommit c) = [root_hash c]"

lemma take_out_length: "length (snd (take_out h stores found)) = length stores"
  by (induction h stores found rule: take_out.induct) (simp_all add: Let_def split_beta)

definition sizes :: "cycle_map list \<Rightarrow> nat" where
  "sizes stores = sum_list (map length stores)"

lemma alist_remove_length: "length (alist_remove k ps) \<le> length ps"
  by (simp add: alist_remove_def)

lemma alist_remove_less: "map_of ps k = Some v \<Longrightarrow> length (alist_remove k ps) < length ps"
  unfolding alist_remove_def by (rule length_filter_less [of "(k, v)"]) (auto dest: map_of_SomeD)

lemma take_out_sizes:
  "sizes (snd (take_out h stores found)) \<le> sizes stores"
  "fst (take_out h stores found) = Some v \<Longrightarrow> found = None \<Longrightarrow> sizes (snd (take_out h stores found)) < sizes stores"
proof (induction h stores found rule: take_out.induct)
  case (2 h store stores found)
  let ?found = "case map_of store h of Some (Some item) \<Rightarrow> Some item | _ \<Rightarrow> found"
  {
    case 1
    show ?case
      using "2.IH"(1) [OF refl] alist_remove_length [of h store] by (simp add: Let_def split_beta sizes_def)
  next
    case 2
    show ?case
    proof (cases "?found = None")
      case True
      have "fst (take_out h stores ?found) = Some v" using "2.prems"(1) by (simp add: Let_def split_beta)
      from "2.IH"(2) [OF refl this True] have "sizes (snd (take_out h stores ?found)) < sizes stores" .
      with alist_remove_length [of h store] show ?thesis by (simp add: Let_def split_beta sizes_def)
    next
      case False
      then obtain item where "map_of store h = Some (Some item)"
        using "2.prems"(2) by (auto split: option.splits)
      with alist_remove_less [OF this] "2.IH"(1) [OF refl] show ?thesis by (simp add: Let_def split_beta sizes_def)
    qed
  }
qed (simp_all add: sizes_def)

function mark_loop :: "context_crates \<Rightarrow> hash_id list \<Rightarrow> cycle_map list \<Rightarrow> (unit, cycle_map list) res" where
  \<comment> \<open>the loop of \<open>mark_reused\<close>: an entry that cannot be read is skipped\<close>
  "mark_loop X reused stores =
     (if reused = [] then Ok stores
      else
        case move_to_last_cycle (last reused) stores of
          Ok (None, stores) \<Rightarrow> mark_loop X (butlast reused) stores
        | Ok (Some value, stores) \<Rightarrow>
            (case bincode_deserialize X value of
               Ok entry \<Rightarrow> mark_loop X (butlast reused @ entries_below entry) stores
             | Err _ \<Rightarrow> mark_loop X (butlast reused) stores
             | Panic \<Rightarrow> Panic)
        | Err e \<Rightarrow> Err e
        | Panic \<Rightarrow> Panic)"
  by pat_completeness auto

lemma move_sizes:
  "move_to_last_cycle h stores = Ok (None, stores') \<Longrightarrow> sizes (butlast stores') \<le> sizes (butlast stores)"
  "move_to_last_cycle h stores = Ok (Some v, stores') \<Longrightarrow> sizes (butlast stores') < sizes (butlast stores)"
  using take_out_sizes [of h "butlast stores" None]
  by (auto simp: move_to_last_cycle_def Let_def split_beta split: if_splits option.splits)

termination mark_loop
  by (relation "measures [\<lambda>(X, reused, stores). sizes (butlast stores), \<lambda>(X, reused, stores). length reused]")
    (auto dest: move_sizes(2) dest!: move_sizes(1) simp: le_less)

declare mark_loop.simps [simp del]

definition mark_reused :: "context_crates \<Rightarrow> hash_id list \<Rightarrow> gc_thread \<Rightarrow> (unit, gc_thread) res" where
  "mark_reused X reused t =
     res_bind (mark_loop X reused (gc_cycles t)) (\<lambda>stores. send_pending (t\<lparr>gc_cycles := stores\<rparr>))"

fun gc_handle :: "context_crates \<Rightarrow> gc_command \<Rightarrow> gc_thread \<Rightarrow> (unit, gc_thread) res" where
  "gc_handle X (StartNewCycle values_in_cycle new_ids) t = start_new_cycle values_in_cycle new_ids t"
| "gc_handle X (MarkReused reused) t = mark_reused X reused t"

fun gc_run :: "context_crates \<Rightarrow> gc_command list \<Rightarrow> gc_thread \<Rightarrow> (unit, gc_thread) res" where
  \<comment> \<open>the commands of the channel until it is closed\<close>
  "gc_run X [] t = Ok t"
| "gc_run X (c # cs) t = res_bind (gc_handle X c t) (gc_run X cs)"

end
