(* ===== verification/Gc_Safety.thy ===== *)
theory Gc_Safety
  imports Gc_Worker "HOL-Library.Multiset"
begin

text \<open>
  What the garbage collector promises: it invents no id and hands none back more often than it was given, it loses only
  ids that a block marks while they have no value, an entry that a block reuses is kept for six more
  cycles with everything that is reachable from it through older cycles, and where this falls short.
\<close>

section \<open>Moving an id\<close>

lemma take_out_stores: "snd (take_out h stores found) = map (alist_remove h) stores"
  by (induction h stores found rule: take_out.induct) (simp_all add: Let_def split_beta)

definition older_value :: "cycle_map list \<Rightarrow> hash_id \<Rightarrow> bytes option" where
  "older_value stores h = fst (take_out h (butlast stores) None)"

lemma take_out_removed:
  "fst (take_out h' (map (alist_remove h) stores) found) = (if h' = h then found else fst (take_out h' stores found))"
  by (induction stores arbitrary: found) (auto simp: Let_def split_beta map_of_alist_remove)

lemma move_to_last_cycle_eq:
  "stores \<noteq> [] \<Longrightarrow> move_to_last_cycle h stores =
     Ok (case older_value stores h of
           None \<Rightarrow> (None, map (alist_remove h) (butlast stores) @ [last stores])
         | Some v \<Rightarrow> (Some v, map (alist_remove h) (butlast stores) @ [alist_insert h (Some v) (last stores)]))"
  by (simp add: move_to_last_cycle_def older_value_def Let_def split_beta take_out_stores)

lemma older_moved:
  "older_value (map (alist_remove h) (butlast stores) @ [s]) h' = (if h' = h then None else older_value stores h')"
  by (simp add: older_value_def take_out_removed)

definition never_panics :: "context_crates \<Rightarrow> bool" where
  "never_panics X \<longleftrightarrow> (\<forall>bs. bincode_deserialize X bs \<noteq> Panic)"

definition below :: "context_crates \<Rightarrow> bytes \<Rightarrow> hash_id list" where
  "below X v = (case bincode_deserialize X v of Ok e \<Rightarrow> entries_below e | _ \<Rightarrow> [])"

text \<open>One turn of the loop.\<close>

lemma mark_loop_step:
  assumes "never_panics X" and "stores \<noteq> []" and "reused \<noteq> []"
  shows "mark_loop X reused stores =
    (case older_value stores (last reused) of
       None \<Rightarrow> mark_loop X (butlast reused) (map (alist_remove (last reused)) (butlast stores) @ [last stores])
     | Some v \<Rightarrow> mark_loop X (butlast reused @ below X v)
         (map (alist_remove (last reused)) (butlast stores) @ [alist_insert (last reused) (Some v) (last stores)]))"
  using assms
  by (subst mark_loop.simps)
    (auto simp: move_to_last_cycle_eq never_panics_def below_def split: option.splits res.splits)

lemma mark_loop_induct [consumes 2, case_names stop skip move]:
  assumes "never_panics X" and "stores \<noteq> []"
    and "\<And>stores. stores \<noteq> [] \<Longrightarrow> P [] stores"
    and "\<And>reused stores. reused \<noteq> [] \<Longrightarrow> stores \<noteq> [] \<Longrightarrow> older_value stores (last reused) = None \<Longrightarrow>
      P (butlast reused) (map (alist_remove (last reused)) (butlast stores) @ [last stores]) \<Longrightarrow> P reused stores"
    and "\<And>reused stores v. reused \<noteq> [] \<Longrightarrow> stores \<noteq> [] \<Longrightarrow> older_value stores (last reused) = Some v \<Longrightarrow>
      P (butlast reused @ below X v) (map (alist_remove (last reused)) (butlast stores) @ [alist_insert (last reused) (Some v) (last stores)])
      \<Longrightarrow> P reused stores"
  shows "P reused stores"
  using assms(2)
proof (induction "(sizes (butlast stores), length reused)" arbitrary: reused stores rule: wf_induct_rule [OF wf_lex_prod [OF wf_less_than wf_less_than]])
  case (1 reused stores)
  show ?case
  proof (cases "reused = []")
    case False
    note move = move_to_last_cycle_eq [OF 1(2), of "last reused"]
    show ?thesis
    proof (cases "older_value stores (last reused)")
      case None
      then have "sizes (map (alist_remove (last reused)) (butlast stores)) \<le> sizes (butlast stores)"
        using move_sizes(1) move by fastforce
      with False show ?thesis by (intro assms(4) [OF False 1(2) None] 1(1)) (auto simp: le_less)
    next
      case (Some v)
      then have "sizes (map (alist_remove (last reused)) (butlast stores)) < sizes (butlast stores)"
        using move_sizes(2) move by fastforce
      then show ?thesis by (intro assms(5) [OF False 1(2) Some] 1(1)) auto
    qed
  qed (use assms(3) 1(2) in simp)
qed

section \<open>What is moved\<close>

inductive needed :: "context_crates \<Rightarrow> cycle_map list \<Rightarrow> hash_id set \<Rightarrow> hash_id \<Rightarrow> bool" for X stores R where
  \<comment> \<open>reachable through entries of older cycles\<close>
  needed_root: "h \<in> R \<Longrightarrow> needed X stores R h"
| needed_below: "needed X stores R h \<Longrightarrow> older_value stores h = Some v \<Longrightarrow> h' \<in> set (below X v) \<Longrightarrow> needed X stores R h'"

lemma needed_skip:
  assumes "needed X stores R h" and "older_value stores h0 = None" and "R \<subseteq> insert h0 R'"
    and "\<And>x. older_value stores' x = older_value stores x"
  shows "h = h0 \<or> needed X stores' R' h"
  using assms(1)
proof induction
  case (needed_below h v h')
  then show ?case using assms(2,4) needed.needed_below [of X stores' R' h v h'] by auto
qed (use assms(3) needed.needed_root in auto)

lemma needed_move:
  assumes "needed X stores R h" and "older_value stores h0 = Some v" and "R \<subseteq> insert h0 R'" and "set (below X v) \<subseteq> R'"
    and "\<And>x. x \<noteq> h0 \<Longrightarrow> older_value stores' x = older_value stores x"
  shows "h = h0 \<or> needed X stores' R' h"
  using assms(1)
proof induction
  case (needed_below h w h')
  then show ?case using assms(2,4,5) needed.needed_below [of X stores' R' h w h'] needed.needed_root [of h' R' X stores']
    by (cases "h = h0") auto
qed (use assms(3) needed.needed_root in auto)

definition moved :: "cycle_map list \<Rightarrow> hash_id \<Rightarrow> bytes \<Rightarrow> bool" where
  "moved stores h v \<longleftrightarrow> map_of (last stores) h = Some (Some v) \<and> (\<forall>s \<in> set (butlast stores). map_of s h = None)"

lemma set_last: "reused \<noteq> [] \<Longrightarrow> set reused \<subseteq> insert (last reused) (set (butlast reused))"
proof -
  assume "reused \<noteq> []"
  then have "set reused = set (butlast reused @ [last reused])" by simp
  then show ?thesis unfolding set_append by auto
qed

lemma mark_loop_moved:
  assumes "never_panics X" and "stores \<noteq> []"
  shows "\<exists>stores'. mark_loop X reused stores = Ok stores' \<and> stores' \<noteq> []
    \<and> (\<forall>h v. needed X stores (set reused) h \<longrightarrow> older_value stores h = Some v \<longrightarrow> moved stores' h v)
    \<and> (\<forall>h v. moved stores h v \<longrightarrow> moved stores' h v)"
  using assms
proof (induction rule: mark_loop_induct)
  case (stop stores)
  have "\<not> needed X stores {} h" for h by (rule notI, induction rule: needed.induct) auto
  then show ?case using stop by (simp add: mark_loop.simps)
next
  case (skip reused stores)
  let ?stores = "map (alist_remove (last reused)) (butlast stores) @ [last stores]"
  have older: "older_value ?stores x = older_value stores x" for x using skip(3) by (simp add: older_moved)
  have keep: "moved ?stores h v" if "moved stores h v" for h v
    using that by (auto simp: moved_def map_of_alist_remove)
  have need: "needed X ?stores (set (butlast reused)) h" if "needed X stores (set reused) h" "older_value stores h = Some v" for h v
    using needed_skip [OF that(1) skip(3) set_last [OF skip(1)] older] skip(3) that(2) by auto
  show ?case using skip.IH keep need older mark_loop_step [OF assms(1) skip(2,1)] skip(3) by auto
next
  case (move reused stores v)
  let ?stores = "map (alist_remove (last reused)) (butlast stores) @ [alist_insert (last reused) (Some v) (last stores)]"
  have older: "older_value ?stores x = (if x = last reused then None else older_value stores x)" for x by (simp add: older_moved)
  have set_insert: "map_of (alist_insert k x m) = (map_of m)(k \<mapsto> x)" for k x and m :: cycle_map
    by (induction k x m rule: alist_insert.induct) (auto simp: fun_eq_iff)
  have here: "moved ?stores (last reused) v" by (auto simp: moved_def set_insert map_of_alist_remove)
  have none: "fst (take_out h l None) = None" if "\<forall>s \<in> set l. map_of s h = None" for h l
    using that by (induction l) (simp_all add: Let_def split_beta)
  have keep: "moved ?stores h w" if "moved stores h w" for h w
  proof (cases "h = last reused")
    case True
    with none [of "butlast stores" h] that move(3) show ?thesis by (auto simp: moved_def older_value_def)
  next
    case False
    with that show ?thesis by (auto simp: moved_def set_insert map_of_alist_remove)
  qed
  have need: "h = last reused \<or> needed X ?stores (set (butlast reused @ below X v)) h" if "needed X stores (set reused) h" for h
    by (rule needed_move [OF that move(3)]) (use set_last [OF move(1)] older in auto)
  obtain stores' where m: "mark_loop X (butlast reused @ below X v) ?stores = Ok stores'" "stores' \<noteq> []"
    "\<And>h w. needed X ?stores (set (butlast reused @ below X v)) h \<Longrightarrow> older_value ?stores h = Some w \<Longrightarrow> moved stores' h w"
    "\<And>h w. moved ?stores h w \<Longrightarrow> moved stores' h w"
    using move.IH by blast
  have "moved stores' h w" if "needed X stores (set reused) h" "older_value stores h = Some w" for h w
  proof (cases "h = last reused")
    case True
    then show ?thesis using m(4) [OF here] that(2) move(3) by simp
  next
    case False
    then show ?thesis using m(3) [of h w] need [OF that(1)] older [of h] that(2) by simp
  qed
  moreover have "mark_loop X reused stores = Ok stores'" using mark_loop_step [OF assms(1) move(2,1)] move(3) m(1) by simp
  ultimately show ?case using m(2,4) keep by blast
qed

lemma mark_loop_length:
  assumes "never_panics X" and "stores \<noteq> []" and "mark_loop X reused stores = Ok stores'"
  shows "length stores' = length stores"
    and "\<forall>i < length stores - 1. map_of (stores ! i) h = None \<longrightarrow> map_of (stores' ! i) h = None"
proof -
  have "\<forall>stores'. mark_loop X reused stores = Ok stores' \<longrightarrow> length stores' = length stores
    \<and> (\<forall>i < length stores - 1. map_of (stores ! i) h = None \<longrightarrow> map_of (stores' ! i) h = None)"
    using assms(1,2)
  proof (induction rule: mark_loop_induct)
    case (skip reused stores)
    then show ?case using mark_loop_step [OF assms(1) skip(2,1)] by (auto simp: nth_append nth_butlast map_of_alist_remove)
  next
    case (move reused stores v)
    then show ?case using mark_loop_step [OF assms(1) move(2,1)] by (auto simp: nth_append nth_butlast map_of_alist_remove)
  qed (simp add: mark_loop.simps)
  with assms(3) show "length stores' = length stores"
    and "\<forall>i < length stores - 1. map_of (stores ! i) h = None \<longrightarrow> map_of (stores' ! i) h = None" by auto
qed

section \<open>The ids that are handed back\<close>

fun cycles_run :: "context_crates \<Rightarrow> gc_command list \<Rightarrow> cycle_map list \<Rightarrow> (unit, hash_id list \<times> cycle_map list) res" where
  \<comment> \<open>the commands on the cycles alone: the ids that fall out of them\<close>
  "cycles_run X [] stores = Ok ([], stores)"
| "cycles_run X (StartNewCycle vs new_ids # cs) stores =
     (let (unused, stores) = roll (with_new_ids new_ids vs) stores
      in res_bind (cycles_run X cs stores) (\<lambda>(freed, stores). Ok (unused @ freed, stores)))"
| "cycles_run X (MarkReused reused # cs) stores =
     res_bind (mark_loop X reused stores) (cycles_run X cs)"

fun starts :: "gc_command list \<Rightarrow> nat" where
  "starts [] = 0"
| "starts (StartNewCycle vs new_ids # cs) = Suc (starts cs)"
| "starts (MarkReused reused # cs) = starts cs"

lemma roll_eq: "stores \<noteq> [] \<Longrightarrow> roll new stores = (map fst (hd stores), tl stores @ [new])"
  by (cases stores) (simp_all add: roll_def)

lemma kept:
  assumes "never_panics X" and "length stores = Suc m" and "starts cs \<le> m"
    and "\<forall>i < starts cs. map_of (stores ! i) h = None" and "cycles_run X cs stores = Ok (freed, stores')"
  shows "h \<notin> set freed"
  using assms(2-)
proof (induction cs arbitrary: stores freed)
  case (Cons c cs)
  have ne: "stores \<noteq> []" using Cons.prems(1) by auto
  show ?case
  proof (cases c)
    case (StartNewCycle vs new_ids)
    obtain freed1 where f: "cycles_run X cs (tl stores @ [with_new_ids new_ids vs]) = Ok (freed1, stores')" "freed = map fst (hd stores) @ freed1"
      using Cons.prems(4) ne by (auto simp: roll_eq StartNewCycle)
    have "map_of (hd stores) h = None" using Cons.prems(3) ne by (simp add: hd_conv_nth StartNewCycle)
    then have "h \<notin> set (map fst (hd stores))" by (simp add: map_of_eq_None_iff)
    moreover have "h \<notin> set freed1"
      by (rule Cons.IH [OF _ _ _ f(1)]) (use Cons.prems(1-3) in \<open>auto simp: nth_append nth_tl StartNewCycle\<close>)
    ultimately show ?thesis using f(2) by simp
  next
    case (MarkReused reused)
    obtain stores1 where m: "mark_loop X reused stores = Ok stores1" "cycles_run X cs stores1 = Ok (freed, stores')"
      using Cons.prems(4) by (auto simp: MarkReused)
    show ?thesis
      by (rule Cons.IH [OF _ _ _ m(2)]) (use Cons.prems(1-3) mark_loop_length(1) [OF assms(1) ne m(1)] mark_loop_length(2) [OF assms(1) ne m(1), of h] MarkReused in auto)
  qed
qed simp

section \<open>The thread and its queue\<close>

fun command_ids :: "gc_command list \<Rightarrow> nat" where
  "command_ids [] = 0"
| "command_ids (StartNewCycle vs new_ids # cs) = length vs + length new_ids + command_ids cs"
| "command_ids (MarkReused reused # cs) = command_ids cs"

lemma length_alist_insert: "length (alist_insert k v ps) \<le> Suc (length ps)"
  by (induction k v ps rule: alist_insert.induct) auto

lemma with_new_ids_length: "length (with_new_ids new_ids vs) \<le> length vs + length new_ids"
proof (induction new_ids arbitrary: vs)
  case (Cons h hs)
  let ?vs = "case map_of vs h of Some _ \<Rightarrow> vs | None \<Rightarrow> alist_insert h None vs"
  have "length ?vs \<le> Suc (length vs)" using length_alist_insert [of h None vs] by (simp split: option.splits)
  with Cons.IH [of ?vs] show ?case by (simp add: with_new_ids_def)
qed (simp add: with_new_ids_def)

lemma sizes_simps [simp]: "sizes [] = 0" "sizes (s # ss) = length s + sizes ss" "sizes (ss @ ts) = sizes ss + sizes ts"
  by (simp_all add: sizes_def)

lemma sizes_last: "stores \<noteq> [] \<Longrightarrow> sizes stores = sizes (butlast stores) + length (last stores)"
  using sizes_simps(3) [of "butlast stores" "[last stores]"] by simp

lemma mark_loop_sizes:
  assumes "never_panics X" and "stores \<noteq> []"
  shows "\<exists>stores'. mark_loop X reused stores = Ok stores' \<and> stores' \<noteq> [] \<and> sizes stores' \<le> sizes stores"
  using assms
proof (induction rule: mark_loop_induct)
  case (skip reused stores)
  have "sizes (map (alist_remove (last reused)) (butlast stores)) \<le> sizes (butlast stores)"
    using take_out_sizes(1) [of "last reused" "butlast stores" None] by (simp add: take_out_stores)
  then show ?case using skip.IH mark_loop_step [OF assms(1) skip(2,1)] skip(3) sizes_last [OF skip(2)] by auto
next
  case (move reused stores v)
  have "sizes (map (alist_remove (last reused)) (butlast stores)) < sizes (butlast stores)"
    using take_out_sizes(2) [of "last reused" "butlast stores" None v] move(3) by (simp add: take_out_stores older_value_def)
  then show ?case
    using move.IH mark_loop_step [OF assms(1) move(2,1)] move(3) sizes_last [OF move(2)]
      length_alist_insert [of "last reused" "Some v" "last stores"] by force
qed (simp add: mark_loop.simps)

context ring
begin

lemma available_rep: "rep q n f \<Longrightarrow> \<not> f_closed f \<Longrightarrow> available q = cap - length (f_items f)"
  by (simp add: available_def len_refines [of q n f] rep_facts(2) [of q n f])

lemma available_le: "rep q n f \<Longrightarrow> available q \<le> cap"
  by (simp add: available_def rep_facts(2) [of q n f])

lemma push_available:
  assumes "rep q n f" and "length xs \<le> available q" and "pos (n + length (f_items f) + length xs) < 2 ^ 63"
  shows "if f_closed f then push_slice q xs = Err (PushClosed ())
    else \<exists>q'. push_slice q xs = Ok q' \<and> rep q' n (f\<lparr>f_items := f_items f @ xs\<rparr>)"
  using push_slice_refines [OF assms(1) _ assms(3)] available_le [OF assms(1)] available_rep [OF assms(1)] assms(2) rep_facts(5) [OF assms(1)]
  by (auto simp: fifo_push_slice_def split: if_splits)

lemma send_unused_ok:
  assumes "rep (gc_free_ids t) n f" and "pos (n + length (f_items f) + length unused) < 2 ^ 63"
  shows "\<exists>t' f'. send_unused unused t = Ok t' \<and> rep (gc_free_ids t') n f' \<and> gc_cycles t' = gc_cycles t
    \<and> mset (f_items f') + mset (gc_pending t') = mset (f_items f) + mset (gc_pending t) + mset unused"
proof -
  let ?a = "available (gc_free_ids t)"
  let ?xs = "if ?a < length unused then take ?a unused else unused" and ?ys = "if ?a < length unused then drop ?a unused else []"
  have "pos (n + length (f_items f) + length ?xs) \<le> pos (n + length (f_items f) + length unused)" by (rule pos_mono) simp
  then have push: "if f_closed f then push_slice (gc_free_ids t) ?xs = Err (PushClosed ())
    else \<exists>q'. push_slice (gc_free_ids t) ?xs = Ok q' \<and> rep q' n (f\<lparr>f_items := f_items f @ ?xs\<rparr>)"
    using assms(2) by (intro push_available [OF assms(1)]) auto
  have send: "send_unused unused t = (case push_slice (gc_free_ids t) ?xs of
       Err _ \<Rightarrow> Ok (t\<lparr>gc_pending := gc_pending t @ unused\<rparr>)
     | Ok q \<Rightarrow> Ok (t\<lparr>gc_free_ids := q, gc_pending := gc_pending t @ ?ys\<rparr>)
     | Panic \<Rightarrow> Panic)"
    by (simp add: send_unused_def Let_def)
  have split: "mset ?xs + mset ?ys = mset unused" by (simp flip: mset_append)
  show ?thesis
  proof (cases "f_closed f")
    case True
    with push assms(1) show ?thesis
      by (intro exI [of _ "t\<lparr>gc_pending := gc_pending t @ unused\<rparr>"] exI [of _ f]) (simp add: send)
  next
    case False
    then obtain q' where q': "push_slice (gc_free_ids t) ?xs = Ok q'" "rep q' n (f\<lparr>f_items := f_items f @ ?xs\<rparr>)" using push by auto
    have "mset (f_items f @ ?xs) + mset (gc_pending t @ ?ys) = mset (f_items f) + mset (gc_pending t) + mset unused"
      unfolding split [symmetric] by simp
    with q' show ?thesis
      by (intro exI [of _ "t\<lparr>gc_free_ids := q', gc_pending := gc_pending t @ ?ys\<rparr>"] exI [of _ "f\<lparr>f_items := f_items f @ ?xs\<rparr>"])
        (simp add: send del: mset_append)
  qed
qed

lemma send_pending_ok:
  assumes "rep (gc_free_ids t) n f" and "pos (n + length (f_items f) + length (gc_pending t)) < 2 ^ 63"
  shows "\<exists>t' f'. send_pending t = Ok t' \<and> rep (gc_free_ids t') n f' \<and> gc_cycles t' = gc_cycles t
    \<and> mset (f_items f') + mset (gc_pending t') = mset (f_items f) + mset (gc_pending t)"
proof (cases "gc_pending t = [] \<or> available (gc_free_ids t) = 0")
  case True
  then show ?thesis using assms(1) by (intro exI [of _ t] exI [of _ f]) (auto simp: send_pending_def Let_def)
next
  case False
  let ?start = "length (gc_pending t) - min (available (gc_free_ids t)) (length (gc_pending t))"
  let ?xs = "drop ?start (gc_pending t)"
  have "pos (n + length (f_items f) + length ?xs) \<le> pos (n + length (f_items f) + length (gc_pending t))" by (rule pos_mono) simp
  then have push: "if f_closed f then push_slice (gc_free_ids t) ?xs = Err (PushClosed ())
    else \<exists>q'. push_slice (gc_free_ids t) ?xs = Ok q' \<and> rep q' n (f\<lparr>f_items := f_items f @ ?xs\<rparr>)"
    using assms(2) by (intro push_available [OF assms(1)]) auto
  have send: "send_pending t = (case push_slice (gc_free_ids t) ?xs of
       Err _ \<Rightarrow> Ok t
     | Ok q \<Rightarrow> Ok (t\<lparr>gc_free_ids := q, gc_pending := take ?start (gc_pending t)\<rparr>)
     | Panic \<Rightarrow> Panic)"
    using False by (simp add: send_pending_def Let_def)
  show ?thesis
  proof (cases "f_closed f")
    case True
    with push assms(1) show ?thesis by (intro exI [of _ t] exI [of _ f]) (simp add: send)
  next
    case False
    then obtain q' where q': "push_slice (gc_free_ids t) ?xs = Ok q'" "rep q' n (f\<lparr>f_items := f_items f @ ?xs\<rparr>)" using push by auto
    have "mset (f_items f @ ?xs) + mset (take ?start (gc_pending t)) = mset (f_items f) + mset (gc_pending t)"
    proof -
      have "mset (gc_pending t) = mset (take ?start (gc_pending t)) + mset ?xs" by (simp flip: mset_append)
      then show ?thesis by simp
    qed
    with q' show ?thesis
      by (intro exI [of _ "t\<lparr>gc_free_ids := q', gc_pending := take ?start (gc_pending t)\<rparr>"] exI [of _ "f\<lparr>f_items := f_items f @ ?xs\<rparr>"])
        (simp add: send del: mset_append)
  qed
qed

lemma gc_run_ok:
  assumes "never_panics X" and "gc_cycles t \<noteq> []" and "rep (gc_free_ids t) n f"
    and "pos (n + length (f_items f) + length (gc_pending t) + sizes (gc_cycles t) + command_ids cs) < 2 ^ 63"
  shows "\<exists>t' f' freed. gc_run X cs t = Ok t' \<and> cycles_run X cs (gc_cycles t) = Ok (freed, gc_cycles t') \<and> rep (gc_free_ids t') n f'
    \<and> mset (f_items f') + mset (gc_pending t') = mset (f_items f) + mset (gc_pending t) + mset freed"
  using assms(2-)
proof (induction cs arbitrary: t f)
  case (Cons c cs)
  have conserve: "length xs + length ys = length xs' + length ys' + length zs"
    if "mset xs + mset ys = mset xs' + mset ys' + mset zs" for xs ys xs' ys' zs :: "hash_id list"
    using arg_cong [OF that, of size] by simp
  show ?case
  proof (cases c)
    case (StartNewCycle vs new_ids)
    let ?new = "with_new_ids new_ids vs" and ?unused = "map fst (hd (gc_cycles t))"
    let ?t = "t\<lparr>gc_cycles := tl (gc_cycles t) @ [?new]\<rparr>"
    have sz: "sizes (gc_cycles t) = length ?unused + sizes (tl (gc_cycles t))" using Cons.prems(1) by (cases "gc_cycles t") auto
    have "pos (n + length (f_items f) + length ?unused) \<le> pos (n + length (f_items f) + length (gc_pending t) + sizes (gc_cycles t) + command_ids (c # cs))"
      by (rule pos_mono) (simp add: sz)
    then obtain t1 f1 where s: "send_unused ?unused ?t = Ok t1" "rep (gc_free_ids t1) n f1" "gc_cycles t1 = gc_cycles ?t"
      "mset (f_items f1) + mset (gc_pending t1) = mset (f_items f) + mset (gc_pending t) + mset ?unused"
      using send_unused_ok [of ?t n f ?unused] Cons.prems(2,3) by auto
    have "pos (n + length (f_items f1) + length (gc_pending t1) + sizes (gc_cycles t1) + command_ids cs)
      \<le> pos (n + length (f_items f) + length (gc_pending t) + sizes (gc_cycles t) + command_ids (c # cs))"
      by (rule pos_mono) (use conserve [OF s(4)] s(3) sz with_new_ids_length [of new_ids vs] StartNewCycle in simp)
    then obtain t' f' freed where r: "gc_run X cs t1 = Ok t'" "cycles_run X cs (gc_cycles t1) = Ok (freed, gc_cycles t')" "rep (gc_free_ids t') n f'"
      "mset (f_items f') + mset (gc_pending t') = mset (f_items f1) + mset (gc_pending t1) + mset freed"
      using Cons.IH [of t1 f1] s(2,3) Cons.prems(3) by fastforce
    then show ?thesis
      using s StartNewCycle Cons.prems(1)
      by (intro exI [of _ t'] exI [of _ f'] exI [of _ "?unused @ freed"]) (simp add: start_new_cycle_def roll_eq)
  next
    case (MarkReused reused)
    obtain stores where m: "mark_loop X reused (gc_cycles t) = Ok stores" "stores \<noteq> []" "sizes stores \<le> sizes (gc_cycles t)"
      using mark_loop_sizes [OF assms(1) Cons.prems(1)] by blast
    let ?t = "t\<lparr>gc_cycles := stores\<rparr>"
    have "pos (n + length (f_items f) + length (gc_pending t)) \<le> pos (n + length (f_items f) + length (gc_pending t) + sizes (gc_cycles t) + command_ids (c # cs))"
      by (rule pos_mono) simp
    then obtain t1 f1 where s: "send_pending ?t = Ok t1" "rep (gc_free_ids t1) n f1" "gc_cycles t1 = stores"
      "mset (f_items f1) + mset (gc_pending t1) = mset (f_items f) + mset (gc_pending t)"
      using send_pending_ok [of ?t n f] Cons.prems(2,3) by auto
    have "pos (n + length (f_items f1) + length (gc_pending t1) + sizes (gc_cycles t1) + command_ids cs)
      \<le> pos (n + length (f_items f) + length (gc_pending t) + sizes (gc_cycles t) + command_ids (c # cs))"
      by (rule pos_mono) (use conserve [of "f_items f1" "gc_pending t1" "f_items f" "gc_pending t" "[]"] s(3,4) m(3) MarkReused in simp)
    then obtain t' f' freed where r: "gc_run X cs t1 = Ok t'" "cycles_run X cs (gc_cycles t1) = Ok (freed, gc_cycles t')" "rep (gc_free_ids t') n f'"
      "mset (f_items f') + mset (gc_pending t') = mset (f_items f1) + mset (gc_pending t1) + mset freed"
      using Cons.IH [of t1 f1] s(2,3) m(2) Cons.prems(3) by fastforce
    then show ?thesis
      using s m MarkReused by (intro exI [of _ t'] exI [of _ f'] exI [of _ freed]) (simp add: mark_reused_def)
  qed
qed (auto intro!: exI)

end

section \<open>The account of the ids\<close>

text \<open>
  The ids of the cycles and the ids that commands announce, each as often as it is there; the ids that
  stored values refer to; and the ids that are never stored without a value.
\<close>

definition store_ids :: "cycle_map list \<Rightarrow> hash_id multiset" where
  "store_ids stores = sum_list (map (\<lambda>s. mset (map fst s)) stores)"

definition new_cycle_ids :: "cycle_map \<Rightarrow> hash_id list \<Rightarrow> hash_id multiset" where
  "new_cycle_ids vs new_ids = mset (map fst vs) + mset_set (set new_ids - fst ` set vs)"

fun announced_ids :: "gc_command list \<Rightarrow> hash_id multiset" where
  "announced_ids [] = {#}"
| "announced_ids (StartNewCycle vs new_ids # cs) = new_cycle_ids vs new_ids + announced_ids cs"
| "announced_ids (MarkReused reused # cs) = announced_ids cs"

definition store_refers :: "context_crates \<Rightarrow> cycle_map \<Rightarrow> hash_id \<Rightarrow> bool" where
  "store_refers X s h \<longleftrightarrow> (\<exists>(k, value) \<in> set s. \<exists>v \<in> set_option value. h \<in> set (below X v))"

fun commands_refer :: "context_crates \<Rightarrow> gc_command list \<Rightarrow> hash_id \<Rightarrow> bool" where
  "commands_refer X [] h \<longleftrightarrow> False"
| "commands_refer X (StartNewCycle vs new_ids # cs) h \<longleftrightarrow> store_refers X vs h \<or> commands_refer X cs h"
| "commands_refer X (MarkReused reused # cs) h \<longleftrightarrow> h \<in> set reused \<or> commands_refer X cs h"

definition store_values :: "cycle_map \<Rightarrow> hash_id \<Rightarrow> bool" where
  "store_values s h \<longleftrightarrow> map_of s h \<noteq> Some None"

fun commands_value :: "gc_command list \<Rightarrow> hash_id \<Rightarrow> bool" where
  "commands_value [] h \<longleftrightarrow> True"
| "commands_value (StartNewCycle vs new_ids # cs) h \<longleftrightarrow>
     store_values vs h \<and> (h \<in> set new_ids \<longrightarrow> map_of vs h \<noteq> None) \<and> commands_value cs h"
| "commands_value (MarkReused reused # cs) h \<longleftrightarrow> commands_value cs h"

lemma store_ids_simps [simp]:
  "store_ids [] = {#}" "store_ids (s # ss) = mset (map fst s) + store_ids ss" "store_ids (ss @ ts) = store_ids ss + store_ids ts"
  by (simp_all add: store_ids_def)

lemma store_ids_last: "stores \<noteq> [] \<Longrightarrow> store_ids stores = store_ids (butlast stores) + mset (map fst (last stores))"
  using store_ids_simps(3) [of "butlast stores" "[last stores]"] by simp

lemma in_store_ids: "h \<in># store_ids stores \<longleftrightarrow> (\<exists>s \<in> set stores. map_of s h \<noteq> None)"
  by (induction stores) (auto simp: map_of_eq_None_iff)

lemma count_remove: "count (mset (map fst (alist_remove a s))) h = (if h = a then 0 else count (mset (map fst s)) h)"
  by (induction s) (auto simp: alist_remove_def)

lemma count_removes: "count (store_ids (map (alist_remove a) stores)) h = (if h = a then 0 else count (store_ids stores) h)"
proof (induction stores)
  case (Cons s stores)
  then show ?case using count_remove [of a s h] by simp
qed simp

lemma count_insert:
  "count (mset (map fst (alist_insert a v s))) h \<le> count (mset (map fst s)) h + (if h = a then 1 else 0)"
  "h \<noteq> a \<Longrightarrow> count (mset (map fst (alist_insert a v s))) h = count (mset (map fst s)) h"
  by (induction a v s rule: alist_insert.induct) auto

lemma older_value_in:
  assumes "older_value stores h = Some v"
  shows "\<exists>s \<in> set (butlast stores). (h, Some v) \<in> set s"
proof -
  have "fst (take_out h ss found) = Some v \<Longrightarrow> found = Some v \<or> (\<exists>s \<in> set ss. (h, Some v) \<in> set s)" for ss found
    by (induction h ss found rule: take_out.induct)
      (auto simp: Let_def split_beta dest: map_of_SomeD split: option.splits)
  from this [of "butlast stores" None] assms show ?thesis by (simp add: older_value_def)
qed

lemma older_value_values:
  assumes "older_value stores h = None" and "\<forall>s \<in> set stores. store_values s h"
  shows "h \<notin># store_ids (butlast stores)"
proof -
  have some: "fst (take_out h ss (Some x)) \<noteq> None" for ss x
    by (induction ss arbitrary: x) (auto simp: Let_def split_beta split: option.splits)
  have "fst (take_out h ss None) = None \<Longrightarrow> \<forall>s \<in> set ss. store_values s h \<Longrightarrow> \<forall>s \<in> set ss. map_of s h = None" for ss
  proof (induction ss)
    case (Cons s ss)
    have "map_of s h = None"
    proof (rule ccontr)
      assume "map_of s h \<noteq> None"
      then obtain x where "map_of s h = Some (Some x)" using Cons.prems(2) by (auto simp: store_values_def)
      with some [of ss x] Cons.prems(1) show False by (simp add: Let_def split_beta)
    qed
    with Cons show ?case by (simp add: Let_def split_beta)
  qed simp
  from this [of "butlast stores"] assms show ?thesis
    by (auto simp: older_value_def in_store_ids dest: in_set_butlastD)
qed

lemma store_refers_remove: "store_refers X (alist_remove a s) h \<Longrightarrow> store_refers X s h"
  by (auto simp: store_refers_def alist_remove_def)

lemma set_insert_subset: "set (alist_insert a v s) \<subseteq> insert (a, v) (set s)"
  by (induction a v s rule: alist_insert.induct) auto

lemma store_refers_insert: "store_refers X (alist_insert a (Some v) s) h \<Longrightarrow> store_refers X s h \<or> h \<in> set (below X v)"
  using set_insert_subset [of a "Some v" s] by (fastforce simp: store_refers_def)

lemma store_values_simps:
  "store_values s h \<Longrightarrow> store_values (alist_remove a s) h"
  "store_values s h \<Longrightarrow> store_values (alist_insert a (Some v) s) h"
  by (simp_all add: store_values_def map_of_alist_remove)

text \<open>What marking does to the account of one id.\<close>

lemma mark_loop_account:
  assumes "never_panics X" and "stores \<noteq> []"
  shows "\<exists>stores'. mark_loop X reused stores = Ok stores' \<and> stores' \<noteq> []
    \<and> count (store_ids stores') h \<le> count (store_ids stores) h
    \<and> (h \<notin> set reused \<longrightarrow> (\<forall>s \<in> set stores. \<not> store_refers X s h) \<longrightarrow> count (store_ids stores') h = count (store_ids stores) h
         \<and> map (\<lambda>s. map_of s h) stores' = map (\<lambda>s. map_of s h) stores)
    \<and> ((\<forall>s \<in> set stores. \<not> store_refers X s h) \<longrightarrow> (\<forall>s \<in> set stores'. \<not> store_refers X s h))
    \<and> ((\<forall>s \<in> set stores. store_values s h) \<longrightarrow> (\<forall>s \<in> set stores'. store_values s h)
         \<and> (h \<in># store_ids stores \<longrightarrow> h \<in># store_ids stores'))"
    (is "\<exists>stores'. _ \<and> _ \<and> ?P reused stores stores'")
  using assms
proof (induction rule: mark_loop_induct)
  case (stop stores)
  then show ?case by (simp add: mark_loop.simps)
next
  case (skip reused stores)
  let ?a = "last reused"
  let ?stores = "map (alist_remove ?a) (butlast stores) @ [last stores]"
  have in_stores: "s \<in> set (butlast stores) \<or> s = last stores \<Longrightarrow> s \<in> set stores" for s
    using skip(2) by (auto dest: in_set_butlastD)
  obtain stores' where m: "mark_loop X (butlast reused) ?stores = Ok stores'" "stores' \<noteq> []" "?P (butlast reused) ?stores stores'"
    using skip.IH by blast
  have le: "count (store_ids ?stores) h \<le> count (store_ids stores) h"
    by (simp add: store_ids_last [OF skip(2)] count_removes)
  have ne: "h \<notin> set reused \<Longrightarrow> h \<noteq> ?a \<and> h \<notin> set (butlast reused)"
    using skip(1) by (auto dest: in_set_butlastD)
  have eq: "h \<noteq> ?a \<Longrightarrow> count (store_ids ?stores) h = count (store_ids stores) h"
    by (simp add: store_ids_last [OF skip(2)] count_removes)
  have same: "map (\<lambda>s. map_of s h) ?stores = map (\<lambda>s. map_of s h) stores" if "h \<noteq> ?a"
    using that arg_cong [OF append_butlast_last_id [OF skip(2)], of "map (\<lambda>s. map_of s h)"] by (simp add: map_of_alist_remove comp_def)
  have ref: "\<forall>s \<in> set stores. \<not> store_refers X s h \<Longrightarrow> \<forall>s \<in> set ?stores. \<not> store_refers X s h"
    using in_stores store_refers_remove by fastforce
  have val: "\<forall>s \<in> set stores. store_values s h \<Longrightarrow> (\<forall>s \<in> set ?stores. store_values s h) \<and> (h \<in># store_ids stores \<longrightarrow> h \<in># store_ids ?stores)"
    using in_stores store_values_simps(1) older_value_values [OF skip(3)] eq
    by (cases "h = ?a") (auto simp: store_ids_last [OF skip(2)] count_greater_zero_iff [symmetric] simp del: count_greater_zero_iff)
  have "?P reused stores stores'" using m(3) le ne eq same ref val by (smt (verit) le_trans)
  moreover have "mark_loop X reused stores = Ok stores'" using mark_loop_step [OF assms(1) skip(2,1)] skip(3) m(1) by simp
  ultimately show ?case using m(2) by blast
next
  case (move reused stores v)
  let ?a = "last reused"
  let ?stores = "map (alist_remove ?a) (butlast stores) @ [alist_insert ?a (Some v) (last stores)]"
  have in_stores: "s \<in> set (butlast stores) \<or> s = last stores \<Longrightarrow> s \<in> set stores" for s
    using move(2) by (auto dest: in_set_butlastD)
  obtain s0 where s0: "s0 \<in> set (butlast stores)" "(?a, Some v) \<in> set s0" using older_value_in [OF move(3)] by blast
  obtain stores' where m: "mark_loop X (butlast reused @ below X v) ?stores = Ok stores'" "stores' \<noteq> []"
    "?P (butlast reused @ below X v) ?stores stores'"
    using move.IH by blast
  have "?a \<in># store_ids (butlast stores)" using s0 by (force simp: in_store_ids map_of_eq_None_iff)
  then have pos: "1 \<le> count (store_ids (butlast stores)) ?a" by (simp add: Suc_le_eq)
  have le: "count (store_ids ?stores) h \<le> count (store_ids stores) h"
  proof (cases "h = ?a")
    case True
    have "count (store_ids ?stores) ?a = count (mset (map fst (alist_insert ?a (Some v) (last stores)))) ?a"
      by (simp add: count_removes)
    also have "\<dots> \<le> count (mset (map fst (last stores))) ?a + 1"
      using count_insert(1) [of ?a "Some v" "last stores" ?a] by simp
    also have "\<dots> \<le> count (store_ids stores) ?a" unfolding store_ids_last [OF move(2)] using pos by simp
    finally show ?thesis using True by simp
  qed (simp add: count_insert(2) count_removes store_ids_last [OF move(2)] del: mset_map)
  have ne: "h \<notin> set reused \<Longrightarrow> h \<noteq> ?a \<and> h \<notin> set (butlast reused)"
    using move(1) by (auto dest: in_set_butlastD)
  have below_ref: "\<forall>s \<in> set stores. \<not> store_refers X s h \<Longrightarrow> h \<notin> set (below X v)"
    using s0 in_stores by (fastforce simp: store_refers_def)
  have eq: "h \<noteq> ?a \<Longrightarrow> count (store_ids ?stores) h = count (store_ids stores) h"
    using count_insert(2) [of h ?a "Some v" "last stores"] by (simp add: store_ids_last [OF move(2)] count_removes)
  have same: "map (\<lambda>s. map_of s h) ?stores = map (\<lambda>s. map_of s h) stores" if "h \<noteq> ?a"
    using that arg_cong [OF append_butlast_last_id [OF move(2)], of "map (\<lambda>s. map_of s h)"] by (simp add: map_of_alist_remove comp_def)
  have ref: "\<forall>s \<in> set stores. \<not> store_refers X s h \<Longrightarrow> \<forall>s \<in> set ?stores. \<not> store_refers X s h"
    using in_stores store_refers_remove store_refers_insert below_ref by fastforce
  have here: "?a \<in># store_ids ?stores"
    unfolding in_store_ids by (rule bexI [of _ "alist_insert ?a (Some v) (last stores)"]) simp_all
  have val: "\<forall>s \<in> set stores. store_values s h \<Longrightarrow> (\<forall>s \<in> set ?stores. store_values s h) \<and> (h \<in># store_ids stores \<longrightarrow> h \<in># store_ids ?stores)"
    using in_stores store_values_simps here eq
    by (cases "h = ?a") (auto simp: count_greater_zero_iff [symmetric] simp del: count_greater_zero_iff store_ids_simps)
  have "?P reused stores stores'" using m(3) le ne eq same ref val below_ref by (smt (verit) le_trans set_append Un_iff)
  moreover have "mark_loop X reused stores = Ok stores'" using mark_loop_step [OF assms(1) move(2,1)] move(3) m(1) by simp
  ultimately show ?case using m(2) by blast
qed

lemma keys_insert_new: "map_of s a = None \<Longrightarrow> mset (map fst (alist_insert a v s)) = add_mset a (mset (map fst s))"
  by (induction a v s rule: alist_insert.induct) (auto split: if_splits)

lemma with_new_ids_map_of:
  "map_of (with_new_ids new_ids vs) h =
     (case map_of vs h of Some v \<Rightarrow> Some v | None \<Rightarrow> if h \<in> set new_ids then Some None else None)"
  by (induction new_ids arbitrary: vs) (auto simp: with_new_ids_def split: option.splits)

lemma with_new_ids_keys: "mset (map fst (with_new_ids new_ids vs)) = new_cycle_ids vs new_ids"
proof (induction new_ids arbitrary: vs)
  case (Cons a new_ids)
  show ?case
  proof (cases "map_of vs a")
    case None
    have "set (alist_insert a None vs) = insert (a, None) (set vs)"
      using None by (induction a "None :: bytes option" vs rule: alist_insert.induct) (auto split: if_splits)
    then have keys: "fst ` set (alist_insert a None vs) = insert a (fst ` set vs)" by simp
    have "set (a # new_ids) - fst ` set vs = insert a (set new_ids - insert a (fst ` set vs))"
      using None by (auto simp: map_of_eq_None_iff)
    then have "mset_set (set (a # new_ids) - fst ` set vs) = add_mset a (mset_set (set new_ids - insert a (fst ` set vs)))"
      by simp
    then show ?thesis
      using None Cons.IH [of "alist_insert a None vs"] keys keys_insert_new [OF None, of None]
      by (simp add: with_new_ids_def new_cycle_ids_def)
  next
    case (Some v)
    then have "a \<in> fst ` set vs" by (metis domI dom_map_of_conv_image_fst)
    with Some Cons.IH [of vs] show ?thesis by (simp add: with_new_ids_def new_cycle_ids_def insert_Diff_if)
  qed
qed (simp add: with_new_ids_def new_cycle_ids_def)

lemma with_new_ids_set: "set (with_new_ids new_ids vs) \<subseteq> set vs \<union> {(h, None) | h. h \<in> set new_ids}"
proof (induction new_ids arbitrary: vs)
  case (Cons a new_ids)
  let ?vs = "case map_of vs a of Some _ \<Rightarrow> vs | None \<Rightarrow> alist_insert a None vs"
  have "set ?vs \<subseteq> insert (a, None) (set vs)" using set_insert_subset [of a None vs] by (auto split: option.splits)
  with Cons.IH [of ?vs] show ?case by (fastforce simp: with_new_ids_def)
qed (simp add: with_new_ids_def)

lemma new_store_refers: "store_refers X (with_new_ids new_ids vs) h \<Longrightarrow> store_refers X vs h"
  using with_new_ids_set [of new_ids vs] by (fastforce simp: store_refers_def)

text \<open>What a sequence of commands does to the account of one id.\<close>

lemma cycles_run_induct [consumes 3, case_names stop start mark]:
  assumes "never_panics X" and "stores \<noteq> []" and "cycles_run X cs stores = Ok (freed, stores')"
    and "P [] stores' []"
    and "\<And>vs new_ids cs stores freed. stores \<noteq> [] \<Longrightarrow> P cs (tl stores @ [with_new_ids new_ids vs]) freed \<Longrightarrow>
      P (StartNewCycle vs new_ids # cs) stores (map fst (hd stores) @ freed)"
    and "\<And>reused cs stores stores1 freed. stores \<noteq> [] \<Longrightarrow> mark_loop X reused stores = Ok stores1 \<Longrightarrow> P cs stores1 freed \<Longrightarrow>
      P (MarkReused reused # cs) stores freed"
  shows "P cs stores freed"
  using assms(2,3)
proof (induction cs arbitrary: stores freed)
  case (Cons c cs)
  show ?case
  proof (cases c)
    case (StartNewCycle vs new_ids)
    then obtain freed1 where "freed = map fst (hd stores) @ freed1" "cycles_run X cs (tl stores @ [with_new_ids new_ids vs]) = Ok (freed1, stores')"
      using Cons.prems by (auto simp: roll_eq)
    with Cons.IH [of "tl stores @ [with_new_ids new_ids vs]" freed1] assms(5) [OF Cons.prems(1)] StartNewCycle show ?thesis by simp
  next
    case (MarkReused reused)
    then obtain stores1 where "mark_loop X reused stores = Ok stores1" "cycles_run X cs stores1 = Ok (freed, stores')"
      using Cons.prems(2) by auto
    with Cons.IH [of stores1 freed] assms(6) [OF Cons.prems(1)] MarkReused mark_loop_account [OF assms(1) Cons.prems(1), of reused]
    show ?thesis by auto
  qed
qed (use assms(4) in simp)

lemma roll_ids:
  "stores \<noteq> [] \<Longrightarrow> count (store_ids (tl stores)) h + count (mset (map fst (hd stores))) h = count (store_ids stores) h"
  by (cases stores) simp_all

lemma cycles_none_invented:
  assumes "never_panics X" and "stores \<noteq> []" and "cycles_run X cs stores = Ok (freed, stores')"
  shows "count (mset freed + store_ids stores') h \<le> count (store_ids stores + announced_ids cs) h"
  using assms
proof (induction rule: cycles_run_induct)
  case (start vs new_ids cs stores freed)
  then show ?case using roll_ids [of stores h] by (simp add: with_new_ids_keys del: mset_map)
next
  case (mark reused cs stores stores1 freed)
  then show ?case using mark_loop_account [OF assms(1) mark(1), of reused h] by auto
qed simp

lemma cycles_unmarked:
  assumes "never_panics X" and "stores \<noteq> []" and "cycles_run X cs stores = Ok (freed, stores')"
  shows "\<not> commands_refer X cs h \<longrightarrow> (\<forall>s \<in> set stores. \<not> store_refers X s h) \<longrightarrow>
      count (mset freed + store_ids stores') h = count (store_ids stores + announced_ids cs) h
      \<and> (h \<notin># announced_ids cs \<longrightarrow>
          map (\<lambda>s. map_of s h) stores' = drop (starts cs) (map (\<lambda>s. map_of s h) stores @ replicate (starts cs) None))"
    (is "_ \<longrightarrow> _ \<longrightarrow> ?C cs stores freed")
  using assms
proof (induction rule: cycles_run_induct)
  case (start vs new_ids cs stores freed)
  have refers: "\<forall>s \<in> set (tl stores @ [with_new_ids new_ids vs]). \<not> store_refers X s h"
    if "\<forall>s \<in> set stores. \<not> store_refers X s h" "\<not> store_refers X vs h"
    using that new_store_refers [of X new_ids vs h] by (auto dest: list.set_sel(2) [OF start(1)])
  have new: "map_of (with_new_ids new_ids vs) h = None" if "h \<notin># new_cycle_ids vs new_ids"
    using that by (auto simp: map_of_eq_None_iff simp flip: with_new_ids_keys)
  obtain s ss where stores: "stores = s # ss" using start(1) by (cases stores) auto
  show ?case
  proof (intro impI)
    assume un: "\<not> commands_refer X (StartNewCycle vs new_ids # cs) h" "\<forall>s \<in> set stores. \<not> store_refers X s h"
    note IH = start(2) [rule_format, OF _ bspec [OF refers [OF un(2)]]]
    have "count (mset freed + store_ids stores') h = count (store_ids (tl stores @ [with_new_ids new_ids vs]) + announced_ids cs) h"
      using IH un(1) by simp
    then have "count (mset (map fst (hd stores) @ freed) + store_ids stores') h = count (store_ids stores + announced_ids (StartNewCycle vs new_ids # cs)) h"
      using roll_ids [OF start(1), of h] by (simp add: with_new_ids_keys del: mset_map)
    moreover have "map (\<lambda>s. map_of s h) stores' =
        drop (starts (StartNewCycle vs new_ids # cs)) (map (\<lambda>s. map_of s h) stores @ replicate (starts (StartNewCycle vs new_ids # cs)) None)"
      if "h \<notin># announced_ids (StartNewCycle vs new_ids # cs)"
      using IH un(1) new that by (simp add: stores)
    ultimately show "?C (StartNewCycle vs new_ids # cs) stores (map fst (hd stores) @ freed)" by blast
  qed
next
  case (mark reused cs stores stores1 freed)
  then show ?case using mark_loop_account [OF assms(1) mark(1), of reused h] by (auto simp del: drop_append)
qed simp

lemma cycles_valued:
  assumes "never_panics X" and "stores \<noteq> []" and "cycles_run X cs stores = Ok (freed, stores')"
  shows "commands_value cs h \<longrightarrow> (\<forall>s \<in> set stores. store_values s h) \<longrightarrow>
      h \<in># store_ids stores + announced_ids cs \<longrightarrow> h \<in># mset freed + store_ids stores'"
  using assms
proof (induction rule: cycles_run_induct)
  case (start vs new_ids cs stores freed)
  have valued: "\<forall>s \<in> set (tl stores @ [with_new_ids new_ids vs]). store_values s h"
    if "\<forall>s \<in> set stores. store_values s h" "commands_value (StartNewCycle vs new_ids # cs) h"
    using that by (auto simp: store_values_def with_new_ids_map_of dest: list.set_sel(2) [OF start(1)] split: option.splits)
  have "h \<in># store_ids stores \<longleftrightarrow> h \<in># store_ids (tl stores) \<or> h \<in> set (map fst (hd stores))"
    using start(1) by (cases stores) auto
  then show ?case using start(2) valued by (auto simp: with_new_ids_keys simp del: mset_map)
next
  case (mark reused cs stores stores1 freed)
  then show ?case using mark_loop_account [OF assms(1) mark(1), of reused h] by auto
qed simp

definition gc_ids :: "gc_thread \<Rightarrow> hash_id fifo \<Rightarrow> hash_id multiset" where
  \<comment> \<open>everything the collector holds: the queue of free ids, the ids that wait for room in it, the cycles\<close>
  "gc_ids t f = mset (f_items f) + mset (gc_pending t) + store_ids (gc_cycles t)"

section \<open>Properties\<close>

text \<open>
  C22. The collector accounts for every id. The ids it holds are those of the queue of free ids, of the ids that wait for
  room in it and of the cycles; the ids it is given are those it held before and those that the commands
  announce. Whatever commands it handles, it returns, and it holds no id more often than it was given, so
  that it invents none and hands none back twice that was given once. An id that no command marks and no
  stored entry refers to is held exactly as often as it was given, and once as many cycles have started as
  the collector keeps, without announcing it again, it has been handed back that often or waits for room
  in the queue. An id that is always given with a value is never lost, marked or not.
\<close>

theorem gc_conserves_ids:
  assumes "ring cap k" and "never_panics X" and "gc_cycles t \<noteq> []" and "ring.rep cap k (gc_free_ids t) n f"
    and "position cap (2 ^ k) (n + length (f_items f) + length (gc_pending t) + sizes (gc_cycles t) + command_ids cs) < 2 ^ 63"
  shows "\<exists>t' f'. gc_run X cs t = Ok t' \<and> ring.rep cap k (gc_free_ids t') n f'
    \<and> gc_ids t' f' \<subseteq># gc_ids t f + announced_ids cs
    \<and> (\<forall>h. \<not> commands_refer X cs h \<longrightarrow> (\<forall>s \<in> set (gc_cycles t). \<not> store_refers X s h) \<longrightarrow>
          count (gc_ids t' f') h = count (gc_ids t f + announced_ids cs) h
          \<and> (h \<notin># announced_ids cs \<longrightarrow> length (gc_cycles t) \<le> starts cs \<longrightarrow>
               count (mset (f_items f') + mset (gc_pending t')) h = count (gc_ids t f) h))
    \<and> (\<forall>h. commands_value cs h \<longrightarrow> (\<forall>s \<in> set (gc_cycles t). store_values s h) \<longrightarrow>
          h \<in># gc_ids t f + announced_ids cs \<longrightarrow> h \<in># gc_ids t' f')"
proof -
  obtain t' f' freed where r: "gc_run X cs t = Ok t'" "cycles_run X cs (gc_cycles t) = Ok (freed, gc_cycles t')"
    "ring.rep cap k (gc_free_ids t') n f'"
    "mset (f_items f') + mset (gc_pending t') = mset (f_items f) + mset (gc_pending t) + mset freed"
    using ring.gc_run_ok [OF assms] by blast
  note run = assms(2,3) r(2)
  have ids: "gc_ids t' f' = mset (f_items f) + mset (gc_pending t) + (mset freed + store_ids (gc_cycles t'))"
    unfolding gc_ids_def r(4) by (simp add: ac_simps)
  have le: "gc_ids t' f' \<subseteq># gc_ids t f + announced_ids cs"
    unfolding ids unfolding gc_ids_def subseteq_mset_def using cycles_none_invented [OF run] by simp
  have un: "count (gc_ids t' f') h = count (gc_ids t f + announced_ids cs) h
      \<and> (h \<notin># announced_ids cs \<longrightarrow> length (gc_cycles t) \<le> starts cs \<longrightarrow>
           count (mset (f_items f') + mset (gc_pending t')) h = count (gc_ids t f) h)"
    if "\<not> commands_refer X cs h" "\<forall>s \<in> set (gc_cycles t). \<not> store_refers X s h" for h
  proof -
    note u = cycles_unmarked [OF run, of h, rule_format, OF that(1) bspec [OF that(2)]]
    have all: "count (gc_ids t' f') h = count (gc_ids t f + announced_ids cs) h"
      unfolding ids unfolding gc_ids_def using u by simp
    have "count (store_ids (gc_cycles t')) h = 0" if "h \<notin># announced_ids cs" "length (gc_cycles t) \<le> starts cs"
    proof -
      have "set (map (\<lambda>s. map_of s h) (gc_cycles t')) \<subseteq> {None}" using u that by auto
      then show ?thesis by (auto simp: in_store_ids simp flip: not_in_iff)
    qed
    then show ?thesis using all by (auto simp: gc_ids_def not_in_iff)
  qed
  have "h \<in># gc_ids t' f'"
    if "commands_value cs h" "\<forall>s \<in> set (gc_cycles t). store_values s h" "h \<in># gc_ids t f + announced_ids cs" for h
    using that(3) cycles_valued [OF run, of h, rule_format, OF that(1) bspec [OF that(2)]] unfolding ids
    by (auto simp: gc_ids_def)
  with r(1,3) le un show ?thesis by (intro exI [of _ t'] exI [of _ f'] conjI allI impI) simp_all
qed

text \<open>The other ids can be lost: one that has no value and is marked is dropped from the cycles.\<close>

theorem marked_without_value_lost:
  "mark_loop X [h] [[(h, None)], []] = Ok [[], []]"
  by (simp add: mark_loop.simps [of X "[h]"] mark_loop.simps [of X "[]"] move_to_last_cycle_def alist_remove_def Let_def)

definition new_thread :: "hash_id queue \<Rightarrow> gc_thread" where
  \<comment> \<open>the thread that \<open>InMemory::new\<close> starts\<close>
  "new_thread q = \<lparr>gc_cycles = cycles_default, gc_free_ids = q, gc_pending = []\<rparr>"

abbreviation empty_cycles :: "nat \<Rightarrow> gc_command list" where
  "empty_cycles n \<equiv> replicate n (StartNewCycle [] [])"

lemma command_ids_empty [simp]: "command_ids (empty_cycles n) = 0"
  by (induction n) simp_all

lemma two_slots:
  obtains q :: "hash_id queue" where "ring 2 2" "new_queue 2 = Ok q" "ring.rep 2 2 q 0 \<lparr>f_items = [], f_closed = False\<rparr>"
proof -
  obtain k and q :: "hash_id queue" where k: "ring 2 k" "next_power_of_two (2 + 1) = 2 ^ k" "new_queue 2 = Ok q"
    "ring.rep 2 k q 0 \<lparr>f_items = [], f_closed = False\<rparr>"
    using new_queue_ring [of 2] by auto
  have "(2 :: nat) ^ k = 2 ^ 2" using k(2) by (simp add: next_power_of_two_def next_power_of_two_from.simps)
  then have "k = 2" by (simp only: power_inject_exp)
  with k that show ?thesis by blast
qed

lemma crates_ref_never_panics: "never_panics crates_ref"
  by (simp add: never_panics_def crates_ref_def)

lemma below_ref_blob: "below crates_ref (enc_entry (DBlob b)) = []"
  using context_crates_laws.bincode_roundtrip [OF ctx_ref.context_crates_laws_axioms, of "DBlob b"]
  by (simp add: below_def crates_ref_def)

theorem gc_conserves_ids_witness:
  "\<exists>q t' f'. new_queue 2 = Ok q
    \<and> gc_run crates_ref (empty_cycles 7) \<lparr>gc_cycles = [[(1, None)], [], [], [], [], [], [(2, Some (enc_entry (DBlob [7])))]], gc_free_ids = q, gc_pending = [3]\<rparr> = Ok t'
    \<and> ring.rep 2 2 (gc_free_ids t') 0 f' \<and> gc_ids t' f' \<subseteq># {#1, 2, 3#}
    \<and> count (mset (f_items f') + mset (gc_pending t')) 1 = 1 \<and> 2 \<in># gc_ids t' f'"
proof -
  obtain q :: "hash_id queue" where q: "ring 2 2" "new_queue 2 = Ok q" "ring.rep 2 2 q 0 \<lparr>f_items = [], f_closed = False\<rparr>"
    by (rule two_slots)
  let ?t = "\<lparr>gc_cycles = [[(1, None)], [], [], [], [], [], [(2, Some (enc_entry (DBlob [7])))]], gc_free_ids = q, gc_pending = [3]\<rparr>"
  let ?f = "\<lparr>f_items = [], f_closed = False\<rparr> :: hash_id fifo"
  have cs: "announced_ids (empty_cycles n) = {#}" "starts (empty_cycles n) = n" "\<not> commands_refer crates_ref (empty_cycles n) h"
    "commands_value (empty_cycles n) h" for n h
    by (induction n) (simp_all add: new_cycle_ids_def store_refers_def store_values_def)
  have ids: "gc_ids ?t ?f = {#1, 2, 3#}" by (simp add: gc_ids_def add_mset_commute)
  have refers: "\<forall>s \<in> set (gc_cycles ?t). \<not> store_refers crates_ref s 1" by (auto simp: store_refers_def below_ref_blob simp del: enc_entry.simps)
  have valued: "\<forall>s \<in> set (gc_cycles ?t). store_values s 2" by (simp add: store_values_def)
  obtain t' f' where r: "gc_run crates_ref (empty_cycles 7) ?t = Ok t'" "ring.rep 2 2 (gc_free_ids t') 0 f'"
    "gc_ids t' f' \<subseteq># gc_ids ?t ?f + announced_ids (empty_cycles 7)"
    "\<forall>h. \<not> commands_refer crates_ref (empty_cycles 7) h \<longrightarrow> (\<forall>s \<in> set (gc_cycles ?t). \<not> store_refers crates_ref s h) \<longrightarrow>
          count (gc_ids t' f') h = count (gc_ids ?t ?f + announced_ids (empty_cycles 7)) h
          \<and> (h \<notin># announced_ids (empty_cycles 7) \<longrightarrow> length (gc_cycles ?t) \<le> starts (empty_cycles 7) \<longrightarrow>
               count (mset (f_items f') + mset (gc_pending t')) h = count (gc_ids ?t ?f) h)"
    "\<forall>h. commands_value (empty_cycles 7) h \<longrightarrow> (\<forall>s \<in> set (gc_cycles ?t). store_values s h) \<longrightarrow>
          h \<in># gc_ids ?t ?f + announced_ids (empty_cycles 7) \<longrightarrow> h \<in># gc_ids t' f'"
    using gc_conserves_ids [OF q(1) crates_ref_never_panics, of ?t 0 ?f "empty_cycles 7"] q(3)
    by (auto simp: position_def simp del: replicate.simps)
  have "count (mset (f_items f') + mset (gc_pending t')) 1 = 1"
    using r(4) [rule_format, OF cs(3) bspec [OF refers]] unfolding cs ids by simp
  moreover have "2 \<in># gc_ids t' f'"
    using r(5) [rule_format, OF cs(4) bspec [OF valued]] unfolding cs ids by simp
  moreover have "gc_ids t' f' \<subseteq># {#1, 2, 3#}" using r(3) unfolding cs ids by simp
  ultimately show ?thesis using q(2) r(1,2) by blast
qed

text \<open>
  C23. What a block reuses is kept for six more cycles: an id that the block marks, or that is reachable from one through entries
  of older cycles, is moved to the last cycle with its value, and is not among the ids handed back as long
  as no more than six further cycles start, whatever else is marked or written in between.
\<close>

theorem gc_keeps_reused:
  assumes "never_panics X" and "length stores = PRESERVE_CYCLE_COUNT" and "needed X stores (set reused) h" and "older_value stores h = Some v"
    and "starts cs < PRESERVE_CYCLE_COUNT" and "cycles_run X (MarkReused reused # cs) stores = Ok (freed, stores')"
  shows "(\<exists>marked. mark_loop X reused stores = Ok marked \<and> map_of (last marked) h = Some (Some v)) \<and> h \<notin> set freed"
proof -
  have ne: "stores \<noteq> []" using assms(2) by (auto simp: PRESERVE_CYCLE_COUNT_def)
  obtain marked where m: "mark_loop X reused stores = Ok marked" "moved marked h v"
    using mark_loop_moved [OF assms(1) ne, of reused] assms(3,4) by blast
  have len: "length marked = Suc 6" using mark_loop_length(1) [OF assms(1) ne m(1)] assms(2) by (simp add: PRESERVE_CYCLE_COUNT_def)
  have "cycles_run X cs marked = Ok (freed, stores')" using assms(6) m(1) by simp
  moreover have "map_of (marked ! i) h = None" if "i < starts cs" for i
  proof -
    have i: "i < length (butlast marked)" using that assms(5) len by (simp add: PRESERVE_CYCLE_COUNT_def)
    then have "marked ! i \<in> set (butlast marked)" by (metis nth_butlast nth_mem)
    with m(2) show ?thesis by (simp add: moved_def)
  qed
  ultimately have "h \<notin> set freed" using assms(5) by (intro kept [OF assms(1) len]) (simp_all add: PRESERVE_CYCLE_COUNT_def)
  with m show ?thesis by (auto simp: moved_def)
qed

lemma cycles_run_ok:
  assumes "never_panics X" and "stores \<noteq> []"
  shows "\<exists>freed stores'. cycles_run X cs stores = Ok (freed, stores')"
  using assms(2)
proof (induction cs arbitrary: stores)
  case (Cons c cs)
  show ?case
  proof (cases c)
    case (StartNewCycle vs new_ids)
    then show ?thesis using Cons.IH [of "tl stores @ [with_new_ids new_ids vs]"] Cons.prems by (auto simp: roll_eq)
  next
    case (MarkReused reused)
    then show ?thesis using Cons.IH mark_loop_sizes [OF assms(1) Cons.prems, of reused] by auto
  qed
qed simp

theorem gc_keeps_reused_witness:
  "\<exists>freed stores'. cycles_run crates_ref (MarkReused [1] # empty_cycles 6) [[(1, Some (enc_entry (DBlob [7])))], [], [], [], [], [], []] = Ok (freed, stores')
    \<and> 1 \<notin> set freed"
proof -
  let ?stores = "[[(1, Some (enc_entry (DBlob [7])))], [], [], [], [], [], []]" and ?cs = "empty_cycles 6"
  obtain freed stores' where r: "cycles_run crates_ref (MarkReused [1] # ?cs) ?stores = Ok (freed, stores')"
    using cycles_run_ok [OF crates_ref_never_panics, of ?stores] by blast
  have "starts (empty_cycles n) = n" for n by (induction n) simp_all
  moreover have "older_value ?stores 1 = Some (enc_entry (DBlob [7]))"
    by (simp add: older_value_def Let_def)
  ultimately show ?thesis
    using gc_keeps_reused [OF crates_ref_never_panics _ needed_root _ _ r] r by (auto simp: PRESERVE_CYCLE_COUNT_def)
qed

section \<open>Entries that are freed too early\<close>

lemma new_cycle_started_empty:
  assumes "im_sender r = Some commands" and "context_hashes_cycles r = [] # cycles"
  shows "context_hashes (new_cycle_started r) = context_hashes r" "context_hashes_cycles (new_cycle_started r) = cycles @ [[]]"
    "\<exists>commands. im_sender (new_cycle_started r) = Some commands"
  using assms by (simp_all add: new_cycle_started_def Let_def split_beta)

lemma context_hash_kept:
  assumes "im_sender r = Some commands" and "context_hashes_cycles r = replicate n [] @ cycles"
  shows "context_hashes ((new_cycle_started ^^ n) r) = context_hashes r"
  using assms
proof (induction n arbitrary: r commands cycles)
  case (Suc n)
  have c: "context_hashes_cycles r = [] # (replicate n [] @ cycles)" using Suc.prems(2) by simp
  note new = new_cycle_started_empty [OF Suc.prems(1) c]
  obtain commands' where "im_sender (new_cycle_started r) = Some commands'" using new(3) by blast
  from Suc.IH [OF this, of "cycles @ [[]]"] new(1,2) show ?case by (simp add: funpow_swap1)
qed simp

text \<open>
  C35. An entry can be handed back while a commit that needs it is still known. Entry 1 is written in one cycle, entry 2, a
  directory that refers to it, in the next; a commit of the cycle after that refers to entry 2. Its \<^verbatim>\<open>MarkReused\<close> finds entry 2 in the
  last cycle, where it is not looked for, and so does not go down to entry 1, one cycle older. Six
  cycles later entry 1 is handed back, while the repository still finds the commit, which it keeps for seven.
\<close>

theorem gc_frees_child_early:
  assumes "context_crates_laws X" and "bincode_serialize X (DTree [(name, Leaf, 1)]) = Ok directory"
    and "im_sender r = Some commands" and "context_hashes_cycles r = replicate PRESERVE_CYCLE_COUNT []" and "im_get_hash r h = Ok (Some d)"
  shows "below X directory = [1]
    \<and> (\<exists>stores. cycles_run X ([StartNewCycle [(1, Some leaf)] [1], MarkReused [1], StartNewCycle [(2, Some directory)] [2], MarkReused [2]]
          @ empty_cycles 6) cycles_default = Ok ([1], stores))
    \<and> get_context_hash X ((new_cycle_started ^^ 6) (snd (put_context_hash X h r))) d = Some h"
proof -
  have "bincode_deserialize X directory = Ok (DTree [(name, Leaf, 1)])"
    using context_crates_laws.bincode_roundtrip [OF assms(1), of "DTree [(name, Leaf, 1)]"] assms(2) by auto
  then have "below X directory = [1]" by (simp add: below_def disk_values_def)
  moreover have "\<exists>stores. cycles_run X ([StartNewCycle [(1, Some leaf)] [1], MarkReused [1], StartNewCycle [(2, Some directory)] [2], MarkReused [2]]
          @ empty_cycles 6) cycles_default = Ok ([1], stores)"
  proof -
    have mark: "mark_loop X [h] [a, b, c, [], [], e, l] = Ok [a, b, c, [], [], e, l]"
      if "a = []" "b = []" "c = []" "map_of e h = None" for h a b c e l
    proof -
      have "\<forall>p \<in> set e. fst p \<noteq> h" using that(4) by (force simp: map_of_eq_None_iff)
      then have "alist_remove h e = e" by (simp add: alist_remove_def filter_id_conv)
      with that show ?thesis
        by (simp add: mark_loop.simps [of X "[h]"] mark_loop.simps [of X "[]"] move_to_last_cycle_def Let_def)
    qed
    show ?thesis
      by (simp add: cycles_default_def PRESERVE_CYCLE_COUNT_def numeral_eq_Suc roll_def with_new_ids_def mark)
  qed
  moreover have "get_context_hash X ((new_cycle_started ^^ 6) (snd (put_context_hash X h r))) d = Some h"
  proof -
    let ?r = "snd (put_context_hash X h r)"
    have "context_hashes_cycles ?r = replicate 6 [] @ [[default_hasher X d]]" "im_sender ?r = Some commands"
      using assms(3-5) by (simp_all add: put_context_hash_def Let_def PRESERVE_CYCLE_COUNT_def numeral_eq_Suc)
    then have "context_hashes ((new_cycle_started ^^ 6) ?r) = context_hashes ?r" by (intro context_hash_kept)
    then show ?thesis using assms(5) by (simp add: get_context_hash_def put_context_hash_def Let_def)
  qed
  ultimately show ?thesis by blast
qed

theorem gc_frees_child_early_witness:
  "let r = (in_memory_new (Some ([], \<lparr>q_head = 0, q_tail = 0, q_buffer = [None], q_mask_bit = 2\<rparr>)))\<lparr>im_hashes := (hash_value_store_new None)\<lparr>hv_hashes := [[5]]\<rparr>\<rparr> in
   below crates_ref (enc_entry (DTree [(''d'', Leaf, 1)])) = [1]
    \<and> (\<exists>stores. cycles_run crates_ref ([StartNewCycle [(1, Some [])] [1], MarkReused [1],
          StartNewCycle [(2, Some (enc_entry (DTree [(''d'', Leaf, 1)])))] [2], MarkReused [2]] @ empty_cycles 6) cycles_default = Ok ([1], stores))
    \<and> get_context_hash crates_ref ((new_cycle_started ^^ 6) (snd (put_context_hash crates_ref 1 r))) [5] = Some 1"
  unfolding Let_def
  by (rule gc_frees_child_early [OF ctx_ref.context_crates_laws_axioms])
    (simp_all add: crates_ref_def in_memory_new_def hash_value_store_new_def im_get_hash_def get_hash_def entries_get_def into_usize_def checked_sub_def)

end
