(* ===== verification/Gen_State.thy ===== *)
theory Gen_State
  imports Binary_Message State_Res "HOL-Library.Multiset"
begin

unbundle bit_operations_syntax

text \<open>
  The state of the message generator and its primitive draws, \<^verbatim>\<open>generator/src/lib.rs\<close> up to the \<^verbatim>\<open>Generator\<close> trait. The
  state is owned by one worker, so the mutex around it is left out; a panic of a draw ends the worker.
\<close>

section \<open>The random numbers\<close>

text \<open>
  The \<^verbatim>\<open>rand\<close> crate is a parameter. A draw of one of \<open>n\<close> values is a number that the model reduces modulo \<open>n\<close>, so that every
  source of numbers below \<open>n\<close> is an instance; \<open>Uniform\<close> is the distribution of \<^verbatim>\<open>gen_range\<close>, \<open>Standard\<close> the one of \<^verbatim>\<open>gen\<close>. A probability is
  the bit pattern of an \<^verbatim>\<open>f64\<close>.
\<close>

datatype distribution = Uniform | Standard

record 'g rng =
  rng_seed :: "u64 \<Rightarrow> 'g"
  rng_draw :: "distribution \<Rightarrow> nat \<Rightarrow> 'g \<Rightarrow> nat \<times> 'g"
  rng_bool :: "u64 \<Rightarrow> 'g \<Rightarrow> bool \<times> 'g"
  rng_shuffle :: "nat list \<Rightarrow> 'g \<Rightarrow> nat list \<times> 'g"

definition p_one :: u64 where "p_one = 0x3FF0000000000000"
definition p_0_9 :: u64 where "p_0_9 = 0x3FECCCCCCCCCCCCD"
definition p_0_5 :: u64 where "p_0_5 = 0x3FE0000000000000"
definition p_0_1 :: u64 where "p_0_1 = 0x3FB999999999999A"
definition p_0_01 :: u64 where "p_0_01 = 0x3F847AE147AE147B"

definition is_probability :: "u64 \<Rightarrow> bool" where
  \<comment> \<open>between 0 and 1; the largest pattern is the negative zero\<close>
  "is_probability p \<longleftrightarrow> p \<le> p_one \<or> p = 0x8000000000000000"

text \<open>Documented behaviour: shuffling permutes, and the distribution for the probabilities 0 and 1 is constant.\<close>

locale rng_laws =
  fixes R :: "'g rng"
  assumes shuffle_perm: "mset (fst (rng_shuffle R xs g)) = mset xs"
    and bool_never: "\<not> fst (rng_bool R 0 g)"
    and bool_always: "fst (rng_bool R p_one g)"

section \<open>The state\<close>

record 'g random_state =
  rs_rng :: 'g
  blocks_limit :: nat
  max_chunk_size :: nat
  fitness_count :: u64
  blocks :: "(bytes \<times> rust) list"
  last_block :: bytes
  chain_id :: bytes
  current_branch :: "rust option"
  current_head :: "rust option"
  block_header :: "rust option"
  operation :: "rust option"
  protocol :: "rust option"
  operations_for_blocks :: "rust option"

datatype io_error = UnexpectedEof | DecryptError | NetworkError

type_synonym ('g, 'a) gen = "('g random_state, io_error, 'a) call"

definition random_state_new ::
  "'g rng \<Rightarrow> 'st sodium \<Rightarrow> base58 \<Rightarrow> u64 \<Rightarrow> nat \<Rightarrow> nat \<Rightarrow> (io_error, 'g random_state) res" where
  "random_state_new R S B seed limit max_size =
     res_bind (unwrap (from_base58_check S B BlockHash ''BLockGenesisGenesisGenesisGenesisGenesisf79b5d1CoW2'')) (\<lambda>genesis.
     res_bind (unwrap (from_base58_check S B ChainId ''NetXdQprcVkpaWU'')) (\<lambda>chain.
       Ok \<lparr>rs_rng = rng_seed R seed, blocks_limit = limit, max_chunk_size = max_size, fitness_count = 0, blocks = [],
           last_block = genesis, chain_id = chain, current_branch = None, current_head = None, block_header = None,
           operation = None, protocol = None, operations_for_blocks = None\<rparr>))"

section \<open>Draws\<close>

definition draw :: "'g rng \<Rightarrow> distribution \<Rightarrow> nat \<Rightarrow> ('g, nat) gen" where
  "draw R d n s = (case rng_draw R d n (rs_rng s) of (x, g) \<Rightarrow> (Ok (x mod n), s\<lparr>rs_rng := g\<rparr>))"

definition gen_range :: "'g rng \<Rightarrow> nat \<Rightarrow> nat \<Rightarrow> ('g, nat) gen" where
  \<comment> \<open>\<open>gen_range(low..high)\<close> panics for an empty range\<close>
  "gen_range R low high s =
     (if high \<le> low then (Panic, s)
      else bind_call (draw R Uniform (high - low)) (\<lambda>x. ret (low + x)) s)"

definition gen_bool :: "'g rng \<Rightarrow> u64 \<Rightarrow> ('g, bool) gen" where
  \<comment> \<open>panics when the argument is not a probability\<close>
  "gen_bool R p s =
     (if is_probability p then (case rng_bool R p (rs_rng s) of (b, g) \<Rightarrow> (Ok b, s\<lparr>rs_rng := g\<rparr>)) else (Panic, s))"

definition shuffle :: "'g rng \<Rightarrow> nat list \<Rightarrow> ('g, nat list) gen" where
  "shuffle R xs s = (case rng_shuffle R xs (rs_rng s) of (ys, g) \<Rightarrow> (Ok ys, s\<lparr>rs_rng := g\<rparr>))"

definition gen_word :: "'g rng \<Rightarrow> ('g, 'w::len word) gen" where
  \<comment> \<open>\<open>gen_t\<close> for the integer types\<close>
  "gen_word R = bind_call (draw R Standard (2 ^ LENGTH('w))) (\<lambda>x. ret (word_of_nat x))"

definition gen_standard_bool :: "'g rng \<Rightarrow> ('g, bool) gen" where
  "gen_standard_bool R = bind_call (draw R Standard 2) (\<lambda>x. ret (x = 1))"

definition gen_char :: "'g rng \<Rightarrow> ('g, nat) gen" where
  \<comment> \<open>one of the Unicode scalar values, which leave out the surrogates\<close>
  "gen_char R = bind_call (draw R Standard (0x110000 - 0x800)) (\<lambda>x. ret (if x < 0xD800 then x else x + 0x800))"

fun repeat_call :: "nat \<Rightarrow> ('s, 'e, 'a) call \<Rightarrow> ('s, 'e, 'a list) call" where
  \<comment> \<open>\<open>(0..n).map(m).collect()\<close>\<close>
  "repeat_call 0 m s = (Ok [], s)"
| "repeat_call (Suc n) m s = bind_call m (\<lambda>x. bind_call (repeat_call n m) (\<lambda>xs. ret (x # xs))) s"

definition gen_vec :: "'g rng \<Rightarrow> nat \<Rightarrow> ('g, bytes) gen" where
  "gen_vec R n = repeat_call n (gen_word R)"

definition byte :: "nat \<Rightarrow> u8" where
  "byte n = word_of_nat n"

definition char_utf8 :: "nat \<Rightarrow> bytes" where
  "char_utf8 c =
     (if c < 0x80 then [byte c]
      else if c < 0x800 then [byte (0xC0 + c div 64), byte (0x80 + c mod 64)]
      else if c < 0x10000 then
        [byte (0xE0 + c div 4096), byte (0x80 + c div 64 mod 64), byte (0x80 + c mod 64)]
      else
        [byte (0xF0 + c div 262144), byte (0x80 + c div 4096 mod 64), byte (0x80 + c div 64 mod 64),
         byte (0x80 + c mod 64)])"

definition is_char_boundary :: "bytes \<Rightarrow> nat \<Rightarrow> bool" where
  "is_char_boundary s i \<longleftrightarrow> i = 0 \<or> i = length s \<or> (i < length s \<and> \<not> cont_byte (s ! i))"

fun truncate_below :: "bytes \<Rightarrow> nat \<Rightarrow> bytes" where
  \<comment> \<open>the loop of \<open>gen_string\<close>: cut at the last boundary below the limit\<close>
  "truncate_below s 0 = s"
| "truncate_below s (Suc i) = (if is_char_boundary s i then take i s else truncate_below s i)"

definition gen_string :: "'g rng \<Rightarrow> nat \<Rightarrow> ('g, bytes) gen" where
  "gen_string R max_size_bytes =
     bind_call (repeat_call max_size_bytes (gen_char R)) (\<lambda>cs.
       ret (truncate_below (concat (map char_utf8 cs)) max_size_bytes))"

text \<open>
  Arithmetic that overflows panics or wraps around, as the \<^verbatim>\<open>overflow-checks\<close> of the build profile say: a parameter.
\<close>

definition overflowing :: "bool \<Rightarrow> bool \<Rightarrow> 'a \<Rightarrow> ('s, 'e, 'a) call" where
  "overflowing checks over x s = (if checks \<and> over then Panic else Ok x, s)"

definition gen_fitness :: "bool \<Rightarrow> ('g, u64) gen" where
  "gen_fitness checks s =
     bind_call (overflowing checks (fitness_count s = -1) (fitness_count s + 1))
       (\<lambda>n s. (Ok n, s\<lparr>fitness_count := n\<rparr>)) s"

section \<open>Chunks\<close>

definition MACBYTES :: nat where "MACBYTES = 16"

lemma bind_call_cong [fundef_cong]:
  assumes "m s = m' s'" and "\<And>a s1. m' s' = (Ok a, s1) \<Longrightarrow> f a s1 = f' a s1"
  shows "bind_call m f s = bind_call m' f' s'"
  using assms by (simp add: bind_call_def split: prod.splits res.splits)

lemma draw_Ok: "draw R d n s = (Ok x, s') \<Longrightarrow> 0 < n \<Longrightarrow> x < n"
  by (auto simp: draw_def split: prod.splits)

lemma gen_range_Ok: "gen_range R low high s = (Ok x, s') \<Longrightarrow> low \<le> x \<and> x < high"
  by (auto simp: gen_range_def bind_call_eq_Ok dest!: draw_Ok split: if_splits)

function (sequential) chunk_sizes :: "'g rng \<Rightarrow> nat \<Rightarrow> nat \<Rightarrow> nat list \<Rightarrow> ('g, nat list) gen" where
  \<comment> \<open>the first loop of \<open>gen_chunks\<close>\<close>
  "chunk_sizes R max_size remaining sizes s =
     (if remaining \<le> 1 then (Ok (if remaining = 1 then sizes @ [1] else sizes), s)
      else
        bind_call (if max_size = 1 then ret 1 else gen_range R 1 (min remaining max_size))
          (\<lambda>len. chunk_sizes R max_size (remaining - len) (sizes @ [len])) s)"
  by pat_completeness auto

termination
  by (relation "measure (\<lambda>(R, max_size, remaining, sizes, s). remaining)")
    (auto dest!: gen_range_Ok split: if_splits)

declare chunk_sizes.simps [simp del]

fun encrypt_chunks :: "'st sodium \<Rightarrow> bigint \<Rightarrow> wire \<Rightarrow> bytes \<Rightarrow> bytes \<Rightarrow> nat list \<Rightarrow> nat \<Rightarrow> nonce \<Rightarrow> (io_error, binary_chunk list \<times> nonce) res" where
  \<comment> \<open>the second loop of \<open>gen_chunks\<close>\<close>
  "encrypt_chunks S I W key bs [] start nonce = Ok ([], nonce)"
| "encrypt_chunks S I W key bs (len # sizes) start nonce =
     (if length bs < start + len then Panic
      else
        res_bind (unwrap (encrypt S I key (take len (drop start bs)) nonce)) (\<lambda>content.
        res_bind (unwrap (from_content W content)) (\<lambda>chunk.
        res_bind (encrypt_chunks S I W key bs sizes (start + len) (increment nonce)) (\<lambda>(chunks, nonce).
          Ok (chunk # chunks, nonce)))))"

definition gen_chunks :: "'g rng \<Rightarrow> 'st sodium \<Rightarrow> bigint \<Rightarrow> wire \<Rightarrow> bytes \<Rightarrow> bytes \<Rightarrow> nonce
    \<Rightarrow> ('g, binary_chunk list \<times> nonce) gen" where
  "gen_chunks R S I W bs key nonce s =
     (let max_size = min (max_chunk_size s) (CONTENT_LENGTH_MAX - MACBYTES) in
      bind_call (chunk_sizes R max_size (length bs) []) (\<lambda>sizes.
      bind_call (shuffle R sizes) (\<lambda>sizes. lift_res (encrypt_chunks S I W key bs sizes 0 nonce))) s)"

function (sequential) byte_chunk_sizes :: "'g rng \<Rightarrow> nat \<Rightarrow> nat list \<Rightarrow> ('g, nat list) gen" where
  "byte_chunk_sizes R remaining sizes s =
     (if remaining \<le> 1 then (Ok (if remaining = 1 then sizes @ [1] else sizes), s)
      else
        bind_call (gen_range R 1 remaining)
          (\<lambda>len. byte_chunk_sizes R (remaining - len) (sizes @ [len])) s)"
  by pat_completeness auto

termination
  by (relation "measure (\<lambda>(R, remaining, sizes, s). remaining)") (auto dest!: gen_range_Ok)

declare byte_chunk_sizes.simps [simp del]

fun cut_bytes :: "bytes \<Rightarrow> nat list \<Rightarrow> nat \<Rightarrow> (io_error, bytes list) res" where
  "cut_bytes bs [] start = Ok []"
| "cut_bytes bs (len # sizes) start =
     (if length bs < start + len then Panic
      else res_bind (cut_bytes bs sizes (start + len)) (\<lambda>parts. Ok (take len (drop start bs) # parts)))"

definition gen_byte_chunks :: "'g rng \<Rightarrow> bytes \<Rightarrow> ('g, bytes list) gen" where
  "gen_byte_chunks R bs =
     bind_call (byte_chunk_sizes R (length bs) []) (\<lambda>sizes.
     bind_call (shuffle R sizes) (\<lambda>sizes. lift_res (cut_bytes bs sizes 0)))"

section \<open>What the draws give\<close>

definition keeps_state :: "'g random_state \<Rightarrow> 'g random_state \<Rightarrow> bool" where
  "keeps_state s s' \<longleftrightarrow> (\<exists>g. s' = s\<lparr>rs_rng := g\<rparr>)"

lemma keeps_refl [simp]: "keeps_state s s"
  unfolding keeps_state_def by (rule exI [of _ "rs_rng s"]) simp

lemma keeps_trans [trans]: "keeps_state s s' \<Longrightarrow> keeps_state s' s'' \<Longrightarrow> keeps_state s s''"
  by (auto simp: keeps_state_def)

lemma keeps_fields:
  "keeps_state s s' \<Longrightarrow> max_chunk_size s' = max_chunk_size s \<and> current_head s' = current_head s \<and> last_block s' = last_block s
    \<and> chain_id s' = chain_id s \<and> current_branch s' = current_branch s \<and> block_header s' = block_header s
    \<and> operation s' = operation s \<and> protocol s' = protocol s \<and> operations_for_blocks s' = operations_for_blocks s"
  by (auto simp: keeps_state_def)

definition yields :: "'g random_state \<Rightarrow> ('g, 'a) gen \<Rightarrow> ('a \<Rightarrow> bool) \<Rightarrow> bool" where
  \<comment> \<open>the call returns a value with the property, and only draws\<close>
  "yields s m P \<longleftrightarrow> (\<exists>x s'. m s = (Ok x, s') \<and> keeps_state s s' \<and> P x)"

lemma yieldsI: "m s = (Ok x, s') \<Longrightarrow> keeps_state s s' \<Longrightarrow> P x \<Longrightarrow> yields s m P"
  by (auto simp: yields_def)

lemma yieldsE: "yields s m P \<Longrightarrow> (\<And>x s'. m s = (Ok x, s') \<Longrightarrow> keeps_state s s' \<Longrightarrow> P x \<Longrightarrow> Q) \<Longrightarrow> Q"
  by (auto simp: yields_def)

lemma yields_mono: "yields s m P \<Longrightarrow> (\<And>x. P x \<Longrightarrow> Q x) \<Longrightarrow> yields s m Q"
  by (auto simp: yields_def)

lemma yields_ret [simp]: "yields s (ret x) P \<longleftrightarrow> P x"
  by (auto simp: yields_def)

lemma yields_bind:
  assumes "yields s m P" and "\<And>x s'. P x \<Longrightarrow> keeps_state s s' \<Longrightarrow> yields s' (f x) Q"
  shows "yields s (bind_call m f) Q"
proof -
  obtain x s' where x: "m s = (Ok x, s')" "keeps_state s s'" "P x" using assms(1) by (auto simp: yields_def)
  obtain y s'' where "f x s' = (Ok y, s'')" "keeps_state s' s''" "Q y" using assms(2) [OF x(3,2)] by (auto simp: yields_def)
  then show ?thesis using x by (intro yieldsI [of _ s y s'']) (simp_all add: bind_call_def keeps_trans [of s s'])
qed

lemma yields_draw: "0 < n \<Longrightarrow> yields s (draw R d n) (\<lambda>x. x < n)"
  by (auto simp: yields_def draw_def keeps_state_def split: prod.splits)

lemma yields_range: "low < high \<Longrightarrow> yields s (gen_range R low high) (\<lambda>x. low \<le> x \<and> x < high)"
proof -
  assume "low < high"
  then have "yields s (bind_call (draw R Uniform (high - low)) (\<lambda>x. ret (low + x))) (\<lambda>x. low \<le> x \<and> x < high)"
    by (intro yields_bind [OF yields_draw]) auto
  then show ?thesis using \<open>low < high\<close> by (simp add: yields_def gen_range_def)
qed

lemma yields_bool: "is_probability p \<Longrightarrow> yields s (gen_bool R p) (\<lambda>_. True)"
  by (auto simp: yields_def gen_bool_def keeps_state_def split: prod.splits)

lemma probabilities [simp]:
  "is_probability p_0_9" "is_probability p_0_5" "is_probability p_0_1" "is_probability p_0_01" "is_probability 0" "is_probability p_one"
  by (simp_all add: is_probability_def p_one_def p_0_9_def p_0_5_def p_0_1_def p_0_01_def)

lemma yields_word: "yields s (gen_word R) (\<lambda>_. True)"
  unfolding gen_word_def by (rule yields_bind [OF yields_draw]) simp_all

lemma yields_standard_bool: "yields s (gen_standard_bool R) (\<lambda>_. True)"
  unfolding gen_standard_bool_def by (rule yields_bind [OF yields_draw]) simp_all

lemma yields_repeat:
  assumes "\<And>s'. keeps_state s s' \<Longrightarrow> yields s' m P"
  shows "yields s (repeat_call n m) (\<lambda>xs. length xs = n \<and> list_all P xs)"
  using assms
proof (induction n arbitrary: s)
  case 0
  then show ?case by (auto simp: yields_def)
next
  case (Suc n)
  have "yields s (bind_call m (\<lambda>x. bind_call (repeat_call n m) (\<lambda>xs. ret (x # xs)))) (\<lambda>xs. length xs = Suc n \<and> list_all P xs)"
  proof (rule yields_bind [OF Suc.prems [OF keeps_refl]])
    fix x s' assume x: "P x" "keeps_state s s'"
    then have "yields s' (repeat_call n m) (\<lambda>xs. length xs = n \<and> list_all P xs)"
      by (intro Suc.IH Suc.prems) (rule keeps_trans)
    then show "yields s' (bind_call (repeat_call n m) (\<lambda>xs. ret (x # xs))) (\<lambda>xs. length xs = Suc n \<and> list_all P xs)"
      by (rule yields_bind) (use x(1) in simp)
  qed
  then show ?case by (auto simp: yields_def)
qed

lemma yields_vec: "yields s (gen_vec R n) (\<lambda>bs. length bs = n)"
  unfolding gen_vec_def by (rule yields_mono [OF yields_repeat [OF yields_word]]) simp

definition scalar :: "nat \<Rightarrow> bool" where
  "scalar c \<longleftrightarrow> c < 0xD800 \<or> 0xE000 \<le> c \<and> c < 0x110000"

lemma yields_char: "yields s (gen_char R) scalar"
  unfolding gen_char_def by (rule yields_bind [OF yields_draw]) (auto simp: scalar_def)

section \<open>Strings\<close>

lemma unat_byte: "n < 256 \<Longrightarrow> unat (byte n) = n"
  by (simp add: byte_def unat_of_nat take_bit_eq_mod)

lemma byte_eq: "n < 256 \<Longrightarrow> byte n = w \<longleftrightarrow> n = unat w"
  by (simp add: word_unat_eq_iff unat_byte)

lemma byte_le: "n < 256 \<Longrightarrow> byte n \<le> w \<longleftrightarrow> n \<le> unat w" "n < 256 \<Longrightarrow> w \<le> byte n \<longleftrightarrow> unat w \<le> n"
  by (simp_all add: word_le_nat_alt unat_byte)

lemma cont_byte_nat: "n < 256 \<Longrightarrow> cont_byte (byte n) \<longleftrightarrow> 128 \<le> n \<and> n \<le> 191"
  by (simp add: cont_byte_def byte_le)

lemma mod_64_le [simp]: "x mod 64 \<le> (63 :: nat)"
  using pos_mod_bound [of 64 "int x"] by presburger

lemma char_utf8_cont: "scalar c \<Longrightarrow> \<exists>b bs. char_utf8 c = b # bs \<and> \<not> cont_byte b \<and> list_all cont_byte bs"
proof -
  assume c: "scalar c"
  have m: "x mod 64 < 64" for x :: nat by simp
  have d: "c < 0x800 \<Longrightarrow> c div 64 < 32" "c < 0x10000 \<Longrightarrow> c div 4096 < 16" "c < 0x110000 \<Longrightarrow> c div 262144 < 5"
    by (simp_all add: div_less_iff_less_mult)
  have "c < 0x110000" using c by (auto simp: scalar_def)
  then show ?thesis using d by (auto simp: char_utf8_def cont_byte_nat)
qed

lemma utf8_valid_char: "scalar c \<Longrightarrow> utf8_valid (char_utf8 c @ r) = utf8_valid r"
proof -
  assume c: "scalar c"
  then have max: "c < 0x110000" by (auto simp: scalar_def)
  consider "c < 0x80" | "0x80 \<le> c" "c < 0x800" | "0x800 \<le> c" "c < 0x10000" | "0x10000 \<le> c" by linarith
  then show ?thesis
  proof cases
    case 1
    then show ?thesis by (simp add: char_utf8_def byte_le)
  next
    case 2
    then have "c div 64 < 32" "2 \<le> c div 64" by (simp_all add: div_less_iff_less_mult less_eq_div_iff_mult_less_eq)
    with 2 show ?thesis by (simp add: char_utf8_def byte_le cont_byte_nat)
  next
    case 3
    then have d: "c div 4096 < 16" by (simp add: div_less_iff_less_mult)
    have split: "c div 64 = 64 * (c div 4096) + c div 64 mod 64"
      using mult_div_mod_eq [of 64 "c div 64"] by (simp add: div_mult2_eq [symmetric])
    have "32 \<le> c div 64" using 3 by (simp add: less_eq_div_iff_mult_less_eq)
    with split have e0: "c div 4096 = 0 \<Longrightarrow> 32 \<le> c div 64 mod 64" by linarith
    have ed: "c div 64 mod 64 < 32" if "c div 4096 = 13"
    proof -
      have "c < 0xD800"
        using c that div_less_iff_less_mult [of 4096 c 14] by (auto simp: scalar_def)
      then have "c div 64 < 864" by (simp add: div_less_iff_less_mult)
      with split that show ?thesis by linarith
    qed
    obtain a b e where "char_utf8 c = [byte (0xE0 + a), byte (0x80 + b), byte (0x80 + e)]" "a < 16" "b < 64" "e < 64"
      "a = 0 \<Longrightarrow> 32 \<le> b" "a = 13 \<Longrightarrow> b < 32"
      by (rule that [of "c div 4096" "c div 64 mod 64" "c mod 64"]) (use 3 d e0 ed in \<open>simp_all add: char_utf8_def\<close>)
    then show ?thesis by (auto simp: byte_le byte_eq cont_byte_nat)
  next
    case 4
    then have d: "c div 262144 < 5" using max by (simp add: div_less_iff_less_mult)
    have split: "c div 4096 = 64 * (c div 262144) + c div 4096 mod 64"
      using mult_div_mod_eq [of 64 "c div 4096"] by (simp add: div_mult2_eq [symmetric])
    have "16 \<le> c div 4096" "c div 4096 < 272" using 4 max by (simp_all add: less_eq_div_iff_mult_less_eq div_less_iff_less_mult)
    with split have f0: "c div 262144 = 0 \<Longrightarrow> 16 \<le> c div 4096 mod 64" and f4: "c div 262144 = 4 \<Longrightarrow> c div 4096 mod 64 < 16"
      by linarith+
    obtain a b e f where "char_utf8 c = [byte (0xF0 + a), byte (0x80 + b), byte (0x80 + e), byte (0x80 + f)]"
      "a < 5" "b < 64" "e < 64" "f < 64" "a = 0 \<Longrightarrow> 16 \<le> b" "a = 4 \<Longrightarrow> b < 16"
      by (rule that [of "c div 262144" "c div 4096 mod 64" "c div 64 mod 64" "c mod 64"])
        (use 4 d f0 f4 in \<open>simp_all add: char_utf8_def\<close>)
    then show ?thesis by (auto simp: byte_le byte_eq cont_byte_nat)
  qed
qed

lemma utf8_valid_chars: "list_all scalar cs \<Longrightarrow> utf8_valid (concat (map char_utf8 cs))"
  by (induction cs) (simp_all add: utf8_valid_char)

lemma take_boundary:
  assumes "list_all scalar cs" and "is_char_boundary (concat (map char_utf8 cs)) i" and "i \<le> length (concat (map char_utf8 cs))"
  shows "\<exists>ds. list_all scalar ds \<and> take i (concat (map char_utf8 cs)) = concat (map char_utf8 ds)"
  using assms
proof (induction cs arbitrary: i)
  case Nil
  then show ?case by (intro exI [of _ "[]"]) simp
next
  case (Cons c cs)
  let ?n = "length (char_utf8 c)" and ?r = "concat (map char_utf8 cs)"
  obtain b bs where b: "char_utf8 c = b # bs" "list_all cont_byte bs" using Cons.prems(1) char_utf8_cont by force
  show ?case
  proof (cases "i < ?n")
    case True
    have "i = 0"
    proof (rule ccontr)
      assume "i \<noteq> 0"
      then have "cont_byte ((char_utf8 c @ ?r) ! i)"
        using True b by (cases i) (auto simp: nth_append list_all_length)
      with Cons.prems(2) \<open>i \<noteq> 0\<close> True show False by (auto simp: is_char_boundary_def)
    qed
    then show ?thesis by (intro exI [of _ "[]"]) simp
  next
    case False
    then have "is_char_boundary ?r (i - ?n)"
      using Cons.prems(2) by (auto simp: is_char_boundary_def nth_append)
    then obtain ds where "list_all scalar ds" "take (i - ?n) ?r = concat (map char_utf8 ds)"
      using Cons.IH [of "i - ?n"] Cons.prems(1,3) False by (auto simp: le_diff_conv2 le_diff_conv)
    then show ?thesis using False Cons.prems(1) by (intro exI [of _ "c # ds"]) simp
  qed
qed

lemma truncate_below_take:
  "0 < n \<Longrightarrow> n \<le> length s \<Longrightarrow> \<exists>i < n. is_char_boundary s i \<and> truncate_below s n = take i s"
proof (induction n)
  case (Suc n)
  show ?case
  proof (cases "is_char_boundary s n")
    case False
    then have "0 < n" by (cases n) (simp_all add: is_char_boundary_def)
    with Suc False show ?thesis by (auto intro: less_SucI)
  qed auto
qed simp

lemma length_chars: "list_all scalar cs \<Longrightarrow> length cs \<le> length (concat (map char_utf8 cs))"
proof (induction cs)
  case (Cons c cs)
  with char_utf8_cont [of c] show ?case by auto
qed simp

lemma yields_string: "yields s (gen_string R n) (\<lambda>t. utf8_valid t \<and> length t \<le> n - 1)"
  unfolding gen_string_def
proof (rule yields_bind [OF yields_repeat [OF yields_char]])
  fix cs s' assume cs: "length cs = n \<and> list_all scalar cs"
  let ?t = "concat (map char_utf8 cs)"
  have "utf8_valid (truncate_below ?t n) \<and> length (truncate_below ?t n) \<le> n - 1"
  proof (cases "n = 0")
    case False
    with cs length_chars [of cs] obtain i where "i < n" "is_char_boundary ?t i" "truncate_below ?t n = take i ?t"
      using truncate_below_take [of n ?t] by auto
    with cs take_boundary [of cs i] length_chars [of cs] utf8_valid_chars show ?thesis by force
  qed (use cs in simp)
  then show "yields s' (ret (truncate_below ?t n)) (\<lambda>t. utf8_valid t \<and> length t \<le> n - 1)" by simp
qed

section \<open>Splitting into chunks\<close>

lemma chunk_sizes_more:
  "1 < remaining \<Longrightarrow> chunk_sizes R max_size remaining sizes =
     bind_call (if max_size = 1 then ret 1 else gen_range R 1 (min remaining max_size))
       (\<lambda>l. chunk_sizes R max_size (remaining - l) (sizes @ [l]))"
  "1 < remaining \<Longrightarrow> byte_chunk_sizes R remaining sizes =
     bind_call (gen_range R 1 remaining) (\<lambda>l. byte_chunk_sizes R (remaining - l) (sizes @ [l]))"
  by (rule ext, simp add: chunk_sizes.simps [of R max_size remaining])
    (rule ext, simp add: byte_chunk_sizes.simps [of R remaining])

lemma yields_size:
  "1 < remaining \<Longrightarrow> 0 < max_size \<Longrightarrow> yields s (if max_size = 1 then ret 1 else gen_range R 1 (min remaining max_size))
     (\<lambda>l. 0 < l \<and> l \<le> max 1 (max_size - 1) \<and> l < remaining)"
  by (cases "max_size = 1") (simp_all, rule yields_mono [OF yields_range], auto)

lemma chunk_sizes_ok:
  "0 < max_size \<Longrightarrow> yields s (chunk_sizes R max_size remaining sizes)
     (\<lambda>ls. \<exists>new. ls = sizes @ new \<and> sum_list new = remaining \<and> list_all (\<lambda>l. 0 < l \<and> l \<le> max 1 (max_size - 1)) new)"
proof (induction remaining arbitrary: sizes s rule: less_induct)
  case (less remaining)
  show ?case
  proof (cases "remaining \<le> 1")
    case True
    then have "remaining = 0 \<or> remaining = 1" by auto
    then show ?thesis by (auto simp: yields_def chunk_sizes.simps [of R max_size remaining])
  next
    case False
    then have more: "1 < remaining" by simp
    show ?thesis unfolding chunk_sizes_more(1) [OF more]
      by (rule yields_bind [OF yields_size [OF more less.prems]], rule yields_mono [OF less.IH]) (use less.prems in auto)
  qed
qed

lemma byte_chunk_sizes_ok:
  "yields s (byte_chunk_sizes R remaining sizes)
     (\<lambda>ls. \<exists>new. ls = sizes @ new \<and> sum_list new = remaining \<and> list_all (\<lambda>l. 0 < l) new)"
proof (induction remaining arbitrary: sizes s rule: less_induct)
  case (less remaining)
  show ?case
  proof (cases "remaining \<le> 1")
    case True
    then have "remaining = 0 \<or> remaining = 1" by auto
    then show ?thesis by (auto simp: yields_def byte_chunk_sizes.simps [of R remaining])
  next
    case False
    then have more: "1 < remaining" by simp
    show ?thesis unfolding chunk_sizes_more(2) [OF more]
      by (rule yields_bind [OF yields_range [OF more]], rule yields_mono [OF less.IH]) auto
  qed
qed

fun slices :: "bytes \<Rightarrow> nat list \<Rightarrow> bytes list" where
  \<comment> \<open>the parts of the given sizes, from the front\<close>
  "slices bs [] = []"
| "slices bs (l # ls) = take l bs # slices (drop l bs) ls"

lemma concat_slices: "sum_list ls = length bs \<Longrightarrow> concat (slices bs ls) = bs"
proof (induction bs ls rule: slices.induct)
  case (2 bs l ls)
  then show ?case by (simp add: eq_diff_iff le_add1 flip: "2.prems")
qed simp

lemma length_slices [simp]: "length (slices bs ls) = length ls"
  by (induction bs ls rule: slices.induct) simp_all

lemma slices_sizes: "sum_list ls \<le> length bs \<Longrightarrow> map length (slices bs ls) = ls"
  by (induction bs ls rule: slices.induct) auto

lemma cut_bytes_slices: "start + sum_list ls = length bs \<Longrightarrow> cut_bytes bs ls start = Ok (slices (drop start bs) ls)"
  by (induction bs ls start rule: cut_bytes.induct) (auto simp: add.commute add.assoc)

context rng_laws
begin

lemma shuffle_ok: "yields s (shuffle R xs) (\<lambda>ys. mset ys = mset xs)"
  using shuffle_perm [of xs "rs_rng s"] by (auto simp: yields_def shuffle_def keeps_state_def split: prod.splits)

lemma shuffled: "mset ys = mset xs \<Longrightarrow> sum_list ys = sum_list xs \<and> (list_all P ys \<longleftrightarrow> list_all P xs) \<and> length ys = length xs" for ys xs :: "nat list"
  by (metis mset_eq_length list_all_iff set_mset_mset sum_mset_sum_list)

lemma gen_byte_chunks_ok: "yields s (gen_byte_chunks R bs) (\<lambda>parts. concat parts = bs \<and> [] \<notin> set parts)"
  unfolding gen_byte_chunks_def
proof (rule yields_bind [OF byte_chunk_sizes_ok])
  fix ls s' assume "\<exists>new. ls = [] @ new \<and> sum_list new = length bs \<and> list_all (\<lambda>l. 0 < l) new"
  then have ls: "sum_list ls = length bs" "list_all (\<lambda>l. 0 < l) ls" by auto
  show "yields s' (bind_call (shuffle R ls) (\<lambda>sizes. lift_res (cut_bytes bs sizes 0))) (\<lambda>parts. concat parts = bs \<and> [] \<notin> set parts)"
  proof (rule yields_bind [OF shuffle_ok])
    fix ks s'' assume "mset ks = mset ls"
    with shuffled [OF this] ls have ks: "sum_list ks = length bs" "list_all (\<lambda>l. 0 < l) ks" by auto
    have "[] \<notin> set (slices bs ks)"
    proof
      assume "[] \<in> set (slices bs ks)"
      then have "0 \<in> set (map length (slices bs ks))" by force
      with ks slices_sizes [of ks bs] show False by (auto simp: list_all_iff)
    qed
    with ks show "yields s'' (lift_res (cut_bytes bs ks 0)) (\<lambda>parts. concat parts = bs \<and> [] \<notin> set parts)"
      by (simp add: cut_bytes_slices concat_slices lift_res_def yields_def)
  qed
qed

end

section \<open>Chunks that open to given parts\<close>

definition framed :: "binary_chunk \<Rightarrow> bool" where
  "framed c \<longleftrightarrow> length (chunk_content c) \<le> CONTENT_LENGTH_MAX
     \<and> chunk_raw c = to_be16 (word_of_nat (length (chunk_content c))) @ chunk_content c"

fun sealed_chunks :: "'st sodium \<Rightarrow> bigint \<Rightarrow> bytes \<Rightarrow> nonce \<Rightarrow> bytes list \<Rightarrow> binary_chunk list \<Rightarrow> bool" where
  "sealed_chunks S I key n [] cs \<longleftrightarrow> cs = []"
| "sealed_chunks S I key n (p # ps) cs \<longleftrightarrow>
     (case cs of
        [] \<Rightarrow> False
      | c # cs \<Rightarrow> framed c \<and> length (chunk_content c) = length p + MACBYTES \<and> decrypt S I key (chunk_content c) n = Ok p
          \<and> sealed_chunks S I key (increment n) ps cs)"

lemma nonce_value_increment [simp]: "nonce_value (increment n) = Suc (nonce_value n)"
  by (simp add: increment_def)

lemma sealed_length: "sealed_chunks S I key n ps cs \<Longrightarrow> length cs = length ps"
  by (induction S I key n ps cs rule: sealed_chunks.induct) (auto split: list.splits)

lemma from_content_framed:
  assumes "wire_laws W" and "length c \<le> CONTENT_LENGTH_MAX"
  shows "\<exists>ch. from_content W c = Ok ch \<and> framed ch \<and> chunk_content ch = c"
  using assms(2) wire_laws.put_word(1) [OF assms(1)]
  by (simp add: from_content_def framed_def chunk_content_def CONTENT_LENGTH_FIELD_BYTES_def)

context crypto_box
begin

lemma seal_chunk:
  assumes "wire_laws W" and "nonce_value n < 2 ^ 192" and "length p \<le> CONTENT_LENGTH_MAX - MACBYTES"
  shows "\<exists>content ch. encrypt S I key p n = Ok content \<and> from_content W content = Ok ch \<and> framed ch
    \<and> length (chunk_content ch) = length p + MACBYTES \<and> decrypt S I key (chunk_content ch) n = Ok p"
proof -
  obtain content where c: "encrypt S I key p n = Ok content" "decrypt S I key content n = Ok p" "length content = length p + 16"
    using encrypt_ok [OF assms(2)] by blast
  moreover have "length content \<le> CONTENT_LENGTH_MAX"
    using c(3) assms(3) by (simp add: CONTENT_LENGTH_MAX_def MACBYTES_def)
  ultimately show ?thesis
    using from_content_framed [OF assms(1), of content] by (auto simp: MACBYTES_def)
qed

lemma encrypt_chunks_ok:
  assumes "wire_laws W" and "list_all (\<lambda>l. l \<le> CONTENT_LENGTH_MAX - MACBYTES) ls" and "start + sum_list ls = length bs"
    and "nonce_value n + length ls \<le> 2 ^ 192"
  shows "\<exists>cs. encrypt_chunks S I W key bs ls start n = Ok (cs, (increment ^^ length ls) n) \<and> sealed_chunks S I key n (slices (drop start bs) ls) cs"
  using assms(2-4)
proof (induction ls arbitrary: start n)
  case (Cons l ls)
  have "length (take l (drop start bs)) \<le> CONTENT_LENGTH_MAX - MACBYTES" using Cons.prems(1) by (simp add: min.coboundedI2)
  then obtain content ch where c: "encrypt S I key (take l (drop start bs)) n = Ok content" "from_content W content = Ok ch" "framed ch"
    "length (chunk_content ch) = length (take l (drop start bs)) + MACBYTES" "decrypt S I key (chunk_content ch) n = Ok (take l (drop start bs))"
    using seal_chunk [OF assms(1), of n _ key] Cons.prems(3) by fastforce
  obtain cs where cs: "encrypt_chunks S I W key bs ls (start + l) (increment n) = Ok (cs, (increment ^^ length ls) (increment n))"
    "sealed_chunks S I key (increment n) (slices (drop (start + l) bs) ls) cs"
    using Cons.IH [of "start + l" "increment n"] Cons.prems by (auto simp: nonce_value_increment)
  have "\<not> length bs < start + l" using Cons.prems(2) by simp
  then show ?case using c cs by (simp add: add.commute funpow_swap1)
qed simp

end

lemma gen_chunks_ok:
  assumes "rng_laws R" and "crypto_box S I" and "wire_laws W" and "0 < max_chunk_size s" and "nonce_value n + length bs \<le> 2 ^ 192"
  shows "yields s (gen_chunks R S I W bs key n)
    (\<lambda>(cs, n'). \<exists>ps. sealed_chunks S I key n ps cs \<and> concat ps = bs \<and> n' = (increment ^^ length cs) n
        \<and> list_all (\<lambda>p. p \<noteq> [] \<and> length p \<le> max 1 (min (max_chunk_size s) (CONTENT_LENGTH_MAX - MACBYTES) - 1)) ps)"
    (is "yields s _ ?post")
proof -
  let ?max = "min (max_chunk_size s) (CONTENT_LENGTH_MAX - MACBYTES)"
  have pos: "0 < ?max" using assms(4) by (simp add: CONTENT_LENGTH_MAX_def MACBYTES_def)
  have "yields s (bind_call (chunk_sizes R ?max (length bs) []) (\<lambda>sizes.
      bind_call (shuffle R sizes) (\<lambda>sizes. lift_res (encrypt_chunks S I W key bs sizes 0 n)))) ?post"
  proof (rule yields_bind [OF chunk_sizes_ok [OF pos]], rule yields_bind [OF rng_laws.shuffle_ok [OF assms(1)]])
    fix ls ks s' s''
    assume "\<exists>new. ls = [] @ new \<and> sum_list new = length bs \<and> list_all (\<lambda>l. 0 < l \<and> l \<le> max 1 (?max - 1)) new" and perm: "mset ks = mset ls"
    then have ks: "sum_list ks = length bs" "list_all (\<lambda>l. 0 < l \<and> l \<le> max 1 (?max - 1)) ks"
      using rng_laws.shuffled [OF assms(1) perm, of "\<lambda>l. 0 < l \<and> l \<le> max 1 (?max - 1)"] by auto
    have "list_all (\<lambda>l. l \<le> CONTENT_LENGTH_MAX - MACBYTES) ks"
      using ks(2) by (auto simp: list_all_iff CONTENT_LENGTH_MAX_def MACBYTES_def)
    moreover have "length ks \<le> sum_list ks"
      using ks(2) by (induction ks) auto
    ultimately obtain cs where cs: "encrypt_chunks S I W key bs ks 0 n = Ok (cs, (increment ^^ length ks) n)" "sealed_chunks S I key n (slices bs ks) cs"
      using crypto_box.encrypt_chunks_ok [OF assms(2,3), of ks 0 bs n key] ks(1) assms(5) by auto
    have "list_all (\<lambda>p. p \<noteq> [] \<and> length p \<le> max 1 (?max - 1)) (slices bs ks)"
    proof -
      have "list_all (\<lambda>l. 0 < l \<and> l \<le> max 1 (?max - 1)) (map length (slices bs ks))" using ks slices_sizes [of ks bs] by simp
      then show ?thesis by (simp add: list.pred_map o_def)
    qed
    with cs ks(1) concat_slices [of ks bs] sealed_length [OF cs(2)]
    show "yields s'' (lift_res (encrypt_chunks S I W key bs ks 0 n)) ?post"
      by (auto simp: yields_def)
  qed
  then show ?thesis by (simp add: yields_def gen_chunks_def Let_def)
qed

end
