(* ===== verification/P2p_Stream.thy ===== *)
theory P2p_Stream
  imports Gen_State
begin

unbundle bit_operations_syntax

text \<open>
  Messages on a connection, \<^verbatim>\<open>p2p_fuzzer/src/bin/p2p_fuzzer.rs\<close>: the buffer that cuts the incoming bytes into chunks, and writing and
  reading of encrypted messages. Pauses have no effect here.
\<close>

section \<open>The connection\<close>

text \<open>
  A TCP stream is a parameter of the program: what the reads will return, one event per read that has room, and zero bytes at the end;
  the bytes written so far, and after how many writes the connection breaks, if it does.
\<close>

datatype net_event = Received bytes | ReadFailed

record tcp_stream =
  incoming :: "net_event list"
  outgoing :: bytes
  writes_left :: "nat option"

definition tcp_read :: "nat \<Rightarrow> tcp_stream \<Rightarrow> (io_error, bytes) res \<times> tcp_stream" where
  \<comment> \<open>a read into a buffer of the given length; what does not fit is left for the next read\<close>
  "tcp_read room s =
     (if room = 0 then (Ok [], s)
      else
        case incoming s of
          [] \<Rightarrow> (Ok [], s)
        | ReadFailed # es \<Rightarrow> (Err NetworkError, s\<lparr>incoming := es\<rparr>)
        | Received bs # es \<Rightarrow>
            (Ok (take room bs), s\<lparr>incoming := if length bs \<le> room then es else Received (drop room bs) # es\<rparr>))"

definition tcp_write :: "bytes \<Rightarrow> (tcp_stream, io_error, unit) call" where
  "tcp_write bs s =
     (case writes_left s of
        Some 0 \<Rightarrow> (Err NetworkError, s)
      | left \<Rightarrow> (Ok (), s\<lparr>outgoing := outgoing s @ bs, writes_left := map_option (\<lambda>k. k - 1) left\<rparr>))"

section \<open>The chunk buffer\<close>

definition BUFFER_SIZE :: nat where "BUFFER_SIZE = 0x10000"

definition HEADER_LENGTH :: nat where "HEADER_LENGTH = 2"

record chunk_buffer =
  cb_len :: nat
  cb_data :: bytes

definition chunk_buffer_default :: chunk_buffer where
  "chunk_buffer_default = \<lparr>cb_len = 0, cb_data = replicate BUFFER_SIZE 0\<rparr>"

definition raw_len :: "chunk_buffer \<Rightarrow> nat" where
  "raw_len b = from_be [cb_data b ! 0, cb_data b ! 1] + HEADER_LENGTH"

definition take_chunk :: "nat \<Rightarrow> chunk_buffer \<Rightarrow> bytes \<times> chunk_buffer" where
  \<comment> \<open>the raw chunk; the bytes behind it are moved to the front, one by one\<close>
  "take_chunk n b =
     (take n (cb_data b),
      \<lparr>cb_len = cb_len b - n, cb_data = foldl (\<lambda>data i. data[i - n := data ! i]) (cb_data b) [n..<cb_len b]\<rparr>)"

definition fill_buffer :: "bytes \<Rightarrow> chunk_buffer \<Rightarrow> chunk_buffer" where
  "fill_buffer bs b =
     \<lparr>cb_len = cb_len b + length bs, cb_data = take (cb_len b) (cb_data b) @ bs @ drop (cb_len b + length bs) (cb_data b)\<rparr>"

partial_function (option) read_chunk_loop :: "get_u16 \<Rightarrow> nat \<Rightarrow> chunk_buffer \<Rightarrow> tcp_stream
    \<Rightarrow> ((io_error, binary_chunk) res \<times> chunk_buffer \<times> tcp_stream) option" where
  "read_chunk_loop g retry b s =
     (if HEADER_LENGTH \<le> cb_len b \<and> raw_len b \<le> cb_len b then
        (let (chunk, b) = take_chunk (raw_len b) b in Some (unwrap (chunk_try_from g chunk), b, s))
      else
        (case tcp_read (BUFFER_SIZE - cb_len b) s of
           (Ok bs, s) \<Rightarrow>
             (let b = fill_buffer bs b in
              if cb_len b = 0 then
                (if 2 < retry then Some (Err UnexpectedEof, b, s) else read_chunk_loop g (retry + 1) b s)
              else read_chunk_loop g retry b s)
         | (Err e, s) \<Rightarrow> Some (Err e, b, s)
         | (Panic, s) \<Rightarrow> Some (Panic, b, s)))"

definition read_chunk :: "get_u16 \<Rightarrow> chunk_buffer \<Rightarrow> tcp_stream
    \<Rightarrow> ((io_error, binary_chunk) res \<times> chunk_buffer \<times> tcp_stream) option" where
  "read_chunk g b s = read_chunk_loop g 0 b s"

section \<open>Writing\<close>

record chunk_options =
  flip_bits :: u64
  split_chunks :: u64
  split_bytes :: u64
  incomplete_send :: u64
  write_bytes_sleep :: u64
  write_bytes_sleep_ms :: u64

record 'g link =
  lk_gen :: "'g random_state"
  lk_stream :: tcp_stream

definition in_gen :: "('g, 'a) gen \<Rightarrow> ('g link, io_error, 'a) call" where
  "in_gen m l = (case m (lk_gen l) of (r, s) \<Rightarrow> (r, l\<lparr>lk_gen := s\<rparr>))"

definition in_stream :: "(tcp_stream, io_error, 'a) call \<Rightarrow> ('g link, io_error, 'a) call" where
  "in_stream m l = (case m (lk_stream l) of (r, s) \<Rightarrow> (r, l\<lparr>lk_stream := s\<rparr>))"

fun write_parts :: "'g rng \<Rightarrow> chunk_options \<Rightarrow> bool \<Rightarrow> bytes list \<Rightarrow> ('g link, io_error, unit) call" where
  "write_parts R options incomplete [] l = (Ok (), l)"
| "write_parts R options incomplete (part # parts) l =
     bind_call (in_stream (tcp_write part)) (\<lambda>_.
       if incomplete then ret ()
       else bind_call (in_gen (gen_bool R (write_bytes_sleep options))) (\<lambda>_. write_parts R options incomplete parts)) l"

definition write_bytes :: "'g rng \<Rightarrow> chunk_options \<Rightarrow> bytes \<Rightarrow> ('g link, io_error, unit) call" where
  "write_bytes R options bs =
     bind_call (in_gen (gen_bool R (split_bytes options))) (\<lambda>split.
     bind_call (if split then in_gen (gen_byte_chunks R bs) else ret [bs]) (\<lambda>parts.
     bind_call (in_gen (gen_bool R (incomplete_send options))) (\<lambda>incomplete.
       write_parts R options incomplete parts)))"

fun flip_bytes :: "'g rng \<Rightarrow> ('g, bool) gen \<Rightarrow> nat \<Rightarrow> bytes \<Rightarrow> ('g, bytes) gen" where
  \<comment> \<open>the loop that flips bits: a byte is picked only while flips remain\<close>
  "flip_bytes R pick remaining_flips [] s = (Ok [], s)"
| "flip_bytes R pick remaining_flips (b # bs) s =
     bind_call (if 0 < remaining_flips then pick else ret False) (\<lambda>picked.
       if picked then
         bind_call (gen_range R 0 8) (\<lambda>i.
         bind_call (flip_bytes R pick (remaining_flips - 1) bs) (\<lambda>mutated. ret ((b XOR push_bit i 1) # mutated)))
       else bind_call (flip_bytes R pick remaining_flips bs) (\<lambda>mutated. ret (b # mutated))) s"

definition flip_message :: "'g rng \<Rightarrow> bytes \<Rightarrow> ('g, bytes) gen" where
  "flip_message R bs =
     bind_call (if 0 < length bs then bind_call (gen_range R 0 (length bs)) (\<lambda>n. ret (drop_bit 3 n)) else ret 0)
       (\<lambda>remaining_flips. flip_bytes R (gen_standard_bool R) remaining_flips bs)"

fun chunks_of :: "nat \<Rightarrow> bytes \<Rightarrow> bytes list" where
  \<comment> \<open>\<open>slice::chunks\<close>\<close>
  "chunks_of n bs = (if n = 0 \<or> bs = [] then [] else take n bs # chunks_of n (drop n bs))"

declare chunks_of.simps [simp del]

fun seal_parts :: "'st sodium \<Rightarrow> bigint \<Rightarrow> wire \<Rightarrow> bytes \<Rightarrow> bytes list \<Rightarrow> nonce \<Rightarrow> (io_error, binary_chunk list \<times> nonce) res" where
  "seal_parts S I W key [] nonce = Ok ([], nonce)"
| "seal_parts S I W key (part # parts) nonce =
     res_bind (unwrap (encrypt S I key part nonce)) (\<lambda>content.
     res_bind (unwrap (from_content W content)) (\<lambda>chunk.
     res_bind (seal_parts S I W key parts (increment nonce)) (\<lambda>(chunks, nonce). Ok (chunk # chunks, nonce))))"

definition write_bytes_encrypted :: "'g rng \<Rightarrow> 'st sodium \<Rightarrow> bigint \<Rightarrow> wire \<Rightarrow> chunk_options \<Rightarrow> bytes \<Rightarrow> bytes \<Rightarrow> nonce
    \<Rightarrow> ('g link, io_error, nonce) call" where
  "write_bytes_encrypted R S I W options bs key nonce =
     bind_call (in_gen (gen_bool R (flip_bits options))) (\<lambda>flip.
     bind_call (if flip then in_gen (flip_message R bs) else ret bs) (\<lambda>bs.
     bind_call (in_gen (gen_bool R (split_chunks options))) (\<lambda>split.
     bind_call
       (if split then in_gen (gen_chunks R S I W bs key nonce)
        else lift_res (seal_parts S I W key (chunks_of (CONTENT_LENGTH_MAX - MACBYTES) bs) nonce)) (\<lambda>(chunks, nonce).
     bind_call (fold_call (\<lambda>chunk _. write_bytes R options (chunk_raw chunk)) chunks ()) (\<lambda>_. ret nonce)))))"

definition write_msg :: "'g rng \<Rightarrow> 'st sodium \<Rightarrow> bigint \<Rightarrow> wire \<Rightarrow> hex_crate \<Rightarrow> num_ser \<Rightarrow> chunk_options \<Rightarrow> rtype \<Rightarrow> rust \<Rightarrow> bytes \<Rightarrow> nonce
    \<Rightarrow> ('g link, io_error, nonce) call" where
  "write_msg R S I W H K options T msg key nonce =
     bind_call (lift_res (unwrap (as_bytes W H K T msg))) (\<lambda>bs. write_bytes_encrypted R S I W options bs key nonce)"

section \<open>Reading\<close>

definition MESSAGE_HEADER_LENGTH :: nat where "MESSAGE_HEADER_LENGTH = 4"

partial_function (option) read_msg_loop :: "get_u16 \<Rightarrow> 'st sodium \<Rightarrow> bigint \<Rightarrow> rust ncomb \<Rightarrow> rtype \<Rightarrow> bytes \<Rightarrow> bool
    \<Rightarrow> bytes \<Rightarrow> nat \<Rightarrow> nonce \<Rightarrow> chunk_buffer \<Rightarrow> tcp_stream \<Rightarrow> ((io_error, rust \<times> nonce) res \<times> chunk_buffer \<times> tcp_stream) option" where
  "read_msg_loop g S I C T key peer_message bs len nonce b s =
     (case read_chunk g b s of
        None \<Rightarrow> None
      | Some (Err e, b, s) \<Rightarrow> Some (Err e, b, s)
      | Some (Panic, b, s) \<Rightarrow> Some (Panic, b, s)
      | Some (Ok chunk, b, s) \<Rightarrow>
          (case decrypt S I key (chunk_content chunk) nonce of
             Err _ \<Rightarrow> Some (Err DecryptError, b, s)
           | Panic \<Rightarrow> Some (Panic, b, s)
           | Ok decrypted \<Rightarrow>
               (let bs = bs @ decrypted in
                if len = 0 \<and> peer_message \<and> length bs < MESSAGE_HEADER_LENGTH then Some (Panic, b, s)
                else
                  (let len = (if len = 0 \<and> peer_message then from_be (take MESSAGE_HEADER_LENGTH bs) + MESSAGE_HEADER_LENGTH else len);
                       nonce = increment nonce in
                   if length bs = len \<or> \<not> peer_message then
                     (case from_bytes C T bs of
                        Ok m \<Rightarrow> Some (Ok (m, nonce), b, s)
                      | Err _ \<Rightarrow> read_msg_loop g S I C T key peer_message bs len nonce b s
                      | Panic \<Rightarrow> Some (Panic, b, s))
                   else read_msg_loop g S I C T key peer_message bs len nonce b s))))"

definition read_msg :: "get_u16 \<Rightarrow> 'st sodium \<Rightarrow> bigint \<Rightarrow> rust ncomb \<Rightarrow> rtype \<Rightarrow> bytes \<Rightarrow> bool \<Rightarrow> nonce \<Rightarrow> chunk_buffer \<Rightarrow> tcp_stream
    \<Rightarrow> ((io_error, rust \<times> nonce) res \<times> chunk_buffer \<times> tcp_stream) option" where
  "read_msg g S I C T key peer_message nonce b s = read_msg_loop g S I C T key peer_message [] 0 nonce b s"

section \<open>What the buffer holds\<close>

definition cb_ok :: "chunk_buffer \<Rightarrow> bool" where
  "cb_ok b \<longleftrightarrow> length (cb_data b) = BUFFER_SIZE \<and> cb_len b \<le> BUFFER_SIZE"

definition contents :: "chunk_buffer \<Rightarrow> bytes" where
  "contents b = take (cb_len b) (cb_data b)"

definition arriving :: "tcp_stream \<Rightarrow> bytes \<Rightarrow> bool" where
  \<comment> \<open>the bytes still to come, in segments of any size\<close>
  "arriving s bs \<longleftrightarrow> (\<exists>segs. incoming s = map Received segs \<and> [] \<notin> set segs \<and> concat segs = bs)"

lemma cb_ok_default [simp]: "cb_ok chunk_buffer_default" "contents chunk_buffer_default = []"
  by (simp_all add: cb_ok_def contents_def chunk_buffer_default_def)

lemma length_contents: "cb_ok b \<Longrightarrow> length (contents b) = cb_len b"
  by (simp add: cb_ok_def contents_def)

lemma fill_buffer_ok:
  assumes "cb_ok b" and "length bs \<le> BUFFER_SIZE - cb_len b"
  shows "cb_ok (fill_buffer bs b)" "contents (fill_buffer bs b) = contents b @ bs" "cb_len (fill_buffer bs b) = cb_len b + length bs"
  using assms by (auto simp: cb_ok_def contents_def fill_buffer_def)

lemma shift_loop:
  assumes "n \<le> m" and "m \<le> length data"
  shows "foldl (\<lambda>data i. data[i - n := data ! i]) data [n..<m] = take (m - n) (drop n data) @ drop (m - n) data"
  using assms
proof (induction m)
  case (Suc m)
  show ?case
  proof (cases "n \<le> m")
    case True
    let ?d = "take (m - n) (drop n data) @ drop (m - n) data"
    have "foldl (\<lambda>data i. data[i - n := data ! i]) data [n..<Suc m] = ?d[m - n := ?d ! m]"
      using Suc True by simp
    also have "?d ! m = data ! m" using True Suc.prems(2) by (auto simp: nth_append)
    also have "?d[m - n := data ! m] = take (m - n) (drop n data) @ (drop (m - n) data)[0 := data ! m]"
      using True Suc.prems(2) by (simp add: list_update_append)
    also have "\<dots> = take (Suc m - n) (drop n data) @ drop (Suc m - n) data"
    proof -
      have "drop (m - n) data = data ! (m - n) # drop (Suc (m - n)) data"
        using True Suc.prems(2) by (simp add: Cons_nth_drop_Suc)
      then show ?thesis using True Suc.prems(2) by (simp add: Suc_diff_le take_Suc_conv_app_nth)
    qed
    finally show ?thesis .
  next
    case False
    with Suc.prems have "n = Suc m" by simp
    then show ?thesis by simp
  qed
qed simp

lemma take_chunk_ok:
  assumes "cb_ok b" and "n \<le> cb_len b" and "take_chunk n b = (raw, b')"
  shows "cb_ok b'" "contents b = raw @ contents b'" "raw = take n (contents b)"
proof -
  have b': "b' = \<lparr>cb_len = cb_len b - n, cb_data = take (cb_len b - n) (drop n (cb_data b)) @ drop (cb_len b - n) (cb_data b)\<rparr>"
    and raw: "raw = take n (cb_data b)"
    using assms by (auto simp: take_chunk_def shift_loop cb_ok_def)
  show "cb_ok b'" using assms(1,2) by (auto simp: cb_ok_def b')
  show "raw = take n (contents b)" using assms(2) by (simp add: raw contents_def)
  show "contents b = raw @ contents b'"
    using assms(1,2) take_add [of n "cb_len b - n" "cb_data b"] by (auto simp: cb_ok_def contents_def b' raw min_def)
qed

lemma raw_len_contents:
  "cb_ok b \<Longrightarrow> 2 \<le> cb_len b \<Longrightarrow> raw_len b = from_be (take 2 (contents b)) + 2"
proof -
  assume b: "cb_ok b" "2 \<le> cb_len b"
  then have "take 2 (contents b) = [cb_data b ! 0, cb_data b ! 1]"
    by (intro nth_equalityI) (auto simp: contents_def cb_ok_def less_2_cases_iff)
  then show ?thesis by (simp add: raw_len_def HEADER_LENGTH_def)
qed

definition has_chunk :: "bytes \<Rightarrow> bool" where
  "has_chunk bs \<longleftrightarrow> 2 \<le> length bs \<and> from_be (take 2 bs) + 2 \<le> length bs"

lemma complete_contents: "cb_ok b \<Longrightarrow> HEADER_LENGTH \<le> cb_len b \<and> raw_len b \<le> cb_len b \<longleftrightarrow> has_chunk (contents b)"
  by (auto simp: has_chunk_def HEADER_LENGTH_def raw_len_contents length_contents)

lemma read_arriving:
  assumes "arriving s bs" and "0 < room" and "tcp_read room s = (r, s')"
  shows "(bs = [] \<and> r = Ok [] \<and> s' = s) \<or>
    (\<exists>got rest. r = Ok got \<and> got \<noteq> [] \<and> length got \<le> room \<and> bs = got @ rest \<and> arriving s' rest)"
proof -
  obtain segs where segs: "incoming s = map Received segs" "[] \<notin> set segs" "concat segs = bs" using assms(1) by (auto simp: arriving_def)
  show ?thesis
  proof (cases segs)
    case (Cons x xs)
    show ?thesis
    proof (cases "length x \<le> room")
      case True
      with segs Cons assms show ?thesis by (auto simp: tcp_read_def arriving_def)
    next
      case False
      then have "arriving s' (drop room x @ concat xs)"
        using segs Cons assms by (auto simp: tcp_read_def arriving_def intro!: exI [of _ "drop room x # xs"])
      moreover have "r = Ok (take room x)" "take room x \<noteq> []" "bs = take room x @ drop room x @ concat xs"
        using segs Cons assms False by (auto simp: tcp_read_def)
      ultimately show ?thesis by (metis length_take min.cobounded2)
    qed
  qed (use segs assms in \<open>simp add: tcp_read_def\<close>)
qed

lemma read_outgoing: "tcp_read room s = (r, s') \<Longrightarrow> outgoing s' = outgoing s"
  by (auto simp: tcp_read_def split: list.splits net_event.splits if_splits)

section \<open>Reading a chunk\<close>

lemma has_chunk_append: "has_chunk bs \<Longrightarrow> has_chunk (bs @ cs) \<and> from_be (take 2 (bs @ cs)) = from_be (take 2 bs)"
  by (simp add: has_chunk_def)

lemma read_chunk_step:
  assumes "cb_ok b" and "\<not> has_chunk (contents b)" and "cb_len b < BUFFER_SIZE" and "arriving s bs" and "bs \<noteq> []"
  obtains b' s' bs' where "read_chunk_loop g retry b s = read_chunk_loop g retry b' s'" "cb_ok b'" "arriving s' bs'"
    "contents b' @ bs' = contents b @ bs" "length bs' < length bs" "contents b' \<noteq> []" "outgoing s' = outgoing s"
proof -
  obtain r s' where r: "tcp_read (BUFFER_SIZE - cb_len b) s = (r, s')" by force
  obtain got rest where got: "r = Ok got" "got \<noteq> []" "length got \<le> BUFFER_SIZE - cb_len b" "bs = got @ rest" "arriving s' rest"
    using read_arriving [OF assms(4) _ r] assms(3,5) by auto
  note fill = fill_buffer_ok [OF assms(1) got(3)]
  have "cb_len (fill_buffer got b) \<noteq> 0" using got(2) fill(3) by simp
  then have "read_chunk_loop g retry b s = read_chunk_loop g retry (fill_buffer got b) s'"
    using assms(2) complete_contents [OF assms(1)] by (subst read_chunk_loop.simps) (auto simp: r got(1))
  with that [of "fill_buffer got b" s' rest] fill got read_outgoing [OF r] show ?thesis by simp
qed

lemma framed_take2: "framed ch \<Longrightarrow> from_be (take 2 (chunk_raw ch)) + 2 = length (chunk_raw ch) \<and> 2 \<le> length (chunk_raw ch)"
  by (simp add: framed_def CONTENT_LENGTH_MAX_def unat_length16)

lemma framed_raw: "framed ch \<Longrightarrow> BinaryChunk (chunk_raw ch) = ch"
  by (cases ch) simp

lemma read_chunk_ok:
  assumes "reads_u16 g" and "framed ch" and "length (chunk_raw ch) \<le> BUFFER_SIZE"
  shows "cb_ok b \<Longrightarrow> arriving s bs \<Longrightarrow> contents b @ bs = chunk_raw ch @ rest \<Longrightarrow>
    \<exists>b' s' bs'. read_chunk_loop g retry b s = Some (Ok ch, b', s') \<and> cb_ok b' \<and> arriving s' bs' \<and> contents b' @ bs' = rest
      \<and> outgoing s' = outgoing s"
proof (induction "length bs" arbitrary: b s bs rule: less_induct)
  case less
  note raw = framed_take2 [OF assms(2)]
  show ?case
  proof (cases "has_chunk (contents b)")
    case True
    have two: "take 2 (contents b) = take 2 (chunk_raw ch)"
    proof -
      have "take 2 (contents b @ bs) = take 2 (chunk_raw ch @ rest)" using less.prems(3) by simp
      then show ?thesis using True raw by (simp add: has_chunk_def)
    qed
    have len: "raw_len b = length (chunk_raw ch)"
      using raw_len_contents [OF less.prems(1)] True raw two length_contents [OF less.prems(1)] by (simp add: has_chunk_def)
    obtain chunk b' where t: "take_chunk (raw_len b) b = (chunk, b')" by force
    have le: "raw_len b \<le> cb_len b" using True complete_contents [OF less.prems(1)] by blast
    note taken = take_chunk_ok [OF less.prems(1) le t]
    have "chunk = chunk_raw ch"
    proof -
      have "chunk = take (raw_len b) (contents b @ bs)" using taken(3) le length_contents [OF less.prems(1)] by simp
      then show ?thesis using less.prems(3) len by simp
    qed
    moreover have "chunk_try_from g (chunk_raw ch) = Ok ch"
      using try_from_Ok [OF assms(1)] raw framed_raw [OF assms(2)] by metis
    ultimately have "read_chunk_loop g retry b s = Some (Ok ch, b', s)"
      using True complete_contents [OF less.prems(1)] t by (subst read_chunk_loop.simps) simp
    moreover have "contents b' @ bs = rest" using taken(2) less.prems(3) \<open>chunk = chunk_raw ch\<close> by simp
    ultimately show ?thesis using taken(1) less.prems(2) by blast
  next
    case False
    have short: "length (contents b) < length (chunk_raw ch)"
    proof (rule ccontr)
      assume "\<not> ?thesis"
      then obtain more where "contents b = chunk_raw ch @ more"
        using less.prems(3) by (metis append_eq_append_conv_if append_take_drop_id linorder_not_less)
      with False raw show False by (auto simp: has_chunk_def)
    qed
    have "bs \<noteq> []" using short less.prems(3) by auto
    moreover have "cb_len b < BUFFER_SIZE" using short assms(3) length_contents [OF less.prems(1)] by simp
    ultimately obtain b' s' bs' where next_read: "read_chunk_loop g retry b s = read_chunk_loop g retry b' s'" "cb_ok b'" "arriving s' bs'"
      "contents b' @ bs' = contents b @ bs" "length bs' < length bs" "outgoing s' = outgoing s"
      using read_chunk_step [OF less.prems(1) False _ less.prems(2)] by metis
    with less.hyps [OF next_read(5) next_read(2,3)] less.prems(3) show ?thesis by simp
  qed
qed

text \<open>
  A chunk of more than 65534 bytes does not fit the buffer, and a connection that ends inside a chunk gives no more bytes: then the
  loop goes on without end.
\<close>

definition never_complete :: "bytes \<Rightarrow> bool" where
  "never_complete bs \<longleftrightarrow> bs \<noteq> [] \<and> (has_chunk bs \<longrightarrow> BUFFER_SIZE < from_be (take 2 bs) + 2)"

lemma never_complete_prefix:
  assumes "cb_ok b" and "never_complete (contents b @ bs)"
  shows "\<not> has_chunk (contents b)"
proof
  assume c: "has_chunk (contents b)"
  with has_chunk_append [OF this, of bs] assms(2) have "BUFFER_SIZE < from_be (take 2 (contents b)) + 2"
    by (simp add: never_complete_def)
  with c length_contents [OF assms(1)] assms(1) show False by (simp add: has_chunk_def cb_ok_def)
qed

lemma read_chunk_never:
  assumes "read_chunk_loop g retry b s = Some y"
  shows "cb_ok b \<Longrightarrow> arriving s bs \<Longrightarrow> \<not> never_complete (contents b @ bs)"
proof (rule read_chunk_loop.raw_induct
    [where P = "\<lambda>g retry b s y. \<forall>bs. cb_ok b \<longrightarrow> arriving s bs \<longrightarrow> \<not> never_complete (contents b @ bs)", THEN spec, THEN mp, THEN mp, OF _ assms])
  fix loop g retry b s y
  assume hyp: "\<And>g retry b s y. loop g retry b s = Some y \<Longrightarrow>
      \<forall>bs. cb_ok b \<longrightarrow> arriving s bs \<longrightarrow> \<not> never_complete (contents b @ bs)"
    and body: "(if HEADER_LENGTH \<le> cb_len b \<and> raw_len b \<le> cb_len b then
        (let (chunk, b) = take_chunk (raw_len b) b in Some (unwrap (chunk_try_from g chunk), b, s))
      else
        (case tcp_read (BUFFER_SIZE - cb_len b) s of
           (Ok bs, s) \<Rightarrow>
             (let b = fill_buffer bs b in
              if cb_len b = 0 then
                (if 2 < retry then Some (Err UnexpectedEof, b, s) else loop g (retry + 1) b s)
              else loop g retry b s)
         | (Err e, s) \<Rightarrow> Some (Err e, b, s)
         | (Panic, s) \<Rightarrow> Some (Panic, b, s))) = Some y"
  show "\<forall>bs. cb_ok b \<longrightarrow> arriving s bs \<longrightarrow> \<not> never_complete (contents b @ bs)"
  proof (intro allI impI notI)
    fix bs assume ok: "cb_ok b" "arriving s bs" "never_complete (contents b @ bs)"
    have prefix: "\<not> (HEADER_LENGTH \<le> cb_len b \<and> raw_len b \<le> cb_len b)"
      using never_complete_prefix [OF ok(1,3)] complete_contents [OF ok(1)] by simp
    obtain r s' where r: "tcp_read (BUFFER_SIZE - cb_len b) s = (r, s')" by force
    show False
    proof (cases "cb_len b < BUFFER_SIZE \<and> bs \<noteq> []")
      case True
      then obtain got rest where got: "r = Ok got" "got \<noteq> []" "length got \<le> BUFFER_SIZE - cb_len b" "bs = got @ rest" "arriving s' rest"
        using read_arriving [OF ok(2) _ r] by auto
      note fill = fill_buffer_ok [OF ok(1) got(3)]
      have "cb_len (fill_buffer got b) \<noteq> 0" using got(2) fill(3) by simp
      then have "loop g retry (fill_buffer got b) s' = Some y" using body prefix by (auto simp: r got(1))
      from hyp [OF this] fill(1,2) got(4,5) ok(3) show False by (metis append_assoc)
    next
      case False
      then have "r = Ok [] \<and> s' = s"
      proof (cases "cb_len b < BUFFER_SIZE")
        case True
        with read_arriving [OF ok(2) _ r] False show ?thesis by auto
      qed (use r in \<open>auto simp: tcp_read_def\<close>)
      moreover have "fill_buffer [] b = b" by (cases b) (simp add: fill_buffer_def)
      moreover have "cb_len b \<noteq> 0"
        using False ok(3) by (auto simp: never_complete_def BUFFER_SIZE_def simp flip: length_contents [OF ok(1)])
      ultimately have "loop g retry b s = Some y" using body prefix by (auto simp: r)
      from hyp [OF this] ok show False by blast
    qed
  qed
qed

section \<open>Reading a message\<close>

lemma sealed_Cons:
  assumes "sealed_chunks S I key n ps cs" and "ps \<noteq> []"
  obtains p qs c ds where "ps = p # qs" "cs = c # ds" "framed c" "length (chunk_content c) = length p + MACBYTES"
    "decrypt S I key (chunk_content c) n = Ok p" "sealed_chunks S I key (increment n) qs ds"
  using assms by (cases ps) (auto split: list.splits)

lemma framed_fits: "framed c \<Longrightarrow> length (chunk_content c) = length p + MACBYTES \<Longrightarrow> length p \<le> 65518 \<Longrightarrow> length (chunk_raw c) \<le> BUFFER_SIZE"
  by (simp add: framed_def MACBYTES_def BUFFER_SIZE_def)

lemma read_msg_parts:
  assumes "reads_u16 g" and "from_bytes C T (acc @ concat ps) = Ok m" and "from_be (take 4 (acc @ concat ps)) + 4 = length (acc @ concat ps)"
    and "sealed_chunks S I key n ps cs" and "ps \<noteq> []" and "list_all (\<lambda>p. p \<noteq> [] \<and> length p \<le> 65518) ps"
    and "if acc = [] then len = 0 \<and> 4 \<le> length (hd ps) else len = length (acc @ concat ps)"
    and "cb_ok b" and "arriving s bs" and "contents b @ bs = concat (map chunk_raw cs) @ rest"
  shows "\<exists>b' s' bs'. read_msg_loop g S I C T key True acc len n b s = Some (Ok (m, (increment ^^ length cs) n), b', s')
    \<and> cb_ok b' \<and> arriving s' bs' \<and> contents b' @ bs' = rest"
  using assms(2-10)
proof (induction "length ps" arbitrary: acc ps cs n len b s bs)
  case 0
  then show ?case by simp
next
  case (Suc k)
  obtain p qs c ds where part: "ps = p # qs" "cs = c # ds" "framed c" "length (chunk_content c) = length p + MACBYTES"
    "decrypt S I key (chunk_content c) n = Ok p" "sealed_chunks S I key (increment n) qs ds"
    using sealed_Cons [OF Suc.prems(3,4)] .
  have p: "p \<noteq> []" "length p \<le> 65518" using Suc.prems(5) by (simp_all add: part(1))
  have "contents b @ bs = chunk_raw c @ concat (map chunk_raw ds) @ rest" using Suc.prems(9) by (simp add: part(2))
  then obtain b' s' bs' where chunk: "read_chunk g b s = Some (Ok c, b', s')" "cb_ok b'" "arriving s' bs'"
    "contents b' @ bs' = concat (map chunk_raw ds) @ rest"
    using read_chunk_ok [OF assms(1) part(3) framed_fits [OF part(3,4) p(2)] Suc.prems(7,8), of _ 0] by (auto simp: read_chunk_def)
  let ?all = "acc @ concat ps"
  have four: "4 \<le> length (acc @ p)" if "len = 0" using that Suc.prems(6) by (auto simp: part(1) split: if_splits)
  have head: "from_be (take 4 (acc @ p)) + 4 = length ?all" if "len = 0"
    using four [OF that] Suc.prems(2) by (simp add: part(1))
  have newlen: "(if len = 0 then from_be (take 4 (acc @ p)) + 4 else len) = length ?all"
    using head Suc.prems(6) by (auto split: if_splits)
  have loop: "read_msg_loop g S I C T key True acc len n b s =
      (if length (acc @ p) = length ?all then Some (Ok (m, increment n), b', s')
       else read_msg_loop g S I C T key True (acc @ p) (length ?all) (increment n) b' s')"
  proof -
    have "length (acc @ p) = length ?all \<Longrightarrow> acc @ p = ?all" by (simp add: part(1))
    then show ?thesis
      using newlen four Suc.prems(1) by (subst read_msg_loop.simps) (auto simp: chunk(1) part(5) MESSAGE_HEADER_LENGTH_def Let_def not_le)
  qed
  show ?case
  proof (cases "qs = []")
    case True
    with part(6) have "ds = []" by simp
    then show ?thesis using chunk loop True part(1,2) by (intro exI [of _ b'] exI [of _ s'] exI [of _ bs']) simp
  next
    case False
    have "k = length qs" using Suc.hyps(2) part(1) by simp
    moreover have "length (acc @ p) \<noteq> length ?all"
      using False Suc.prems(5) by (cases qs) (auto simp: part(1))
    ultimately show ?thesis
      using Suc.hyps(1) [of qs "acc @ p" "increment n" ds "length ?all" b' s' bs'] Suc.prems(1,2,5) part False p chunk loop
      by (auto simp: funpow_swap1)
  qed
qed

lemma read_msg_oversized:
  assumes "framed c" and "length (chunk_content c) = length p + MACBYTES" and "65518 < length p" and "cb_ok b" and "arriving s bs"
    and "contents b @ bs = chunk_raw c @ rest"
  shows "read_msg g S I C T key True n b s = None"
proof -
  note raw = framed_take2 [OF assms(1)]
  have len: "65536 < length (chunk_raw c)" using assms(1-3) by (simp add: framed_def MACBYTES_def)
  then have "chunk_raw c \<noteq> []" by auto
  then have "never_complete (contents b @ bs)"
    unfolding assms(6) never_complete_def using raw len by (simp add: BUFFER_SIZE_def)
  then have "read_chunk g b s = None"
    using read_chunk_never [of g 0 b s _ bs] assms(4,5) by (cases "read_chunk_loop g 0 b s") (auto simp: read_chunk_def)
  then show ?thesis unfolding read_msg_def by (subst read_msg_loop.simps) simp
qed

lemma read_msg_short:
  assumes "reads_u16 g" and "framed c" and "length (chunk_raw c) \<le> BUFFER_SIZE" and "decrypt S I key (chunk_content c) n = Ok p" and "length p < 4"
    and "cb_ok b" and "arriving s bs" and "contents b @ bs = chunk_raw c @ rest"
  shows "\<exists>b' s'. read_msg g S I C T key True n b s = Some (Panic, b', s')"
proof -
  obtain b' s' where "read_chunk g b s = Some (Ok c, b', s')"
    using read_chunk_ok [OF assms(1-3,6-8), of 0] by (auto simp: read_chunk_def)
  with assms(4,5) show ?thesis
    unfolding read_msg_def by (subst read_msg_loop.simps) (simp add: MESSAGE_HEADER_LENGTH_def)
qed

section \<open>Writing a message\<close>

definition honest :: "chunk_options \<Rightarrow> bool" where
  \<comment> \<open>no bits flipped and nothing left out; how the bytes are split is open\<close>
  "honest opts \<longleftrightarrow> flip_bits opts = 0 \<and> incomplete_send opts = 0 \<and> is_probability (split_chunks opts)
     \<and> is_probability (split_bytes opts) \<and> is_probability (write_bytes_sleep opts)"

definition sent :: "'g link \<Rightarrow> bytes \<Rightarrow> 'g link \<Rightarrow> bool" where
  "sent l w l' \<longleftrightarrow> keeps_state (lk_gen l) (lk_gen l') \<and> lk_stream l' = (lk_stream l)\<lparr>outgoing := outgoing (lk_stream l) @ w\<rparr>"

lemma sent_refl: "keeps_state (lk_gen l) s \<Longrightarrow> sent l [] (l\<lparr>lk_gen := s\<rparr>)"
  by (simp add: sent_def)

lemma sent_trans: "sent l w l' \<Longrightarrow> sent l' w' l'' \<Longrightarrow> sent l (w @ w') l''"
  by (auto simp: sent_def intro: keeps_trans)

lemma sent_open: "sent l w l' \<Longrightarrow> writes_left (lk_stream l') = writes_left (lk_stream l)"
  by (simp add: sent_def)

lemma in_gen_yields:
  assumes "yields (lk_gen l) m P"
  obtains x l' where "in_gen m l = (Ok x, l')" "P x" "sent l [] l'"
proof -
  obtain x s' where "m (lk_gen l) = (Ok x, s')" "keeps_state (lk_gen l) s'" "P x" using assms by (rule yieldsE)
  with that [of x "l\<lparr>lk_gen := s'\<rparr>"] sent_refl [of l s'] show ?thesis by (simp add: in_gen_def)
qed

lemma write_parts_ok:
  "is_probability (write_bytes_sleep opts) \<Longrightarrow> writes_left (lk_stream l) = None \<Longrightarrow>
   \<exists>l'. write_parts R opts False parts l = (Ok (), l') \<and> sent l (concat parts) l'"
proof (induction parts arbitrary: l)
  case Nil
  then show ?case using sent_refl [of l "lk_gen l"] by simp
next
  case (Cons part parts)
  let ?l = "l\<lparr>lk_stream := (lk_stream l)\<lparr>outgoing := outgoing (lk_stream l) @ part\<rparr>\<rparr>"
  have part: "in_stream (tcp_write part) l = (Ok (), ?l)" "sent l part ?l"
    using Cons.prems(2) by (simp_all add: in_stream_def tcp_write_def sent_def)
  obtain x l1 where x: "in_gen (gen_bool R (write_bytes_sleep opts)) ?l = (Ok x, l1)" "sent ?l [] l1"
    using in_gen_yields [OF yields_bool [OF Cons.prems(1)]] by metis
  have "writes_left (lk_stream l1) = None" using sent_open [OF x(2)] Cons.prems(2) by simp
  then obtain l2 where l2: "write_parts R opts False parts l1 = (Ok (), l2)" "sent l1 (concat parts) l2"
    using Cons.IH [OF Cons.prems(1)] by blast
  have "write_parts R opts False (part # parts) l = (Ok (), l2)"
    by (simp add: bind_call_def part(1) x(1) l2(1))
  with sent_trans [OF part(2) sent_trans [OF x(2) l2(2)]] show ?case by auto
qed

context rng_laws
begin

lemma never_yields: "yields s (gen_bool R 0) (\<lambda>b. \<not> b)"
  using bool_never [of "rs_rng s"] by (auto simp: yields_def gen_bool_def keeps_state_def split: prod.splits)

lemma write_bytes_ok:
  assumes "honest opts" and "writes_left (lk_stream l) = None"
  shows "\<exists>l'. write_bytes R opts bs l = (Ok (), l') \<and> sent l bs l'"
proof -
  obtain split l1 where split: "in_gen (gen_bool R (split_bytes opts)) l = (Ok split, l1)" "sent l [] l1"
    using in_gen_yields [OF yields_bool] assms(1) by (metis honest_def)
  obtain parts l2 where parts: "(if split then in_gen (gen_byte_chunks R bs) else ret [bs]) l1 = (Ok parts, l2)" "concat parts = bs" "sent l1 [] l2"
  proof (cases split)
    case True
    show ?thesis by (rule in_gen_yields [where l = l1, OF gen_byte_chunks_ok [where bs = bs]], rule that) (use True in auto)
  next
    case False
    then show ?thesis using that [of "[bs]" l1] sent_refl [of l1 "lk_gen l1"] by simp
  qed
  obtain inc l3 where inc: "in_gen (gen_bool R 0) l2 = (Ok inc, l3)" "\<not> inc" "sent l2 [] l3"
    using in_gen_yields [OF never_yields] .
  have "writes_left (lk_stream l3) = None" using assms(2) split(2) parts(3) inc(3) by (simp add: sent_open)
  then obtain l4 where l4: "write_parts R opts False parts l3 = (Ok (), l4)" "sent l3 bs l4"
    using write_parts_ok assms(1) parts(2) by (metis honest_def)
  have "write_bytes R opts bs l = (Ok (), l4)"
    using assms(1) split(1) parts(1) inc(1,2) l4(1) by (simp add: write_bytes_def bind_call_def honest_def)
  moreover have "sent l bs l4"
    using sent_trans [OF split(2) sent_trans [OF parts(3) sent_trans [OF inc(3) l4(2)]]] by simp
  ultimately show ?thesis by blast
qed

lemma write_chunks_ok:
  assumes "honest opts"
  shows "writes_left (lk_stream l) = None \<Longrightarrow>
    \<exists>l'. fold_call (\<lambda>chunk _. write_bytes R opts (chunk_raw chunk)) cs () l = (Ok (), l') \<and> sent l (concat (map chunk_raw cs)) l'"
proof (induction cs arbitrary: l)
  case Nil
  then show ?case using sent_refl [of l "lk_gen l"] by simp
next
  case (Cons c cs)
  obtain l1 where l1: "write_bytes R opts (chunk_raw c) l = (Ok (), l1)" "sent l (chunk_raw c) l1"
    using write_bytes_ok [OF assms Cons.prems] by blast
  obtain l2 where "fold_call (\<lambda>chunk _. write_bytes R opts (chunk_raw chunk)) cs () l1 = (Ok (), l2)" "sent l1 (concat (map chunk_raw cs)) l2"
    using Cons.IH [of l1] sent_open [OF l1(2)] Cons.prems by auto
  with l1 sent_trans [OF l1(2)] show ?case by (auto simp: bind_call_def)
qed

end

lemma concat_chunks_of: "0 < n \<Longrightarrow> concat (chunks_of n bs) = bs \<and> list_all (\<lambda>p. p \<noteq> [] \<and> length p \<le> n) (chunks_of n bs)"
proof (induction n bs rule: chunks_of.induct)
  case (1 n bs)
  then show ?case by (subst (1 2) chunks_of.simps) auto
qed

lemma chunks_of_one: "bs \<noteq> [] \<Longrightarrow> length bs \<le> n \<Longrightarrow> chunks_of n bs = [bs]"
  by (cases n; subst chunks_of.simps) (simp_all add: chunks_of.simps [of _ "[]"])

lemma length_chunks: "list_all (\<lambda>p. p \<noteq> []) ps \<Longrightarrow> length ps \<le> length (concat ps)"
proof (induction ps)
  case (Cons p ps)
  then show ?case by (cases p) auto
qed simp

lemma seal_parts_ok:
  assumes "crypto_box S I" and "wire_laws W"
  shows "list_all (\<lambda>p. length p \<le> CONTENT_LENGTH_MAX - MACBYTES) ps \<Longrightarrow> nonce_value n + length ps \<le> 2 ^ 192 \<Longrightarrow>
    \<exists>cs. seal_parts S I W key ps n = Ok (cs, (increment ^^ length ps) n) \<and> sealed_chunks S I key n ps cs"
proof (induction ps arbitrary: n)
  case (Cons p ps)
  then obtain content c where c: "encrypt S I key p n = Ok content" "from_content W content = Ok c" "framed c"
    "length (chunk_content c) = length p + MACBYTES" "decrypt S I key (chunk_content c) n = Ok p"
    using crypto_box.seal_chunk [OF assms, of n p key] by auto
  obtain cs where "seal_parts S I W key ps (increment n) = Ok (cs, (increment ^^ length ps) (increment n))"
    "sealed_chunks S I key (increment n) ps cs"
    using Cons.IH [of "increment n"] Cons.prems by auto
  with c show ?case by (simp add: funpow_swap1)
qed simp

lemma write_encrypted_ok:
  assumes "rng_laws R" and "crypto_box S I" and "wire_laws W" and "honest opts" and "writes_left (lk_stream l) = None"
    and "0 < max_chunk_size (lk_gen l)" and "nonce_value n + length bs \<le> 2 ^ 192"
  shows "\<exists>l' cs ps. write_bytes_encrypted R S I W opts bs key n l = (Ok ((increment ^^ length cs) n), l')
    \<and> sent l (concat (map chunk_raw cs)) l' \<and> sealed_chunks S I key n ps cs \<and> concat ps = bs
    \<and> list_all (\<lambda>p. p \<noteq> [] \<and> length p \<le> CONTENT_LENGTH_MAX - MACBYTES) ps
    \<and> (split_chunks opts = 0 \<longrightarrow> ps = chunks_of (CONTENT_LENGTH_MAX - MACBYTES) bs)
    \<and> (ps = chunks_of (CONTENT_LENGTH_MAX - MACBYTES) bs \<or> list_all (\<lambda>p. length p \<le> 65518) ps)"
proof -
  let ?max = "CONTENT_LENGTH_MAX - MACBYTES"
  obtain flip l1 where flip: "in_gen (gen_bool R 0) l = (Ok flip, l1)" "\<not> flip" "sent l [] l1"
    using in_gen_yields [OF rng_laws.never_yields [OF assms(1)]] .
  obtain split l2 where split: "in_gen (gen_bool R (split_chunks opts)) l1 = (Ok split, l2)" "split_chunks opts = 0 \<Longrightarrow> \<not> split" "sent l1 [] l2"
    using in_gen_yields [OF rng_laws.never_yields [OF assms(1)]] in_gen_yields [OF yields_bool] assms(4) by (metis honest_def)
  have s12: "sent l [] l2" using sent_trans [OF flip(3) split(3)] by simp
  have max: "0 < max_chunk_size (lk_gen l2)"
    using s12 assms(6) keeps_fields [of "lk_gen l" "lk_gen l2"] by (simp add: sent_def)
  obtain cs n' ps l3 where cs: "(if split then in_gen (gen_chunks R S I W bs key n) else lift_res (seal_parts S I W key (chunks_of ?max bs) n)) l2 = (Ok (cs, n'), l3)"
    "sealed_chunks S I key n ps cs" "concat ps = bs" "n' = (increment ^^ length cs) n" "sent l2 [] l3"
    "list_all (\<lambda>p. p \<noteq> [] \<and> length p \<le> ?max) ps" "\<not> split \<longrightarrow> ps = chunks_of ?max bs"
    "split \<longrightarrow> list_all (\<lambda>p. length p \<le> 65518) ps"
  proof (cases split)
    case True
    obtain x l3 where x: "in_gen (gen_chunks R S I W bs key n) l2 = (Ok x, l3)" "sent l2 [] l3"
      "case x of (cs, n') \<Rightarrow> \<exists>ps. sealed_chunks S I key n ps cs \<and> concat ps = bs \<and> n' = (increment ^^ length cs) n
        \<and> list_all (\<lambda>p. p \<noteq> [] \<and> length p \<le> max 1 (min (max_chunk_size (lk_gen l2)) ?max - 1)) ps"
      by (rule in_gen_yields [where l = l2, OF gen_chunks_ok [OF assms(1-3) max assms(7), of key]])
    obtain cs n' where xp: "x = (cs, n')" by force
    then obtain ps where "sealed_chunks S I key n ps cs" "concat ps = bs" "n' = (increment ^^ length cs) n"
      "list_all (\<lambda>p. p \<noteq> [] \<and> length p \<le> max 1 (min (max_chunk_size (lk_gen l2)) ?max - 1)) ps"
      using x(3) by auto
    moreover from this(4) have "list_all (\<lambda>p. p \<noteq> [] \<and> length p \<le> ?max) ps" "list_all (\<lambda>p. length p \<le> 65518) ps"
      by (auto simp: list_all_iff CONTENT_LENGTH_MAX_def MACBYTES_def)
    ultimately show ?thesis using that [of cs n' l3 ps] x xp True by simp
  next
    case False
    have ok: "concat (chunks_of ?max bs) = bs" "list_all (\<lambda>p. p \<noteq> [] \<and> length p \<le> ?max) (chunks_of ?max bs)"
      using concat_chunks_of [of ?max bs] by (simp_all add: CONTENT_LENGTH_MAX_def MACBYTES_def)
    have "length (chunks_of ?max bs) \<le> length bs"
      using length_chunks [of "chunks_of ?max bs"] ok by (auto simp: list_all_iff)
    then obtain cs where sealed: "seal_parts S I W key (chunks_of ?max bs) n = Ok (cs, (increment ^^ length (chunks_of ?max bs)) n)"
      "sealed_chunks S I key n (chunks_of ?max bs) cs"
      using seal_parts_ok [OF assms(2,3), of "chunks_of ?max bs" n key] ok(2) assms(7) by (auto simp: list_all_iff)
    with that [of cs _ l2 "chunks_of ?max bs"] False ok sent_refl [of l2 "lk_gen l2"] sealed_length [OF sealed(2)] show ?thesis by auto
  qed
  have s13: "sent l [] l3" using sent_trans [OF s12 cs(5)] by simp
  obtain l4 where l4: "fold_call (\<lambda>chunk _. write_bytes R opts (chunk_raw chunk)) cs () l3 = (Ok (), l4)" "sent l3 (concat (map chunk_raw cs)) l4"
    using rng_laws.write_chunks_ok [OF assms(1,4)] sent_open [OF s13] assms(5) by metis
  have "write_bytes_encrypted R S I W opts bs key n l = (Ok n', l4)"
    using assms(4) flip(1,2) split(1) cs(1) l4(1) by (simp add: write_bytes_encrypted_def bind_call_def honest_def)
  with cs sent_trans [OF s13 l4(2)] split(2) show ?thesis by auto
qed

section \<open>A scripted source of numbers\<close>

definition rng_ref :: "nat list rng" where
  \<comment> \<open>draws the numbers of a list, then zeros; leaves lists in order\<close>
  "rng_ref =
     \<lparr>rng_seed = (\<lambda>seed. [unat seed]),
      rng_draw = (\<lambda>d n g. case g of [] \<Rightarrow> (0, []) | x # g \<Rightarrow> (x, g)),
      rng_bool = (\<lambda>p g. if p = 0 then (False, g) else if p = p_one then (True, g)
        else case g of [] \<Rightarrow> (False, []) | x # g \<Rightarrow> (odd x, g)),
      rng_shuffle = (\<lambda>xs g. (xs, g))\<rparr>"

interpretation rng_ref: rng_laws rng_ref
  by unfold_locales (simp_all add: rng_ref_def p_one_def)

definition gen_example :: "nat list random_state" where
  "gen_example = \<lparr>rs_rng = [0, 1, 2], blocks_limit = 0, max_chunk_size = 10, fitness_count = 0, blocks = [], last_block = replicate 32 0,
     chain_id = replicate 4 0, current_branch = None, current_head = None, block_header = None, operation = None, protocol = None,
     operations_for_blocks = None\<rparr>"

definition link_example :: "nat list link" where
  "link_example = \<lparr>lk_gen = gen_example, lk_stream = \<lparr>incoming = [], outgoing = [], writes_left = None\<rparr>\<rparr>"

definition plain_options :: chunk_options where
  "plain_options = \<lparr>flip_bits = 0, split_chunks = 0, split_bytes = p_one, incomplete_send = 0, write_bytes_sleep = p_0_01,
     write_bytes_sleep_ms = 20000\<rparr>"

lemma honest_plain: "honest plain_options"
  by (simp add: honest_def plain_options_def)

section \<open>Properties\<close>

text \<open>
  C4. What the reader of the fuzzer makes of a peer message that the fuzzer writes without flipping bits or leaving bytes out. \<^verbatim>\<open>write_msg\<close>
  succeeds and puts out chunks whose plain texts are non-empty parts of the encoded message. A reader with the same key and
  nonce that receives these bytes in segments of any sizes, followed by anything, returns the message and the
  same next nonce whenever the first part has between 4 and 65518 bytes. Without \<^verbatim>\<open>split_chunks\<close> this is every message of at
  most 65518 bytes, which is sent as one chunk. When the first part is shorter, which random splitting can bring
  about, the reader panics; when it is longer, the reader never returns.
\<close>

theorem fuzzer_message_roundtrip:
  assumes "rng_laws R" and "crypto_box S I" and "wire_laws W" and "reads_u16 g" and "reader N C" and "path_reader N P" and "p2p_syn Y"
    and "T = type_of_path (p2p_env N C P W I Y) ''PeerMessageResponse''" and "t_values T r" and "as_bytes W H K T r = Ok bs"
    and "honest opts" and "writes_left (lk_stream l) = None"
    and "0 < max_chunk_size (lk_gen l)" and "nonce_value n + length bs \<le> 2 ^ 192"
  shows "\<exists>n' l' cs ps. write_msg R S I W H K opts T r key n l = (Ok n', l')
    \<and> outgoing (lk_stream l') = outgoing (lk_stream l) @ concat (map chunk_raw cs)
    \<and> sealed_chunks S I key n ps cs \<and> concat ps = bs \<and> ps \<noteq> [] \<and> [] \<notin> set ps
    \<and> (split_chunks opts = 0 \<longrightarrow> length bs \<le> 65518 \<longrightarrow> ps = [bs] \<and> 4 \<le> length bs)
    \<and> (\<forall>s rest. arriving s (concat (map chunk_raw cs) @ rest) \<longrightarrow>
        (if length (hd ps) < 4 then \<exists>b s'. read_msg g S I C T key True n chunk_buffer_default s = Some (Panic, b, s')
         else if 65518 < length (hd ps) then read_msg g S I C T key True n chunk_buffer_default s = None
         else \<exists>b s'. read_msg g S I C T key True n chunk_buffer_default s = Some (Ok (r, n'), b, s')))"
proof -
  let ?max = "CONTENT_LENGTH_MAX - MACBYTES"
  obtain G where G: "T = derive N C W I G (DDynamic (Some MESSAGE_MAX_SIZE) (DStruct ''PeerMessageResponse''
      [(''message'', Some (DPath ''PeerMessage''))]))"
    using peer_response_type [OF assms(7)] assms(8) by metis
  obtain body where body: "length body < 2 ^ 32" "bs = to_be32 (word_of_nat (length body)) @ body"
    using encodes_dynamic as_bytes_encodes [OF assms(3,10,9)] G by blast
  have head: "from_be (take 4 bs) + 4 = length bs" "4 \<le> length bs" using body by (simp_all add: unat_length32)
  have "''PeerMessageResponse'' \<in> fst ` set p2p_encodings" by (simp add: p2p_encodings_def)
  then have "final_ok K (z_bytes W H) T" unfolding assms(8) by (rule p2p_final [OF assms(5-7)])
  then have "t_nom_read T bs = Ok ([], r)" using as_bytes_encodes [OF assms(3,10,9)] by (rule final_okD)
  then have decoded: "from_bytes C T bs = Ok r"
    using ncomb_laws.all_consuming_complete_Ok reader.axioms(2) [OF assms(5)] by (auto simp: from_bytes_def)
  obtain l' cs ps where w: "write_bytes_encrypted R S I W opts bs key n l = (Ok ((increment ^^ length cs) n), l')"
    "sent l (concat (map chunk_raw cs)) l'" "sealed_chunks S I key n ps cs" "concat ps = bs"
    "list_all (\<lambda>p. p \<noteq> [] \<and> length p \<le> ?max) ps" "split_chunks opts = 0 \<longrightarrow> ps = chunks_of ?max bs"
    "ps = chunks_of ?max bs \<or> list_all (\<lambda>p. length p \<le> 65518) ps"
    using write_encrypted_ok [OF assms(1-3,11-14)] by blast
  have ne: "bs \<noteq> []" "ps \<noteq> []" using head(2) w(4) by auto
  have one: "chunks_of ?max bs = [bs]" if "length bs \<le> 65518"
    using chunks_of_one [OF ne(1), of ?max] that by (simp add: CONTENT_LENGTH_MAX_def MACBYTES_def)
  have fit: "list_all (\<lambda>p. p \<noteq> [] \<and> length p \<le> 65518) ps" if "length (hd ps) \<le> 65518"
  proof (cases "ps = chunks_of ?max bs")
    case True
    then have "hd ps = take ?max bs" using ne(1) by (subst (asm) chunks_of.simps) (simp add: CONTENT_LENGTH_MAX_def MACBYTES_def)
    with that have "length bs \<le> 65518" by (simp add: CONTENT_LENGTH_MAX_def MACBYTES_def min_def split: if_splits)
    with one True ne(1) show ?thesis by simp
  next
    case False
    with w(5,7) show ?thesis by (simp add: list_all_iff)
  qed
  obtain p qs c ds where part: "ps = p # qs" "cs = c # ds" "framed c" "length (chunk_content c) = length p + MACBYTES"
    "decrypt S I key (chunk_content c) n = Ok p"
    using sealed_Cons [OF w(3) ne(2)] .
  have read: "if length (hd ps) < 4 then \<exists>b s'. read_msg g S I C T key True n chunk_buffer_default s = Some (Panic, b, s')
      else if 65518 < length (hd ps) then read_msg g S I C T key True n chunk_buffer_default s = None
      else \<exists>b s'. read_msg g S I C T key True n chunk_buffer_default s = Some (Ok (r, (increment ^^ length cs) n), b, s')"
    if ar: "arriving s (concat (map chunk_raw cs) @ rest)" for s rest
  proof -
    have raw: "contents chunk_buffer_default @ concat (map chunk_raw cs) @ rest = chunk_raw c @ concat (map chunk_raw ds) @ rest"
      by (simp add: part(2))
    have "\<exists>b s'. read_msg g S I C T key True n chunk_buffer_default s = Some (Panic, b, s')" if "length p < 4"
      using read_msg_short [OF assms(4) part(3) framed_fits [OF part(3,4)] part(5) that cb_ok_default(1) ar raw] that by simp
    moreover have "read_msg g S I C T key True n chunk_buffer_default s = None" if "65518 < length p"
      by (rule read_msg_oversized [OF part(3,4) that cb_ok_default(1) ar raw])
    moreover have "\<exists>b s'. read_msg g S I C T key True n chunk_buffer_default s = Some (Ok (r, (increment ^^ length cs) n), b, s')"
      if "4 \<le> length p" "length p \<le> 65518"
      using read_msg_parts [OF assms(4), of C T "[]" ps r S I key n cs 0 chunk_buffer_default s _ rest]
        decoded head(1) w(3,4) ne(2) fit ar that by (auto simp: part(1) read_msg_def)
    ultimately show ?thesis by (simp add: part(1))
  qed
  have "outgoing (lk_stream l') = outgoing (lk_stream l) @ concat (map chunk_raw cs)" using w(2) by (simp add: sent_def)
  moreover have "write_msg R S I W H K opts T r key n l = (Ok ((increment ^^ length cs) n), l')"
    using w(1) assms(10) by (simp add: write_msg_def bind_call_def)
  moreover have "[] \<notin> set ps" using w(5) by (auto simp: list_all_iff)
  ultimately show ?thesis
    by (intro exI [of _ "(increment ^^ length cs) n"] exI [of _ l'] exI [of _ cs] exI [of _ ps] conjI allI impI read)
      (use w(3,4,6) ne(2) one head(2) in simp_all)
qed

theorem fuzzer_message_roundtrip_witness:
  "\<exists>n' l' w. write_msg rng_ref sodium_ref bigint_ref wire_ref hex_ref num_ser_ref plain_options (ref_type ''PeerMessageResponse'')
      bootstrap_example [5] \<lparr>nonce_value = 7\<rparr> link_example = (Ok n', l')
    \<and> outgoing (lk_stream l') = w
    \<and> (\<exists>b s'. read_msg get_u16_ref sodium_ref bigint_ref ncomb_ref (ref_type ''PeerMessageResponse'') [5] True \<lparr>nonce_value = 7\<rparr>
        chunk_buffer_default \<lparr>incoming = map (\<lambda>x. Received [x]) w, outgoing = [], writes_left = None\<rparr> = Some (Ok (bootstrap_example, n'), b, s'))"
proof -
  have ar: "arriving \<lparr>incoming = map (\<lambda>x. Received [x]) w, outgoing = [], writes_left = None\<rparr> w" for w
    by (auto simp: arriving_def intro!: exI [of _ "map (\<lambda>x. [x]) w"] simp: concat_map_singleton)
  let ?T = "ref_type ''PeerMessageResponse''"
  have link: "writes_left (lk_stream link_example) = None" "0 < max_chunk_size (lk_gen link_example)"
    "nonce_value \<lparr>nonce_value = 7\<rparr> + length [0, 0, 0, 2, 0, 2 :: u8] \<le> 2 ^ 192"
    by (simp_all add: link_example_def gen_example_def)
  obtain n' l' cs ps where
    w: "write_msg rng_ref sodium_ref bigint_ref wire_ref hex_ref num_ser_ref plain_options ?T bootstrap_example [5]
        \<lparr>nonce_value = 7\<rparr> link_example = (Ok n', l')"
      "outgoing (lk_stream l') = outgoing (lk_stream link_example) @ concat (map chunk_raw cs)"
    and one: "split_chunks plain_options = 0 \<longrightarrow> length [0, 0, 0, 2, 0, 2 :: u8] \<le> 65518 \<longrightarrow> ps = [[0, 0, 0, 2, 0, 2 :: u8]] \<and> 4 \<le> length [0, 0, 0, 2, 0, 2 :: u8]"
    and read: "\<forall>s rest. arriving s (concat (map chunk_raw cs) @ rest) \<longrightarrow>
        (if length (hd ps) < 4 then \<exists>b s'. read_msg get_u16_ref sodium_ref bigint_ref ncomb_ref ?T [5] True \<lparr>nonce_value = 7\<rparr> chunk_buffer_default s = Some (Panic, b, s')
         else if 65518 < length (hd ps) then read_msg get_u16_ref sodium_ref bigint_ref ncomb_ref ?T [5] True \<lparr>nonce_value = 7\<rparr> chunk_buffer_default s = None
         else \<exists>b s'. read_msg get_u16_ref sodium_ref bigint_ref ncomb_ref ?T [5] True \<lparr>nonce_value = 7\<rparr> chunk_buffer_default s = Some (Ok (bootstrap_example, n'), b, s'))"
    using fuzzer_message_roundtrip [OF rng_ref.rng_laws_axioms crypto_box_ref.crypto_box_axioms wire_ref.wire_laws_axioms reads_u16_ref
        reader_ref.reader_axioms path_ref.path_reader_axioms syn_ref.p2p_syn_axioms refl bootstrap_example_ok honest_plain link, of "[5]"]
    by (elim exE conjE) (rule that)
  have "ps = [[0, 0, 0, 2, 0, 2]]" using one by (simp add: plain_options_def)
  with read [rule_format, of _ "[]"] ar [of "concat (map chunk_raw cs)"] w show ?thesis by (simp add: link_example_def)
qed

text \<open>
  C26. Random splitting loses nothing: \<^verbatim>\<open>gen_chunks\<close> returns for every message and every positive chunk size, and the chunks, decrypted in their order with
  consecutive nonces, are non-empty parts of at most one byte less than the chunk size (one byte when that is 1 or 2)
  that make up the message.
\<close>

theorem gen_chunks_reassemble:
  assumes "rng_laws R" and "crypto_box S I" and "wire_laws W" and "0 < max_chunk_size s" and "nonce_value n + length bs \<le> 2 ^ 192"
  shows "\<exists>cs n' s' ps. gen_chunks R S I W bs key n s = (Ok (cs, n'), s') \<and> n' = (increment ^^ length cs) n
    \<and> sealed_chunks S I key n ps cs \<and> concat ps = bs
    \<and> list_all (\<lambda>p. p \<noteq> [] \<and> length p \<le> max 1 (min (max_chunk_size s) (CONTENT_LENGTH_MAX - MACBYTES) - 1)) ps"
  using gen_chunks_ok [OF assms, of key] by (auto simp: yields_def)

theorem gen_chunks_reassemble_witness:
  "\<exists>cs n' s' ps. gen_chunks rng_ref sodium_ref bigint_ref wire_ref [1, 2, 3] [5] \<lparr>nonce_value = 7\<rparr> gen_example = (Ok (cs, n'), s')
    \<and> n' = (increment ^^ length cs) \<lparr>nonce_value = 7\<rparr>
    \<and> sealed_chunks sodium_ref bigint_ref [5] \<lparr>nonce_value = 7\<rparr> ps cs \<and> concat ps = [1, 2, 3]
    \<and> list_all (\<lambda>p. p \<noteq> [] \<and> length p \<le> 9) ps"
  using gen_chunks_reassemble [OF rng_ref.rng_laws_axioms crypto_box_ref.crypto_box_axioms wire_ref.wire_laws_axioms,
      of gen_example "\<lparr>nonce_value = 7\<rparr>" "[1, 2, 3]" "[5]"]
  by (simp add: gen_example_def CONTENT_LENGTH_MAX_def MACBYTES_def)

text \<open>
  C28. \<^verbatim>\<open>read_chunk\<close> need not return: when the connection ends inside a chunk, or a chunk announces 65535 bytes, which with its header
  are more than the buffer holds, the loop reads zero bytes for ever. The check for zero-length reads only looks at an empty buffer.
\<close>

theorem read_chunk_spins:
  assumes "cb_ok b" and "arriving s bs" and "contents b @ bs \<noteq> []"
    and "length (contents b @ bs) < 2 \<or> length (contents b @ bs) < from_be (take 2 (contents b @ bs)) + 2
      \<or> from_be (take 2 (contents b @ bs)) = 65535"
  shows "read_chunk g b s = None"
proof (rule ccontr)
  assume "read_chunk g b s \<noteq> None"
  then obtain y where "read_chunk_loop g 0 b s = Some y" by (auto simp: read_chunk_def)
  moreover have "never_complete (contents b @ bs)"
    using assms(3,4) by (auto simp: never_complete_def has_chunk_def BUFFER_SIZE_def)
  ultimately show False using read_chunk_never [OF _ assms(1,2)] by blast
qed

theorem read_chunk_spins_witness:
  "read_chunk get_u16_ref chunk_buffer_default \<lparr>incoming = [Received [0, 9], Received [1]], outgoing = [], writes_left = None\<rparr> = None"
proof (rule read_chunk_spins)
  show "arriving \<lparr>incoming = [Received [0, 9], Received [1]], outgoing = [], writes_left = None\<rparr> [0, 9, 1]"
    by (auto simp: arriving_def intro!: exI [of _ "[[0, 9], [1]]"])
qed (simp_all add: from_be_def)

text \<open>
  C30. A first chunk of fewer than four bytes makes the reader of a peer message panic: \<^verbatim>\<open>read_msg\<close> takes the length of the message from the first
  four bytes without checking that they are there. Such chunks are legal, and \<^verbatim>\<open>gen_chunks\<close> makes them itself.
\<close>

theorem short_first_chunk_panics:
  assumes "reads_u16 g" and "framed c" and "decrypt S I key (chunk_content c) n = Ok p" and "length p < 4"
    and "length (chunk_content c) = length p + MACBYTES" and "cb_ok b" and "arriving s bs" and "contents b @ bs = chunk_raw c @ rest"
  shows "\<exists>b' s'. read_msg g S I C T key True n b s = Some (Panic, b', s')"
  using read_msg_short [OF assms(1,2) framed_fits [OF assms(2,5)] assms(3,4,6-8)] assms(4) by simp

theorem short_first_chunk_panics_witness:
  "\<exists>c. decrypt sodium_ref bigint_ref [5] (chunk_content c) \<lparr>nonce_value = 7\<rparr> = Ok [0, 0, 0]
    \<and> (\<exists>b' s'. read_msg get_u16_ref sodium_ref bigint_ref ncomb_ref (ref_type ''PeerMessageResponse'') [5] True \<lparr>nonce_value = 7\<rparr>
        chunk_buffer_default \<lparr>incoming = [Received (chunk_raw c)], outgoing = [], writes_left = None\<rparr> = Some (Panic, b', s'))"
proof -
  obtain c where c: "framed c" "length (chunk_content c) = length [0, 0, 0 :: u8] + MACBYTES"
    "decrypt sodium_ref bigint_ref [5] (chunk_content c) \<lparr>nonce_value = 7\<rparr> = Ok [0, 0, 0]"
    using crypto_box.seal_chunk [OF crypto_box_ref.crypto_box_axioms wire_ref.wire_laws_axioms, of "\<lparr>nonce_value = 7\<rparr>" "[0, 0, 0]" "[5]"]
    by (auto simp: CONTENT_LENGTH_MAX_def MACBYTES_def)
  have "arriving \<lparr>incoming = [Received (chunk_raw c)], outgoing = [], writes_left = None\<rparr> (chunk_raw c)"
    using framed_take2 [OF c(1)] by (auto simp: arriving_def intro!: exI [of _ "[chunk_raw c]"])
  from short_first_chunk_panics [OF reads_u16_ref c(1,3) _ c(2) cb_ok_default(1) this, of "[]"] c(3) show ?thesis by auto
qed

end
