(* ===== verification/Message_Values.thy ===== *)
theory Message_Values
  imports P2p_Stream
begin

text \<open>
  The constructors and getters of the message types of \<^verbatim>\<open>tezos/messages/src/p2p/encoding\<close>, as the fuzzer uses them. A message is
  a \<open>rust\<close> value of the type of that name in \<open>Messages\<close>; a hash is kept as its bytes outside of messages.
\<close>

section \<open>Values\<close>

definition bytes_value :: "bytes \<Rightarrow> rust" where
  "bytes_value bs = RSeq (map RU8 bs)"

definition hash_value :: "string \<Rightarrow> bytes \<Rightarrow> rust" where
  "hash_value name h = RNewtypeStruct name (bytes_value h)"

fun seq_items :: "rust \<Rightarrow> rust list" where
  "seq_items (RSeq rs) = rs"
| "seq_items _ = []"

fun u8_of :: "rust \<Rightarrow> u8" where
  "u8_of (RU8 b) = b"
| "u8_of _ = 0"

definition value_u8s :: "rust \<Rightarrow> bytes" where
  "value_u8s r = map u8_of (seq_items r)"

fun hash_of :: "rust \<Rightarrow> bytes" where
  "hash_of (RNewtypeStruct name r) = value_u8s r"
| "hash_of _ = []"

fun get_field :: "string \<Rightarrow> rust \<Rightarrow> rust" where
  "get_field f (RStruct name fs) = (case map_of fs f of Some v \<Rightarrow> v | None \<Rightarrow> RUnit)"
| "get_field f _ = RUnit"

section \<open>Constructors\<close>

definition decimal :: "nat \<Rightarrow> bytes" where
  "decimal n = (if n = 0 then [48] else map (\<lambda>d. byte (48 + d)) (digits 10 n))"

definition socket_addr_text :: "bytes \<times> u16 \<Rightarrow> bytes" where
  \<comment> \<open>the address and port as \<open>a.b.c.d:port\<close>\<close>
  "socket_addr_text = (\<lambda>(ip, port).
     decimal (unat (ip ! 0)) @ [46] @ decimal (unat (ip ! 1)) @ [46] @ decimal (unat (ip ! 2)) @ [46] @ decimal (unat (ip ! 3))
     @ [58] @ decimal (unat port))"

definition advertise_message_new :: "(bytes \<times> u16) list \<Rightarrow> rust" where
  "advertise_message_new addresses =
     RStruct ''AdvertiseMessage'' [(''id'', RSeq (map (\<lambda>a. RStr (socket_addr_text a)) addresses))]"

definition swap_message_new :: "bytes \<Rightarrow> bytes \<Rightarrow> rust" where
  "swap_message_new point peer_id =
     RStruct ''SwapMessage'' [(''point'', RStr point), (''peer_id'', hash_value ''CryptoboxPublicKeyHash'' peer_id)]"

definition get_current_branch_message_new :: "bytes \<Rightarrow> rust" where
  "get_current_branch_message_new chain = RStruct ''GetCurrentBranchMessage'' [(''chain_id'', hash_value ''ChainId'' chain)]"

definition current_branch_new :: "rust \<Rightarrow> rust list \<Rightarrow> rust" where
  "current_branch_new head history = RStruct ''CurrentBranch'' [(''current_head'', head), (''history'', RSeq history)]"

definition current_branch_message_new :: "bytes \<Rightarrow> rust \<Rightarrow> rust" where
  "current_branch_message_new chain branch =
     RStruct ''CurrentBranchMessage'' [(''chain_id'', hash_value ''ChainId'' chain), (''current_branch'', branch)]"

definition deactivate_message_new :: "bytes \<Rightarrow> rust" where
  "deactivate_message_new chain = RStruct ''DeactivateMessage'' [(''deactivate'', hash_value ''ChainId'' chain)]"

definition get_current_head_message_new :: "bytes \<Rightarrow> rust" where
  "get_current_head_message_new chain = RStruct ''GetCurrentHeadMessage'' [(''chain_id'', hash_value ''ChainId'' chain)]"

definition mempool_new :: "rust list \<Rightarrow> rust list \<Rightarrow> rust" where
  "mempool_new known_valid pending = RStruct ''Mempool'' [(''known_valid'', RSeq known_valid), (''pending'', RSeq pending)]"

definition current_head_message_new :: "bytes \<Rightarrow> rust \<Rightarrow> rust \<Rightarrow> rust" where
  "current_head_message_new chain header pool =
     RStruct ''CurrentHeadMessage''
       [(''chain_id'', hash_value ''ChainId'' chain), (''current_block_header'', header), (''current_mempool'', pool)]"

definition get_block_headers_message_new :: "rust list \<Rightarrow> rust" where
  "get_block_headers_message_new hashes = RStruct ''GetBlockHeadersMessage'' [(''get_block_headers'', RSeq hashes)]"

definition block_header_message_from :: "rust \<Rightarrow> rust" where
  "block_header_message_from header = RStruct ''BlockHeaderMessage'' [(''block_header'', header)]"

definition get_operations_message_new :: "rust list \<Rightarrow> rust" where
  "get_operations_message_new ops = RStruct ''GetOperationsMessage'' [(''get_operations'', RSeq ops)]"

definition operation_new :: "bytes \<Rightarrow> bytes \<Rightarrow> rust" where
  "operation_new branch data = RStruct ''Operation'' [(''branch'', hash_value ''BlockHash'' branch), (''data'', bytes_value data)]"

definition operation_message_from :: "rust \<Rightarrow> rust" where
  "operation_message_from op = RStruct ''OperationMessage'' [(''operation'', op)]"

definition get_protocols_message_new :: "rust list \<Rightarrow> rust" where
  "get_protocols_message_new hashes = RStruct ''GetProtocolsMessage'' [(''get_protocols'', RSeq hashes)]"

definition component_new :: "bytes \<Rightarrow> rust \<Rightarrow> bytes \<Rightarrow> rust" where
  "component_new name interface implementation =
     RStruct ''Component'' [(''name'', RStr name), (''interface'', interface), (''implementation'', RStr implementation)]"

definition protocol_new :: "u16 \<Rightarrow> rust list \<Rightarrow> rust" where
  "protocol_new version components =
     RStruct ''Protocol'' [(''expected_env_version'', RI16 version), (''components'', RSeq components)]"

definition protocol_message_new :: "rust \<Rightarrow> rust" where
  "protocol_message_new p = RStruct ''ProtocolMessage'' [(''protocol'', p)]"

definition operations_for_block_new :: "bytes \<Rightarrow> u8 \<Rightarrow> rust" where
  "operations_for_block_new h pass =
     RStruct ''OperationsForBlock'' [(''hash'', hash_value ''BlockHash'' h), (''validation_pass'', RI8 pass)]"

definition get_operations_for_blocks_message_new :: "rust list \<Rightarrow> rust" where
  "get_operations_for_blocks_message_new ops =
     RStruct ''GetOperationsForBlocksMessage'' [(''get_operations_for_blocks'', RSeq ops)]"

definition operations_for_blocks_message_new :: "rust \<Rightarrow> rust \<Rightarrow> rust list \<Rightarrow> rust" where
  "operations_for_blocks_message_new ofb path ops =
     RStruct ''OperationsForBlocksMessage''
       [(''operations_for_block'', ofb), (''operation_hashes_path'', path), (''operations'', RSeq ops)]"

definition network_version_new :: "bytes \<Rightarrow> u16 \<Rightarrow> u16 \<Rightarrow> rust" where
  "network_version_new chain_name db p2p =
     RStruct ''NetworkVersion'' [(''chain_name'', RStr chain_name), (''distributed_db_version'', RU16 db), (''p2p_version'', RU16 p2p)]"

definition connection_message_try_new :: "bigint \<Rightarrow> u16 \<Rightarrow> bytes \<Rightarrow> bytes \<Rightarrow> nonce \<Rightarrow> rust \<Rightarrow> (crypto_error, rust) res" where
  "connection_message_try_new I port public_key pow nonce version =
     res_bind (get_bytes I nonce) (\<lambda>nonce_bytes.
       Ok (RStruct ''ConnectionMessage''
         [(''port'', RU16 port), (''public_key'', bytes_value public_key), (''proof_of_work_stamp'', bytes_value pow),
          (''message_nonce'', bytes_value nonce_bytes), (''version'', version)]))"

definition metadata_message_new :: "bool \<Rightarrow> bool \<Rightarrow> rust" where
  "metadata_message_new disable_mempool private_node =
     RStruct ''MetadataMessage'' [(''disable_mempool'', RBool disable_mempool), (''private_node'', RBool private_node)]"

definition nack_motive :: "nat \<Rightarrow> rust" where
  \<comment> \<open>the variants in the order of the declaration\<close>
  "nack_motive i =
     RUnitVariant ''NackMotive'' (word_of_nat i)
       ([''NoMotive'', ''TooManyConnections'', ''UnknownChainName'', ''DeprecatedP2pVersion'', ''DeprecatedDistributedDbVersion'',
         ''AlreadyConnected''] ! i)"

definition nack_info_new :: "rust \<Rightarrow> bytes list \<Rightarrow> rust" where
  "nack_info_new motive peers = RStruct ''NackInfo'' [(''motive'', motive), (''potential_peers_to_connect'', RSeq (map RStr peers))]"

definition ack_value :: rust where "ack_value = RUnitVariant ''AckMessage'' 0 ''Ack''"

definition nack_v0_value :: rust where "nack_v0_value = RUnitVariant ''AckMessage'' 1 ''NackV0''"

definition nack_value :: "rust \<Rightarrow> rust" where "nack_value info = RNewtypeVariant ''AckMessage'' 2 ''Nack'' info"

text \<open>The variants of \<^verbatim>\<open>PeerMessage\<close> in the order of their declaration; serde numbers them so.\<close>

definition peer_variants :: "string list" where
  "peer_variants =
     [''Disconnect'', ''Advertise'', ''SwapRequest'', ''SwapAck'', ''Bootstrap'', ''GetCurrentBranch'', ''CurrentBranch'', ''Deactivate'',
      ''GetCurrentHead'', ''CurrentHead'', ''GetBlockHeaders'', ''BlockHeader'', ''GetOperations'', ''Operation'', ''GetProtocols'',
      ''Protocol'', ''GetOperationsForBlocks'', ''OperationsForBlocks'']"

definition peer_index :: "string \<Rightarrow> u32" where
  "peer_index v = word_of_nat (length (takeWhile (\<lambda>x. x \<noteq> v) peer_variants))"

definition peer_message :: "string \<Rightarrow> rust \<Rightarrow> rust" where
  "peer_message variant msg = RNewtypeVariant ''PeerMessage'' (peer_index variant) variant msg"

definition peer_unit :: "string \<Rightarrow> rust" where
  "peer_unit variant = RUnitVariant ''PeerMessage'' (peer_index variant) variant"

definition peer_message_response_from :: "rust \<Rightarrow> rust" where
  "peer_message_response_from msg = RStruct ''PeerMessageResponse'' [(''message'', msg)]"

section \<open>The builder of block headers\<close>

text \<open>The builder holds the fields set so far; building fails when one is missing.\<close>

type_synonym builder = "(string \<times> rust) list"

definition header_fields :: "string list" where
  "header_fields =
     [''level'', ''proto'', ''predecessor'', ''timestamp'', ''validation_pass'', ''operations_hash'', ''fitness'', ''context'',
      ''protocol_data'']"

definition builder_set :: "string \<Rightarrow> rust \<Rightarrow> builder \<Rightarrow> builder" where
  "builder_set f v b = AList.update f v b"

definition builder_build :: "builder \<Rightarrow> (unit, rust) res" where
  "builder_build b =
     (if list_all (\<lambda>f. map_of b f \<noteq> None) header_fields
      then Ok (RStruct ''BlockHeader'' (map (\<lambda>f. (f, the (map_of b f))) header_fields))
      else Err ())"

definition fitness_value :: "bytes list \<Rightarrow> rust" where
  "fitness_value fs = RSeq (map bytes_value fs)"

definition header_builder :: "u32 \<Rightarrow> u8 \<Rightarrow> bytes \<Rightarrow> u64 \<Rightarrow> u8 \<Rightarrow> bytes \<Rightarrow> bytes list \<Rightarrow> bytes \<Rightarrow> bytes \<Rightarrow> builder" where
  \<comment> \<open>the setters, called in this order\<close>
  "header_builder level proto predecessor timestamp validation_pass operations_hash fitness context protocol_data =
     builder_set ''protocol_data'' (bytes_value protocol_data)
     (builder_set ''context'' (hash_value ''ContextHash'' context)
     (builder_set ''fitness'' (fitness_value fitness)
     (builder_set ''operations_hash'' (hash_value ''OperationListListHash'' operations_hash)
     (builder_set ''validation_pass'' (RU8 validation_pass)
     (builder_set ''timestamp'' (RI64 timestamp)
     (builder_set ''predecessor'' (hash_value ''BlockHash'' predecessor)
     (builder_set ''proto'' (RU8 proto)
     (builder_set ''level'' (RI32 level) []))))))))"

definition header_fitness :: "rust \<Rightarrow> bytes list" where
  "header_fitness header = map value_u8s (seq_items (get_field ''fitness'' header))"

end
