(* ===== verification/Gen_Messages.thy ===== *)
theory Gen_Messages
  imports Message_Values
begin

unbundle bit_operations_syntax

text \<open>
  The generators and mutators of messages, \<^verbatim>\<open>generator/src/lib.rs\<close>: one definition per \<^verbatim>\<open>Generator\<close> and \<^verbatim>\<open>Mutator\<close>
  implementation, over the state of \<open>Gen_State\<close>. Messages received from the node are recorded in the state; once one is there,
  the generators mutate it.
\<close>

section \<open>Environment\<close>

text \<open>
  The crates, the message types, the overflow checks of the build, and the order in which a hash map lists its keys, of which
  the program takes the first.
\<close>

record ('g, 'st) gen_env =
  ge_rng :: "'g rng"
  ge_sodium :: "'st sodium"
  ge_bigint :: bigint
  ge_wire :: wire
  ge_hex :: hex_crate
  ge_num :: num_ser
  ge_get_u16 :: get_u16
  ge_ncomb :: "rust ncomb"
  ge_types :: "string \<Rightarrow> rtype"
  ge_checks :: bool
  ge_first_key :: "bytes list \<Rightarrow> bytes"

definition value_bytes_of :: "('g, 'st) gen_env \<Rightarrow> string \<Rightarrow> rust \<Rightarrow> (io_error, bytes) res" where
  \<comment> \<open>\<open>as_bytes().unwrap()\<close>\<close>
  "value_bytes_of E name r = unwrap (as_bytes (ge_wire E) (ge_hex E) (ge_num E) (ge_types E name) r)"

definition sub_usize :: "bool \<Rightarrow> nat \<Rightarrow> nat \<Rightarrow> ('s, 'e, nat) call" where
  "sub_usize checks a b = overflowing checks (a < b) (if b \<le> a then a - b else a + 2 ^ 64 - b)"

section \<open>Recorded messages\<close>

definition set_chain_id :: "bytes \<Rightarrow> ('g, unit) gen" where
  "set_chain_id chain s = (Ok (), s\<lparr>chain_id := chain\<rparr>)"

definition fitness_number :: "bytes list \<Rightarrow> (io_error, u64) res" where
  \<comment> \<open>\<open>u64::from_be_bytes(fitness[1].clone().try_into().unwrap())\<close>\<close>
  "fitness_number fitness = (if length (fitness ! 1) = 8 then Ok (word_of_nat (from_be (fitness ! 1))) else Panic)"

definition set_current_branch :: "rust \<Rightarrow> ('g, unit) gen" where
  "set_current_branch msg =
     (let fitness = header_fitness (get_field ''current_head'' (get_field ''current_branch'' msg)) in
      if 1 < length fitness then
        bind_call (lift_res (fitness_number fitness)) (\<lambda>n s. (Ok (), s\<lparr>fitness_count := n, current_branch := Some msg\<rparr>))
      else ret ())"

definition set_current_head :: "rust \<Rightarrow> ('g, unit) gen" where
  "set_current_head msg =
     (let fitness = header_fitness (get_field ''current_block_header'' msg) in
      if 1 < length fitness then
        bind_call (lift_res (fitness_number fitness)) (\<lambda>n s. (Ok (), s\<lparr>fitness_count := n, current_head := Some msg\<rparr>))
      else ret ())"

definition set_block_header :: "rust \<Rightarrow> ('g, unit) gen" where
  "set_block_header msg s = (Ok (), s\<lparr>block_header := Some msg\<rparr>)"

definition set_operation :: "rust \<Rightarrow> ('g, unit) gen" where
  "set_operation msg s = (Ok (), s\<lparr>operation := Some msg\<rparr>)"

definition set_protocol :: "rust \<Rightarrow> ('g, unit) gen" where
  "set_protocol msg s = (Ok (), s\<lparr>protocol := Some msg\<rparr>)"

definition set_operations_for_blocks :: "rust \<Rightarrow> ('g, unit) gen" where
  "set_operations_for_blocks msg s = (Ok (), s\<lparr>operations_for_blocks := Some msg\<rparr>)"

definition read_state :: "('g random_state \<Rightarrow> 'a) \<Rightarrow> ('g, 'a) gen" where
  \<comment> \<open>the getters\<close>
  "read_state f s = (Ok (f s), s)"

definition block_hash :: "('g, 'st) gen_env \<Rightarrow> rust \<Rightarrow> (io_error, bytes) res" where
  "block_hash E bh =
     res_bind (unwrap (message_hash (ge_sodium E) (ge_wire E) (ge_hex E) (ge_num E) (ge_types E ''BlockHeader'') bh)) (\<lambda>h.
       unwrap (try_from_bytes BlockHash h))"

definition get_block :: "bytes \<Rightarrow> ('g, rust option) gen" where
  "get_block h s = (Ok (map_option block_header_message_from (map_of (blocks s) h)), s)"

definition set_last_block_hash :: "bytes \<Rightarrow> ('g, unit) gen" where
  "set_last_block_hash h s = (Ok (), s\<lparr>last_block := h\<rparr>)"

section \<open>Addresses and hashes\<close>

definition gen_ip_addr :: "('g, 'st) gen_env \<Rightarrow> ('g, bytes) gen" where
  "gen_ip_addr E = gen_vec (ge_rng E) 4"

definition gen_socket_addr :: "('g, 'st) gen_env \<Rightarrow> ('g, bytes \<times> u16) gen" where
  "gen_socket_addr E = bind_call (gen_ip_addr E) (\<lambda>ip. bind_call (gen_word (ge_rng E)) (\<lambda>port. ret (ip, port)))"

definition gen_hash :: "('g, 'st) gen_env \<Rightarrow> hash_type \<Rightarrow> ('g, bytes) gen" where
  "gen_hash E ht = bind_call (gen_vec (ge_rng E) (hash_size ht)) (\<lambda>bs. lift_res (unwrap (try_from_bytes ht bs)))"

definition mutate_hash :: "bytes \<Rightarrow> ('g, bytes) gen" where
  "mutate_hash data = ret data"

definition gen_hashes :: "('g, 'st) gen_env \<Rightarrow> nat \<Rightarrow> string \<Rightarrow> hash_type \<Rightarrow> ('g, rust list) gen" where
  \<comment> \<open>\<open>(0..n).map(..).collect()\<close> over hashes\<close>
  "gen_hashes E n name ht = repeat_call n (bind_call (gen_hash E ht) (\<lambda>h. ret (hash_value name h)))"

definition gen_chain_id :: "('g, 'st) gen_env \<Rightarrow> ('g, bytes) gen" where
  \<comment> \<open>a random chain or the recorded one, a choice made in five generators\<close>
  "gen_chain_id E =
     bind_call (gen_bool (ge_rng E) p_0_5) (\<lambda>b. if b then gen_hash E ChainId else read_state chain_id)"

section \<open>Points\<close>

definition P2P_POINT_MAX_LENGTH :: nat where "P2P_POINT_MAX_LENGTH = P2P_POINT_MAX_SIZE - 4"

definition gen_advertise :: "('g, 'st) gen_env \<Rightarrow> ('g, rust) gen" where
  "gen_advertise E =
     bind_call (gen_range (ge_rng E) 0 ADVERTISE_ID_LIST_MAX_LENGTH) (\<lambda>n.
     bind_call (repeat_call n (gen_socket_addr E)) (\<lambda>addresses. ret (advertise_message_new addresses)))"

definition gen_swap :: "('g, 'st) gen_env \<Rightarrow> ('g, rust) gen" where
  "gen_swap E =
     bind_call (gen_range (ge_rng E) 0 P2P_POINT_MAX_LENGTH) (\<lambda>size_bytes.
     bind_call (gen_hash E CryptoboxPublicKeyHash) (\<lambda>peer_id.
     bind_call (gen_string (ge_rng E) size_bytes) (\<lambda>point. ret (swap_message_new point peer_id))))"

definition gen_get_current_branch :: "('g, 'st) gen_env \<Rightarrow> ('g, rust) gen" where
  "gen_get_current_branch E = bind_call (gen_chain_id E) (\<lambda>chain. ret (get_current_branch_message_new chain))"

section \<open>Block headers\<close>

function (sequential) fitness_loop :: "'g rng \<Rightarrow> bytes list \<Rightarrow> nat \<Rightarrow> nat \<Rightarrow> ('g, bytes list \<times> nat) gen" where
  \<comment> \<open>at most 28 bytes are subtracted from \<open>remaining\<close> in total, which starts above that\<close>
  "fitness_loop R fitness remaining_fitness_size remaining s =
     bind_call (gen_range R 1 28) (\<lambda>element_size.
     bind_call (gen_vec R element_size) (\<lambda>element.
       if remaining_fitness_size < element_size + 4 then ret (fitness, remaining)
       else fitness_loop R (fitness @ [element]) (remaining_fitness_size - (element_size + 4)) (remaining - (element_size + 4)))) s"
  by pat_completeness auto

termination
  by (relation "measure (\<lambda>(R, fitness, remaining_fitness_size, remaining, s). remaining_fitness_size)") auto

declare fitness_loop.simps [simp del]

definition random_data :: "'g rng \<Rightarrow> nat \<Rightarrow> ('g, bytes) gen" where
  \<comment> \<open>the choice of \<open>data_len\<close>, and that many bytes\<close>
  "random_data R remaining =
     bind_call (if 1 < remaining then gen_range R 1 remaining else ret remaining) (gen_vec R)"

definition gen_block_header_builder :: "('g, 'st) gen_env \<Rightarrow> ('g, builder) gen" where
  "gen_block_header_builder E =
     (let R = ge_rng E; remaining = BLOCK_HEADER_MAX_SIZE - 0x1000 in
      bind_call (fitness_loop R [] 28 remaining) (\<lambda>(fitness, remaining).
      bind_call (if 1 < remaining then gen_range R 1 remaining else ret remaining) (\<lambda>data_len.
      bind_call (gen_hash E BlockHash) (\<lambda>predecessor.
      bind_call (gen_hash E OperationListListHash) (\<lambda>operations_hash.
      bind_call (gen_hash E ContextHash) (\<lambda>context.
      bind_call (gen_word R) (\<lambda>level.
      bind_call (gen_word R) (\<lambda>proto.
      bind_call (gen_word R) (\<lambda>timestamp.
      bind_call (gen_word R) (\<lambda>validation_pass.
      bind_call (gen_vec R data_len) (\<lambda>protocol_data.
        ret (header_builder level proto predecessor timestamp validation_pass operations_hash fitness context protocol_data))))))))))))"

definition gen_block_header :: "('g, 'st) gen_env \<Rightarrow> ('g, rust) gen" where
  "gen_block_header E = bind_call (gen_block_header_builder E) (\<lambda>b. lift_res (unwrap (builder_build b)))"

definition gen_next_header :: "('g, 'st) gen_env \<Rightarrow> ('g, rust) gen" where
  \<comment> \<open>a random header on top of the last block\<close>
  "gen_next_header E =
     bind_call (gen_block_header_builder E) (\<lambda>b.
     bind_call (read_state last_block) (\<lambda>predecessor.
       lift_res (unwrap (builder_build (builder_set ''predecessor'' (hash_value ''BlockHash'' predecessor) b)))))"

fun i32_of :: "rust \<Rightarrow> u32" where
  "i32_of (RI32 w) = w"
| "i32_of _ = 0"

fun i64_of :: "rust \<Rightarrow> u64" where
  "i64_of (RI64 w) = w"
| "i64_of _ = 0"

fun i16_of :: "rust \<Rightarrow> u16" where
  "i16_of (RI16 w) = w"
| "i16_of _ = 0"

fun str_of :: "rust \<Rightarrow> bytes" where
  "str_of (RStr s) = s"
| "str_of _ = []"

definition mutate_bytes :: "'g rng \<Rightarrow> bytes \<Rightarrow> ('g, bytes) gen" where
  \<comment> \<open>up to an eighth of the bytes get one bit flipped\<close>
  "mutate_bytes R bs =
     bind_call (gen_range R 0 (length bs)) (\<lambda>n. flip_bytes R (gen_bool R p_0_1) (drop_bit 3 n) bs)"

definition mutate_fitness :: "('g, 'st) gen_env \<Rightarrow> bytes list \<Rightarrow> nat \<Rightarrow> ('g, bytes list \<times> nat) gen" where
  \<comment> \<open>\<open>data.fitness()[0]\<close> panics when there is none\<close>
  "mutate_fitness E fitness remaining =
     bind_call (gen_bool (ge_rng E) p_0_9) (\<lambda>b.
       if b then
         (case fitness of
            [] \<Rightarrow> lift_res Panic
          | first # _ \<Rightarrow>
              bind_call (sub_usize (ge_checks E) remaining (length first)) (\<lambda>remaining.
              bind_call (gen_fitness (ge_checks E)) (\<lambda>n.
              bind_call (sub_usize (ge_checks E) remaining 8) (\<lambda>remaining. ret ([first, to_be64 n], remaining)))))
       else fitness_loop (ge_rng E) [] 28 remaining)"

definition next_predecessor :: "('g, 'st) gen_env \<Rightarrow> ('g, bytes) gen" where
  "next_predecessor E =
     bind_call (read_state current_head) (\<lambda>head.
       case head of
         Some head \<Rightarrow> lift_res (block_hash E (get_field ''current_block_header'' head))
       | None \<Rightarrow> bind_call (gen_next_header E) (\<lambda>new_block. lift_res (block_hash E new_block)))"

definition mutate_block_header :: "('g, 'st) gen_env \<Rightarrow> rust \<Rightarrow> ('g, rust) gen" where
  "mutate_block_header E data =
     (let R = ge_rng E; remaining = BLOCK_HEADER_MAX_SIZE - 0x1000; old_level = i32_of (get_field ''level'' data);
          old_timestamp = i64_of (get_field ''timestamp'' data); old_pass = u8_of (get_field ''validation_pass'' data);
          bs = value_u8s (get_field ''protocol_data'' data) in
      bind_call (gen_bool R p_0_9) (\<lambda>b.
      bind_call (if b then overflowing (ge_checks E) (old_level = 0x7FFFFFFF) (old_level + 1) else gen_word R) (\<lambda>level.
      bind_call (gen_bool R p_0_9) (\<lambda>b.
      bind_call (if b then ret (u8_of (get_field ''proto'' data)) else gen_word R) (\<lambda>proto.
      bind_call (next_predecessor E) (\<lambda>predecessor.
      bind_call (gen_bool R p_0_9) (\<lambda>b.
      bind_call
        (if b then
           bind_call (gen_range R 0 (60 * 60)) (\<lambda>d.
             overflowing (ge_checks E) (2 ^ 63 - 1 < sint old_timestamp + int d) (old_timestamp + word_of_nat d))
         else gen_word R) (\<lambda>timestamp.
      bind_call (gen_bool R p_0_9) (\<lambda>b.
      bind_call (if b then overflowing (ge_checks E) (old_pass = 0xFF) (old_pass + 1) else gen_word R) (\<lambda>validation_pass.
      bind_call (gen_hash E OperationListListHash) (\<lambda>operations_hash.
      bind_call (mutate_fitness E (header_fitness data) remaining) (\<lambda>(fitness, remaining).
      bind_call (gen_hash E ContextHash) (\<lambda>context.
      bind_call (gen_bool R p_0_9) (\<lambda>b.
      bind_call (if b \<and> 0 < length bs then mutate_bytes R bs else random_data R remaining) (\<lambda>protocol_data.
        lift_res (unwrap (builder_build
          (header_builder level proto predecessor timestamp validation_pass operations_hash fitness context protocol_data))))))))))))))))))"

section \<open>Branches and heads\<close>

definition remember_block :: "('g, 'st) gen_env \<Rightarrow> bytes \<Rightarrow> rust \<Rightarrow> ('g, unit) gen" where
  \<comment> \<open>the map of known blocks, when it is enabled; an arbitrary entry is removed when it is full\<close>
  "remember_block E h new_block s =
     (if blocks_limit s = 0 then (Ok (), s)
      else
        let known = blocks s;
            known = (if length known = blocks_limit s then AList.delete (ge_first_key E (map fst known)) known else known)
        in (Ok (), s\<lparr>blocks := AList.update h new_block known\<rparr>))"

definition gen_current_branch :: "('g, 'st) gen_env \<Rightarrow> ('g, rust) gen" where
  "gen_current_branch E =
     bind_call (gen_range (ge_rng E) 0 CURRENT_BRANCH_HISTORY_MAX_LENGTH) (\<lambda>history_len.
     bind_call (gen_hashes E (history_len - 1) ''BlockHash'' BlockHash) (\<lambda>history.
     bind_call (gen_next_header E) (\<lambda>new_block.
     bind_call (lift_res (block_hash E new_block)) (\<lambda>h.
     bind_call (remember_block E h new_block) (\<lambda>_.
     bind_call (set_last_block_hash h) (\<lambda>_. ret (current_branch_new new_block history)))))))"

definition mutate_current_branch :: "('g, 'st) gen_env \<Rightarrow> rust \<Rightarrow> ('g, rust) gen" where
  "mutate_current_branch E data =
     bind_call (mutate_block_header E (get_field ''current_head'' data)) (\<lambda>head.
     bind_call (gen_bool (ge_rng E) p_0_5) (\<lambda>b.
     bind_call
       (if b then ret (seq_items (get_field ''history'' data))
        else
          bind_call (gen_range (ge_rng E) 1 CURRENT_BRANCH_HISTORY_MAX_LENGTH) (\<lambda>history_len.
            gen_hashes E history_len ''BlockHash'' BlockHash)) (\<lambda>history.
     bind_call (lift_res (block_hash E head)) (\<lambda>h.
     bind_call (set_last_block_hash h) (\<lambda>_. ret (current_branch_new head history))))))"

definition mutate_current_branch_message :: "('g, 'st) gen_env \<Rightarrow> rust \<Rightarrow> ('g, rust) gen" where
  "mutate_current_branch_message E data =
     bind_call (mutate_hash (hash_of (get_field ''chain_id'' data))) (\<lambda>chain.
     bind_call (mutate_current_branch E (get_field ''current_branch'' data)) (\<lambda>branch.
       ret (current_branch_message_new chain branch)))"

definition gen_current_branch_message :: "('g, 'st) gen_env \<Rightarrow> ('g, rust) gen" where
  "gen_current_branch_message E =
     bind_call (read_state current_branch) (\<lambda>recorded.
       case recorded of
         Some msg \<Rightarrow> mutate_current_branch_message E msg
       | None \<Rightarrow>
           bind_call (gen_chain_id E) (\<lambda>chain.
           bind_call (gen_current_branch E) (\<lambda>branch. ret (current_branch_message_new chain branch))))"

definition gen_deactivate :: "('g, 'st) gen_env \<Rightarrow> ('g, rust) gen" where
  "gen_deactivate E = bind_call (gen_chain_id E) (\<lambda>chain. ret (deactivate_message_new chain))"

definition gen_get_current_head :: "('g, 'st) gen_env \<Rightarrow> ('g, rust) gen" where
  "gen_get_current_head E = bind_call (gen_chain_id E) (\<lambda>chain. ret (get_current_head_message_new chain))"

definition mutate_known_valid :: "('g, 'st) gen_env \<Rightarrow> rust list \<Rightarrow> rust list \<Rightarrow> ('g, rust list) gen" where
  "mutate_known_valid E known pending =
     bind_call (gen_bool (ge_rng E) p_0_5) (\<lambda>b.
       if b then bind_call (gen_bool (ge_rng E) p_0_5) (\<lambda>b. ret (if b then known else pending))
       else
         bind_call (gen_range (ge_rng E) 1 MEMPOOL_MAX_OPERATIONS) (\<lambda>n.
           gen_hashes E n ''OperationHash'' OperationHash))"

definition mutate_pending :: "('g, 'st) gen_env \<Rightarrow> rust list \<Rightarrow> rust list \<Rightarrow> nat \<Rightarrow> ('g, rust list) gen" where
  "mutate_pending E known pending remaining =
     bind_call (gen_bool (ge_rng E) p_0_5) (\<lambda>b.
       if b then
         bind_call (gen_bool (ge_rng E) p_0_5) (\<lambda>b.
           ret (if b then take (min (length pending) remaining) pending else take (min (length known) remaining) known))
       else
         bind_call (if 1 < remaining then gen_range (ge_rng E) 1 remaining else ret remaining) (\<lambda>n.
           gen_hashes E n ''OperationHash'' OperationHash))"

definition mutate_mempool :: "('g, 'st) gen_env \<Rightarrow> rust \<Rightarrow> ('g, rust) gen" where
  "mutate_mempool E data =
     (let known = seq_items (get_field ''known_valid'' data); pending = seq_items (get_field ''pending'' data) in
      bind_call (mutate_known_valid E known pending) (\<lambda>known_valid.
      bind_call (sub_usize (ge_checks E) MEMPOOL_MAX_OPERATIONS (length known_valid)) (\<lambda>remaining.
      bind_call (mutate_pending E known pending remaining) (\<lambda>pending. ret (mempool_new known_valid pending)))))"

definition gen_mempool :: "('g, 'st) gen_env \<Rightarrow> ('g, rust) gen" where
  "gen_mempool E =
     bind_call (read_state current_head) (\<lambda>recorded.
       case recorded of
         Some head \<Rightarrow> mutate_mempool E (get_field ''current_mempool'' head)
       | None \<Rightarrow>
           bind_call (gen_range (ge_rng E) 1 (MEMPOOL_MAX_OPERATIONS - 2)) (\<lambda>pending_num.
           bind_call (gen_range (ge_rng E) 1 (MEMPOOL_MAX_OPERATIONS - pending_num)) (\<lambda>known_valid_num.
           bind_call (gen_hashes E pending_num ''OperationHash'' OperationHash) (\<lambda>pending.
           bind_call (gen_hashes E known_valid_num ''OperationHash'' OperationHash) (\<lambda>known_valid.
             ret (mempool_new known_valid pending))))))"

definition mutate_current_head_message :: "('g, 'st) gen_env \<Rightarrow> rust \<Rightarrow> ('g, rust) gen" where
  "mutate_current_head_message E data =
     bind_call (mutate_hash (hash_of (get_field ''chain_id'' data))) (\<lambda>chain.
     bind_call (mutate_block_header E (get_field ''current_block_header'' data)) (\<lambda>header.
     bind_call (mutate_mempool E (get_field ''current_mempool'' data)) (\<lambda>pool.
       ret (current_head_message_new chain header pool))))"

definition gen_current_head_message :: "('g, 'st) gen_env \<Rightarrow> ('g, rust) gen" where
  "gen_current_head_message E =
     bind_call (read_state current_head) (\<lambda>recorded.
       case recorded of
         Some msg \<Rightarrow> mutate_current_head_message E msg
       | None \<Rightarrow>
           bind_call (gen_chain_id E) (\<lambda>chain.
           bind_call (gen_block_header E) (\<lambda>header.
           bind_call (gen_mempool E) (\<lambda>pool. ret (current_head_message_new chain header pool)))))"

definition gen_get_block_headers :: "('g, 'st) gen_env \<Rightarrow> ('g, rust) gen" where
  "gen_get_block_headers E =
     bind_call (gen_range (ge_rng E) 0 GET_BLOCK_HEADERS_MAX_LENGTH) (\<lambda>n.
     bind_call (gen_hashes E n ''BlockHash'' BlockHash) (\<lambda>hashes. ret (get_block_headers_message_new hashes)))"

definition mutate_block_header_message :: "('g, 'st) gen_env \<Rightarrow> rust \<Rightarrow> ('g, rust) gen" where
  "mutate_block_header_message E data =
     bind_call (mutate_block_header E (get_field ''block_header'' data)) (\<lambda>header. ret (block_header_message_from header))"

definition gen_block_header_message :: "('g, 'st) gen_env \<Rightarrow> ('g, rust) gen" where
  "gen_block_header_message E =
     bind_call (read_state block_header) (\<lambda>recorded.
       case recorded of
         Some msg \<Rightarrow> mutate_block_header_message E msg
       | None \<Rightarrow> bind_call (gen_block_header E) (\<lambda>header. ret (block_header_message_from header)))"

section \<open>Operations\<close>

definition gen_get_operations :: "('g, 'st) gen_env \<Rightarrow> ('g, rust) gen" where
  "gen_get_operations E =
     bind_call (gen_range (ge_rng E) 0 GET_OPERATIONS_MAX_LENGTH) (\<lambda>n.
     bind_call (gen_hashes E n ''OperationHash'' OperationHash) (\<lambda>hashes. ret (get_operations_message_new hashes)))"

definition gen_branch :: "('g, 'st) gen_env \<Rightarrow> ('g, bytes) gen" where
  \<comment> \<open>the block an operation refers to\<close>
  "gen_branch E =
     bind_call (read_state current_head) (\<lambda>head.
       case head of
         Some head \<Rightarrow> lift_res (block_hash E (get_field ''current_block_header'' head))
       | None \<Rightarrow> bind_call (gen_bool (ge_rng E) p_0_5) (\<lambda>b. if b then read_state last_block else gen_hash E BlockHash))"

definition gen_operation :: "('g, 'st) gen_env \<Rightarrow> ('g, rust) gen" where
  "gen_operation E =
     bind_call (gen_branch E) (\<lambda>branch.
     bind_call (gen_vec (ge_rng E) (OPERATION_MAX_SIZE - hash_size BlockHash - 0x20)) (\<lambda>data. ret (operation_new branch data)))"

definition mutate_operation :: "('g, 'st) gen_env \<Rightarrow> rust \<Rightarrow> ('g, rust) gen" where
  "mutate_operation E data =
     (let R = ge_rng E; bs = value_u8s (get_field ''data'' data) in
      bind_call (gen_bool R p_0_5) (\<lambda>b.
      bind_call (if b then ret (hash_of (get_field ''branch'' data)) else gen_branch E) (\<lambda>branch.
      bind_call (gen_bool R p_0_9) (\<lambda>b.
      bind_call
        (if b then (if 0 < length bs then mutate_bytes R bs else flip_bytes R (gen_bool R p_0_1) (length bs) bs)
         else random_data R (length bs)) (\<lambda>bs. ret (operation_new branch bs))))))"

definition gen_operation_message :: "('g, 'st) gen_env \<Rightarrow> ('g, rust) gen" where
  "gen_operation_message E =
     bind_call (read_state operation) (\<lambda>recorded.
       case recorded of
         Some msg \<Rightarrow>
           bind_call (mutate_operation E (get_field ''operation'' msg)) (\<lambda>op. ret (operation_message_from op))
       | None \<Rightarrow> bind_call (gen_operation E) (\<lambda>op. ret (operation_message_from op)))"

section \<open>Protocols\<close>

definition gen_get_protocols :: "('g, 'st) gen_env \<Rightarrow> ('g, rust) gen" where
  "gen_get_protocols E =
     bind_call (gen_range (ge_rng E) 0 GET_PROTOCOLS_MAX_LENGTH) (\<lambda>n.
     bind_call (gen_hashes E n ''ProtocolHash'' ProtocolHash) (\<lambda>hashes. ret (get_protocols_message_new hashes)))"

definition gen_string_below :: "'g rng \<Rightarrow> nat \<Rightarrow> ('g, bytes) gen" where
  "gen_string_below R n = bind_call (gen_range R 0 n) (gen_string R)"

definition gen_component :: "('g, 'st) gen_env \<Rightarrow> ('g, rust) gen" where
  "gen_component E =
     (let R = ge_rng E in
      bind_call (gen_string_below R 1025) (\<lambda>name.
      bind_call (gen_bool R p_0_5) (\<lambda>b.
      bind_call (if b then bind_call (gen_string_below R 102401) (\<lambda>iface. ret (RSome (RStr iface))) else ret RNone) (\<lambda>interface.
      bind_call (gen_string_below R 102401) (\<lambda>implementation. ret (component_new name interface implementation))))))"

definition mutate_component :: "('g, 'st) gen_env \<Rightarrow> rust \<Rightarrow> ('g, rust) gen" where
  "mutate_component E data =
     (let R = ge_rng E in
      bind_call (gen_bool R p_0_5) (\<lambda>b.
      bind_call (if b then gen_string_below R 1025 else ret (str_of (get_field ''name'' data))) (\<lambda>name.
      bind_call (gen_range R 0 3) (\<lambda>n.
      bind_call
        (if n = 0 then bind_call (gen_string_below R 102401) (\<lambda>iface. ret (RSome (RStr iface)))
         else if n = 1 then ret RNone
         else ret (get_field ''interface'' data)) (\<lambda>interface.
      bind_call (gen_bool R p_0_5) (\<lambda>b.
      bind_call (if b then gen_string_below R 102401 else ret (str_of (get_field ''implementation'' data))) (\<lambda>implementation.
        ret (component_new name interface implementation))))))))"

fun gen_until_full :: "nat \<Rightarrow> ('g, rust) gen \<Rightarrow> (rust \<Rightarrow> (io_error, bytes) res) \<Rightarrow> nat \<Rightarrow> rust list \<Rightarrow> ('g, rust list) gen" where
  \<comment> \<open>the loop of the two generators that fill a list up to a size; an item takes at least one byte, so one round more than
      \<open>remaining\<close> is enough fuel\<close>
  "gen_until_full 0 gen_item item_bytes remaining items s = (Panic, s)"
| "gen_until_full (Suc fuel) gen_item item_bytes remaining items s =
     bind_call gen_item (\<lambda>item.
     bind_call (lift_res (item_bytes item)) (\<lambda>bs.
       if remaining < length bs then ret items
       else gen_until_full fuel gen_item item_bytes (remaining - length bs) (items @ [item]))) s"

definition gen_components :: "('g, 'st) gen_env \<Rightarrow> ('g, rust list) gen" where
  "gen_components E =
     gen_until_full (Suc PROTOCOL_COMPONENT_MAX_SIZE) (gen_component E) (value_bytes_of E ''Component'') PROTOCOL_COMPONENT_MAX_SIZE []"

fun mutate_components :: "('g, 'st) gen_env \<Rightarrow> rust list \<Rightarrow> ('g, rust list) gen" where
  "mutate_components E [] s = (Ok [], s)"
| "mutate_components E (c # cs) s =
     bind_call (mutate_component E c) (\<lambda>c. bind_call (mutate_components E cs) (\<lambda>cs. ret (c # cs))) s"

definition gen_protocol :: "('g, 'st) gen_env \<Rightarrow> ('g, rust) gen" where
  "gen_protocol E =
     bind_call (gen_word (ge_rng E)) (\<lambda>version. bind_call (gen_components E) (\<lambda>components. ret (protocol_new version components)))"

definition mutate_protocol :: "('g, 'st) gen_env \<Rightarrow> rust \<Rightarrow> ('g, rust) gen" where
  "mutate_protocol E data =
     bind_call (gen_bool (ge_rng E) p_0_5) (\<lambda>b.
     bind_call (if b then ret (i16_of (get_field ''expected_env_version'' data)) else gen_word (ge_rng E)) (\<lambda>version.
     bind_call (mutate_components E (seq_items (get_field ''components'' data))) (\<lambda>components.
       ret (protocol_new version components))))"

definition mutate_protocol_message :: "('g, 'st) gen_env \<Rightarrow> rust \<Rightarrow> ('g, rust) gen" where
  "mutate_protocol_message E data =
     bind_call (mutate_protocol E (get_field ''protocol'' data)) (\<lambda>p. ret (protocol_message_new p))"

definition gen_protocol_message :: "('g, 'st) gen_env \<Rightarrow> ('g, rust) gen" where
  "gen_protocol_message E =
     bind_call (read_state protocol) (\<lambda>recorded.
       case recorded of
         Some msg \<Rightarrow> mutate_protocol_message E msg
       | None \<Rightarrow> bind_call (gen_protocol E) (\<lambda>p. ret (protocol_message_new p)))"

section \<open>Operations of blocks\<close>

definition random_block_hash :: "('g, 'st) gen_env \<Rightarrow> ('g, bytes) gen" where
  \<comment> \<open>a block from the recorded messages, if any\<close>
  "random_block_hash E =
     bind_call (read_state current_branch) (\<lambda>cb.
       case cb of
         Some cb \<Rightarrow>
           (let history = seq_items (get_field ''history'' (get_field ''current_branch'' cb)) in
            if 0 < length history then
              bind_call (gen_range (ge_rng E) 0 (length history)) (\<lambda>i. ret (hash_of (history ! i)))
            else gen_hash E BlockHash)
       | None \<Rightarrow>
           bind_call (read_state block_header) (\<lambda>bh.
             case bh of
               Some bh \<Rightarrow> lift_res (block_hash E (get_field ''block_header'' bh))
             | None \<Rightarrow>
                 bind_call (read_state current_head) (\<lambda>ch.
                   case ch of
                     Some ch \<Rightarrow> lift_res (block_hash E (get_field ''current_block_header'' ch))
                   | None \<Rightarrow> gen_hash E BlockHash)))"

definition gen_operations_for_block :: "('g, 'st) gen_env \<Rightarrow> ('g, rust) gen" where
  "gen_operations_for_block E =
     bind_call (random_block_hash E) (\<lambda>h. bind_call (gen_word (ge_rng E)) (\<lambda>pass. ret (operations_for_block_new h pass)))"

definition gen_get_operations_for_blocks :: "('g, 'st) gen_env \<Rightarrow> ('g, rust) gen" where
  "gen_get_operations_for_blocks E =
     bind_call (gen_range (ge_rng E) 0 GET_OPERATIONS_FOR_BLOCKS_MAX_LENGTH) (\<lambda>n.
     bind_call (repeat_call n (gen_operations_for_block E)) (\<lambda>ops. ret (get_operations_for_blocks_message_new ops)))"

definition gen_path_item :: "('g, 'st) gen_env \<Rightarrow> ('g, path_item) gen" where
  "gen_path_item E =
     bind_call (gen_vec (ge_rng E) 32) (\<lambda>h.
     bind_call (gen_bool (ge_rng E) p_0_5) (\<lambda>b. ret (if b then PathRight h else PathLeft h)))"

definition gen_path :: "('g, 'st) gen_env \<Rightarrow> ('g, rust) gen" where
  "gen_path E =
     bind_call (gen_range (ge_rng E) 0 (the MAX_PASS_MERKLE_DEPTH)) (\<lambda>n.
     bind_call (repeat_call n (gen_path_item E)) (\<lambda>items. ret (path_rust items)))"

definition gen_operations :: "('g, 'st) gen_env \<Rightarrow> ('g, rust list) gen" where
  "gen_operations E =
     gen_until_full (Suc OPERATION_LIST_MAX_SIZE) (gen_operation E) (value_bytes_of E ''Operation'') OPERATION_LIST_MAX_SIZE []"

definition gen_operations_for_blocks_message :: "('g, 'st) gen_env \<Rightarrow> ('g, rust) gen" where
  "gen_operations_for_blocks_message E =
     bind_call (read_state operations_for_blocks) (\<lambda>recorded.
       case recorded of
         Some msg \<Rightarrow>
           bind_call (gen_bool (ge_rng E) p_0_5) (\<lambda>b.
           bind_call (if b then ret (get_field ''operations_for_block'' msg) else gen_operations_for_block E) (\<lambda>ofb.
           bind_call (gen_bool (ge_rng E) p_0_5) (\<lambda>b.
           bind_call (if b then ret (get_field ''operation_hashes_path'' msg) else gen_path E) (\<lambda>path.
           bind_call (gen_bool (ge_rng E) p_0_5) (\<lambda>b.
           bind_call (if b then ret (seq_items (get_field ''operations'' msg)) else gen_operations E) (\<lambda>ops.
             ret (operations_for_blocks_message_new ofb path ops)))))))
       | None \<Rightarrow>
           bind_call (gen_operations_for_block E) (\<lambda>ofb.
           bind_call (gen_path E) (\<lambda>path.
           bind_call (gen_operations E) (\<lambda>ops. ret (operations_for_blocks_message_new ofb path ops)))))"

section \<open>Handshake messages\<close>

definition gen_network_version :: "('g, 'st) gen_env \<Rightarrow> ('g, rust) gen" where
  "gen_network_version E =
     bind_call (gen_string_below (ge_rng E) CHAIN_NAME_MAX_LENGTH) (\<lambda>chain_name.
     bind_call (gen_word (ge_rng E)) (\<lambda>db. bind_call (gen_word (ge_rng E)) (\<lambda>p2p. ret (network_version_new chain_name db p2p))))"

definition gen_public_key :: "('g, 'st) gen_env \<Rightarrow> ('g, bytes) gen" where
  "gen_public_key E =
     bind_call (gen_vec (ge_rng E) CRYPTO_KEY_SIZE) (\<lambda>bs. lift_res (unwrap (ensure_crypto_key_bytes bs)))"

definition gen_proof_of_work :: "('g, 'st) gen_env \<Rightarrow> ('g, bytes) gen" where
  "gen_proof_of_work E =
     bind_call (gen_vec (ge_rng E) POW_SIZE) (\<lambda>bs. lift_res (unwrap (pow_from_hex (ge_hex E) (hex_encode (ge_hex E) bs))))"

definition gen_nonce :: "('g, 'st) gen_env \<Rightarrow> ('g, nonce) gen" where
  "gen_nonce E = bind_call (gen_vec (ge_rng E) NONCE_SIZE) (\<lambda>bs. ret (nonce_new (ge_bigint E) bs))"

definition gen_connection_message :: "('g, 'st) gen_env \<Rightarrow> ('g, rust) gen" where
  "gen_connection_message E =
     bind_call (gen_word (ge_rng E)) (\<lambda>port.
     bind_call (gen_public_key E) (\<lambda>public_key.
     bind_call (gen_proof_of_work E) (\<lambda>pow.
     bind_call (gen_nonce E) (\<lambda>nonce.
     bind_call (gen_network_version E) (\<lambda>version.
       lift_res (unwrap (connection_message_try_new (ge_bigint E) port public_key pow nonce version)))))))"

definition gen_metadata :: "('g, 'st) gen_env \<Rightarrow> ('g, rust) gen" where
  "gen_metadata E =
     bind_call (gen_standard_bool (ge_rng E)) (\<lambda>a. bind_call (gen_standard_bool (ge_rng E)) (\<lambda>b. ret (metadata_message_new a b)))"

definition gen_nack_info :: "('g, 'st) gen_env \<Rightarrow> ('g, rust) gen" where
  "gen_nack_info E =
     bind_call (gen_range (ge_rng E) 0 6) (\<lambda>motive.
     bind_call (gen_range (ge_rng E) 0 NACK_PEERS_MAX_LENGTH) (\<lambda>remaining.
     bind_call (repeat_call remaining (gen_string_below (ge_rng E) P2P_POINT_MAX_LENGTH)) (\<lambda>peers.
       ret (nack_info_new (nack_motive motive) peers))))"

definition gen_ack_message :: "('g, 'st) gen_env \<Rightarrow> ('g, rust) gen" where
  "gen_ack_message E =
     bind_call (gen_range (ge_rng E) 0 3) (\<lambda>n.
       if n = 0 then ret ack_value else if n = 1 then ret nack_v0_value
       else bind_call (gen_nack_info E) (\<lambda>info. ret (nack_value info)))"

end
