(* ===== verification/Encodable.thy ===== *)
theory Encodable
  imports Gen_Messages
begin

text \<open>
  Which values can be written, and in how many bytes: introduction rules for the encodings of derived types, over the closed
  environment of the message types, where every path means its final type.
\<close>

section \<open>Encodings in a closed environment\<close>

definition codes :: "num_ser \<Rightarrow> (bytes \<Rightarrow> bytes option) \<Rightarrow> tenv \<Rightarrow> denc \<Rightarrow> rust \<Rightarrow> bytes \<Rightarrow> bool" where
  "codes K z G d r bs \<longleftrightarrow> has_type G d r \<and> (\<exists>v. serialize K r = Ok v \<and> enc z v (generate_encoding G d) = Some bs)"

definition fits :: "num_ser \<Rightarrow> (bytes \<Rightarrow> bytes option) \<Rightarrow> tenv \<Rightarrow> denc \<Rightarrow> rust \<Rightarrow> nat \<Rightarrow> bool" where
  "fits K z G d r n \<longleftrightarrow> (\<exists>bs. codes K z G d r bs \<and> length bs \<le> n)"

lemma encodes_derive: "encodes K z (derive N C W I G d) r bs \<longleftrightarrow> codes K z G d r bs"
  by (simp add: encodes_def codes_def derive_def)

lemma encodes_path: "encodes K z (type_of_path G p) r bs \<longleftrightarrow> codes K z G (DPath p) r bs"
  by (simp add: encodes_def codes_def)

fun paths_of :: "denc \<Rightarrow> string list" and field_paths :: "(string \<times> denc option) list \<Rightarrow> string list"
  and tag_paths :: "(u16 \<times> string \<times> denc) list \<Rightarrow> string list" where
  "paths_of (DPath p) = [p]"
| "paths_of (DStruct name fs) = field_paths fs"
| "paths_of (DEnum name tt ign tags) = tag_paths tags"
| "paths_of (DOptionField e) = paths_of e"
| "paths_of (DList sz e) = paths_of e"
| "paths_of (DSized m e) = paths_of e"
| "paths_of (DBounded m e) = paths_of e"
| "paths_of (DDynamic sz e) = paths_of e"
| "paths_of _ = []"
| "field_paths [] = []"
| "field_paths ((f, None) # fs) = field_paths fs"
| "field_paths ((f, Some e) # fs) = paths_of e @ field_paths fs"
| "tag_paths [] = []"
| "tag_paths ((i, v, e) # tags) = paths_of e @ tag_paths tags"

lemma generate_encoding_agree:
  "(\<And>p. p \<in> set (paths_of d) \<Longrightarrow> type_of_path G p = type_of_path G' p) \<Longrightarrow> generate_encoding G d = generate_encoding G' d"
  "(\<And>p. p \<in> set (field_paths fs) \<Longrightarrow> type_of_path G p = type_of_path G' p) \<Longrightarrow>
   generate_field_encodings G fs = generate_field_encodings G' fs"
  "(\<And>p. p \<in> set (tag_paths tags) \<Longrightarrow> type_of_path G p = type_of_path G' p) \<Longrightarrow>
   generate_tag_encodings G tags = generate_tag_encodings G' tags"
  by (induction d and fs and tags rule: paths_of_field_paths_tag_paths.induct) (auto split: option.splits)

lemma variant_has_type_Cons:
  "variant_has_type G name idx ((i, v, e) # tags) r \<longleftrightarrow>
     (if e = DUnit then r = RUnitVariant name idx v
      else (\<exists>x. r = RNewtypeVariant name idx v x \<and> has_type G e x)) \<or> variant_has_type G name (idx + 1) tags r"
  by (cases e) (auto split: rust.splits)

lemma has_type_agree:
  assumes "default_of G = default_of G'"
  shows "(\<And>p. p \<in> set (paths_of d) \<Longrightarrow> type_of_path G p = type_of_path G' p) \<Longrightarrow> has_type G d r = has_type G' d r"
    and "(\<And>p. p \<in> set (field_paths fs) \<Longrightarrow> type_of_path G p = type_of_path G' p) \<Longrightarrow>
      fields_have_type G name fs vs = fields_have_type G' name fs vs"
    and "(\<And>p. p \<in> set (tag_paths tags) \<Longrightarrow> type_of_path G p = type_of_path G' p) \<Longrightarrow>
      variant_has_type G name idx tags r = variant_has_type G' name idx tags r"
proof (induction d and fs and tags arbitrary: r and name vs and name idx r rule: paths_of_field_paths_tag_paths.induct)
  case (5 sz e)
  then have "has_type G e = has_type G' e" by (simp add: fun_eq_iff)
  then show ?case by (cases r) simp_all
qed (use assms in \<open>simp_all add: variant_has_type_Cons del: variant_has_type.simps(2) split: rust.split list.split\<close>)

lemma codes_agree:
  assumes "default_of G = default_of G'" and "\<And>p. p \<in> set (paths_of d) \<Longrightarrow> type_of_path G p = type_of_path G' p"
  shows "codes K z G d r bs \<longleftrightarrow> codes K z G' d r bs"
  using has_type_agree(1) [OF assms, of d r] generate_encoding_agree(1) [OF assms(2), of d] by (simp add: codes_def)

lemma default_add_encodings: "default_of (add_encodings N C W I G ds) = default_of G"
proof (induction ds arbitrary: G)
  case (Cons nd ds)
  then show ?case by (cases nd) simp
qed simp

text \<open>A message type may be unfolded in the final environment: what it mentions is declared before it.\<close>

lemma codes_unfold:
  assumes "p2p_syn S" and "i < length p2p_encodings" and "p2p_encodings ! i = (n, d)"
    and "n \<notin> fst ` set (drop (Suc i) p2p_encodings)" and "list_all (\<lambda>p. p \<notin> fst ` set (drop i p2p_encodings)) (paths_of d)"
    and "G = p2p_env N C P W I S"
  shows "codes K z G (DPath n) r bs \<longleftrightarrow> codes K z G d r bs"
proof -
  let ?G = "add_encodings N C W I (base_env N C P) (take i p2p_encodings)"
  have "G = add_encodings N C W I ?G (drop i p2p_encodings)"
    unfolding assms(6) p2p_env_encodings [OF assms(1)] add_encodings_append [symmetric] by simp
  then have "type_of_path ?G p = type_of_path G p" if "p \<in> set (paths_of d)" for p
    using that assms(5) by (auto simp: list_all_iff add_encodings_other)
  then have "codes K z ?G d r bs \<longleftrightarrow> codes K z G d r bs"
    by (intro codes_agree) (simp_all add: assms(6) p2p_env_encodings [OF assms(1)] default_add_encodings)
  moreover have "codes K z G (DPath n) r bs \<longleftrightarrow> codes K z ?G d r bs"
    using p2p_type_at [OF assms(1-4), of N C P W I] by (simp add: encodes_path [symmetric] encodes_derive assms(6))
  ultimately show ?thesis by simp
qed

lemma fits_unfold:
  assumes "p2p_syn S" and "i < length p2p_encodings" and "p2p_encodings ! i = (n, d)"
    and "n \<notin> fst ` set (drop (Suc i) p2p_encodings)" and "list_all (\<lambda>p. p \<notin> fst ` set (drop i p2p_encodings)) (paths_of d)"
    and "G = p2p_env N C P W I S" and "fits K z G d r k"
  shows "fits K z G (DPath n) r k"
  using assms(7) by (simp add: fits_def codes_unfold [OF assms(1-6)])

section \<open>Rules\<close>

lemma fitsI: "codes K z G d r bs \<Longrightarrow> length bs \<le> n \<Longrightarrow> fits K z G d r n"
  by (auto simp: fits_def)

lemma fits_mono: "fits K z G d r m \<Longrightarrow> m \<le> n \<Longrightarrow> fits K z G d r n"
  by (auto simp: fits_def)

lemma fits_prims:
  "fits K z G (DPrimitive PUint8) (RU8 a) 1" "fits K z G (DPrimitive PInt8) (RI8 a) 1" "fits K z G (DPrimitive PBool) (RBool b) 1"
  "fits K z G (DPrimitive PUint16) (RU16 c) 2" "fits K z G (DPrimitive PInt16) (RI16 c) 2" "fits K z G (DPrimitive PInt32) (RI32 e) 4"
  "fits K z G (DPrimitive PTimestamp) (RI64 f) 8"
  by (simp_all add: fits_def codes_def)

lemma concat_opts_singles: "concat_opts (map (\<lambda>b. Some [b]) bs) = Some bs"
  by (induction bs) simp_all

lemma codes_u8_list: "codes K z G (DList None (DPrimitive PUint8)) (bytes_value bs) bs"
  "length bs \<le> m \<Longrightarrow> codes K z G (DList (Some m) (DPrimitive PUint8)) (bytes_value bs) bs"
  using concat_opts_singles [of bs]
  by (auto simp: codes_def bytes_value_def serialize_bytes list_all_iff o_def)

lemma codes_sized_bytes: "length bs = m \<Longrightarrow> codes K z G (DSized m DBytes) (bytes_value bs) bs"
  by (auto simp: codes_def bytes_value_def serialize_bytes list_all_iff value_bytes_Some is_u8_def)

lemma codes_string: "utf8_valid s \<Longrightarrow> length s < 2 ^ 32 \<Longrightarrow> codes K z G (DString None) (RStr s) (to_be32 (word_of_nat (length s)) @ s)"
  "utf8_valid s \<Longrightarrow> length s \<le> m \<Longrightarrow> m < 2 ^ 32 \<Longrightarrow>
   codes K z G (DString (Some m)) (RStr s) (to_be32 (word_of_nat (length s)) @ s)"
  by (simp_all add: codes_def)

lemma codes_list:
  assumes "list_all2 (codes K z G e) rs bss" and "\<forall>m. sz = Some m \<longrightarrow> length rs \<le> m"
  shows "codes K z G (DList sz e) (RSeq rs) (concat bss)"
proof -
  have "list_all (has_type G e) rs \<and> (\<exists>vs. serialize_elements K rs = Ok vs
      \<and> concat_opts (map (\<lambda>v. enc z v (generate_encoding G e)) vs) = Some (concat bss) \<and> length vs = length rs)"
    using assms(1)
  proof (induction rule: list_all2_induct)
    case (Cons r rs bs bss)
    then show ?case by (fastforce simp: codes_def)
  qed simp
  then show ?thesis using assms(2) by (cases sz) (auto simp: codes_def)
qed

lemma fits_codes: "list_all (\<lambda>r. fits K z G e r n) rs \<Longrightarrow> \<exists>bss. list_all2 (codes K z G e) rs bss \<and> length (concat bss) \<le> length rs * n"
proof (induction rs)
  case (Cons r rs)
  then obtain bs bss where "codes K z G e r bs" "length bs \<le> n" "list_all2 (codes K z G e) rs bss" "length (concat bss) \<le> length rs * n"
    by (auto simp: fits_def)
  then show ?case by (intro exI [of _ "bs # bss"]) simp
qed simp

lemma fits_list:
  assumes "list_all (\<lambda>r. fits K z G e r n) rs" and "\<forall>m. sz = Some m \<longrightarrow> length rs \<le> m" and "length rs * n \<le> k"
  shows "fits K z G (DList sz e) (RSeq rs) k"
  using fits_codes [OF assms(1)] codes_list [OF _ assms(2)] assms(3) by (meson fitsI order_trans)

lemma fits_dynamic:
  assumes "fits K z G e r n" and "n < 2 ^ 32" and "\<forall>m. sz = Some m \<longrightarrow> n \<le> m"
  shows "fits K z G (DDynamic sz e) r (n + 4)"
proof -
  obtain bs where "codes K z G e r bs" "length bs \<le> n" using assms(1) by (auto simp: fits_def)
  then have "codes K z G (DDynamic sz e) r (to_be32 (word_of_nat (length bs)) @ bs)"
    using assms(2,3) by (cases sz) (auto simp: codes_def sized_prefix_def)
  then show ?thesis using \<open>length bs \<le> n\<close> by (auto intro!: fitsI)
qed

lemma fits_bounded: "fits K z G e r n \<Longrightarrow> n \<le> m \<Longrightarrow> fits K z G (DBounded m e) r n"
  by (force simp: fits_def codes_def)

lemma fits_option: "fits K z G e r n \<Longrightarrow> fits K z G (DOptionField e) (RSome r) (n + 1)" "fits K z G (DOptionField e) RNone 1"
  by (force simp: fits_def codes_def)+

text \<open>A struct, with the bytes or the sizes of its fields.\<close>

fun fields_code :: "num_ser \<Rightarrow> (bytes \<Rightarrow> bytes option) \<Rightarrow> tenv \<Rightarrow> (string \<times> denc option) list \<Rightarrow> (string \<times> rust) list \<Rightarrow> bytes list \<Rightarrow> bool" where
  "fields_code K z G [] [] [] = True"
| "fields_code K z G ((f, Some e) # fs) ((g, r) # vs) (b # bs) = (f = g \<and> codes K z G e r b \<and> fields_code K z G fs vs bs)"
| "fields_code K z G _ _ _ = False"

fun fields_fit :: "num_ser \<Rightarrow> (bytes \<Rightarrow> bytes option) \<Rightarrow> tenv \<Rightarrow> (string \<times> denc option) list \<Rightarrow> (string \<times> rust) list \<Rightarrow> nat list \<Rightarrow> bool" where
  "fields_fit K z G [] [] [] = True"
| "fields_fit K z G ((f, Some e) # fs) ((g, r) # vs) (n # ns) = (f = g \<and> fits K z G e r n \<and> fields_fit K z G fs vs ns)"
| "fields_fit K z G _ _ _ = False"

lemma fields_fit_code: "fields_fit K z G fs vs ns \<Longrightarrow> \<exists>bss. fields_code K z G fs vs bss \<and> length (concat bss) \<le> sum_list ns"
proof (induction K z G fs vs ns rule: fields_fit.induct)
  case (1 K z G)
  then show ?case by (intro exI [of _ "[]"]) simp
next
  case (2 K z G f e fs g r vs n ns)
  then obtain b bss where "codes K z G e r b" "length b \<le> n" "fields_code K z G fs vs bss" "length (concat bss) \<le> sum_list ns"
    by (auto simp: fits_def)
  then show ?case using 2(2) by (intro exI [of _ "b # bss"]) simp
qed simp_all

lemma fields_code_write:
  assumes "fields_code K z G fs vs bss"
  shows "\<exists>ws. fields_have_type G name fs vs \<and> serialize_fields K vs = Ok ws \<and> map fst ws = map fst fs
    \<and> (\<forall>ws'. (\<forall>n w. (n, w) \<in> set ws \<longrightarrow> find_value_in_record_values n ws' = Some w) \<longrightarrow>
        concat_opts (map (field_bytes z ws') (generate_field_encodings G fs)) = Some (concat bss))"
  using assms
proof (induction K z G fs vs bss rule: fields_code.induct)
  case (2 K z G f e fs g r vs b bss)
  then obtain v where v: "has_type G e r" "serialize K r = Ok v" "enc z v (generate_encoding G e) = Some b"
    by (auto simp: codes_def)
  obtain ws where ws: "fields_have_type G name fs vs" "serialize_fields K vs = Ok ws" "map fst ws = map fst fs"
    "\<And>ws'. (\<forall>n w. (n, w) \<in> set ws \<longrightarrow> find_value_in_record_values n ws' = Some w) \<Longrightarrow>
      concat_opts (map (field_bytes z ws') (generate_field_encodings G fs)) = Some (concat bss)"
    using 2 by auto
  then show ?case using 2(2) v by (intro exI [of _ "(f, v) # ws"]) simp
qed simp_all

lemma codes_struct:
  assumes "fields_code K z G fs vs bss" and "distinct (map fst fs)"
  shows "codes K z G (DStruct name fs) (RStruct name vs) (concat bss)"
proof -
  obtain ws where ws: "fields_have_type G name fs vs" "serialize_fields K vs = Ok ws" "map fst ws = map fst fs"
    "\<And>ws'. (\<forall>n w. (n, w) \<in> set ws \<longrightarrow> find_value_in_record_values n ws' = Some w) \<Longrightarrow>
      concat_opts (map (field_bytes z ws') (generate_field_encodings G fs)) = Some (concat bss)"
    using fields_code_write [OF assms(1), of name] by blast
  have "\<forall>n w. (n, w) \<in> set ws \<longrightarrow> find_value_in_record_values n ws = Some w"
    using find_value_distinct assms(2) ws(3) by simp
  from ws(4) [OF this] ws(1,2) show ?thesis by (auto simp: codes_def)
qed

lemma fits_struct:
  assumes "fields_fit K z G fs vs ns" and "distinct (map fst fs)" and "sum_list ns \<le> n"
  shows "fits K z G (DStruct name fs) (RStruct name vs) n"
  using fields_fit_code [OF assms(1)] codes_struct [OF _ assms(2)] assms(3) by (meson fitsI order_trans)

lemma codes_functional: "codes K z G d r bs \<Longrightarrow> codes K z G d r bs' \<Longrightarrow> bs' = bs"
  by (auto simp: codes_def)

lemma newtype_variant_has_type:
  "k < length tags \<Longrightarrow> tags ! k = (i, v, e) \<Longrightarrow> e \<noteq> DUnit \<Longrightarrow> has_type G e x \<Longrightarrow>
   variant_has_type G name idx tags (RNewtypeVariant name (idx + word_of_nat k) v x)"
proof (induction tags arbitrary: k idx)
  case (Cons t tags)
  show ?case
  proof (cases k)
    case 0
    then show ?thesis using Cons.prems by (simp add: variant_has_type_Cons del: variant_has_type.simps)
  next
    case (Suc m)
    then have "variant_has_type G name (idx + 1) tags (RNewtypeVariant name (idx + 1 + word_of_nat m) v x)"
      using Cons by simp
    then show ?thesis using Suc by (cases t) (simp add: add.assoc)
  qed
qed simp

lemma fits_variant:
  assumes "k < length tags" and "tags ! k = (i, v, e)" and "e \<noteq> DUnit"
    and "distinct (map fst tags)" and "distinct (map (\<lambda>t. fst (snd t)) tags)" and "fits K z G e r n"
  shows "fits K z G (DEnum name tt ign tags) (RNewtypeVariant name (word_of_nat k) v r) (n + 2)"
proof -
  obtain bs w where bs: "has_type G e r" "serialize K r = Ok w" "enc z w (generate_encoding G e) = Some bs" "length bs \<le> n"
    using assms(6) by (auto simp: fits_def codes_def)
  have "(i, v, e) \<in> set tags" using assms(1,2) nth_mem by metis
  from find_tag [OF this assms(4,5), of G] bs newtype_variant_has_type [OF assms(1-3) bs(1), of name 0] show ?thesis
    by (cases tt) (auto simp: fits_def codes_def tag_bytes_def)
qed

lemma fits_unit_variant:
  assumes "k < length tags" and "tags ! k = (i, v, DUnit)"
    and "distinct (map fst tags)" and "distinct (map (\<lambda>t. fst (snd t)) tags)"
  shows "fits K z G (DEnum name tt ign tags) (RUnitVariant name (word_of_nat k) v) 2"
proof -
  have "(i, v, DUnit) \<in> set tags" using assms(1,2) nth_mem by metis
  from find_tag [OF this assms(3,4), of G] unit_variant_has_type [OF assms(1,2), of G name 0] show ?thesis
    by (cases tt) (auto simp: fits_def codes_def tag_bytes_def)
qed

section \<open>Hashes and paths\<close>

lemma codes_hash:
  assumes "p2p_syn S" and "G = p2p_env N C P W I S" and "map_of hash_types name = Some ht" and "length h = hash_size ht"
    and "name \<notin> fst ` set p2p_encodings"
  shows "codes K z G (DPath name) (hash_value name h) h"
  using assms(3-5)
  by (auto simp: codes_def assms(2) p2p_env_encodings [OF assms(1)] add_encodings_other base_env_def hash_rtype_def hash_value_def
      bytes_value_def serialize_bytes value_bytes_Some)

lemma length_path_bytes: "list_all (\<lambda>it. length (sibling it) = 32) items \<Longrightarrow> length (path_bytes items) = 1 + 33 * length items"
proof -
  assume "list_all (\<lambda>it. length (sibling it) = 32) items"
  then have "length (path_marks items) + length (concat (path_tails items)) = 33 * length items"
    by (induction items rule: path_marks.induct) auto
  then show ?thesis by (simp add: path_bytes_def)
qed

lemma fits_path:
  assumes "p2p_syn S" and "G = p2p_env N C P W I S" and "list_all (\<lambda>it. length (sibling it) = 32) items" and "length items \<le> 3"
  shows "fits K z G (DPath ''Path'') (path_rust items) 100"
proof -
  have "serialize_elements K (map path_item_rust items) = Ok (map path_item_value items)"
    by (induction items rule: path_marks.induct) (simp_all add: serialize_bytes)
  moreover have "''Path'' \<notin> fst ` set p2p_encodings" by (simp add: p2p_encodings_def)
  ultimately show ?thesis
    using assms(3,4) length_path_bytes [OF assms(3)]
    by (auto simp: fits_def codes_def assms(2) p2p_env_encodings [OF assms(1)] add_encodings_other base_env_def hash_types_def
        path_type_def path_rust_def path_encode_values MAX_PASS_MERKLE_DEPTH_def)
qed

end
