(* ===== verification/Identity_File.thy ===== *)
theory Identity_File
  imports Proof_Of_Work
begin

text \<open>
  The identity of a node: \<^verbatim>\<open>tezos/identity/src/lib.rs\<close>, \<^verbatim>\<open>random_keypair\<close> of \<^verbatim>\<open>crypto/src/crypto_box.rs\<close>, and the counting of
  \<^verbatim>\<open>identity_tool\<close>. The \<^verbatim>\<open>serde_json\<close> crate and the file system are parameters.
\<close>

section \<open>JSON and files\<close>

datatype json_value = JString string | JOther

record serde_json =
  json_from_str :: "string \<Rightarrow> (string, string \<Rightarrow> json_value option) res"
  json_to_string :: "(string \<times> string) list \<Rightarrow> (string, string) res"

text \<open>A map from strings to strings is written as an object, and reading the text gives its entries.\<close>

locale json_laws =
  fixes J :: serde_json
  assumes json_roundtrip: "distinct (map fst m) \<Longrightarrow>
    \<exists>s. json_to_string J m = Ok s \<and> json_from_str J s = Ok (\<lambda>k. map_option JString (map_of m k))"

record 'f file_system =
  read_to_string :: "'f \<Rightarrow> string \<Rightarrow> (string, string) res"
  fs_write :: "'f \<Rightarrow> string \<Rightarrow> string \<Rightarrow> (string, unit) res \<times> 'f"

text \<open>A file that was written can be read.\<close>

locale file_laws =
  fixes F :: "'f file_system"
  assumes read_written: "fs_write F fs path contents = (Ok (), fs') \<Longrightarrow> read_to_string F fs' path = Ok contents"

section \<open>Identities\<close>

record identity =
  id_peer_id :: bytes
  id_public_key :: bytes
  id_secret_key :: bytes
  id_proof_of_work_stamp :: bytes

text \<open>What an \<^verbatim>\<open>IdentityFieldError\<close> says, by field.\<close>

datatype field_reason =
    MissingField string
  | NotText string
  | InvalidPeerIdText from_base58check_error
  | InvalidHexField string crypto_error

datatype identity_error =
    IdIoError string
  | IdentitySerdeError string
  | IdentityFieldError field_reason
  | InvalidPeerIdError
  | IdPublicKeyError public_key_error

definition random_keypair :: "'st sodium \<Rightarrow> bytes \<times> bytes \<Rightarrow> (public_key_error, bytes \<times> bytes \<times> bytes) res" where
  \<comment> \<open>the pair is the one \<open>box_::gen_keypair\<close> returns\<close>
  "random_keypair S = (\<lambda>(pk, sk). res_bind (public_key_hash S pk) (\<lambda>pkh. Ok (sk, pk, pkh)))"

definition identity_generate :: "'st sodium \<Rightarrow> bigint \<Rightarrow> bytes \<times> bytes \<Rightarrow> bytes \<Rightarrow> f64_target \<Rightarrow> (public_key_error, identity) res option" where
  \<comment> \<open>\<open>None\<close> when the search for a stamp does not end\<close>
  "identity_generate S I keypair rnd expected_pow =
     (case random_keypair S keypair of
        Err e \<Rightarrow> Some (Err e)
      | Panic \<Rightarrow> Some Panic
      | Ok (sk, pk, peer_id) \<Rightarrow>
          (case pow_generate S I rnd pk expected_pow of
             Ok None \<Rightarrow> None
           | Ok (Some pow) \<Rightarrow>
               Some (Ok \<lparr>id_peer_id = peer_id, id_public_key = pk, id_secret_key = sk, id_proof_of_work_stamp = pow\<rparr>)
           | _ \<Rightarrow> Some Panic))"

definition check_peer_id :: "'st sodium \<Rightarrow> identity \<Rightarrow> (identity_error, unit) res" where
  "check_peer_id S idt =
     res_bind (map_err IdPublicKeyError (public_key_hash S (id_public_key idt))) (\<lambda>h.
       if id_peer_id idt = h then Ok () else Err InvalidPeerIdError)"

definition text_field :: "(string \<Rightarrow> json_value option) \<Rightarrow> string \<Rightarrow> (identity_error, string) res" where
  "text_field entries name =
     (case entries name of
        None \<Rightarrow> Err (IdentityFieldError (MissingField name))
      | Some JOther \<Rightarrow> Err (IdentityFieldError (NotText name))
      | Some (JString s) \<Rightarrow> Ok s)"

definition from_json :: "'st sodium \<Rightarrow> base58 \<Rightarrow> hex_crate \<Rightarrow> serde_json \<Rightarrow> string \<Rightarrow> (identity_error, identity) res" where
  "from_json S B H J json =
     res_bind (map_err IdentitySerdeError (json_from_str J json)) (\<lambda>entries.
     res_bind (text_field entries ''peer_id'') (\<lambda>peer_id_str.
     res_bind (map_err (\<lambda>e. IdentityFieldError (InvalidPeerIdText e)) (from_base58_check S B CryptoboxPublicKeyHash peer_id_str)) (\<lambda>peer_id.
     res_bind (text_field entries ''public_key'') (\<lambda>public_key_str.
     res_bind (map_err (\<lambda>e. IdentityFieldError (InvalidHexField ''public_key'' e)) (key_from_hex H public_key_str)) (\<lambda>public_key.
     res_bind (text_field entries ''secret_key'') (\<lambda>secret_key_str.
     res_bind (map_err (\<lambda>e. IdentityFieldError (InvalidHexField ''secret_key'' e)) (key_from_hex H secret_key_str)) (\<lambda>secret_key.
     res_bind (text_field entries ''proof_of_work_stamp'') (\<lambda>stamp_str.
     res_bind (map_err (\<lambda>e. IdentityFieldError (InvalidHexField ''proof_of_work_stamp'' e)) (pow_from_hex H stamp_str)) (\<lambda>stamp.
       Ok \<lparr>id_peer_id = peer_id, id_public_key = public_key, id_secret_key = secret_key, id_proof_of_work_stamp = stamp\<rparr>)))))))))"

definition as_json :: "'st sodium \<Rightarrow> base58 \<Rightarrow> hex_crate \<Rightarrow> serde_json \<Rightarrow> identity \<Rightarrow> (identity_error, string) res" where
  "as_json S B H J idt =
     res_bind (unwrap (to_base58_check S B CryptoboxPublicKeyHash (id_peer_id idt))) (\<lambda>peer_id.
       map_err IdentitySerdeError (json_to_string J
         [(''peer_id'', peer_id),
          (''public_key'', hex_encode H (id_public_key idt)),
          (''secret_key'', hex_encode H (id_secret_key idt)),
          (''proof_of_work_stamp'', hex_encode H (id_proof_of_work_stamp idt))]))"

definition load_identity :: "'st sodium \<Rightarrow> base58 \<Rightarrow> hex_crate \<Rightarrow> serde_json \<Rightarrow> 'f file_system \<Rightarrow> 'f \<Rightarrow> string \<Rightarrow> (identity_error, identity) res" where
  "load_identity S B H J F fs path = res_bind (map_err IdIoError (read_to_string F fs path)) (from_json S B H J)"

definition store_identity :: "'st sodium \<Rightarrow> base58 \<Rightarrow> hex_crate \<Rightarrow> serde_json \<Rightarrow> 'f file_system \<Rightarrow> 'f \<Rightarrow> string \<Rightarrow> identity
    \<Rightarrow> (identity_error, unit) res \<times> 'f" where
  "store_identity S B H J F fs path idt =
     (case as_json S B H J idt of
        Ok json \<Rightarrow> (case fs_write F fs path json of (r, fs) \<Rightarrow> (map_err IdIoError r, fs))
      | Err e \<Rightarrow> (Err e, fs)
      | Panic \<Rightarrow> (Panic, fs))"

section \<open>The identity tool\<close>

definition identity_counts :: "bool \<Rightarrow> u64 \<Rightarrow> (unit, u64 \<times> u64) res" where
  \<comment> \<open>how many identities each of the 16 tasks prints, and how many the main task prints before the last one; \<open>num - 1\<close> overflows for 0\<close>
  "identity_counts checks num =
     (if checks \<and> num = 0 then Panic else (let num = num - 1 in Ok (num div 16, num mod 16)))"

section \<open>Lemmas\<close>

definition identity_ok :: "identity \<Rightarrow> bool" where
  "identity_ok idt \<longleftrightarrow> length (id_peer_id idt) = 16 \<and> length (id_public_key idt) = 32 \<and> length (id_secret_key idt) = 32
    \<and> length (id_proof_of_work_stamp idt) = 24"

lemma as_json_from_json:
  assumes "base58check S B" and "hex_laws H" and "json_laws J" and "identity_ok idt"
  shows "\<exists>json. as_json S B H J idt = Ok json \<and> from_json S B H J json = Ok idt"
proof -
  obtain p where p: "to_base58_check S B CryptoboxPublicKeyHash (id_peer_id idt) = Ok p"
    "from_base58_check S B CryptoboxPublicKeyHash p = Ok (id_peer_id idt)"
    using base58check.hash_b58_any_type [OF assms(1), of "id_peer_id idt" CryptoboxPublicKeyHash CryptoboxPublicKeyHash] assms(4)
    by (auto simp: identity_ok_def to_base58_check_def from_base58_check_def)
  have hex: "hex_decode H (hex_encode H bs) = Ok bs" for bs by (rule hex_laws.hex_decode_encode [OF assms(2)])
  let ?m = "[(''peer_id'', p), (''public_key'', hex_encode H (id_public_key idt)), (''secret_key'', hex_encode H (id_secret_key idt)),
    (''proof_of_work_stamp'', hex_encode H (id_proof_of_work_stamp idt))]"
  have keys: "key_from_hex H (hex_encode H (id_public_key idt)) = Ok (id_public_key idt)"
    "key_from_hex H (hex_encode H (id_secret_key idt)) = Ok (id_secret_key idt)"
    "pow_from_hex H (hex_encode H (id_proof_of_work_stamp idt)) = Ok (id_proof_of_work_stamp idt)"
    using hex assms(4) by (simp_all add: key_from_hex_def pow_from_hex_def ensure_crypto_key_bytes_def identity_ok_def
        CRYPTO_KEY_SIZE_def POW_SIZE_def NONCE_SIZE_def)
  obtain json where "json_to_string J ?m = Ok json" "json_from_str J json = Ok (\<lambda>k. map_option JString (map_of ?m k))"
    using json_laws.json_roundtrip [OF assms(3), of ?m] by auto
  then show ?thesis using p keys
    by (intro exI [of _ json]) (simp add: as_json_def from_json_def text_field_def del: res_bind_eq_Ok)
qed

lemma peer_id_hash_ok: "sodium_laws S \<Longrightarrow> \<exists>h. public_key_hash S pk = Ok h \<and> length h = 16"
  using sodium_laws.digest_128_ok [of S pk] by (auto simp: public_key_hash_def)

section \<open>Reference instances\<close>

text \<open>Texts in quotes, with a backslash in front of every character.\<close>

fun quote :: "string \<Rightarrow> string" where
  "quote [] = [CHR 0x22]"
| "quote (c # s) = CHR 0x5C # c # quote s"

fun unquote :: "string \<Rightarrow> (string \<times> string) option" where
  "unquote (a # c # s) =
     (if a = CHR 0x22 then Some ([], c # s) else map_option (\<lambda>(t, r). (c # t, r)) (unquote s))"
| "unquote [a] = (if a = CHR 0x22 then Some ([], []) else None)"
| "unquote [] = None"

fun read_entries :: "nat \<Rightarrow> string \<Rightarrow> (string \<times> string) list" where
  "read_entries (Suc n) s =
     (case unquote s of
        Some (k, r) \<Rightarrow> (case unquote r of Some (v, r) \<Rightarrow> (k, v) # read_entries n r | None \<Rightarrow> [])
      | None \<Rightarrow> [])"
| "read_entries 0 s = []"

definition write_entries :: "(string \<times> string) list \<Rightarrow> string" where
  "write_entries m = concat (map (\<lambda>(k, v). quote k @ quote v) m)"

lemma unquote_quote: "unquote (quote t @ r) = Some (t, r)"
  by (induction t) (cases r, simp_all)

lemma read_write_entries: "length m \<le> n \<Longrightarrow> read_entries n (write_entries m) = m"
proof (induction m arbitrary: n)
  case Nil
  then show ?case by (cases n) (simp_all add: write_entries_def)
next
  case (Cons e m)
  then show ?case by (cases n; cases e) (simp_all add: write_entries_def unquote_quote)
qed

lemma length_quote: "length (quote t) = 2 * length t + 1"
  by (induction t) simp_all

lemma length_write_entries: "length m \<le> length (write_entries m)"
  by (induction m) (auto simp: write_entries_def length_quote)

definition json_ref :: serde_json where
  "json_ref = \<lparr>json_from_str = (\<lambda>s. Ok (\<lambda>k. map_option JString (map_of (read_entries (length s) s) k))),
     json_to_string = (\<lambda>m. Ok (write_entries m))\<rparr>"

interpretation json_ref: json_laws json_ref
  by unfold_locales (simp add: json_ref_def read_write_entries length_write_entries)

definition files_ref :: "(string \<Rightarrow> string option) file_system" where
  "files_ref = \<lparr>read_to_string = (\<lambda>fs path. ok_or ''not found'' (fs path)), fs_write = (\<lambda>fs path contents. (Ok (), fs(path \<mapsto> contents)))\<rparr>"

interpretation files_ref: file_laws files_ref
  by unfold_locales (auto simp: files_ref_def)

section \<open>Properties\<close>

text \<open>
  C17. A generated identity is sound and survives its file: when some stamp meets the target, \<^verbatim>\<open>generate\<close> returns an identity whose peer id is the
  hash of its public key and whose stamp meets the target, and loading a file it was stored in gives the same identity.
\<close>

theorem generated_identity_persists:
  assumes "base58check S B" and "hex_laws H" and "json_laws J" and "file_laws F" and "length pk = 32" and "length sk = 32"
    and "length rnd = 24" and "length r = 24" and "pow_check S I r pk t = Ok ()"
  shows "\<exists>idt. identity_generate S I (pk, sk) rnd t = Some (Ok idt) \<and> id_public_key idt = pk \<and> id_secret_key idt = sk
    \<and> check_peer_id S idt = Ok () \<and> pow_check S I (id_proof_of_work_stamp idt) pk t = Ok ()
    \<and> (\<forall>fs path fs'. store_identity S B H J F fs path idt = (Ok (), fs') \<longrightarrow> load_identity S B H J F fs' path = Ok idt)"
proof -
  obtain h where h: "public_key_hash S pk = Ok h" "length h = 16"
    using peer_id_hash_ok base58check.axioms(1) [OF assms(1)] by blast
  obtain w where w: "pow_generate S I rnd pk t = Ok (Some w)" "length w = 24" "pow_check S I w pk t = Ok ()"
    using pow_generate_returns [of pk rnd r S I t] assms(5,7,8,9) by (auto simp: CRYPTO_KEY_SIZE_def POW_SIZE_def NONCE_SIZE_def)
  let ?idt = "\<lparr>id_peer_id = h, id_public_key = pk, id_secret_key = sk, id_proof_of_work_stamp = w\<rparr>"
  obtain json where json: "as_json S B H J ?idt = Ok json" "from_json S B H J json = Ok ?idt"
    using as_json_from_json [OF assms(1-3), of ?idt] h w assms(5,6) by (auto simp: identity_ok_def)
  have "load_identity S B H J F fs' path = Ok ?idt" if "store_identity S B H J F fs path ?idt = (Ok (), fs')" for fs path fs'
    using that json file_laws.read_written [OF assms(4)] by (auto simp: store_identity_def load_identity_def split: prod.splits)
  then show ?thesis using h w
    by (intro exI [of _ ?idt]) (auto simp: identity_generate_def random_keypair_def check_peer_id_def)
qed

theorem generated_identity_persists_witness:
  "\<exists>idt. identity_generate sodium_ref bigint_ref (replicate 32 0, replicate 32 3) (replicate 24 7)
      \<lparr>target_floor = 26, target_frac_zero = True, target_powf = 0\<rparr> = Some (Ok idt)
    \<and> check_peer_id sodium_ref idt = Ok ()
    \<and> (\<exists>fs. store_identity sodium_ref base58_ref hex_ref json_ref files_ref Map.empty ''identity.json'' idt = (Ok (), fs)
      \<and> load_identity sodium_ref base58_ref hex_ref json_ref files_ref fs ''identity.json'' = Ok idt)"
proof -
  have z: "from_be (replicate k 0) = 0" for k
    using from_be_be_bytes [of k 0] by (simp add: be_bytes_0)
  have "pow_check sodium_ref bigint_ref (replicate 24 0) (replicate 32 0) \<lparr>target_floor = 26, target_frac_zero = True, target_powf = 0\<rparr> = Ok ()"
    by (simp add: pow_check_def check_proof_of_work_def check_proof_of_work_inner_def make_target_def
        digest_256_def digest_def sodium_ref_def bigint_ref_def be_bytes_0 z flip: replicate_add)
  from generated_identity_persists [OF base58check_ref.base58check_axioms hex_ref.hex_laws_axioms json_ref.json_laws_axioms
      files_ref.file_laws_axioms _ _ _ _ this, of "replicate 32 3" "replicate 24 7"]
  obtain idt where idt: "identity_generate sodium_ref bigint_ref (replicate 32 0, replicate 32 3) (replicate 24 7)
      \<lparr>target_floor = 26, target_frac_zero = True, target_powf = 0\<rparr> = Some (Ok idt)" "check_peer_id sodium_ref idt = Ok ()"
    "\<And>fs path fs'. store_identity sodium_ref base58_ref hex_ref json_ref files_ref fs path idt = (Ok (), fs') \<Longrightarrow>
      load_identity sodium_ref base58_ref hex_ref json_ref files_ref fs' path = Ok idt" by auto
  have "length (id_peer_id idt) = hash_size CryptoboxPublicKeyHash"
    using idt(2) by (auto simp: check_peer_id_def public_key_hash_def split: if_splits)
  then obtain json where "as_json sodium_ref base58_ref hex_ref json_ref idt = Ok json"
    using base58check_ref.hash_b58_payload [of "id_peer_id idt" CryptoboxPublicKeyHash]
    by (auto simp: as_json_def to_base58_check_def json_ref_def)
  then have "store_identity sodium_ref base58_ref hex_ref json_ref files_ref Map.empty ''identity.json'' idt = (Ok (), [''identity.json'' \<mapsto> json])"
    by (simp add: store_identity_def files_ref_def)
  then show ?thesis using idt by blast
qed

text \<open>The tasks of \<^verbatim>\<open>identity_tool\<close> print as many identities as it was asked for, unless that is none.\<close>

theorem identity_tool_total: "num \<noteq> 0 \<Longrightarrow> \<exists>a b. identity_counts checks num = Ok (a, b) \<and> 16 * unat a + unat b + 1 = unat num"
  using unat_gt_0 [of num] by (auto simp: identity_counts_def Let_def unat_div unat_mod unat_minus_one)

end
