(* ===== verification/P2p_Fuzzer.thy ===== *)
theory P2p_Fuzzer
  imports Gen_Messages Identity_File
begin

text \<open>
  The fuzzer itself, \<^verbatim>\<open>p2p_fuzzer/src/bin/p2p_fuzzer.rs\<close>: bursts of generated messages, the answers to the node's requests, the
  handshake, and the loop of a worker. A call that may not return is a function into \<open>option\<close>: \<open>None\<close> stands for running forever.
\<close>

section \<open>Options\<close>

record handshake_options =
  ho_chunk_options :: chunk_options
  abort_before_connect :: u64
  connect_sleep :: u64
  connect_msg_sleep :: u64
  fuzz_public_key :: u64
  fuzz_pow :: u64
  fuzz_network_version :: u64
  abort_before_metadata :: u64
  metadata_msg_sleep :: u64
  recv_metadata :: u64
  fuzz_metadata :: u64
  abort_before_ack :: u64
  ack_msg_sleep :: u64
  fuzz_ack :: u64
  recv_ack :: u64

record reply_options =
  ro_bootstrap :: u64
  ro_get_current_head :: u64
  ro_get_current_branch :: u64
  ro_get_block_headers :: u64
  ro_get_operations_for_blocks :: u64

record peer_message_options =
  po_chunk_options :: chunk_options
  messages_per_chunk :: u64
  push_messages :: "string list"
  max_push_throughput :: u64
  po_reply_options :: "reply_options option"

record profile =
  pr_peer :: string
  prng_seed :: u64
  pr_max_chunk_size :: nat
  handshake_fuzzing :: "handshake_options option"
  peer_message_fuzzing :: "peer_message_options option"

section \<open>Calls that may not return\<close>

type_synonym ('s, 'a) run = "'s \<Rightarrow> ((io_error, 'a) res \<times> 's) option"

definition run_call :: "('s, io_error, 'a) call \<Rightarrow> ('s, 'a) run" where
  "run_call m s = Some (m s)"

definition bind_run :: "('s, 'a) run \<Rightarrow> ('a \<Rightarrow> ('s, 'b) run) \<Rightarrow> ('s, 'b) run" where
  "bind_run m f s =
     (case m s of
        None \<Rightarrow> None
      | Some (Ok a, s) \<Rightarrow> f a s
      | Some (Err e, s) \<Rightarrow> Some (Err e, s)
      | Some (Panic, s) \<Rightarrow> Some (Panic, s))"

section \<open>A connection\<close>

record 'g conn =
  cn_link :: "'g link"
  cn_local :: nonce
  cn_remote :: nonce
  cn_buffer :: chunk_buffer

definition in_link :: "('g link, io_error, 'a) call \<Rightarrow> ('g conn, io_error, 'a) call" where
  "in_link m c = (case m (cn_link c) of (r, l) \<Rightarrow> (r, c\<lparr>cn_link := l\<rparr>))"

definition on_gen :: "('g, 'a) gen \<Rightarrow> ('g conn, io_error, 'a) call" where
  "on_gen m = in_link (in_gen m)"

definition send_bytes :: "('g, 'st) gen_env \<Rightarrow> chunk_options \<Rightarrow> bytes \<Rightarrow> bytes \<Rightarrow> ('g conn, io_error, unit) call" where
  \<comment> \<open>\<open>write_bytes_encrypted\<close>, which advances the local nonce\<close>
  "send_bytes E options key bs c =
     bind_call
       (in_link (write_bytes_encrypted (ge_rng E) (ge_sodium E) (ge_bigint E) (ge_wire E) options bs key (cn_local c)))
       (\<lambda>nonce c. (Ok (), c\<lparr>cn_local := nonce\<rparr>)) c"

definition send_msg :: "('g, 'st) gen_env \<Rightarrow> chunk_options \<Rightarrow> bytes \<Rightarrow> string \<Rightarrow> rust \<Rightarrow> ('g conn, io_error, unit) call" where
  \<comment> \<open>\<open>write_msg\<close>\<close>
  "send_msg E options key name msg c =
     bind_call
       (in_link (write_msg (ge_rng E) (ge_sodium E) (ge_bigint E) (ge_wire E) (ge_hex E) (ge_num E) options (ge_types E name) msg key
          (cn_local c)))
       (\<lambda>nonce c. (Ok (), c\<lparr>cn_local := nonce\<rparr>)) c"

definition recv_msg :: "('g, 'st) gen_env \<Rightarrow> bytes \<Rightarrow> string \<Rightarrow> bool \<Rightarrow> ('g conn, rust) run" where
  \<comment> \<open>\<open>read_msg\<close>, which advances the remote nonce\<close>
  "recv_msg E key name is_peer c =
     (case read_msg (ge_get_u16 E) (ge_sodium E) (ge_bigint E) (ge_ncomb E) (ge_types E name) key is_peer (cn_remote c) (cn_buffer c)
             (lk_stream (cn_link c)) of
        None \<Rightarrow> None
      | Some (r, b, s) \<Rightarrow>
          (let c = c\<lparr>cn_link := (cn_link c)\<lparr>lk_stream := s\<rparr>, cn_buffer := b\<rparr> in
           case r of
             Ok (m, nonce) \<Rightarrow> Some (Ok m, c\<lparr>cn_remote := nonce\<rparr>)
           | Err e \<Rightarrow> Some (Err e, c)
           | Panic \<Rightarrow> Some (Panic, c)))"

section \<open>Bursts\<close>

definition push_message :: "('g, 'st) gen_env \<Rightarrow> string \<Rightarrow> ('g, rust) gen" where
  "push_message E name =
     (let wrap = (\<lambda>m. bind_call m (\<lambda>msg. ret (peer_message name msg))) in
      if name = ''Disconnect'' then ret (peer_unit name)
      else if name = ''Bootstrap'' then ret (peer_unit name)
      else if name = ''Advertise'' then wrap (gen_advertise E)
      else if name = ''SwapRequest'' then wrap (gen_swap E)
      else if name = ''SwapAck'' then wrap (gen_swap E)
      else if name = ''GetCurrentBranch'' then wrap (gen_get_current_branch E)
      else if name = ''CurrentBranch'' then wrap (gen_current_branch_message E)
      else if name = ''Deactivate'' then wrap (gen_deactivate E)
      else if name = ''GetCurrentHead'' then wrap (gen_get_current_head E)
      else if name = ''CurrentHead'' then wrap (gen_current_head_message E)
      else if name = ''GetBlockHeaders'' then wrap (gen_get_block_headers E)
      else if name = ''BlockHeader'' then wrap (gen_block_header_message E)
      else if name = ''GetOperations'' then wrap (gen_get_operations E)
      else if name = ''Operation'' then wrap (gen_operation_message E)
      else if name = ''GetProtocols'' then wrap (gen_get_protocols E)
      else if name = ''Protocol'' then wrap (gen_protocol_message E)
      else if name = ''GetOperationsForBlocks'' then wrap (gen_get_operations_for_blocks E)
      else if name = ''OperationsForBlocks'' then wrap (gen_operations_for_blocks_message E)
      else lift_res Panic)"

definition push_one :: "('g, 'st) gen_env \<Rightarrow> string list \<Rightarrow> ('g, bytes) gen" where
  "push_one E messages =
     bind_call (gen_range (ge_rng E) 0 (length messages)) (\<lambda>index.
     bind_call (push_message E (messages ! index)) (\<lambda>msg.
       lift_res (value_bytes_of E ''PeerMessageResponse'' (peer_message_response_from msg))))"

definition push_batch :: "('g, 'st) gen_env \<Rightarrow> peer_message_options \<Rightarrow> bytes \<Rightarrow> ('g conn, io_error, unit) call" where
  "push_batch E options key =
     bind_call (on_gen (repeat_call (unat (messages_per_chunk options)) (push_one E (push_messages options)))) (\<lambda>batch.
       send_bytes E (po_chunk_options options) key (concat batch))"

partial_function (option) push_loop :: "('g, 'st) gen_env \<Rightarrow> peer_message_options \<Rightarrow> bytes \<Rightarrow> nat \<Rightarrow> 'g conn
    \<Rightarrow> ((io_error, unit) res \<times> 'g conn) option" where
  "push_loop E options key remaining c =
     (if remaining < unat (messages_per_chunk options) then Some (Ok (), c)
      else
        (case push_batch E options key c of
           (Ok _, c) \<Rightarrow> push_loop E options key (remaining - unat (messages_per_chunk options)) c
         | (Err e, c) \<Rightarrow> Some (Err e, c)
         | (Panic, c) \<Rightarrow> Some (Panic, c)))"

definition fuzz_peer_messages :: "('g, 'st) gen_env \<Rightarrow> peer_message_options \<Rightarrow> bytes \<Rightarrow> ('g conn, unit) run" where
  \<comment> \<open>\<open>max_push_throughput + 1\<close> that overflows panics, or wraps to an empty range, which panics too\<close>
  "fuzz_peer_messages E options key =
     bind_run (run_call (on_gen (gen_range (ge_rng E) 1 (unat (max_push_throughput options + 1)))))
       (push_loop E options key)"

section \<open>Answers\<close>

definition reply_with :: "('g, 'st) gen_env \<Rightarrow> peer_message_options \<Rightarrow> bytes \<Rightarrow> string \<Rightarrow> ('g, rust) gen \<Rightarrow> ('g conn, io_error, unit) call" where
  "reply_with E options key variant m =
     bind_call (on_gen m) (\<lambda>msg.
       send_msg E (po_chunk_options options) key ''PeerMessageResponse'' (peer_message_response_from (peer_message variant msg)))"

definition reply_block :: "('g, 'st) gen_env \<Rightarrow> peer_message_options \<Rightarrow> bytes \<Rightarrow> rust \<Rightarrow> unit \<Rightarrow> ('g conn, io_error, unit) call" where
  "reply_block E options key h _ =
     bind_call (on_gen (get_block (hash_of h))) (\<lambda>msg.
       case msg of
         None \<Rightarrow> ret ()
       | Some msg \<Rightarrow>
           send_msg E (po_chunk_options options) key ''PeerMessageResponse'' (peer_message_response_from (peer_message ''BlockHeader'' msg)))"

definition reply_operations :: "('g, 'st) gen_env \<Rightarrow> peer_message_options \<Rightarrow> bytes \<Rightarrow> rust \<Rightarrow> unit \<Rightarrow> ('g conn, io_error, unit) call" where
  "reply_operations E options key ofb _ =
     reply_with E options key ''OperationsForBlocks''
       (bind_call (gen_path E) (\<lambda>path.
        bind_call (gen_operations E) (\<lambda>ops. ret (operations_for_blocks_message_new ofb path ops))))"

definition with_probability :: "('g, 'st) gen_env \<Rightarrow> u64 \<Rightarrow> ('g conn, io_error, unit) call \<Rightarrow> ('g conn, io_error, unit) call" where
  "with_probability E p m = bind_call (on_gen (gen_bool (ge_rng E) p)) (\<lambda>b. if b then m else ret ())"

definition answer :: "('g, 'st) gen_env \<Rightarrow> peer_message_options \<Rightarrow> reply_options \<Rightarrow> bytes \<Rightarrow> rust \<Rightarrow> ('g conn, io_error, unit) call" where
  \<comment> \<open>the \<open>match m.message\<close> of \<open>handle_response\<close>\<close>
  "answer E options reply key msg =
     (case msg of
        RUnitVariant _ _ variant \<Rightarrow>
          if variant = ''Bootstrap'' then
            with_probability E (ro_bootstrap reply) (reply_with E options key ''Advertise'' (gen_advertise E))
          else ret ()
      | RNewtypeVariant _ _ variant body \<Rightarrow>
          if variant = ''GetCurrentHead'' then
            bind_call (on_gen (set_chain_id (hash_of (get_field ''chain_id'' body)))) (\<lambda>_.
              with_probability E (ro_get_current_head reply)
                (reply_with E options key ''CurrentHead'' (gen_current_head_message E)))
          else if variant = ''GetCurrentBranch'' then
            bind_call (on_gen (set_chain_id (hash_of (get_field ''chain_id'' body)))) (\<lambda>_.
              with_probability E (ro_get_current_branch reply)
                (reply_with E options key ''CurrentBranch'' (gen_current_branch_message E)))
          else if variant = ''GetBlockHeaders'' then
            with_probability E (ro_get_block_headers reply)
              (fold_call (reply_block E options key) (seq_items (get_field ''get_block_headers'' body)) ())
          else if variant = ''GetOperationsForBlocks'' then
            with_probability E (ro_get_operations_for_blocks reply)
              (fold_call (reply_operations E options key) (seq_items (get_field ''get_operations_for_blocks'' body)) ())
          else if variant = ''CurrentBranch'' then on_gen (set_current_branch body)
          else if variant = ''CurrentHead'' then
            bind_call (on_gen (set_chain_id (hash_of (get_field ''chain_id'' body)))) (\<lambda>_. on_gen (set_current_head body))
          else if variant = ''BlockHeader'' then on_gen (set_block_header body)
          else if variant = ''Operation'' then on_gen (set_operation body)
          else if variant = ''Protocol'' then on_gen (set_protocol body)
          else if variant = ''OperationsForBlocks'' then on_gen (set_operations_for_blocks body)
          else ret ()
      | _ \<Rightarrow> ret ())"

definition handle_response :: "('g, 'st) gen_env \<Rightarrow> peer_message_options \<Rightarrow> bytes \<Rightarrow> ('g conn, unit) run" where
  "handle_response E options key =
     (case po_reply_options options of
        None \<Rightarrow> run_call (ret ())
      | Some reply \<Rightarrow>
          bind_run (recv_msg E key ''PeerMessageResponse'' True) (\<lambda>m.
            run_call (answer E options reply key (get_field ''message'' m))))"

section \<open>The session\<close>

partial_function (option) message_loop :: "('g, 'st) gen_env \<Rightarrow> peer_message_options \<Rightarrow> bytes \<Rightarrow> 'g conn
    \<Rightarrow> ((io_error, unit) res \<times> 'g conn) option" where
  "message_loop E options key c =
     (case handle_response E options key c of
        None \<Rightarrow> None
      | Some (Err e, c) \<Rightarrow> Some (Err e, c)
      | Some (Panic, c) \<Rightarrow> Some (Panic, c)
      | Some (Ok _, c) \<Rightarrow>
          (case fuzz_peer_messages E options key c of
             None \<Rightarrow> None
           | Some (Err e, c) \<Rightarrow> Some (Err e, c)
           | Some (Panic, c) \<Rightarrow> Some (Panic, c)
           | Some (Ok _, c) \<Rightarrow> message_loop E options key c))"

definition default_handshake_options :: handshake_options where
  \<comment> \<open>pauses are left out\<close>
  "default_handshake_options = \<lparr>
     ho_chunk_options = \<lparr>flip_bits = p_0_01, split_chunks = p_0_01, split_bytes = p_0_01, incomplete_send = p_0_01,
       write_bytes_sleep = p_0_01, write_bytes_sleep_ms = 20000\<rparr>,
     abort_before_connect = p_0_01, connect_sleep = p_0_01, connect_msg_sleep = p_0_01, fuzz_public_key = p_0_01, fuzz_pow = p_0_01,
     fuzz_network_version = p_0_01, abort_before_metadata = p_0_01, metadata_msg_sleep = p_0_01, recv_metadata = p_0_9,
     fuzz_metadata = p_0_01, abort_before_ack = p_0_01, ack_msg_sleep = p_0_01, fuzz_ack = p_0_01, recv_ack = p_0_9\<rparr>"

text \<open>Sockets are a parameter: whether a local address can be bound, the address a text denotes, and the stream of a connection.\<close>

type_synonym addr_v4 = "bytes \<times> u16"

record network =
  net_socket :: "(io_error, unit) res"
  net_bind :: "addr_v4 \<Rightarrow> (io_error, unit) res"
  net_parse :: "string \<Rightarrow> (unit, addr_v4) res"
  net_connect :: "addr_v4 \<Rightarrow> addr_v4 \<Rightarrow> (io_error, tcp_stream) res"

definition open_stream :: "('g, 'st) gen_env \<Rightarrow> network \<Rightarrow> profile \<Rightarrow> ('g, tcp_stream) gen" where
  "open_stream E net profile =
     bind_call (lift_res (net_socket net)) (\<lambda>_.
     bind_call (gen_range (ge_rng E) 0 255) (\<lambda>a.
     bind_call (gen_range (ge_rng E) 2 255) (\<lambda>b.
     bind_call (gen_range (ge_rng E) 2000 0xFFFF) (\<lambda>port.
       let addr = ([172, 28, word_of_nat a, word_of_nat b], word_of_nat port) in
       bind_call (lift_res (net_bind net addr)) (\<lambda>_.
       bind_call (lift_res (unwrap (net_parse net (pr_peer profile)))) (\<lambda>peer. lift_res (net_connect net addr peer)))))))"

definition mainnet_name :: bytes where "mainnet_name = map of_char ''TEZOS_MAINNET''"

definition own_connection_message :: "('g, 'st) gen_env \<Rightarrow> handshake_options \<Rightarrow> identity \<Rightarrow> ('g, rust) gen" where
  "own_connection_message E options identity =
     (let R = ge_rng E in
      bind_call (gen_bool R (fuzz_network_version options)) (\<lambda>b.
      bind_call (if b then gen_network_version E else ret (network_version_new mainnet_name 0 1)) (\<lambda>version.
      bind_call (gen_bool R (fuzz_public_key options)) (\<lambda>b.
      bind_call (if b then gen_public_key E else ret (id_public_key identity)) (\<lambda>public_key.
      bind_call (gen_bool R (fuzz_pow options)) (\<lambda>b.
      bind_call (if b then gen_proof_of_work E else ret (id_proof_of_work_stamp identity)) (\<lambda>pow.
      bind_call (gen_word R) (\<lambda>port.
      bind_call (gen_nonce E) (\<lambda>nonce.
        lift_res (unwrap (connection_message_try_new (ge_bigint E) port public_key pow nonce version)))))))))))"

definition own_ack :: "('g, 'st) gen_env \<Rightarrow> handshake_options \<Rightarrow> ('g, rust) gen" where
  "own_ack E options =
     bind_call (gen_bool (ge_rng E) (fuzz_ack options)) (\<lambda>b.
       if b then
         bind_call (gen_bool (ge_rng E) p_0_5) (\<lambda>b.
           if b then ret nack_v0_value else bind_call (gen_nack_info E) (\<lambda>info. ret (nack_value info)))
       else ret ack_value)"

definition recv_chunk :: "('g, 'st) gen_env \<Rightarrow> ('g conn, binary_chunk) run" where
  "recv_chunk E c =
     (case read_chunk (ge_get_u16 E) (cn_buffer c) (lk_stream (cn_link c)) of
        None \<Rightarrow> None
      | Some (r, b, s) \<Rightarrow> Some (r, c\<lparr>cn_link := (cn_link c)\<lparr>lk_stream := s\<rparr>, cn_buffer := b\<rparr>))"

definition session_key :: "('g, 'st) gen_env \<Rightarrow> identity \<Rightarrow> binary_chunk \<Rightarrow> (io_error, bytes) res" where
  \<comment> \<open>the shared key, from the public key in the node's connection message\<close>
  "session_key E identity responder_chunk =
     res_bind (unwrap (from_bytes (ge_ncomb E) (ge_types E ''ConnectionMessage'') (chunk_content responder_chunk))) (\<lambda>msg.
     res_bind (unwrap (ensure_crypto_key_bytes (value_u8s (get_field ''public_key'' msg)))) (\<lambda>pk.
       Ok (precompute (ge_sodium E) pk (id_secret_key identity))))"

definition set_nonces :: "nonce_pair \<Rightarrow> ('g conn, io_error, unit) call" where
  "set_nonces pair c = (Ok (), c\<lparr>cn_local := local_nonce pair, cn_remote := remote_nonce pair\<rparr>)"

definition pause :: "('g, 'st) gen_env \<Rightarrow> u64 \<Rightarrow> ('g conn, unit) run" where
  \<comment> \<open>the draw that decides about a pause\<close>
  "pause E p = run_call (bind_call (on_gen (gen_bool (ge_rng E) p)) (\<lambda>_. ret ()))"

definition unless :: "('g, 'st) gen_env \<Rightarrow> u64 \<Rightarrow> ('g conn, unit) run \<Rightarrow> ('g conn, unit) run" where
  \<comment> \<open>\<open>if generator.gen_bool(p) { return Ok(()); }\<close> before the rest\<close>
  "unless E p rest = bind_run (run_call (on_gen (gen_bool (ge_rng E) p))) (\<lambda>b. if b then run_call (ret ()) else rest)"

definition try_recv :: "('g, 'st) gen_env \<Rightarrow> u64 \<Rightarrow> bytes \<Rightarrow> string \<Rightarrow> ('g conn, unit) run" where
  "try_recv E p key name =
     bind_run (run_call (on_gen (gen_bool (ge_rng E) p))) (\<lambda>b.
       if b then bind_run (recv_msg E key name False) (\<lambda>_. run_call (ret ())) else run_call (ret ()))"

definition acknowledge :: "('g, 'st) gen_env \<Rightarrow> handshake_options \<Rightarrow> peer_message_options option \<Rightarrow> bytes \<Rightarrow> ('g conn, unit) run" where
  \<comment> \<open>from the acknowledgement on\<close>
  "acknowledge E options messages key =
     bind_run (pause E (metadata_msg_sleep options)) (\<lambda>_.
     bind_run (run_call (on_gen (own_ack E options))) (\<lambda>ack.
     bind_run (run_call (send_msg E (ho_chunk_options options) key ''AckMessage'' ack)) (\<lambda>_.
     bind_run (pause E (ack_msg_sleep options)) (\<lambda>_.
     bind_run (try_recv E (recv_ack options) key ''AckMessage'') (\<lambda>_.
       case messages of None \<Rightarrow> run_call (ret ()) | Some messages \<Rightarrow> message_loop E messages key)))))"

definition exchange_metadata :: "('g, 'st) gen_env \<Rightarrow> handshake_options \<Rightarrow> peer_message_options option \<Rightarrow> identity \<Rightarrow> binary_chunk
    \<Rightarrow> ('g conn, unit) run" where
  \<comment> \<open>from the node's connection message on\<close>
  "exchange_metadata E options messages identity initiator_chunk =
     bind_run (pause E (connect_msg_sleep options)) (\<lambda>_.
     bind_run (recv_chunk E) (\<lambda>responder_chunk.
     bind_run (run_call (lift_res (session_key E identity responder_chunk))) (\<lambda>key.
     bind_run (run_call (lift_res (unwrap
         (generate_nonces (ge_sodium E) (ge_bigint E) (chunk_raw initiator_chunk) (chunk_raw responder_chunk) False)))) (\<lambda>nonces.
     bind_run (run_call (set_nonces nonces)) (\<lambda>_.
     bind_run (run_call (on_gen (gen_bool (ge_rng E) (fuzz_metadata options)))) (\<lambda>b.
     bind_run (run_call (on_gen (if b then gen_metadata E else ret (metadata_message_new False False)))) (\<lambda>metadata.
     bind_run (run_call (send_msg E (ho_chunk_options options) key ''MetadataMessage'' metadata)) (\<lambda>_.
     bind_run (try_recv E (recv_metadata options) key ''MetadataMessage'') (\<lambda>_.
       unless E (abort_before_ack options) (acknowledge E options messages key))))))))))"

definition handshake :: "('g, 'st) gen_env \<Rightarrow> handshake_options \<Rightarrow> peer_message_options option \<Rightarrow> identity \<Rightarrow> ('g conn, unit) run" where
  "handshake E options messages identity =
     unless E (abort_before_connect options)
       (bind_run (pause E (connect_sleep options)) (\<lambda>_.
        bind_run (run_call (on_gen (own_connection_message E options identity))) (\<lambda>msg.
        bind_run (run_call (lift_res (value_bytes_of E ''ConnectionMessage'' msg))) (\<lambda>bs.
        bind_run (run_call (lift_res (unwrap (from_content (ge_wire E) bs)))) (\<lambda>initiator_chunk.
        bind_run (run_call (in_link (write_bytes (ge_rng E) (ho_chunk_options options) (chunk_raw initiator_chunk)))) (\<lambda>_.
          unless E (abort_before_metadata options) (exchange_metadata E options messages identity initiator_chunk)))))))"

definition fuzz :: "('g, 'st) gen_env \<Rightarrow> network \<Rightarrow> identity list \<Rightarrow> profile \<Rightarrow> ('g random_state, unit) run" where
  \<comment> \<open>the nonces of the new connection are set once both connection messages are known\<close>
  "fuzz E net identities profile =
     (let options = (case handshake_fuzzing profile of None \<Rightarrow> default_handshake_options | Some options \<Rightarrow> options) in
      bind_run (run_call (open_stream E net profile)) (\<lambda>stream.
      bind_run (run_call (gen_range (ge_rng E) 0 (length identities))) (\<lambda>i s.
        case handshake E options (peer_message_fuzzing profile) (identities ! i)
               \<lparr>cn_link = \<lparr>lk_gen = s, lk_stream = stream\<rparr>, cn_local = \<lparr>nonce_value = 0\<rparr>, cn_remote = \<lparr>nonce_value = 0\<rparr>,
                cn_buffer = chunk_buffer_default\<rparr> of
          None \<Rightarrow> None
        | Some (r, c) \<Rightarrow> Some (r, lk_gen (cn_link c)))))"

text \<open>A worker connects again and again, with another network each time; it ends only when a call panics.\<close>

partial_function (option) worker_loop :: "('g, 'st) gen_env \<Rightarrow> (nat \<Rightarrow> network) \<Rightarrow> identity list \<Rightarrow> profile \<Rightarrow> nat \<Rightarrow> 'g random_state
    \<Rightarrow> 'g random_state option" where
  "worker_loop E net identities profile n s =
     (case fuzz E (net n) identities profile s of
        None \<Rightarrow> None
      | Some (Panic, s) \<Rightarrow> Some s
      | Some (Ok _, s) \<Rightarrow> worker_loop E net identities profile (n + 1) s
      | Some (Err _, s) \<Rightarrow> worker_loop E net identities profile (n + 1) s)"

definition worker :: "('g, 'st) gen_env \<Rightarrow> base58 \<Rightarrow> (nat \<Rightarrow> network) \<Rightarrow> identity list \<Rightarrow> profile \<Rightarrow> u64 \<Rightarrow> unit option" where
  \<comment> \<open>\<open>None\<close> when it runs forever, \<open>Some ()\<close> when a panic ends it\<close>
  "worker E B net identities profile task_id =
     (case res_bind
        (if ge_checks E \<and> 2 ^ 64 \<le> unat (prng_seed profile) * unat task_id then Panic else Ok (prng_seed profile * task_id))
        (\<lambda>seed. random_state_new (ge_rng E) (ge_sodium E) B seed 0 (pr_max_chunk_size profile)) of
        Ok s \<Rightarrow> map_option (\<lambda>_. ()) (worker_loop E net identities profile 0 s)
      | _ \<Rightarrow> Some ())"

end
