(* ===== verification/Gen_Encodable.thy ===== *)
theory Gen_Encodable
  imports Encodable P2p_Fuzzer
begin

text \<open>
  What a generator that has recorded no message of the node gives: every call returns, and every message can be written. The
  crates are the locale \<open>fuzzer_crates\<close>; its reference instance stands at the end.
\<close>

section \<open>Type lookups\<close>

fun declared_before :: "(string \<times> string list) list \<Rightarrow> bool" where
  "declared_before [] = True"
| "declared_before ((n, ps) # ds) =
     (n \<notin> fst ` set ds \<and> list_all (\<lambda>p. p \<noteq> n \<and> p \<notin> fst ` set ds) ps \<and> declared_before ds)"

lemma p2p_declared: "declared_before (map (\<lambda>(n, d). (n, paths_of d)) p2p_encodings)"
  unfolding p2p_encodings_def list.map prod.case paths_of.simps field_paths.simps tag_paths.simps append.simps
  by code_simp

lemma declared_before_at:
  "declared_before (map (\<lambda>(n, d). (n, paths_of d)) ds) \<Longrightarrow> map_of ds n = Some d \<Longrightarrow>
   \<exists>i < length ds. ds ! i = (n, d) \<and> n \<notin> fst ` set (drop (Suc i) ds) \<and> list_all (\<lambda>p. p \<notin> fst ` set (drop i ds)) (paths_of d)"
proof (induction ds)
  case (Cons nd ds)
  obtain m e where nd: "nd = (m, e)" by (cases nd)
  have names: "fst ` set (map (\<lambda>(n, d). (n, paths_of d)) ds) = fst ` set ds" by force
  show ?case
  proof (cases "m = n")
    case True
    then show ?thesis using Cons.prems nd by (intro exI [of _ 0]) (simp del: set_map add: names)
  next
    case False
    then obtain i where "i < length ds" "ds ! i = (n, d)" "n \<notin> fst ` set (drop (Suc i) ds)"
      "list_all (\<lambda>p. p \<notin> fst ` set (drop i ds)) (paths_of d)"
      using Cons nd by auto
    then show ?thesis by (intro exI [of _ "Suc i"]) simp
  qed
qed simp

section \<open>Calls that keep an invariant\<close>

definition gives :: "('g random_state \<Rightarrow> bool) \<Rightarrow> ('g, 'a) gen \<Rightarrow> ('a \<Rightarrow> bool) \<Rightarrow> bool" where
  "gives Inv m P \<longleftrightarrow> (\<forall>s. Inv s \<longrightarrow> (\<exists>x s'. m s = (Ok x, s') \<and> Inv s' \<and> P x))"

lemma gives_ret [simp]: "P x \<Longrightarrow> gives Inv (ret x) P"
  by (simp add: gives_def)

lemma gives_bind: "gives Inv m P \<Longrightarrow> (\<And>x. P x \<Longrightarrow> gives Inv (f x) Q) \<Longrightarrow> gives Inv (bind_call m f) Q"
  unfolding gives_def by (metis bind_call_Ok)

lemma gives_mono: "gives Inv m P \<Longrightarrow> (\<And>x. P x \<Longrightarrow> Q x) \<Longrightarrow> gives Inv m Q"
  unfolding gives_def by blast

lemma gives_lift: "r = Ok x \<Longrightarrow> P x \<Longrightarrow> gives Inv (lift_res r) P"
  by (simp add: gives_def)

lemma gives_read: "(\<And>s. Inv s \<Longrightarrow> P (f s)) \<Longrightarrow> gives Inv (read_state f) P"
  by (simp add: gives_def read_state_def)

lemma gives_repeat: "gives Inv m P \<Longrightarrow> gives Inv (repeat_call n m) (\<lambda>xs. length xs = n \<and> list_all P xs)"
proof (induction n)
  case 0
  then show ?case by (simp add: gives_def)
next
  case (Suc n)
  have "gives Inv (bind_call m (\<lambda>x. bind_call (repeat_call n m) (\<lambda>xs. ret (x # xs)))) (\<lambda>xs. length xs = Suc n \<and> list_all P xs)"
    by (rule gives_bind [OF Suc.prems], rule gives_bind [OF Suc.IH [OF Suc.prems]]) simp
  then show ?case by (simp add: gives_def)
qed

lemma gives_if: "(b \<Longrightarrow> gives Inv m P) \<Longrightarrow> (\<not> b \<Longrightarrow> gives Inv m' P) \<Longrightarrow> gives Inv (if b then m else m') P"
  by simp

definition fresh :: "'g random_state \<Rightarrow> bool" where
  \<comment> \<open>no message of the node is recorded, and the hashes have their sizes\<close>
  "fresh s \<longleftrightarrow> current_branch s = None \<and> current_head s = None \<and> block_header s = None \<and> operation s = None \<and> protocol s = None
     \<and> operations_for_blocks s = None \<and> length (last_block s) = 32 \<and> length (chain_id s) = 4"

lemma fresh_keeps: "fresh s \<Longrightarrow> keeps_state s s' \<Longrightarrow> fresh s'"
  by (auto simp: fresh_def keeps_state_def)

lemma gives_yields: "(\<And>s. yields s m P) \<Longrightarrow> gives fresh m P"
  unfolding gives_def yields_def using fresh_keeps by blast

lemmas gives_draws =
  gives_yields [OF yields_range] gives_yields [OF yields_bool] gives_yields [OF yields_word] gives_yields [OF yields_standard_bool]
  gives_yields [OF yields_vec] gives_yields [OF yields_string]

lemma gives_string_below: "0 < n \<Longrightarrow> gives fresh (gen_string_below R n) (\<lambda>t. utf8_valid t \<and> length t \<le> n - 1)"
  unfolding gen_string_below_def by (rule gives_bind [OF gives_draws(1)], simp, rule gives_mono [OF gives_draws(6)]) auto

lemma gives_flip: "gives fresh (flip_bytes R (gen_bool R p_0_1) k bs) (\<lambda>cs. length cs = length bs)"
proof (induction bs arbitrary: k)
  case Nil
  then show ?case by (simp add: gives_def)
next
  case (Cons b bs)
  have "gives fresh (bind_call (if 0 < k then gen_bool R p_0_1 else ret False) (\<lambda>picked.
       if picked then
         bind_call (gen_range R 0 8) (\<lambda>i.
         bind_call (flip_bytes R (gen_bool R p_0_1) (k - 1) bs) (\<lambda>mutated. ret (xor b (push_bit i 1) # mutated)))
       else bind_call (flip_bytes R (gen_bool R p_0_1) k bs) (\<lambda>mutated. ret (b # mutated)))) (\<lambda>cs. length cs = length (b # bs))"
    by (rule gives_bind [of _ _ "\<lambda>_. True"], rule gives_if [OF gives_draws(2) gives_ret], simp_all)
      (intro conjI impI gives_bind [OF gives_draws(1)] gives_bind [OF Cons.IH], simp_all)
  then show ?case by (simp add: gives_def)
qed

lemma gives_fitness:
  "n \<le> remaining \<Longrightarrow> gives fresh (fitness_loop R fs n remaining)
     (\<lambda>(fs', k). (\<exists>gs. fs' = fs @ gs \<and> sum_list (map (\<lambda>f. length f + 4) gs) \<le> n \<and> k = remaining - sum_list (map (\<lambda>f. length f + 4) gs)))"
proof (induction n arbitrary: fs remaining rule: less_induct)
  case (less n)
  let ?Q = "\<lambda>fs n remaining (fs', k). (\<exists>gs. fs' = fs @ gs \<and> sum_list (map (\<lambda>f. length f + 4) gs) \<le> n
    \<and> k = remaining - sum_list (map (\<lambda>f. length f + 4) gs))"
  have "gives fresh (bind_call (gen_range R 1 28) (\<lambda>len. bind_call (gen_vec R len) (\<lambda>element.
       if n < len + 4 then ret (fs, remaining)
       else fitness_loop R (fs @ [element]) (n - (len + 4)) (remaining - (len + 4))))) (?Q fs n remaining)"
  proof (rule gives_bind [OF gives_draws(1)], simp, rule gives_bind [OF gives_draws(5)], rule gives_if)
    fix len element assume le: "\<not> n < len + 4" and el: "length (element :: bytes) = len"
    have "gives fresh (fitness_loop R (fs @ [element]) (n - (len + 4)) (remaining - (len + 4)))
        (?Q (fs @ [element]) (n - (len + 4)) (remaining - (len + 4)))"
      by (rule less.IH) (use le less.prems in auto)
    then show "gives fresh (fitness_loop R (fs @ [element]) (n - (len + 4)) (remaining - (len + 4))) (?Q fs n remaining)"
    proof (rule gives_mono)
      fix x assume "?Q (fs @ [element]) (n - (len + 4)) (remaining - (len + 4)) x"
      then obtain gs where "x = (fs @ element # gs, remaining - (len + 4) - sum_list (map (\<lambda>f. length f + 4) gs))"
        "sum_list (map (\<lambda>f. length f + 4) gs) \<le> n - (len + 4)"
        by auto
      then show "?Q fs n remaining x" using le el by (auto intro!: exI [of _ "element # gs"])
    qed
  qed simp
  then show ?case by (simp add: gives_def fitness_loop.simps [of R fs n remaining])
qed

section \<open>Headers\<close>

definition header_value :: "u32 \<Rightarrow> u8 \<Rightarrow> bytes \<Rightarrow> u64 \<Rightarrow> u8 \<Rightarrow> bytes \<Rightarrow> bytes list \<Rightarrow> bytes \<Rightarrow> bytes \<Rightarrow> rust" where
  "header_value level proto predecessor timestamp validation_pass operations_hash fitness context protocol_data =
     RStruct ''BlockHeader''
       [(''level'', RI32 level), (''proto'', RU8 proto), (''predecessor'', hash_value ''BlockHash'' predecessor),
        (''timestamp'', RI64 timestamp), (''validation_pass'', RU8 validation_pass),
        (''operations_hash'', hash_value ''OperationListListHash'' operations_hash), (''fitness'', fitness_value fitness),
        (''context'', hash_value ''ContextHash'' context), (''protocol_data'', bytes_value protocol_data)]"

lemma build_header: "builder_build (header_builder l p pr t v oh f c d) = Ok (header_value l p pr t v oh f c d)"
  by (simp add: builder_build_def header_builder_def builder_set_def header_fields_def header_value_def)

lemma set_predecessor:
  "builder_set ''predecessor'' (hash_value ''BlockHash'' pr') (header_builder l p pr t v oh f c d) = header_builder l p pr' t v oh f c d"
  by (simp add: header_builder_def builder_set_def)

section \<open>The crates\<close>

locale fuzzer_crates =
  fixes E :: "('g, 'st) gen_env" and N :: nom and P :: path_nom and Y :: syn
  assumes wire: "wire_laws (ge_wire E)" and readers: "reader N (ge_ncomb E)" "path_reader N P" and syn: "p2p_syn Y"
    and box: "crypto_box (ge_sodium E) (ge_bigint E)" and hex: "hex_laws (ge_hex E)" and u16: "reads_u16 (ge_get_u16 E)"
    and rng: "rng_laws (ge_rng E)"
    and types: "ge_types E = type_of_path (p2p_env N (ge_ncomb E) P (ge_wire E) (ge_bigint E) Y)"
begin

abbreviation Env :: tenv where "Env \<equiv> p2p_env N (ge_ncomb E) P (ge_wire E) (ge_bigint E) Y"

abbreviation fit :: "denc \<Rightarrow> rust \<Rightarrow> nat \<Rightarrow> bool" where
  "fit d r n \<equiv> fits (ge_num E) (z_bytes (ge_wire E) (ge_hex E)) Env d r n"

abbreviation all_fit :: "denc \<Rightarrow> nat \<Rightarrow> rust list \<Rightarrow> bool" where
  "all_fit d n rs \<equiv> list_all (\<lambda>r. fit d r n) rs"

lemma fit_type:
  assumes "map_of p2p_encodings n = Some d" and "fit d r k"
  shows "fit (DPath n) r k"
  using declared_before_at [OF p2p_declared assms(1)] fits_unfold [OF syn _ _ _ _ refl assms(2)] by auto

lemma fit_hash:
  "length h = 32 \<Longrightarrow> fit (DPath ''BlockHash'') (hash_value ''BlockHash'' h) 32"
  "length h = 32 \<Longrightarrow> fit (DPath ''OperationHash'') (hash_value ''OperationHash'' h) 32"
  "length h = 32 \<Longrightarrow> fit (DPath ''ProtocolHash'') (hash_value ''ProtocolHash'' h) 32"
  "length h = 32 \<Longrightarrow> fit (DPath ''ContextHash'') (hash_value ''ContextHash'' h) 32"
  "length h = 32 \<Longrightarrow> fit (DPath ''OperationListListHash'') (hash_value ''OperationListListHash'' h) 32"
  "length h = 4 \<Longrightarrow> fit (DPath ''ChainId'') (hash_value ''ChainId'' h) 4"
  "length h = 16 \<Longrightarrow> fit (DPath ''CryptoboxPublicKeyHash'') (hash_value ''CryptoboxPublicKeyHash'' h) 16"
  by (rule fitsI [OF codes_hash [OF syn refl]], simp add: hash_types_def, simp, simp add: p2p_encodings_def, simp)+

lemma fit_string: "utf8_valid s \<Longrightarrow> length s \<le> n \<Longrightarrow> n < 2 ^ 32 \<Longrightarrow> fit (DString None) (RStr s) (n + 4)"
  by (rule fitsI [OF codes_string(1)]) auto

lemma fit_point: "utf8_valid s \<Longrightarrow> length s \<le> 47 \<Longrightarrow> fit (DBounded P2P_POINT_MAX_SIZE (DString None)) (RStr s) 51"
  using fit_string [of s 47] by (intro fits_bounded) (simp_all add: P2P_POINT_MAX_SIZE_def)

lemma written:
  assumes "fit (DPath name) r n" and "n \<le> usize_max"
  shows "\<exists>bs. value_bytes_of E name r = Ok bs \<and> length bs \<le> n
    \<and> encodes (ge_num E) (z_bytes (ge_wire E) (ge_hex E)) (ge_types E name) r bs"
proof -
  obtain bs where bs: "encodes (ge_num E) (z_bytes (ge_wire E) (ge_hex E)) (ge_types E name) r bs" "length bs \<le> n"
    using assms(1) by (auto simp: fits_def types encodes_path)
  then obtain v where "serialize (ge_num E) r = Ok v" "enc (z_bytes (ge_wire E) (ge_hex E)) v (t_encoding (ge_types E name)) = Some bs"
    by (auto simp: encodes_def)
  from as_bytes_enc [OF wire this] bs assms(2) show ?thesis by (auto simp: value_bytes_of_def)
qed

subsection \<open>Values of the message types\<close>

lemma fit_points:
  "list_all (\<lambda>s. utf8_valid s \<and> length s \<le> 47) ss \<Longrightarrow> length ss \<le> 100 \<Longrightarrow>
   fit (DList (Some 100) (DBounded P2P_POINT_MAX_SIZE (DString None))) (RSeq (map RStr ss)) 5100"
  using fit_point by (intro fits_list [where n = 51]) (auto simp: list_all_iff)

lemma fit_advertise:
  "list_all (\<lambda>s. utf8_valid s \<and> length s \<le> 47) ss \<Longrightarrow> length ss \<le> 100 \<Longrightarrow>
   fit (DPath ''AdvertiseMessage'') (RStruct ''AdvertiseMessage'' [(''id'', RSeq (map RStr ss))]) 5100"
  by (rule fit_type, simp add: p2p_encodings_def, rule fits_struct [where ns = "[5100]"])
    (simp_all add: fit_points ADVERTISE_ID_LIST_MAX_LENGTH_def)

lemma fit_swap:
  "utf8_valid p \<Longrightarrow> length p \<le> 47 \<Longrightarrow> length h = 16 \<Longrightarrow> fit (DPath ''SwapMessage'') (swap_message_new p h) 67"
  unfolding swap_message_new_def
  by (rule fit_type, simp add: p2p_encodings_def, rule fits_struct [where ns = "[51, 16]"]) (simp_all add: fit_point fit_hash)

lemma fit_chain_messages:
  "length h = 4 \<Longrightarrow> fit (DPath ''GetCurrentBranchMessage'') (get_current_branch_message_new h) 4"
  "length h = 4 \<Longrightarrow> fit (DPath ''GetCurrentHeadMessage'') (get_current_head_message_new h) 4"
  "length h = 4 \<Longrightarrow> fit (DPath ''DeactivateMessage'') (deactivate_message_new h) 4"
  unfolding get_current_branch_message_new_def get_current_head_message_new_def deactivate_message_new_def
  by (rule fit_type, simp add: p2p_encodings_def, rule fits_struct [where ns = "[4]"], simp_all add: fit_hash)+

lemma fit_hash_list:
  "all_fit (DPath name) 32 hs \<Longrightarrow> length hs \<le> m \<Longrightarrow> fit (DList (Some m) (DPath name)) (RSeq hs) (32 * m)"
  "all_fit (DPath name) 32 hs \<Longrightarrow> length hs \<le> m \<Longrightarrow> fit (DList None (DPath name)) (RSeq hs) (32 * m)"
  by (rule fits_list [where n = 32]; simp)+

lemma fit_get_lists:
  "all_fit (DPath ''BlockHash'') 32 hs \<Longrightarrow> length hs \<le> 10 \<Longrightarrow>
   fit (DPath ''GetBlockHeadersMessage'') (get_block_headers_message_new hs) 324"
  "all_fit (DPath ''OperationHash'') 32 hs \<Longrightarrow> length hs \<le> 10 \<Longrightarrow>
   fit (DPath ''GetOperationsMessage'') (get_operations_message_new hs) 324"
  "all_fit (DPath ''ProtocolHash'') 32 hs \<Longrightarrow> length hs \<le> 10 \<Longrightarrow>
   fit (DPath ''GetProtocolsMessage'') (get_protocols_message_new hs) 324"
  unfolding get_block_headers_message_new_def get_operations_message_new_def get_protocols_message_new_def
  by (rule fit_type, simp add: p2p_encodings_def, rule fits_struct [where ns = "[324]"],
      use fits_dynamic [OF fit_hash_list(1) [where m = 10], of _ hs None] in
        \<open>simp_all add: GET_BLOCK_HEADERS_MAX_LENGTH_def GET_OPERATIONS_MAX_LENGTH_def GET_PROTOCOLS_MAX_LENGTH_def\<close>)+

lemma fit_fitness:
  assumes "sum_list (map (\<lambda>f. length f + 4) fs) \<le> n" and "n < 2 ^ 31"
  shows "fit (DDynamic None (DList None (DDynamic None (DList None (DPrimitive PUint8))))) (fitness_value fs) (n + 4)"
proof (rule fits_dynamic)
  have small: "length f < 2 ^ 32" if "f \<in> set fs" for f
    using that member_le_sum_list [of "length f + 4" "map (\<lambda>f. length f + 4) fs"] assms by (force simp: image_iff)
  then have "list_all2 (codes (ge_num E) (z_bytes (ge_wire E) (ge_hex E)) Env (DDynamic None (DList None (DPrimitive PUint8))))
      (map bytes_value fs) (map (\<lambda>f. to_be32 (word_of_nat (length f)) @ f) fs)"
  proof (induction fs)
    case (Cons f fs)
    then show ?case using codes_u8_list(1) [of "ge_num E" "z_bytes (ge_wire E) (ge_hex E)" Env f]
      by (auto simp: codes_def sized_prefix_def)
  qed simp
  from codes_list [OF this, of None]
  show "fit (DList None (DDynamic None (DList None (DPrimitive PUint8)))) (fitness_value fs) n"
    unfolding fitness_value_def
    by (rule fitsI) (use assms(1) in \<open>simp_all add: length_concat o_def add.commute\<close>)
qed (use assms(2) in simp_all)

lemma fit_header:
  assumes "length pr = 32" and "length oh = 32" and "length c = 32" and "sum_list (map (\<lambda>f. length f + 4) fs) \<le> n"
    and "n + length d \<le> BLOCK_HEADER_MAX_SIZE - 200"
  shows "fit (DPath ''BlockHeader'') (header_value l p pr t v oh fs c d) (BLOCK_HEADER_MAX_SIZE - 50)"
proof -
  have "fit (DList None (DPrimitive PUint8)) (bytes_value d) (length d)"
    by (rule fitsI [OF codes_u8_list(1)]) simp
  then show ?thesis
    unfolding header_value_def using assms fit_fitness [OF assms(4)]
    by (intro fit_type [OF _ fits_bounded], simp add: p2p_encodings_def,
        intro fits_struct [where ns = "[4, 1, 32, 8, 1, 32, n + 4, 32, length d]"])
      (simp_all add: fits_prims [simplified] fit_hash BLOCK_HEADER_MAX_SIZE_def)
qed

lemma fit_branch:
  assumes "fit (DPath ''BlockHeader'') header (BLOCK_HEADER_MAX_SIZE - 50)" and "all_fit (DPath ''BlockHash'') 32 hs" and "length hs \<le> 1000"
  shows "fit (DPath ''CurrentBranch'') (current_branch_new header hs) (BLOCK_HEADER_MAX_SIZE - 46 + 32000)"
proof -
  have "fit (DDynamic (Some BLOCK_HEADER_MAX_SIZE) (DPath ''BlockHeader'')) header (BLOCK_HEADER_MAX_SIZE - 46)"
    using fits_dynamic [OF assms(1), of "Some BLOCK_HEADER_MAX_SIZE"] by (simp add: BLOCK_HEADER_MAX_SIZE_def)
  then show ?thesis
    unfolding current_branch_new_def using fit_hash_list(1) [OF assms(2,3)]
    by (intro fit_type, simp add: p2p_encodings_def, intro fits_struct [where ns = "[BLOCK_HEADER_MAX_SIZE - 46, 32000]"])
      (simp_all add: CURRENT_BRANCH_HISTORY_MAX_LENGTH_def)
qed

lemma fit_branch_message:
  assumes "length h = 4" and "fit (DPath ''CurrentBranch'') branch (BLOCK_HEADER_MAX_SIZE - 46 + 32000)"
  shows "fit (DPath ''CurrentBranchMessage'') (current_branch_message_new h branch) (BLOCK_HEADER_MAX_SIZE + 32000)"
  unfolding current_branch_message_new_def
  by (rule fit_type, simp add: p2p_encodings_def, rule fits_struct [where ns = "[4, BLOCK_HEADER_MAX_SIZE - 46 + 32000]"])
    (use assms fit_hash in \<open>simp_all add: BLOCK_HEADER_MAX_SIZE_def\<close>)

lemma fit_mempool:
  assumes "all_fit (DPath ''OperationHash'') 32 ks" and "all_fit (DPath ''OperationHash'') 32 ps"
    and "length ks + length ps < MEMPOOL_MAX_OPERATIONS"
  shows "fit (DPath ''Mempool'') (mempool_new ks ps) MEMPOOL_MAX_SIZE"
proof -
  let ?k = "32 * length ks + 4" and ?p = "32 * length ps + 8"
  have "fit (DDynamic None (DList None (DPath ''OperationHash''))) (RSeq ks) ?k"
    using assms(3) by (intro fits_dynamic [OF fit_hash_list(2) [OF assms(1)]]) (simp_all add: MEMPOOL_MAX_OPERATIONS_def)
  moreover have "fit (DDynamic None (DDynamic None (DList None (DPath ''OperationHash'')))) (RSeq ps) ?p"
    using fits_dynamic [OF fits_dynamic [OF fit_hash_list(2) [OF assms(2) order_refl], of None], of None] assms(3)
    by (simp add: MEMPOOL_MAX_OPERATIONS_def add.commute)
  ultimately have "fit (DStruct ''Mempool''
      [(''known_valid'', Some (DDynamic None (DList None (DPath ''OperationHash'')))),
       (''pending'', Some (DDynamic None (DDynamic None (DList None (DPath ''OperationHash'')))))]) (mempool_new ks ps) MEMPOOL_MAX_SIZE"
    unfolding mempool_new_def using assms(3)
    by (intro fits_struct [where ns = "[?k, ?p]"]) (simp_all add: MEMPOOL_MAX_SIZE_def MEMPOOL_MAX_OPERATIONS_def)
  from fits_bounded [OF this order_refl] show ?thesis by (rule fit_type [rotated]) (simp add: p2p_encodings_def)
qed

lemma fit_head_message:
  assumes "length h = 4" and "fit (DPath ''BlockHeader'') header (BLOCK_HEADER_MAX_SIZE - 50)"
    and "fit (DPath ''Mempool'') pool MEMPOOL_MAX_SIZE"
  shows "fit (DPath ''CurrentHeadMessage'') (current_head_message_new h header pool) (BLOCK_HEADER_MAX_SIZE + MEMPOOL_MAX_SIZE)"
  unfolding current_head_message_new_def
  using fits_dynamic [OF assms(2), of "Some BLOCK_HEADER_MAX_SIZE"] assms(1,3) fit_hash(6)
  by (intro fit_type, simp add: p2p_encodings_def,
      intro fits_struct [where ns = "[4, BLOCK_HEADER_MAX_SIZE - 46, MEMPOOL_MAX_SIZE]"])
    (simp_all add: BLOCK_HEADER_MAX_SIZE_def)

lemma fit_wrapped:
  "fit (DPath ''BlockHeader'') header n \<Longrightarrow> fit (DPath ''BlockHeaderMessage'') (block_header_message_from header) n"
  "fit (DPath ''Operation'') op n \<Longrightarrow> fit (DPath ''OperationMessage'') (operation_message_from op) n"
  "fit (DPath ''Protocol'') p n \<Longrightarrow> fit (DPath ''ProtocolMessage'') (protocol_message_new p) n"
  unfolding block_header_message_from_def operation_message_from_def protocol_message_new_def
  by (rule fit_type, simp add: p2p_encodings_def, rule fits_struct [where ns = "[n]"], simp_all)+

abbreviation cod :: "denc \<Rightarrow> rust \<Rightarrow> bytes \<Rightarrow> bool" where
  "cod d r bs \<equiv> codes (ge_num E) (z_bytes (ge_wire E) (ge_hex E)) Env d r bs"

lemma cod_type: "map_of p2p_encodings n = Some d \<Longrightarrow> cod (DPath n) r bs \<longleftrightarrow> cod d r bs"
  using declared_before_at [OF p2p_declared] codes_unfold [OF syn _ _ _ _ refl] by blast

lemma cod_operation:
  assumes "length h = 32" and "length d \<le> OPERATION_MAX_SIZE"
  shows "cod (DPath ''Operation'') (operation_new h d) (h @ d)"
proof -
  have "cod (DPath ''BlockHash'') (hash_value ''BlockHash'' h) h"
    by (rule codes_hash [OF syn refl, where ht = BlockHash]) (simp_all add: hash_types_def p2p_encodings_def assms(1))
  then have "cod (DStruct ''Operation''
      [(''branch'', Some (DPath ''BlockHash'')), (''data'', Some (DList (Some OPERATION_MAX_SIZE) (DPrimitive PUint8)))])
      (operation_new h d) (concat [h, d])"
    unfolding operation_new_def using codes_u8_list(2) [OF assms(2)] by (intro codes_struct) simp_all
  then show ?thesis by (subst cod_type) (simp_all add: p2p_encodings_def)
qed

lemma fit_operations:
  assumes "list_all (\<lambda>r. \<exists>h d. r = operation_new h d \<and> length h = 32 \<and> length d = 131008) ops" and "length ops \<le> 8"
  shows "fit (DBounded OPERATION_LIST_MAX_SIZE (DList None (DDynamic None (DPath ''Operation'')))) (RSeq ops) 1048352"
proof -
  have "fit (DPath ''Operation'') r 131040" if r: "r \<in> set ops" for r
  proof -
    obtain h d where "r = operation_new h d" "length h = 32" "length d = 131008" using r assms(1) by (auto simp: list_all_iff)
    then show ?thesis using cod_operation [of h d] by (auto simp: OPERATION_MAX_SIZE_def intro: fitsI)
  qed
  then have "all_fit (DDynamic None (DPath ''Operation'')) 131044 ops"
    using fits_dynamic [where n = 131040 and sz = None] by (force simp: list_all_iff)
  then show ?thesis using assms(2) by (intro fits_bounded fits_list [where n = 131044]) (simp_all add: OPERATION_LIST_MAX_SIZE_def)
qed

lemma fit_component:
  assumes "utf8_valid n" and "length n \<le> 1024" and "utf8_valid i" and "length i \<le> 102400"
    and "r = RNone \<or> (\<exists>t. r = RSome (RStr t) \<and> utf8_valid t \<and> length t \<le> 102400)"
  shows "fit (DPath ''Component'') (component_new n r i) 205837"
proof -
  have "fit (DOptionField (DString None)) r 102405"
    using assms(5) fits_option(1) [OF fit_string [where n = 102400]] fits_mono [OF fits_option(2)] by auto
  then show ?thesis
    unfolding component_new_def using fit_string [OF assms(1,2)] fit_string [OF assms(3,4)]
    by (intro fit_type, simp add: p2p_encodings_def, intro fits_struct [where ns = "[1028, 102405, 102404]"]) simp_all
qed

lemma component_not_empty:
  assumes "cod (DPath ''Component'') (component_new n r i) bs"
  shows "bs \<noteq> []"
proof -
  have "map_of p2p_encodings ''Component'' = Some (DStruct ''Component''
      [(''name'', Some (DString None)), (''interface'', Some (DOptionField (DString None))), (''implementation'', Some (DString None))])"
    by (simp add: p2p_encodings_def)
  from assms [unfolded cod_type [OF this]] show ?thesis by (auto simp: codes_def component_new_def bind_eq_Some_conv)
qed

lemma fit_protocol:
  assumes "list_all2 (cod (DPath ''Component'')) cs bss" and "length (concat bss) \<le> PROTOCOL_COMPONENT_MAX_SIZE"
  shows "fit (DPath ''Protocol'') (protocol_new v cs) (PROTOCOL_COMPONENT_MAX_SIZE + 6)"
proof -
  have "fit (DDynamic (Some PROTOCOL_COMPONENT_MAX_SIZE) (DList None (DPath ''Component''))) (RSeq cs) (PROTOCOL_COMPONENT_MAX_SIZE + 4)"
    by (intro fits_dynamic fitsI [OF codes_list [OF assms(1)]])
      (use assms(2) in \<open>simp_all add: PROTOCOL_COMPONENT_MAX_SIZE_def PROTOCOL_MAX_SIZE_def\<close>)
  then show ?thesis
    unfolding protocol_new_def
    by (intro fit_type, simp add: p2p_encodings_def, intro fits_struct [where ns = "[2, PROTOCOL_COMPONENT_MAX_SIZE + 4]"])
      (simp_all add: fits_prims [simplified])
qed

lemma fit_operations_for_block: "length h = 32 \<Longrightarrow> fit (DPath ''OperationsForBlock'') (operations_for_block_new h v) 33"
  unfolding operations_for_block_new_def
  by (rule fit_type, simp add: p2p_encodings_def, rule fits_struct [where ns = "[32, 1]"]) (simp_all add: fit_hash fits_prims [simplified])

lemma fit_get_operations_for_blocks:
  "all_fit (DPath ''OperationsForBlock'') 33 rs \<Longrightarrow> length rs \<le> 10 \<Longrightarrow>
   fit (DPath ''GetOperationsForBlocksMessage'') (get_operations_for_blocks_message_new rs) 334"
  unfolding get_operations_for_blocks_message_new_def
  using fits_dynamic [OF fits_list [where n = 33 and k = 330 and sz = "Some 10"], where sz = None]
  by (intro fit_type, simp add: p2p_encodings_def, intro fits_struct [where ns = "[334]"])
    (simp_all add: GET_OPERATIONS_FOR_BLOCKS_MAX_LENGTH_def)

lemma fit_operations_for_blocks_message:
  assumes "fit (DPath ''OperationsForBlock'') ofb 33" and "fit (DPath ''Path'') path 100"
    and "fit (DBounded OPERATION_LIST_MAX_SIZE (DList None (DDynamic None (DPath ''Operation'')))) (RSeq ops) 1048352"
  shows "fit (DPath ''OperationsForBlocksMessage'') (operations_for_blocks_message_new ofb path ops) 1048500"
  unfolding operations_for_blocks_message_new_def
  by (rule fit_type, simp add: p2p_encodings_def, rule fits_struct [where ns = "[33, 100, 1048352]"]) (use assms in simp_all)

end

end
