(* ===== verification/Fresh_Generator.thy ===== *)
theory Fresh_Generator
  imports Gen_Encodable
begin

text \<open>The generators of a state without recorded messages: each returns a message that can be written, within a known size.\<close>

section \<open>Addresses\<close>

lemma utf8_ascii: "list_all (\<lambda>b. b \<le> 0x7F) bs \<Longrightarrow> utf8_valid bs"
  by (induction bs) simp_all

lemma decimal_ascii: "list_all (\<lambda>b. b \<le> 0x7F) (decimal n)"
proof -
  have "byte (48 + d) \<le> 0x7F" if "d \<in> set (digits 10 n)" for d
    using digits_less [of d 10 n] that by (simp add: byte_le)
  then show ?thesis by (auto simp: decimal_def list_all_iff)
qed

lemma length_decimal: "n < 10 ^ k \<Longrightarrow> 0 < k \<Longrightarrow> length (decimal n) \<le> k"
  using length_digits_le [of 10 n k] by (auto simp: decimal_def)

lemma socket_addr_text_ok: "length ip = 4 \<Longrightarrow> utf8_valid (socket_addr_text (ip, port)) \<and> length (socket_addr_text (ip, port)) \<le> 47"
proof -
  have b: "length (decimal (unat (b :: u8))) \<le> 3" for b
    by (rule length_decimal [OF less_le_trans [OF unat_bound]]) simp_all
  have "length (decimal (unat port)) \<le> 5"
    by (rule length_decimal [OF less_le_trans [OF unat_bound]]) simp_all
  then have "length (socket_addr_text (ip, port)) \<le> 21"
    using b [of "ip ! 0"] b [of "ip ! 1"] b [of "ip ! 2"] b [of "ip ! 3"] unfolding socket_addr_text_def by simp
  then show ?thesis using decimal_ascii by (simp add: socket_addr_text_def utf8_ascii)
qed

section \<open>Generators\<close>

definition good_builder :: "builder \<Rightarrow> bool" where
  "good_builder b \<longleftrightarrow> (\<exists>l p pr t v oh fs c d. b = header_builder l p pr t v oh fs c d \<and> length pr = 32 \<and> length oh = 32 \<and> length c = 32
     \<and> sum_list (map (\<lambda>f. length f + 4) fs) \<le> 28 \<and> 28 + length d \<le> BLOCK_HEADER_MAX_SIZE - 200)"

lemma gives_len: "1 < n \<Longrightarrow> gives fresh (if 1 < n then gen_range R 1 n else ret n) (\<lambda>k. k < n)"
  by (simp add: gives_mono [OF gives_draws(1)])

lemma good_builder_set: "good_builder b \<Longrightarrow> length h = 32 \<Longrightarrow> good_builder (builder_set ''predecessor'' (hash_value ''BlockHash'' h) b)"
  by (clarsimp simp: good_builder_def set_predecessor, blast)

lemma gives_read_bind:
  assumes "\<And>s. fresh s \<Longrightarrow> f s = x" and "gives fresh (g x) P"
  shows "gives fresh (bind_call (read_state f) g) P"
  using assms unfolding gives_def by (simp add: bind_call_def read_state_def)

lemma fresh_fields:
  "fresh s \<Longrightarrow> current_branch s = None" "fresh s \<Longrightarrow> current_head s = None" "fresh s \<Longrightarrow> block_header s = None"
  "fresh s \<Longrightarrow> operation s = None" "fresh s \<Longrightarrow> protocol s = None" "fresh s \<Longrightarrow> operations_for_blocks s = None"
  by (simp_all add: fresh_def)


context fuzzer_crates
begin

lemma gives_hash: "gives fresh (gen_hash E ht) (\<lambda>h. length h = hash_size ht)"
  unfolding gen_hash_def by (rule gives_bind [OF gives_draws(5)], rule gives_lift) (simp_all add: try_from_bytes_def)

lemma gives_hashes:
  assumes "\<And>h. length h = hash_size ht \<Longrightarrow> fit (DPath name) (hash_value name h) 32"
  shows "gives fresh (gen_hashes E n name ht) (\<lambda>rs. length rs = n \<and> all_fit (DPath name) 32 rs)"
  unfolding gen_hashes_def by (rule gives_repeat, rule gives_bind [OF gives_hash]) (simp add: assms)

lemma gives_hash_lists:
  "gives fresh (gen_hashes E n ''BlockHash'' BlockHash) (\<lambda>rs. length rs = n \<and> all_fit (DPath ''BlockHash'') 32 rs)"
  "gives fresh (gen_hashes E n ''OperationHash'' OperationHash) (\<lambda>rs. length rs = n \<and> all_fit (DPath ''OperationHash'') 32 rs)"
  "gives fresh (gen_hashes E n ''ProtocolHash'' ProtocolHash) (\<lambda>rs. length rs = n \<and> all_fit (DPath ''ProtocolHash'') 32 rs)"
  by (rule gives_hashes, simp add: fit_hash)+

lemma gives_chain_id: "gives fresh (gen_chain_id E) (\<lambda>h. length h = 4)"
  unfolding gen_chain_id_def
  by (rule gives_bind [OF gives_draws(2)], simp, rule gives_if)
    (use gives_hash [of ChainId] in simp, rule gives_read, simp add: fresh_def)

lemma gives_advertise: "gives fresh (gen_advertise E) (\<lambda>r. fit (DPath ''AdvertiseMessage'') r 5100)"
proof -
  have addr: "gives fresh (gen_socket_addr E) (\<lambda>(ip, port). length ip = 4)"
    unfolding gen_socket_addr_def gen_ip_addr_def
    by (rule gives_bind [OF gives_draws(5)], rule gives_bind [OF gives_draws(3)]) simp
  have "fit (DPath ''AdvertiseMessage'') (advertise_message_new as) 5100"
    if "list_all (\<lambda>(ip, port). length ip = 4) as" "length as \<le> 100" for as
  proof -
    have "list_all (\<lambda>s. utf8_valid s \<and> length s \<le> 47) (map socket_addr_text as)"
      using that(1) by (induction as) (auto simp: socket_addr_text_ok)
    from fit_advertise [OF this] that(2) show ?thesis by (simp add: advertise_message_new_def o_def)
  qed
  then show ?thesis
    unfolding gen_advertise_def
    by (intro gives_bind [OF gives_draws(1)] gives_bind [OF gives_repeat [OF addr]] gives_ret)
      (simp_all add: ADVERTISE_ID_LIST_MAX_LENGTH_def)
qed

lemma gives_swap: "gives fresh (gen_swap E) (\<lambda>r. fit (DPath ''SwapMessage'') r 67)"
  unfolding gen_swap_def
  by (rule gives_bind [OF gives_draws(1)], simp add: P2P_POINT_MAX_LENGTH_def P2P_POINT_MAX_SIZE_def, rule gives_bind [OF gives_hash],
      rule gives_bind [OF gives_draws(6)], rule gives_ret, rule fit_swap)
    (auto simp: P2P_POINT_MAX_LENGTH_def P2P_POINT_MAX_SIZE_def)

lemma gives_chain_messages:
  "gives fresh (gen_get_current_branch E) (\<lambda>r. fit (DPath ''GetCurrentBranchMessage'') r 4)"
  "gives fresh (gen_get_current_head E) (\<lambda>r. fit (DPath ''GetCurrentHeadMessage'') r 4)"
  "gives fresh (gen_deactivate E) (\<lambda>r. fit (DPath ''DeactivateMessage'') r 4)"
  unfolding gen_get_current_branch_def gen_get_current_head_def gen_deactivate_def
  by (rule gives_bind [OF gives_chain_id], simp add: fit_chain_messages)+

lemma gives_get_lists:
  "gives fresh (gen_get_block_headers E) (\<lambda>r. fit (DPath ''GetBlockHeadersMessage'') r 324)"
  "gives fresh (gen_get_operations E) (\<lambda>r. fit (DPath ''GetOperationsMessage'') r 324)"
  "gives fresh (gen_get_protocols E) (\<lambda>r. fit (DPath ''GetProtocolsMessage'') r 324)"
  unfolding gen_get_block_headers_def gen_get_operations_def gen_get_protocols_def
    GET_BLOCK_HEADERS_MAX_LENGTH_def GET_OPERATIONS_MAX_LENGTH_def GET_PROTOCOLS_MAX_LENGTH_def
  by (rule gives_bind [OF gives_draws(1)], simp,
      rule gives_bind [OF gives_hash_lists(1)] gives_bind [OF gives_hash_lists(2)] gives_bind [OF gives_hash_lists(3)],
      simp_all add: fit_get_lists)+

subsection \<open>Blocks\<close>

lemma gives_builder: "gives fresh (gen_block_header_builder E) good_builder"
  unfolding gen_block_header_builder_def Let_def
  by (rule gives_bind [OF gives_fitness], simp add: BLOCK_HEADER_MAX_SIZE_def, clarify, rule gives_bind [OF gives_len],
      simp add: BLOCK_HEADER_MAX_SIZE_def,
      intro gives_bind [OF gives_hash] gives_bind [OF gives_draws(3)] gives_bind [OF gives_draws(5)] gives_ret)
    (fastforce simp: good_builder_def BLOCK_HEADER_MAX_SIZE_def)

lemma good_build:
  assumes "good_builder b"
  obtains header where "builder_build b = Ok header" "fit (DPath ''BlockHeader'') header (BLOCK_HEADER_MAX_SIZE - 50)"
  using assms fit_header [where n = 28] by (auto simp: good_builder_def build_header)

lemma gives_header: "gives fresh (gen_block_header E) (\<lambda>r. fit (DPath ''BlockHeader'') r (BLOCK_HEADER_MAX_SIZE - 50))"
  unfolding gen_block_header_def by (rule gives_bind [OF gives_builder]) (auto elim!: good_build intro!: gives_lift)

lemma gives_next_header: "gives fresh (gen_next_header E) (\<lambda>r. fit (DPath ''BlockHeader'') r (BLOCK_HEADER_MAX_SIZE - 50))"
  unfolding gen_next_header_def
proof (rule gives_bind [OF gives_builder], rule gives_bind [OF gives_read])
  show "length (last_block s) = 32" if "fresh s" for s :: "'g random_state" using that by (simp add: fresh_def)
  fix b and h :: bytes assume "good_builder b" "length h = 32"
  then obtain header where "builder_build (builder_set ''predecessor'' (hash_value ''BlockHash'' h) b) = Ok header"
    "fit (DPath ''BlockHeader'') header (BLOCK_HEADER_MAX_SIZE - 50)"
    using good_build [OF good_builder_set] by blast
  then show "gives fresh (lift_res (unwrap (builder_build (builder_set ''predecessor'' (hash_value ''BlockHash'' h) b))))
      (\<lambda>r. fit (DPath ''BlockHeader'') r (BLOCK_HEADER_MAX_SIZE - 50))"
    by (intro gives_lift) simp_all
qed

lemma block_hash_ok:
  assumes "fit (DPath ''BlockHeader'') r (BLOCK_HEADER_MAX_SIZE - 50)"
  shows "\<exists>h. block_hash E r = Ok h \<and> length h = 32"
proof -
  obtain bs where "as_bytes (ge_wire E) (ge_hex E) (ge_num E) (ge_types E ''BlockHeader'') r = Ok bs"
    using written [OF assms] by (auto simp: value_bytes_of_def usize_max_def BLOCK_HEADER_MAX_SIZE_def)
  moreover obtain h where "digest_256 (ge_sodium E) bs = Ok h" "length h = 32"
    using sodium_laws.digest_256_ok crypto_box.axioms(1) [OF box] by blast
  ultimately show ?thesis by (simp add: block_hash_def message_hash_def try_from_bytes_def)
qed

lemma gives_remember: "gives fresh (remember_block E h r) (\<lambda>_. True)"
  by (auto simp: gives_def remember_block_def fresh_def Let_def)

lemma gives_set_last: "length h = 32 \<Longrightarrow> gives fresh (set_last_block_hash h) (\<lambda>_. True)"
  by (auto simp: gives_def set_last_block_hash_def fresh_def)

lemma gives_branch: "gives fresh (gen_current_branch E) (\<lambda>r. fit (DPath ''CurrentBranch'') r (BLOCK_HEADER_MAX_SIZE - 46 + 32000))"
  unfolding gen_current_branch_def
proof (rule gives_bind [OF gives_draws(1)], simp add: CURRENT_BRANCH_HISTORY_MAX_LENGTH_def, rule gives_bind [OF gives_hash_lists(1)],
    rule gives_bind [OF gives_next_header])
  fix n hs header
  assume *: "0 \<le> n \<and> n < CURRENT_BRANCH_HISTORY_MAX_LENGTH" "length hs = n - 1 \<and> all_fit (DPath ''BlockHash'') 32 hs"
    "fit (DPath ''BlockHeader'') header (BLOCK_HEADER_MAX_SIZE - 50)"
  obtain h where "block_hash E header = Ok h" "length h = 32" using block_hash_ok [OF *(3)] by blast
  then show "gives fresh (bind_call (lift_res (block_hash E header)) (\<lambda>h. bind_call (remember_block E h header) (\<lambda>_.
      bind_call (set_last_block_hash h) (\<lambda>_. ret (current_branch_new header hs)))))
      (\<lambda>r. fit (DPath ''CurrentBranch'') r (BLOCK_HEADER_MAX_SIZE - 46 + 32000))"
    using * by (simp add: gives_bind [OF gives_remember] gives_bind [OF gives_set_last] fit_branch CURRENT_BRANCH_HISTORY_MAX_LENGTH_def)
qed

lemma gives_branch_message:
  "gives fresh (gen_current_branch_message E) (\<lambda>r. fit (DPath ''CurrentBranchMessage'') r (BLOCK_HEADER_MAX_SIZE + 32000))"
  unfolding gen_current_branch_message_def
  by (rule gives_read_bind [OF fresh_fields(1)], assumption)
    (simp add: gives_bind [OF gives_chain_id] gives_bind [OF gives_branch] fit_branch_message)

lemma gives_mempool: "gives fresh (gen_mempool E) (\<lambda>r. fit (DPath ''Mempool'') r MEMPOOL_MAX_SIZE)"
  unfolding gen_mempool_def
proof (rule gives_read_bind [OF fresh_fields(2)], assumption, simp only: option.case, rule gives_bind [OF gives_draws(1)])
  fix n assume n: "1 \<le> n \<and> n < MEMPOOL_MAX_OPERATIONS - 2"
  show "gives fresh (bind_call (gen_range (ge_rng E) 1 (MEMPOOL_MAX_OPERATIONS - n)) (\<lambda>k.
      bind_call (gen_hashes E n ''OperationHash'' OperationHash) (\<lambda>pending.
      bind_call (gen_hashes E k ''OperationHash'' OperationHash) (\<lambda>known_valid. ret (mempool_new known_valid pending)))))
      (\<lambda>r. fit (DPath ''Mempool'') r MEMPOOL_MAX_SIZE)"
    using n by (intro gives_bind [OF gives_draws(1)] gives_bind [OF gives_hash_lists(2)] gives_ret fit_mempool)
      (auto simp: MEMPOOL_MAX_OPERATIONS_def)
qed (simp add: MEMPOOL_MAX_OPERATIONS_def)

lemma gives_head_message:
  "gives fresh (gen_current_head_message E) (\<lambda>r. fit (DPath ''CurrentHeadMessage'') r (BLOCK_HEADER_MAX_SIZE + MEMPOOL_MAX_SIZE))"
  unfolding gen_current_head_message_def
  by (rule gives_read_bind [OF fresh_fields(2)], assumption)
    (simp add: gives_bind [OF gives_chain_id] gives_bind [OF gives_header] gives_bind [OF gives_mempool] fit_head_message)

lemma gives_header_message:
  "gives fresh (gen_block_header_message E) (\<lambda>r. fit (DPath ''BlockHeaderMessage'') r (BLOCK_HEADER_MAX_SIZE - 50))"
  unfolding gen_block_header_message_def
  by (rule gives_read_bind [OF fresh_fields(3)], assumption) (simp add: gives_bind [OF gives_header] fit_wrapped)

subsection \<open>Operations and protocols\<close>

lemma gives_operation_branch: "gives fresh (gen_branch E) (\<lambda>h. length h = 32)"
  unfolding gen_branch_def
proof (rule gives_read_bind [OF fresh_fields(2)], assumption, simp only: option.case, rule gives_bind [OF gives_draws(2)], simp, rule gives_if)
  show "gives fresh (gen_hash E BlockHash) (\<lambda>h. length h = 32)" using gives_hash [of BlockHash] by simp
qed (rule gives_read, simp add: fresh_def)

lemma gives_operation:
  "gives fresh (gen_operation E) (\<lambda>r. \<exists>h d. r = operation_new h d \<and> length h = 32 \<and> length d = 131008)"
  unfolding gen_operation_def
  by (rule gives_bind [OF gives_operation_branch], rule gives_bind [OF gives_draws(5)], rule gives_ret)
    (auto simp: OPERATION_MAX_SIZE_def)

lemma gives_operation_message: "gives fresh (gen_operation_message E) (\<lambda>r. fit (DPath ''OperationMessage'') r 131040)"
  unfolding gen_operation_message_def
proof (rule gives_read_bind [OF fresh_fields(4)], assumption, simp only: option.case, rule gives_bind [OF gives_operation], rule gives_ret)
  fix r assume "\<exists>h d. r = operation_new h d \<and> length h = 32 \<and> length d = 131008"
  then show "fit (DPath ''OperationMessage'') (operation_message_from r) 131040"
    by (intro fit_wrapped) (auto simp: OPERATION_MAX_SIZE_def intro!: fitsI [OF cod_operation])
qed

lemma gives_until_full:
  assumes "gives fresh m Q"
    and "\<And>r. Q r \<Longrightarrow> \<exists>bs. f r = Ok bs \<and> bs \<noteq> [] \<and> B r bs" and "remaining < fuel"
  shows "gives fresh (gen_until_full fuel m f remaining items)
    (\<lambda>rs. \<exists>new bss. rs = items @ new \<and> list_all2 B new bss \<and> length (concat bss) \<le> remaining \<and> list_all Q new)"
  using assms(3)
proof (induction fuel arbitrary: remaining items)
  case (Suc fuel)
  let ?R = "\<lambda>n items rs. \<exists>new bss. rs = items @ new \<and> list_all2 B new bss \<and> length (concat bss) \<le> n \<and> list_all Q new"
  have "gives fresh (bind_call m (\<lambda>item. bind_call (lift_res (f item)) (\<lambda>bs.
      if remaining < length bs then ret items else gen_until_full fuel m f (remaining - length bs) (items @ [item])))) (?R remaining items)"
  proof (rule gives_bind [OF assms(1)])
    fix r assume r: "Q r"
    obtain bs where bs: "f r = Ok bs" "bs \<noteq> []" "B r bs" using assms(2) [OF r] by blast
    have "gives fresh (gen_until_full fuel m f (remaining - length bs) (items @ [r])) (?R remaining items)" if "\<not> remaining < length bs"
    proof (rule gives_mono)
      show "gives fresh (gen_until_full fuel m f (remaining - length bs) (items @ [r])) (?R (remaining - length bs) (items @ [r]))"
        using bs(2) that Suc.prems by (intro Suc.IH) (cases bs; simp)
      fix rs assume "?R (remaining - length bs) (items @ [r]) rs"
      then obtain new bss where "rs = items @ r # new" "list_all2 B new bss" "length (concat bss) \<le> remaining - length bs" "list_all Q new"
        by auto
      then show "?R remaining items rs" using r bs(3) that by (intro exI [of _ "r # new"] exI [of _ "bs # bss"]) auto
    qed
    moreover have "?R remaining items items" by (intro exI [of _ "[]"]) simp
    ultimately show "gives fresh (bind_call (lift_res (f r)) (\<lambda>bs.
        if remaining < length bs then ret items else gen_until_full fuel m f (remaining - length bs) (items @ [r]))) (?R remaining items)"
      using bs(1) by simp
  qed
  then show ?case by (simp add: gives_def)
qed simp

lemma gives_operations:
  "gives fresh (gen_operations E)
     (\<lambda>ops. fit (DBounded OPERATION_LIST_MAX_SIZE (DList None (DDynamic None (DPath ''Operation'')))) (RSeq ops) 1048352)"
  unfolding gen_operations_def
proof (rule gives_mono, rule gives_until_full [OF gives_operation])
  fix r assume "\<exists>h d. r = operation_new h d \<and> length h = 32 \<and> length d = 131008"
  then obtain h d where r: "r = operation_new h d" "length h = 32" "length d = 131008" by blast
  then have c: "cod (DPath ''Operation'') r (h @ d)" using cod_operation by (simp add: OPERATION_MAX_SIZE_def)
  then obtain bs where bs: "value_bytes_of E ''Operation'' r = Ok bs" "cod (DPath ''Operation'') r bs"
    using written [OF fitsI [OF c order_refl]] r(2,3) by (auto simp: usize_max_def encodes_path types)
  moreover have "bs = h @ d" using codes_functional [OF c bs(2)] .
  ultimately show "\<exists>bs. value_bytes_of E ''Operation'' r = Ok bs \<and> bs \<noteq> [] \<and> length bs = 131040"
    using r(2,3) by auto
next
  fix ops
  assume "\<exists>new bss. ops = [] @ new \<and> list_all2 (\<lambda>r bs. length (bs :: bytes) = 131040) new bss \<and> length (concat bss) \<le> OPERATION_LIST_MAX_SIZE
    \<and> list_all (\<lambda>r. \<exists>h d. r = operation_new h d \<and> length h = 32 \<and> length d = 131008) new"
  then obtain bss where *: "list_all2 (\<lambda>r bs. length (bs :: bytes) = 131040) ops bss" "length (concat bss) \<le> OPERATION_LIST_MAX_SIZE"
    "list_all (\<lambda>r. \<exists>h d. r = operation_new h d \<and> length h = 32 \<and> length d = 131008) ops" by auto
  have "length (concat bss) = 131040 * length ops" using *(1) by (induction rule: list_all2_induct) auto
  then show "fit (DBounded OPERATION_LIST_MAX_SIZE (DList None (DDynamic None (DPath ''Operation'')))) (RSeq ops) 1048352"
    using *(2) by (intro fit_operations [OF *(3)]) (simp add: OPERATION_LIST_MAX_SIZE_def)
qed simp

lemma gives_component:
  "gives fresh (gen_component E) (\<lambda>r. \<exists>n iface i. r = component_new n iface i \<and> fit (DPath ''Component'') r 205837)"
  unfolding gen_component_def Let_def
proof (rule gives_bind [OF gives_string_below], simp, rule gives_bind [OF gives_draws(2)], simp,
    rule gives_bind [where P = "\<lambda>r. r = RNone \<or> (\<exists>t. r = RSome (RStr t) \<and> utf8_valid t \<and> length t \<le> 102400)"])
  show "gives fresh (if b then bind_call (gen_string_below (ge_rng E) 102401) (\<lambda>iface. ret (RSome (RStr iface))) else ret RNone)
      (\<lambda>r. r = RNone \<or> (\<exists>t. r = RSome (RStr t) \<and> utf8_valid t \<and> length t \<le> 102400))" for b
    by (intro gives_if gives_bind [OF gives_string_below] gives_ret) auto
  fix n iface
  assume "utf8_valid n \<and> length n \<le> 1025 - 1" "iface = RNone \<or> (\<exists>t. iface = RSome (RStr t) \<and> utf8_valid t \<and> length t \<le> 102400)"
  then show "gives fresh (bind_call (gen_string_below (ge_rng E) 102401) (\<lambda>i. ret (component_new n iface i)))
      (\<lambda>r. \<exists>n iface i. r = component_new n iface i \<and> fit (DPath ''Component'') r 205837)"
    by (intro gives_bind [OF gives_string_below] gives_ret exI conjI refl fit_component) simp_all
qed

lemma gives_protocol: "gives fresh (gen_protocol E) (\<lambda>r. fit (DPath ''Protocol'') r (PROTOCOL_COMPONENT_MAX_SIZE + 6))"
proof -
  have "gives fresh (gen_components E)
      (\<lambda>rs. \<exists>new bss. rs = [] @ new \<and> list_all2 (cod (DPath ''Component'')) new bss \<and> length (concat bss) \<le> PROTOCOL_COMPONENT_MAX_SIZE
        \<and> list_all (\<lambda>r. \<exists>n iface i. r = component_new n iface i \<and> fit (DPath ''Component'') r 205837) new)"
    unfolding gen_components_def
  proof (rule gives_until_full [OF gives_component])
    fix r assume "\<exists>n iface i. r = component_new n iface i \<and> fit (DPath ''Component'') r 205837"
    then obtain n iface i where r: "r = component_new n iface i" "fit (DPath ''Component'') r 205837" by blast
    then obtain bs where "value_bytes_of E ''Component'' r = Ok bs" "cod (DPath ''Component'') r bs"
      using written [OF r(2)] by (auto simp: usize_max_def encodes_path types)
    then show "\<exists>bs. value_bytes_of E ''Component'' r = Ok bs \<and> bs \<noteq> [] \<and> cod (DPath ''Component'') r bs"
      using component_not_empty r(1) by blast
  qed simp
  then show ?thesis
    unfolding gen_protocol_def
    by (intro gives_bind [OF gives_draws(3)] gives_bind [OF \<open>gives fresh (gen_components E) _\<close>] gives_ret) (auto intro: fit_protocol)
qed

lemma gives_protocol_message:
  "gives fresh (gen_protocol_message E) (\<lambda>r. fit (DPath ''ProtocolMessage'') r (PROTOCOL_COMPONENT_MAX_SIZE + 6))"
  unfolding gen_protocol_message_def
  by (rule gives_read_bind [OF fresh_fields(5)], assumption) (simp add: gives_bind [OF gives_protocol] fit_wrapped)

subsection \<open>Operations of blocks\<close>

lemma gives_operations_for_block: "gives fresh (gen_operations_for_block E) (\<lambda>r. fit (DPath ''OperationsForBlock'') r 33)"
proof -
  have "gives fresh (random_block_hash E) (\<lambda>h. length h = 32)"
    unfolding random_block_hash_def
    by (rule gives_read_bind [OF fresh_fields(1)], assumption, simp only: option.case,
        rule gives_read_bind [OF fresh_fields(3)], assumption, simp only: option.case,
        rule gives_read_bind [OF fresh_fields(2)], assumption)
      (use gives_hash [of BlockHash] in simp)
  then show ?thesis
    unfolding gen_operations_for_block_def
    by (rule gives_bind, intro gives_bind [OF gives_draws(3)] gives_ret) (simp add: fit_operations_for_block)
qed

lemma gives_get_operations_for_blocks:
  "gives fresh (gen_get_operations_for_blocks E) (\<lambda>r. fit (DPath ''GetOperationsForBlocksMessage'') r 334)"
  unfolding gen_get_operations_for_blocks_def
  by (rule gives_bind [OF gives_draws(1)], simp add: GET_OPERATIONS_FOR_BLOCKS_MAX_LENGTH_def,
      rule gives_bind [OF gives_repeat [OF gives_operations_for_block]], rule gives_ret, rule fit_get_operations_for_blocks)
    (auto simp: GET_OPERATIONS_FOR_BLOCKS_MAX_LENGTH_def)

lemma gives_path: "gives fresh (gen_path E) (\<lambda>r. fit (DPath ''Path'') r 100)"
proof -
  have "gives fresh (gen_path_item E) (\<lambda>it. length (sibling it) = 32)"
    unfolding gen_path_item_def by (rule gives_bind [OF gives_draws(5)], rule gives_bind [OF gives_draws(2)]) simp_all
  then show ?thesis
    unfolding gen_path_def
    by (intro gives_bind [OF gives_draws(1)] gives_bind [OF gives_repeat] gives_ret fits_path [OF syn refl]) (auto simp: MAX_PASS_MERKLE_DEPTH_def)
qed

lemma gives_operations_for_blocks_message:
  "gives fresh (gen_operations_for_blocks_message E) (\<lambda>r. fit (DPath ''OperationsForBlocksMessage'') r 1048500)"
  unfolding gen_operations_for_blocks_message_def
  by (rule gives_read_bind [OF fresh_fields(6)], assumption)
    (simp add: gives_bind [OF gives_operations_for_block] gives_bind [OF gives_path] gives_bind [OF gives_operations]
      fit_operations_for_blocks_message)

end

end
