(* ===== verification/Fuzzer_Safety.thy ===== *)
theory Fuzzer_Safety
  imports Fresh_Generator
begin

text \<open>
  What the fuzzer does with the node's messages and its own: bursts of a new fuzzer, bursts that never end, messages of the
  node that end a session, and a message that jams the reader.
\<close>

section \<open>Variants\<close>

lemma peer_tag_at:
  "peer_tags ! 1 = (0x03, ''Advertise'', DPath ''AdvertiseMessage'')"
  "peer_tags ! 2 = (0x04, ''SwapRequest'', DPath ''SwapMessage'')"
  "peer_tags ! 3 = (0x05, ''SwapAck'', DPath ''SwapMessage'')"
  "peer_tags ! 5 = (0x10, ''GetCurrentBranch'', DPath ''GetCurrentBranchMessage'')"
  "peer_tags ! 6 = (0x11, ''CurrentBranch'', DPath ''CurrentBranchMessage'')"
  "peer_tags ! 7 = (0x12, ''Deactivate'', DPath ''DeactivateMessage'')"
  "peer_tags ! 8 = (0x13, ''GetCurrentHead'', DPath ''GetCurrentHeadMessage'')"
  "peer_tags ! 9 = (0x14, ''CurrentHead'', DPath ''CurrentHeadMessage'')"
  "peer_tags ! 10 = (0x20, ''GetBlockHeaders'', DPath ''GetBlockHeadersMessage'')"
  "peer_tags ! 11 = (0x21, ''BlockHeader'', DPath ''BlockHeaderMessage'')"
  "peer_tags ! 12 = (0x30, ''GetOperations'', DPath ''GetOperationsMessage'')"
  "peer_tags ! 13 = (0x31, ''Operation'', DPath ''OperationMessage'')"
  "peer_tags ! 14 = (0x40, ''GetProtocols'', DPath ''GetProtocolsMessage'')"
  "peer_tags ! 15 = (0x41, ''Protocol'', DPath ''ProtocolMessage'')"
  "peer_tags ! 16 = (0x60, ''GetOperationsForBlocks'', DPath ''GetOperationsForBlocksMessage'')"
  "peer_tags ! 17 = (0x61, ''OperationsForBlocks'', DPath ''OperationsForBlocksMessage'')"
  by (simp_all add: peer_tags_def p2p_encodings_def)

lemma peer_tag_units: "peer_tags ! 0 = (0x01, ''Disconnect'', DUnit)" "peer_tags ! 4 = (0x02, ''Bootstrap'', DUnit)"
  by (simp_all add: peer_tags_def p2p_encodings_def)

lemma length_peer_tags: "length peer_tags = 18"
  by (simp add: peer_tags_def p2p_encodings_def)

lemma peer_index_at:
  "peer_index ''Advertise'' = word_of_nat 1"
  "peer_index ''SwapRequest'' = word_of_nat 2"
  "peer_index ''SwapAck'' = word_of_nat 3"
  "peer_index ''GetCurrentBranch'' = word_of_nat 5"
  "peer_index ''CurrentBranch'' = word_of_nat 6"
  "peer_index ''Deactivate'' = word_of_nat 7"
  "peer_index ''GetCurrentHead'' = word_of_nat 8"
  "peer_index ''CurrentHead'' = word_of_nat 9"
  "peer_index ''GetBlockHeaders'' = word_of_nat 10"
  "peer_index ''BlockHeader'' = word_of_nat 11"
  "peer_index ''GetOperations'' = word_of_nat 12"
  "peer_index ''Operation'' = word_of_nat 13"
  "peer_index ''GetProtocols'' = word_of_nat 14"
  "peer_index ''Protocol'' = word_of_nat 15"
  "peer_index ''GetOperationsForBlocks'' = word_of_nat 16"
  "peer_index ''OperationsForBlocks'' = word_of_nat 17"
  "peer_index ''Disconnect'' = word_of_nat 0" "peer_index ''Bootstrap'' = word_of_nat 4"
  by (simp_all add: peer_index_def peer_variants_def)

section \<open>Messages in their envelope\<close>

context fuzzer_crates
begin

lemma fit_envelope:
  "fit (DPath ''PeerMessage'') msg MESSAGE_MAX_SIZE \<Longrightarrow>
   fit (DPath ''PeerMessageResponse'') (peer_message_response_from msg) (MESSAGE_MAX_SIZE + 4)"
  unfolding peer_message_response_from_def
  by (rule fit_type, simp add: p2p_encodings_def, intro fits_dynamic fits_struct [where ns = "[MESSAGE_MAX_SIZE]"])
    (simp_all add: message_max)

lemma fit_peer:
  assumes "k < length peer_tags" and "peer_tags ! k = (i, v, DPath t)" and "peer_index v = word_of_nat k"
    and "fit (DPath t) r n" and "n + 2 \<le> MESSAGE_MAX_SIZE"
  shows "fit (DPath ''PeerMessageResponse'') (peer_message_response_from (peer_message v r)) (MESSAGE_MAX_SIZE + 4)"
  using fits_variant [OF assms(1,2) _ peer_tags_distinct assms(4), of "''PeerMessage''" TagU16 True] assms(3,5)
  by (intro fit_envelope fit_type [OF _ fits_mono])
    (simp_all add: peer_message_def peer_message_encoding [symmetric] p2p_encodings_def peer_tags_def)

lemma fit_peer_unit:
  assumes "k < length peer_tags" and "peer_tags ! k = (i, v, DUnit)" and "peer_index v = word_of_nat k"
  shows "fit (DPath ''PeerMessageResponse'') (peer_message_response_from (peer_unit v)) (MESSAGE_MAX_SIZE + 4)"
  using fits_unit_variant [OF assms(1,2) peer_tags_distinct, of _ _ _ "''PeerMessage''" TagU16 True] assms(3)
  by (intro fit_envelope fit_type [OF _ fits_mono [where m = 2]])
    (simp_all add: peer_unit_def peer_message_encoding [symmetric] p2p_encodings_def peer_tags_def message_max)

lemma gives_envelope:
  assumes "k < length peer_tags" and "peer_tags ! k = (i, v, DPath t)" and "peer_index v = word_of_nat k"
    and "gives fresh m (\<lambda>r. fit (DPath t) r n)" and "n + 2 \<le> MESSAGE_MAX_SIZE"
  shows "gives fresh (bind_call m (\<lambda>msg. ret (peer_message v msg)))
    (\<lambda>msg. fit (DPath ''PeerMessageResponse'') (peer_message_response_from msg) (MESSAGE_MAX_SIZE + 4))"
  by (rule gives_bind [OF assms(4)], rule gives_ret, rule fit_peer [OF assms(1-3) _ assms(5)])

lemmas gives_envelopes =
    gives_envelope [OF _ peer_tag_at(1) peer_index_at(1) gives_advertise]
    gives_envelope [OF _ peer_tag_at(2) peer_index_at(2) gives_swap]
    gives_envelope [OF _ peer_tag_at(3) peer_index_at(3) gives_swap]
    gives_envelope [OF _ peer_tag_at(4) peer_index_at(4) gives_chain_messages(1)]
    gives_envelope [OF _ peer_tag_at(5) peer_index_at(5) gives_branch_message]
    gives_envelope [OF _ peer_tag_at(6) peer_index_at(6) gives_chain_messages(3)]
    gives_envelope [OF _ peer_tag_at(7) peer_index_at(7) gives_chain_messages(2)]
    gives_envelope [OF _ peer_tag_at(8) peer_index_at(8) gives_head_message]
    gives_envelope [OF _ peer_tag_at(9) peer_index_at(9) gives_get_lists(1)]
    gives_envelope [OF _ peer_tag_at(10) peer_index_at(10) gives_header_message]
    gives_envelope [OF _ peer_tag_at(11) peer_index_at(11) gives_get_lists(2)]
    gives_envelope [OF _ peer_tag_at(12) peer_index_at(12) gives_operation_message]
    gives_envelope [OF _ peer_tag_at(13) peer_index_at(13) gives_get_lists(3)]
    gives_envelope [OF _ peer_tag_at(14) peer_index_at(14) gives_protocol_message]
    gives_envelope [OF _ peer_tag_at(15) peer_index_at(15) gives_get_operations_for_blocks]
    gives_envelope [OF _ peer_tag_at(16) peer_index_at(16) gives_operations_for_blocks_message]

lemma gives_push:
  assumes "name \<in> set peer_variants"
  shows "gives fresh (push_message E name)
    (\<lambda>msg. fit (DPath ''PeerMessageResponse'') (peer_message_response_from msg) (MESSAGE_MAX_SIZE + 4))"
proof -
  note sizes = length_peer_tags message_max PROTOCOL_COMPONENT_MAX_SIZE_def PROTOCOL_MAX_SIZE_def
  show ?thesis
    using assms fit_peer_unit [OF _ peer_tag_units(1) peer_index_at(17)] fit_peer_unit [OF _ peer_tag_units(2) peer_index_at(18)]
      gives_envelopes [simplified sizes, simplified]
    unfolding peer_variants_def push_message_def by (auto simp: sizes)
qed

lemma gives_push_one:
  assumes "messages \<noteq> []" and "set messages \<subseteq> set peer_variants"
  shows "gives fresh (push_one E messages) (\<lambda>bs. \<exists>r. as_bytes (ge_wire E) (ge_hex E) (ge_num E) (ge_types E ''PeerMessageResponse'') r = Ok bs
    \<and> from_bytes (ge_ncomb E) (ge_types E ''PeerMessageResponse'') bs = Ok r)"
  unfolding push_one_def
proof (rule gives_bind [OF gives_draws(1)])
  fix i assume "0 \<le> i \<and> i < length messages"
  then have "messages ! i \<in> set peer_variants" using assms(2) by auto
  then show "gives fresh (bind_call (push_message E (messages ! i)) (\<lambda>msg.
        lift_res (value_bytes_of E ''PeerMessageResponse'' (peer_message_response_from msg))))
      (\<lambda>bs. \<exists>r. as_bytes (ge_wire E) (ge_hex E) (ge_num E) (ge_types E ''PeerMessageResponse'') r = Ok bs
        \<and> from_bytes (ge_ncomb E) (ge_types E ''PeerMessageResponse'') bs = Ok r)"
  proof (rule gives_bind [OF gives_push])
    fix msg assume msg: "fit (DPath ''PeerMessageResponse'') (peer_message_response_from msg) (MESSAGE_MAX_SIZE + 4)"
    let ?T = "ge_types E ''PeerMessageResponse''" and ?r = "peer_message_response_from msg"
    obtain bs where bs: "as_bytes (ge_wire E) (ge_hex E) (ge_num E) ?T ?r = Ok bs"
      "encodes (ge_num E) (z_bytes (ge_wire E) (ge_hex E)) ?T ?r bs"
      using written [OF msg] by (auto simp: value_bytes_of_def usize_max_def message_max)
    have "''PeerMessageResponse'' \<in> fst ` set p2p_encodings" by (simp add: p2p_encodings_def)
    then have "final_ok (ge_num E) (z_bytes (ge_wire E) (ge_hex E)) ?T" unfolding types by (rule p2p_final [OF readers syn])
    then have "t_nom_read ?T bs = Ok ([], ?r)" using bs(2) by (rule final_okD)
    then have "from_bytes (ge_ncomb E) ?T bs = Ok ?r"
      using ncomb_laws.all_consuming_complete_Ok reader.axioms(2) [OF readers(1)] by (auto simp: from_bytes_def)
    then show "gives fresh (lift_res (value_bytes_of E ''PeerMessageResponse'' ?r))
      (\<lambda>bs. \<exists>r. as_bytes (ge_wire E) (ge_hex E) (ge_num E) ?T r = Ok bs \<and> from_bytes (ge_ncomb E) ?T bs = Ok r)"
      using bs(1) by (intro gives_lift) (auto simp: value_bytes_of_def)
  qed
qed (use assms(1) in simp)

end

section \<open>Bursts that end\<close>

lemma push_loop_returns: "messages_per_chunk options \<noteq> 0 \<Longrightarrow> \<exists>y. push_loop E options key remaining c = Some y"
proof (induction remaining arbitrary: c rule: less_induct)
  case (less remaining)
  have "0 < unat (messages_per_chunk options)" using less.prems by (simp add: unat_gt_0)
  then show ?case
    using less.IH [OF _ less.prems] by (subst push_loop.simps) (auto split: prod.split res.split)
qed

lemma send_nothing:
  assumes "rng_laws (ge_rng E)" and "is_probability (flip_bits options)" and "is_probability (split_chunks options)"
  shows "\<exists>c'. send_bytes E options key [] c = (Ok (), c')"
proof -
  have shuffle: "\<exists>s'. shuffle (ge_rng E) [] s = (Ok [], s')" for s
    using rng_laws.shuffle_perm [OF assms(1), of "[]" "rs_rng s"] by (auto simp: shuffle_def split: prod.splits)
  have bool: "\<exists>b s'. gen_bool (ge_rng E) p s = (Ok b, s')" if "is_probability p" for p s
    using that by (auto simp: gen_bool_def split: prod.splits)
  obtain b1 s1 where 1: "gen_bool (ge_rng E) (flip_bits options) (lk_gen (cn_link c)) = (Ok b1, s1)" using bool [OF assms(2)] by blast
  obtain b2 s2 where 2: "gen_bool (ge_rng E) (split_chunks options) s1 = (Ok b2, s2)" using bool [OF assms(3)] by blast
  obtain s3 where 3: "shuffle (ge_rng E) [] s2 = (Ok [], s3)" using shuffle by blast
  have "flip_message (ge_rng E) [] s1 = (Ok [], s1)" by (simp add: flip_message_def)
  moreover have "gen_chunks (ge_rng E) (ge_sodium E) (ge_bigint E) (ge_wire E) [] key (cn_local c) s2 = (Ok ([], cn_local c), s3)"
    using 3 by (simp add: gen_chunks_def chunk_sizes.simps bind_call_def Let_def)
  moreover have "chunks_of (CONTENT_LENGTH_MAX - MACBYTES) [] = []" by (simp add: chunks_of.simps)
  ultimately show ?thesis
    using 1 2 by (cases b1; cases b2) (simp_all add: send_bytes_def write_bytes_encrypted_def in_link_def in_gen_def bind_call_def)
qed

lemma push_loop_never:
  assumes "messages_per_chunk options = 0" and "rng_laws (ge_rng E)" and "is_probability (flip_bits (po_chunk_options options))"
    and "is_probability (split_chunks (po_chunk_options options))"
  shows "push_loop E options key remaining c = None"
proof (rule ccontr)
  have batch: "\<exists>c'. push_batch E options key c = (Ok (), c')" for c
    using send_nothing [OF assms(2-4), of key c] assms(1) by (simp add: push_batch_def on_gen_def in_link_def in_gen_def bind_call_def)
  assume "push_loop E options key remaining c \<noteq> None"
  then obtain y where y: "push_loop E options key remaining c = Some y" by blast
  have "(E', options', key') = (E, options, key) \<longrightarrow> False" if "push_loop E' options' key' remaining' c' = Some y'" for E' options' key' remaining' c' y'
  proof (rule push_loop.raw_induct [where P = "\<lambda>E' options' key' remaining c y. (E', options', key') = (E, options, key) \<longrightarrow> False", OF _ that])
    fix loop E' options' key' remaining c y
    assume hyp: "\<And>E' options' key' remaining c y. loop E' options' key' remaining c = Some y \<Longrightarrow> (E', options', key') = (E, options, key) \<longrightarrow> False"
      and body: "(if remaining < unat (messages_per_chunk options') then Some (Ok (), c)
        else (case push_batch E' options' key' c of
           (Ok _, c) \<Rightarrow> loop E' options' key' (remaining - unat (messages_per_chunk options')) c
         | (Err e, c) \<Rightarrow> Some (Err e, c)
         | (Panic, c) \<Rightarrow> Some (Panic, c))) = Some y"
    obtain c' where "push_batch E options key c = (Ok (), c')" using batch by blast
    then show "(E', options', key') = (E, options, key) \<longrightarrow> False"
      using hyp [of E options key remaining c' y] body assms(1) by auto
  qed
  from this [OF y] show False by simp
qed

section \<open>Messages of the node\<close>

lemma take_chunks_of: "0 < n \<Longrightarrow> bs \<noteq> [] \<Longrightarrow> hd (chunks_of n bs) = take n bs"
  by (subst chunks_of.simps) simp

context fuzzer_crates
begin

lemma node_message_received:
  assumes "fit (DPath ''PeerMessageResponse'') r k" and "k \<le> usize_max" and "nonce_value n + k \<le> 2 ^ 192"
  shows "\<exists>c0 c'. recv_msg E key ''PeerMessageResponse'' True c0 = Some (Ok r, c')
    \<and> cn_remote c0 = n \<and> lk_gen (cn_link c0) = lk_gen (cn_link c)"
proof -
  let ?T = "ge_types E ''PeerMessageResponse''"
  obtain bs where bs: "as_bytes (ge_wire E) (ge_hex E) (ge_num E) ?T r = Ok bs" "length bs \<le> k"
    "encodes (ge_num E) (z_bytes (ge_wire E) (ge_hex E)) ?T r bs"
    using written [OF assms(1,2)] by (auto simp: value_bytes_of_def)
  have "''PeerMessageResponse'' \<in> fst ` set p2p_encodings" by (simp add: p2p_encodings_def)
  then have "final_ok (ge_num E) (z_bytes (ge_wire E) (ge_hex E)) ?T" unfolding types by (rule p2p_final [OF readers syn])
  then have "t_nom_read ?T bs = Ok ([], r)" using bs(3) by (rule final_okD)
  then have decoded: "from_bytes (ge_ncomb E) ?T bs = Ok r"
    using ncomb_laws.all_consuming_complete_Ok reader.axioms(2) [OF readers(1)] by (auto simp: from_bytes_def)
  obtain G where G: "?T = derive N (ge_ncomb E) (ge_wire E) (ge_bigint E) G (DDynamic (Some MESSAGE_MAX_SIZE) (DStruct ''PeerMessageResponse''
      [(''message'', Some (DPath ''PeerMessage''))]))"
    using peer_response_type [OF syn] types by metis
  obtain body where body: "length body < 2 ^ 32" "bs = to_be32 (word_of_nat (length body)) @ body"
    using encodes_dynamic bs(3) G by metis
  have head: "from_be (take 4 bs) + 4 = length bs" "4 \<le> length bs" using body by (simp_all add: unat_length32)
  let ?ps = "chunks_of 65518 bs"
  have ne: "bs \<noteq> []" using head(2) by auto
  have ps: "concat ?ps = bs" "list_all (\<lambda>p. p \<noteq> [] \<and> length p \<le> 65518) ?ps" using concat_chunks_of [of 65518 bs] by simp_all
  have "list_all (\<lambda>p. p \<noteq> []) ?ps" "list_all (\<lambda>p. length p \<le> CONTENT_LENGTH_MAX - MACBYTES) ?ps"
    using ps(2) by (auto simp: list_all_iff CONTENT_LENGTH_MAX_def MACBYTES_def)
  moreover from length_chunks [OF this(1)] have "nonce_value n + length ?ps \<le> 2 ^ 192" using ps(1) bs(2) assms(3) by simp
  ultimately obtain cs where cs: "sealed_chunks (ge_sodium E) (ge_bigint E) key n ?ps cs"
    using seal_parts_ok [OF box wire] by blast
  let ?w = "concat (map chunk_raw cs)"
  let ?s = "\<lparr>incoming = map (\<lambda>x. Received [x]) ?w, outgoing = [], writes_left = None\<rparr>"
  have "arriving ?s ?w" by (auto simp: arriving_def intro!: exI [of _ "map (\<lambda>x. [x]) ?w"] simp: concat_map_singleton)
  moreover have "hd ?ps = take 65518 bs" using take_chunks_of ne by simp
  moreover have "?ps \<noteq> []" using ps(1) ne by auto
  ultimately obtain b' s' n' where "read_msg (ge_get_u16 E) (ge_sodium E) (ge_bigint E) (ge_ncomb E) ?T key True n chunk_buffer_default ?s
      = Some (Ok (r, n'), b', s')"
    using read_msg_parts [OF u16, of "ge_ncomb E" ?T "[]" ?ps r "ge_sodium E" "ge_bigint E" key n cs 0 chunk_buffer_default ?s ?w "[]"]
      decoded head ps cs by (auto simp: read_msg_def)
  then show ?thesis
    by - (rule exI [of _ "\<lparr>cn_link = \<lparr>lk_gen = lk_gen (cn_link c), lk_stream = ?s\<rparr>, cn_local = n, cn_remote = n, cn_buffer = chunk_buffer_default\<rparr>"],
      simp add: recv_msg_def Let_def)
qed

end

section \<open>A jammed reader\<close>

lemma read_msg_jammed:
  assumes "read_msg_loop g S I C T key True bs len n b s = Some (r, y)"
  shows "0 < len \<Longrightarrow> len < length bs \<or> (len = length bs \<and> (\<forall>m. from_bytes C T bs \<noteq> Ok m)) \<Longrightarrow> r \<noteq> Ok m"
proof -
  let ?I = "\<lambda>C T pm bs len. pm \<and> 0 < len \<and> (len < length bs \<or> (len = length bs \<and> (\<forall>m. from_bytes C T bs \<noteq> Ok m)))"
  have "?I C T True bs len \<longrightarrow> (\<forall>m. fst (r, y) \<noteq> Ok m)"
  proof (rule read_msg_loop.raw_induct [where P = "\<lambda>g S I C T key pm bs len n b s z. ?I C T pm bs len \<longrightarrow> (\<forall>m. fst z \<noteq> Ok m)", OF _ assms])
    fix loop g and S :: "'st sodium" and I C T key pm bs len n b s z
    assume hyp: "\<And>g S I C T key pm bs len n b s z. loop g S I C T key pm bs len n b s = Some z \<Longrightarrow> ?I C T pm bs len \<longrightarrow> (\<forall>m. fst z \<noteq> Ok m)"
      and body: "(case read_chunk g b s of
        None \<Rightarrow> None
      | Some (Err e, b, s) \<Rightarrow> Some (Err e, b, s)
      | Some (Panic, b, s) \<Rightarrow> Some (Panic, b, s)
      | Some (Ok chunk, b, s) \<Rightarrow>
          (case decrypt S I key (chunk_content chunk) n of
             Err _ \<Rightarrow> Some (Err DecryptError, b, s)
           | Panic \<Rightarrow> Some (Panic, b, s)
           | Ok decrypted \<Rightarrow>
               (let bs = bs @ decrypted in
                if len = 0 \<and> pm \<and> length bs < MESSAGE_HEADER_LENGTH then Some (Panic, b, s)
                else
                  (let len = (if len = 0 \<and> pm then from_be (take MESSAGE_HEADER_LENGTH bs) + MESSAGE_HEADER_LENGTH else len);
                       nonce = increment n in
                   if length bs = len \<or> \<not> pm then
                     (case from_bytes C T bs of
                        Ok m \<Rightarrow> Some (Ok (m, nonce), b, s)
                      | Err _ \<Rightarrow> loop g S I C T key pm bs len nonce b s
                      | Panic \<Rightarrow> Some (Panic, b, s))
                   else loop g S I C T key pm bs len nonce b s)))) = Some z"
    show "?I C T pm bs len \<longrightarrow> (\<forall>m. fst z \<noteq> Ok m)"
    proof
      assume inv: "?I C T pm bs len"
      show "\<forall>m. fst z \<noteq> Ok m"
      proof (cases "\<exists>chunk b1 s1 d. read_chunk g b s = Some (Ok chunk, b1, s1) \<and> decrypt S I key (chunk_content chunk) n = Ok d")
        case True
        then obtain chunk b1 s1 d where d: "read_chunk g b s = Some (Ok chunk, b1, s1)" "decrypt S I key (chunk_content chunk) n = Ok d"
          by blast
        have again: "loop g S I C T key pm (bs @ d) len (increment n) b1 s1 = Some z \<or> z = (Panic, b1, s1)"
          using body inv d by (auto simp: Let_def split: if_splits res.splits)
        have "?I C T pm (bs @ d) len" using inv by auto
        then show ?thesis using again hyp [of g S I C T key pm "bs @ d" len "increment n" b1 s1 z] by auto
      next
        case False
        then show ?thesis using body by (auto split: option.splits prod.splits res.splits)
      qed
    qed
  qed
  then show "0 < len \<Longrightarrow> len < length bs \<or> (len = length bs \<and> (\<forall>m. from_bytes C T bs \<noteq> Ok m)) \<Longrightarrow> r \<noteq> Ok m"
    by (cases m) simp
qed

section \<open>The crates for the examples\<close>

definition env_ref :: "(nat list, nat \<times> bytes) gen_env" where
  "env_ref = \<lparr>ge_rng = rng_ref, ge_sodium = sodium_ref, ge_bigint = bigint_ref, ge_wire = wire_ref, ge_hex = hex_ref, ge_num = num_ser_ref,
     ge_get_u16 = get_u16_ref, ge_ncomb = ncomb_ref, ge_types = ref_type, ge_checks = False, ge_first_key = hd\<rparr>"

interpretation env_ref: fuzzer_crates env_ref nom_ref path_nom_ref syn_ref
  by (rule fuzzer_crates.intro)
    (simp_all add: env_ref_def wire_ref.wire_laws_axioms reader_ref.reader_axioms path_ref.path_reader_axioms syn_ref.p2p_syn_axioms
      crypto_box_ref.crypto_box_axioms hex_ref.hex_laws_axioms reads_u16_ref rng_ref.rng_laws_axioms)

definition burst_options :: "u64 \<Rightarrow> peer_message_options" where
  "burst_options n = \<lparr>po_chunk_options = plain_options, messages_per_chunk = n, push_messages = [''Bootstrap''], max_push_throughput = 5,
     po_reply_options = None\<rparr>"

definition conn_example :: "nat list conn" where
  "conn_example = \<lparr>cn_link = link_example, cn_local = \<lparr>nonce_value = 7\<rparr>, cn_remote = \<lparr>nonce_value = 9\<rparr>, cn_buffer = chunk_buffer_default\<rparr>"

section \<open>Properties\<close>

text \<open>
  C5. A fuzzer that has heard nothing from the node never fails to make a message: whatever numbers are drawn, and for any choice
  among the 18 kinds of messages, generating and encoding returns, again and again, and the node's decoder reads each of the
  byte strings back to the message that was generated.
\<close>

theorem new_fuzzer_messages_decode:
  assumes "fuzzer_crates E N P Y" and "fresh s" and "messages \<noteq> []" and "set messages \<subseteq> set peer_variants"
  shows "\<exists>batch s'. repeat_call k (push_one E messages) s = (Ok batch, s') \<and> fresh s' \<and> length batch = k
    \<and> list_all (\<lambda>bs. \<exists>r. as_bytes (ge_wire E) (ge_hex E) (ge_num E) (ge_types E ''PeerMessageResponse'') r = Ok bs
        \<and> from_bytes (ge_ncomb E) (ge_types E ''PeerMessageResponse'') bs = Ok r) batch"
  using gives_repeat [OF fuzzer_crates.gives_push_one [OF assms(1,3,4)], of k] assms(2) unfolding gives_def by blast

theorem new_fuzzer_messages_decode_witness:
  "\<exists>batch s'. repeat_call 3 (push_one env_ref [''CurrentBranch'', ''Protocol'']) gen_example = (Ok batch, s') \<and> fresh s' \<and> length batch = 3"
  using new_fuzzer_messages_decode [OF env_ref.fuzzer_crates_axioms, of gen_example "[''CurrentBranch'', ''Protocol'']" 3]
  by (auto simp: gen_example_def fresh_def peer_variants_def)

text \<open>
  C27. When a burst ends. Its length is drawn from 1 to \<^verbatim>\<open>max_push_throughput\<close>. When this range is empty, drawing panics and nothing is sent. Otherwise
  the loop runs forever exactly when the profile asks for no messages per chunk, since it then subtracts nothing from the
  number of messages left; with any other value it ends, normally, with the error or with the panic of a batch.
\<close>

theorem burst_ends:
  assumes "rng_laws (ge_rng E)" and "is_probability (flip_bits (po_chunk_options options))"
    and "is_probability (split_chunks (po_chunk_options options))"
  shows "if unat (max_push_throughput options + 1) \<le> 1 then fuzz_peer_messages E options key c = Some (Panic, c)
    else fuzz_peer_messages E options key c = None \<longleftrightarrow> messages_per_chunk options = 0"
proof (cases "1 < unat (max_push_throughput options + 1)")
  case True
  obtain n s where "gen_range (ge_rng E) 1 (unat (max_push_throughput options + 1)) (lk_gen (cn_link c)) = (Ok n, s)"
    using yields_range [OF True, of "lk_gen (cn_link c)" "ge_rng E"] by (auto simp: yields_def)
  then have "fuzz_peer_messages E options key c = push_loop E options key n (c\<lparr>cn_link := (cn_link c)\<lparr>lk_gen := s\<rparr>\<rparr>)"
    by (simp add: fuzz_peer_messages_def bind_run_def run_call_def on_gen_def in_link_def in_gen_def)
  then show ?thesis using True push_loop_never [OF _ assms] push_loop_returns [of options E key n "c\<lparr>cn_link := (cn_link c)\<lparr>lk_gen := s\<rparr>\<rparr>"]
    by (cases "messages_per_chunk options = 0") auto
next
  case False
  then show ?thesis
    by (simp add: fuzz_peer_messages_def bind_run_def run_call_def on_gen_def in_link_def in_gen_def gen_range_def)
qed

theorem burst_ends_witness:
  "fuzz_peer_messages env_ref (burst_options 0) [5] conn_example = None \<and> fuzz_peer_messages env_ref (burst_options 2) [5] conn_example \<noteq> None
    \<and> fuzz_peer_messages env_ref ((burst_options 2)\<lparr>max_push_throughput := 0\<rparr>) [5] conn_example = Some (Panic, conn_example)"
  using burst_ends [where E = env_ref and options = "burst_options 0" and key = "[5]" and c = conn_example]
    burst_ends [where E = env_ref and options = "burst_options 2" and key = "[5]" and c = conn_example]
    burst_ends [where E = env_ref and options = "(burst_options 2)\<lparr>max_push_throughput := 0\<rparr>" and key = "[5]" and c = conn_example]
  by (simp add: env_ref_def rng_ref.rng_laws_axioms burst_options_def plain_options_def)

text \<open>
  C32. A block of the node with a second fitness element that is not 8 bytes long ends the session. When the fuzzer answers messages and the next
  message it receives is a \<^verbatim>\<open>CurrentHead\<close> or \<^verbatim>\<open>CurrentBranch\<close> with such a block, the loop of the session panics. Any other \<^verbatim>\<open>CurrentHead\<close> or
  \<^verbatim>\<open>CurrentBranch\<close> is taken note of without a panic or an error.
\<close>

theorem bad_fitness_panics:
  assumes "po_reply_options options = Some reply" and "recv_msg E key ''PeerMessageResponse'' True c = Some (Ok m, c')"
    and "get_field ''message'' m = peer_message ''CurrentHead'' body \<and> header = get_field ''current_block_header'' body
      \<or> get_field ''message'' m = peer_message ''CurrentBranch'' body
        \<and> header = get_field ''current_head'' (get_field ''current_branch'' body)"
  shows "if 1 < length (header_fitness header) \<and> length (header_fitness header ! 1) \<noteq> 8
    then \<exists>c''. message_loop E options key c = Some (Panic, c'')
    else \<exists>c''. handle_response E options key c = Some (Ok (), c'')"
proof -
  have "\<exists>c''. answer E options reply key (get_field ''message'' m) c' =
      (if 1 < length (header_fitness header) \<and> length (header_fitness header ! 1) \<noteq> 8 then Panic else Ok (), c'')"
    using assms(3)
    by (auto simp: answer_def peer_message_def on_gen_def in_link_def in_gen_def set_chain_id_def set_current_head_def
        set_current_branch_def fitness_number_def bind_call_def Let_def)
  then obtain c'' where "handle_response E options key c =
      Some (if 1 < length (header_fitness header) \<and> length (header_fitness header ! 1) \<noteq> 8 then Panic else Ok (), c'')"
    using assms(1,2) by (auto simp: handle_response_def bind_run_def run_call_def)
  then show ?thesis by (subst message_loop.simps) simp
qed

definition short_fitness_head :: rust where
  \<comment> \<open>a head whose second fitness element has one byte\<close>
  "short_fitness_head = current_head_message_new (replicate 4 0)
     (header_value 1 1 (replicate 32 0) 0 0 (replicate 32 0) [[0], [1]] (replicate 32 0) []) (mempool_new [] [])"

theorem bad_fitness_panics_witness:
  "\<exists>c c' c''. recv_msg env_ref [5] ''PeerMessageResponse'' True c
      = Some (Ok (peer_message_response_from (peer_message ''CurrentHead'' short_fitness_head)), c')
    \<and> message_loop env_ref ((burst_options 2)\<lparr>po_reply_options := Some \<lparr>ro_bootstrap = 0, ro_get_current_head = 0, ro_get_current_branch = 0, ro_get_block_headers = 0, ro_get_operations_for_blocks = 0\<rparr>\<rparr>) [5] c = Some (Panic, c'')"
proof -
  let ?header = "header_value 1 1 (replicate 32 0) 0 0 (replicate 32 0) [[0], [1]] (replicate 32 0) []"
  let ?m = "peer_message_response_from (peer_message ''CurrentHead'' short_fitness_head)"
  have "env_ref.fit (DPath ''BlockHeader'') ?header (BLOCK_HEADER_MAX_SIZE - 50)"
    by (rule env_ref.fit_header [where n = 10]) (simp_all add: BLOCK_HEADER_MAX_SIZE_def)
  moreover have "env_ref.fit (DPath ''Mempool'') (mempool_new [] []) MEMPOOL_MAX_SIZE"
    by (rule env_ref.fit_mempool) (simp_all add: MEMPOOL_MAX_OPERATIONS_def)
  ultimately have head: "env_ref.fit (DPath ''CurrentHeadMessage'') short_fitness_head (BLOCK_HEADER_MAX_SIZE + MEMPOOL_MAX_SIZE)"
    unfolding short_fitness_head_def by (intro env_ref.fit_head_message) simp_all
  have fit: "env_ref.fit (DPath ''PeerMessageResponse'') ?m (MESSAGE_MAX_SIZE + 4)"
    by (rule env_ref.fit_peer [OF _ peer_tag_at(8) peer_index_at(8) head], simp add: length_peer_tags)
      (simp add: message_max BLOCK_HEADER_MAX_SIZE_def MEMPOOL_MAX_SIZE_def MEMPOOL_MAX_OPERATIONS_def)
  obtain c c' where c: "recv_msg env_ref [5] ''PeerMessageResponse'' True c = Some (Ok ?m, c')"
    using env_ref.node_message_received [OF fit, of "\<lparr>nonce_value = 9\<rparr>" "[5]" conn_example] by (auto simp: message_max usize_max_def)
  have message: "get_field ''message'' ?m = peer_message ''CurrentHead'' short_fitness_head
      \<and> ?header = get_field ''current_block_header'' short_fitness_head"
    by (simp add: peer_message_response_from_def short_fitness_head_def current_head_message_new_def)
  have "header_fitness ?header = [[0], [1]]"
    by (simp add: header_value_def header_fitness_def fitness_value_def bytes_value_def value_u8s_def)
  then show ?thesis
    using bad_fitness_panics [OF _ c disjI1 [OF message], of "(burst_options 2)\<lparr>po_reply_options := Some \<lparr>ro_bootstrap = 0, ro_get_current_head = 0, ro_get_current_branch = 0, ro_get_block_headers = 0, ro_get_operations_for_blocks = 0\<rparr>\<rparr>"] c
    by auto
qed

text \<open>
  Once the node has sent a block header with an empty fitness, the fuzzer cannot vary it: whenever the draw of the fitness asks to keep
  its first element, mutating the header panics.
\<close>

theorem empty_fitness_not_mutated:
  assumes "\<And>g. fst (rng_bool (ge_rng E) p_0_9 g)" and "header_fitness data = []"
  shows "\<nexists>r s'. mutate_block_header E data s = (Ok r, s')"
proof -
  have "\<nexists>x s'. mutate_fitness E [] k s = (Ok x, s')" for k s
    using assms(1) [of "rs_rng s"] by (auto simp: mutate_fitness_def bind_call_def gen_bool_def split: prod.splits)
  then show ?thesis by (auto simp: mutate_block_header_def Let_def assms(2) bind_call_eq_Ok)
qed

definition keep_env :: "(nat list, nat \<times> bytes) gen_env" where
  "keep_env = env_ref\<lparr>ge_rng := rng_ref\<lparr>rng_bool := \<lambda>p g. (p \<noteq> 0, g)\<rparr>\<rparr>"

theorem empty_fitness_not_mutated_witness:
  "\<nexists>r s'. mutate_block_header keep_env (header_value 1 1 [] 0 0 [] [] [] []) gen_example = (Ok r, s')"
  by (rule empty_fitness_not_mutated)
    (simp_all add: keep_env_def p_0_9_def header_value_def header_fitness_def fitness_value_def)

text \<open>
  C29. One peer message that does not decode, for instance of an unknown kind, jams the reader: \<^verbatim>\<open>read_msg\<close> keeps the bytes and waits
  for a total length that is already passed, so it never returns a message again, whatever follows.
\<close>

theorem undecodable_message_jams:
  assumes "reads_u16 g" and "framed c" and "length (chunk_content c) = length m + MACBYTES" and "decrypt S I key (chunk_content c) n = Ok m"
    and "from_be (take 4 m) + 4 = length m" and "length m \<le> 65518" and "\<And>r. from_bytes C T m \<noteq> Ok r" and "cb_ok b" and "arriving s bs"
    and "contents b @ bs = chunk_raw c @ rest"
  shows "\<nexists>r n' b' s'. read_msg g S I C T key True n b s = Some (Ok (r, n'), b', s')"
proof -
  obtain b1 s1 where chunk: "read_chunk g b s = Some (Ok c, b1, s1)"
    using read_chunk_ok [OF assms(1,2) framed_fits [OF assms(2,3,6)] assms(8-10), of 0] by (auto simp: read_chunk_def)
  have "read_msg g S I C T key True n b s = Some (Panic, b1, s1)
      \<or> read_msg g S I C T key True n b s = read_msg_loop g S I C T key True m (length m) (increment n) b1 s1"
    unfolding read_msg_def
    by (subst (1 2) read_msg_loop.simps)
      (use chunk assms(4,5,7) in \<open>auto simp: MESSAGE_HEADER_LENGTH_def Let_def split: res.splits\<close>)
  then show ?thesis
    using read_msg_jammed [of g S I C T key m "length m" "increment n" b1 s1] assms(5,7) by fastforce
qed

theorem undecodable_message_jams_witness:
  "\<exists>c. decrypt sodium_ref bigint_ref [5] (chunk_content c) \<lparr>nonce_value = 7\<rparr> = Ok [0, 0, 0, 2, 0, 0x99]
    \<and> (\<nexists>r n' b' s'. read_msg get_u16_ref sodium_ref bigint_ref ncomb_ref (ref_type ''PeerMessageResponse'') [5] True \<lparr>nonce_value = 7\<rparr>
        chunk_buffer_default \<lparr>incoming = [Received (chunk_raw c)], outgoing = [], writes_left = None\<rparr> = Some (Ok (r, n'), b', s'))"
proof -
  let ?m = "[0, 0, 0, 2, 0, 0x99] :: bytes"
  obtain c where c: "framed c" "length (chunk_content c) = length ?m + MACBYTES"
    "decrypt sodium_ref bigint_ref [5] (chunk_content c) \<lparr>nonce_value = 7\<rparr> = Ok ?m"
    using crypto_box.seal_chunk [OF crypto_box_ref.crypto_box_axioms wire_ref.wire_laws_axioms, of "\<lparr>nonce_value = 7\<rparr>" ?m "[5]"]
    by (auto simp: CONTENT_LENGTH_MAX_def MACBYTES_def)
  have be: "to_be32 2 = [0, 0, 0, 2]" "to_be16 0x99 = [0, 0x99]" by code_simp+
  have "\<exists>e. from_bytes ncomb_ref (ref_type ''PeerMessageResponse'') ?m = Err e"
    using unknown_tag_errors [OF reader_ref.reader_axioms syn_ref.p2p_syn_axioms _ _ refl refl,
        where t = "0x99" and rest = "[]" and P = path_nom_ref and W = wire_ref and I = bigint_ref]
    by (auto simp: peer_tags_def p2p_encodings_def MESSAGE_MAX_SIZE_def be)
  moreover have "arriving \<lparr>incoming = [Received (chunk_raw c)], outgoing = [], writes_left = None\<rparr> (chunk_raw c)"
    using framed_take2 [OF c(1)] by (auto simp: arriving_def intro!: exI [of _ "[chunk_raw c]"])
  ultimately have "\<nexists>r n' b' s'. read_msg get_u16_ref sodium_ref bigint_ref ncomb_ref (ref_type ''PeerMessageResponse'') [5] True
      \<lparr>nonce_value = 7\<rparr> chunk_buffer_default \<lparr>incoming = [Received (chunk_raw c)], outgoing = [], writes_left = None\<rparr> = Some (Ok (r, n'), b', s')"
    using cb_ok_default by (intro undecodable_message_jams [OF reads_u16_ref c, where rest = "[]"]) (auto simp: from_be_def)
  then show ?thesis using c(3) by blast
qed

end
