(* ===== verification/Signature_Keys.thy ===== *)
theory Signature_Keys
  imports Gen_State
begin

text \<open>
  Public keys and their hashes with the curve they belong to: \<^verbatim>\<open>tezos/messages/src/base/mod.rs\<close>, \<^verbatim>\<open>signature_public_key_hash.rs\<close> and
  \<^verbatim>\<open>signature_public_key.rs\<close>. A text is the list of its bytes, as characters.
\<close>

section \<open>Errors\<close>

text \<open>The text of an \<^verbatim>\<open>InvalidHash\<close> error is the given text or the description of another error.\<close>

datatype hash_reason =
    GivenText string
  | HexReason string
  | Base58Reason from_base58check_error
  | BytesReason from_bytes_error

datatype conversion_error = InvalidPublicKey | InvalidHash hash_reason | InvalidCurveTag string

datatype pkh_conversion_error =
    PkhInvalidPublicKey
  | PkhInvalidHash hash_reason
  | PkhInvalidCurveTag string
  | PkhBlake2bError

definition text_prefix :: "nat \<Rightarrow> string \<Rightarrow> string option" where
  "text_prefix n s = (if is_char_boundary (map of_char s) n then Some (take n s) else None)"

definition str_prefix :: "nat \<Rightarrow> string \<Rightarrow> ('e, string) res" where
  \<comment> \<open>\<open>&s[0..n]\<close>, which panics inside of a character\<close>
  "str_prefix n s = (case text_prefix n s of Some p \<Rightarrow> Ok p | None \<Rightarrow> Panic)"

section \<open>Hashes of public keys\<close>

datatype signature_public_key_hash = PkhEd25519 bytes | PkhSecp256k1 bytes | PkhP256 bytes

definition pkh_to_string :: "'st sodium \<Rightarrow> base58 \<Rightarrow> signature_public_key_hash \<Rightarrow> (unit, string) res" where
  "pkh_to_string S B k =
     (case k of
        PkhEd25519 h \<Rightarrow> to_base58_check S B ContractTz1Hash h
      | PkhSecp256k1 h \<Rightarrow> to_base58_check S B ContractTz2Hash h
      | PkhP256 h \<Rightarrow> to_base58_check S B ContractTz3Hash h)"

definition pkh_try_into :: "hash_type \<Rightarrow> (bytes \<Rightarrow> signature_public_key_hash) \<Rightarrow> bytes \<Rightarrow> (pkh_conversion_error, signature_public_key_hash) res" where
  \<comment> \<open>\<open>hash.try_into()?\<close> under a variant\<close>
  "pkh_try_into ht variant h = res_bind (map_err (\<lambda>e. PkhInvalidHash (BytesReason e)) (try_from_bytes ht h)) (\<lambda>h. Ok (variant h))"

definition pkh_from_hex_hash_and_curve :: "hex_crate \<Rightarrow> string \<Rightarrow> string \<Rightarrow> (pkh_conversion_error, signature_public_key_hash) res" where
  "pkh_from_hex_hash_and_curve H hash curve =
     (if length hash = 40 then
        res_bind (map_err (\<lambda>e. PkhInvalidHash (HexReason e)) (hex_decode H hash)) (\<lambda>hash.
          if curve = ''ed25519'' then pkh_try_into ContractTz1Hash PkhEd25519 hash
          else if curve = ''secp256k1'' then pkh_try_into ContractTz2Hash PkhSecp256k1 hash
          else if curve = ''p256'' then pkh_try_into ContractTz3Hash PkhP256 hash
          else Err (PkhInvalidCurveTag curve))
      else Err (PkhInvalidHash (GivenText hash)))"

definition pkh_of_text :: "'st sodium \<Rightarrow> base58 \<Rightarrow> hash_type \<Rightarrow> (bytes \<Rightarrow> signature_public_key_hash) \<Rightarrow> string
    \<Rightarrow> (pkh_conversion_error, signature_public_key_hash) res" where
  "pkh_of_text S B ht variant text =
     res_bind (map_err (\<lambda>e. PkhInvalidHash (Base58Reason e)) (from_base58_check S B ht text)) (\<lambda>h. Ok (variant h))"

definition pkh_from_b58_hash :: "'st sodium \<Rightarrow> base58 \<Rightarrow> string \<Rightarrow> (pkh_conversion_error, signature_public_key_hash) res" where
  "pkh_from_b58_hash S B b58_hash =
     (if 3 < length b58_hash then
        res_bind (str_prefix 3 b58_hash) (\<lambda>prefix.
          if prefix = ''tz1'' then pkh_of_text S B ContractTz1Hash PkhEd25519 b58_hash
          else if prefix = ''tz2'' then pkh_of_text S B ContractTz2Hash PkhSecp256k1 b58_hash
          else if prefix = ''tz3'' then pkh_of_text S B ContractTz3Hash PkhP256 b58_hash
          else Err (PkhInvalidCurveTag prefix))
      else Err (PkhInvalidHash (GivenText b58_hash)))"

definition pkh_from_tagged_bytes :: "'st sodium \<Rightarrow> hex_crate \<Rightarrow> bytes \<Rightarrow> (pkh_conversion_error, signature_public_key_hash) res" where
  "pkh_from_tagged_bytes S H pk =
     (if length pk = 33 \<or> length pk = 34 then
        res_bind (map_err (\<lambda>_. PkhBlake2bError) (digest_160 S (drop 1 pk))) (\<lambda>hash.
          if pk ! 0 = 0 then pkh_from_hex_hash_and_curve H (hex_encode H hash) ''ed25519''
          else if pk ! 0 = 1 then pkh_from_hex_hash_and_curve H (hex_encode H hash) ''secp256k1''
          else if pk ! 0 = 2 then pkh_from_hex_hash_and_curve H (hex_encode H hash) ''p256''
          else Err PkhInvalidPublicKey)
      else Err PkhInvalidPublicKey)"

section \<open>Public keys\<close>

datatype signature_public_key = PkEd25519 bytes | PkSecp256k1 bytes | PkP256 bytes

definition pk_to_string :: "'st sodium \<Rightarrow> base58 \<Rightarrow> signature_public_key \<Rightarrow> (unit, string) res" where
  "pk_to_string S B k =
     (case k of
        PkEd25519 h \<Rightarrow> to_base58_check S B PublicKeyEd25519 h
      | PkSecp256k1 h \<Rightarrow> to_base58_check S B PublicKeySecp256k1 h
      | PkP256 h \<Rightarrow> to_base58_check S B PublicKeyP256 h)"

definition pk_of_text :: "'st sodium \<Rightarrow> base58 \<Rightarrow> hash_type \<Rightarrow> (bytes \<Rightarrow> signature_public_key) \<Rightarrow> string
    \<Rightarrow> (conversion_error, signature_public_key) res" where
  "pk_of_text S B ht variant text =
     res_bind (map_err (\<lambda>e. InvalidHash (Base58Reason e)) (from_base58_check S B ht text)) (\<lambda>h. Ok (variant h))"

definition pk_from_b58_hash :: "'st sodium \<Rightarrow> base58 \<Rightarrow> string \<Rightarrow> (conversion_error, signature_public_key) res" where
  "pk_from_b58_hash S B b58_hash =
     (if 4 < length b58_hash then
        res_bind (str_prefix 4 b58_hash) (\<lambda>prefix.
          if prefix = ''edpk'' then pk_of_text S B PublicKeyEd25519 PkEd25519 b58_hash
          else if prefix = ''sppk'' then pk_of_text S B PublicKeySecp256k1 PkSecp256k1 b58_hash
          else if prefix = ''p2pk'' then pk_of_text S B PublicKeyP256 PkP256 b58_hash
          else Err (InvalidCurveTag prefix))
      else Err (InvalidHash (GivenText b58_hash)))"

definition pk_try_into :: "hash_type \<Rightarrow> (bytes \<Rightarrow> signature_public_key) \<Rightarrow> bytes \<Rightarrow> (conversion_error, signature_public_key) res" where
  "pk_try_into ht variant h = res_bind (map_err (\<lambda>e. InvalidHash (BytesReason e)) (try_from_bytes ht h)) (\<lambda>h. Ok (variant h))"

definition pk_from_hex_hash_and_curve :: "hex_crate \<Rightarrow> string \<Rightarrow> string \<Rightarrow> (conversion_error, signature_public_key) res" where
  "pk_from_hex_hash_and_curve H hash curve =
     (if length hash = 66 \<or> length hash = 64 then
        res_bind (map_err (\<lambda>e. InvalidHash (HexReason e)) (hex_decode H hash)) (\<lambda>hash.
          if curve = ''ed25519'' then pk_try_into PublicKeyEd25519 PkEd25519 hash
          else if curve = ''secp256k1'' then pk_try_into PublicKeySecp256k1 PkSecp256k1 hash
          else if curve = ''p256'' then pk_try_into PublicKeyP256 PkP256 hash
          else Err (InvalidCurveTag curve))
      else Err (InvalidHash (GivenText hash)))"

definition pk_from_tagged_bytes :: "hex_crate \<Rightarrow> bytes \<Rightarrow> (conversion_error, signature_public_key) res" where
  "pk_from_tagged_bytes H pk =
     (if length pk = 33 \<or> length pk = 34 then
        (if pk ! 1 = 0 then pk_from_hex_hash_and_curve H (hex_encode H (drop 2 pk)) ''ed25519''
         else if pk ! 1 = 1 then pk_from_hex_hash_and_curve H (hex_encode H (drop 2 pk)) ''secp256k1''
         else if pk ! 1 = 2 then pk_from_hex_hash_and_curve H (hex_encode H (drop 2 pk)) ''p256''
         else Err InvalidPublicKey)
      else Err InvalidPublicKey)"

section \<open>Text prefixes\<close>

text \<open>
  The \<^verbatim>\<open>base58\<close> crate writes a number in the digits of Bitcoin's alphabet, one \<^verbatim>\<open>1\<close> for every leading zero byte. This is why the type
  prefix of a hash determines how its text begins.
\<close>

locale base58_text = base58check S B
  for S :: "'st sodium" and B :: base58 +
  assumes to_base58_digits: "to_base58 B bs =
    replicate (length (takeWhile (\<lambda>b. b = 0) bs)) (b58_alphabet ! 0) @ map (\<lambda>d. b58_alphabet ! d) (digits 58 (from_be bs))"

lemma digits_split:
  assumes "2 \<le> b" and "0 < n div b ^ k"
  shows "\<exists>ds. length ds = k \<and> digits b n = digits b (n div b ^ k) @ ds"
  using assms(2)
proof (induction k arbitrary: n)
  case (Suc k)
  then have "0 < n div b div b ^ k" and "0 < n" by (simp_all add: div_mult2_eq) (rule ccontr, simp)
  then obtain ds where "length ds = k" "digits b (n div b) = digits b (n div b div b ^ k) @ ds" using Suc.IH by blast
  then show ?case using \<open>0 < n\<close> assms(1)
    by (subst digits.simps) (auto simp: div_mult2_eq intro!: exI [of _ "ds @ [n mod b]"])
qed simp

lemma digits_range:
  assumes "p * m div 58 ^ k = c" and "(p * m + (m - 1)) div 58 ^ k = c" and "0 < c" and "r < m"
  shows "\<exists>ds. length ds = k \<and> digits 58 (p * m + r) = digits 58 c @ ds"
proof -
  have "p * m div 58 ^ k \<le> (p * m + r) div 58 ^ k" and "(p * m + r) div 58 ^ k \<le> (p * m + (m - 1)) div 58 ^ k"
    using assms(4) by (intro div_le_mono; simp)+
  then have "(p * m + r) div 58 ^ k = c" using assms(1,2) by simp
  then show ?thesis using digits_split [of 58 "p * m + r" k] assms(3) by simp
qed

lemma b58_ascii: "d < 58 \<Longrightarrow> \<not> cont_byte (of_char (b58_alphabet ! d))"
proof -
  have "list_all (\<lambda>c. \<not> cont_byte (of_char c)) b58_alphabet" by code_simp
  then show "d < 58 \<Longrightarrow> ?thesis" by (simp add: list_all_length b58_alphabet_facts)
qed

context base58_text
begin

lemma text_begins:
  assumes "length h = hash_size ht" and "hd (base58check_prefix ht) \<noteq> 0"
    and "from_be (base58check_prefix ht) * 256 ^ (hash_size ht + 4) div 58 ^ k = c"
    and "(from_be (base58check_prefix ht) * 256 ^ (hash_size ht + 4) + (256 ^ (hash_size ht + 4) - 1)) div 58 ^ k = c" and "0 < c"
    and "map (\<lambda>d. b58_alphabet ! d) (digits 58 c) = p" and "length p = n" and "0 < k"
  shows "\<exists>s. to_base58_check S B ht h = Ok s \<and> n < length s \<and> text_prefix n s = Some p \<and> from_base58_check S B ht s = Ok h"
proof -
  let ?p = "base58check_prefix ht" and ?r = "h @ take 4 (double_sha256 S (base58check_prefix ht @ h))"
  have len: "length ?r = hash_size ht + 4" using assms(1) by simp
  have "from_be (?p @ ?r) = from_be ?p * 256 ^ (hash_size ht + 4) + from_be ?r"
    using from_be_append [of ?p ?r] len by simp
  moreover have "from_be ?r < 256 ^ (hash_size ht + 4)" using from_be_less [of ?r] len by simp
  ultimately obtain ds where "length ds = k" and ds: "digits 58 (from_be (?p @ ?r)) = digits 58 c @ ds"
    using digits_range [OF assms(3-5)] by metis
  have "takeWhile (\<lambda>b. b = 0) (?p @ ?r) = []" using assms(2) by (cases ht) simp_all
  then have "to_base58 B (?p @ ?r) = map (\<lambda>d. b58_alphabet ! d) (digits 58 c) @ map (\<lambda>d. b58_alphabet ! d) ds"
    using ds by (simp add: to_base58_digits)
  moreover have "to_base58_check S B ht h = Ok (to_base58 B (?p @ ?r))"
    using assms(1) prefix_size_bound [of ht] by (simp add: to_base58_check_def hash_to_b58check_def to_base58check_def)
  moreover have "\<forall>d\<in>set ds. d < 58"
    using ds digits_less [of _ 58 "from_be (?p @ ?r)"] by auto
  then have "text_prefix (length (digits 58 c)) (map (\<lambda>d. b58_alphabet ! d) (digits 58 c) @ map (\<lambda>d. b58_alphabet ! d) ds)
      = Some (map (\<lambda>d. b58_alphabet ! d) (digits 58 c))"
    by (cases ds) (auto simp: text_prefix_def is_char_boundary_def nth_append b58_ascii)
  ultimately show ?thesis
    using hash_b58_any_type [OF assms(1) refl refl] \<open>length ds = k\<close> assms(6-8)
    by (intro exI [of _ "p @ map (\<lambda>d. b58_alphabet ! d) ds"]) (auto simp: to_base58_check_def from_base58_check_def)
qed

lemma tz_texts:
  "length h = 20 \<Longrightarrow> \<exists>s. to_base58_check S B ContractTz1Hash h = Ok s \<and> 3 < length s \<and> text_prefix 3 s = Some ''tz1''
    \<and> from_base58_check S B ContractTz1Hash s = Ok h"
  "length h = 20 \<Longrightarrow> \<exists>s. to_base58_check S B ContractTz2Hash h = Ok s \<and> 3 < length s \<and> text_prefix 3 s = Some ''tz2''
    \<and> from_base58_check S B ContractTz2Hash s = Ok h"
  "length h = 20 \<Longrightarrow> \<exists>s. to_base58_check S B ContractTz3Hash h = Ok s \<and> 3 < length s \<and> text_prefix 3 s = Some ''tz3''
    \<and> from_base58_check S B ContractTz3Hash s = Ok h"
  subgoal by (rule text_begins [where k = 33 and c = 174870]) (simp_all add: from_be_def digits.simps b58_alphabet_def)
  subgoal by (rule text_begins [where k = 33 and c = 174871]) (simp_all add: from_be_def digits.simps b58_alphabet_def)
  subgoal by (rule text_begins [where k = 33 and c = 174872]) (simp_all add: from_be_def digits.simps b58_alphabet_def)
  done

lemma pk_texts:
  "length h = 32 \<Longrightarrow> \<exists>s. to_base58_check S B PublicKeyEd25519 h = Ok s \<and> 4 < length s \<and> text_prefix 4 s = Some ''edpk''
    \<and> from_base58_check S B PublicKeyEd25519 s = Ok h"
  "length h = 33 \<Longrightarrow> \<exists>s. to_base58_check S B PublicKeySecp256k1 h = Ok s \<and> 4 < length s \<and> text_prefix 4 s = Some ''sppk''
    \<and> from_base58_check S B PublicKeySecp256k1 s = Ok h"
  "length h = 33 \<Longrightarrow> \<exists>s. to_base58_check S B PublicKeyP256 h = Ok s \<and> 4 < length s \<and> text_prefix 4 s = Some ''p2pk''
    \<and> from_base58_check S B PublicKeyP256 s = Ok h"
  subgoal by (rule text_begins [where k = 50 and c = 7343017]) (simp_all add: from_be_def digits.simps b58_alphabet_def)
  subgoal by (rule text_begins [where k = 51 and c = 9916477]) (simp_all add: from_be_def digits.simps b58_alphabet_def)
  subgoal by (rule text_begins [where k = 51 and c = 9176397]) (simp_all add: from_be_def digits.simps b58_alphabet_def)
  done

end

interpretation b58_text_ref: base58_text sodium_ref base58_ref
  by unfold_locales (simp add: base58_ref_def to_base58_ref_def)

definition pkh_ok :: "signature_public_key_hash \<Rightarrow> bool" where
  "pkh_ok k = (case k of PkhEd25519 h \<Rightarrow> length h = 20 | PkhSecp256k1 h \<Rightarrow> length h = 20 | PkhP256 h \<Rightarrow> length h = 20)"

definition pk_ok :: "signature_public_key \<Rightarrow> bool" where
  "pk_ok k = (case k of PkEd25519 h \<Rightarrow> length h = 32 | PkSecp256k1 h \<Rightarrow> length h = 33 | PkP256 h \<Rightarrow> length h = 33)"

lemma length_hex_encode: "hex_laws H \<Longrightarrow> length (hex_encode H bs) = 2 * length bs"
  by (induction bs) (simp_all add: hex_laws.hex_encode_def)

lemma pkh_text:
  assumes "base58_text S B" and "pkh_ok h"
  shows "\<exists>s. pkh_to_string S B h = Ok s \<and> pkh_from_b58_hash S B s = Ok h"
proof (cases h)
  case (PkhEd25519 x)
  then obtain s where "to_base58_check S B ContractTz1Hash x = Ok s" "3 < length s" "text_prefix 3 s = Some ''tz1''" "from_base58_check S B ContractTz1Hash s = Ok x"
    using base58_text.tz_texts(1) [OF assms(1), of x] assms(2) by (auto simp: pkh_ok_def)
  then show ?thesis using PkhEd25519 by (simp add: pkh_to_string_def pkh_from_b58_hash_def str_prefix_def pkh_of_text_def)
next
  case (PkhSecp256k1 x)
  then obtain s where "to_base58_check S B ContractTz2Hash x = Ok s" "3 < length s" "text_prefix 3 s = Some ''tz2''" "from_base58_check S B ContractTz2Hash s = Ok x"
    using base58_text.tz_texts(2) [OF assms(1), of x] assms(2) by (auto simp: pkh_ok_def)
  then show ?thesis using PkhSecp256k1 by (simp add: pkh_to_string_def pkh_from_b58_hash_def str_prefix_def pkh_of_text_def)
next
  case (PkhP256 x)
  then obtain s where "to_base58_check S B ContractTz3Hash x = Ok s" "3 < length s" "text_prefix 3 s = Some ''tz3''" "from_base58_check S B ContractTz3Hash s = Ok x"
    using base58_text.tz_texts(3) [OF assms(1), of x] assms(2) by (auto simp: pkh_ok_def)
  then show ?thesis using PkhP256 by (simp add: pkh_to_string_def pkh_from_b58_hash_def str_prefix_def pkh_of_text_def)
qed

lemma pk_text:
  assumes "base58_text S B" and "pk_ok k"
  shows "\<exists>s. pk_to_string S B k = Ok s \<and> pk_from_b58_hash S B s = Ok k"
proof (cases k)
  case (PkEd25519 x)
  then obtain s where "to_base58_check S B PublicKeyEd25519 x = Ok s" "4 < length s" "text_prefix 4 s = Some ''edpk''" "from_base58_check S B PublicKeyEd25519 s = Ok x"
    using base58_text.pk_texts(1) [OF assms(1), of x] assms(2) by (auto simp: pk_ok_def)
  then show ?thesis using PkEd25519 by (simp add: pk_to_string_def pk_from_b58_hash_def str_prefix_def pk_of_text_def)
next
  case (PkSecp256k1 x)
  then obtain s where "to_base58_check S B PublicKeySecp256k1 x = Ok s" "4 < length s" "text_prefix 4 s = Some ''sppk''" "from_base58_check S B PublicKeySecp256k1 s = Ok x"
    using base58_text.pk_texts(2) [OF assms(1), of x] assms(2) by (auto simp: pk_ok_def)
  then show ?thesis using PkSecp256k1 by (simp add: pk_to_string_def pk_from_b58_hash_def str_prefix_def pk_of_text_def)
next
  case (PkP256 x)
  then obtain s where "to_base58_check S B PublicKeyP256 x = Ok s" "4 < length s" "text_prefix 4 s = Some ''p2pk''" "from_base58_check S B PublicKeyP256 s = Ok x"
    using base58_text.pk_texts(3) [OF assms(1), of x] assms(2) by (auto simp: pk_ok_def)
  then show ?thesis using PkP256 by (simp add: pk_to_string_def pk_from_b58_hash_def str_prefix_def pk_of_text_def)
qed

section \<open>Properties\<close>

text \<open>
  C18. The text of a public key or of the hash of one tells the curve: it begins with \<^verbatim>\<open>tz1\<close>, \<^verbatim>\<open>tz2\<close> or \<^verbatim>\<open>tz3\<close>, and with \<^verbatim>\<open>edpk\<close>, \<^verbatim>\<open>sppk\<close> or \<^verbatim>\<open>p2pk\<close>,
  whatever the bytes, so that reading it back gives the same variant with the same bytes.
\<close>

theorem signature_text_roundtrip:
  assumes "base58_text S B"
  shows "(pkh_ok h \<longrightarrow> (\<exists>s. pkh_to_string S B h = Ok s \<and> pkh_from_b58_hash S B s = Ok h))
    \<and> (pk_ok k \<longrightarrow> (\<exists>s. pk_to_string S B k = Ok s \<and> pk_from_b58_hash S B s = Ok k))"
  using pkh_text [OF assms, of h] pk_text [OF assms, of k] by blast

theorem signature_text_roundtrip_witness:
  "(\<exists>s. pkh_to_string sodium_ref base58_ref (PkhSecp256k1 (replicate 20 9)) = Ok s
      \<and> pkh_from_b58_hash sodium_ref base58_ref s = Ok (PkhSecp256k1 (replicate 20 9)))
    \<and> (\<exists>s. pk_to_string sodium_ref base58_ref (PkP256 (replicate 33 2)) = Ok s
      \<and> pk_from_b58_hash sodium_ref base58_ref s = Ok (PkP256 (replicate 33 2)))"
  using signature_text_roundtrip [OF b58_text_ref.base58_text_axioms, of "PkhSecp256k1 (replicate 20 9)" "PkP256 (replicate 33 2)"]
  by (simp add: pkh_ok_def pk_ok_def)

text \<open>
  C31. \<^verbatim>\<open>SignaturePublicKey::from_tagged_bytes\<close> takes the tag from the second byte: it accepts exactly the strings of 34 bytes with a
  zero there and returns the 32 bytes behind it. A tagged key as documented (one byte of tag, then 32 bytes, or 33 beginning with 2 or 3) is always refused.
\<close>

theorem tagged_key_refused:
  assumes "hex_laws H"
  shows "pk_from_tagged_bytes H pk = Ok k \<longleftrightarrow> length pk = 34 \<and> pk ! 1 = 0 \<and> k = PkEd25519 (drop 2 pk)"
  using hex_laws.hex_decode_encode [OF assms] length_hex_encode [OF assms]
  by (auto simp: pk_from_tagged_bytes_def pk_from_hex_hash_and_curve_def pk_try_into_def try_from_bytes_def)

theorem tagged_key_refused_witness:
  "pk_from_tagged_bytes hex_ref (0 # replicate 32 7) \<noteq> Ok (PkEd25519 (replicate 32 7)) \<and> pk_from_tagged_bytes hex_ref (1 # 2 # replicate 32 7) \<noteq> Ok (PkSecp256k1 (2 # replicate 32 7))
    \<and> pk_from_tagged_bytes hex_ref (1 # 0 # replicate 32 7) = Ok (PkEd25519 (replicate 32 7))"
  using tagged_key_refused [OF hex_ref.hex_laws_axioms, of "0 # replicate 32 7" "PkEd25519 (replicate 32 7)"]
    tagged_key_refused [OF hex_ref.hex_laws_axioms, of "1 # 2 # replicate 32 7" "PkSecp256k1 (2 # replicate 32 7)"]
    tagged_key_refused [OF hex_ref.hex_laws_axioms, of "1 # 0 # replicate 32 7" "PkEd25519 (replicate 32 7)"]
  by simp

text \<open>The hash of a tagged key, on the other hand, is that of the bytes behind the first one, under the variant of the tag.\<close>

theorem tagged_key_hash:
  assumes "sodium_laws S" and "hex_laws H"
  shows "\<exists>d. digest_160 S (drop 1 pk) = Ok d \<and> length d = 20 \<and> pkh_from_tagged_bytes S H pk =
    (if length pk \<noteq> 33 \<and> length pk \<noteq> 34 then Err PkhInvalidPublicKey
     else if pk ! 0 = 0 then Ok (PkhEd25519 d) else if pk ! 0 = 1 then Ok (PkhSecp256k1 d)
     else if pk ! 0 = 2 then Ok (PkhP256 d) else Err PkhInvalidPublicKey)"
proof -
  obtain d where "digest_160 S (drop 1 pk) = Ok d" "length d = 20"
    using sodium_laws.digest_ok [OF assms(1), of 20 "drop 1 pk"] by (auto simp: digest_160_def)
  then show ?thesis using hex_laws.hex_decode_encode [OF assms(2)] length_hex_encode [OF assms(2)]
    by (auto simp: pkh_from_tagged_bytes_def pkh_from_hex_hash_and_curve_def pkh_try_into_def try_from_bytes_def)
qed

text \<open>Reading a text panics when its fourth byte is inside of a character, and in no other case.\<close>

theorem key_text_panics: "pkh_from_b58_hash S B s = Panic \<longleftrightarrow> 3 < length s \<and> cont_byte (of_char (s ! 3))"
proof -
  have "from_base58_check S B ht s \<noteq> Panic" for ht
    by (auto simp: from_base58_check_def b58check_to_hash_def from_base58check_def Let_def res_bind_eq_Panic split: option.splits if_splits)
  then show ?thesis
    by (auto simp: pkh_from_b58_hash_def pkh_of_text_def str_prefix_def text_prefix_def is_char_boundary_def res_bind_eq_Panic map_err_eq_Panic)
qed

end
