(* ===== verification/Spec2Isabelle.thy ===== *)
theory Spec2Isabelle
  imports Seeded_Step Binary_Message Zarith Spsc_Concurrent Context_Binding Context_Values Context_Lost Context_Walk Gc_Safety Fuzzer_Safety Signature_Keys
begin

text \<open>
  A verification library for the fuzzer of Tezos nodes and the parts of the TezEdge node it is built from, the Rust
  sources under \<^verbatim>\<open>src/\<close>.

  \<^bold>\<open>The program.\<close> The fuzzer (\<^verbatim>\<open>p2p_fuzzer\<close>, \<^verbatim>\<open>generator\<close>, \<^verbatim>\<open>rpc_fuzzer\<close>) talks to a node in its peer-to-peer protocol. It rests on
  libraries of the node: \<^verbatim>\<open>crypto\<close> (hashes, base58check, nonces, the authenticated box, proof of work), \<^verbatim>\<open>tezos/encoding\<close> with
  \<^verbatim>\<open>tezos/encoding-derive\<close> (schemas, a writer driven by them, parsers, and the derive macros that generate both from
  annotated types), \<^verbatim>\<open>tezos/messages\<close> (the message types and their framing), \<^verbatim>\<open>tezos/spsc\<close> (a lock-free queue) and
  \<^verbatim>\<open>tezos/new_context\<close> (the Merkle storage of the ledger, with a garbage collector that runs in a thread of its own
  and hands freed ids back through the queue of \<^verbatim>\<open>spsc\<close>).

  \<^bold>\<open>Conventions.\<close> \<open>Prelude\<close> fixes the machine types, the outcome \<open>res\<close> of a call (\<open>Ok\<close>, \<open>Err\<close>, or \<open>Panic\<close> for every panic of
  the source: slicing, \<^verbatim>\<open>unwrap\<close>, and arithmetic that overflows, as in a build with overflow checks), and the shared lemmas; \<open>State_Res\<close> adds calls on a state, which
  is kept when a call fails. External crates are records of functions that the definitions take as arguments; what the
  code relies on is a locale per crate (\<open>Crates_Crypto\<close>, \<open>Crates_Wire\<close>, \<open>Crates_Nom\<close>, \<open>Context_Data\<close>), and a reference
  instance of every such locale shows that its laws can hold; the witnesses of the theorems use these instances. Two
  places treat overflow otherwise: \<open>Seeded_Step\<close> wraps around as a build without the checks does, and in the generator of messages the
  checks are a parameter (\<open>ge_checks\<close>), as both builds are of interest there.

  \<^bold>\<open>The crypto crate.\<close> \<open>Crypto_Hash\<close> models \<^verbatim>\<open>base58.rs\<close>, \<^verbatim>\<open>blake2b.rs\<close> and \<^verbatim>\<open>hash.rs\<close>: every typed hash has a text that
  reads back to it, and the text of one type is accepted for another. \<open>Crypto_Nonce\<close> models \<^verbatim>\<open>nonce.rs\<close> and \<^verbatim>\<open>crypto_box.rs\<close>: the
  two ends of a connection derive crossed nonces, and messages decrypt in order. \<open>Proof_Of_Work\<close> models \<^verbatim>\<open>proof_of_work.rs\<close>: the counter
  is the successor on 192 bits, so the search finds a stamp whenever there is one. \<open>Seeded_Step\<close> models \<^verbatim>\<open>seeded_step.rs\<close>.
  \<open>Identity_File\<close> models \<^verbatim>\<open>tezos/identity\<close>: a generated identity is sound and survives its file. \<open>Signature_Keys\<close> models \<^verbatim>\<open>tezos/messages/src/base\<close>:
  the text of a key begins with the letters of its curve, which follows from the digits of its prefix in base 58 (locale \<open>base58_text\<close>), and is
  read back; tagged public keys are refused.

  \<^bold>\<open>The wire format.\<close> \<open>Bit_Utils\<close>, \<open>Encoding\<close>, \<open>Z_Writer\<close>, \<open>Binary_Writer\<close>, \<open>Nom_Error\<close> and \<open>Nom_Reader\<close> model \<^verbatim>\<open>bit_utils.rs\<close>,
  \<^verbatim>\<open>encoding.rs\<close>/\<^verbatim>\<open>types.rs\<close>/\<^verbatim>\<open>ser.rs\<close>, \<^verbatim>\<open>binary_writer.rs\<close> (its numbers of any size in \<open>Z_Writer\<close>) and \<^verbatim>\<open>nom.rs\<close>; the writer, with its buffer and size placeholders, refines a format
  defined by recursion on the schema, with the numbers given by division. \<open>Derive\<close> and \<open>Derive_Make\<close> model the generators and the front end of the derive
  macros, \<open>Messages\<close> the annotated message types, elaborated by that model, \<open>Path_Codec\<close> and \<open>Path_Reader\<close> the custom codec of Merkle
  paths, and \<open>Binary_Message\<close> reading, writing, chunks and sizes. \<open>Roundtrip\<close> and \<open>Reader_Safety\<close> carry the two main results: a
  written message of any type is read back, and no input makes a decoder panic. \<open>Zarith\<close> treats numbers of any size.

  \<^bold>\<open>The queue.\<close> \<open>Spsc\<close> models \<^verbatim>\<open>tezos/spsc\<close> operation by operation and shows that it refines a bounded queue as long as no slice is longer than the
  capacity, the counters stay below the closed bit and the length of a full queue is not asked for after closing it. \<open>Spsc_Concurrent\<close> splits
  the operations into their accesses to shared memory and shows by rule induction that every interleaving of one
  producer and one consumer is a first-in first-out channel without a data race, under the first two conditions. Without the first,
  elements are lost (\<open>oversized_slice_loses\<close>) and the two threads race (\<open>oversized_slice_races\<close>).

  \<^bold>\<open>The context.\<close> \<open>Kv_Store\<close> and \<open>Context_Data\<close> model \<^verbatim>\<open>kv_store/\<close>, \<^verbatim>\<open>working_tree/mod.rs\<close> and the in-memory repository; nodes live on an
  explicit heap, since trees share them and reading, hashing and committing change them in place. \<open>Context_Hash\<close> models \<^verbatim>\<open>hash/\<close>,
  \<open>Tezedge_Index\<close>, \<open>Working_Tree\<close> and \<open>Tezedge_Context\<close> the three layers of operations, \<open>Gc_Worker\<close> the collector.
  \<open>Context_Rep\<close> relates heap and repository to abstract trees; \<open>Context_Lookup\<close>, \<open>Context_Update\<close>, \<open>Context_Ops\<close> and \<open>Context_Api\<close> show
  that operations on a context are operations on the tree it stands for (\<open>tree_step\<close>, what the code does), and that these are the documented operations
  on a store of values by path (\<open>kv_step\<close>) but for three cases in which the code departs from its documentation: deleting below a value, copying
  what is missing or a value, and \<^verbatim>\<open>mem\<close> of a directory. \<open>Context_Values\<close> draws consequences for single
  keys. \<open>Context_Hashing\<close>, \<open>Context_Root\<close> and \<open>Context_Binding\<close> show that the Merkle root is a function of the tree and determines it.
  \<open>Context_Commit\<close> and \<open>Context_Checkout\<close> show that a commit can be checked out, \<open>Context_Lost\<close> that it cannot after a call
  of \<^verbatim>\<open>hash\<close>. \<open>Context_Walk\<close> shows that the tree walker visits what it should and ends. \<open>Gc_Safety\<close> accounts for
  the ids of the collector: it invents none and hands none back more often than it was given, loses only marked ids without a value, and
  keeps what is marked together with what is below it in older cycles.

  \<^bold>\<open>The fuzzer.\<close> \<open>Gen_State\<close> models the state of \<^verbatim>\<open>generator/src/lib.rs\<close>, its draws from the \<^verbatim>\<open>rand\<close> crate (locale \<open>rng_laws\<close>) and random splitting
  into chunks, \<open>Message_Values\<close> the constructors of messages, and \<open>Gen_Messages\<close> every \<^verbatim>\<open>Generator\<close> and \<^verbatim>\<open>Mutator\<close>. \<open>P2p_Stream\<close> models the chunk buffer of
  \<^verbatim>\<open>p2p_fuzzer.rs\<close> with writing and reading of encrypted messages over a TCP stream: what is written is read back in whatever segments it
  arrives if the first chunk has 4 to 65518 bytes of plain text; the reader panics on a shorter one and does not return on a longer one, nor when a connection
  ends inside of a chunk. \<open>P2p_Fuzzer\<close> models the bursts, the answers to the node, the handshake,
  the session and the loop of a worker; a call that may run forever is a partial function into \<open>option\<close>. \<open>Encodable\<close>, \<open>Gen_Encodable\<close> and \<open>Fresh_Generator\<close> are
  the proof rules and lemmas, one per generator, for \<open>Fuzzer_Safety\<close>: every kind of message a new fuzzer pushes is generated without a panic,
  is within the limits of its type and decodes to itself (under the locale \<open>fuzzer_crates\<close>, interpreted on the reference crates); a burst
  panics when the profile allows it no message, and otherwise ends unless it sends no message per chunk; and there are messages of the node that end a
  session or jam its reader.

  \<^bold>\<open>Bounds and fuel.\<close> Loops over the input take fuel where they do not follow the structure of an argument. The loop of the number
  readers ends within one round per byte (\<open>number_readers_end\<close>); dropping a queue takes one round more than it has elements;
  the stamp search is a partial function, shown to return whenever a stamp meets the target. Recursions over the heap (\<open>entry_hash_id\<close>, \<open>get_entries_recursively\<close>, the views by
  prefix) take fuel and panic without, as the program would overflow its stack; the theorems ask for the depth of the tree the
  context stands for, and the walker for more than its size, so that the results hold outright. The
  loops that fill a list of components or operations take one round more than the bytes that are left, which is enough since an item takes
  at least one byte: \<open>new_fuzzer_messages_decode\<close> shows that they return. The loop of \<open>mark_loop\<close> and the partition into inodes have termination proofs. Hash ids are 64-bit words; the theorems on hashing
  name the exhaustion of all ids as the only other outcome. The theorems on contexts assume that no freed id has been
  handed back to the store (\<open>no_free_ids\<close>): reuse of an id that is still in use is what \<open>gc_frees_child_early\<close> shows to be possible.

  \<^bold>\<open>Not modelled.\<close> The command lines and the starting of tasks in the fuzzers and \<^verbatim>\<open>identity_tool\<close>, pauses, and the HTTP requests of \<^verbatim>\<open>rpc_fuzzer\<close>; sockets,
  files and JSON texts are parameters; the JSON views of protocol constants and rights; the interface to the OCaml protocol code and the process that runs it
  (\<^verbatim>\<open>tezos/api\<close>, \<^verbatim>\<open>interop\<close>, \<^verbatim>\<open>client\<close>, \<^verbatim>\<open>wrapper\<close>), whose counterpart is outside of the repository; \<^verbatim>\<open>timing\<close>, which only records durations;
  \<^verbatim>\<open>readonly_ipc.rs\<close>, the access to a context of another process. Within the modelled parts: locks and the dynamic
  borrow checks of cells (the context is used by one thread at a time), weak memory orderings in \<^verbatim>\<open>spsc\<close> (every access is
  sequentially consistent), memory statistics, and the texts of errors.
\<close>

end
